(* ===== verification/Prelude.thy ===== *)
theory Prelude
  imports Main "HOL-Library.Word"
begin

section \<open>Shared types, constants and lemmas\<close>

text \<open>
  The machine types the C sources use (\<open>unsigned long\<close>, \<open>uint32_t\<close>, \<open>int\<close>), the page
  constants of \<open>lib/include/ihk/mm.h\<close> and the architecture headers, the error numbers the
  modelled functions return, and the generic facts on words and lists that several component
  theories share.  Facts that turn word arithmetic into arithmetic on \<open>nat\<close> are collected
  under the name \<open>word_nat\<close>.
\<close>

unbundle bit_operations_syntax

type_synonym u64 = "64 word"
type_synonym u32 = "32 word"

named_theorems word_nat \<open>word arithmetic read as arithmetic on nat\<close>

text \<open>\<open>PAGE_SHIFT\<close> and \<open>PAGE_SIZE\<close> of the x86-64 port (4 KiB pages).\<close>

definition PAGE_SHIFT :: nat where
  "PAGE_SHIFT = 12"

definition PAGE_SIZE :: u64 where
  "PAGE_SIZE = 4096"

text \<open>Error numbers (positive, as in \<open>lib/include/generic-errno.h\<close>); \<open>int\<close> results carry
  them negated, exactly where the source negates them.\<close>

abbreviation (input) "EPERM \<equiv> (1::int)"
abbreviation (input) "ENOENT \<equiv> (2::int)"
abbreviation (input) "EINTR \<equiv> (4::int)"
abbreviation (input) "EAGAIN \<equiv> (11::int)"
abbreviation (input) "ENOMEM \<equiv> (12::int)"
abbreviation (input) "EFAULT \<equiv> (14::int)"
abbreviation (input) "EINVAL \<equiv> (22::int)"
abbreviation (input) "ENOSYS \<equiv> (38::int)"
abbreviation (input) "ETIMEDOUT \<equiv> (110::int)"

lemmas [word_nat] = word_le_nat_alt word_less_nat_alt word_unat_eq_iff

lemma u64_add: "unat a + unat b < 2 ^ 64 \<Longrightarrow> unat (a + b :: u64) = unat a + unat b"
  by (simp add: unat_word_ariths)

lemma u64_sub: "b \<le> a \<Longrightarrow> unat (a - b :: u64) = unat a - unat b"
  by (rule unat_sub)

lemma u64_pow2: "n < 64 \<Longrightarrow> unat (2 ^ n :: u64) = 2 ^ n"
  using unsigned_push_bit_eq [of n "1 :: u64", where ?'a=nat] power_strict_increasing [of n 64 "2 :: nat"]
  by (simp add: push_bit_eq_mult take_bit_eq_mod)

lemma u64_mask_clear: "x AND NOT (mask k) = push_bit k (drop_bit k (x :: u64))"
  by (rule bit_word_eqI) (auto simp: bit_simps)

lemma u64_align_down: "unat (x AND NOT (2 ^ k - 1) :: u64) = unat x div 2 ^ k * 2 ^ k"
proof -
  have "x AND NOT (2 ^ k - 1) = push_bit k (drop_bit k x)"
    using u64_mask_clear [of x k] by (simp add: mask_eq_exp_minus_1)
  also have "unat \<dots> = take_bit 64 (push_bit k (unat (drop_bit k x)))"
    using unsigned_push_bit_eq [of k "drop_bit k x", where ?'a=nat] by simp
  also have "unat (drop_bit k x) = unat x div 2 ^ k"
    using unsigned_drop_bit_eq [of k x, where ?'a=nat] unsigned_less [of x, where ?'a=nat]
    by (simp add: take_bit_eq_mod drop_bit_eq_div)
  also have "take_bit 64 (push_bit k (unat x div 2 ^ k)) = (unat x div 2 ^ k * 2 ^ k) mod 2 ^ 64"
    by (simp add: take_bit_eq_mod push_bit_eq_mult)
  also have "\<dots> = unat x div 2 ^ k * 2 ^ k"
    using unsigned_less [of x, where ?'a=nat] by (intro mod_less) (auto intro: le_less_trans [OF div_times_less_eq_dividend])
  finally show ?thesis .
qed

lemma sint_small: "unat w < 2 ^ 31 \<Longrightarrow> sint (w::32 word) = int (unat w)"
proof -
  assume a: "unat w < 2 ^ 31"
  have u: "int (unat w) = uint w" by (rule uint_nat [symmetric])
  have "uint w < 2 ^ 31" unfolding u [symmetric] using a by (simp only: of_nat_less_numeral_power_cancel_iff)
  moreover have "- (2 ^ 31) \<le> uint w" by (rule order_trans [OF _ uint_ge_0]) simp
  ultimately have "signed_take_bit 31 (uint w) = uint w" using signed_take_bit_int_eq_self by blast
  then show ?thesis unfolding u sint_uint by simp
qed

lemma scast_small: "unat w < 2 ^ 31 \<Longrightarrow> (scast (w::32 word) :: u64) = word_of_nat (unat w)"
  using sint_small [of w] by (simp only: scast_eq of_int_of_nat_eq)

text \<open>Conversion of an \<open>unsigned long\<close> to \<open>int\<close>.\<close>

definition to_int :: "u64 \<Rightarrow> int" where
  "to_int w = sint (ucast w :: 32 word)"

lemma to_int_small: "unat w < 2 ^ 31 \<Longrightarrow> to_int w = int (unat w)"
proof -
  assume w: "unat w < 2 ^ 31"
  have "unat (ucast w :: 32 word) = unat w"
    using w by (simp add: unsigned_ucast_eq take_bit_eq_mod)
  with sint_small [of "ucast w"] w show ?thesis by (simp only: to_int_def)
qed

text \<open>C arithmetic on values that are kept as mathematical integers: conversion to \<open>int\<close> (two's
  complement, 32 bits) and to \<open>unsigned long\<close>.\<close>

definition c_int :: "int \<Rightarrow> int" where
  "c_int x = (x + 2 ^ 31) mod 2 ^ 32 - 2 ^ 31"

definition c_ulong :: "int \<Rightarrow> int" where
  "c_ulong x = x mod 2 ^ 64"

lemma c_int_small: "- (2 ^ 31) \<le> x \<Longrightarrow> x < 2 ^ 31 \<Longrightarrow> c_int x = x"
  by (simp add: c_int_def)

lemma c_int_range: "- (2 ^ 31) \<le> c_int x \<and> c_int x < 2 ^ 31"
  using pos_mod_bound [of "2 ^ 32" "x + 2 ^ 31"] pos_mod_sign [of "2 ^ 32" "x + 2 ^ 31"] unfolding c_int_def by simp

lemma c_ulong_small: "0 \<le> x \<Longrightarrow> x < 2 ^ 64 \<Longrightarrow> c_ulong x = x"
  by (simp add: c_ulong_def)

end
