(* ===== verification/Bitops.thy ===== *)
theory Bitops
  imports Prelude
begin

section \<open>Bit operations\<close>

text \<open>
  \<open>lib/bitops.c\<close> and \<open>lib/include/bitops-*.h\<close>: searching for bits in a word by halving, and in
  a memory region of 64-bit words by skipping whole words.  A region is a list of words; a read
  outside of it is \<open>None\<close>, so the equivalence theorems also say that the searches stay inside.
\<close>

unbundle bit_operations_syntax

subsection \<open>Definitions\<close>

text \<open>\<open>fls\<close>: position (from 1) of the last set bit of a 32-bit word, 0 for none.  One step tests
  the upper \<open>k\<close> bits and shifts the word up if they are clear.\<close>

definition fls_step :: "nat \<Rightarrow> u32 \<times> nat \<Rightarrow> u32 \<times> nat" where
  "fls_step k p = (case p of (x, r) \<Rightarrow>
     if x AND push_bit (32 - k) (mask k) = 0 then (push_bit k x, r - k) else (x, r))"

definition fls :: "u32 \<Rightarrow> nat" where
  "fls x = (if x = 0 then 0
            else snd (fls_step 1 (fls_step 2 (fls_step 4 (fls_step 8 (fls_step 16 (x, 32)))))))"

text \<open>\<open>__ffs\<close>: position (from 0) of the first set bit of a 64-bit word, undefined for 0.\<close>

definition ffs_step :: "nat \<Rightarrow> u64 \<times> nat \<Rightarrow> u64 \<times> nat" where
  "ffs_step k p = (case p of (w, num) \<Rightarrow>
     if w AND mask k = 0 then (drop_bit k w, num + k) else (w, num))"

definition ffs0 :: "u64 \<Rightarrow> nat" where
  "ffs0 w = (case ffs_step 2 (ffs_step 4 (ffs_step 8 (ffs_step 16 (ffs_step 32 (w, 0))))) of
      (w, num) \<Rightarrow> if w AND 1 = 0 then num + 1 else num)"

definition ffz :: "u64 \<Rightarrow> nat" where
  "ffz x = ffs0 (NOT x)"

definition word_at :: "u64 list \<Rightarrow> nat \<Rightarrow> u64 option" where
  "word_at m p = (if p < length m then Some (m ! p) else None)"

definition set_bit_at :: "nat \<Rightarrow> u64 list \<Rightarrow> u64 list option" where
  "set_bit_at nr m = (case word_at m (nr div 64) of
      None \<Rightarrow> None
    | Some w \<Rightarrow> Some (m[nr div 64 := w OR push_bit (nr mod 64) 1]))"

definition clear_bit_at :: "nat \<Rightarrow> u64 list \<Rightarrow> u64 list option" where
  "clear_bit_at nr m = (case word_at m (nr div 64) of
      None \<Rightarrow> None
    | Some w \<Rightarrow> Some (m[nr div 64 := w AND NOT (push_bit (nr mod 64) 1)]))"

text \<open>\<open>test_bit\<close> reads the region as 32-bit words (little endian).\<close>

definition test_bit_at :: "nat \<Rightarrow> u64 list \<Rightarrow> bool option" where
  "test_bit_at nr m = (case word_at m (nr div 32 div 2) of
      None \<Rightarrow> None
    | Some w \<Rightarrow> Some (push_bit (nr mod 32) 1 AND ucast (ucast (drop_bit (32 * (nr div 32 mod 2)) w) :: u32) \<noteq> (0 :: u64)))"

text \<open>The part of \<open>find_next_bit\<close> at the label \<open>found_first\<close>.\<close>

definition find_bit_last :: "u64 \<Rightarrow> nat \<Rightarrow> nat \<Rightarrow> nat" where
  "find_bit_last tmp sz result =
     (let tmp = tmp AND drop_bit (64 - sz) (NOT 0)
      in if tmp = 0 then result + sz else result + ffs0 tmp)"

function find_bit_loop :: "u64 list \<Rightarrow> nat \<Rightarrow> nat \<Rightarrow> nat \<Rightarrow> nat option" where
  "find_bit_loop m p sz result =
     (if 64 \<le> sz then
        (case word_at m p of
           None \<Rightarrow> None
         | Some tmp \<Rightarrow> if tmp \<noteq> 0 then Some (result + ffs0 tmp)
                       else find_bit_loop m (p + 1) (sz - 64) (result + 64))
      else if sz = 0 then Some result
      else
        (case word_at m p of
           None \<Rightarrow> None
         | Some tmp \<Rightarrow> Some (find_bit_last tmp sz result)))"
  by pat_completeness auto
termination by (relation "measure (\<lambda>(m, p, sz, result). sz)") auto

definition find_next_bit :: "u64 list \<Rightarrow> nat \<Rightarrow> nat \<Rightarrow> nat option" where
  "find_next_bit m sz offset =
     (let p = offset div 64; result = offset - offset mod 64
      in if sz \<le> offset then Some sz
         else
           (let sz = sz - result; offset = offset mod 64
            in if offset \<noteq> 0 then
                 (case word_at m p of
                    None \<Rightarrow> None
                  | Some tmp \<Rightarrow>
                      (let tmp = tmp AND push_bit offset (NOT 0)
                       in if sz < 64 then Some (find_bit_last tmp sz result)
                          else if tmp \<noteq> 0 then Some (result + ffs0 tmp)
                          else find_bit_loop m (p + 1) (sz - 64) (result + 64)))
               else find_bit_loop m p sz result))"

definition find_first_bit :: "u64 list \<Rightarrow> nat \<Rightarrow> nat option" where
  "find_first_bit m sz = find_bit_loop m 0 sz 0"

definition find_zero_last :: "u64 \<Rightarrow> nat \<Rightarrow> nat \<Rightarrow> nat" where
  "find_zero_last tmp sz result =
     (let tmp = tmp OR push_bit sz (NOT 0)
      in if tmp = NOT 0 then result + sz else result + ffz tmp)"

function find_zero_loop :: "u64 list \<Rightarrow> nat \<Rightarrow> nat \<Rightarrow> nat \<Rightarrow> nat option" where
  "find_zero_loop m p sz result =
     (if 64 \<le> sz then
        (case word_at m p of
           None \<Rightarrow> None
         | Some tmp \<Rightarrow> if NOT tmp \<noteq> 0 then Some (result + ffz tmp)
                       else find_zero_loop m (p + 1) (sz - 64) (result + 64))
      else if sz = 0 then Some result
      else
        (case word_at m p of
           None \<Rightarrow> None
         | Some tmp \<Rightarrow> Some (find_zero_last tmp sz result)))"
  by pat_completeness auto
termination by (relation "measure (\<lambda>(m, p, sz, result). sz)") auto

definition find_next_zero_bit :: "u64 list \<Rightarrow> nat \<Rightarrow> nat \<Rightarrow> nat option" where
  "find_next_zero_bit m sz offset =
     (let p = offset div 64; result = offset - offset mod 64
      in if sz \<le> offset then Some sz
         else
           (let sz = sz - result; offset = offset mod 64
            in if offset \<noteq> 0 then
                 (case word_at m p of
                    None \<Rightarrow> None
                  | Some tmp \<Rightarrow>
                      (let tmp = tmp OR drop_bit (64 - offset) (NOT 0)
                       in if sz < 64 then Some (find_zero_last tmp sz result)
                          else if NOT tmp \<noteq> 0 then Some (result + ffz tmp)
                          else find_zero_loop m (p + 1) (sz - 64) (result + 64)))
               else find_zero_loop m p sz result))"

definition find_first_zero_bit :: "u64 list \<Rightarrow> nat \<Rightarrow> nat option" where
  "find_first_zero_bit m sz = find_zero_loop m 0 sz 0"

declare find_bit_loop.simps [simp del] find_zero_loop.simps [simp del]

subsection \<open>Searching in a word\<close>

lemma word_zero_iff: "w = 0 \<longleftrightarrow> (\<forall>i. \<not> bit w i)" for w :: "'a::len word"
  by (auto simp: bit_eq_iff dest: bit_imp_le_length)

lemma bit_index_less: "bit w i \<Longrightarrow> i < 64" "bit v i \<Longrightarrow> i < 32" for w :: u64 and v :: u32
  using bit_imp_le_length [of w i] bit_imp_le_length [of v i] by simp_all

lemma and_mask_zero_iff: "w AND mask k = 0 \<longleftrightarrow> (\<forall>i < k. \<not> bit w i)" for w :: "'a::len word"
  by (auto simp: word_zero_iff bit_simps dest: bit_imp_le_length)

definition ffs_inv :: "u64 \<Rightarrow> nat \<Rightarrow> u64 \<times> nat \<Rightarrow> bool" where
  "ffs_inv w0 k p \<longleftrightarrow> (\<forall>i. bit (fst p) i \<longleftrightarrow> bit w0 (snd p + i)) \<and> (\<forall>i < snd p. \<not> bit w0 i) \<and> (\<exists>i < k. bit (fst p) i)"

lemma ffs_step_inv:
  assumes "ffs_inv w0 (k + k) p"
  shows "ffs_inv w0 k (ffs_step k p)"
proof -
  obtain w n where p: "p = (w, n)" by (cases p)
  from assms obtain i where i: "i < k + k" "bit w i" and w: "\<And>i. bit w i \<longleftrightarrow> bit w0 (n + i)" "\<forall>i < n. \<not> bit w0 i"
    by (auto simp: ffs_inv_def p)
  show ?thesis
  proof (cases "w AND mask k = 0")
    case False
    with w show ?thesis by (auto simp: ffs_inv_def p ffs_step_def and_mask_zero_iff)
  next
    case True
    then have low: "\<forall>i < k. \<not> bit w i" by (simp add: and_mask_zero_iff)
    with i have "k \<le> i" by (meson not_less)
    with i have "i - k < k" "bit (drop_bit k w) (i - k)" by (auto simp: bit_simps)
    moreover have "\<not> bit w0 j" if "j < n + k" for j
      using that w low by (cases "j < n") (auto dest: spec [of _ "j - n"])
    ultimately show ?thesis using True w(1) by (auto simp: ffs_inv_def p ffs_step_def bit_simps add.assoc)
  qed
qed

lemma ffs0_first:
  assumes "w \<noteq> 0"
  shows "bit w (ffs0 w)" "\<forall>i < ffs0 w. \<not> bit w i" "ffs0 w < 64"
proof -
  have "\<exists>i. bit w i" using assms by (simp add: word_zero_iff)
  then have "ffs_inv w (32 + 32) (w, 0)" using bit_index_less(1) by (auto simp: ffs_inv_def)
  then have "ffs_inv w (16 + 16) (ffs_step 32 (w, 0))" using ffs_step_inv by fastforce
  then have "ffs_inv w (8 + 8) (ffs_step 16 (ffs_step 32 (w, 0)))" using ffs_step_inv by fastforce
  then have "ffs_inv w (4 + 4) (ffs_step 8 (ffs_step 16 (ffs_step 32 (w, 0))))" using ffs_step_inv by fastforce
  then have "ffs_inv w (2 + 2) (ffs_step 4 (ffs_step 8 (ffs_step 16 (ffs_step 32 (w, 0)))))" using ffs_step_inv by fastforce
  then have inv: "ffs_inv w 2 (ffs_step 2 (ffs_step 4 (ffs_step 8 (ffs_step 16 (ffs_step 32 (w, 0))))))"
    by (rule ffs_step_inv)
  obtain v n where v: "ffs_step 2 (ffs_step 4 (ffs_step 8 (ffs_step 16 (ffs_step 32 (w, 0))))) = (v, n)"
    by (cases "ffs_step 2 (ffs_step 4 (ffs_step 8 (ffs_step 16 (ffs_step 32 (w, 0)))))")
  from inv v have i: "\<And>i. bit v i \<longleftrightarrow> bit w (n + i)" "\<forall>i < n. \<not> bit w i" "bit v 0 \<or> bit v 1"
    by (auto simp: ffs_inv_def numeral_2_eq_2 less_Suc_eq)
  have one: "v AND 1 = 0 \<longleftrightarrow> \<not> bit v 0" by (auto simp: and_one_eq mod_2_eq_odd bit_0)
  have "bit w (ffs0 w) \<and> (\<forall>i < ffs0 w. \<not> bit w i)"
    using i by (cases "bit v 0") (auto simp: ffs0_def v one less_Suc_eq dest: spec [of _ 0])
  then show "bit w (ffs0 w)" "\<forall>i < ffs0 w. \<not> bit w i" "ffs0 w < 64" by (auto dest: bit_imp_le_length)
qed

definition fls_inv :: "u32 \<Rightarrow> nat \<Rightarrow> u32 \<times> nat \<Rightarrow> bool" where
  "fls_inv w0 k p \<longleftrightarrow> k \<le> snd p \<and> snd p \<le> 32 \<and> (\<forall>i < 32. bit (fst p) i \<longleftrightarrow> 32 \<le> snd p + i \<and> bit w0 (snd p + i - 32)) \<and>
     (\<forall>i \<ge> snd p. \<not> bit w0 i) \<and> (\<exists>i < 32. 32 - k \<le> i \<and> bit (fst p) i)"

lemma fls_step_inv:
  assumes "fls_inv w0 (k + k) p" "0 < k" "k + k \<le> 32"
  shows "fls_inv w0 k (fls_step k p)"
proof -
  obtain x r where p: "p = (x, r)" by (cases p)
  from assms(1) have inv: "k + k \<le> r" "r \<le> 32" "\<forall>i < 32. bit x i \<longleftrightarrow> 32 \<le> r + i \<and> bit w0 (r + i - 32)" "\<forall>i \<ge> r. \<not> bit w0 i"
    and ex: "\<exists>i < 32. 32 - (k + k) \<le> i \<and> bit x i" by (simp_all add: fls_inv_def p)
  have test: "x AND push_bit (32 - k) (mask k) = 0 \<longleftrightarrow> (\<forall>i < 32. 32 - k \<le> i \<longrightarrow> \<not> bit x i)"
  proof -
    have "bit (push_bit (32 - k) (mask k) :: u32) i \<longleftrightarrow> 32 - k \<le> i" if "i < 32" for i
      using that assms(2,3) by (auto simp: bit_simps)
    then show ?thesis using bit_index_less(2) by (auto simp: word_zero_iff bit_and_iff)
  qed
  show ?thesis
  proof (cases "x AND push_bit (32 - k) (mask k) = 0")
    case False
    with test inv show ?thesis by (auto simp: fls_inv_def p fls_step_def)
  next
    case True
    then have top: "\<And>i. i < 32 \<Longrightarrow> 32 - k \<le> i \<Longrightarrow> \<not> bit x i" using test by blast
    obtain i where i: "i < 32" "32 - (k + k) \<le> i" "bit x i" using ex by blast
    have "i < 32 - k" using top i by (metis not_less)
    then have a: "i + k < 32" "32 - k \<le> i + k" "bit (push_bit k x) (i + k)" using i by (auto simp: bit_simps)
    have b: "bit (push_bit k x) j \<longleftrightarrow> 32 \<le> r - k + j \<and> bit w0 (r - k + j - 32)" if "j < 32" for j
    proof (cases "k \<le> j")
      case True
      then show ?thesis using inv(1,3) that by (auto simp: bit_simps)
    next
      case False
      then have "r - k + j < 32" using inv(1,2) by linarith
      with False show ?thesis by (auto simp: bit_simps)
    qed
    have c: "\<not> bit w0 j" if "r - k \<le> j" for j
    proof (cases "r \<le> j")
      case True
      then show ?thesis using inv(4) by blast
    next
      case False
      let ?i = "j + 32 - r"
      have "?i < 32" "32 - k \<le> ?i" "r + ?i - 32 = j" "32 \<le> r + ?i" using False that inv(1,2) by auto
      with top [of ?i] inv(3) show ?thesis by auto
    qed
    have "fls_step k p = (push_bit k x, r - k)" using True by (simp add: fls_step_def p)
    then show ?thesis using a b c inv(1,2) by (auto simp: fls_inv_def)
  qed
qed

lemma fls_last:
  assumes "x \<noteq> 0"
  shows "0 < fls x" "fls x \<le> 32" "bit x (fls x - 1)" "\<forall>i \<ge> fls x. \<not> bit x i"
proof -
  let ?p = "fls_step 1 (fls_step 2 (fls_step 4 (fls_step 8 (fls_step 16 (x, 32)))))"
  have "\<exists>i. bit x i" using assms by (simp add: word_zero_iff)
  then have "fls_inv x (16 + 16) (x, 32)" using bit_index_less(2) by (force simp: fls_inv_def)
  then have "fls_inv x (8 + 8) (fls_step 16 (x, 32))" using fls_step_inv [of x 16] by simp
  then have "fls_inv x (4 + 4) (fls_step 8 (fls_step 16 (x, 32)))" using fls_step_inv [of x 8] by simp
  then have "fls_inv x (2 + 2) (fls_step 4 (fls_step 8 (fls_step 16 (x, 32))))" using fls_step_inv [of x 4] by simp
  then have "fls_inv x (1 + 1) (fls_step 2 (fls_step 4 (fls_step 8 (fls_step 16 (x, 32)))))" using fls_step_inv [of x 2] by (simp add: numeral_2_eq_2)
  then have inv: "fls_inv x 1 ?p" using fls_step_inv [of x 1] by simp
  have f: "fls x = snd ?p" using assms by (simp add: fls_def)
  from inv obtain i where "i < 32" "31 \<le> i" "bit (fst ?p) i" by (auto simp: fls_inv_def)
  then have top: "bit (fst ?p) 31" by (cases "i = 31") auto
  from inv f show "0 < fls x" "fls x \<le> 32" "\<forall>i \<ge> fls x. \<not> bit x i" by (auto simp: fls_inv_def)
  show "bit x (fls x - 1)" using inv top f by (auto simp: fls_inv_def)
qed

subsection \<open>Searching in a region\<close>

text \<open>The bits of a region, and the search as a specification: \<open>r\<close> is the first position from
  \<open>off\<close> on that satisfies \<open>P\<close>, or the size of the region if there is none.\<close>

definition region_bit :: "u64 list \<Rightarrow> nat \<Rightarrow> bool" where
  "region_bit m i \<longleftrightarrow> bit (m ! (i div 64)) (i mod 64)"

definition first_from :: "(nat \<Rightarrow> bool) \<Rightarrow> nat \<Rightarrow> nat \<Rightarrow> nat \<Rightarrow> bool" where
  "first_from P sz off r \<longleftrightarrow> r \<le> sz \<and> (\<forall>i. off \<le> i \<and> i < r \<longrightarrow> \<not> P i) \<and> (r < sz \<longrightarrow> off \<le> r \<and> P r)"

lemma first_from_skip: "first_from P sz off' r \<Longrightarrow> off \<le> off' \<Longrightarrow> \<forall>i. off \<le> i \<and> i < off' \<longrightarrow> \<not> P i \<Longrightarrow> first_from P sz off r"
proof -
  assume first: "first_from P sz off' r" and le: "off \<le> off'" and clear: "\<forall>i. off \<le> i \<and> i < off' \<longrightarrow> \<not> P i"
  have "\<not> P i" if "off \<le> i" "i < r" for i
    using that first clear by (cases "i < off'") (auto simp: first_from_def)
  with first le show ?thesis by (auto simp: first_from_def)
qed

lemma first_from_unique: "first_from P sz off r \<Longrightarrow> first_from P sz off r' \<Longrightarrow> r = r'"
  by (cases r r' rule: linorder_cases) (auto simp: first_from_def)

lemma region_bit_word: "j < 64 \<Longrightarrow> region_bit m (64 * p + j) = bit (m ! p) j"
  by (simp add: region_bit_def)

text \<open>One word of the search: \<open>tmp\<close> holds the bits of interest of word \<open>p\<close>.\<close>

lemma ffs0_first_from:
  assumes "tmp \<noteq> 0" "\<And>j. bit tmp j \<longleftrightarrow> j < k \<and> off \<le> 64 * p + j \<and> P (64 * p + j)" "64 * p + k \<le> sz" "64 * p \<le> off"
  shows "first_from P sz off (64 * p + ffs0 tmp)"
proof -
  note f = ffs0_first [OF assms(1)]
  have r: "ffs0 tmp < k" "off \<le> 64 * p + ffs0 tmp" "P (64 * p + ffs0 tmp)" using f(1) assms(2) by auto
  moreover have "\<not> P i" if "off \<le> i" "i < 64 * p + ffs0 tmp" for i
  proof -
    have "\<not> bit tmp (i - 64 * p)" "i - 64 * p < k" using f(2) that r(1) assms(4) by auto
    then show ?thesis using assms(2) [of "i - 64 * p"] that assms(4) by auto
  qed
  ultimately show ?thesis using assms(3) by (auto simp: first_from_def)
qed

lemma find_bit_last_first_from:
  assumes "sz < 64" "64 * p \<le> off" "\<And>j. j < sz \<Longrightarrow> bit tmp j \<longleftrightarrow> off \<le> 64 * p + j \<and> P (64 * p + j)"
  shows "first_from P (64 * p + sz) off (find_bit_last tmp sz (64 * p))"
proof -
  let ?t = "tmp AND drop_bit (64 - sz) (NOT 0)"
  have t: "bit ?t j \<longleftrightarrow> j < sz \<and> off \<le> 64 * p + j \<and> P (64 * p + j)" for j
    using assms(1,3) by (auto simp: bit_simps)
  show ?thesis
  proof (cases "?t = 0")
    case True
    then have "\<forall>j. \<not> bit ?t j" by (simp add: word_zero_iff)
    then have "\<not> P i" if "off \<le> i" "i < 64 * p + sz" for i
      using that t [of "i - 64 * p"] assms(2) by auto
    with True show ?thesis by (auto simp: find_bit_last_def first_from_def)
  next
    case False
    from ffs0_first_from [of ?t sz off p P, OF False t order_refl assms(2)] False show ?thesis
      by (simp add: find_bit_last_def)
  qed
qed

lemma find_bit_loop_first_from:
  assumes "64 * p + sz \<le> 64 * length m"
  shows "\<exists>r. find_bit_loop m p sz (64 * p) = Some r \<and> first_from (region_bit m) (64 * p + sz) (64 * p) r"
  using assms
proof (induction sz arbitrary: p rule: less_induct)
  case (less sz)
  have w: "0 < sz \<Longrightarrow> word_at m p = Some (m ! p)" using less.prems by (simp add: word_at_def)
  show ?case
  proof (cases "64 \<le> sz")
    case big: True
    show ?thesis
    proof (cases "m ! p = 0")
      case True
      then have clear: "\<not> region_bit m i" if "64 * p \<le> i" "i < 64 * (p + 1)" for i
        using that region_bit_word [of "i - 64 * p" m p] by auto
      have "sz - 64 < sz" "64 * (p + 1) + (sz - 64) \<le> 64 * length m" using big less.prems by simp_all
      from less.IH [OF this] obtain r where
        r: "find_bit_loop m (p + 1) (sz - 64) (64 * (p + 1)) = Some r"
          "first_from (region_bit m) (64 * (p + 1) + (sz - 64)) (64 * (p + 1)) r" by blast
      have "64 * (p + 1) + (sz - 64) = 64 * p + sz" using big by simp
      then have "first_from (region_bit m) (64 * p + sz) (64 * p) r"
        using r(2) clear first_from_skip [of _ _ "64 * (p + 1)" r "64 * p"] by simp
      moreover have "find_bit_loop m p sz (64 * p) = Some r"
        using r(1) big True w by (subst find_bit_loop.simps) (simp add: add.commute)
      ultimately show ?thesis by blast
    next
      case False
      have "bit (m ! p) j \<longleftrightarrow> j < 64 \<and> 64 * p \<le> 64 * p + j \<and> region_bit m (64 * p + j)" for j
        using region_bit_word [of j m p] bit_index_less(1) by auto
      from ffs0_first_from [OF False this, of "64 * p + sz"] big False w show ?thesis
        by (subst find_bit_loop.simps) auto
    qed
  next
    case small: False
    show ?thesis
    proof (cases "sz = 0")
      case True
      then show ?thesis by (subst find_bit_loop.simps) (auto simp: first_from_def)
    next
      case False
      have "bit (m ! p) j \<longleftrightarrow> 64 * p \<le> 64 * p + j \<and> region_bit m (64 * p + j)" if "j < sz" for j
        using region_bit_word [of j m p] small that by auto
      from find_bit_last_first_from [of sz p "64 * p" "m ! p", OF _ _ this] small False w show ?thesis
        by (subst find_bit_loop.simps) auto
    qed
  qed
qed

lemma find_next_bit_first_from:
  assumes "sz \<le> 64 * length m"
  shows "\<exists>r. find_next_bit m sz off = Some r \<and> first_from (region_bit m) sz off r"
proof (cases "sz \<le> off")
  case True
  then show ?thesis by (auto simp: find_next_bit_def first_from_def)
next
  case False
  let ?p = "off div 64" and ?o = "off mod 64"
  have off: "off = 64 * ?p + ?o" "off - ?o = 64 * ?p" "?o < 64" by (simp_all add: minus_mod_eq_mult_div)
  define s where "s = sz - 64 * ?p"
  have s: "64 * ?p + s = sz" "0 < s" "?o < s" using False off by (auto simp: s_def)
  have w: "word_at m ?p = Some (m ! ?p)" using s assms by (auto simp: word_at_def)
  have u: "find_next_bit m sz off =
      (if ?o \<noteq> 0 then
         (let tmp = m ! ?p AND push_bit ?o (NOT 0)
          in if s < 64 then Some (find_bit_last tmp s (64 * ?p))
             else if tmp \<noteq> 0 then Some (64 * ?p + ffs0 tmp)
             else find_bit_loop m (?p + 1) (s - 64) (64 * ?p + 64))
       else find_bit_loop m ?p s (64 * ?p))"
    using False w off(2) by (simp add: find_next_bit_def s_def Let_def)
  let ?tmp = "m ! ?p AND push_bit ?o (NOT 0)"
  have t: "bit ?tmp j \<longleftrightarrow> off \<le> 64 * ?p + j \<and> region_bit m (64 * ?p + j)" if "j < 64" for j
  proof -
    have "off \<le> 64 * ?p + j \<longleftrightarrow> ?o \<le> j" using off(1) by linarith
    with that region_bit_word [of j m ?p] show ?thesis by (auto simp: bit_simps)
  qed
  have p: "64 * ?p \<le> off" by simp
  consider (aligned) "?o = 0" | (short) "?o \<noteq> 0" "s < 64" | (word) "?o \<noteq> 0" "64 \<le> s" "?tmp \<noteq> 0" | (rest) "?o \<noteq> 0" "64 \<le> s" "?tmp = 0"
    by linarith
  then show ?thesis
  proof cases
    case aligned
    then have "64 * ?p = off" using off(2) by simp
    with find_bit_loop_first_from [of ?p s m] s(1) assms u aligned show ?thesis by auto
  next
    case short
    have "first_from (region_bit m) (64 * ?p + s) off (find_bit_last ?tmp s (64 * ?p))"
      using t short(2) by (intro find_bit_last_first_from p) auto
    then show ?thesis using s(1) u short by (simp add: Let_def)
  next
    case word
    have "bit ?tmp j \<longleftrightarrow> j < 64 \<and> off \<le> 64 * ?p + j \<and> region_bit m (64 * ?p + j)" for j
      using t bit_index_less(1) [of ?tmp j] by blast
    from ffs0_first_from [OF word(3) this _ p, of sz] word s(1) u show ?thesis by (simp add: Let_def)
  next
    case rest
    from find_bit_loop_first_from [of "?p + 1" "s - 64" m] s(1) assms rest(2) obtain r where
      r: "find_bit_loop m (?p + 1) (s - 64) (64 * (?p + 1)) = Some r" "first_from (region_bit m) (64 * (?p + 1) + (s - 64)) (64 * (?p + 1)) r"
      by auto
    moreover have "64 * (?p + 1) + (s - 64) = sz" using s(1) rest(2) by simp
    moreover have "\<not> region_bit m i" if "off \<le> i" "i < 64 * (?p + 1)" for i
    proof -
      have "i - 64 * ?p < 64" "64 * ?p + (i - 64 * ?p) = i" using that p by auto
      with t [of "i - 64 * ?p"] rest(3) that show ?thesis by simp
    qed
    moreover have "off \<le> 64 * (?p + 1)" using dividend_less_times_div [of 64 off] by simp
    ultimately have "first_from (region_bit m) sz off r" using first_from_skip [of _ sz "64 * (?p + 1)" r off] by simp
    with r(1) rest u show ?thesis by (simp add: Let_def add.commute)
  qed
qed

text \<open>A search for a clear bit is the search for a set bit in the complemented region.\<close>

lemma word_at_complement: "word_at (map (\<lambda>w. NOT w) m) p = map_option (\<lambda>w. NOT w) (word_at m p)"
  by (simp add: word_at_def)

lemma find_zero_last_eq: "sz < 64 \<Longrightarrow> find_zero_last tmp sz result = find_bit_last (NOT tmp) sz result"
proof -
  assume sz: "sz < 64"
  have "NOT (tmp OR push_bit sz (NOT 0)) = NOT tmp AND drop_bit (64 - sz) (NOT 0)"
    using sz by (intro bit_word_eqI) (auto simp: bit_simps)
  then have "tmp OR push_bit sz (NOT 0) = NOT (NOT tmp AND drop_bit (64 - sz) (NOT 0))"
    by (metis bit.double_compl)
  then show ?thesis by (simp only: find_zero_last_def find_bit_last_def Let_def ffz_def bit.double_compl bit.compl_eq_compl_iff)
qed

lemma find_zero_loop_eq: "find_zero_loop m p sz result = find_bit_loop (map (\<lambda>w. NOT w) m) p sz result"
proof (induction m p sz result rule: find_zero_loop.induct)
  case (1 m p sz result)
  show ?case
  proof (cases "word_at m p")
    case None
    then show ?thesis by (subst find_zero_loop.simps, subst find_bit_loop.simps) (simp add: word_at_complement)
  next
    case (Some tmp)
    with 1 show ?thesis
      by (subst find_zero_loop.simps, subst find_bit_loop.simps)
        (auto simp: word_at_complement ffz_def find_zero_last_eq)
  qed
qed

lemma find_next_zero_bit_eq: "find_next_zero_bit m sz off = find_next_bit (map (\<lambda>w. NOT w) m) sz off"
proof -
  have tmp: "tmp OR drop_bit (64 - k) (NOT 0) = NOT (NOT tmp AND push_bit k (NOT 0))" if "k < 64" for tmp :: u64 and k
    using that by (intro bit_word_eqI) (auto simp: bit_simps)
  have k: "off mod 64 < 64" by simp
  have s: "sz - (off - off mod 64) < 64 \<Longrightarrow> find_zero_last (NOT x) (sz - (off - off mod 64)) r = find_bit_last x (sz - (off - off mod 64)) r" for x r
    using find_zero_last_eq [of "sz - (off - off mod 64)" "NOT x" r] by simp
  show ?thesis
  proof (cases "word_at m (off div 64)")
    case None
    then show ?thesis by (simp add: find_next_zero_bit_def find_next_bit_def word_at_complement find_zero_loop_eq Let_def)
  next
    case (Some w)
    then show ?thesis
      by (simp only: find_next_zero_bit_def find_next_bit_def word_at_complement find_zero_loop_eq Let_def
          option.simps tmp [OF k] s ffz_def bit.double_compl cong: if_cong)
  qed
qed

lemma region_bit_complement: "i < 64 * length m \<Longrightarrow> region_bit (map (\<lambda>w. NOT w) m) i = (\<not> region_bit m i)"
  by (simp add: region_bit_def bit_not_iff)

text \<open>Setting and clearing one bit of a region.\<close>

lemma region_bit_update:
  assumes "p < length m" "i < 64 * length m"
  shows "region_bit (m[p := w]) i = (if i div 64 = p then bit w (i mod 64) else region_bit m i)"
  using assms by (simp add: region_bit_def nth_list_update)

lemma set_bit_at_region:
  assumes "nr < 64 * length m"
  shows "\<exists>m'. set_bit_at nr m = Some m' \<and> length m' = length m \<and>
           (\<forall>i < 64 * length m. region_bit m' i \<longleftrightarrow> i = nr \<or> region_bit m i)"
proof -
  have p: "nr div 64 < length m" using assms by (simp add: div_less_iff_less_mult mult.commute)
  let ?m = "m[nr div 64 := m ! (nr div 64) OR push_bit (nr mod 64) 1]"
  have run: "set_bit_at nr m = Some ?m" using p by (simp add: set_bit_at_def word_at_def)
  have "region_bit ?m i \<longleftrightarrow> i = nr \<or> region_bit m i" if "i < 64 * length m" for i
  proof -
    have "region_bit ?m i = (if i div 64 = nr div 64 then bit (m ! (nr div 64)) (i mod 64) \<or> i mod 64 = nr mod 64 else region_bit m i)"
      using region_bit_update [OF p that] by (auto simp: bit_simps)
    moreover have "i = nr \<longleftrightarrow> i div 64 = nr div 64 \<and> i mod 64 = nr mod 64" by (metis div_mult_mod_eq)
    ultimately show ?thesis by (auto simp: region_bit_def)
  qed
  with run show ?thesis by (intro exI [of _ ?m]) simp
qed

lemma clear_bit_at_region:
  assumes "nr < 64 * length m"
  shows "\<exists>m'. clear_bit_at nr m = Some m' \<and> length m' = length m \<and>
           (\<forall>i < 64 * length m. region_bit m' i \<longleftrightarrow> i \<noteq> nr \<and> region_bit m i)"
proof -
  have p: "nr div 64 < length m" using assms by (simp add: div_less_iff_less_mult mult.commute)
  let ?m = "m[nr div 64 := m ! (nr div 64) AND NOT (push_bit (nr mod 64) 1)]"
  have run: "clear_bit_at nr m = Some ?m" using p by (simp add: clear_bit_at_def word_at_def)
  have "region_bit ?m i \<longleftrightarrow> i \<noteq> nr \<and> region_bit m i" if "i < 64 * length m" for i
  proof -
    have "region_bit ?m i = (if i div 64 = nr div 64 then bit (m ! (nr div 64)) (i mod 64) \<and> i mod 64 \<noteq> nr mod 64 else region_bit m i)"
      using region_bit_update [OF p that] by (auto simp: bit_simps)
    moreover have "i = nr \<longleftrightarrow> i div 64 = nr div 64 \<and> i mod 64 = nr mod 64" by (metis div_mult_mod_eq)
    ultimately show ?thesis by (auto simp: region_bit_def)
  qed
  with run show ?thesis by (intro exI [of _ ?m]) simp
qed

lemma test_bit_at_region:
  assumes "nr < 64 * length m"
  shows "test_bit_at nr m = Some (region_bit m nr)"
proof -
  have q: "nr div 32 div 2 = nr div 64" by (simp add: div_mult2_eq [symmetric])
  have p: "nr div 64 < length m" using assms by (simp add: div_less_iff_less_mult mult.commute)
  have r: "32 * (nr div 32 mod 2) + nr mod 32 = nr mod 64"
    using mod_mult2_eq [of nr 32 2] by (simp add: mult.commute)
  let ?w = "m ! (nr div 64)" and ?h = "32 * (nr div 32 mod 2)"
  have k: "nr mod 32 < 64" by (rule less_trans [of _ 32]) simp_all
  have b: "bit (ucast (ucast (drop_bit ?h ?w) :: u32) :: u64) (nr mod 32) = bit ?w (nr mod 64)"
    using r k by (simp add: bit_simps)
  have "push_bit (nr mod 32) 1 AND x \<noteq> (0 :: u64) \<longleftrightarrow> bit x (nr mod 32)" for x
    using k by (auto simp: word_zero_iff bit_simps)
  with b have "push_bit (nr mod 32) 1 AND ucast (ucast (drop_bit ?h ?w) :: u32) \<noteq> (0 :: u64) \<longleftrightarrow> bit ?w (nr mod 64)"
    by simp
  then show ?thesis using p by (simp add: test_bit_at_def q word_at_def region_bit_def)
qed

subsection \<open>Properties\<close>

text \<open>\<open>fls\<close> and \<open>__ffs\<close> find the last and the first set bit of any non-zero word.\<close>

theorem word_bit_search:
  "(x \<noteq> 0 \<longrightarrow> 0 < fls x \<and> bit x (fls x - 1) \<and> (\<forall>i \<ge> fls x. \<not> bit x i)) \<and>
   (w \<noteq> 0 \<longrightarrow> bit w (ffs0 w) \<and> (\<forall>i < ffs0 w. \<not> bit w i))"
  using fls_last [of x] ffs0_first [of w] by auto

text \<open>C16: \<open>find_next_bit\<close> and \<open>find_next_zero_bit\<close> read only words of the region and return the first
  set (clear) bit at or after the offset, or the size if there is none.\<close>

theorem find_next_correct:
  assumes "sz \<le> 64 * length m"
  shows "\<exists>r z. find_next_bit m sz off = Some r \<and> first_from (region_bit m) sz off r \<and>
           find_next_zero_bit m sz off = Some z \<and> first_from (\<lambda>i. \<not> region_bit m i) sz off z"
proof -
  from find_next_bit_first_from [of sz "map (\<lambda>w. NOT w) m" off] assms obtain z where
    z: "find_next_zero_bit m sz off = Some z" "first_from (region_bit (map (\<lambda>w. NOT w) m)) sz off z"
    by (auto simp: find_next_zero_bit_eq)
  then have "first_from (\<lambda>i. \<not> region_bit m i) sz off z"
    using assms region_bit_complement [of _ m] unfolding first_from_def by (meson less_le_trans le_trans)
  with z(1) find_next_bit_first_from [OF assms, of off] show ?thesis by blast
qed

text \<open>\<open>set_bit\<close>, \<open>clear_bit\<close> and \<open>test_bit\<close> agree on where a bit of a region is, although the
  first two address 64-bit words and the last one 32-bit words: testing after setting (clearing)
  bit \<open>a\<close> gives the old value everywhere else and 1 (0) at \<open>a\<close>.\<close>

theorem test_after_set_clear:
  assumes "a < 64 * length m" "b < 64 * length m"
  shows "\<exists>ms mc. set_bit_at a m = Some ms \<and> clear_bit_at a m = Some mc \<and>
           test_bit_at b ms = (if a = b then Some True else test_bit_at b m) \<and>
           test_bit_at b mc = (if a = b then Some False else test_bit_at b m)"
proof -
  from set_bit_at_region [OF assms(1)] obtain ms where ms: "set_bit_at a m = Some ms" "length ms = length m"
    "\<forall>i < 64 * length m. region_bit ms i \<longleftrightarrow> i = a \<or> region_bit m i" by blast
  from clear_bit_at_region [OF assms(1)] obtain mc where mc: "clear_bit_at a m = Some mc" "length mc = length m"
    "\<forall>i < 64 * length m. region_bit mc i \<longleftrightarrow> i \<noteq> a \<and> region_bit m i" by blast
  show ?thesis
    using ms mc assms(2) test_bit_at_region [of b ms] test_bit_at_region [of b mc] test_bit_at_region [OF assms(2)]
    by (intro exI [of _ ms] exI [of _ mc]) auto
qed

subsection \<open>Witnesses\<close>

theorem word_bit_search_witness: "bit (0x50 :: u32) (fls 0x50 - 1) \<and> bit (0x50 :: u64) (ffs0 0x50) \<and> ffs0 0x50 = 4 \<and> fls 0x50 = 7"
proof -
  have "ffs0 0x50 = 4" "fls 0x50 = 7" by code_simp+
  with word_bit_search [of "0x50" "0x50"] show ?thesis by simp
qed

theorem find_next_correct_witness:
  "\<exists>r z. find_next_bit [0, 0x10] 100 3 = Some r \<and> first_from (region_bit [0, 0x10]) 100 3 r \<and>
     find_next_zero_bit [0, 0x10] 100 3 = Some z \<and> first_from (\<lambda>i. \<not> region_bit [0, 0x10] i) 100 3 z"
  using find_next_correct [of 100 "[0, 0x10]" 3] by simp

theorem test_after_set_clear_witness:
  "\<exists>ms mc. set_bit_at 70 [0, 0x10] = Some ms \<and> clear_bit_at 70 [0, 0x10] = Some mc \<and>
     test_bit_at 70 ms = Some True \<and> test_bit_at 70 mc = Some False"
  using test_after_set_clear [of 70 "[0, 0x10]" 70] by simp

end
