(* ===== verification/PageAlloc_Spec.thy ===== *)
theory PageAlloc_Spec
  imports Prelude
begin

section \<open>The contract of a physical page allocator\<close>

text \<open>
  What \<open>kernel/mem.c\<close> relies on in the allocator it was built with: the bitmap allocator, the
  red-black tree allocator, or a NUMA node on top of the latter.  An allocator has a state, an
  allocation that returns an address or 0, and a deallocation; \<open>avail\<close> is the set of byte
  addresses it could still hand out, \<open>managed\<close> the addresses it is responsible for, \<open>maxpages\<close> the
  largest number of pages the deallocation takes at once.
  The client is the kernel that allocates and frees ranges in any order but frees only ranges
  it holds; the locale shows that then no byte is ever handed out twice and none is lost.
\<close>

definition page_range :: "u64 \<Rightarrow> int \<Rightarrow> nat set" where
  "page_range a npages = {unat a ..< unat a + 4096 * nat npages}"

definition request_ok :: "int \<Rightarrow> nat \<Rightarrow> bool" where
  "request_ok npages p2align \<longleftrightarrow> 0 < npages \<and> npages < 2 ^ 31 \<and> p2align \<le> 40"

text \<open>Operations of the client: allocate, or free the \<open>i\<close>-th range it holds.\<close>

datatype pa_op = PA_Alloc int nat | PA_Free nat

fun pa_op_ok :: "int \<Rightarrow> pa_op \<Rightarrow> bool" where
  "pa_op_ok maxpages (PA_Alloc npages p2align) \<longleftrightarrow> request_ok npages p2align \<and> npages \<le> maxpages"
| "pa_op_ok maxpages (PA_Free i) \<longleftrightarrow> True"

definition remove_nth :: "nat \<Rightarrow> 'a list \<Rightarrow> 'a list" where
  "remove_nth i xs = take i xs @ drop (Suc i) xs"

fun pa_step :: "('s \<Rightarrow> int \<Rightarrow> nat \<Rightarrow> (u64 \<times> 's) option) \<Rightarrow> ('s \<Rightarrow> u64 \<Rightarrow> int \<Rightarrow> 's option) \<Rightarrow>
    pa_op \<Rightarrow> 's \<times> (u64 \<times> int) list \<Rightarrow> ('s \<times> (u64 \<times> int) list) option" where
  "pa_step alloc dealloc (PA_Alloc npages p2align) (s, held) =
     (case alloc s npages p2align of
        None \<Rightarrow> None
      | Some (a, s') \<Rightarrow> Some (s', if a = 0 then held else (a, npages) # held))"
| "pa_step alloc dealloc (PA_Free i) (s, held) =
     (if i < length held
      then (case dealloc s (fst (held ! i)) (snd (held ! i)) of
              None \<Rightarrow> None
            | Some s' \<Rightarrow> Some (s', remove_nth i held))
      else Some (s, held))"

fun pa_run :: "('s \<Rightarrow> int \<Rightarrow> nat \<Rightarrow> (u64 \<times> 's) option) \<Rightarrow> ('s \<Rightarrow> u64 \<Rightarrow> int \<Rightarrow> 's option) \<Rightarrow>
    pa_op list \<Rightarrow> 's \<times> (u64 \<times> int) list \<Rightarrow> ('s \<times> (u64 \<times> int) list) option" where
  "pa_run alloc dealloc [] c = Some c"
| "pa_run alloc dealloc (op # ops) c =
     (case pa_step alloc dealloc op c of None \<Rightarrow> None | Some c' \<Rightarrow> pa_run alloc dealloc ops c')"

definition held_bytes :: "(u64 \<times> int) list \<Rightarrow> nat set" where
  "held_bytes held = (\<Union>(a, n) \<in> set held. page_range a n)"

text \<open>The ranges held are pairwise disjoint.\<close>

fun held_disjoint :: "(u64 \<times> int) list \<Rightarrow> bool" where
  "held_disjoint [] \<longleftrightarrow> True"
| "held_disjoint ((a, n) # held) \<longleftrightarrow> page_range a n \<inter> held_bytes held = {} \<and> held_disjoint held"

lemma held_bytes_simps [simp]:
  "held_bytes [] = {}" "held_bytes ((a, n) # held) = page_range a n \<union> held_bytes held"
  "held_bytes (xs @ ys) = held_bytes xs \<union> held_bytes ys"
  by (auto simp: held_bytes_def)

lemma held_disjoint_append [simp]:
  "held_disjoint (xs @ ys) \<longleftrightarrow> held_disjoint xs \<and> held_disjoint ys \<and> held_bytes xs \<inter> held_bytes ys = {}"
  by (induction xs rule: held_disjoint.induct) auto

lemma remove_nth_split:
  assumes "i < length xs"
  shows "\<exists>as bs. xs = as @ xs ! i # bs \<and> remove_nth i xs = as @ bs"
  using assms id_take_nth_drop [OF assms] by (auto simp: remove_nth_def)

locale phys_allocator =
  fixes alloc :: "'s \<Rightarrow> int \<Rightarrow> nat \<Rightarrow> (u64 \<times> 's) option"
    and dealloc :: "'s \<Rightarrow> u64 \<Rightarrow> int \<Rightarrow> 's option"
    and inv :: "'s \<Rightarrow> bool"
    and avail :: "'s \<Rightarrow> nat set"
    and managed :: "'s \<Rightarrow> nat set"
    and maxpages :: int
  assumes alloc_sound: "inv s \<Longrightarrow> request_ok npages p2align \<Longrightarrow>
      \<exists>a s'. alloc s npages p2align = Some (a, s') \<and> inv s' \<and> managed s' = managed s \<and>
        (if a = 0 then avail s' = avail s
         else page_range a npages \<subseteq> avail s \<and> avail s' = avail s - page_range a npages)"
    and dealloc_sound: "inv s \<Longrightarrow> 0 < npages \<Longrightarrow> npages \<le> maxpages \<Longrightarrow> 4096 dvd unat a \<Longrightarrow>
      page_range a npages \<subseteq> managed s \<Longrightarrow> page_range a npages \<inter> avail s = {} \<Longrightarrow>
      \<exists>s'. dealloc s a npages = Some s' \<and> inv s' \<and> managed s' = managed s \<and>
        avail s' = avail s \<union> page_range a npages"
    and alloc_aligned: "inv s \<Longrightarrow> alloc s npages p2align = Some (a, s') \<Longrightarrow> request_ok npages p2align \<Longrightarrow> 4096 dvd unat a"
    and avail_managed: "inv s \<Longrightarrow> avail s \<subseteq> managed s"
begin

definition held_ok :: "nat set \<Rightarrow> 's \<times> (u64 \<times> int) list \<Rightarrow> bool" where
  "held_ok tot c \<longleftrightarrow> inv (fst c) \<and> managed (fst c) \<supseteq> tot \<and> held_disjoint (snd c) \<and>
     (\<forall>(a, n) \<in> set (snd c). a \<noteq> 0 \<and> 0 < n \<and> n \<le> maxpages \<and> 4096 dvd unat a) \<and>
     avail (fst c) \<inter> held_bytes (snd c) = {} \<and> avail (fst c) \<union> held_bytes (snd c) = tot"

lemma held_ok_step:
  assumes "held_ok tot c" "pa_op_ok maxpages op"
  shows "\<exists>c'. pa_step alloc dealloc op c = Some c' \<and> held_ok tot c'"
proof (cases op)
  case (PA_Alloc npages p2align)
  obtain s held where c: "c = (s, held)" by (cases c)
  have req: "request_ok npages p2align" "npages \<le> maxpages" and s: "inv s" using assms PA_Alloc c by (simp_all add: held_ok_def)
  from alloc_sound [OF s req(1)] obtain a s' where
    a: "alloc s npages p2align = Some (a, s')" "inv s'" "managed s' = managed s"
      "if a = 0 then avail s' = avail s
       else page_range a npages \<subseteq> avail s \<and> avail s' = avail s - page_range a npages" by blast
  have ranges: "4096 dvd unat a" "0 < npages \<and> npages \<le> maxpages"
    using alloc_aligned [OF s a(1) req(1)] req by (auto simp: request_ok_def)
  show ?thesis
  proof (cases "a = 0")
    case True
    with assms(1) a c PA_Alloc show ?thesis by (simp add: held_ok_def)
  next
    case False
    with assms(1) a c ranges have "held_ok tot (s', (a, npages) # held)" by (auto simp: held_ok_def)
    with a c PA_Alloc False show ?thesis by simp
  qed
next
  case (PA_Free i)
  obtain s held where c: "c = (s, held)" by (cases c)
  show ?thesis
  proof (cases "i < length held")
    case False
    with assms c PA_Free show ?thesis by simp
  next
    case True
    obtain a n where an: "held ! i = (a, n)" by (cases "held ! i")
    from remove_nth_split [OF True] an obtain as bs where
      split: "held = as @ (a, n) # bs" "remove_nth i held = as @ bs" by auto
    have pre: "inv s" "0 < n" "n \<le> maxpages" "4096 dvd unat a" "page_range a n \<subseteq> managed s" "page_range a n \<inter> avail s = {}"
      using assms(1) c split(1) by (auto simp: held_ok_def)
    from dealloc_sound [OF pre] obtain s' where
      s': "dealloc s a n = Some s'" "inv s'" "managed s' = managed s" "avail s' = avail s \<union> page_range a n" by blast
    have "held_ok tot (s', as @ bs)" using assms(1) c split(1) s' by (auto simp: held_ok_def)
    with s' True an split(2) c PA_Free show ?thesis by simp
  qed
qed

lemma held_ok_run:
  "held_ok tot c \<Longrightarrow> \<forall>op \<in> set ops. pa_op_ok maxpages op \<Longrightarrow>
     \<exists>c'. pa_run alloc dealloc ops c = Some c' \<and> held_ok tot c'"
proof (induction ops arbitrary: c)
  case (Cons op ops)
  from held_ok_step [OF Cons.prems(1), of op] Cons.prems(2) obtain c1 where
    c1: "pa_step alloc dealloc op c = Some c1" "held_ok tot c1" by auto
  with Cons.IH [OF c1(2)] Cons.prems(2) show ?case by simp
qed simp

lemma run_conserves:
  assumes "inv s" "\<forall>op \<in> set ops. pa_op_ok maxpages op"
  shows "\<exists>s' held. pa_run alloc dealloc ops (s, []) = Some (s', held) \<and> inv s' \<and> held_disjoint held \<and>
           avail s' \<inter> held_bytes held = {} \<and> avail s' \<union> held_bytes held = avail s"
proof -
  have "held_ok (avail s) (s, [])" using assms(1) avail_managed by (simp add: held_ok_def)
  from held_ok_run [OF this assms(2)] show ?thesis by (auto simp: held_ok_def)
qed

end

end
