(* ===== verification/PageAlloc_Bitmap.thy ===== *)
theory PageAlloc_Bitmap
  imports Bitops PageAlloc_Spec
begin

section \<open>The bitmap page allocator\<close>

text \<open>
  The first half of \<open>lib/page_alloc.c\<close>: one bit per page, set for a page in use.  Requests of
  less than 32 pages are placed inside one 64-bit word of the map, larger or strongly aligned
  ones start at a word.  The map is a list of words; an access beyond it is the fault
  \<open>PA_OutOfBounds\<close>, and \<open>PA_Panic\<close> is the panic of \<open>ihk_pagealloc_free\<close>.  Page and word indices
  are \<open>nat\<close>: they stay below \<open>2^31\<close> for any memory the machine can have.
\<close>

unbundle bit_operations_syntax

datatype pa_fault = PA_Panic | PA_OutOfBounds

record pa_desc =
  pd_start :: u64
  pd_end :: u64
  pd_last :: nat
  pd_count :: nat
  pd_flag :: nat
  pd_shift :: nat
  pd_map :: "u64 list"

subsection \<open>Operations\<close>

definition ADDRESS :: "pa_desc \<Rightarrow> nat \<Rightarrow> nat \<Rightarrow> u64" where
  "ADDRESS desc index b = pd_start desc + push_bit (pd_shift desc) (of_nat (index * 64 + b))"

fun set_bits :: "nat \<Rightarrow> nat \<Rightarrow> u64 list \<Rightarrow> u64 list option" where
  "set_bits i 0 m = Some m"
| "set_bits i (Suc n) m = (case set_bit_at i m of None \<Rightarrow> None | Some m' \<Rightarrow> set_bits (Suc i) n m')"

text \<open>\<open>desc_ok\<close>: the descriptor's memory was given by the caller or could be allocated;
  \<open>sizeof_desc\<close> is the size of its fixed part.  The padding of the last word is marked used.\<close>

definition ihk_pagealloc_init :: "bool \<Rightarrow> nat \<Rightarrow> u64 \<Rightarrow> u64 \<Rightarrow> u64 \<Rightarrow> pa_desc option" where
  "ihk_pagealloc_init desc_ok sizeof_desc start sz unit =
     (if unit = 0 then None
      else
        (let page_shift = fls (ucast unit) - 1;
             mapsize = unat (drop_bit page_shift sz);
             mapaligned = (mapsize + 63) div 64 * 8;
             descsize = (sizeof_desc + mapaligned + 4095) div 4096
         in if \<not> desc_ok then None
            else
              (case set_bits mapsize (mapaligned * 8 - mapsize) (replicate (mapaligned div 8) 0) of
                 None \<Rightarrow> None
               | Some m \<Rightarrow>
                   Some \<lparr>pd_start = start, pd_end = start + sz, pd_last = 0, pd_count = mapaligned div 8,
                         pd_flag = descsize, pd_shift = page_shift, pd_map = m\<rparr>)))"

text \<open>\<open>__ihk_pagealloc_large\<close>: the loop over \<open>i\<close> and \<open>mi\<close>.\<close>

definition large_free :: "u64 list \<Rightarrow> nat \<Rightarrow> nat \<Rightarrow> u64 \<Rightarrow> bool" where
  "large_free m mi nblocks msk \<longleftrightarrow>
     list_all (\<lambda>j. m ! j = 0) [mi ..< mi + nblocks - 1] \<and> m ! (mi + nblocks - 1) AND msk = 0"

definition large_take :: "u64 list \<Rightarrow> nat \<Rightarrow> nat \<Rightarrow> u64 \<Rightarrow> u64 list" where
  "large_take m mi nblocks msk =
     (let m = fold (\<lambda>j m. m[j := NOT 0]) [mi ..< mi + nblocks - 1] m; j = mi + nblocks - 1
      in m[j := m ! j OR msk])"

fun large_loop :: "pa_desc \<Rightarrow> nat \<Rightarrow> u64 \<Rightarrow> u64 \<Rightarrow> nat \<Rightarrow> nat \<Rightarrow> u64 \<times> pa_desc" where
  "large_loop desc nblocks msk align_mask 0 mi = (0, desc)"
| "large_loop desc nblocks msk align_mask (Suc rounds) mi =
     (let mi = (if pd_count desc \<le> mi then 0 else mi)
      in if pd_count desc \<le> mi + nblocks \<or> ADDRESS desc mi 0 AND align_mask \<noteq> 0
         then large_loop desc nblocks msk align_mask rounds (mi + 1)
         else if large_free (pd_map desc) mi nblocks msk
         then (ADDRESS desc mi 0, desc\<lparr>pd_map := large_take (pd_map desc) mi nblocks msk\<rparr>)
         else large_loop desc nblocks msk align_mask rounds (mi + 1))"

definition ihk_pagealloc_large :: "pa_desc \<Rightarrow> nat \<Rightarrow> nat \<Rightarrow> u64 \<times> pa_desc" where
  "ihk_pagealloc_large desc npages p2align =
     (let align_mask = push_bit p2align PAGE_SIZE - 1; nfrags = npages mod 64;
          nblocks = (if 0 < nfrags then npages div 64 + 1 else npages div 64);
          msk = (if 0 < nfrags then push_bit nfrags 1 - 1 else NOT 0)
      in large_loop desc nblocks msk align_mask (pd_count desc) (pd_last desc))"

text \<open>The inner loop of \<open>ihk_pagealloc_alloc\<close>: the first aligned run of free bits in a word.\<close>

function find_slot :: "u64 \<Rightarrow> u64 \<Rightarrow> nat \<Rightarrow> nat \<Rightarrow> nat \<Rightarrow> nat option" where
  "find_slot v msk jalign npages j =
     (if j \<le> 64 - npages then
        if j mod jalign \<noteq> 0 then find_slot v msk jalign npages (j + 1)
        else if v AND push_bit j msk = 0 then Some j
        else find_slot v msk jalign npages (j + 1)
      else None)"
  by pat_completeness auto
termination by (relation "measure (\<lambda>(v, msk, jalign, npages, j). 65 - j)") auto

declare find_slot.simps [simp del]

fun small_loop :: "pa_desc \<Rightarrow> u64 \<Rightarrow> nat \<Rightarrow> nat \<Rightarrow> nat \<Rightarrow> nat \<Rightarrow> u64 \<times> pa_desc" where
  "small_loop desc msk jalign npages 0 mi = (0, desc)"
| "small_loop desc msk jalign npages (Suc rounds) mi =
     (let mi = (if pd_count desc \<le> mi then 0 else mi); v = pd_map desc ! mi
      in if v = NOT 0 then small_loop desc msk jalign npages rounds (mi + 1)
         else
           (case find_slot v msk jalign npages 0 of
              Some j \<Rightarrow> (ADDRESS desc mi j, desc\<lparr>pd_map := (pd_map desc)[mi := v OR push_bit j msk]\<rparr>)
            | None \<Rightarrow> small_loop desc msk jalign npages rounds (mi + 1)))"

definition ihk_pagealloc_alloc :: "pa_desc \<Rightarrow> nat \<Rightarrow> nat \<Rightarrow> u64 \<times> pa_desc" where
  "ihk_pagealloc_alloc desc npages p2align =
     (if 32 \<le> npages \<or> 5 \<le> p2align then ihk_pagealloc_large desc npages p2align
      else small_loop desc (push_bit npages 1 - 1) (if p2align = 0 then 1 else 2 ^ p2align) npages
             (pd_count desc) (pd_last desc))"

text \<open>The loop of \<open>ihk_pagealloc_reserve\<close> sets whole words where it can.\<close>

function reserve_loop :: "nat \<Rightarrow> nat \<Rightarrow> u64 list \<Rightarrow> pa_fault + u64 list" where
  "reserve_loop i n m =
     (if i < n then
        if i mod 64 = 0 \<and> i + 63 < n then
          (if i div 64 < length m then reserve_loop (i + 64) n (m[i div 64 := NOT 0]) else Inl PA_OutOfBounds)
        else
          (case set_bit_at i m of
             None \<Rightarrow> Inl PA_OutOfBounds
           | Some m' \<Rightarrow> reserve_loop (i + 1) n m')
      else Inr m)"
  by pat_completeness auto
termination by (relation "measure (\<lambda>(i, n, m). n - i)") auto

declare reserve_loop.simps [simp del]

definition ihk_pagealloc_reserve :: "pa_desc \<Rightarrow> u64 \<Rightarrow> u64 \<Rightarrow> pa_fault + pa_desc" where
  "ihk_pagealloc_reserve desc start end_addr =
     (let n = to_int (drop_bit (pd_shift desc) (end_addr + push_bit (pd_shift desc) 1 - 1 - pd_start desc));
          i = to_int (drop_bit (pd_shift desc) (start - pd_start desc))
      in if i < 0 \<or> n < 0 then Inr desc
         else (case reserve_loop (nat i) (nat n) (pd_map desc) of
                 Inl e \<Rightarrow> Inl e
               | Inr m \<Rightarrow> Inr (desc\<lparr>pd_map := m\<rparr>)))"

fun free_loop :: "nat \<Rightarrow> nat \<Rightarrow> u64 list \<Rightarrow> pa_fault + u64 list" where
  "free_loop mi 0 m = Inr m"
| "free_loop mi (Suc n) m =
     (case word_at m (mi div 64) of
        None \<Rightarrow> Inl PA_OutOfBounds
      | Some w \<Rightarrow>
          if w AND push_bit (mi mod 64) 1 = 0 then Inl PA_Panic
          else free_loop (Suc mi) n (m[mi div 64 := w AND NOT (push_bit (mi mod 64) 1)]))"

definition ihk_pagealloc_free :: "pa_desc \<Rightarrow> u64 \<Rightarrow> nat \<Rightarrow> pa_fault + pa_desc" where
  "ihk_pagealloc_free desc address npages =
     (let mi = unat (ucast (drop_bit (pd_shift desc) (address - pd_start desc)) :: u32)
      in case free_loop mi npages (pd_map desc) of
           Inl e \<Rightarrow> Inl e
         | Inr m \<Rightarrow> Inr (desc\<lparr>pd_map := m\<rparr>))"

definition free_bits_of_word :: "u64 \<Rightarrow> nat list" where
  "free_bits_of_word v = filter (\<lambda>j. v AND push_bit j 1 = 0) [0 ..< 64]"

definition ihk_pagealloc_count :: "pa_desc \<Rightarrow> nat" where
  "ihk_pagealloc_count desc = sum_list (map (\<lambda>i. length (free_bits_of_word (pd_map desc ! i))) [0 ..< pd_count desc])"

definition ihk_pagealloc_query_free :: "pa_desc \<Rightarrow> nat" where
  "ihk_pagealloc_query_free desc =
     sum_list (map (\<lambda>mi. if pd_map desc ! mi = NOT 0 then 0 else length (free_bits_of_word (pd_map desc ! mi))) [0 ..< pd_count desc])"

text \<open>The addresses \<open>__ihk_pagealloc_zero_free_pages\<close> clears, in its order.\<close>

definition ihk_pagealloc_zero_free_pages :: "pa_desc \<Rightarrow> u64 list" where
  "ihk_pagealloc_zero_free_pages desc =
     concat (map (\<lambda>mi. if pd_map desc ! mi = NOT 0 then []
                       else map (ADDRESS desc mi) (free_bits_of_word (pd_map desc ! mi))) [0 ..< pd_count desc])"

subsection \<open>Pages of the map\<close>

definition page_free :: "u64 list \<Rightarrow> nat \<Rightarrow> bool" where
  "page_free m i \<longleftrightarrow> i < 64 * length m \<and> \<not> region_bit m i"

text \<open>\<open>m'\<close> is \<open>m\<close> with the free run \<open>[base, base + n)\<close> taken (marked used).\<close>

definition bits_taken :: "u64 list \<Rightarrow> nat \<Rightarrow> nat \<Rightarrow> u64 list \<Rightarrow> bool" where
  "bits_taken m base n m' \<longleftrightarrow> length m' = length m \<and> base + n \<le> 64 * length m \<and>
     (\<forall>i. base \<le> i \<and> i < base + n \<longrightarrow> \<not> region_bit m i) \<and>
     (\<forall>i < 64 * length m. region_bit m' i \<longleftrightarrow> region_bit m i \<or> base \<le> i \<and> i < base + n)"

lemma map_index_less: "i < 64 * n \<longleftrightarrow> i div 64 < (n::nat)"
  by (auto simp: div_less_iff_less_mult mult.commute)

lemma mask_of_count: "push_bit n 1 - 1 = (mask n :: u64)"
  by (simp add: push_bit_eq_mult mask_eq_exp_minus_1)

lemma and_shifted_mask_zero:
  "j + n \<le> 64 \<Longrightarrow> v AND push_bit j (mask n) = (0 :: u64) \<longleftrightarrow> (\<forall>k. j \<le> k \<and> k < j + n \<longrightarrow> \<not> bit v k)"
proof -
  assume le: "j + n \<le> 64"
  have "bit (push_bit j (mask n) :: u64) k \<longleftrightarrow> j \<le> k \<and> k < j + n" for k
    using le by (auto simp: bit_simps)
  then show ?thesis by (auto simp: word_zero_iff bit_and_iff)
qed

lemma find_slot_Some:
  "find_slot v msk a n j = Some k \<Longrightarrow> j \<le> k \<and> k \<le> 64 - n \<and> k mod a = 0 \<and> v AND push_bit k msk = 0"
proof (induction v msk a n j rule: find_slot.induct)
  case (1 v msk a n j)
  show ?case
  proof (cases "j \<le> 64 - n \<and> j mod a = 0 \<and> v AND push_bit j msk = 0")
    case True
    with 1(3) show ?thesis by (simp add: find_slot.simps [of v msk a n j])
  next
    case False
    with 1(3) have le: "j \<le> 64 - n" and next_slot: "find_slot v msk a n (j + 1) = Some k"
      by (auto simp: find_slot.simps [of v msk a n j] split: if_splits)
    from False le next_slot 1(1) [OF le] 1(2) [OF le] show ?thesis by fastforce
  qed
qed

lemma find_slot_None:
  "find_slot v msk a n j = None \<Longrightarrow> j \<le> k \<Longrightarrow> k \<le> 64 - n \<Longrightarrow> k mod a = 0 \<Longrightarrow> v AND push_bit k msk \<noteq> 0"
proof (induction v msk a n j rule: find_slot.induct)
  case (1 v msk a n j)
  have le: "j \<le> 64 - n" using 1(4,5) by simp
  have here: "\<not> (j mod a = 0 \<and> v AND push_bit j msk = 0)" using 1(3) le by (auto simp: find_slot.simps [of v msk a n j])
  with 1(3) le have rest: "find_slot v msk a n (j + 1) = None"
    by (auto simp: find_slot.simps [of v msk a n j] split: if_splits)
  show ?case
  proof (cases "j = k")
    case True
    with here 1(6) show ?thesis by simp
  next
    case False
    then have k: "j + 1 \<le> k" using 1(4) by simp
    show ?thesis
    proof (cases "j mod a = 0")
      case True
      with here have "v AND push_bit j msk \<noteq> 0" by simp
      with 1(2) [OF le _ _ rest k 1(5,6)] True show ?thesis by simp
    next
      case False
      with 1(1) [OF le _ rest k 1(5,6)] show ?thesis by simp
    qed
  qed
qed

text \<open>Taking a slot of one word, and taking whole words.\<close>

lemma small_taken:
  assumes "mi < length m" "j + n \<le> 64" "m ! mi AND push_bit j (mask n) = 0"
  shows "bits_taken m (64 * mi + j) n (m[mi := m ! mi OR push_bit j (mask n)])"
proof -
  have free: "\<not> region_bit m i" if "64 * mi + j \<le> i" "i < 64 * mi + j + n" for i
  proof -
    have d: "i div 64 = mi" using that assms(2) by (auto simp: div_nat_eqI)
    then have r: "i mod 64 = i - 64 * mi" by (simp add: modulo_nat_def mult.commute)
    have "j \<le> i - 64 * mi" "i - 64 * mi < j + n" using that by linarith+
    then have "\<not> bit (m ! mi) (i - 64 * mi)" using assms(2,3) and_shifted_mask_zero [of j n "m ! mi"] by blast
    with d r show ?thesis by (simp add: region_bit_def)
  qed
  have upd: "region_bit (m[mi := m ! mi OR push_bit j (mask n)]) i \<longleftrightarrow> region_bit m i \<or> 64 * mi + j \<le> i \<and> i < 64 * mi + j + n"
    if "i < 64 * length m" for i
  proof (cases "i div 64 = mi")
    case True
    then have i: "i = 64 * mi + i mod 64" by (metis div_mult_mod_eq mult.commute)
    have "bit (push_bit j (mask n) :: u64) (i mod 64) \<longleftrightarrow> j \<le> i mod 64 \<and> i mod 64 < j + n"
      using assms(2) by (auto simp: bit_simps)
    moreover have "64 * mi + j \<le> i \<longleftrightarrow> j \<le> i mod 64" "i < 64 * mi + j + n \<longleftrightarrow> i mod 64 < j + n" using i by linarith+
    ultimately show ?thesis using True region_bit_update [OF assms(1) that] by (simp add: bit_or_iff region_bit_def)
  next
    case False
    then have "\<not> (64 * mi + j \<le> i \<and> i < 64 * mi + j + n)" using assms(2) by (auto simp: div_nat_eqI)
    with False region_bit_update [OF assms(1) that] show ?thesis by auto
  qed
  have "64 * mi + j + n \<le> 64 * length m" using assms(1,2) by linarith
  with free upd show ?thesis by (auto simp: bits_taken_def)
qed

lemma fold_update_nth:
  "k < length m \<Longrightarrow> fold (\<lambda>j m. m[j := x]) js m ! k = (if k \<in> set js then x else m ! k)"
  by (induction js arbitrary: m) (auto simp: nth_list_update)

lemma fold_update_length [simp]: "length (fold (\<lambda>j m. m[j := x]) js m) = length m"
  by (induction js arbitrary: m) auto

lemma large_taken:
  assumes "0 < nb" "mi + nb \<le> length m" "large_free m mi nb (mask f)" "0 < f" "f \<le> 64"
  shows "bits_taken m (64 * mi) (64 * (nb - 1) + f) (large_take m mi nb (mask f))"
proof -
  let ?l = "mi + nb - 1" and ?m = "large_take m mi nb (mask f)"
  have free: "m ! j = 0" if "mi \<le> j" "j < ?l" for j using assms(3) that by (auto simp: large_free_def list_all_iff)
  have last: "\<not> bit (m ! ?l) k" if "k < f" for k
    using assms(3) that by (auto simp: large_free_def and_mask_zero_iff)
  have len: "?l < length m" "length ?m = length m" using assms(1,2) by (simp_all add: large_take_def Let_def)
  have nth: "?m ! j = (if j = ?l then m ! j OR mask f else if mi \<le> j \<and> j < ?l then NOT 0 else m ! j)" if "j < length m" for j
    using that len(1) assms(1) by (auto simp: large_take_def Let_def nth_list_update fold_update_nth)
  have range: "64 * mi \<le> i \<and> i < 64 * mi + (64 * (nb - 1) + f) \<longleftrightarrow> mi \<le> i div 64 \<and> (i div 64 < ?l \<or> i div 64 = ?l \<and> i mod 64 < f)" for i
  proof -
    have i: "i = 64 * (i div 64) + i mod 64" "i mod 64 < 64" by simp_all
    have "64 * mi + (64 * (nb - 1) + f) = 64 * ?l + f" using assms(1) by (simp add: algebra_simps)
    then show ?thesis using i assms(5) by linarith
  qed
  have "region_bit ?m i \<longleftrightarrow> region_bit m i \<or> 64 * mi \<le> i \<and> i < 64 * mi + (64 * (nb - 1) + f)" if "i < 64 * length m" for i
  proof -
    have j: "i div 64 < length m" "i mod 64 < 64" using that by (simp_all add: map_index_less)
    show ?thesis unfolding range region_bit_def nth [OF j(1)] using assms(1) j(2) by (auto simp: bit_simps)
  qed
  moreover have "\<not> region_bit m i" if "64 * mi \<le> i \<and> i < 64 * mi + (64 * (nb - 1) + f)" for i
    using that [unfolded range] free [of "i div 64"] last by (auto simp: region_bit_def)
  moreover have "64 * mi + (64 * (nb - 1) + f) \<le> 64 * length m" using assms(1,2,5) by linarith
  ultimately show ?thesis using len(2) by (auto simp: bits_taken_def)
qed

subsection \<open>Bytes and invariant\<close>

text \<open>A descriptor as \<open>kernel/mem.c\<close> sets it up: units of one page, a page-aligned start.\<close>

definition pa_ok :: "pa_desc \<Rightarrow> bool" where
  "pa_ok desc \<longleftrightarrow> length (pd_map desc) = pd_count desc \<and> pd_last desc = 0 \<and> pd_shift desc = 12 \<and>
     4096 dvd unat (pd_start desc) \<and> 0 < unat (pd_start desc) \<and>
     unat (pd_start desc) + 4096 * (64 * pd_count desc) \<le> 2 ^ 52 \<and> 64 * pd_count desc < 2 ^ 31"

definition pa_avail :: "pa_desc \<Rightarrow> nat set" where
  "pa_avail desc = {b. unat (pd_start desc) \<le> b \<and> page_free (pd_map desc) ((b - unat (pd_start desc)) div 4096)}"

definition pa_managed :: "pa_desc \<Rightarrow> nat set" where
  "pa_managed desc = {unat (pd_start desc) ..< unat (pd_start desc) + 4096 * (64 * pd_count desc)}"

lemma ADDRESS_unat:
  assumes "pa_ok desc" "index * 64 + b \<le> 64 * pd_count desc"
  shows "unat (ADDRESS desc index b) = unat (pd_start desc) + 4096 * (index * 64 + b)"
proof -
  have small: "4096 * (index * 64 + b) < 2 ^ 64" using assms by (simp add: pa_ok_def)
  then have "unat (push_bit (pd_shift desc) (of_nat (index * 64 + b)) :: u64) = 4096 * (index * 64 + b)"
    using assms(1) by (simp add: pa_ok_def push_bit_eq_mult unat_word_ariths unat_of_nat mod_mult_eq mult.commute)
  then show ?thesis using assms unfolding ADDRESS_def by (subst u64_add) (simp_all add: pa_ok_def)
qed

lemma page_range_pages:
  assumes "unat a = s + 4096 * base" "0 \<le> n"
  shows "b \<in> page_range a n \<longleftrightarrow> s \<le> b \<and> base \<le> (b - s) div 4096 \<and> (b - s) div 4096 < base + nat n"
proof -
  have "base \<le> (b - s) div 4096 \<longleftrightarrow> 4096 * base \<le> b - s" "(b - s) div 4096 < base + nat n \<longleftrightarrow> b - s < 4096 * (base + nat n)"
    by (simp_all add: less_eq_div_iff_mult_less_eq div_less_iff_less_mult mult.commute)
  then show ?thesis using assms(1) unfolding page_range_def by (cases "s \<le> b") (auto simp: algebra_simps)
qed

lemma bits_taken_bytes:
  assumes ok: "pa_ok desc" and taken: "bits_taken (pd_map desc) base (nat n) m'" and n: "0 \<le> n"
    and a: "unat a = unat (pd_start desc) + 4096 * base"
  shows "page_range a n \<subseteq> pa_avail desc" "pa_avail (desc\<lparr>pd_map := m'\<rparr>) = pa_avail desc - page_range a n" "pa_ok (desc\<lparr>pd_map := m'\<rparr>)"
proof -
  note range = page_range_pages [OF a n]
  have free: "page_free (pd_map desc) i" if "base \<le> i" "i < base + nat n" for i
    using taken that by (auto simp: bits_taken_def page_free_def)
  then show "page_range a n \<subseteq> pa_avail desc" by (auto simp: range pa_avail_def)
  have pf: "page_free m' i \<longleftrightarrow> page_free (pd_map desc) i \<and> \<not> (base \<le> i \<and> i < base + nat n)" for i
    using taken by (auto simp: bits_taken_def page_free_def)
  show "pa_avail (desc\<lparr>pd_map := m'\<rparr>) = pa_avail desc - page_range a n"
  proof (rule set_eqI)
    fix b
    show "b \<in> pa_avail (desc\<lparr>pd_map := m'\<rparr>) \<longleftrightarrow> b \<in> pa_avail desc - page_range a n"
      unfolding Diff_iff range using pf by (auto simp: pa_avail_def)
  qed
  show "pa_ok (desc\<lparr>pd_map := m'\<rparr>)" using ok taken by (simp add: pa_ok_def bits_taken_def)
qed

subsection \<open>Allocation\<close>

lemma small_loop_cases:
  "small_loop desc msk al n rounds mi = (0, desc) \<or>
   (\<exists>k j. k < pd_count desc \<and> find_slot (pd_map desc ! k) msk al n 0 = Some j \<and>
      small_loop desc msk al n rounds mi =
        (ADDRESS desc k j, desc\<lparr>pd_map := (pd_map desc)[k := pd_map desc ! k OR push_bit j msk]\<rparr>))"
  if "0 < pd_count desc \<or> rounds = 0"
  using that
proof (induction rounds arbitrary: mi)
  case (Suc rounds)
  let ?mi = "if pd_count desc \<le> mi then 0 else mi"
  have k: "?mi < pd_count desc" using Suc.prems by auto
  show ?case
  proof (cases "pd_map desc ! ?mi = NOT 0 \<or> find_slot (pd_map desc ! ?mi) msk al n 0 = None")
    case True
    then have "small_loop desc msk al n (Suc rounds) mi = small_loop desc msk al n rounds (?mi + 1)"
      by (auto simp: Let_def)
    with Suc.IH [of "?mi + 1"] Suc.prems show ?thesis by auto
  next
    case False
    then obtain j where "find_slot (pd_map desc ! ?mi) msk al n 0 = Some j" by auto
    with False k show ?thesis by (intro disjI2 exI [of _ ?mi] exI [of _ j]) (auto simp: Let_def)
  qed
qed simp

lemma large_loop_cases:
  "large_loop desc nb msk am rounds mi = (0, desc) \<or>
   (\<exists>k. k + nb < pd_count desc \<and> ADDRESS desc k 0 AND am = 0 \<and> large_free (pd_map desc) k nb msk \<and>
      large_loop desc nb msk am rounds mi = (ADDRESS desc k 0, desc\<lparr>pd_map := large_take (pd_map desc) k nb msk\<rparr>))"
proof (induction rounds arbitrary: mi)
  case (Suc rounds)
  let ?mi = "if pd_count desc \<le> mi then 0 else mi"
  show ?case
  proof (cases "pd_count desc \<le> ?mi + nb \<or> ADDRESS desc ?mi 0 AND am \<noteq> 0 \<or> \<not> large_free (pd_map desc) ?mi nb msk")
    case True
    then have "large_loop desc nb msk am (Suc rounds) mi = large_loop desc nb msk am rounds (?mi + 1)"
      by (auto simp: Let_def)
    with Suc.IH [of "?mi + 1"] show ?thesis by auto
  next
    case False
    then show ?thesis by (intro disjI2 exI [of _ ?mi]) (auto simp: Let_def)
  qed
qed simp

lemma pagealloc_small_sound:
  assumes ok: "pa_ok desc" and n: "0 < npages" "npages < 32" and p: "p2align < 5"
  shows "\<exists>a m. ihk_pagealloc_alloc desc (nat npages) p2align = (a, desc\<lparr>pd_map := m\<rparr>) \<and>
     (a = 0 \<and> m = pd_map desc \<or>
      (\<exists>base. bits_taken (pd_map desc) base (nat npages) m \<and> unat a = unat (pd_start desc) + 4096 * base))"
proof -
  let ?msk = "mask (nat npages) :: u64" and ?al = "if p2align = 0 then 1 else 2 ^ p2align :: nat"
  have run: "ihk_pagealloc_alloc desc (nat npages) p2align = small_loop desc ?msk ?al (nat npages) (pd_count desc) (pd_last desc)"
  proof -
    have "\<not> (32 \<le> nat npages \<or> 5 \<le> p2align)" using n p by linarith
    then show ?thesis by (simp only: ihk_pagealloc_alloc_def if_False mask_of_count)
  qed
  from small_loop_cases [of desc "pd_count desc" ?msk ?al "nat npages" "pd_last desc"]
  consider "small_loop desc ?msk ?al (nat npages) (pd_count desc) (pd_last desc) = (0, desc)"
    | k j where "k < pd_count desc" "find_slot (pd_map desc ! k) ?msk ?al (nat npages) 0 = Some j"
        "small_loop desc ?msk ?al (nat npages) (pd_count desc) (pd_last desc) =
          (ADDRESS desc k j, desc\<lparr>pd_map := (pd_map desc)[k := pd_map desc ! k OR push_bit j ?msk]\<rparr>)"
    by auto
  then show ?thesis
  proof cases
    case 1
    with run show ?thesis by (intro exI [of _ 0] exI [of _ "pd_map desc"]) simp
  next
    case (2 k j)
    from find_slot_Some [OF 2(2)] n have j: "j + nat npages \<le> 64" "pd_map desc ! k AND push_bit j (mask (nat npages)) = 0"
      by auto
    have len: "length (pd_map desc) = pd_count desc" using ok by (simp add: pa_ok_def)
    have t: "bits_taken (pd_map desc) (64 * k + j) (nat npages) ((pd_map desc)[k := pd_map desc ! k OR push_bit j ?msk])"
      using small_taken [of k "pd_map desc" j "nat npages"] 2(1) j len by simp
    have "unat (ADDRESS desc k j) = unat (pd_start desc) + 4096 * (64 * k + j)"
      using ADDRESS_unat [OF ok, of k j] 2(1) j(1) by (simp add: mult.commute)
    with t run 2(3) show ?thesis
      by (intro exI [of _ "ADDRESS desc k j"] exI [of _ "(pd_map desc)[k := pd_map desc ! k OR push_bit j ?msk]"] conjI disjI2 exI [of _ "64 * k + j"]) simp_all
  qed
qed

lemma pagealloc_large_sound:
  assumes ok: "pa_ok desc" and n: "0 < npages"
  shows "\<exists>a m. ihk_pagealloc_large desc npages p2align = (a, desc\<lparr>pd_map := m\<rparr>) \<and>
     (a = 0 \<and> m = pd_map desc \<or>
      (\<exists>base. bits_taken (pd_map desc) base npages m \<and> unat a = unat (pd_start desc) + 4096 * base))"
proof -
  define f where "f = (if 0 < npages mod 64 then npages mod 64 else 64)"
  define nb where "nb = (if 0 < npages mod 64 then npages div 64 + 1 else npages div 64)"
  have f: "0 < f" "f \<le> 64" by (auto simp: f_def less_imp_le)
  have nb: "0 < nb" "64 * (nb - 1) + f = npages"
  proof -
    have d: "npages = 64 * (npages div 64) + npages mod 64" by simp
    obtain q r where qr: "npages div 64 = q" "npages mod 64 = r" by blast
    note qr = qr d [unfolded qr]
    show "0 < nb" using n qr(3) unfolding nb_def qr(1,2) by auto
    show "64 * (nb - 1) + f = npages" using n qr(3) unfolding nb_def f_def qr(1,2) by (cases q) auto
  qed
  have msk: "(if 0 < npages mod 64 then push_bit (npages mod 64) 1 - 1 else NOT 0) = (mask f :: u64)"
  proof (cases "0 < npages mod 64")
    case True
    then show ?thesis by (simp only: f_def mask_of_count if_True)
  next
    case False
    have "NOT 0 = (mask 64 :: u64)" by (rule bit_word_eqI) (simp add: bit_simps)
    with False show ?thesis by (simp only: f_def if_False)
  qed
  let ?am = "push_bit p2align PAGE_SIZE - 1 :: u64"
  have run: "ihk_pagealloc_large desc npages p2align = large_loop desc nb (mask f) ?am (pd_count desc) (pd_last desc)"
    unfolding ihk_pagealloc_large_def Let_def msk by (simp add: nb_def)
  from large_loop_cases [of desc nb "mask f" ?am "pd_count desc" "pd_last desc"] show ?thesis
  proof
    assume "large_loop desc nb (mask f) ?am (pd_count desc) (pd_last desc) = (0, desc)"
    with run show ?thesis by (intro exI [of _ 0] exI [of _ "pd_map desc"]) simp
  next
    assume "\<exists>k. k + nb < pd_count desc \<and> ADDRESS desc k 0 AND ?am = 0 \<and> large_free (pd_map desc) k nb (mask f) \<and>
      large_loop desc nb (mask f) ?am (pd_count desc) (pd_last desc) =
        (ADDRESS desc k 0, desc\<lparr>pd_map := large_take (pd_map desc) k nb (mask f)\<rparr>)"
    then obtain k where k: "k + nb < pd_count desc" "large_free (pd_map desc) k nb (mask f)"
      "large_loop desc nb (mask f) ?am (pd_count desc) (pd_last desc) =
        (ADDRESS desc k 0, desc\<lparr>pd_map := large_take (pd_map desc) k nb (mask f)\<rparr>)" by blast
    have "length (pd_map desc) = pd_count desc" using ok by (simp add: pa_ok_def)
    then have "bits_taken (pd_map desc) (64 * k) npages (large_take (pd_map desc) k nb (mask f))"
      using large_taken [OF nb(1) _ k(2) f] k(1) nb(2) by simp
    moreover have "unat (ADDRESS desc k 0) = unat (pd_start desc) + 4096 * (64 * k)"
      using ADDRESS_unat [OF ok, of k 0] k(1) by (simp add: mult.commute)
    ultimately show ?thesis using run k(3)
      by (intro exI [of _ "ADDRESS desc k 0"] exI [of _ "large_take (pd_map desc) k nb (mask f)"] conjI disjI2 exI [of _ "64 * k"]) simp_all
  qed
qed

subsection \<open>Freeing and reserving\<close>

lemma free_loop_ok:
  assumes "mi + n \<le> 64 * length m" "\<forall>i. mi \<le> i \<and> i < mi + n \<longrightarrow> region_bit m i"
  shows "\<exists>m'. free_loop mi n m = Inr m' \<and> length m' = length m \<and>
     (\<forall>i < 64 * length m. region_bit m' i \<longleftrightarrow> region_bit m i \<and> \<not> (mi \<le> i \<and> i < mi + n))"
  using assms
proof (induction n arbitrary: mi m)
  case (Suc n)
  have mi: "mi < 64 * length m" "mi div 64 < length m" using Suc.prems(1) by (auto simp: map_index_less [symmetric])
  have "region_bit m mi" using Suc.prems(2) by simp
  then have used: "m ! (mi div 64) AND push_bit (mi mod 64) 1 \<noteq> 0"
    by (auto simp: region_bit_def word_zero_iff bit_simps)
  from clear_bit_at_region [OF mi(1)] mi(2) obtain m1 where
    m1: "m1 = m[mi div 64 := m ! (mi div 64) AND NOT (push_bit (mi mod 64) 1)]" "length m1 = length m"
      "\<forall>i < 64 * length m. region_bit m1 i \<longleftrightarrow> i \<noteq> mi \<and> region_bit m i"
    by (auto simp: clear_bit_at_def word_at_def)
  have "Suc mi + n \<le> 64 * length m1" "\<forall>i. Suc mi \<le> i \<and> i < Suc mi + n \<longrightarrow> region_bit m1 i"
    using Suc.prems m1(2,3) by auto
  from Suc.IH [OF this] obtain m2 where
    m2: "free_loop (Suc mi) n m1 = Inr m2" "length m2 = length m1"
      "\<forall>i < 64 * length m1. region_bit m2 i \<longleftrightarrow> region_bit m1 i \<and> \<not> (Suc mi \<le> i \<and> i < Suc mi + n)" by blast
  have "free_loop mi (Suc n) m = Inr m2" using mi(2) used m1(1) m2(1) by (simp add: word_at_def)
  moreover have "\<forall>i < 64 * length m. region_bit m2 i \<longleftrightarrow> region_bit m i \<and> \<not> (mi \<le> i \<and> i < mi + Suc n)"
    using m1(2,3) m2(3) by auto
  ultimately show ?case using m1(2) m2(2) by auto
qed simp

lemma free_loop_panic:
  assumes "mi + n \<le> 64 * length m" "mi \<le> i" "i < mi + n" "\<not> region_bit m i"
  shows "free_loop mi n m = Inl PA_Panic"
  using assms
proof (induction n arbitrary: mi m)
  case (Suc n)
  have mi: "mi < 64 * length m" "mi div 64 < length m" using Suc.prems(1) by (auto simp: map_index_less [symmetric])
  show ?case
  proof (cases "region_bit m mi")
    case False
    then have "m ! (mi div 64) AND push_bit (mi mod 64) 1 = 0"
      by (auto simp: region_bit_def word_zero_iff bit_simps)
    with mi(2) show ?thesis by (simp add: word_at_def)
  next
    case True
    then have used: "m ! (mi div 64) AND push_bit (mi mod 64) 1 \<noteq> 0"
      by (auto simp: region_bit_def word_zero_iff bit_simps)
    from clear_bit_at_region [OF mi(1)] mi(2) obtain m1 where
      m1: "m1 = m[mi div 64 := m ! (mi div 64) AND NOT (push_bit (mi mod 64) 1)]" "length m1 = length m"
        "\<forall>i < 64 * length m. region_bit m1 i \<longleftrightarrow> i \<noteq> mi \<and> region_bit m i"
      by (auto simp: clear_bit_at_def word_at_def)
    have "i \<noteq> mi" using True Suc.prems(4) by blast
    then have "Suc mi + n \<le> 64 * length m1" "Suc mi \<le> i" "i < Suc mi + n" "\<not> region_bit m1 i"
      using Suc.prems m1(2,3) by auto
    from Suc.IH [OF this] used mi(2) m1(1) show ?thesis by (simp add: word_at_def)
  qed
qed simp

lemma reserve_loop_ok:
  "n \<le> 64 * length m \<Longrightarrow> \<exists>m'. reserve_loop i n m = Inr m' \<and> length m' = length m \<and>
     (\<forall>k < 64 * length m. region_bit m' k \<longleftrightarrow> region_bit m k \<or> i \<le> k \<and> k < n)"
proof (induction i n m rule: reserve_loop.induct)
  case (1 i n m)
  show ?case
  proof (cases "i < n")
    case False
    then show ?thesis by (auto simp: reserve_loop.simps [of i n m])
  next
    case True
    have d: "i div 64 < length m" "i < 64 * length m" using True 1(3) by (auto simp: map_index_less [symmetric])
    show ?thesis
    proof (cases "i mod 64 = 0 \<and> i + 63 < n")
      case word: True
      let ?m = "m[i div 64 := NOT 0]"
      from 1(1) [OF True word d(1)] 1(3) obtain m' where
        m': "reserve_loop (i + 64) n ?m = Inr m'" "length m' = length m"
          "\<forall>k < 64 * length m. region_bit m' k \<longleftrightarrow> region_bit ?m k \<or> i + 64 \<le> k \<and> k < n" by auto
      have "region_bit m' k \<longleftrightarrow> region_bit m k \<or> i \<le> k \<and> k < n" if "k < 64 * length m" for k
      proof -
        have i: "i = 64 * (i div 64)" using word by (metis div_mult_mod_eq mult.commute add.right_neutral)
        have "k div 64 = i div 64 \<longleftrightarrow> i \<le> k \<and> k < i + 64"
        proof
          assume "k div 64 = i div 64"
          then show "i \<le> k \<and> k < i + 64" using i by (metis div_mult_mod_eq mult.commute le_add1 nat_add_left_cancel_less mod_less_divisor zero_less_numeral)
        next
          assume "i \<le> k \<and> k < i + 64"
          then show "k div 64 = i div 64" using i by (intro div_nat_eqI) auto
        qed
        with m'(3) that region_bit_update [OF d(1) that, of "NOT 0"] word show ?thesis by (auto simp: bit_simps)
      qed
      moreover have "reserve_loop i n m = Inr m'" using True word d(1) m'(1) by (simp add: reserve_loop.simps [of i n m])
      ultimately show ?thesis using m'(2) by auto
    next
      case single: False
      from set_bit_at_region [OF d(2)] obtain m1 where
        m1: "set_bit_at i m = Some m1" "length m1 = length m" "\<forall>k < 64 * length m. region_bit m1 k \<longleftrightarrow> k = i \<or> region_bit m k" by blast
      from 1(2) [OF True single m1(1)] 1(3) m1(2) obtain m' where
        m': "reserve_loop (i + 1) n m1 = Inr m'" "length m' = length m"
          "\<forall>k < 64 * length m. region_bit m' k \<longleftrightarrow> region_bit m1 k \<or> i + 1 \<le> k \<and> k < n" by auto
      have "reserve_loop i n m = Inr m'" using True single m1(1) m'(1) by (auto simp: reserve_loop.simps [of i n m])
      with m'(2,3) m1(3) True show ?thesis by auto
    qed
  qed
qed

lemma set_bits_ok:
  "i + n \<le> 64 * length m \<Longrightarrow> \<exists>m'. set_bits i n m = Some m' \<and> length m' = length m \<and>
     (\<forall>k < 64 * length m. region_bit m' k \<longleftrightarrow> region_bit m k \<or> i \<le> k \<and> k < i + n)"
proof (induction n arbitrary: i m)
  case (Suc n)
  from set_bit_at_region [of i m] Suc.prems obtain m1 where
    m1: "set_bit_at i m = Some m1" "length m1 = length m" "\<forall>k < 64 * length m. region_bit m1 k \<longleftrightarrow> k = i \<or> region_bit m k" by auto
  have "Suc i + n \<le> 64 * length m1" using Suc.prems m1(2) by simp
  from Suc.IH [OF this] obtain m' where
    "set_bits (Suc i) n m1 = Some m'" "length m' = length m1"
    "\<forall>k < 64 * length m1. region_bit m' k \<longleftrightarrow> region_bit m1 k \<or> Suc i \<le> k \<and> k < Suc i + n" by blast
  with m1 show ?case by auto
qed auto

definition bitmap_alloc :: "pa_desc \<Rightarrow> int \<Rightarrow> nat \<Rightarrow> (u64 \<times> pa_desc) option" where
  "bitmap_alloc desc npages p2align = Some (ihk_pagealloc_alloc desc (nat npages) p2align)"

definition bitmap_dealloc :: "pa_desc \<Rightarrow> u64 \<Rightarrow> int \<Rightarrow> pa_desc option" where
  "bitmap_dealloc desc a npages =
     (case ihk_pagealloc_free desc a (nat npages) of Inl e \<Rightarrow> None | Inr desc' \<Rightarrow> Some desc')"

lemma pagealloc_sound:
  assumes ok: "pa_ok desc" and req: "request_ok npages p2align"
  shows "\<exists>a m. ihk_pagealloc_alloc desc (nat npages) p2align = (a, desc\<lparr>pd_map := m\<rparr>) \<and>
     (a = 0 \<and> m = pd_map desc \<or>
      (\<exists>base. bits_taken (pd_map desc) base (nat npages) m \<and> unat a = unat (pd_start desc) + 4096 * base))"
proof (cases "npages < 32 \<and> p2align < 5")
  case True
  then show ?thesis using pagealloc_small_sound [OF ok] req by (simp add: request_ok_def)
next
  case False
  then have "ihk_pagealloc_alloc desc (nat npages) p2align = ihk_pagealloc_large desc (nat npages) p2align"
    by (auto simp: ihk_pagealloc_alloc_def)
  then show ?thesis using pagealloc_large_sound [OF ok, of "nat npages" p2align] req by (simp add: request_ok_def)
qed

text \<open>The page index \<open>ihk_pagealloc_free\<close> computes from an address.\<close>

lemma free_index:
  assumes ok: "pa_ok desc" and al: "4096 dvd unat a" and r: "page_range a npages \<subseteq> pa_managed desc" "0 < npages"
  shows "\<exists>base. unat a = unat (pd_start desc) + 4096 * base \<and> base + nat npages \<le> 64 * pd_count desc \<and>
     unat (ucast (drop_bit (pd_shift desc) (a - pd_start desc)) :: u32) = base"
proof -
  let ?s = "unat (pd_start desc)"
  have ends: "unat a \<in> pa_managed desc" "unat a + 4096 * nat npages - 1 \<in> pa_managed desc"
    using r by (auto simp: page_range_def)
  then have lo: "?s \<le> unat a" and hi: "unat a + 4096 * nat npages \<le> ?s + 4096 * (64 * pd_count desc)"
    using r(2) by (auto simp: pa_managed_def)
  have "4096 dvd unat a - ?s" using al ok by (simp add: pa_ok_def)
  then obtain base where base: "unat a - ?s = 4096 * base" by blast
  have eq: "unat a = ?s + 4096 * base" using base lo by simp
  have le: "base + nat npages \<le> 64 * pd_count desc" using hi eq by simp
  have "unat (a - pd_start desc) = 4096 * base" using lo base by (simp add: u64_sub word_nat)
  then have "unat (drop_bit (pd_shift desc) (a - pd_start desc)) = base"
    using ok unsigned_drop_bit_eq [of 12 "a - pd_start desc", where ?'a=nat] le
    by (simp add: pa_ok_def take_bit_eq_mod drop_bit_eq_div)
  moreover have "base < 2 ^ 32" using le ok by (simp add: pa_ok_def)
  ultimately have "unat (ucast (drop_bit (pd_shift desc) (a - pd_start desc)) :: u32) = base"
    by (simp add: unsigned_ucast_eq take_bit_eq_mod)
  with eq le show ?thesis by blast
qed

lemma pagealloc_free_sound:
  assumes ok: "pa_ok desc" and n: "0 < npages" and al: "4096 dvd unat a"
    and r: "page_range a npages \<subseteq> pa_managed desc" "page_range a npages \<inter> pa_avail desc = {}"
  shows "\<exists>m. ihk_pagealloc_free desc a (nat npages) = Inr (desc\<lparr>pd_map := m\<rparr>) \<and> pa_ok (desc\<lparr>pd_map := m\<rparr>) \<and>
     pa_avail (desc\<lparr>pd_map := m\<rparr>) = pa_avail desc \<union> page_range a npages"
proof -
  let ?s = "unat (pd_start desc)" and ?m = "pd_map desc"
  from free_index [OF ok al r(1) n] obtain base where
    base: "unat a = ?s + 4096 * base" "base + nat npages \<le> 64 * pd_count desc"
      "unat (ucast (drop_bit (pd_shift desc) (a - pd_start desc)) :: u32) = base" by blast
  have len: "length ?m = pd_count desc" using ok by (simp add: pa_ok_def)
  have n0: "0 \<le> npages" using n by simp
  note range = page_range_pages [OF base(1) n0]
  have "region_bit ?m i" if "base \<le> i" "i < base + nat npages" for i
  proof -
    have "?s + 4096 * i \<in> page_range a npages" using that by (simp add: range)
    then have "?s + 4096 * i \<notin> pa_avail desc" using r(2) by blast
    then show ?thesis using that base(2) len by (simp add: pa_avail_def page_free_def)
  qed
  then have used: "\<forall>i. base \<le> i \<and> i < base + nat npages \<longrightarrow> region_bit ?m i" by blast
  have le: "base + nat npages \<le> 64 * length ?m" using base(2) len by simp
  from free_loop_ok [OF le used] obtain m' where
    m': "free_loop base (nat npages) ?m = Inr m'" "length m' = length ?m"
      "\<forall>i < 64 * length ?m. region_bit m' i \<longleftrightarrow> region_bit ?m i \<and> \<not> (base \<le> i \<and> i < base + nat npages)" by blast
  have pf: "page_free m' i \<longleftrightarrow> page_free ?m i \<or> base \<le> i \<and> i < base + nat npages" for i
    using m'(2,3) used le by (auto simp: page_free_def)
  have "pa_avail (desc\<lparr>pd_map := m'\<rparr>) = pa_avail desc \<union> page_range a npages"
  proof (rule set_eqI)
    fix b
    show "b \<in> pa_avail (desc\<lparr>pd_map := m'\<rparr>) \<longleftrightarrow> b \<in> pa_avail desc \<union> page_range a npages"
      unfolding Un_iff range using pf by (auto simp: pa_avail_def)
  qed
  moreover have "pa_ok (desc\<lparr>pd_map := m'\<rparr>)" using ok m'(2) by (simp add: pa_ok_def)
  ultimately show ?thesis using m'(1) base(3) by (intro exI [of _ m']) (simp add: ihk_pagealloc_free_def Let_def)
qed

interpretation bmp: phys_allocator bitmap_alloc bitmap_dealloc pa_ok pa_avail pa_managed "2 ^ 31 - 1"
proof
  fix desc npages p2align
  assume ok: "pa_ok desc" and req: "request_ok npages p2align"
  have n: "0 \<le> npages" using req by (simp add: request_ok_def)
  from pagealloc_sound [OF ok req] obtain a m where
    run: "ihk_pagealloc_alloc desc (nat npages) p2align = (a, desc\<lparr>pd_map := m\<rparr>)"
    and res: "a = 0 \<and> m = pd_map desc \<or>
      (\<exists>base. bits_taken (pd_map desc) base (nat npages) m \<and> unat a = unat (pd_start desc) + 4096 * base)" by blast
  have man: "pa_managed (desc\<lparr>pd_map := m\<rparr>) = pa_managed desc" by (simp add: pa_managed_def)
  from res show "\<exists>a desc'. bitmap_alloc desc npages p2align = Some (a, desc') \<and> pa_ok desc' \<and> pa_managed desc' = pa_managed desc \<and>
      (if a = 0 then pa_avail desc' = pa_avail desc
       else page_range a npages \<subseteq> pa_avail desc \<and> pa_avail desc' = pa_avail desc - page_range a npages)"
  proof
    assume "a = 0 \<and> m = pd_map desc"
    with run ok show ?thesis by (simp add: bitmap_alloc_def)
  next
    assume "\<exists>base. bits_taken (pd_map desc) base (nat npages) m \<and> unat a = unat (pd_start desc) + 4096 * base"
    then obtain base where base: "bits_taken (pd_map desc) base (nat npages) m" "unat a = unat (pd_start desc) + 4096 * base" by blast
    have "a \<noteq> 0" using base(2) ok by (auto simp: pa_ok_def)
    with bits_taken_bytes [OF ok base(1) n base(2)] run man show ?thesis by (simp add: bitmap_alloc_def)
  qed
next
  fix desc a npages
  assume "pa_ok desc" "0 < npages" "npages \<le> 2 ^ 31 - 1" "4096 dvd unat a" "page_range a npages \<subseteq> pa_managed desc"
    "page_range a npages \<inter> pa_avail desc = {}"
  with pagealloc_free_sound [of desc npages a] obtain m where "ihk_pagealloc_free desc a (nat npages) = Inr (desc\<lparr>pd_map := m\<rparr>)"
    "pa_ok (desc\<lparr>pd_map := m\<rparr>)" "pa_avail (desc\<lparr>pd_map := m\<rparr>) = pa_avail desc \<union> page_range a npages" by blast
  then show "\<exists>desc'. bitmap_dealloc desc a npages = Some desc' \<and> pa_ok desc' \<and> pa_managed desc' = pa_managed desc \<and>
      pa_avail desc' = pa_avail desc \<union> page_range a npages"
    by (intro exI [of _ "desc\<lparr>pd_map := m\<rparr>"]) (simp add: bitmap_dealloc_def pa_managed_def)
next
  fix desc npages p2align a desc'
  assume ok: "pa_ok desc" and run: "bitmap_alloc desc npages p2align = Some (a, desc')" and req: "request_ok npages p2align"
  from pagealloc_sound [OF ok req] run have "a = 0 \<or> (\<exists>base. unat a = unat (pd_start desc) + 4096 * base)"
    by (auto simp: bitmap_alloc_def)
  then show "4096 dvd unat a" using ok by (auto simp: pa_ok_def)
next
  fix desc
  assume ok: "pa_ok desc"
  have "b < unat (pd_start desc) + 4096 * (64 * pd_count desc)"
    if "unat (pd_start desc) \<le> b" "(b - unat (pd_start desc)) div 4096 < 64 * pd_count desc" for b
    using that by (simp add: div_less_iff_less_mult)
  then show "pa_avail desc \<subseteq> pa_managed desc"
    using ok by (auto simp: pa_avail_def page_free_def pa_ok_def pa_managed_def)
qed

subsection \<open>Counting\<close>

lemma free_bits_of_word_set: "set (free_bits_of_word v) = {j. j < 64 \<and> \<not> bit v j}" "length (free_bits_of_word v) = card {j. j < 64 \<and> \<not> bit v j}"
proof -
  have test: "v AND push_bit j 1 = 0 \<longleftrightarrow> \<not> bit v j" if "j < 64" for j
    using that by (auto simp: word_zero_iff bit_simps)
  show s: "set (free_bits_of_word v) = {j. j < 64 \<and> \<not> bit v j}"
    using test by (auto simp: free_bits_of_word_def)
  have "distinct (free_bits_of_word v)" by (simp add: free_bits_of_word_def)
  then show "length (free_bits_of_word v) = card {j. j < 64 \<and> \<not> bit v j}"
    using distinct_card s by metis
qed

lemma page_free_words:
  "{i. i < 64 * n \<and> \<not> region_bit m i} = (\<Union>w \<in> {..<n}. (\<lambda>j. 64 * w + j) ` {j. j < 64 \<and> \<not> bit (m ! w) j})"
proof (intro equalityI subsetI)
  fix i assume i: "i \<in> {i. i < 64 * n \<and> \<not> region_bit m i}"
  then have "i div 64 < n" "i mod 64 < 64" "\<not> bit (m ! (i div 64)) (i mod 64)" by (auto simp: map_index_less region_bit_def)
  moreover have "i = 64 * (i div 64) + i mod 64" by simp
  ultimately show "i \<in> (\<Union>w \<in> {..<n}. (\<lambda>j. 64 * w + j) ` {j. j < 64 \<and> \<not> bit (m ! w) j})" by blast
next
  fix i assume "i \<in> (\<Union>w \<in> {..<n}. (\<lambda>j. 64 * w + j) ` {j. j < 64 \<and> \<not> bit (m ! w) j})"
  then obtain w j where w: "w < n" "j < 64" "\<not> bit (m ! w) j" "i = 64 * w + j" by auto
  then show "i \<in> {i. i < 64 * n \<and> \<not> region_bit m i}" by (simp add: region_bit_word)
qed

lemma pagealloc_count_card: "ihk_pagealloc_count desc = card {i. i < 64 * pd_count desc \<and> \<not> region_bit (pd_map desc) i}"
proof -
  let ?F = "\<lambda>w. {j. j < 64 \<and> \<not> bit (pd_map desc ! w) j}"
  have "card (\<Union>w \<in> {..<pd_count desc}. (\<lambda>j. 64 * w + j) ` ?F w) = (\<Sum>w \<in> {..<pd_count desc}. card ((\<lambda>j. 64 * w + j) ` ?F w))"
  proof (rule card_UN_disjoint)
    show "\<forall>w \<in> {..<pd_count desc}. \<forall>v \<in> {..<pd_count desc}. w \<noteq> v \<longrightarrow> (\<lambda>j. 64 * w + j) ` ?F w \<inter> (\<lambda>j. 64 * v + j) ` ?F v = {}"
    proof (intro ballI impI)
      fix w v :: nat assume "w \<noteq> v"
      then show "(\<lambda>j. 64 * w + j) ` ?F w \<inter> (\<lambda>j. 64 * v + j) ` ?F v = {}"
        by (auto simp: disjoint_iff)
    qed
  qed auto
  also have "\<dots> = (\<Sum>w \<in> {..<pd_count desc}. length (free_bits_of_word (pd_map desc ! w)))"
    by (rule sum.cong) (auto simp: free_bits_of_word_set(2) card_image inj_on_def)
  finally show ?thesis
    unfolding page_free_words ihk_pagealloc_count_def by (simp add: sum_list_sum_nth atLeast0LessThan)
qed

lemma pagealloc_query_free_count: "ihk_pagealloc_query_free desc = ihk_pagealloc_count desc"
proof -
  have "free_bits_of_word (NOT 0) = []"
    using free_bits_of_word_set(1) [of "NOT 0"] by (auto simp: bit_simps simp del: bit.compl_zero)
  then show ?thesis unfolding ihk_pagealloc_query_free_def ihk_pagealloc_count_def
    by (intro arg_cong [of _ _ sum_list] map_cong) auto
qed

lemma small_loop_none:
  assumes "small_loop desc msk al n rounds mi = (0, desc')" "mi + rounds \<le> pd_count desc" "mi \<le> k" "k < mi + rounds"
    "\<forall>k < pd_count desc. \<forall>j \<le> 64. ADDRESS desc k j \<noteq> 0"
  shows "pd_map desc ! k = NOT 0 \<or> find_slot (pd_map desc ! k) msk al n 0 = None"
  using assms
proof (induction rounds arbitrary: mi)
  case (Suc rounds)
  have mi: "\<not> pd_count desc \<le> mi" using Suc.prems(2) by simp
  have here: "pd_map desc ! mi = NOT 0 \<or> find_slot (pd_map desc ! mi) msk al n 0 = None"
  proof (rule ccontr)
    assume neg: "\<not> ?thesis"
    then obtain j where j: "find_slot (pd_map desc ! mi) msk al n 0 = Some j" by auto
    with neg mi Suc.prems(1) have "ADDRESS desc mi j = 0" by (auto simp: Let_def)
    moreover have "j \<le> 64" using find_slot_Some [OF j] by linarith
    ultimately show False using Suc.prems(5) mi by auto
  qed
  show ?case
  proof (cases "k = mi")
    case True
    with here show ?thesis by simp
  next
    case False
    have "small_loop desc msk al n rounds (mi + 1) = (0, desc')"
      using Suc.prems(1) mi here by (cases "pd_map desc ! mi = NOT 0") (auto simp: Let_def)
    from Suc.IH [OF this] Suc.prems False show ?thesis by simp
  qed
qed simp

subsection \<open>Properties\<close>


text \<open>a small request fails only if no word of the map has an aligned run of free pages of
  the size asked for.\<close>

theorem bitmap_small_complete:
  assumes "pa_ok desc" "0 < npages" "npages < 32" "p2align < 5"
    and "ihk_pagealloc_alloc desc npages p2align = (0, desc')"
    and "k < pd_count desc" "j + npages \<le> 64" "2 ^ p2align dvd j"
  shows "\<exists>i. 64 * k + j \<le> i \<and> i < 64 * k + j + npages \<and> region_bit (pd_map desc) i"
proof (rule ccontr)
  assume none: "\<not> ?thesis"
  let ?msk = "mask npages :: u64" and ?al = "if p2align = 0 then 1 else 2 ^ p2align :: nat"
  have run: "small_loop desc ?msk ?al npages (pd_count desc) 0 = (0, desc')"
    using assms(1,5) assms(3,4) by (simp only: ihk_pagealloc_alloc_def mask_of_count pa_ok_def) simp
  have nonzero: "\<forall>k < pd_count desc. \<forall>j \<le> 64. ADDRESS desc k j \<noteq> 0"
  proof (intro allI impI)
    fix k j assume "k < pd_count desc" "j \<le> (64::nat)"
    then show "ADDRESS desc k j \<noteq> 0" using ADDRESS_unat [OF assms(1), of k j] assms(1) by (auto simp: pa_ok_def)
  qed
  have free: "\<not> bit (pd_map desc ! k) i" if "j \<le> i" "i < j + npages" for i
    using none that region_bit_word [of i "pd_map desc" k] assms(7) by (auto dest!: spec [of _ "64 * k + i"])
  from small_loop_none [OF run _ _ _ nonzero, of k] assms(6)
  consider "pd_map desc ! k = NOT 0" | "find_slot (pd_map desc ! k) ?msk ?al npages 0 = None" by auto
  then show False
  proof cases
    case 1
    with free [of j] assms(2,7) show False by (simp add: bit_not_iff)
  next
    case 2
    have "j mod ?al = 0" using assms(8) by auto
    from find_slot_None [OF 2 _ _ this] assms(7) have "pd_map desc ! k AND push_bit j ?msk \<noteq> 0" by simp
    with and_shifted_mask_zero [OF assms(7), of "pd_map desc ! k"] free show False by blast
  qed
qed

text \<open>freeing a range of which some page is already free panics.\<close>

theorem bitmap_double_free_panics:
  assumes "pa_ok desc" "0 < npages" "4096 dvd unat a" "page_range a npages \<subseteq> pa_managed desc"
    and "page_range a npages \<inter> pa_avail desc \<noteq> {}"
  shows "ihk_pagealloc_free desc a (nat npages) = Inl PA_Panic"
proof -
  let ?s = "unat (pd_start desc)"
  from free_index [OF assms(1,3,4,2)] obtain base where
    base: "unat a = ?s + 4096 * base" "base + nat npages \<le> 64 * pd_count desc"
      "unat (ucast (drop_bit (pd_shift desc) (a - pd_start desc)) :: u32) = base" by blast
  from assms(5) obtain b where b: "b \<in> page_range a npages" "b \<in> pa_avail desc" by blast
  have n0: "0 \<le> npages" using assms(2) by simp
  let ?i = "(b - ?s) div 4096"
  have "base \<le> ?i" "?i < base + nat npages" "\<not> region_bit (pd_map desc) ?i"
    using b page_range_pages [OF base(1) n0] by (auto simp: pa_avail_def page_free_def)
  with free_loop_panic [of base "nat npages" "pd_map desc" ?i] base assms(1) show ?thesis
    by (simp add: ihk_pagealloc_free_def pa_ok_def)
qed

lemma pa_avail_pages:
  assumes "pa_ok desc" "\<And>i. i < 64 * pd_count desc \<Longrightarrow> region_bit (pd_map desc) i \<longleftrightarrow> \<not> (lo \<le> i \<and> i < hi)" "hi \<le> 64 * pd_count desc"
  shows "pa_avail desc = {unat (pd_start desc) + 4096 * lo ..< unat (pd_start desc) + 4096 * hi}"
proof (rule set_eqI)
  fix b
  let ?s = "unat (pd_start desc)"
  have "page_free (pd_map desc) ((b - ?s) div 4096) \<longleftrightarrow> lo \<le> (b - ?s) div 4096 \<and> (b - ?s) div 4096 < hi"
    using assms by (auto simp: page_free_def pa_ok_def)
  moreover have "lo \<le> (b - ?s) div 4096 \<longleftrightarrow> 4096 * lo \<le> b - ?s" "(b - ?s) div 4096 < hi \<longleftrightarrow> b - ?s < 4096 * hi"
    by (simp_all add: less_eq_div_iff_mult_less_eq div_less_iff_less_mult mult.commute)
  ultimately show "b \<in> pa_avail desc \<longleftrightarrow> b \<in> {?s + 4096 * lo ..< ?s + 4096 * hi}"
    by (cases "?s \<le> b") (auto simp: pa_avail_def)
qed

text \<open>\<open>ihk_pagealloc_init\<close> for a region in units of one page gives a well-formed descriptor whose
  free memory is exactly the whole pages of the region, the padding of the map excluded, and
  both counting routines return the number of these pages.\<close>

theorem bitmap_init_correct:
  assumes "4096 dvd unat start" "0 < unat start" "unat start + unat sz + 4096 * 64 \<le> 2 ^ 52" "unat sz < 2 ^ 42"
  shows "\<exists>desc. ihk_pagealloc_init True sizeof_desc start sz PAGE_SIZE = Some desc \<and> pa_ok desc \<and>
           pa_avail desc = {unat start ..< unat start + 4096 * (unat sz div 4096)} \<and>
           ihk_pagealloc_count desc = unat sz div 4096 \<and> ihk_pagealloc_query_free desc = unat sz div 4096"
proof -
  let ?n = "unat sz div 4096" and ?w = "(unat sz div 4096 + 63) div 64"
  have shift: "fls (ucast PAGE_SIZE) - 1 = 12" unfolding PAGE_SIZE_def by code_simp
  have mapsize: "unat (drop_bit 12 sz) = ?n"
    using unsigned_drop_bit_eq [of 12 sz, where ?'a=nat] unsigned_less [of sz, where ?'a=nat]
    by (simp add: take_bit_eq_mod drop_bit_eq_div)
  have w: "?n \<le> 64 * ?w" "64 * ?w < ?n + 64" using div_mult_mod_eq [of "?n + 63" 64] by linarith+
  have empty: "\<not> region_bit (replicate ?w 0) i" if "i < 64 * ?w" for i using that by (simp add: region_bit_def map_index_less)
  have "?n + (64 * ?w - ?n) \<le> 64 * length (replicate ?w (0::u64))" using w by simp
  from set_bits_ok [OF this] obtain m where
    m: "set_bits ?n (64 * ?w - ?n) (replicate ?w 0) = Some m" "length m = ?w"
      "\<forall>k < 64 * ?w. region_bit m k \<longleftrightarrow> region_bit (replicate ?w 0) k \<or> ?n \<le> k \<and> k < ?n + (64 * ?w - ?n)" by auto
  have bits: "region_bit m k \<longleftrightarrow> \<not> (0 \<le> k \<and> k < ?n)" if "k < 64 * ?w" for k using m(3) empty that by auto
  define desc where "desc = \<lparr>pd_start = start, pd_end = start + sz, pd_last = 0, pd_count = ?w,
     pd_flag = (sizeof_desc + ?w * 8 + 4095) div 4096, pd_shift = 12, pd_map = m\<rparr>"
  have "(PAGE_SIZE :: u64) \<noteq> 0" by (simp add: PAGE_SIZE_def)
  moreover have "?w * 8 * 8 - ?n = 64 * ?w - ?n" "?w * 8 div 8 = ?w" by simp_all
  ultimately have run: "ihk_pagealloc_init True sizeof_desc start sz PAGE_SIZE = Some desc"
    using m(1) unfolding ihk_pagealloc_init_def Let_def shift mapsize by (simp add: desc_def mult.commute)
  have "unat sz = 4096 * ?n + unat sz mod 4096" by simp
  then have "4096 * (64 * ?w) \<le> unat sz + 4096 * 64" using w(2) by linarith
  moreover have "?n < 2 ^ 30" using assms(4) by (simp add: div_less_iff_less_mult)
  then have "64 * ?w < 2 ^ 31" using w(2) by simp
  ultimately have ok: "pa_ok desc" using assms m(2) by (simp add: pa_ok_def desc_def)
  have avail: "pa_avail desc = {unat start ..< unat start + 4096 * ?n}"
    using pa_avail_pages [OF ok, of 0 ?n] bits w(1) by (simp add: desc_def)
  have "{i. i < 64 * pd_count desc \<and> \<not> region_bit (pd_map desc) i} = {..<?n}" using bits w(1) by (auto simp: desc_def)
  then have "ihk_pagealloc_count desc = ?n" by (simp add: pagealloc_count_card)
  with run ok avail show ?thesis by (simp add: pagealloc_query_free_count)
qed

text \<open>reserving an address range inside the region takes exactly the pages it touches out of
  the free memory, whether whole words or single bits are set.\<close>

theorem bitmap_reserve_correct:
  assumes ok: "pa_ok desc" and r: "unat (pd_start desc) \<le> unat start" "unat start \<le> unat e"
    "unat e \<le> unat (pd_start desc) + 4096 * (64 * pd_count desc)"
  shows "\<exists>desc'. ihk_pagealloc_reserve desc start e = Inr desc' \<and> pa_ok desc' \<and>
     pa_avail desc' = pa_avail desc -
       {unat (pd_start desc) + 4096 * ((unat start - unat (pd_start desc)) div 4096) ..<
        unat (pd_start desc) + 4096 * ((unat e - unat (pd_start desc) + 4095) div 4096)}"
proof -
  let ?s = "unat (pd_start desc)" and ?m = "pd_map desc"
  let ?i = "(unat start - ?s) div 4096" and ?n = "(unat e - ?s + 4095) div 4096"
  have lim: "?s + 4096 * (64 * pd_count desc) \<le> 2 ^ 52" "64 * pd_count desc < 2 ^ 31" "pd_shift desc = 12" "length ?m = pd_count desc"
    using ok by (simp_all add: pa_ok_def)
  have shr: "unat (drop_bit 12 (w :: u64)) = unat w div 4096" for w
    using unsigned_drop_bit_eq [of 12 w, where ?'a=nat] unsigned_less [of w, where ?'a=nat]
    by (simp add: take_bit_eq_mod drop_bit_eq_div)
  have e1: "unat (e + 0x1000) = unat e + 4096" using r(3) lim(1) by (subst u64_add) auto
  then have e2: "unat (e + 0x1000 - 1) = unat e + 4095" by (subst u64_sub) (auto simp: word_nat)
  then have e3: "unat (e + 0x1000 - 1 - pd_start desc) = unat e - ?s + 4095" using r by (subst u64_sub) (auto simp: word_nat)
  have n: "?n \<le> 64 * pd_count desc" using r(3) by linarith
  have i: "?i \<le> 64 * pd_count desc" using r by linarith
  have ti: "to_int (drop_bit 12 (start - pd_start desc)) = int ?i"
    using i lim(2) r(1) by (subst to_int_small) (simp_all add: shr u64_sub word_nat)
  have tn: "to_int (drop_bit 12 (e + push_bit 12 1 - 1 - pd_start desc)) = int ?n"
    using n lim(2) e3 by (subst to_int_small) (simp_all add: shr push_bit_eq_mult)
  from reserve_loop_ok [of ?n ?m ?i] n lim(4) obtain m' where
    m': "reserve_loop ?i ?n ?m = Inr m'" "length m' = length ?m"
      "\<forall>k < 64 * length ?m. region_bit m' k \<longleftrightarrow> region_bit ?m k \<or> ?i \<le> k \<and> k < ?n" by auto
  let ?d = "desc\<lparr>pd_map := m'\<rparr>"
  have run: "ihk_pagealloc_reserve desc start e = Inr ?d"
    using m'(1) by (simp add: ihk_pagealloc_reserve_def Let_def lim(3) ti tn del: of_nat_div push_bit_of_1)
  have ok': "pa_ok ?d" using ok m'(2) by (simp add: pa_ok_def)
  have "b \<in> pa_avail ?d \<longleftrightarrow> b \<in> pa_avail desc \<and> b \<notin> {?s + 4096 * ?i ..< ?s + 4096 * ?n}" for b
  proof -
    obtain k i n where k: "k = (b - ?s) div 4096" and i: "i = ?i" and n: "n = ?n" by blast
    have "i \<le> k \<longleftrightarrow> 4096 * i \<le> b - ?s" "k < n \<longleftrightarrow> b - ?s < 4096 * n"
      unfolding k by (simp_all only: less_eq_div_iff_mult_less_eq div_less_iff_less_mult mult.commute)
    then have "?s \<le> b \<Longrightarrow> b \<in> {?s + 4096 * i ..< ?s + 4096 * n} \<longleftrightarrow> i \<le> k \<and> k < n" by auto
    moreover have "page_free m' k \<longleftrightarrow> page_free ?m k \<and> \<not> (i \<le> k \<and> k < n)"
      using m'(2,3) unfolding i n page_free_def by auto
    ultimately show ?thesis unfolding i [symmetric] n [symmetric] by (auto simp: pa_avail_def k [symmetric])
  qed
  then have "pa_avail ?d = pa_avail desc - {?s + 4096 * ?i ..< ?s + 4096 * ?n}" by blast
  with run ok' show ?thesis by blast
qed

subsection \<open>Witnesses\<close>

text \<open>128 pages at 1 MiB, of which the first eight and the last 64 are in use.\<close>

definition example_desc :: pa_desc where
  "example_desc = \<lparr>pd_start = 0x100000, pd_end = 0x180000, pd_last = 0, pd_count = 2, pd_flag = 1, pd_shift = 12,
     pd_map = [0xFF, NOT 0]\<rparr>"

lemma example_desc_ok: "pa_ok example_desc"
  by (simp add: pa_ok_def example_desc_def)

lemma example_desc_avail: "pa_avail example_desc = {0x108000 ..< 0x140000}"
proof -
  have "region_bit (pd_map example_desc) i \<longleftrightarrow> \<not> (8 \<le> i \<and> i < 64)" if "i < 64 * pd_count example_desc" for i
  proof (cases "i < 64")
    case True
    have "bit (0xFF :: u64) i \<longleftrightarrow> i < 8" using True bit_mask_iff [of 8 i, where ?'a = u64] by (simp add: mask_eq_exp_minus_1)
    with True show ?thesis by (auto simp: region_bit_def example_desc_def)
  next
    case False
    with that have "i div 64 = 1" by (auto simp: example_desc_def intro!: div_nat_eqI)
    with False show ?thesis by (simp add: region_bit_def example_desc_def bit_minus_1_iff)
  qed
  from pa_avail_pages [OF example_desc_ok this] show ?thesis by (simp add: example_desc_def)
qed


theorem bitmap_small_complete_witness:
  "ihk_pagealloc_alloc (example_desc\<lparr>pd_map := [NOT 0xFF, NOT 0]\<rparr>) 9 0 = (0, example_desc\<lparr>pd_map := [NOT 0xFF, NOT 0]\<rparr>) \<and>
   (\<exists>i. 3 \<le> i \<and> i < 12 \<and> region_bit [NOT 0xFF, NOT 0] i)"
proof -
  let ?d = "example_desc\<lparr>pd_map := [NOT 0xFF, NOT 0]\<rparr>"
  have ok: "pa_ok ?d" by (simp add: pa_ok_def example_desc_def)
  have run: "ihk_pagealloc_alloc ?d 9 0 = (0, ?d)" unfolding example_desc_def by code_simp
  from bitmap_small_complete [OF ok _ _ _ run, of 0 3] run show ?thesis
    by (simp add: example_desc_def)
qed

theorem bitmap_double_free_panics_witness: "ihk_pagealloc_free example_desc 0x107000 2 = Inl PA_Panic"
proof -
  have "(0x108000 :: nat) \<in> page_range 0x107000 2 \<inter> pa_avail example_desc" by (simp add: page_range_def example_desc_avail)
  then have "page_range 0x107000 2 \<inter> pa_avail example_desc \<noteq> {}" by blast
  moreover have "page_range 0x107000 2 \<subseteq> pa_managed example_desc" by (auto simp: page_range_def pa_managed_def example_desc_def)
  ultimately show ?thesis using bitmap_double_free_panics [OF example_desc_ok, of 2 "0x107000"] by simp
qed

theorem bitmap_init_correct_witness:
  "\<exists>desc. ihk_pagealloc_init True 64 0x100000 0x23000 PAGE_SIZE = Some desc \<and> pa_avail desc = {0x100000 ..< 0x123000} \<and>
     ihk_pagealloc_query_free desc = 35"
  using bitmap_init_correct [of "0x100000" "0x23000" 64] by auto

theorem bitmap_reserve_correct_witness:
  "\<exists>desc'. ihk_pagealloc_reserve example_desc 0x10A000 0x10B800 = Inr desc' \<and>
     pa_avail desc' = {0x108000 ..< 0x140000} - {0x10A000 ..< 0x10C000}"
  using bitmap_reserve_correct [OF example_desc_ok, of "0x10A000" "0x10B800"]
  by (simp add: example_desc_avail) (auto simp: example_desc_def)

end
