(* ===== verification/RBTree.thy ===== *)
theory RBTree
  imports Prelude
begin

section \<open>The red-black trees of kernel/rbtree.c\<close>

text \<open>
  A \<open>struct rb_node\<close> carries its colour, two children and (packed with the colour) its parent.
  The model keeps the shape: a tree node has a colour, a left child, the element the node is
  embedded in (\<open>rb_entry\<close>), and a right child.  A pointer to a node inside a tree is a
  \<^emph>\<open>locus\<close>: the subtree rooted at the node together with the frames that lead back to the
  root, the innermost parent first, which is what following \<open>rb_parent\<close> yields.  Every
  pointer operation of the source then is an operation on loci: \<open>__rb_insert\<close> and
  \<open>____rb_erase_color\<close> walk the frames upwards, \<open>rb_next\<close> and \<open>rb_prev\<close> move the locus.
  Reading through a null pointer is the result \<open>None\<close>.
\<close>

subsection \<open>Trees, frames and loci\<close>

datatype rb_color = RB_RED | RB_BLACK

datatype 'a rbt =
    RB_Null
  | RB_Node rb_color "'a rbt" 'a "'a rbt"

datatype 'a rb_frame =
    InLeft rb_color 'a "'a rbt"
  | InRight rb_color "'a rbt" 'a

type_synonym 'a rb_path = "'a rb_frame list"
type_synonym 'a rb_locus = "'a rbt \<times> 'a rb_path"

fun rb_plug :: "'a rbt \<Rightarrow> 'a rb_frame \<Rightarrow> 'a rbt" where
  "rb_plug t (InLeft c x r) = RB_Node c t x r"
| "rb_plug t (InRight c l x) = RB_Node c l x t"

fun rb_zip :: "'a rbt \<Rightarrow> 'a rb_path \<Rightarrow> 'a rbt" where
  "rb_zip t [] = t"
| "rb_zip t (f # fs) = rb_zip (rb_plug t f) fs"

fun rb_inorder :: "'a rbt \<Rightarrow> 'a list" where
  "rb_inorder RB_Null = []"
| "rb_inorder (RB_Node c l x r) = rb_inorder l @ x # rb_inorder r"

fun rb_is_red :: "'a rbt \<Rightarrow> bool" where
  "rb_is_red RB_Null = False"
| "rb_is_red (RB_Node c l x r) = (c = RB_RED)"

text \<open>\<open>rb_set_parent_color(rb, p, RB_BLACK)\<close> and \<open>rb_set_black\<close> under the source's null
  check: the parent part is the locus, only the colour is written.\<close>

fun rb_set_black :: "'a rbt \<Rightarrow> 'a rbt" where
  "rb_set_black RB_Null = RB_Null"
| "rb_set_black (RB_Node c l x r) = RB_Node RB_BLACK l x r"

subsection \<open>Insertion\<close>

text \<open>
  \<open>__rb_insert\<close>.  The loop state is the node (the subtree at the locus) and its frames.  The
  node is the left child of \<open>parent\<close> when the first frame is \<open>InLeft\<close>; \<open>parent\<close> is
  \<open>gparent->rb_left\<close> when the second is.  A red parent without a grandparent would make the
  source read \<open>gparent->rb_right\<close> through a null pointer.
\<close>

fun rb_insert_loop :: "'a rbt \<Rightarrow> 'a rb_path \<Rightarrow> 'a rbt option" where
  "rb_insert_loop node [] = Some (rb_set_black node)"
| "rb_insert_loop node (InLeft RB_BLACK p pr # up) = Some (rb_zip node (InLeft RB_BLACK p pr # up))"
| "rb_insert_loop node (InRight RB_BLACK pl p # up) = Some (rb_zip node (InRight RB_BLACK pl p # up))"
| "rb_insert_loop node [InLeft RB_RED p pr] = None"
| "rb_insert_loop node [InRight RB_RED pl p] = None"
| "rb_insert_loop node (InLeft RB_RED p pr # InLeft gc g u # up) =
     (if rb_is_red u
      then \<comment> \<open>Case 1: colour flips, continue at the grandparent\<close>
        rb_insert_loop (RB_Node RB_RED (RB_Node RB_BLACK node p pr) g (rb_set_black u)) up
      else \<comment> \<open>Case 3: right rotate at the grandparent\<close>
        Some (rb_zip (RB_Node gc node p (RB_Node RB_RED (rb_set_black pr) g u)) up))"
| "rb_insert_loop node (InRight RB_RED pl p # InLeft gc g u # up) =
     (if rb_is_red u
      then rb_insert_loop (RB_Node RB_RED (RB_Node RB_BLACK pl p node) g (rb_set_black u)) up
      else \<comment> \<open>Case 2: left rotate at the parent, then case 3\<close>
        (case node of
           RB_Null \<Rightarrow> None
         | RB_Node nc nl n nr \<Rightarrow>
             Some (rb_zip (RB_Node gc (RB_Node RB_RED pl p (rb_set_black nl)) n
                                      (RB_Node RB_RED (rb_set_black nr) g u)) up)))"
| "rb_insert_loop node (InRight RB_RED pl p # InRight gc u g # up) =
     (if rb_is_red u
      then rb_insert_loop (RB_Node RB_RED (rb_set_black u) g (RB_Node RB_BLACK pl p node)) up
      else Some (rb_zip (RB_Node gc (RB_Node RB_RED u g (rb_set_black pl)) p node) up))"
| "rb_insert_loop node (InLeft RB_RED p pr # InRight gc u g # up) =
     (if rb_is_red u
      then rb_insert_loop (RB_Node RB_RED (rb_set_black u) g (RB_Node RB_BLACK node p pr)) up
      else
        (case node of
           RB_Null \<Rightarrow> None
         | RB_Node nc nl n nr \<Rightarrow>
             Some (rb_zip (RB_Node gc (RB_Node RB_RED u g (rb_set_black nl)) n
                                      (RB_Node RB_RED (rb_set_black nr) p pr)) up)))"

text \<open>\<open>rb_link_node\<close> puts a fresh node (red: parent pointer with colour bit clear, no
  children) at an empty link; \<open>rb_insert_color\<close> then rebalances.  Every client calls them in
  sequence, on the link its own descent ended at.\<close>

definition rb_link_node :: "'a \<Rightarrow> 'a rbt" where
  "rb_link_node x = RB_Node RB_RED RB_Null x RB_Null"

definition rb_insert_color :: "'a rb_locus \<Rightarrow> 'a rbt option" where
  "rb_insert_color = (\<lambda>(node, path). rb_insert_loop node path)"

definition rb_insert_at :: "'a \<Rightarrow> 'a rb_path \<Rightarrow> 'a rbt option" where
  "rb_insert_at x path = rb_insert_color (rb_link_node x, path)"


subsection \<open>Erasure\<close>

text \<open>
  One iteration of \<open>____rb_erase_color\<close> ends in one of two ways: the subtree at \<open>parent\<close> is
  final (\<open>break\<close>), or the loop continues with \<open>node = parent\<close>.
\<close>

datatype 'a rb_erase_step = EraseDone "'a rbt" | EraseUp "'a rbt"

text \<open>Cases 2, 3 and 4 where the node is \<open>parent->rb_left\<close>: \<open>pc\<close> and \<open>p\<close> are the parent's
  colour and element, the last argument is the sibling.\<close>

fun rb_erase_tail_left :: "'a rbt \<Rightarrow> rb_color \<Rightarrow> 'a \<Rightarrow> 'a rbt \<Rightarrow> 'a rb_erase_step option" where
  "rb_erase_tail_left node pc p RB_Null = None"
| "rb_erase_tail_left node pc p (RB_Node sc sl s sr) =
     (if \<not> rb_is_red sr then
        (case sl of
           RB_Node RB_RED sll sle slr \<Rightarrow>
             \<comment> \<open>Case 3: right rotate at sibling; then case 4\<close>
             Some (EraseDone (RB_Node pc (RB_Node RB_BLACK node p sll) sle
                     (RB_Node RB_BLACK (rb_set_black slr) s sr)))
         | _ \<Rightarrow>
             \<comment> \<open>Case 2: sibling colour flip\<close>
             (if pc = RB_RED
              then Some (EraseDone (RB_Node RB_BLACK node p (RB_Node RB_RED sl s sr)))
              else Some (EraseUp (RB_Node pc node p (RB_Node RB_RED sl s sr)))))
      else \<comment> \<open>Case 4: left rotate at parent and colour flips\<close>
        Some (EraseDone (RB_Node pc (RB_Node RB_BLACK node p sl) s (rb_set_black sr))))"

fun rb_erase_tail_right :: "'a rbt \<Rightarrow> rb_color \<Rightarrow> 'a \<Rightarrow> 'a rbt \<Rightarrow> 'a rb_erase_step option" where
  "rb_erase_tail_right node pc p RB_Null = None"
| "rb_erase_tail_right node pc p (RB_Node sc sl s sr) =
     (if \<not> rb_is_red sl then
        (case sr of
           RB_Node RB_RED srl sre srr \<Rightarrow>
             Some (EraseDone (RB_Node pc (RB_Node RB_BLACK sl s (rb_set_black srl)) sre
                     (RB_Node RB_BLACK srr p node)))
         | _ \<Rightarrow>
             (if pc = RB_RED
              then Some (EraseDone (RB_Node RB_BLACK (RB_Node RB_RED sl s sr) p node))
              else Some (EraseUp (RB_Node pc (RB_Node RB_RED sl s sr) p node))))
      else
        Some (EraseDone (RB_Node pc (rb_set_black sl) s (RB_Node RB_BLACK sr p node))))"

lemma rb_erase_tail_left_red: "rb_erase_tail_left node RB_RED p s \<noteq> Some (EraseUp t)"
  by (cases s) (simp_all split: rbt.split rb_color.split if_split)

lemma rb_erase_tail_right_red: "rb_erase_tail_right node RB_RED p s \<noteq> Some (EraseUp t)"
  by (cases s) (simp_all split: rbt.split rb_color.split if_split)

declare rb_erase_tail_left.simps [simp del] rb_erase_tail_right.simps [simp del]

text \<open>
  One whole iteration.  A red sibling is rotated away first (case 1), which leaves one more
  frame above: the old parent, now red, hangs below the old sibling, which takes the parent's
  colour.  Case 1 writes the colour of the sibling's near child without a null check, hence
  the \<open>None\<close> there.
\<close>

fun rb_erase_iter_left :: "'a rbt \<Rightarrow> rb_color \<Rightarrow> 'a \<Rightarrow> 'a rbt \<Rightarrow> ('a rb_erase_step \<times> 'a rb_path) option" where
  "rb_erase_iter_left node pc p (RB_Node RB_RED sl s sr) =
     (if sl = RB_Null then None
      else map_option (\<lambda>st. (st, [InLeft pc s sr])) (rb_erase_tail_left node RB_RED p (rb_set_black sl)))"
| "rb_erase_iter_left node pc p sibling =
     map_option (\<lambda>st. (st, [])) (rb_erase_tail_left node pc p sibling)"

fun rb_erase_iter_right :: "'a rbt \<Rightarrow> rb_color \<Rightarrow> 'a \<Rightarrow> 'a rbt \<Rightarrow> ('a rb_erase_step \<times> 'a rb_path) option" where
  "rb_erase_iter_right node pc p (RB_Node RB_RED sl s sr) =
     (if sr = RB_Null then None
      else map_option (\<lambda>st. (st, [InRight pc sl s])) (rb_erase_tail_right node RB_RED p (rb_set_black sr)))"
| "rb_erase_iter_right node pc p sibling =
     map_option (\<lambda>st. (st, [])) (rb_erase_tail_right node pc p sibling)"

lemma rb_erase_iter_left_up: "rb_erase_iter_left node pc p s = Some (EraseUp t, fs) \<Longrightarrow> fs = []"
  by (induction node pc p s rule: rb_erase_iter_left.induct)
     (auto simp: rb_erase_tail_left_red split: if_splits)

lemma rb_erase_iter_right_up: "rb_erase_iter_right node pc p s = Some (EraseUp t, fs) \<Longrightarrow> fs = []"
  by (induction node pc p s rule: rb_erase_iter_right.induct)
     (auto simp: rb_erase_tail_right_red split: if_splits)

text \<open>\<open>____rb_erase_color\<close>: the node is the subtree at the locus (null on the first
  iteration).\<close>

function rb_erase_color :: "'a rbt \<Rightarrow> 'a rb_path \<Rightarrow> 'a rbt option" where
  "rb_erase_color node [] = Some node"
| "rb_erase_color node (InLeft pc p sibling # up) =
     (case rb_erase_iter_left node pc p sibling of
        None \<Rightarrow> None
      | Some (EraseDone t, fs) \<Rightarrow> Some (rb_zip t (fs @ up))
      | Some (EraseUp t, fs) \<Rightarrow> rb_erase_color t (fs @ up))"
| "rb_erase_color node (InRight pc sibling p # up) =
     (case rb_erase_iter_right node pc p sibling of
        None \<Rightarrow> None
      | Some (EraseDone t, fs) \<Rightarrow> Some (rb_zip t (fs @ up))
      | Some (EraseUp t, fs) \<Rightarrow> rb_erase_color t (fs @ up))"
  by pat_completeness auto
termination
  by (relation "measure (\<lambda>(node, path). length path)")
     (auto dest: rb_erase_iter_left_up rb_erase_iter_right_up)

text \<open>The loop \<open>do { parent = successor; successor = tmp; tmp = tmp->rb_left; } while (tmp)\<close>
  and the leftmost descent of \<open>rb_first\<close> and \<open>rb_next\<close>: the frames passed are pushed.\<close>

fun rb_leftmost :: "'a rbt \<Rightarrow> 'a rb_path \<Rightarrow> 'a rb_locus" where
  "rb_leftmost (RB_Node c (RB_Node lc ll lx lr) x r) path =
     rb_leftmost (RB_Node lc ll lx lr) (InLeft c x r # path)"
| "rb_leftmost t path = (t, path)"

fun rb_rightmost :: "'a rbt \<Rightarrow> 'a rb_path \<Rightarrow> 'a rb_locus" where
  "rb_rightmost (RB_Node c l x (RB_Node rc rl rx rr)) path =
     rb_rightmost (RB_Node rc rl rx rr) (InRight c l x # path)"
| "rb_rightmost t path = (t, path)"

text \<open>\<open>__rb_erase_augmented\<close> with the dummy callbacks: the tree after the unlinking, as a
  locus at the child that took the place of the unlinked node, and whether \<open>rebalance\<close> is
  non-null (it then is the parent of that place).\<close>

fun rb_erase_augmented :: "'a rb_locus \<Rightarrow> ('a rb_locus \<times> bool) option" where
  "rb_erase_augmented (RB_Null, path) = None"
| "rb_erase_augmented (RB_Node c RB_Null x RB_Null, path) =
     Some ((RB_Null, path), c = RB_BLACK \<and> path \<noteq> [])"
| "rb_erase_augmented (RB_Node c RB_Null x (RB_Node rc rl rx rr), path) =
     Some ((RB_Node c rl rx rr, path), False)"
| "rb_erase_augmented (RB_Node c (RB_Node lc ll lx lr) x RB_Null, path) =
     Some ((RB_Node c ll lx lr, path), False)"
| "rb_erase_augmented (RB_Node c l x child, path) =
     (case rb_leftmost child [] of
        (RB_Node sc sl s child2, fs) \<Rightarrow>
          let path2 = fs @ InRight c l s # path in
          (case child2 of
             RB_Null \<Rightarrow> Some ((RB_Null, path2), sc = RB_BLACK)
           | RB_Node _ _ _ _ \<Rightarrow> Some ((rb_set_black child2, path2), False))
      | (RB_Null, fs) \<Rightarrow> None)"

definition rb_erase :: "'a rb_locus \<Rightarrow> 'a rbt option" where
  "rb_erase node =
     (case rb_erase_augmented node of
        None \<Rightarrow> None
      | Some ((t, path), rebalance) \<Rightarrow>
          if rebalance then rb_erase_color t path else Some (rb_zip t path))"

subsection \<open>Navigation\<close>

definition rb_first :: "'a rbt \<Rightarrow> 'a rb_locus option" where
  "rb_first root = (case root of RB_Null \<Rightarrow> None | _ \<Rightarrow> Some (rb_leftmost root []))"

definition rb_last :: "'a rbt \<Rightarrow> 'a rb_locus option" where
  "rb_last root = (case root of RB_Null \<Rightarrow> None | _ \<Rightarrow> Some (rb_rightmost root []))"

text \<open>\<open>while ((parent = rb_parent(node)) && node == parent->rb_right) node = parent;\<close>\<close>

fun rb_up_from_right :: "'a rbt \<Rightarrow> 'a rb_path \<Rightarrow> 'a rb_locus option" where
  "rb_up_from_right t [] = None"
| "rb_up_from_right t (InLeft c x r # up) = Some (RB_Node c t x r, up)"
| "rb_up_from_right t (InRight c l x # up) = rb_up_from_right (RB_Node c l x t) up"

fun rb_up_from_left :: "'a rbt \<Rightarrow> 'a rb_path \<Rightarrow> 'a rb_locus option" where
  "rb_up_from_left t [] = None"
| "rb_up_from_left t (InRight c l x # up) = Some (RB_Node c l x t, up)"
| "rb_up_from_left t (InLeft c x r # up) = rb_up_from_left (RB_Node c t x r) up"

fun rb_next :: "'a rb_locus \<Rightarrow> 'a rb_locus option" where
  "rb_next (RB_Null, path) = None"
| "rb_next (RB_Node c l x r, path) =
     (case r of
        RB_Null \<Rightarrow> rb_up_from_right (RB_Node c l x r) path
      | RB_Node _ _ _ _ \<Rightarrow> Some (rb_leftmost r (InRight c l x # path)))"

fun rb_prev :: "'a rb_locus \<Rightarrow> 'a rb_locus option" where
  "rb_prev (RB_Null, path) = None"
| "rb_prev (RB_Node c l x r, path) =
     (case l of
        RB_Null \<Rightarrow> rb_up_from_left (RB_Node c l x r) path
      | RB_Node _ _ _ _ \<Rightarrow> Some (rb_rightmost l (InLeft c x r # path)))"

text \<open>\<open>rb_replace_node(victim, new, root)\<close>: the new node takes the victim's place, children
  and colour.  An update of the element a node is embedded in is the same operation on the
  tree.\<close>

fun rb_replace_node :: "'a rb_locus \<Rightarrow> 'a \<Rightarrow> 'a rb_locus" where
  "rb_replace_node (RB_Null, path) y = (RB_Null, path)"
| "rb_replace_node (RB_Node c l x r, path) y = (RB_Node c l y r, path)"

text \<open>\<open>rb_entry\<close>, the root a locus belongs to.\<close>

fun rb_entry :: "'a rb_locus \<Rightarrow> 'a option" where
  "rb_entry (RB_Null, path) = None"
| "rb_entry (RB_Node c l x r, path) = Some x"

definition rb_root_of :: "'a rb_locus \<Rightarrow> 'a rbt" where
  "rb_root_of node = rb_zip (fst node) (snd node)"

text \<open>A pointer to the node that embeds an element: the locus of the first node, in order,
  whose element satisfies the test.  With distinct elements it is the node of that element.\<close>

fun rb_locate :: "('a \<Rightarrow> bool) \<Rightarrow> 'a rbt \<Rightarrow> 'a rb_path \<Rightarrow> 'a rb_locus option" where
  "rb_locate P RB_Null path = None"
| "rb_locate P (RB_Node c l x r) path =
     (case rb_locate P l (InLeft c x r # path) of
        Some n \<Rightarrow> Some n
      | None \<Rightarrow> if P x then Some (RB_Node c l x r, path)
                else rb_locate P r (InRight c l x # path))"

text \<open>The variants used while the memory of another kernel instance is inspected check the
  physical address of every node they step on (\<open>ihk_mc_chk_page_address\<close>); the check is a
  parameter.  As in the source, the climb of \<open>rb_next_safe\<close> is unchecked.\<close>

fun rb_leftmost_safe :: "('a \<Rightarrow> bool) \<Rightarrow> 'a rbt \<Rightarrow> 'a rb_path \<Rightarrow> 'a rb_locus option" where
  "rb_leftmost_safe chk RB_Null path = None"
| "rb_leftmost_safe chk (RB_Node c l x r) path =
     (if \<not> chk x then None
      else case l of
             RB_Null \<Rightarrow> Some (RB_Node c l x r, path)
           | RB_Node _ _ _ _ \<Rightarrow> rb_leftmost_safe chk l (InLeft c x r # path))"

definition rb_first_safe :: "('a \<Rightarrow> bool) \<Rightarrow> 'a rbt \<Rightarrow> 'a rb_locus option" where
  "rb_first_safe chk root = rb_leftmost_safe chk root []"

fun rb_next_safe :: "('a \<Rightarrow> bool) \<Rightarrow> 'a rb_locus \<Rightarrow> 'a rb_locus option" where
  "rb_next_safe chk (RB_Null, path) = None"
| "rb_next_safe chk (RB_Node c l x r, path) =
     (case r of
        RB_Null \<Rightarrow> rb_up_from_right (RB_Node c l x r) path
      | RB_Node _ _ _ _ \<Rightarrow> rb_leftmost_safe chk r (InRight c l x # path))"

text \<open>\<open>__rb_preorder_dfs\<close> and \<open>rb_preorder_dfs_search\<close>.\<close>

fun rb_preorder_dfs :: "('a \<Rightarrow> bool) \<Rightarrow> 'a rbt \<Rightarrow> 'a rb_path \<Rightarrow> 'a rb_locus option" where
  "rb_preorder_dfs cond RB_Null path = None"
| "rb_preorder_dfs cond (RB_Node c l x r) path =
     (if cond x then Some (RB_Node c l x r, path)
      else case rb_preorder_dfs cond l (InLeft c x r # path) of
             Some n \<Rightarrow> Some n
           | None \<Rightarrow> rb_preorder_dfs cond r (InRight c l x # path))"

definition rb_preorder_dfs_search :: "('a \<Rightarrow> bool) \<Rightarrow> 'a rbt \<Rightarrow> 'a rb_locus option" where
  "rb_preorder_dfs_search cond root = rb_preorder_dfs cond root []"

text \<open>Post-order traversal.\<close>

fun rb_left_deepest_node :: "'a rbt \<Rightarrow> 'a rb_path \<Rightarrow> 'a rb_locus" where
  "rb_left_deepest_node (RB_Node c (RB_Node lc ll lx lr) x r) path =
     rb_left_deepest_node (RB_Node lc ll lx lr) (InLeft c x r # path)"
| "rb_left_deepest_node (RB_Node c RB_Null x (RB_Node rc rl rx rr)) path =
     rb_left_deepest_node (RB_Node rc rl rx rr) (InRight c RB_Null x # path)"
| "rb_left_deepest_node t path = (t, path)"

fun rb_next_postorder :: "'a rb_locus \<Rightarrow> 'a rb_locus option" where
  "rb_next_postorder (t, []) = None"
| "rb_next_postorder (t, InLeft c x r # up) =
     (case r of
        RB_Null \<Rightarrow> Some (RB_Node c t x r, up)
      | RB_Node _ _ _ _ \<Rightarrow> Some (rb_left_deepest_node r (InRight c t x # up)))"
| "rb_next_postorder (t, InRight c l x # up) = Some (RB_Node c l x t, up)"

definition rb_first_postorder :: "'a rbt \<Rightarrow> 'a rb_locus option" where
  "rb_first_postorder root = (case root of RB_Null \<Rightarrow> None | _ \<Rightarrow> Some (rb_left_deepest_node root []))"

text \<open>The descent every client writes around \<open>rb_link_node\<close>: compare with the element of the
  node, go left, go right, or stop there.\<close>

datatype rb_dir = GoLeft | GoRight | Stop

fun rb_descend :: "('a \<Rightarrow> rb_dir) \<Rightarrow> 'a rbt \<Rightarrow> 'a rb_path \<Rightarrow> 'a rb_locus" where
  "rb_descend dir RB_Null path = (RB_Null, path)"
| "rb_descend dir (RB_Node c l x r) path =
     (case dir x of
        Stop \<Rightarrow> (RB_Node c l x r, path)
      | GoLeft \<Rightarrow> rb_descend dir l (InLeft c x r # path)
      | GoRight \<Rightarrow> rb_descend dir r (InRight c l x # path))"

end
