(* ===== verification/RBTree_Lemmas.thy ===== *)
theory RBTree_Lemmas
  imports RBTree
begin

section \<open>Correctness of the red-black trees\<close>

text \<open>
  The elements of a tree in order (\<open>rb_inorder\<close>) are its abstract value: insertion at the link
  a descent ended at puts the element between the elements before and after that link,
  erasure removes exactly the node's element, navigation moves by one position.  The balance
  part keeps colours (\<open>rb_invc\<close>) and black heights (\<open>rb_invh\<close>) apart; \<open>rb_path_inv\<close> says what
  the frames around a locus must satisfy.  On a valid tree no operation reads a null pointer.
\<close>

subsection \<open>What the operations do to the sequence of elements\<close>

fun rb_before :: "'a rb_path \<Rightarrow> 'a list" where
  "rb_before [] = []"
| "rb_before (InLeft c x r # up) = rb_before up"
| "rb_before (InRight c l x # up) = rb_before up @ rb_inorder l @ [x]"

fun rb_after :: "'a rb_path \<Rightarrow> 'a list" where
  "rb_after [] = []"
| "rb_after (InLeft c x r # up) = x # rb_inorder r @ rb_after up"
| "rb_after (InRight c l x # up) = rb_after up"

lemma rb_inorder_zip [simp]: "rb_inorder (rb_zip t path) = rb_before path @ rb_inorder t @ rb_after path"
  by (induction path arbitrary: t rule: rb_before.induct) auto

lemma rb_before_append [simp]: "rb_before (fs @ gs) = rb_before gs @ rb_before fs"
  by (induction fs rule: rb_before.induct) auto
lemma rb_after_append [simp]: "rb_after (fs @ gs) = rb_after fs @ rb_after gs"
  by (induction fs rule: rb_after.induct) auto
lemma rb_inorder_set_black [simp]: "rb_inorder (rb_set_black t) = rb_inorder t"
  by (cases t) auto

lemma rb_inorder_insert_loop:
  "rb_insert_loop t path = Some t' \<Longrightarrow> rb_inorder t' = rb_before path @ rb_inorder t @ rb_after path"
  by (induction t path arbitrary: t' rule: rb_insert_loop.induct)
     (auto split: if_splits rbt.splits)

fun rb_step_inorder where
  "rb_step_inorder (EraseDone t) = rb_inorder t"
| "rb_step_inorder (EraseUp t) = rb_inorder t"


lemma rb_inorder_tail_left:
  "rb_erase_tail_left node pc p s = Some st \<Longrightarrow> rb_step_inorder st = rb_inorder node @ p # rb_inorder s"
  by (cases s) (auto simp: rb_erase_tail_left.simps split: if_splits rbt.splits rb_color.splits)
lemma rb_inorder_tail_right:
  "rb_erase_tail_right node pc p s = Some st \<Longrightarrow> rb_step_inorder st = rb_inorder s @ p # rb_inorder node"
  by (cases s) (auto simp: rb_erase_tail_right.simps split: if_splits rbt.splits rb_color.splits)

lemma rb_inorder_iter_left:
  "rb_erase_iter_left node pc p s = Some (st, fs) \<Longrightarrow>
   rb_before fs @ rb_step_inorder st @ rb_after fs = rb_inorder node @ p # rb_inorder s"
  by (induction node pc p s rule: rb_erase_iter_left.induct)
     (auto dest!: rb_inorder_tail_left split: if_splits)
lemma rb_inorder_iter_right:
  "rb_erase_iter_right node pc p s = Some (st, fs) \<Longrightarrow>
   rb_before fs @ rb_step_inorder st @ rb_after fs = rb_inorder s @ p # rb_inorder node"
  by (induction node pc p s rule: rb_erase_iter_right.induct)
     (auto dest!: rb_inorder_tail_right split: if_splits)

lemma rb_inorder_erase_color:
  "rb_erase_color t path = Some t' \<Longrightarrow> rb_inorder t' = rb_before path @ rb_inorder t @ rb_after path"
proof (induction t path arbitrary: t' rule: rb_erase_color.induct)
  case (1 node)
  then show ?case by simp
next
  case (2 node pc p s up)
  from 2(2) obtain st fs where it: "rb_erase_iter_left node pc p s = Some (st, fs)"
    by (auto split: option.splits)
  from arg_cong [OF rb_inorder_iter_left [OF it], of "\<lambda>xs. rb_before up @ xs @ rb_after up"]
    "2.IH" [OF it refl] 2(2) it show ?case
    by (cases st) auto
next
  case (3 node pc s p up)
  from 3(2) obtain st fs where it: "rb_erase_iter_right node pc p s = Some (st, fs)"
    by (auto split: option.splits)
  from arg_cong [OF rb_inorder_iter_right [OF it], of "\<lambda>xs. rb_before up @ xs @ rb_after up"]
    "3.IH" [OF it refl] 3(2) it show ?case
    by (cases st) auto
qed

lemma rb_leftmost_zip: "rb_zip (fst (rb_leftmost t p)) (snd (rb_leftmost t p)) = rb_zip t p"
  by (induction t p rule: rb_leftmost.induct) auto

lemma rb_leftmost_form:
  "t \<noteq> RB_Null \<Longrightarrow> \<exists>c x r fs. rb_leftmost t p = (RB_Node c RB_Null x r, fs @ p) \<and> rb_before fs = []
     \<and> rb_inorder t = x # rb_inorder r @ rb_after fs"
proof (induction t p rule: rb_leftmost.induct)
  case (1 c lc ll lx lr x r path)
  then obtain c' x' r' fs where "rb_leftmost (RB_Node lc ll lx lr) (InLeft c x r # path)
    = (RB_Node c' RB_Null x' r', fs @ InLeft c x r # path) \<and> rb_before fs = []
     \<and> rb_inorder (RB_Node lc ll lx lr) = x' # rb_inorder r' @ rb_after fs"
    by blast
  then show ?case
    by (intro exI [of _ c'] exI [of _ x'] exI [of _ r'] exI [of _ "fs @ [InLeft c x r]"]) auto
qed auto


lemma rb_rightmost_zip: "rb_zip (fst (rb_rightmost t p)) (snd (rb_rightmost t p)) = rb_zip t p"
  by (induction t p rule: rb_rightmost.induct) auto

lemma rb_rightmost_form:
  "t \<noteq> RB_Null \<Longrightarrow> \<exists>c l x fs. rb_rightmost t p = (RB_Node c l x RB_Null, fs @ p) \<and> rb_after fs = []
     \<and> rb_inorder t = rb_before fs @ rb_inorder l @ [x]"
proof (induction t p rule: rb_rightmost.induct)
  case (1 c l x rc rl rx rr path)
  then obtain c' l' x' fs where "rb_rightmost (RB_Node rc rl rx rr) (InRight c l x # path)
    = (RB_Node c' l' x' RB_Null, fs @ InRight c l x # path) \<and> rb_after fs = []
     \<and> rb_inorder (RB_Node rc rl rx rr) = rb_before fs @ rb_inorder l' @ [x']"
    by blast
  then show ?case
    by (intro exI [of _ c'] exI [of _ l'] exI [of _ x'] exI [of _ "fs @ [InRight c l x]"]) auto
qed auto

lemma rb_inorder_erase_augmented:
  assumes "rb_erase_augmented (RB_Node c l x r, path) = Some ((t, path'), reb)"
  shows "rb_before path' @ rb_inorder t @ rb_after path' =
         rb_before path @ rb_inorder l @ rb_inorder r @ rb_after path"
proof (cases "l = RB_Null \<or> r = RB_Null")
  case True
  with assms show ?thesis by (cases l; cases r) auto
next
  case False
  then obtain lc ll lx lr rc rl rx rr where l: "l = RB_Node lc ll lx lr" and r: "r = RB_Node rc rl rx rr"
    by (cases l; cases r) auto
  from rb_leftmost_form [of r "[]"] r obtain sc s c2 fs where lm: "rb_leftmost r [] = (RB_Node sc RB_Null s c2, fs)"
    and "rb_before fs = []" and "rb_inorder r = s # rb_inorder c2 @ rb_after fs"
    by auto
  with assms show ?thesis by (cases c2) (auto simp: l r Let_def)
qed

lemma rb_inorder_erase:
  assumes "rb_erase (RB_Node c l x r, path) = Some t'"
  shows "rb_inorder t' = rb_before path @ rb_inorder l @ rb_inorder r @ rb_after path"
  using assms rb_inorder_erase_augmented [of c l x r path]
  by (auto simp: rb_erase_def rb_inorder_erase_color split: option.splits if_splits)

lemma rb_up_right:
  "rb_up_from_right t path = Some n \<Longrightarrow>
     \<exists>c l x r up. n = (RB_Node c l x r, up) \<and> rb_zip (RB_Node c l x r) up = rb_zip t path \<and>
       rb_before up @ rb_inorder l = rb_before path @ rb_inorder t \<and>
       rb_after path = x # rb_inorder r @ rb_after up"
  by (induction t path rule: rb_up_from_right.induct) auto

lemma rb_up_right_None: "rb_up_from_right t path = None \<longleftrightarrow> rb_after path = []"
  by (induction t path rule: rb_up_from_right.induct) auto

lemma rb_next_Some:
  assumes "rb_next (RB_Node c l x r, path) = Some n"
  shows "\<exists>c' l' x' r' path'. n = (RB_Node c' l' x' r', path') \<and> rb_zip (RB_Node c' l' x' r') path' = rb_zip (RB_Node c l x r) path \<and>
     rb_before path' @ rb_inorder l' = rb_before path @ rb_inorder l @ [x] \<and>
     rb_inorder r @ rb_after path = x' # rb_inorder r' @ rb_after path'"
proof (cases "r = RB_Null")
  case True
  with assms rb_up_right [of "RB_Node c l x r" path n] show ?thesis by auto
next
  case False
  from rb_leftmost_form [OF this, of "InRight c l x # path"] rb_leftmost_zip [of r "InRight c l x # path"] assms False
  show ?thesis by (cases r) auto
qed

subsection \<open>Balance\<close>

fun rb_color_of :: "'a rbt \<Rightarrow> rb_color" where
  "rb_color_of RB_Null = RB_BLACK"
| "rb_color_of (RB_Node c l x r) = c"

fun rb_bheight :: "'a rbt \<Rightarrow> nat" where
  "rb_bheight RB_Null = 0"
| "rb_bheight (RB_Node c l x r) = rb_bheight l + (if c = RB_BLACK then 1 else 0)"

fun rb_invc :: "'a rbt \<Rightarrow> bool" where
  "rb_invc RB_Null = True"
| "rb_invc (RB_Node c l x r) \<longleftrightarrow>
     (c = RB_RED \<longrightarrow> rb_color_of l = RB_BLACK \<and> rb_color_of r = RB_BLACK) \<and> rb_invc l \<and> rb_invc r"

fun rb_invh :: "'a rbt \<Rightarrow> bool" where
  "rb_invh RB_Null = True"
| "rb_invh (RB_Node c l x r) \<longleftrightarrow> rb_bheight l = rb_bheight r \<and> rb_invh l \<and> rb_invh r"

definition rb_valid :: "'a rbt \<Rightarrow> bool" where
  "rb_valid t \<longleftrightarrow> rb_color_of t = RB_BLACK \<and> rb_invc t \<and> rb_invh t"

text \<open>what the frames around a hole must satisfy when the hole is filled with colour c and height h\<close>

fun rb_path_inv :: "rb_color \<Rightarrow> nat \<Rightarrow> 'a rb_path \<Rightarrow> bool" where
  "rb_path_inv c h [] \<longleftrightarrow> c = RB_BLACK"
| "rb_path_inv c h (InLeft pc x r # up) \<longleftrightarrow>
     (pc = RB_RED \<longrightarrow> c = RB_BLACK \<and> rb_color_of r = RB_BLACK) \<and> rb_invc r \<and> rb_invh r \<and> rb_bheight r = h \<and>
     rb_path_inv pc (h + (if pc = RB_BLACK then 1 else 0)) up"
| "rb_path_inv c h (InRight pc l x # up) \<longleftrightarrow>
     (pc = RB_RED \<longrightarrow> c = RB_BLACK \<and> rb_color_of l = RB_BLACK) \<and> rb_invc l \<and> rb_invh l \<and> rb_bheight l = h \<and>
     rb_path_inv pc (h + (if pc = RB_BLACK then 1 else 0)) up"

lemma rb_color_neq [simp]: "c \<noteq> RB_BLACK \<longleftrightarrow> c = RB_RED" "c \<noteq> RB_RED \<longleftrightarrow> c = RB_BLACK"
  by (cases c; simp)+

lemma rb_valid_zip:
  "rb_valid (rb_zip t path) \<longleftrightarrow> rb_invc t \<and> rb_invh t \<and> rb_path_inv (rb_color_of t) (rb_bheight t) path"
proof (induction path arbitrary: t)
  case Nil
  then show ?case by (auto simp: rb_valid_def)
next
  case (Cons f path)
  show ?case by (cases f) (auto simp: Cons.IH)
qed

lemma rb_is_red_color: "rb_is_red t \<longleftrightarrow> rb_color_of t = RB_RED"
  by (cases t) auto

lemma rb_path_inv_mono: "rb_path_inv RB_RED h path \<Longrightarrow> rb_path_inv c h path"
  by (cases "(RB_RED, h, path)" rule: rb_path_inv.cases) auto
 
lemma rb_set_black_facts [simp]:
  "rb_invc t \<Longrightarrow> rb_invc (rb_set_black t)" "rb_invh (rb_set_black t) = rb_invh t"
  "rb_color_of (rb_set_black t) = RB_BLACK"
  "rb_color_of t = RB_BLACK \<Longrightarrow> rb_set_black t = t"
  "rb_color_of t = RB_RED \<Longrightarrow> rb_bheight (rb_set_black t) = Suc (rb_bheight t)"
  by (cases t; simp)+

lemma rb_insert_loop_valid:
  assumes "rb_invc t" "rb_invh t" "rb_color_of t = RB_RED" "rb_path_inv RB_BLACK (rb_bheight t) path"
  shows "\<exists>t'. rb_insert_loop t path = Some t' \<and> rb_valid t'"
  using assms
proof (induction t path rule: rb_insert_loop.induct)
  case (1 node)
  then show ?case by (cases node) (auto simp: rb_valid_def)
next
  case (7 node pl p gc g u up)
  then show ?case by (cases node) (auto simp: rb_valid_zip rb_is_red_color)
next
  case (9 node p pr gc u g up)
  then show ?case by (cases node) (auto simp: rb_valid_zip rb_is_red_color)
qed (auto simp: rb_valid_zip rb_is_red_color)


lemma rb_zip_append: "rb_zip t (fs @ up) = rb_zip (rb_zip t fs) up"
  by (induction fs arbitrary: t) auto

definition rb_step_ok :: "rb_color \<Rightarrow> nat \<Rightarrow> 'a rb_erase_step \<Rightarrow> 'a rb_path \<Rightarrow> bool" where
  "rb_step_ok pc h st fs \<longleftrightarrow>
     (case st of
        EraseDone t \<Rightarrow> let u = rb_zip t fs in rb_invc u \<and> rb_invh u \<and> (rb_color_of u = RB_RED \<longrightarrow> pc = RB_RED) \<and>
                        rb_bheight u = Suc h + (if pc = RB_BLACK then 1 else 0)
      | EraseUp t \<Rightarrow> fs = [] \<and> pc = RB_BLACK \<and> rb_invc t \<and> rb_invh t \<and> rb_color_of t = RB_BLACK \<and> rb_bheight t = Suc h)"

lemma rb_tail_left_ok:
  assumes "rb_invc node" "rb_invh node" "rb_color_of node = RB_BLACK" 
    "rb_invc s" "rb_invh s" "rb_color_of s = RB_BLACK" "rb_bheight s = Suc (rb_bheight node)"
  shows "\<exists>st. rb_erase_tail_left node pc p s = Some st \<and> rb_step_ok pc (rb_bheight node) st []"
proof -
  from assms obtain sl x sr where s: "s = RB_Node RB_BLACK sl x sr"
    by (cases s) auto
  show ?thesis
  proof (cases "rb_is_red sr")
    case True
    with assms show ?thesis by (auto simp: s rb_erase_tail_left.simps rb_step_ok_def rb_is_red_color)
  next
    case False
    with assms show ?thesis
      by (cases pc) (auto simp: s rb_erase_tail_left.simps rb_step_ok_def rb_is_red_color split: rbt.splits rb_color.splits)
  qed
qed

lemma rb_tail_right_ok:
  assumes "rb_invc node" "rb_invh node" "rb_color_of node = RB_BLACK" 
    "rb_invc s" "rb_invh s" "rb_color_of s = RB_BLACK" "rb_bheight s = Suc (rb_bheight node)"
  shows "\<exists>st. rb_erase_tail_right node pc p s = Some st \<and> rb_step_ok pc (rb_bheight node) st []"
proof -
  from assms obtain sl x sr where s: "s = RB_Node RB_BLACK sl x sr"
    by (cases s) auto
  show ?thesis
  proof (cases "rb_is_red sl")
    case True
    with assms show ?thesis by (auto simp: s rb_erase_tail_right.simps rb_step_ok_def rb_is_red_color)
  next
    case False
    with assms show ?thesis
      by (cases pc) (auto simp: s rb_erase_tail_right.simps rb_step_ok_def rb_is_red_color split: rbt.splits rb_color.splits)
  qed
qed

lemma rb_iter_left_ok:
  assumes "rb_invc node" "rb_invh node" "rb_color_of node = RB_BLACK" 
    "rb_invc s" "rb_invh s" "pc = RB_RED \<Longrightarrow> rb_color_of s = RB_BLACK" "rb_bheight s = Suc (rb_bheight node)"
  shows "\<exists>st fs. rb_erase_iter_left node pc p s = Some (st, fs) \<and> rb_step_ok pc (rb_bheight node) st fs"
proof (cases "rb_color_of s")
  case RB_BLACK
  with rb_tail_left_ok [of node s pc p] assms show ?thesis by (cases s) auto
next
  case RB_RED
  with assms obtain sl x sr where s: "s = RB_Node RB_RED sl x sr" and pc: "pc = RB_BLACK"
    by (cases s; cases pc) auto
  with assms have sl: "rb_color_of sl = RB_BLACK" "sl \<noteq> RB_Null" by auto
  with rb_tail_left_ok [of node sl RB_RED p] assms s obtain st
    where "rb_erase_tail_left node RB_RED p sl = Some st" "rb_step_ok RB_RED (rb_bheight node) st []"
    by auto
  with s sl pc assms show ?thesis by (auto simp: rb_step_ok_def Let_def split: rb_erase_step.splits)
qed

lemma rb_iter_right_ok:
  assumes "rb_invc node" "rb_invh node" "rb_color_of node = RB_BLACK" 
    "rb_invc s" "rb_invh s" "pc = RB_RED \<Longrightarrow> rb_color_of s = RB_BLACK" "rb_bheight s = Suc (rb_bheight node)"
  shows "\<exists>st fs. rb_erase_iter_right node pc p s = Some (st, fs) \<and> rb_step_ok pc (rb_bheight node) st fs"
proof (cases "rb_color_of s")
  case RB_BLACK
  with rb_tail_right_ok [of node s pc p] assms show ?thesis by (cases s) auto
next
  case RB_RED
  with assms obtain sl x sr where s: "s = RB_Node RB_RED sl x sr" and pc: "pc = RB_BLACK"
    by (cases s; cases pc) auto
  with assms have sr: "rb_color_of sr = RB_BLACK" "sr \<noteq> RB_Null" by auto
  with rb_tail_right_ok [of node sr RB_RED p] assms s obtain st
    where "rb_erase_tail_right node RB_RED p sr = Some st" "rb_step_ok RB_RED (rb_bheight node) st []"
    by auto
  with s sr pc assms show ?thesis by (auto simp: rb_step_ok_def Let_def split: rb_erase_step.splits)
qed

lemma rb_erase_color_ok:
  assumes "rb_invc t" "rb_invh t" "rb_color_of t = RB_BLACK" "rb_path_inv RB_BLACK (Suc (rb_bheight t)) path"
  shows "\<exists>t'. rb_erase_color t path = Some t' \<and> rb_valid t'"
  using assms
proof (induction t path rule: rb_erase_color.induct)
  case (1 node)
  then show ?case by (auto simp: rb_valid_def)
next
  case (2 node pc p s up)
  from rb_iter_left_ok [of node s pc p] "2.prems" obtain st fs
    where it: "rb_erase_iter_left node pc p s = Some (st, fs)" and ok: "rb_step_ok pc (rb_bheight node) st fs"
    by auto
  show ?case
  proof (cases st)
    case (EraseDone t)
    with it ok "2.prems" show ?thesis
      by (cases "rb_color_of (rb_zip t fs)") (auto simp: rb_step_ok_def Let_def rb_zip_append rb_valid_zip intro: rb_path_inv_mono)
  next
    case (EraseUp t)
    with it ok "2.prems" "2.IH" [OF it refl EraseUp] show ?thesis by (auto simp: rb_step_ok_def)
  qed
next
  case (3 node pc s p up)
  from rb_iter_right_ok [of node s pc p] "3.prems" obtain st fs
    where it: "rb_erase_iter_right node pc p s = Some (st, fs)" and ok: "rb_step_ok pc (rb_bheight node) st fs"
    by auto
  show ?case
  proof (cases st)
    case (EraseDone t)
    with it ok "3.prems" show ?thesis
      by (cases "rb_color_of (rb_zip t fs)") (auto simp: rb_step_ok_def Let_def rb_zip_append rb_valid_zip intro: rb_path_inv_mono)
  next
    case (EraseUp t)
    with it ok "3.prems" "3.IH" [OF it refl EraseUp] show ?thesis by (auto simp: rb_step_ok_def)
  qed
qed

lemma rb_insert_at_ok:
  assumes "rb_valid (rb_zip RB_Null path)"
  shows "\<exists>t'. rb_insert_at x path = Some t' \<and> rb_valid t' \<and>
           rb_inorder t' = rb_before path @ x # rb_after path"
proof -
  from assms have "rb_path_inv RB_BLACK 0 path" by (simp add: rb_valid_zip)
  then obtain t' where "rb_insert_loop (rb_link_node x) path = Some t'" "rb_valid t'"
    using rb_insert_loop_valid [of "rb_link_node x" path] by (auto simp: rb_link_node_def)
  with rb_inorder_insert_loop [of "rb_link_node x" path t'] show ?thesis
    by (auto simp: rb_insert_at_def rb_insert_color_def rb_link_node_def)
qed

lemma rb_valid_Null [simp]: "rb_valid RB_Null"
  by (simp add: rb_valid_def)

lemma rb_erase_one_child_ok:
  assumes "rb_valid (rb_zip (RB_Node c l x r) path)" "l = RB_Null \<or> r = RB_Null"
  shows "\<exists>t'. rb_erase (RB_Node c l x r, path) = Some t' \<and> rb_valid t'"
proof -
  from assms(1) have inv: "rb_invc (RB_Node c l x r)" "rb_invh (RB_Node c l x r)"
    "rb_path_inv c (rb_bheight (RB_Node c l x r)) path"
    by (auto simp: rb_valid_zip)
  show ?thesis
  proof (cases "l = RB_Null \<and> r = RB_Null")
    case True
    show ?thesis
    proof (cases "c = RB_BLACK \<and> path \<noteq> []")
      case True
      with rb_erase_color_ok [of RB_Null path] inv \<open>l = RB_Null \<and> r = RB_Null\<close> show ?thesis
        by (auto simp: rb_erase_def)
    next
      case False
      with inv \<open>l = RB_Null \<and> r = RB_Null\<close> show ?thesis
        by (cases c; cases path)
           (auto simp: rb_erase_def rb_valid_zip rb_path_inv_mono simp del: rb_zip.simps(2))
    qed
  next
    case False
    with inv assms(2) show ?thesis
      by (cases c; cases l; cases r) (auto simp: rb_erase_def rb_valid_zip split: if_splits)
  qed
qed

lemma rb_path_inv_entry:
  "rb_path_inv c h (fs @ InRight pc l x # up) = rb_path_inv c h (fs @ InRight pc l y # up)"
proof (induction fs arbitrary: c h)
  case (Cons f fs)
  then show ?case by (cases f) auto
qed simp

lemma rb_erase_ok:
  assumes "rb_valid (rb_zip (RB_Node c l x r) path)"
  shows "\<exists>t'. rb_erase (RB_Node c l x r, path) = Some t' \<and> rb_valid t' \<and>
     rb_inorder t' = rb_before path @ rb_inorder l @ rb_inorder r @ rb_after path"
proof -
  have "\<exists>t'. rb_erase (RB_Node c l x r, path) = Some t' \<and> rb_valid t'"
  proof (cases "l = RB_Null \<or> r = RB_Null")
    case True
    with assms show ?thesis by (rule rb_erase_one_child_ok)
  next
    case False
    then obtain lc ll lx lr rc rl rx rr where l: "l = RB_Node lc ll lx lr" and r: "r = RB_Node rc rl rx rr"
      by (cases l; cases r) auto
    from rb_leftmost_form [of r "[]"] r obtain sc s c2 fs
      where lm: "rb_leftmost r [] = (RB_Node sc RB_Null s c2, fs)" by auto
    have "rb_zip r [] = rb_zip (RB_Node sc RB_Null s c2) fs"
      using rb_leftmost_zip [of r "[]"] lm by simp
    with assms have "rb_valid (rb_zip (RB_Node sc RB_Null s c2) (fs @ InRight c l x # path))"
      by (simp add: rb_zip_append)
    then have inv: "rb_invc (RB_Node sc RB_Null s c2)" "rb_invh (RB_Node sc RB_Null s c2)"
      "rb_path_inv sc (rb_bheight (RB_Node sc RB_Null s c2)) (fs @ InRight c l s # path)"
      using rb_path_inv_entry [of _ _ fs c l x path s] by (auto simp: rb_valid_zip)
    show ?thesis
    proof (cases c2)
      case RB_Null
      with inv lm rb_erase_color_ok [of RB_Null "fs @ InRight c l s # path"] show ?thesis
        by (cases sc) (auto simp: l r rb_erase_def Let_def rb_valid_zip intro: rb_path_inv_mono)
    next
      case (RB_Node cc cl cx cr)
      with inv lm show ?thesis
        by (cases cc; cases sc) (auto simp: l r rb_erase_def Let_def rb_valid_zip)
    qed
  qed
  then obtain t' where "rb_erase (RB_Node c l x r, path) = Some t'" "rb_valid t'" by blast
  with rb_inorder_erase [OF this(1)] show ?thesis by simp
qed

subsection \<open>Navigation\<close>

lemma rb_up_left:
  "rb_up_from_left t path = Some n \<Longrightarrow>
     \<exists>c l x r up. n = (RB_Node c l x r, up) \<and> rb_zip (RB_Node c l x r) up = rb_zip t path \<and>
       rb_inorder r @ rb_after up = rb_inorder t @ rb_after path \<and>
       rb_before path = rb_before up @ rb_inorder l @ [x]"
  by (induction t path rule: rb_up_from_left.induct) auto

lemma rb_up_left_None: "rb_up_from_left t path = None \<longleftrightarrow> rb_before path = []"
  by (induction t path rule: rb_up_from_left.induct) auto

lemma rb_prev_Some:
  assumes "rb_prev (RB_Node c l x r, path) = Some n"
  shows "\<exists>c' l' x' r' path'. n = (RB_Node c' l' x' r', path') \<and>
     rb_zip (RB_Node c' l' x' r') path' = rb_zip (RB_Node c l x r) path \<and>
     rb_inorder r' @ rb_after path' = x # rb_inorder r @ rb_after path \<and>
     rb_before path @ rb_inorder l = rb_before path' @ rb_inorder l' @ [x']"
proof (cases "l = RB_Null")
  case True
  with assms rb_up_left [of "RB_Node c l x r" path n] show ?thesis by auto
next
  case False
  from rb_rightmost_form [OF this, of "InLeft c x r # path"]
    rb_rightmost_zip [of l "InLeft c x r # path"] assms False
  show ?thesis by (cases l) auto
qed

lemma rb_next_None: "rb_next (RB_Node c l x r, path) = None \<longleftrightarrow> rb_inorder r @ rb_after path = []"
  by (cases r) (auto simp: rb_up_right_None)

lemma rb_prev_None: "rb_prev (RB_Node c l x r, path) = None \<longleftrightarrow> rb_before path @ rb_inorder l = []"
  by (cases l) (auto simp: rb_up_left_None)

text \<open>The position of a locus in the sequence.\<close>

fun rb_left_of :: "'a rb_locus \<Rightarrow> 'a list" where
  "rb_left_of (RB_Null, path) = rb_before path"
| "rb_left_of (RB_Node c l x r, path) = rb_before path @ rb_inorder l"

fun rb_right_of :: "'a rb_locus \<Rightarrow> 'a list" where
  "rb_right_of (RB_Null, path) = rb_after path"
| "rb_right_of (RB_Node c l x r, path) = rb_inorder r @ rb_after path"


lemma rb_entry_iff: "rb_entry n = Some x \<longleftrightarrow> (\<exists>c l r path. n = (RB_Node c l x r, path))"
  by (cases n rule: rb_entry.cases) auto

lemma rb_inorder_root: "rb_entry n = Some x \<Longrightarrow> rb_inorder (rb_root_of n) = rb_left_of n @ x # rb_right_of n"
  by (auto simp: rb_entry_iff rb_root_of_def)

lemma rb_next_pos:
  assumes "rb_entry n = Some x" "rb_next n = Some n'"
  shows "\<exists>y. rb_entry n' = Some y \<and> rb_root_of n' = rb_root_of n \<and>
           rb_left_of n' = rb_left_of n @ [x] \<and> rb_right_of n = y # rb_right_of n'"
proof -
  from assms(1) obtain c l r path where n: "n = (RB_Node c l x r, path)" by (auto simp: rb_entry_iff)
  from rb_next_Some [of c l x r path n'] assms(2) n show ?thesis
    by (auto simp del: rb_next.simps simp: rb_root_of_def)
qed

lemma rb_prev_pos:
  assumes "rb_entry n = Some x" "rb_prev n = Some n'"
  shows "\<exists>y. rb_entry n' = Some y \<and> rb_root_of n' = rb_root_of n \<and>
           rb_right_of n' = x # rb_right_of n \<and> rb_left_of n = rb_left_of n' @ [y]"
proof -
  from assms(1) obtain c l r path where n: "n = (RB_Node c l x r, path)" by (auto simp: rb_entry_iff)
  from rb_prev_Some [of c l x r path n'] assms(2) n show ?thesis
    by (auto simp del: rb_prev.simps simp: rb_root_of_def)
qed

lemma rb_next_end: "rb_entry n = Some x \<Longrightarrow> rb_next n = None \<longleftrightarrow> rb_right_of n = []"
  by (auto simp: rb_entry_iff rb_next_None simp del: rb_next.simps)

lemma rb_prev_end: "rb_entry n = Some x \<Longrightarrow> rb_prev n = None \<longleftrightarrow> rb_left_of n = []"
  by (auto simp: rb_entry_iff rb_prev_None simp del: rb_prev.simps)

lemma rb_first_pos:
  "rb_first t = None \<longleftrightarrow> rb_inorder t = []"
  "rb_first t = Some n \<Longrightarrow> \<exists>x. rb_entry n = Some x \<and> rb_root_of n = t \<and> rb_left_of n = []"
proof -
  show "rb_first t = None \<longleftrightarrow> rb_inorder t = []"
    by (auto simp: rb_first_def split: rbt.split)
  assume f: "rb_first t = Some n"
  then have t: "t \<noteq> RB_Null" and n: "n = rb_leftmost t []" by (auto simp: rb_first_def split: rbt.splits)
  from rb_leftmost_form [OF t, of "[]"] n rb_leftmost_zip [of t "[]"]
  show "\<exists>x. rb_entry n = Some x \<and> rb_root_of n = t \<and> rb_left_of n = []"
    by (auto simp: rb_root_of_def)
qed

lemma rb_last_pos:
  "rb_last t = None \<longleftrightarrow> rb_inorder t = []"
  "rb_last t = Some n \<Longrightarrow> \<exists>x. rb_entry n = Some x \<and> rb_root_of n = t \<and> rb_right_of n = []"
proof -
  show "rb_last t = None \<longleftrightarrow> rb_inorder t = []"
    by (auto simp: rb_last_def split: rbt.split)
  assume f: "rb_last t = Some n"
  then have t: "t \<noteq> RB_Null" and n: "n = rb_rightmost t []" by (auto simp: rb_last_def split: rbt.splits)
  from rb_rightmost_form [OF t, of "[]"] n rb_rightmost_zip [of t "[]"]
  show "\<exists>x. rb_entry n = Some x \<and> rb_root_of n = t \<and> rb_right_of n = []"
    by (auto simp: rb_root_of_def)
qed

lemma rb_next_measure:
  "rb_entry n = Some x \<Longrightarrow> rb_next n = Some n' \<Longrightarrow> length (rb_right_of n') < length (rb_right_of n)"
  using rb_next_pos by fastforce

text \<open>The loop \<open>for (node = rb_first(root); node; node = rb_next(node))\<close> with a \<open>break\<close> at the
  first node whose element satisfies a test.\<close>

function rb_for_each :: "('a \<Rightarrow> bool) \<Rightarrow> 'a rb_locus option \<Rightarrow> 'a rb_locus option" where
  "rb_for_each P None = None"
| "rb_for_each P (Some n) =
     (case rb_entry n of
        None \<Rightarrow> None
      | Some x \<Rightarrow> if P x then Some n else rb_for_each P (rb_next n))"
  by pat_completeness auto
termination
  by (relation "measure (\<lambda>(P, n). case n of None \<Rightarrow> 0 | Some n \<Rightarrow> Suc (length (rb_right_of n)))")
     (auto split: option.split dest: rb_next_measure)

declare rb_for_each.simps(2) [simp del]

lemma rb_for_each_None:
  "rb_for_each P m = None \<Longrightarrow> m = Some n \<Longrightarrow> rb_entry n = Some x \<Longrightarrow> \<forall>y \<in> set (x # rb_right_of n). \<not> P y"
proof (induction P m arbitrary: n x rule: rb_for_each.induct)
  case (2 P n0)
  from "2.prems"(2,3) have n0: "n0 = n" and x: "rb_entry n0 = Some x" by simp_all
  from "2.prems"(1) x have P: "\<not> P x" by (cases "P x") (simp_all add: rb_for_each.simps(2) [of P n0])
  with "2.prems"(1) x have rest: "rb_for_each P (rb_next n0) = None"
    by (simp add: rb_for_each.simps(2) [of P n0])
  show ?case
  proof (cases "rb_next n0")
    case None
    with x P n0 rb_next_end [OF x] show ?thesis by simp
  next
    case (Some n')
    from rb_next_pos [OF x Some] obtain y where y: "rb_entry n' = Some y" "rb_right_of n0 = y # rb_right_of n'"
      by blast
    from "2.IH" [OF x P rest Some y(1)] P y(2) n0 show ?thesis by simp
  qed
qed simp

lemma rb_for_each_Some:
  "rb_for_each P m = Some n' \<Longrightarrow> m = Some n \<Longrightarrow>
     \<exists>y ys. rb_entry n' = Some y \<and> P y \<and> rb_root_of n' = rb_root_of n \<and>
       rb_left_of n' = rb_left_of n @ ys \<and> (\<forall>z \<in> set ys. \<not> P z)"
proof (induction P m arbitrary: n rule: rb_for_each.induct)
  case (2 P n0)
  from "2.prems"(1) obtain x where x: "rb_entry n0 = Some x"
    by (cases "rb_entry n0") (auto simp: rb_for_each.simps(2) [of P n0])
  show ?case
  proof (cases "P x")
    case True
    with "2.prems"(1) x have "n' = n0" by (simp add: rb_for_each.simps(2) [of P n0])
    with "2.prems"(2) x True show ?thesis by simp
  next
    case False
    with "2.prems"(1) x have rest: "rb_for_each P (rb_next n0) = Some n'"
      by (simp add: rb_for_each.simps(2) [of P n0])
    then obtain n1 where n1: "rb_next n0 = Some n1" by (cases "rb_next n0") auto
    from "2.IH" [OF x False rest n1] obtain y ys where "rb_entry n' = Some y" "P y"
      "rb_root_of n' = rb_root_of n1" "rb_left_of n' = rb_left_of n1 @ ys" "\<forall>z \<in> set ys. \<not> P z"
      by blast
    moreover from rb_next_pos [OF x n1] have "rb_root_of n1 = rb_root_of n0" "rb_left_of n1 = rb_left_of n0 @ [x]"
      by blast+
    ultimately show ?thesis using "2.prems"(2) False by auto
  qed
qed simp

subsection \<open>Searching\<close>

lemma rb_descend_root: "rb_root_of (rb_descend dir t path) = rb_zip t path"
  by (induction dir t path rule: rb_descend.induct) (auto simp: rb_root_of_def split: rb_dir.split)

lemma rb_descend_gap:
  assumes "rb_inorder t = as @ bs" "\<forall>a \<in> set as. dir a = GoRight" "\<forall>b \<in> set bs. dir b = GoLeft"
  shows "\<exists>path'. rb_descend dir t path = (RB_Null, path') \<and>
           rb_before path' = rb_before path @ as \<and> rb_after path' = bs @ rb_after path"
  using assms
proof (induction dir t path arbitrary: as bs rule: rb_descend.induct)
  case (2 dir c l x r path)
  from 2(3) consider us where "as = rb_inorder l @ x # us" "rb_inorder r = us @ bs"
    | us where "rb_inorder l = as @ us" "bs = us @ x # rb_inorder r"
    by (fastforce simp: append_eq_append_conv2 append_eq_Cons_conv Cons_eq_append_conv)
  then show ?case
  proof cases
    case 1
    from 1(1) "2.prems"(2,3) "2.IH"(2) [OF _ 1(2)] show ?thesis by simp
  next
    case 2
    from 2(2) "2.prems"(2,3) "2.IH"(1) [OF _ 2(1)] show ?thesis by simp
  qed
qed auto

lemma rb_descend_stop:
  "rb_entry (rb_descend dir t path) = Some x \<Longrightarrow> dir x = Stop \<and> x \<in> set (rb_inorder t)"
  by (induction dir t path rule: rb_descend.induct) (auto split: rb_dir.splits)

lemma rb_replace_node_pos [simp]:
  "rb_left_of (rb_replace_node n y) = rb_left_of n" "rb_right_of (rb_replace_node n y) = rb_right_of n"
  by (cases n rule: rb_entry.cases; simp)+

lemma rb_replace_node_entry: "rb_entry n = Some x \<Longrightarrow> rb_entry (rb_replace_node n y) = Some y"
  by (cases n rule: rb_entry.cases) auto

lemma rb_replace_node_valid [simp]: "rb_valid (rb_root_of (rb_replace_node n y)) = rb_valid (rb_root_of n)"
  by (cases n rule: rb_entry.cases) (auto simp: rb_root_of_def rb_valid_zip)

lemma rb_replace_node_inorder:
  "rb_entry n = Some x \<Longrightarrow> rb_inorder (rb_root_of (rb_replace_node n y)) = rb_left_of n @ y # rb_right_of n"
  using rb_inorder_root [of "rb_replace_node n y" y] by (simp add: rb_replace_node_entry)

lemma rb_descend_span:
  assumes "rb_inorder t = as @ ms @ bs" "ms \<noteq> []"
    "\<forall>a \<in> set as. dir a = GoRight" "\<forall>m \<in> set ms. dir m = Stop" "\<forall>b \<in> set bs. dir b = GoLeft"
  shows "\<exists>x ms1 ms2. rb_entry (rb_descend dir t path) = Some x \<and> ms = ms1 @ x # ms2 \<and>
           rb_left_of (rb_descend dir t path) = rb_before path @ as @ ms1 \<and>
           rb_right_of (rb_descend dir t path) = ms2 @ bs @ rb_after path"
  using assms
proof (induction dir t path arbitrary: as bs rule: rb_descend.induct)
  case (2 dir c l x r path)
  from 2(3) consider us where "as = rb_inorder l @ x # us" "rb_inorder r = us @ ms @ bs"
    | us where "rb_inorder l = as @ ms @ us" "bs = us @ x # rb_inorder r"
    | us vs where "ms = us @ x # vs" "rb_inorder l = as @ us" "rb_inorder r = vs @ bs"
    by (fastforce simp: append_eq_append_conv2 append_eq_Cons_conv Cons_eq_append_conv)
  then show ?case
  proof cases
    case 1
    then have "dir x = GoRight" using "2.prems"(3) by simp
    with 1 "2.IH"(2) [OF this 1(2) "2.prems"(2) _ "2.prems"(4,5)] "2.prems"(3) show ?thesis by simp
  next
    case 2
    then have "dir x = GoLeft" using "2.prems"(5) by simp
    with 2 "2.IH"(1) [OF this 2(1) "2.prems"(2,3,4)] "2.prems"(5) show ?thesis by simp
  next
    case 3
    then have "dir x = Stop" using "2.prems"(4) by simp
    with 3 show ?thesis by auto
  qed
qed simp

lemma rb_locate_None: "rb_locate P t path = None \<longleftrightarrow> (\<forall>x \<in> set (rb_inorder t). \<not> P x)"
  by (induction P t path rule: rb_locate.induct) (auto split: option.splits)

lemma rb_locate_pos:
  "rb_locate P t path = Some n \<Longrightarrow>
     \<exists>x ys. rb_entry n = Some x \<and> P x \<and> rb_root_of n = rb_zip t path \<and>
       rb_left_of n = rb_before path @ ys \<and> (\<forall>y \<in> set ys. \<not> P y)"
proof (induction P t path rule: rb_locate.induct)
  case (2 P c l x r path)
  show ?case
  proof (cases "rb_locate P l (InLeft c x r # path)")
    case (Some n')
    with 2 show ?thesis by auto
  next
    case None
    then have l: "\<forall>y \<in> set (rb_inorder l). \<not> P y" by (simp add: rb_locate_None)
    show ?thesis
    proof (cases "P x")
      case True
      with 2 None l show ?thesis by (auto simp: rb_root_of_def)
    next
      case False
      with 2 None obtain z ys where "rb_entry n = Some z" "P z" "rb_root_of n = rb_zip r (InRight c l x # path)"
        "rb_left_of n = rb_before (InRight c l x # path) @ ys" "\<forall>y \<in> set ys. \<not> P y"
        by auto
      with False l show ?thesis
        by (intro exI [of _ z] exI [of _ "rb_inorder l @ x # ys"]) auto
    qed
  qed
qed simp


subsection \<open>Whole traversals\<close>

text \<open>The lists the loops over \<open>rb_first\<close>/\<open>rb_next\<close> and over the post-order pair visit.\<close>

function rb_walk :: "'a rb_locus option \<Rightarrow> 'a list" where
  "rb_walk None = []"
| "rb_walk (Some n) = (case rb_entry n of None \<Rightarrow> [] | Some x \<Rightarrow> x # rb_walk (rb_next n))"
  by pat_completeness auto
termination
  by (relation "measure (\<lambda>n. case n of None \<Rightarrow> 0 | Some n \<Rightarrow> Suc (length (rb_right_of n)))")
     (auto split: option.split dest: rb_next_measure)

declare rb_walk.simps(2) [simp del]

lemma rb_walk_from: "m = Some n \<Longrightarrow> rb_entry n = Some x \<Longrightarrow> rb_walk m = x # rb_right_of n"
proof (induction m arbitrary: n x rule: rb_walk.induct)
  case (2 n0)
  then have n0: "n = n0" "rb_entry n0 = Some x" by auto
  show ?case
  proof (cases "rb_next n0")
    case None
    with n0 rb_next_end [OF n0(2)] show ?thesis by (simp add: rb_walk.simps)
  next
    case (Some n1)
    from rb_next_pos [OF n0(2) Some] obtain y where "rb_entry n1 = Some y" "rb_right_of n0 = y # rb_right_of n1"
      by blast
    with "2.IH" [OF n0(2) Some] n0 Some show ?thesis by (simp add: rb_walk.simps(2) [of n0])
  qed
qed simp

lemma rb_walk_first: "rb_walk (rb_first t) = rb_inorder t"
proof (cases "rb_first t")
  case None
  with rb_first_pos(1) [of t] show ?thesis by simp
next
  case (Some n)
  from rb_first_pos(2) [OF Some] obtain x where "rb_entry n = Some x" "rb_root_of n = t" "rb_left_of n = []"
    by blast
  with rb_walk_from [OF Some] rb_inorder_root [of n x] show ?thesis by (simp add: Some)
qed

fun rb_postorder :: "'a rbt \<Rightarrow> 'a list" where
  "rb_postorder RB_Null = []"
| "rb_postorder (RB_Node c l x r) = rb_postorder l @ rb_postorder r @ [x]"

fun rb_post_rest :: "'a rb_path \<Rightarrow> 'a list" where
  "rb_post_rest [] = []"
| "rb_post_rest (InLeft c x r # up) = rb_postorder r @ x # rb_post_rest up"
| "rb_post_rest (InRight c l x # up) = x # rb_post_rest up"

lemma rb_left_deepest_post:
  "t \<noteq> RB_Null \<Longrightarrow> \<exists>c x path'. rb_left_deepest_node t path = (RB_Node c RB_Null x RB_Null, path') \<and>
      x # rb_post_rest path' = rb_postorder t @ rb_post_rest path"
  by (induction t path rule: rb_left_deepest_node.induct) auto

lemma rb_next_postorder_rest:
  assumes "rb_next_postorder (t, path) = Some n"
  shows "\<exists>x. rb_entry n = Some x \<and> rb_post_rest path = x # rb_post_rest (snd n)"
proof (cases path rule: rb_post_rest.cases)
  case (2 c x r up)
  with assms rb_left_deepest_post [of r "InRight c t x # up"] show ?thesis by (cases r) auto
qed (use assms in auto)

function rb_walk_post :: "'a rb_locus option \<Rightarrow> 'a list" where
  "rb_walk_post None = []"
| "rb_walk_post (Some n) = (case rb_entry n of None \<Rightarrow> [] | Some x \<Rightarrow> x # rb_walk_post (rb_next_postorder n))"
  by pat_completeness auto
termination
proof (relation "measure (\<lambda>n. case n of None \<Rightarrow> 0 | Some n \<Rightarrow> Suc (length (rb_post_rest (snd n))))")
  fix n :: "'a rb_locus" and x
  show "(rb_next_postorder n, Some n) \<in> measure (\<lambda>n. case n of None \<Rightarrow> 0 | Some n \<Rightarrow> Suc (length (rb_post_rest (snd n))))"
    using rb_next_postorder_rest [of "fst n" "snd n"] by (fastforce split: option.split)
qed simp

declare rb_walk_post.simps(2) [simp del]

lemma rb_walk_post_from: "m = Some n \<Longrightarrow> rb_entry n = Some x \<Longrightarrow> rb_walk_post m = x # rb_post_rest (snd n)"
proof (induction m arbitrary: n x rule: rb_walk_post.induct)
  case (2 n0)
  then have n0: "n = n0" "rb_entry n0 = Some x" by auto
  show ?case
  proof (cases "rb_next_postorder n0")
    case None
    then have "snd n0 = []" by (cases n0 rule: rb_next_postorder.cases) (auto split: rbt.splits)
    with n0 None show ?thesis by (simp add: rb_walk_post.simps)
  next
    case (Some n1)
    with rb_next_postorder_rest [of "fst n0" "snd n0" n1] obtain y
      where "rb_entry n1 = Some y" "rb_post_rest (snd n0) = y # rb_post_rest (snd n1)" by auto
    with "2.IH" [OF n0(2) Some] n0 Some show ?thesis by (simp add: rb_walk_post.simps(2) [of n0])
  qed
qed simp

lemma rb_walk_post_first: "rb_walk_post (rb_first_postorder t) = rb_postorder t"
proof (cases t)
  case (RB_Node c l x r)
  with rb_left_deepest_post [of t "[]"] obtain c' y path' where
    "rb_left_deepest_node t [] = (RB_Node c' RB_Null y RB_Null, path')" "y # rb_post_rest path' = rb_postorder t"
    by auto
  then show ?thesis
    using rb_walk_post_from [OF refl, of "(RB_Node c' RB_Null y RB_Null, path')" y] RB_Node
    by (simp add: rb_first_postorder_def)
qed (simp add: rb_first_postorder_def)

subsection \<open>Trees the code builds\<close>

text \<open>An empty root, insertions at links found by some descent, erasures of some node.\<close>

inductive rb_reachable :: "'a rbt \<Rightarrow> bool" where
  rb_reach_empty: "rb_reachable RB_Null"
| rb_reach_insert: "rb_reachable t \<Longrightarrow> rb_descend dir t [] = (RB_Null, path) \<Longrightarrow>
     rb_insert_color (rb_link_node x, path) = Some t' \<Longrightarrow> rb_reachable t'"
| rb_reach_erase: "rb_reachable t \<Longrightarrow> rb_root_of n = t \<Longrightarrow> rb_erase n = Some t' \<Longrightarrow> rb_reachable t'"

fun rb_height :: "'a rbt \<Rightarrow> nat" where
  "rb_height RB_Null = 0"
| "rb_height (RB_Node c l x r) = Suc (max (rb_height l) (rb_height r))"

lemma rb_descend_null_root:
  assumes "rb_descend dir t [] = (RB_Null, path)"
  shows "rb_zip RB_Null path = t" "rb_inorder t = rb_before path @ rb_after path"
proof -
  from rb_descend_root [of dir t "[]"] assms show t: "rb_zip RB_Null path = t"
    by (simp add: rb_root_of_def)
  show "rb_inorder t = rb_before path @ rb_after path"
    unfolding t [symmetric] by simp
qed

lemma rb_erase_null: "rb_erase n = Some t' \<Longrightarrow> \<exists>x. rb_entry n = Some x"
  by (cases n rule: rb_entry.cases) (auto simp: rb_erase_def)

lemma rb_erase_locus_ok:
  assumes "rb_valid (rb_root_of n)" "rb_entry n = Some x"
  shows "\<exists>t'. rb_erase n = Some t' \<and> rb_valid t' \<and> rb_inorder t' = rb_left_of n @ rb_right_of n"
proof -
  from assms(2) obtain c l r path where "n = (RB_Node c l x r, path)" by (auto simp: rb_entry_iff)
  with assms(1) rb_erase_ok [of c l x r path] show ?thesis by (auto simp: rb_root_of_def)
qed

lemma rb_reachable_valid: "rb_reachable t \<Longrightarrow> rb_valid t"
proof (induction rule: rb_reachable.induct)
  case (rb_reach_insert t dir path x t')
  with rb_descend_null_root [of dir t path] rb_insert_at_ok [of path x] show ?case
    by (auto simp: rb_insert_at_def)
next
  case (rb_reach_erase t n t')
  with rb_erase_null [of n t'] rb_erase_locus_ok [of n] show ?case by auto
qed simp

lemma rb_height_bound: "rb_invc t \<Longrightarrow> rb_invh t \<Longrightarrow>
   rb_height t \<le> 2 * rb_bheight t + (if rb_color_of t = RB_RED then 1 else 0)"
proof (induction t)
  case (RB_Node c l x r)
  then show ?case by (cases "rb_color_of l"; cases "rb_color_of r"; cases c) auto
qed simp

lemma rb_size_bound: "rb_invh t \<Longrightarrow> 2 ^ rb_bheight t \<le> length (rb_inorder t) + 1"
  by (induction t) auto

subsection \<open>Properties\<close>

text \<open>C4: inserting an element at the link a descent of a valid tree ended at
  (\<open>rb_link_node\<close>, then \<open>rb_insert_color\<close>) reads no null pointer, gives a valid red-black tree
  again, and puts the element between exactly the elements before and after the link.\<close>

theorem rb_insert_correct:
  assumes "rb_valid t" and "rb_descend dir t [] = (RB_Null, path)"
  shows "\<exists>t'. rb_insert_color (rb_link_node x, path) = Some t' \<and> rb_valid t' \<and>
           rb_inorder t = rb_before path @ rb_after path \<and>
           rb_inorder t' = rb_before path @ x # rb_after path"
  using assms rb_descend_null_root [OF assms(2)] rb_insert_at_ok [of path x]
  by (auto simp: rb_insert_at_def)

text \<open>C3: \<open>rb_erase\<close> of any node of a valid red-black tree reads no null pointer, gives a valid
  tree again, and removes exactly the element of that node, keeping the order of the others.\<close>

theorem rb_erase_correct:
  assumes "rb_valid (rb_root_of n)" and "rb_entry n = Some x"
  shows "\<exists>t'. rb_erase n = Some t' \<and> rb_valid t' \<and>
           rb_inorder (rb_root_of n) = rb_left_of n @ x # rb_right_of n \<and>
           rb_inorder t' = rb_left_of n @ rb_right_of n"
  using rb_erase_locus_ok [OF assms] rb_inorder_root [OF assms(2)] by auto

text \<open>C17: every tree the code can build from an empty root satisfies the red-black
  properties, so no path from the root is longer than twice the black height, and a tree of
  \<open>n\<close> nodes has a black height of at most \<open>log2 (n + 1)\<close>.\<close>

theorem rb_reachable_balanced:
  assumes "rb_reachable t"
  shows "rb_valid t \<and> rb_height t \<le> 2 * rb_bheight t \<and> 2 ^ rb_bheight t \<le> length (rb_inorder t) + 1"
  using rb_reachable_valid [OF assms] rb_height_bound [of t] rb_size_bound [of t]
  by (auto simp: rb_valid_def)

text \<open>the loop over \<open>rb_first\<close> and \<open>rb_next\<close> visits every element once, in order, and the
  loop over \<open>rb_first_postorder\<close> and \<open>rb_next_postorder\<close> visits them children first.\<close>

theorem rb_traversals:
  "rb_walk (rb_first t) = rb_inorder t \<and> rb_walk_post (rb_first_postorder t) = rb_postorder t"
  by (simp add: rb_walk_first rb_walk_post_first)

subsection \<open>Witnesses\<close>

text \<open>A tree of three keys, built by the insertion code.\<close>

definition rb_key_dir :: "nat \<Rightarrow> nat \<Rightarrow> rb_dir" where
  "rb_key_dir k x = (if k < x then GoLeft else if x < k then GoRight else Stop)"

definition rb_example :: "nat rbt" where
  "rb_example = RB_Node RB_BLACK (RB_Node RB_RED RB_Null 10 RB_Null) 20 (RB_Node RB_RED RB_Null 30 RB_Null)"

lemma rb_example_valid: "rb_valid rb_example"
  by (simp add: rb_example_def rb_valid_def)

theorem rb_insert_correct_witness:
  "\<exists>t'. rb_insert_color (rb_link_node (25::nat),
          [InLeft RB_RED 30 RB_Null, InRight RB_BLACK (RB_Node RB_RED RB_Null 10 RB_Null) 20]) = Some t' \<and>
        rb_valid t' \<and> rb_inorder t' = [10, 20, 25, 30]"
proof -
  have "rb_descend (rb_key_dir 25) rb_example [] =
          (RB_Null, [InLeft RB_RED 30 RB_Null, InRight RB_BLACK (RB_Node RB_RED RB_Null 10 RB_Null) 20])"
    by (simp add: rb_example_def rb_key_dir_def)
  from rb_insert_correct [OF rb_example_valid this, of 25] show ?thesis by auto
qed

theorem rb_erase_correct_witness:
  "\<exists>t'. rb_erase (rb_example, []) = Some t' \<and> rb_valid t' \<and> rb_inorder t' = [10, 30::nat]"
  using rb_erase_correct [of "(rb_example, [])" 20] rb_example_valid
  by (auto simp: rb_root_of_def rb_example_def)

theorem rb_reachable_balanced_witness:
  "\<exists>t::nat rbt. rb_reachable t \<and> rb_inorder t = [7] \<and> rb_height t \<le> 2 * rb_bheight t"
proof -
  have "rb_reachable (RB_Node RB_BLACK RB_Null (7::nat) RB_Null)"
    by (rule rb_reach_insert [OF rb_reach_empty, of "rb_key_dir 7" "[]" 7])
       (simp_all add: rb_insert_color_def rb_link_node_def)
  with rb_reachable_balanced [OF this] show ?thesis
    by (intro exI [of _ "RB_Node RB_BLACK RB_Null (7::nat) RB_Null"]) simp
qed

end
