(* ===== verification/PageAlloc_RB.thy ===== *)
theory PageAlloc_RB
  imports RBTree_Lemmas PageAlloc_Spec
begin

section \<open>The red-black tree page allocator\<close>

text \<open>
  \<open>lib/page_alloc.c\<close>, the part under \<open>IHK_RBTREE_ALLOCATOR\<close>: free physical memory is a
  red-black tree of chunks ordered by address.  A chunk structure lies at the front of the
  memory it describes, so its address is its identity: moving the structure to the new front
  of an extended chunk is the update of \<open>fc_addr\<close> in the node.  The contents of free memory
  (the \<open>memset\<close> calls) are not part of the state.  \<open>None\<close> is a read through a null pointer.
\<close>

unbundle bit_operations_syntax

record free_chunk =
  fc_addr :: u64
  fc_size :: u64

type_synonym free_tree = "free_chunk rbt"

subsection \<open>Operations\<close>

definition count_free_bytes :: "free_tree \<Rightarrow> u64" where
  "count_free_bytes root = sum_list (map fc_size (rb_walk (rb_first root)))"

text \<open>One round of the search loop of \<open>__page_alloc_rbtree_free_range\<close>: the three tests that
  end the loop, then the side to descend to.\<close>

definition free_range_dir :: "u64 \<Rightarrow> u64 \<Rightarrow> free_chunk \<Rightarrow> rb_dir" where
  "free_range_dir addr sz ichunk =
     (if fc_addr ichunk \<le> addr \<and> addr < fc_addr ichunk + fc_size ichunk then Stop
      else if fc_addr ichunk + fc_size ichunk = addr then Stop
      else if addr + sz = fc_addr ichunk then Stop
      else if addr < fc_addr ichunk then GoLeft
      else GoRight)"

definition free_range_extend_right ::
  "free_chunk rb_locus \<Rightarrow> free_chunk \<Rightarrow> u64 \<Rightarrow> (int \<times> free_tree) option" where
  "free_range_extend_right iter ichunk sz =
     (let ichunk = ichunk\<lparr>fc_size := fc_size ichunk + sz\<rparr>;
          iter = rb_replace_node iter ichunk
      in case rb_next iter of
           None \<Rightarrow> Some (0, rb_root_of iter)
         | Some right \<Rightarrow>
             (case rb_entry right of
                None \<Rightarrow> None
              | Some right_chunk \<Rightarrow>
                  if fc_addr ichunk + fc_size ichunk = fc_addr right_chunk then
                    (let ichunk = ichunk\<lparr>fc_size := fc_size ichunk + fc_size right_chunk\<rparr>;
                         iter = rb_replace_node iter ichunk
                     in case rb_next iter of
                          None \<Rightarrow> None
                        | Some right \<Rightarrow> map_option (Pair 0) (rb_erase right))
                  else Some (0, rb_root_of iter)))"

definition free_range_extend_left ::
  "free_chunk rb_locus \<Rightarrow> free_chunk \<Rightarrow> u64 \<Rightarrow> (int \<times> free_tree) option" where
  "free_range_extend_left iter ichunk sz =
     (let ichunk = ichunk\<lparr>fc_addr := fc_addr ichunk - sz, fc_size := fc_size ichunk + sz\<rparr>;
          iter = rb_replace_node iter ichunk
      in case rb_prev iter of
           None \<Rightarrow> Some (0, rb_root_of iter)
         | Some left \<Rightarrow>
             (case rb_entry left of
                None \<Rightarrow> None
              | Some left_chunk \<Rightarrow>
                  if fc_addr left_chunk + fc_size left_chunk = fc_addr ichunk then
                    (let ichunk = ichunk\<lparr>fc_addr := fc_addr ichunk - fc_size left_chunk,
                                         fc_size := fc_size ichunk + fc_size left_chunk\<rparr>;
                         iter = rb_replace_node iter ichunk
                     in case rb_prev iter of
                          None \<Rightarrow> None
                        | Some left \<Rightarrow> map_option (Pair 0) (rb_erase left))
                  else Some (0, rb_root_of iter)))"

definition page_alloc_rbtree_free_range :: "free_tree \<Rightarrow> u64 \<Rightarrow> u64 \<Rightarrow> (int \<times> free_tree) option" where
  "page_alloc_rbtree_free_range root addr sz =
     (let iter = rb_descend (free_range_dir addr sz) root []
      in case rb_entry iter of
           None \<Rightarrow>
             map_option (Pair 0)
               (rb_insert_color (rb_link_node \<lparr>fc_addr = addr, fc_size = sz\<rparr>, snd iter))
         | Some ichunk \<Rightarrow>
             if fc_addr ichunk \<le> addr \<and> addr < fc_addr ichunk + fc_size ichunk then Some (EINVAL, root)
             else if fc_addr ichunk + fc_size ichunk = addr then free_range_extend_right iter ichunk sz
             else free_range_extend_left iter ichunk sz)"

text \<open>\<open>chunk\<close> is given as its node.  Its size is cut first; the tree therefore already lacks
  \<open>[aligned_addr, end)\<close> when the rest on the right is given back.\<close>

definition page_alloc_rbtree_mark_range_allocated ::
  "free_chunk rb_locus \<Rightarrow> u64 \<Rightarrow> u64 \<Rightarrow> (int \<times> free_tree) option" where
  "page_alloc_rbtree_mark_range_allocated node aligned_addr sz =
     (case rb_entry node of
        None \<Rightarrow> None
      | Some chunk \<Rightarrow>
          (let right_chunk =
                 (if aligned_addr + sz < fc_addr chunk + fc_size chunk
                  then Some \<lparr>fc_addr = aligned_addr + sz,
                             fc_size = (fc_addr chunk + fc_size chunk) - (aligned_addr + sz)\<rparr>
                  else None);
               left_chunk = (aligned_addr \<noteq> fc_addr chunk);
               node = rb_replace_node node (chunk\<lparr>fc_size := aligned_addr - fc_addr chunk\<rparr>)
           in if left_chunk then
                (case right_chunk of
                   Some rc \<Rightarrow>
                     (case page_alloc_rbtree_free_range (rb_root_of node) (fc_addr rc) (fc_size rc) of
                        None \<Rightarrow> None
                      | Some (ret, root) \<Rightarrow> Some (if ret \<noteq> 0 then EINVAL else 0, root))
                 | None \<Rightarrow> Some (0, rb_root_of node))
              else
                (case right_chunk of
                   Some rc \<Rightarrow> Some (0, rb_root_of (rb_replace_node node rc))
                 | None \<Rightarrow> map_option (Pair 0) (rb_erase node))))"

definition chunk_fits :: "u64 \<Rightarrow> u64 \<Rightarrow> u64 \<Rightarrow> free_chunk \<Rightarrow> bool" where
  "chunk_fits sz align_size align_mask chunk \<longleftrightarrow>
     ((fc_addr chunk + (align_size - 1)) AND align_mask) + sz \<le> fc_addr chunk + fc_size chunk"

text \<open>The result is the address, 0 for failure.  \<open>npages\<close> and \<open>p2align\<close> are \<open>int\<close> in C; the
  product with \<open>PAGE_SIZE\<close> is in \<open>unsigned long\<close>.\<close>

definition page_alloc_rbtree_alloc_pages :: "free_tree \<Rightarrow> int \<Rightarrow> nat \<Rightarrow> (u64 \<times> free_tree) option" where
  "page_alloc_rbtree_alloc_pages root npages p2align =
     (let sz = PAGE_SIZE * word_of_int npages;
          align_size = push_bit p2align PAGE_SIZE;
          align_mask = NOT (align_size - 1)
      in case rb_for_each (chunk_fits sz align_size align_mask) (rb_first root) of
           None \<Rightarrow> Some (0, root)
         | Some node \<Rightarrow>
             (case rb_entry node of
                None \<Rightarrow> None
              | Some chunk \<Rightarrow>
                  (let aligned_addr = (fc_addr chunk + (align_size - 1)) AND align_mask
                   in case page_alloc_rbtree_mark_range_allocated node aligned_addr sz of
                        None \<Rightarrow> None
                      | Some (ret, root) \<Rightarrow> Some (if ret \<noteq> 0 then 0 else aligned_addr, root))))"

definition page_alloc_rbtree_reserve_pages :: "free_tree \<Rightarrow> u64 \<Rightarrow> int \<Rightarrow> (u64 \<times> free_tree) option" where
  "page_alloc_rbtree_reserve_pages root aligned_addr npages =
     (let sz = PAGE_SIZE * word_of_int npages
      in case rb_for_each
                (\<lambda>chunk. fc_addr chunk \<le> aligned_addr \<and> aligned_addr + sz \<le> fc_addr chunk + fc_size chunk)
                (rb_first root) of
           None \<Rightarrow> Some (0, root)
         | Some node \<Rightarrow>
             (case page_alloc_rbtree_mark_range_allocated node aligned_addr sz of
                None \<Rightarrow> None
              | Some (ret, root) \<Rightarrow> Some (if ret \<noteq> 0 then 0 else aligned_addr, root)))"

definition page_alloc_rbtree_get_root_chunk :: "free_tree \<Rightarrow> (free_chunk option \<times> free_tree) option" where
  "page_alloc_rbtree_get_root_chunk root =
     (case rb_entry (root, []) of
        None \<Rightarrow> Some (None, root)
      | Some chunk \<Rightarrow> map_option (Pair (Some chunk)) (rb_erase (root, [])))"

subsection \<open>Chunk lists\<close>

text \<open>Managed memory lies in \<open>[1, PHYS_LIMIT)\<close>: the 52 bits of an x86-64 physical address,
  page 0 excluded (the allocator returns address 0 for failure).\<close>

definition PHYS_LIMIT :: nat where
  "PHYS_LIMIT = 2 ^ 52"

definition chunk_beg :: "free_chunk \<Rightarrow> nat" where
  "chunk_beg c = unat (fc_addr c)"

definition chunk_lim :: "free_chunk \<Rightarrow> nat" where
  "chunk_lim c = unat (fc_addr c) + unat (fc_size c)"

definition chunk_ok :: "free_chunk \<Rightarrow> bool" where
  "chunk_ok c \<longleftrightarrow> 0 < chunk_beg c \<and> chunk_beg c < chunk_lim c \<and> chunk_lim c \<le> PHYS_LIMIT"

text \<open>Chunks are in address order and no two of them touch.\<close>

fun chunks_ok :: "free_chunk list \<Rightarrow> bool" where
  "chunks_ok [] \<longleftrightarrow> True"
| "chunks_ok (c # cs) \<longleftrightarrow> chunk_ok c \<and> (\<forall>d \<in> set cs. chunk_lim c < chunk_beg d) \<and> chunks_ok cs"

definition chunk_bytes :: "free_chunk \<Rightarrow> nat set" where
  "chunk_bytes c = {chunk_beg c ..< chunk_lim c}"

definition chunks_bytes :: "free_chunk list \<Rightarrow> nat set" where
  "chunks_bytes cs = \<Union> (chunk_bytes ` set cs)"

definition free_tree_ok :: "free_tree \<Rightarrow> bool" where
  "free_tree_ok t \<longleftrightarrow> rb_valid t \<and> chunks_ok (rb_inorder t)"

definition free_bytes :: "free_tree \<Rightarrow> nat set" where
  "free_bytes t = chunks_bytes (rb_inorder t)"

lemma chunks_ok_append [simp]:
  "chunks_ok (xs @ ys) \<longleftrightarrow> chunks_ok xs \<and> chunks_ok ys \<and> (\<forall>x \<in> set xs. \<forall>y \<in> set ys. chunk_lim x < chunk_beg y)"
  by (induction xs) auto

lemma chunks_ok_chunk: "chunks_ok cs \<Longrightarrow> c \<in> set cs \<Longrightarrow> chunk_ok c"
  by (induction cs) auto

lemma chunks_bytes_simps [simp]:
  "chunks_bytes [] = {}" "chunks_bytes (c # cs) = chunk_bytes c \<union> chunks_bytes cs"
  "chunks_bytes (xs @ ys) = chunks_bytes xs \<union> chunks_bytes ys"
  by (auto simp: chunks_bytes_def)

lemma chunks_bytes_finite [simp]: "finite (chunks_bytes cs)"
  by (auto simp: chunks_bytes_def chunk_bytes_def)

lemma chunks_separate:
  "chunks_ok cs \<Longrightarrow> c \<in> set cs \<Longrightarrow> d \<in> set cs \<Longrightarrow> c = d \<or> chunk_lim c < chunk_beg d \<or> chunk_lim d < chunk_beg c"
  by (induction cs) auto

text \<open>A free range lies inside one chunk.\<close>

lemma chunks_range_in_one:
  assumes "chunks_ok cs" "a < e" "{a..<e} \<subseteq> chunks_bytes cs"
  shows "\<exists>c \<in> set cs. chunk_beg c \<le> a \<and> e \<le> chunk_lim c"
proof -
  from assms(2,3) have "a \<in> chunks_bytes cs" by auto
  then obtain c where c: "c \<in> set cs" "chunk_beg c \<le> a" "a < chunk_lim c"
    by (auto simp: chunks_bytes_def chunk_bytes_def)
  have "e \<le> chunk_lim c"
  proof (rule ccontr)
    assume "\<not> e \<le> chunk_lim c"
    with c have "chunk_lim c \<in> {a..<e}" by simp
    with assms(3) have "chunk_lim c \<in> chunks_bytes cs" by blast
    then obtain d where "d \<in> set cs" "chunk_beg d \<le> chunk_lim c" "chunk_lim c < chunk_lim d"
      by (auto simp: chunks_bytes_def chunk_bytes_def)
    with chunks_separate [OF assms(1) c(1), of d] chunks_ok_chunk [OF assms(1) c(1)] chunks_ok_chunk [OF assms(1), of d]
    show False by (auto simp: chunk_ok_def)
  qed
  with c show ?thesis by blast
qed

text \<open>Where a range outside the chunks lies among them: at most one chunk ends where it begins,
  at most one begins where it ends.\<close>

lemma chunks_split:
  assumes "chunks_ok cs" "a < e" "\<forall>c \<in> set cs. chunk_lim c \<le> a \<or> e \<le> chunk_beg c"
  shows "\<exists>as ls rs bs. cs = as @ ls @ rs @ bs \<and> (\<forall>c \<in> set as. chunk_lim c < a) \<and> (\<forall>c \<in> set bs. e < chunk_beg c) \<and>
     (ls = [] \<or> (\<exists>l. ls = [l] \<and> chunk_lim l = a)) \<and> (rs = [] \<or> (\<exists>r. rs = [r] \<and> chunk_beg r = e))"
  using assms(1,3)
proof (induction cs)
  case (Cons c cs)
  have "chunks_ok cs" "\<forall>c \<in> set cs. chunk_lim c \<le> a \<or> e \<le> chunk_beg c" using Cons.prems by simp_all
  from Cons.IH [OF this] obtain as ls rs bs where IH: "cs = as @ ls @ rs @ bs" "\<forall>c \<in> set as. chunk_lim c < a" "\<forall>c \<in> set bs. e < chunk_beg c"
    "ls = [] \<or> (\<exists>l. ls = [l] \<and> chunk_lim l = a)" "rs = [] \<or> (\<exists>r. rs = [r] \<and> chunk_beg r = e)" by blast
  have ok: "\<forall>d \<in> set cs. chunk_lim c < chunk_beg d" "\<forall>d \<in> set cs. chunk_beg d < chunk_lim d" "chunk_beg c < chunk_lim c"
    using Cons.prems(1) chunks_ok_chunk [of cs] by (auto simp: chunk_ok_def)
  consider "chunk_lim c < a" | "chunk_lim c = a" | "e = chunk_beg c" | "e < chunk_beg c"
    using Cons.prems(2) by (auto simp: le_less)
  then show ?case
  proof cases
    case 1
    with IH show ?thesis by (intro exI [of _ "c # as"] exI [of _ ls] exI [of _ rs] exI [of _ bs]) simp
  next
    case 2
    have after: "a < chunk_lim d" if "d \<in> set cs" for d using ok that 2 by (meson less_trans order_le_less_trans eq_imp_le)
    have "as = []" using after [of "hd as"] IH(1,2) by (cases as) auto
    moreover have "ls = []" using after [of "hd ls"] IH(1,4) by auto
    ultimately show ?thesis using IH 2
      by (intro exI [of _ "[]"] exI [of _ "[c]"] exI [of _ rs] exI [of _ bs]) simp
  next
    case 3
    then have "\<forall>d \<in> set cs. e < chunk_beg d" using ok by (meson less_trans)
    with 3 show ?thesis by (intro exI [of _ "[]"] exI [of _ "[]"] exI [of _ "[c]"] exI [of _ cs]) simp
  next
    case 4
    then have "\<forall>d \<in> set cs. e < chunk_beg d" using ok by (meson less_trans)
    with 4 show ?thesis by (intro exI [of _ "[]"] exI [of _ "[]"] exI [of _ "[]"] exI [of _ "c # cs"]) simp
  qed
qed auto

subsection \<open>Freeing a range\<close>

lemma chunk_end_unat: "chunk_ok c \<Longrightarrow> unat (fc_addr c + fc_size c) = chunk_lim c"
  by (simp add: chunk_ok_def chunk_lim_def PHYS_LIMIT_def u64_add)

lemma range_end_unat: "unat a + unat s \<le> PHYS_LIMIT \<Longrightarrow> unat (a + s :: u64) = unat a + unat s"
  by (simp add: PHYS_LIMIT_def u64_add)

lemma free_range_dir_nat:
  assumes "chunk_ok c" "unat addr + unat sz \<le> PHYS_LIMIT"
  shows "free_range_dir addr sz c =
     (if chunk_beg c \<le> unat addr \<and> unat addr < chunk_lim c then Stop
      else if chunk_lim c = unat addr then Stop
      else if unat addr + unat sz = chunk_beg c then Stop
      else if unat addr < chunk_beg c then GoLeft else GoRight)"
  using chunk_end_unat [OF assms(1)] range_end_unat [OF assms(2)]
  by (simp add: free_range_dir_def word_nat chunk_beg_def)

lemma rb_next_erase:
  assumes "rb_entry n = Some x" "rb_right_of n = y # ys" "rb_valid (rb_root_of n)"
  shows "\<exists>n' t'. rb_next n = Some n' \<and> rb_entry n' = Some y \<and> rb_erase n' = Some t' \<and> rb_valid t' \<and>
           rb_inorder t' = rb_left_of n @ x # ys"
proof -
  from rb_next_end [OF assms(1)] assms(2) obtain n' where n': "rb_next n = Some n'" by (cases "rb_next n") auto
  from rb_next_pos [OF assms(1) n'] assms(2) have "rb_entry n' = Some y" "rb_root_of n' = rb_root_of n"
    "rb_left_of n' = rb_left_of n @ [x]" "rb_right_of n' = ys" by auto
  with rb_erase_locus_ok [of n' y] assms(3) n' show ?thesis by auto
qed

lemma rb_prev_erase:
  assumes "rb_entry n = Some x" "rb_left_of n = ys @ [y]" "rb_valid (rb_root_of n)"
  shows "\<exists>n' t'. rb_prev n = Some n' \<and> rb_entry n' = Some y \<and> rb_erase n' = Some t' \<and> rb_valid t' \<and>
           rb_inorder t' = ys @ x # rb_right_of n"
proof -
  from rb_prev_end [OF assms(1)] assms(2) obtain n' where n': "rb_prev n = Some n'" by (cases "rb_prev n") auto
  from rb_prev_pos [OF assms(1) n'] assms(2) have "rb_entry n' = Some y" "rb_root_of n' = rb_root_of n"
    "rb_left_of n' = ys" "rb_right_of n' = x # rb_right_of n" by auto
  with rb_erase_locus_ok [of n' y] assms(3) n' show ?thesis by auto
qed

text \<open>The two extensions, on the sequence of chunks.\<close>

lemma free_range_extend_right_eq:
  assumes n: "rb_entry n = Some c" "rb_valid (rb_root_of n)"
    and c': "c' = c\<lparr>fc_size := fc_size c + sz\<rparr>"
  shows "\<exists>t'. free_range_extend_right n c sz = Some (0, t') \<and> rb_valid t' \<and>
     rb_inorder t' = rb_left_of n @
       (case rb_right_of n of
          [] \<Rightarrow> [c']
        | r # rs \<Rightarrow> if fc_addr c' + fc_size c' = fc_addr r
                    then c'\<lparr>fc_size := fc_size c' + fc_size r\<rparr> # rs else c' # r # rs)"
proof (cases "rb_right_of n")
  case Nil
  with n have "rb_next (rb_replace_node n c') = None"
    using rb_next_end [OF rb_replace_node_entry, of n c c'] by simp
  with n Nil show ?thesis
    by (simp add: free_range_extend_right_def c' [symmetric] rb_replace_node_inorder)
next
  case (Cons r rs)
  note e = rb_replace_node_entry [OF n(1)]
  from rb_next_erase [OF e, of c' r rs] n Cons obtain n1 where
    n1: "rb_next (rb_replace_node n c') = Some n1" "rb_entry n1 = Some r" by auto
  define c2 where "c2 = c'\<lparr>fc_size := fc_size c' + fc_size r\<rparr>"
  from rb_next_erase [OF rb_replace_node_entry [OF e [of c'], of c2], of r rs] n Cons obtain n2 t2 where
    n2: "rb_next (rb_replace_node (rb_replace_node n c') c2) = Some n2" "rb_erase n2 = Some t2" "rb_valid t2"
      "rb_inorder t2 = rb_left_of n @ c2 # rs" by auto
  show ?thesis
    using n n1 n2 Cons
    by (simp add: free_range_extend_right_def c' [symmetric] c2_def [symmetric] Let_def
        rb_replace_node_inorder)
qed

lemma free_range_extend_left_eq:
  assumes n: "rb_entry n = Some c" "rb_valid (rb_root_of n)"
    and c': "c' = c\<lparr>fc_addr := fc_addr c - sz, fc_size := fc_size c + sz\<rparr>"
    and ls: "rb_left_of n = ls"
  shows "\<exists>t'. free_range_extend_left n c sz = Some (0, t') \<and> rb_valid t' \<and>
     rb_inorder t' =
       (if ls \<noteq> [] \<and> fc_addr (last ls) + fc_size (last ls) = fc_addr c'
        then butlast ls @ [c'\<lparr>fc_addr := fc_addr c' - fc_size (last ls), fc_size := fc_size c' + fc_size (last ls)\<rparr>]
        else ls @ [c']) @ rb_right_of n"
proof (cases ls rule: rev_cases)
  case Nil
  with n ls have "rb_prev (rb_replace_node n c') = None"
    using rb_prev_end [OF rb_replace_node_entry, of n c c'] by simp
  with n ls Nil show ?thesis
    by (simp add: free_range_extend_left_def c' [symmetric] rb_replace_node_inorder)
next
  case (snoc ls' l)
  note e = rb_replace_node_entry [OF n(1)]
  from rb_prev_erase [OF e, of c' ls' l] n ls snoc obtain n1 where
    n1: "rb_prev (rb_replace_node n c') = Some n1" "rb_entry n1 = Some l" by auto
  define c2 where "c2 = c'\<lparr>fc_addr := fc_addr c' - fc_size l, fc_size := fc_size c' + fc_size l\<rparr>"
  from rb_prev_erase [OF rb_replace_node_entry [OF e [of c'], of c2], of ls' l] n ls snoc obtain n2 t2 where
    n2: "rb_prev (rb_replace_node (rb_replace_node n c') c2) = Some n2" "rb_erase n2 = Some t2" "rb_valid t2"
      "rb_inorder t2 = ls' @ c2 # rb_right_of n" by auto
  show ?thesis
    using n n1 n2 ls snoc
    by (simp add: free_range_extend_left_def c' [symmetric] c2_def [symmetric] Let_def
        rb_replace_node_inorder)
qed

text \<open>The chunks around a range to be freed: \<open>ls\<close> holds the chunk that ends at \<open>a\<close>, if any,
  \<open>rs\<close> the one that begins at \<open>e\<close>, if any.\<close>

definition chunks_around :: "nat \<Rightarrow> nat \<Rightarrow> free_chunk list \<Rightarrow> free_chunk list \<Rightarrow> free_chunk list \<Rightarrow> free_chunk list \<Rightarrow> bool" where
  "chunks_around a e as ls rs bs \<longleftrightarrow> chunks_ok (as @ ls @ rs @ bs) \<and> 0 < a \<and> a < e \<and> e \<le> PHYS_LIMIT \<and>
     (\<forall>c \<in> set as. chunk_lim c < a) \<and> (\<forall>c \<in> set bs. e < chunk_beg c) \<and>
     (ls = [] \<or> (\<exists>l. ls = [l] \<and> chunk_lim l = a)) \<and> (rs = [] \<or> (\<exists>r. rs = [r] \<and> chunk_beg r = e))"

definition merged_beg :: "nat \<Rightarrow> free_chunk list \<Rightarrow> nat" where
  "merged_beg a ls = (case ls of [] \<Rightarrow> a | l # _ \<Rightarrow> chunk_beg l)"

definition merged_lim :: "nat \<Rightarrow> free_chunk list \<Rightarrow> nat" where
  "merged_lim e rs = (case rs of [] \<Rightarrow> e | r # _ \<Rightarrow> chunk_lim r)"

lemma chunks_merge:
  assumes "chunks_around a e as ls rs bs" "chunk_beg m = merged_beg a ls" "chunk_lim m = merged_lim e rs"
  shows "chunks_ok (as @ m # bs)" "chunks_bytes (as @ m # bs) = chunks_bytes (as @ ls @ rs @ bs) \<union> {a..<e}"
proof -
  have around: "0 < a" "a < e" "e \<le> PHYS_LIMIT" "\<forall>c \<in> set as. chunk_lim c < a" "\<forall>c \<in> set bs. e < chunk_beg c"
    "chunks_ok (as @ ls @ rs @ bs)"
    using assms(1) by (auto simp: chunks_around_def)
  consider "ls = []" "rs = []" | l where "ls = [l]" "chunk_lim l = a" "rs = []"
    | r where "ls = []" "rs = [r]" "chunk_beg r = e" | l r where "ls = [l]" "chunk_lim l = a" "rs = [r]" "chunk_beg r = e"
    using assms(1) by (auto simp: chunks_around_def)
  note cs = this
  from cs show "chunks_ok (as @ m # bs)"
  proof cases
    case 1 with around assms(2,3) show ?thesis by (auto simp: merged_beg_def merged_lim_def chunk_ok_def)
  next
    case 2 with around assms(2,3) show ?thesis by (auto simp: merged_beg_def merged_lim_def chunk_ok_def)
  next
    case 3 with around assms(2,3) show ?thesis by (auto simp: merged_beg_def merged_lim_def chunk_ok_def)
  next
    case 4 with around assms(2,3) show ?thesis by (auto simp: merged_beg_def merged_lim_def chunk_ok_def)
  qed
  from cs show "chunks_bytes (as @ m # bs) = chunks_bytes (as @ ls @ rs @ bs) \<union> {a..<e}"
  proof cases
    case 1 with assms(2,3) show ?thesis by (auto simp: merged_beg_def merged_lim_def chunk_bytes_def)
  next
    case 2 with around assms(2,3) show ?thesis by (auto simp: merged_beg_def merged_lim_def chunk_bytes_def chunk_ok_def)
  next
    case 3 with around assms(2,3) show ?thesis by (auto simp: merged_beg_def merged_lim_def chunk_bytes_def chunk_ok_def)
  next
    case 4 with around assms(2,3) show ?thesis by (auto simp: merged_beg_def merged_lim_def chunk_bytes_def chunk_ok_def)
  qed
qed

lemma chunks_around_dir:
  assumes "chunks_around (unat addr) (unat addr + unat sz) as ls rs bs"
  shows "\<forall>c \<in> set as. free_range_dir addr sz c = GoRight" "\<forall>c \<in> set bs. free_range_dir addr sz c = GoLeft"
    "\<forall>c \<in> set (ls @ rs). free_range_dir addr sz c = Stop"
proof -
  let ?cs = "as @ ls @ rs @ bs"
  have lim: "unat addr + unat sz \<le> PHYS_LIMIT" and ok: "chunks_ok ?cs" using assms by (auto simp: chunks_around_def)
  have dir: "free_range_dir addr sz c =
     (if chunk_beg c \<le> unat addr \<and> unat addr < chunk_lim c then Stop
      else if chunk_lim c = unat addr then Stop
      else if unat addr + unat sz = chunk_beg c then Stop
      else if unat addr < chunk_beg c then GoLeft else GoRight)" "chunk_beg c < chunk_lim c" if "c \<in> set ?cs" for c
    using free_range_dir_nat [OF chunks_ok_chunk [OF ok that] lim] chunks_ok_chunk [OF ok that] by (auto simp: chunk_ok_def)
  have around: "\<forall>c \<in> set as. chunk_lim c < unat addr" "\<forall>c \<in> set bs. unat addr + unat sz < chunk_beg c"
    "\<forall>c \<in> set ls. chunk_lim c = unat addr" "\<forall>c \<in> set rs. chunk_beg c = unat addr + unat sz"
    using assms by (auto simp: chunks_around_def)
  show "\<forall>c \<in> set as. free_range_dir addr sz c = GoRight"
  proof
    fix c assume c: "c \<in> set as"
    then have "chunk_lim c < unat addr" using around(1) by blast
    with c dir [of c] show "free_range_dir addr sz c = GoRight" by (simp split: if_splits)
  qed
  show "\<forall>c \<in> set bs. free_range_dir addr sz c = GoLeft"
  proof
    fix c assume c: "c \<in> set bs"
    then have "unat addr + unat sz < chunk_beg c" using around(2) by blast
    with c dir [of c] show "free_range_dir addr sz c = GoLeft" by (simp split: if_splits)
  qed
  show "\<forall>c \<in> set (ls @ rs). free_range_dir addr sz c = Stop"
  proof
    fix c assume "c \<in> set (ls @ rs)"
    with around(3,4) dir [of c] show "free_range_dir addr sz c = Stop" by auto
  qed
qed

lemma free_range_insert:
  assumes "rb_valid t" "rb_inorder t = as @ bs"
    and "chunks_around (unat addr) (unat addr + unat sz) as [] [] bs"
  shows "\<exists>t' m. page_alloc_rbtree_free_range t addr sz = Some (0, t') \<and> rb_valid t' \<and> rb_inorder t' = as @ m # bs \<and>
           chunk_beg m = unat addr \<and> chunk_lim m = unat addr + unat sz"
proof -
  let ?m = "\<lparr>fc_addr = addr, fc_size = sz\<rparr>"
  from rb_descend_gap [OF assms(2) chunks_around_dir(1,2) [OF assms(3)], of "[]"]
  obtain path where p: "rb_descend (free_range_dir addr sz) t [] = (RB_Null, path)"
    "rb_before path = as" "rb_after path = bs" by auto
  from rb_descend_null_root(1) [OF p(1)] assms(1) rb_insert_at_ok [of path ?m] p obtain t' where
    "rb_insert_color (rb_link_node ?m, path) = Some t'" "rb_valid t'" "rb_inorder t' = as @ ?m # bs"
    by (auto simp: rb_insert_at_def)
  with p show ?thesis
    by (intro exI [of _ t'] exI [of _ ?m]) (simp add: page_alloc_rbtree_free_range_def chunk_beg_def chunk_lim_def)
qed

lemma free_range_right_of:
  assumes n: "rb_entry n = Some l" "rb_valid (rb_root_of n)" "rb_left_of n = as" "rb_right_of n = rs @ bs"
    and around: "chunks_around (unat (addr::u64)) (unat addr + unat sz) as [l] rs bs"
  shows "\<exists>t' m. free_range_extend_right n l sz = Some (0, t') \<and> rb_valid t' \<and> rb_inorder t' = as @ m # bs \<and>
           chunk_beg m = chunk_beg l \<and> chunk_lim m = merged_lim (unat addr + unat sz) rs"
proof -
  define c where "c = l\<lparr>fc_size := fc_size l + sz\<rparr>"
  have l: "chunk_ok l" "chunk_lim l = unat addr" and lim: "unat addr + unat sz \<le> PHYS_LIMIT"
    using around by (auto simp: chunks_around_def)
  then have "unat (fc_size l + sz) = unat (fc_size l) + unat sz"
    by (intro u64_add) (auto simp: chunk_lim_def PHYS_LIMIT_def)
  then have cc: "chunk_beg c = chunk_beg l" "chunk_lim c = unat addr + unat sz"
    using l(2) by (simp_all add: c_def chunk_beg_def chunk_lim_def)
  then have "chunk_ok c" using l lim by (auto simp: chunk_ok_def)
  then have ce: "unat (fc_addr c + fc_size c) = unat addr + unat sz" using chunk_end_unat cc by simp
  from free_range_extend_right_eq [OF n(1,2) c_def] obtain t' where
    t': "free_range_extend_right n l sz = Some (0, t')" "rb_valid t'"
      "rb_inorder t' = as @ (case rs @ bs of [] \<Rightarrow> [c]
        | r # rs \<Rightarrow> if fc_addr c + fc_size c = fc_addr r then c\<lparr>fc_size := fc_size c + fc_size r\<rparr> # rs else c # r # rs)"
    using n(3,4) by auto
  show ?thesis
  proof (cases rs)
    case Nil
    have "fc_addr c + fc_size c \<noteq> fc_addr b" if "b \<in> set bs" for b
      using around that ce by (auto simp: chunks_around_def chunk_beg_def word_nat)
    with t' Nil cc show ?thesis
      by (intro exI [of _ t'] exI [of _ c]) (auto simp: merged_lim_def split: list.splits)
  next
    case (Cons r rs')
    with around have r: "rs = [r]" "chunk_beg r = unat addr + unat sz" "chunk_ok r" by (auto simp: chunks_around_def)
    then have eq: "fc_addr c + fc_size c = fc_addr r" using ce by (simp add: chunk_beg_def word_nat)
    let ?m = "c\<lparr>fc_size := fc_size c + fc_size r\<rparr>"
    have "unat (fc_size c + fc_size r) = unat (fc_size c) + unat (fc_size r)"
      using r cc by (intro u64_add) (auto simp: chunk_ok_def chunk_lim_def chunk_beg_def PHYS_LIMIT_def)
    with r cc have "chunk_beg ?m = chunk_beg l" "chunk_lim ?m = chunk_lim r"
      by (simp_all add: chunk_beg_def chunk_lim_def)
    with t' r eq show ?thesis by (intro exI [of _ t'] exI [of _ ?m]) (simp add: merged_lim_def)
  qed
qed

lemma free_range_left_of:
  assumes n: "rb_entry n = Some r" "rb_valid (rb_root_of n)" "rb_left_of n = as @ ls" "rb_right_of n = bs"
    and around: "chunks_around (unat (addr::u64)) (unat addr + unat sz) as ls [r] bs"
  shows "\<exists>t' m. free_range_extend_left n r sz = Some (0, t') \<and> rb_valid t' \<and> rb_inorder t' = as @ m # bs \<and>
           chunk_beg m = merged_beg (unat addr) ls \<and> chunk_lim m = chunk_lim r"
proof -
  define c where "c = r\<lparr>fc_addr := fc_addr r - sz, fc_size := fc_size r + sz\<rparr>"
  have r: "chunk_ok r" "chunk_beg r = unat addr + unat sz"
    using around by (auto simp: chunks_around_def)
  then have "unat (fc_size r + sz) = unat (fc_size r) + unat sz" "unat (fc_addr r - sz) = unat addr"
    by (auto simp: u64_add u64_sub chunk_ok_def chunk_lim_def chunk_beg_def PHYS_LIMIT_def word_nat)
  then have cc: "chunk_beg c = unat addr" "chunk_lim c = chunk_lim r"
    using r(2) by (simp_all add: c_def chunk_beg_def chunk_lim_def)
  then have ca: "fc_addr c = addr" by (simp add: chunk_beg_def word_nat)
  from free_range_extend_left_eq [OF n(1,2) c_def refl] obtain t' where
    t': "free_range_extend_left n r sz = Some (0, t')" "rb_valid t'"
      "rb_inorder t' = (if as @ ls \<noteq> [] \<and> fc_addr (last (as @ ls)) + fc_size (last (as @ ls)) = addr
        then butlast (as @ ls) @ [c\<lparr>fc_addr := addr - fc_size (last (as @ ls)), fc_size := fc_size c + fc_size (last (as @ ls))\<rparr>]
        else as @ ls @ [c]) @ bs"
    using n(3,4) ca by (auto simp: ca)
  show ?thesis
  proof (cases ls)
    case Nil
    have "fc_addr b + fc_size b \<noteq> addr" if "b \<in> set as" for b
    proof -
      have "chunk_ok b" "chunk_lim b < unat addr" using around that chunks_ok_chunk [of as b] by (auto simp: chunks_around_def)
      then show ?thesis using chunk_end_unat [of b] by (auto simp: word_nat)
    qed
    then have "\<not> (as \<noteq> [] \<and> fc_addr (last as) + fc_size (last as) = addr)" using last_in_set [of as] by blast
    with t' Nil cc show ?thesis
      by (intro exI [of _ t'] exI [of _ c]) (simp add: merged_beg_def)
  next
    case (Cons l ls')
    with around have l: "ls = [l]" "chunk_lim l = unat addr" "chunk_ok l" by (auto simp: chunks_around_def)
    then have eq: "fc_addr l + fc_size l = addr" using chunk_end_unat [of l] by (simp add: word_nat)
    let ?m = "c\<lparr>fc_addr := addr - fc_size l, fc_size := fc_size c + fc_size l\<rparr>"
    have "unat (fc_size c + fc_size l) = unat (fc_size c) + unat (fc_size l)"
      using l r cc by (intro u64_add) (auto simp: chunk_ok_def chunk_lim_def chunk_beg_def PHYS_LIMIT_def)
    moreover have "addr - fc_size l = fc_addr l" using eq by (simp add: algebra_simps)
    ultimately have "chunk_beg ?m = chunk_beg l" "chunk_lim ?m = chunk_lim r"
      using l cc by (simp_all add: chunk_beg_def chunk_lim_def)
    with t' l eq show ?thesis by (intro exI [of _ t'] exI [of _ ?m]) (simp add: merged_beg_def butlast_append)
  qed
qed

lemma free_range_merge:
  assumes "rb_valid t" "rb_inorder t = as @ ls @ rs @ bs"
    and around: "chunks_around (unat addr) (unat addr + unat sz) as ls rs bs"
  shows "\<exists>t' m. page_alloc_rbtree_free_range t addr sz = Some (0, t') \<and> rb_valid t' \<and> rb_inorder t' = as @ m # bs \<and>
           chunk_beg m = merged_beg (unat addr) ls \<and> chunk_lim m = merged_lim (unat addr + unat sz) rs"
proof (cases "ls @ rs = []")
  case True
  with assms free_range_insert [of t as bs addr sz] show ?thesis by (simp add: merged_beg_def merged_lim_def)
next
  case False
  let ?n = "rb_descend (free_range_dir addr sz) t []"
  have "rb_inorder t = as @ (ls @ rs) @ bs" using assms(2) by simp
  from rb_descend_span [OF this False chunks_around_dir(1) [OF around] chunks_around_dir(3) [OF around]
      chunks_around_dir(2) [OF around], of "[]"]
  obtain x ms1 ms2 where n: "rb_entry ?n = Some x" "ls @ rs = ms1 @ x # ms2" "rb_left_of ?n = as @ ms1" "rb_right_of ?n = ms2 @ bs"
    by auto
  have v: "rb_valid (rb_root_of ?n)" using assms(1) rb_descend_root [of "free_range_dir addr sz" t "[]"] by simp
  have ends: "\<forall>l \<in> set ls. fc_addr l + fc_size l = addr" "\<forall>r \<in> set rs. \<not> fc_addr r \<le> addr \<and> fc_addr r + fc_size r \<noteq> addr"
    using around chunk_end_unat by (auto simp: chunks_around_def word_nat chunk_ok_def chunk_beg_def)
  from around n(2) consider "ls = [x]" "ms1 = []" "ms2 = rs" | "rs = [x]" "ms1 = ls" "ms2 = []"
    by (auto simp: chunks_around_def append_eq_Cons_conv Cons_eq_append_conv)
  then show ?thesis
  proof cases
    case 1
    then have "page_alloc_rbtree_free_range t addr sz = free_range_extend_right ?n x sz"
      using n(1) ends(1) by (simp add: page_alloc_rbtree_free_range_def)
    with free_range_right_of [OF n(1) v, of as rs bs addr sz] n(3,4) around 1 show ?thesis
      by (simp add: merged_beg_def)
  next
    case 2
    then have "page_alloc_rbtree_free_range t addr sz = free_range_extend_left ?n x sz"
      using n(1) ends(2) by (simp add: page_alloc_rbtree_free_range_def)
    with free_range_left_of [OF n(1) v, of as ls bs addr sz] n(3,4) around 2 show ?thesis
      by (simp add: merged_lim_def)
  qed
qed

lemma free_range_ok:
  assumes "free_tree_ok t" "0 < unat addr" "0 < unat sz" "unat addr + unat sz \<le> PHYS_LIMIT"
    and disj: "free_bytes t \<inter> {unat addr ..< unat addr + unat sz} = {}"
  shows "\<exists>t'. page_alloc_rbtree_free_range t addr sz = Some (0, t') \<and> free_tree_ok t' \<and>
           free_bytes t' = free_bytes t \<union> {unat addr ..< unat addr + unat sz}"
proof -
  let ?a = "unat addr" and ?e = "unat addr + unat sz"
  have ok: "rb_valid t" "chunks_ok (rb_inorder t)" using assms(1) by (simp_all add: free_tree_ok_def)
  have "chunk_lim c \<le> ?a \<or> ?e \<le> chunk_beg c" if "c \<in> set (rb_inorder t)" for c
  proof (rule ccontr)
    assume "\<not> ?thesis"
    with chunks_ok_chunk [OF ok(2) that] assms(3) have "max (chunk_beg c) ?a \<in> chunk_bytes c \<inter> {?a ..< ?e}"
      by (auto simp: chunk_bytes_def chunk_ok_def)
    moreover have "chunk_bytes c \<subseteq> free_bytes t" using that by (auto simp: free_bytes_def chunks_bytes_def)
    ultimately show False using disj by blast
  qed
  then have "\<forall>c \<in> set (rb_inorder t). chunk_lim c \<le> ?a \<or> ?e \<le> chunk_beg c" by blast
  from chunks_split [OF ok(2) _ this] assms(3) obtain as ls rs bs where s: "rb_inorder t = as @ ls @ rs @ bs"
    "\<forall>c \<in> set as. chunk_lim c < ?a" "\<forall>c \<in> set bs. ?e < chunk_beg c"
    "ls = [] \<or> (\<exists>l. ls = [l] \<and> chunk_lim l = ?a)" "rs = [] \<or> (\<exists>r. rs = [r] \<and> chunk_beg r = ?e)"
    by (metis less_add_same_cancel1)
  with ok(2) assms have around: "chunks_around ?a ?e as ls rs bs" by (simp add: chunks_around_def)
  from free_range_merge [OF ok(1) s(1) around] obtain t' m where
    t': "page_alloc_rbtree_free_range t addr sz = Some (0, t')" "rb_valid t'" "rb_inorder t' = as @ m # bs"
    and m: "chunk_beg m = merged_beg ?a ls" "chunk_lim m = merged_lim ?e rs" by blast
  from chunks_merge [OF around m] t' s(1) show ?thesis by (auto simp: free_tree_ok_def free_bytes_def)
qed

text \<open>A range that lies inside a free chunk is not freed again.\<close>

lemma free_range_double:
  assumes "free_tree_ok t" "0 < unat sz" "unat addr + unat sz \<le> PHYS_LIMIT"
    and sub: "{unat addr ..< unat addr + unat sz} \<subseteq> free_bytes t"
  shows "page_alloc_rbtree_free_range t addr sz = Some (EINVAL, t)"
proof -
  let ?a = "unat addr" and ?e = "unat addr + unat sz"
  have ok: "chunks_ok (rb_inorder t)" using assms(1) by (simp add: free_tree_ok_def)
  from chunks_range_in_one [OF ok _ sub [unfolded free_bytes_def]] assms(2) obtain c where
    c: "c \<in> set (rb_inorder t)" "chunk_beg c \<le> ?a" "?e \<le> chunk_lim c" by auto
  then obtain as bs where s: "rb_inorder t = as @ [c] @ bs" by (auto simp: in_set_conv_decomp)
  have okc: "chunk_ok x" if "x \<in> set (rb_inorder t)" for x using chunks_ok_chunk [OF ok that] .
  have as: "free_range_dir addr sz x = GoRight" if "x \<in> set as" for x
  proof -
    have "chunk_lim x < chunk_beg c" "chunk_ok x" using that ok okc [of x] s by auto
    then show ?thesis using free_range_dir_nat [OF _ assms(3)] c assms(2) by (auto simp: chunk_ok_def)
  qed
  have bs: "free_range_dir addr sz x = GoLeft" if "x \<in> set bs" for x
  proof -
    have "chunk_lim c < chunk_beg x" "chunk_ok x" using that ok okc [of x] s by auto
    then show ?thesis using free_range_dir_nat [OF _ assms(3)] c assms(2) by (auto simp: chunk_ok_def)
  qed
  have "free_range_dir addr sz c = Stop"
    using free_range_dir_nat [OF okc [OF c(1)] assms(3)] c assms(2) by simp
  with rb_descend_span [OF s, of "free_range_dir addr sz" "[]"] as bs
  have "rb_entry (rb_descend (free_range_dir addr sz) t []) = Some c" by (auto simp: Cons_eq_append_conv)
  moreover have "fc_addr c \<le> addr" "addr < fc_addr c + fc_size c"
    using c assms(2) chunk_end_unat [OF okc [OF c(1)]] by (auto simp: word_nat chunk_beg_def)
  ultimately show ?thesis by (simp add: page_alloc_rbtree_free_range_def)
qed

subsection \<open>Allocating a range\<close>

lemma rb_replace_node_twice [simp]: "rb_replace_node (rb_replace_node n x) y = rb_replace_node n y"
  by (cases n rule: rb_entry.cases) auto

lemma chunks_mem_split:
  assumes "rb_entry n = Some c" "free_tree_ok (rb_root_of n)"
  shows "chunks_ok (rb_left_of n @ c # rb_right_of n)" "rb_inorder (rb_root_of n) = rb_left_of n @ c # rb_right_of n"
  using rb_inorder_root [OF assms(1)] assms(2) by (simp_all add: free_tree_ok_def)

lemma chunks_cut:
  assumes "chunks_ok (as @ c # bs)" "chunk_beg c \<le> chunk_beg m" "chunk_beg m < chunk_lim m" "chunk_lim m \<le> chunk_lim c"
  shows "chunks_ok (as @ m # bs)"
  using assms by (auto simp: chunk_ok_def intro: less_le_trans le_less_trans)

lemma chunks_bytes_cut:
  assumes "chunks_ok (as @ c # bs)" "B \<subseteq> chunk_bytes c"
  shows "chunks_bytes (as @ c # bs) - B = chunks_bytes as \<union> (chunk_bytes c - B) \<union> chunks_bytes bs"
proof -
  have "chunks_bytes as \<inter> chunk_bytes c = {}" "chunks_bytes bs \<inter> chunk_bytes c = {}"
    using assms(1) by (fastforce simp: chunks_bytes_def chunk_bytes_def)+
  with assms(2) show ?thesis by auto
qed

lemma mark_range_allocated_ok:
  assumes n: "rb_entry n = Some c" "free_tree_ok (rb_root_of n)"
    and r: "chunk_beg c \<le> unat addr" "unat addr + unat sz \<le> chunk_lim c" "0 < unat sz"
  shows "\<exists>t'. page_alloc_rbtree_mark_range_allocated n addr sz = Some (0, t') \<and> free_tree_ok t' \<and>
           free_bytes t' = free_bytes (rb_root_of n) - {unat addr ..< unat addr + unat sz}"
proof -
  let ?as = "rb_left_of n" and ?bs = "rb_right_of n" and ?a = "unat addr" and ?e = "unat addr + unat sz"
  note in_order = chunks_mem_split [OF n]
  have c: "chunk_ok c" using in_order(1) by simp
  have lim: "?e \<le> PHYS_LIMIT" using r(2) c by (simp add: chunk_ok_def)
  have e: "unat (addr + sz) = ?e" "unat (fc_addr c + fc_size c) = chunk_lim c"
    using range_end_unat [OF lim] chunk_end_unat [OF c] .
  have bytes: "free_bytes (rb_root_of n) - {?a ..< ?e} = chunks_bytes ?as \<union> (chunk_bytes c - {?a ..< ?e}) \<union> chunks_bytes ?bs"
    using chunks_bytes_cut [OF in_order(1), of "{?a ..< ?e}"] r in_order(2) by (simp add: free_bytes_def chunk_bytes_def)
  define left where "left = c\<lparr>fc_size := addr - fc_addr c\<rparr>"
  define right where "right = \<lparr>fc_addr = addr + sz, fc_size = (fc_addr c + fc_size c) - (addr + sz)\<rparr>"
  have left: "chunk_beg left = chunk_beg c" "chunk_lim left = ?a"
    using r(1) by (simp_all add: left_def chunk_beg_def chunk_lim_def u64_sub word_nat)
  have right: "chunk_beg right = ?e" "chunk_lim right = chunk_lim c"
    using r(2) e by (simp_all add: right_def chunk_beg_def chunk_lim_def u64_sub word_nat)
  have v: "rb_valid (rb_root_of (rb_replace_node n m))" "rb_inorder (rb_root_of (rb_replace_node n m)) = ?as @ m # ?bs" for m
    using n rb_replace_node_inorder [OF n(1)] by (simp_all add: free_tree_ok_def)
  have conds: "addr + sz < fc_addr c + fc_size c \<longleftrightarrow> ?e < chunk_lim c" "addr \<noteq> fc_addr c \<longleftrightarrow> chunk_beg c < ?a"
    using e r(1) by (auto simp: word_nat chunk_beg_def)
  note mark = page_alloc_rbtree_mark_range_allocated_def n(1) Let_def conds left_def [symmetric] right_def [symmetric]
  consider (both) "chunk_beg c < ?a" "?e < chunk_lim c" | (left_only) "chunk_beg c < ?a" "?e = chunk_lim c"
    | (right_only) "chunk_beg c = ?a" "?e < chunk_lim c" | (exact) "chunk_beg c = ?a" "?e = chunk_lim c"
    using r by linarith
  then show ?thesis
  proof cases
    case both
    let ?t1 = "rb_root_of (rb_replace_node n left)"
    have t1: "free_tree_ok ?t1" using v [of left] chunks_cut [OF in_order(1), of left] left both r(3) by (simp add: free_tree_ok_def)
    have b1: "free_bytes ?t1 = chunks_bytes ?as \<union> {chunk_beg c ..< ?a} \<union> chunks_bytes ?bs"
      using v(2) [of left] left by (auto simp: free_bytes_def chunk_bytes_def)
    have eqs: "unat (fc_addr right) = ?e" "unat (fc_addr right) + unat (fc_size right) = chunk_lim c"
      using right by (simp_all add: chunk_beg_def chunk_lim_def)
    have disj: "free_bytes ?t1 \<inter> {?e ..< chunk_lim c} = {}"
    proof -
      have "free_bytes ?t1 \<subseteq> free_bytes (rb_root_of n) - {?e ..< chunk_lim c}"
        using chunks_bytes_cut [OF in_order(1), of "{?e ..< chunk_lim c}"] in_order(2) both r(3) b1
        by (auto simp: free_bytes_def chunk_bytes_def)
      then show ?thesis by blast
    qed
    have pos: "0 < unat (fc_addr right)" "0 < unat (fc_size right)" "unat (fc_addr right) + unat (fc_size right) \<le> PHYS_LIMIT"
      using eqs both c by (auto simp: chunk_ok_def)
    from free_range_ok [OF t1 pos] eqs disj obtain t' where
      "page_alloc_rbtree_free_range ?t1 (fc_addr right) (fc_size right) = Some (0, t')" "free_tree_ok t'"
      "free_bytes t' = free_bytes ?t1 \<union> {?e ..< chunk_lim c}" by auto
    with both b1 bytes r show ?thesis by (auto simp: mark chunk_bytes_def)
  next
    case left_only
    with v [of left] chunks_cut [OF in_order(1), of left] left r(3) bytes show ?thesis
      by (auto simp: mark free_tree_ok_def free_bytes_def chunk_bytes_def)
  next
    case right_only
    with v [of right] chunks_cut [OF in_order(1), of right] right r(3) bytes show ?thesis
      by (auto simp: mark free_tree_ok_def free_bytes_def chunk_bytes_def)
  next
    case exact
    with rb_erase_locus_ok [OF _ rb_replace_node_entry [OF n(1), of left]] v [of left] obtain t' where
      "rb_erase (rb_replace_node n left) = Some t'" "rb_valid t'" "rb_inorder t' = ?as @ ?bs" by auto
    with exact bytes in_order(1) show ?thesis
      by (auto simp: mark free_tree_ok_def free_bytes_def chunk_bytes_def)
  qed
qed

lemma rb_search_first:
  shows "rb_for_each P (rb_first t) = None \<longleftrightarrow> (\<forall>x \<in> set (rb_inorder t). \<not> P x)"
    and "rb_for_each P (rb_first t) = Some n \<Longrightarrow>
           \<exists>x. rb_entry n = Some x \<and> P x \<and> rb_root_of n = t \<and> (\<forall>y \<in> set (rb_left_of n). \<not> P y)"
proof -
  show found: "\<exists>x. rb_entry n = Some x \<and> P x \<and> rb_root_of n = t \<and> (\<forall>y \<in> set (rb_left_of n). \<not> P y)"
    if "rb_for_each P (rb_first t) = Some n" for n
  proof -
    from that obtain m where m: "rb_first t = Some m" by (cases "rb_first t") auto
    from rb_first_pos(2) [OF m] rb_for_each_Some [OF that m] show ?thesis by auto
  qed
  show "rb_for_each P (rb_first t) = None \<longleftrightarrow> (\<forall>x \<in> set (rb_inorder t). \<not> P x)"
  proof
    assume none: "rb_for_each P (rb_first t) = None"
    show "\<forall>x \<in> set (rb_inorder t). \<not> P x"
    proof (cases "rb_first t")
      case None
      then show ?thesis by (simp add: rb_first_pos(1))
    next
      case (Some m)
      from rb_first_pos(2) [OF Some] obtain x where x: "rb_entry m = Some x" "rb_root_of m = t" "rb_left_of m = []" by blast
      from rb_for_each_None [OF none Some x(1)] rb_inorder_root [OF x(1)] x(2,3) show ?thesis by simp
    qed
  next
    assume "\<forall>x \<in> set (rb_inorder t). \<not> P x"
    with found rb_inorder_root show "rb_for_each P (rb_first t) = None"
      by (cases "rb_for_each P (rb_first t)") fastforce+
  qed
qed

definition align_up :: "nat \<Rightarrow> nat \<Rightarrow> nat" where
  "align_up k a = (a + (2 ^ k - 1)) div 2 ^ k * 2 ^ k"

lemma align_up_dvd [simp]: "2 ^ k dvd align_up k a"
  by (simp add: align_up_def)

lemma align_up_ge: "a \<le> align_up k a"
proof -
  have "(a + (2 ^ k - 1)) mod 2 ^ k \<le> 2 ^ k - 1" by (simp add: Suc_leI less_Suc_eq_le [symmetric])
  moreover have "(a + (2 ^ k - 1)) div 2 ^ k * 2 ^ k + (a + (2 ^ k - 1)) mod 2 ^ k = a + (2 ^ k - 1)"
    by (rule div_mult_mod_eq)
  ultimately show ?thesis unfolding align_up_def by linarith
qed

lemma align_up_least: "a \<le> b \<Longrightarrow> 2 ^ k dvd b \<Longrightarrow> align_up k a \<le> b"
proof -
  assume "a \<le> b" "2 ^ k dvd b"
  then obtain q where b: "b = q * 2 ^ k" by (metis dvd_def mult.commute)
  have "(0::nat) < 2 ^ k" by simp
  with \<open>a \<le> b\<close> b have "a + (2 ^ k - 1) < q * 2 ^ k + 2 ^ k" by linarith
  then have "a + (2 ^ k - 1) < (q + 1) * 2 ^ k" by simp
  then have "(a + (2 ^ k - 1)) div 2 ^ k < q + 1" by (simp add: less_mult_imp_div_less)
  then show ?thesis unfolding align_up_def b by simp
qed

lemma aligned_addr_unat:
  assumes "chunk_ok c" "k \<le> 52"
  shows "unat ((fc_addr c + (2 ^ k - 1)) AND NOT (2 ^ k - 1)) = align_up k (chunk_beg c)"
proof -
  have "unat (2 ^ k :: u64) = 2 ^ k" using assms(2) by (simp add: u64_pow2)
  then have m: "unat (2 ^ k - 1 :: u64) = 2 ^ k - 1" by (simp add: u64_sub word_nat)
  have "(2::nat) ^ k \<le> 2 ^ 52" using assms(2) by (intro power_increasing) auto
  with m assms(1) have "unat (fc_addr c + (2 ^ k - 1)) = chunk_beg c + (2 ^ k - 1)"
    by (subst u64_add) (auto simp: chunk_ok_def chunk_beg_def PHYS_LIMIT_def chunk_lim_def)
  then show ?thesis unfolding u64_align_down align_up_def by simp
qed

lemma page_bytes_unat: "0 \<le> npages \<Longrightarrow> npages < 2 ^ 31 \<Longrightarrow> unat (PAGE_SIZE * word_of_int npages) = 4096 * nat npages"
proof -
  assume n: "0 \<le> npages" "npages < 2 ^ 31"
  then obtain m where m: "npages = int m" "m < 2 ^ 31" by (metis nat_0_le zless_nat_eq_int_zless of_nat_less_numeral_power_cancel_iff nat_int)
  then show ?thesis by (simp add: PAGE_SIZE_def unat_word_ariths unat_of_nat)
qed

lemma push_bit_page_size: "push_bit p2align PAGE_SIZE = 2 ^ (12 + p2align)"
  by (simp add: PAGE_SIZE_def push_bit_eq_mult power_add)

lemma chunk_fits_nat:
  assumes "chunk_ok c" "k \<le> 52" "unat sz \<le> 2 ^ 43"
  shows "chunk_fits sz (2 ^ k) (NOT (2 ^ k - 1)) c \<longleftrightarrow> align_up k (chunk_beg c) + unat sz \<le> chunk_lim c"
proof -
  let ?al = "(fc_addr c + (2 ^ k - 1)) AND NOT (2 ^ k - 1)"
  have "align_up k (chunk_beg c) \<le> chunk_beg c + (2 ^ k - 1)" by (simp add: align_up_def)
  moreover have "(2::nat) ^ k \<le> 2 ^ 52" using assms(2) by (intro power_increasing) auto
  ultimately have "align_up k (chunk_beg c) + unat sz < 2 ^ 64"
    using assms(1,3) by (auto simp: chunk_ok_def PHYS_LIMIT_def)
  then have "unat (?al + sz) = align_up k (chunk_beg c) + unat sz"
    using aligned_addr_unat [OF assms(1,2)] by (subst u64_add) auto
  then show ?thesis unfolding chunk_fits_def by (simp add: word_nat chunk_end_unat [OF assms(1)])
qed

text \<open>\<open>b\<close> is the start of a free range of \<open>npages\<close> pages with the requested alignment.\<close>

definition aligned_free :: "nat set \<Rightarrow> int \<Rightarrow> nat \<Rightarrow> nat \<Rightarrow> bool" where
  "aligned_free bytes npages p2align b \<longleftrightarrow>
     2 ^ (12 + p2align) dvd b \<and> {b ..< b + 4096 * nat npages} \<subseteq> bytes"

lemma alloc_pages_none:
  assumes "free_tree_ok t" "request_ok npages p2align" "\<forall>b. \<not> aligned_free (free_bytes t) npages p2align b"
  shows "page_alloc_rbtree_alloc_pages t npages p2align = Some (0, t)"
proof -
  let ?k = "12 + p2align" and ?sz = "PAGE_SIZE * word_of_int npages :: u64"
  have req: "0 < npages" "npages < 2 ^ 31" "?k \<le> 52" using assms(2) by (simp_all add: request_ok_def)
  have sz: "unat ?sz = 4096 * nat npages" "unat ?sz \<le> 2 ^ 43" using page_bytes_unat [of npages] req by simp_all
  have "\<not> chunk_fits ?sz (2 ^ ?k) (NOT (2 ^ ?k - 1)) c" if "c \<in> set (rb_inorder t)" for c
  proof
    assume fit: "chunk_fits ?sz (2 ^ ?k) (NOT (2 ^ ?k - 1)) c"
    have "chunk_ok c" using chunks_ok_chunk [of "rb_inorder t" c] that assms(1) by (simp add: free_tree_ok_def)
    from fit chunk_fits_nat [OF this req(3) sz(2)] have "align_up ?k (chunk_beg c) + unat ?sz \<le> chunk_lim c" by simp
    with that sz(1) align_up_ge [of "chunk_beg c" ?k] have "{align_up ?k (chunk_beg c) ..< align_up ?k (chunk_beg c) + 4096 * nat npages} \<subseteq> free_bytes t"
      by (force simp: free_bytes_def chunks_bytes_def chunk_bytes_def)
    with assms(3) show False by (simp add: aligned_free_def)
  qed
  then have "rb_for_each (chunk_fits ?sz (2 ^ ?k) (NOT (2 ^ ?k - 1))) (rb_first t) = None"
    by (simp add: rb_search_first(1))
  then show ?thesis by (simp add: page_alloc_rbtree_alloc_pages_def push_bit_page_size Let_def)
qed

lemma alloc_pages_found:
  assumes ok: "free_tree_ok t" and req: "request_ok npages p2align" and b: "aligned_free (free_bytes t) npages p2align b"
  shows "\<exists>a t'. page_alloc_rbtree_alloc_pages t npages p2align = Some (a, t') \<and> 0 < unat a \<and> unat a \<le> b \<and>
           aligned_free (free_bytes t) npages p2align (unat a) \<and> free_tree_ok t' \<and>
           free_bytes t' = free_bytes t - {unat a ..< unat a + 4096 * nat npages}"
proof -
  let ?k = "12 + p2align" and ?sz = "PAGE_SIZE * word_of_int npages :: u64"
  let ?P = "chunk_fits ?sz (2 ^ ?k) (NOT (2 ^ ?k - 1))"
  have req': "0 < npages" "npages < 2 ^ 31" "?k \<le> 52" using req by (simp_all add: request_ok_def)
  have sz: "unat ?sz = 4096 * nat npages" "unat ?sz \<le> 2 ^ 43" "0 < unat ?sz" using page_bytes_unat [of npages] req' by simp_all
  have cok: "chunks_ok (rb_inorder t)" using ok by (simp add: free_tree_ok_def)
  have fits: "?P c \<longleftrightarrow> align_up ?k (chunk_beg c) + 4096 * nat npages \<le> chunk_lim c" if "c \<in> set (rb_inorder t)" for c
    using chunk_fits_nat [OF chunks_ok_chunk [OF cok that] req'(3) sz(2)] sz(1) by simp
  from chunks_range_in_one [OF cok, of b "b + 4096 * nat npages"] b req'(1) obtain d where
    d: "d \<in> set (rb_inorder t)" "chunk_beg d \<le> b" "b + 4096 * nat npages \<le> chunk_lim d"
    by (auto simp: aligned_free_def free_bytes_def)
  have bd: "align_up ?k (chunk_beg d) \<le> b" using align_up_least [OF d(2)] b by (simp add: aligned_free_def)
  then have "?P d" using fits [OF d(1)] d(3) by simp
  with d(1) obtain n where n: "rb_for_each ?P (rb_first t) = Some n"
    using rb_search_first(1) [of ?P t] by (cases "rb_for_each ?P (rb_first t)") auto
  from rb_search_first(2) [OF n] obtain c where c: "rb_entry n = Some c" "?P c" "rb_root_of n = t" "\<forall>y \<in> set (rb_left_of n). \<not> ?P y"
    by blast
  have split: "rb_inorder t = rb_left_of n @ c # rb_right_of n" using rb_inorder_root [OF c(1)] c(3) by simp
  let ?a = "(fc_addr c + (2 ^ ?k - 1)) AND NOT (2 ^ ?k - 1)"
  have a: "unat ?a = align_up ?k (chunk_beg c)" using aligned_addr_unat [OF _ req'(3)] chunks_ok_chunk [OF cok, of c] split by simp
  have range: "chunk_beg c \<le> unat ?a" "unat ?a + unat ?sz \<le> chunk_lim c"
    using a align_up_ge [of "chunk_beg c" ?k] fits [of c] split c(2) sz(1) by simp_all
  have "d = c \<or> d \<in> set (rb_right_of n)" using d(1) split c(4) \<open>?P d\<close> by auto
  moreover have "chunk_lim c < chunk_beg d" if "d \<in> set (rb_right_of n)" using that cok split by simp
  ultimately have "unat ?a \<le> b" using bd a range(2) d(2) by auto
  moreover have "0 < chunk_beg c" using chunks_ok_chunk [OF cok, of c] split by (simp add: chunk_ok_def)
  moreover have "aligned_free (free_bytes t) npages p2align (unat ?a)"
    using range sz(1) split a by (auto simp: aligned_free_def free_bytes_def chunk_bytes_def)
  moreover obtain t' where "page_alloc_rbtree_mark_range_allocated n ?a ?sz = Some (0, t')" "free_tree_ok t'"
    "free_bytes t' = free_bytes t - {unat ?a ..< unat ?a + 4096 * nat npages}"
    using mark_range_allocated_ok [OF c(1) _ range sz(3)] ok c(3) sz(1) by auto
  ultimately show ?thesis using n c(1) range(1)
    by (intro exI [of _ ?a] exI [of _ t']) (simp add: page_alloc_rbtree_alloc_pages_def push_bit_page_size Let_def)
qed

lemma reserve_pages_ok:
  assumes ok: "free_tree_ok t" and "0 < npages" "npages < 2 ^ 31" "0 < unat addr" "unat addr \<le> PHYS_LIMIT"
  shows "if {unat addr ..< unat addr + 4096 * nat npages} \<subseteq> free_bytes t
         then \<exists>t'. page_alloc_rbtree_reserve_pages t addr npages = Some (addr, t') \<and> free_tree_ok t' \<and>
                free_bytes t' = free_bytes t - {unat addr ..< unat addr + 4096 * nat npages}
         else page_alloc_rbtree_reserve_pages t addr npages = Some (0, t)"
proof -
  let ?sz = "PAGE_SIZE * word_of_int npages :: u64"
  let ?P = "\<lambda>c. fc_addr c \<le> addr \<and> addr + ?sz \<le> fc_addr c + fc_size c"
  let ?R = "{unat addr ..< unat addr + 4096 * nat npages}"
  have sz: "unat ?sz = 4096 * nat npages" "0 < unat ?sz" using page_bytes_unat [of npages] assms by simp_all
  have cok: "chunks_ok (rb_inorder t)" using ok by (simp add: free_tree_ok_def)
  have e: "unat (addr + ?sz) = unat addr + 4096 * nat npages"
    using assms sz(1) by (subst u64_add) (auto simp: PHYS_LIMIT_def)
  have P: "?P c \<longleftrightarrow> chunk_beg c \<le> unat addr \<and> unat addr + 4096 * nat npages \<le> chunk_lim c" if "c \<in> set (rb_inorder t)" for c
    using chunk_end_unat [OF chunks_ok_chunk [OF cok that]] e by (simp add: word_nat chunk_beg_def)
  show ?thesis
  proof (cases "rb_for_each ?P (rb_first t)")
    case None
    then have "\<forall>c \<in> set (rb_inorder t). \<not> ?P c" using rb_search_first(1) [of ?P t] by simp
    then have "\<not> ?R \<subseteq> free_bytes t"
      using chunks_range_in_one [OF cok, of "unat addr" "unat addr + 4096 * nat npages"] P assms(2) by (auto simp: free_bytes_def)
    with None show ?thesis by (simp add: page_alloc_rbtree_reserve_pages_def Let_def)
  next
    case (Some n)
    from rb_search_first(2) [OF Some] obtain c where c: "rb_entry n = Some c" "?P c" "rb_root_of n = t" by blast
    then have mem: "c \<in> set (rb_inorder t)" using rb_inorder_root [OF c(1)] by simp
    from P [OF mem] c(2) have r: "chunk_beg c \<le> unat addr" "unat addr + unat ?sz \<le> chunk_lim c" using sz(1) by simp_all
    then have "?R \<subseteq> free_bytes t" using mem sz(1) by (force simp: free_bytes_def chunks_bytes_def chunk_bytes_def)
    moreover from mark_range_allocated_ok [OF c(1) _ r sz(2)] ok c(3) sz(1) obtain t' where
      "page_alloc_rbtree_mark_range_allocated n addr ?sz = Some (0, t')" "free_tree_ok t'" "free_bytes t' = free_bytes t - ?R" by auto
    ultimately show ?thesis using Some by (simp add: page_alloc_rbtree_reserve_pages_def Let_def)
  qed
qed

subsection \<open>The tree as an allocator\<close>

text \<open>\<open>npages << PAGE_SHIFT\<close> as the freeing code computes it: a shift of a 32-bit \<open>int\<close>, then the
  conversion to \<open>unsigned long\<close>.\<close>

definition int_page_bytes :: "int \<Rightarrow> u64" where
  "int_page_bytes npages = scast (push_bit PAGE_SHIFT (word_of_int npages :: 32 word))"

text \<open>The largest number of pages for which that is \<open>npages\<close> pages: just below 2 GiB.\<close>

definition INT_PAGES_MAX :: int where
  "INT_PAGES_MAX = 2 ^ 19 - 1"

lemma int_page_bytes_unat:
  assumes "0 \<le> n" "n \<le> INT_PAGES_MAX"
  shows "unat (int_page_bytes n) = 4096 * nat n"
proof -
  from assms obtain m where m: "n = int m" "m < 2 ^ 19" by (cases n) (auto simp: INT_PAGES_MAX_def)
  have u: "unat (push_bit PAGE_SHIFT (word_of_nat m :: 32 word)) = 4096 * m"
    using m(2) by (simp add: PAGE_SHIFT_def push_bit_eq_mult unat_word_ariths unat_of_nat)
  then have "int_page_bytes n = word_of_nat (4096 * m)"
    using m(2) scast_small [of "push_bit PAGE_SHIFT (word_of_nat m :: 32 word)"]
    by (simp only: int_page_bytes_def m(1) of_int_of_nat_eq) simp
  with m show ?thesis by (simp add: unat_word_ariths unat_of_nat)
qed

definition rbtree_dealloc :: "free_tree \<Rightarrow> u64 \<Rightarrow> int \<Rightarrow> free_tree option" where
  "rbtree_dealloc t a npages = map_option snd (page_alloc_rbtree_free_range t a (int_page_bytes npages))"

definition phys_bytes :: "free_tree \<Rightarrow> nat set" where
  "phys_bytes t = {1 ..< PHYS_LIMIT}"

lemma free_bytes_phys: "free_tree_ok t \<Longrightarrow> free_bytes t \<subseteq> phys_bytes t"
  using chunks_ok_chunk [of "rb_inorder t"]
  by (fastforce simp: free_tree_ok_def free_bytes_def chunks_bytes_def chunk_bytes_def phys_bytes_def chunk_ok_def)

lemma page_range_phys:
  assumes "page_range a n \<subseteq> {1 ..< PHYS_LIMIT}" "0 < n"
  shows "0 < unat a" "unat a + 4096 * nat n \<le> PHYS_LIMIT"
proof -
  from assms have "unat a \<in> {1 ..< PHYS_LIMIT}" "unat a + 4096 * nat n - 1 \<in> {1 ..< PHYS_LIMIT}"
    by (auto simp: page_range_def)
  then show "0 < unat a" "unat a + 4096 * nat n \<le> PHYS_LIMIT" by auto
qed

interpretation rbp: phys_allocator page_alloc_rbtree_alloc_pages rbtree_dealloc free_tree_ok free_bytes phys_bytes INT_PAGES_MAX
proof
  fix t npages p2align
  assume ok: "free_tree_ok t" "request_ok npages p2align"
  show "\<exists>a t'. page_alloc_rbtree_alloc_pages t npages p2align = Some (a, t') \<and> free_tree_ok t' \<and> phys_bytes t' = phys_bytes t \<and>
      (if a = 0 then free_bytes t' = free_bytes t
       else page_range a npages \<subseteq> free_bytes t \<and> free_bytes t' = free_bytes t - page_range a npages)"
  proof (cases "\<exists>b. aligned_free (free_bytes t) npages p2align b")
    case True
    then obtain b where "aligned_free (free_bytes t) npages p2align b" by blast
    from alloc_pages_found [OF ok this] obtain a t' where
      "page_alloc_rbtree_alloc_pages t npages p2align = Some (a, t')" "0 < unat a" "free_tree_ok t'"
      "aligned_free (free_bytes t) npages p2align (unat a)"
      "free_bytes t' = free_bytes t - {unat a ..< unat a + 4096 * nat npages}" by blast
    then show ?thesis
      by (intro exI [of _ a] exI [of _ t']) (auto simp: page_range_def aligned_free_def phys_bytes_def)
  next
    case False
    with alloc_pages_none [OF ok] ok(1) show ?thesis by simp
  qed
next
  fix t a npages
  assume ok: "free_tree_ok t" "0 < npages" "npages \<le> INT_PAGES_MAX" "4096 dvd unat a" "page_range a npages \<subseteq> phys_bytes t"
    "page_range a npages \<inter> free_bytes t = {}"
  have bytes: "unat (int_page_bytes npages) = 4096 * nat npages" using int_page_bytes_unat ok(2,3) by simp
  have "0 < unat a" "unat a + 4096 * nat npages \<le> PHYS_LIMIT" using page_range_phys ok(2,5) by (simp_all add: phys_bytes_def)
  with free_range_ok [OF ok(1), of a "int_page_bytes npages"] bytes ok(2,6)
  show "\<exists>t'. rbtree_dealloc t a npages = Some t' \<and> free_tree_ok t' \<and> phys_bytes t' = phys_bytes t \<and>
      free_bytes t' = free_bytes t \<union> page_range a npages"
    by (auto simp: rbtree_dealloc_def page_range_def phys_bytes_def Int_commute)
next
  fix t npages p2align a t'
  assume ok: "free_tree_ok t" and run: "page_alloc_rbtree_alloc_pages t npages p2align = Some (a, t')" and req: "request_ok npages p2align"
  show "4096 dvd unat a"
  proof (cases "\<exists>b. aligned_free (free_bytes t) npages p2align b")
    case True
    then obtain b where "aligned_free (free_bytes t) npages p2align b" by blast
    from alloc_pages_found [OF ok req this] run have "2 ^ (12 + p2align) dvd unat a" by (auto simp: aligned_free_def)
    moreover have "(4096::nat) dvd 2 ^ (12 + p2align)" by (simp add: power_add)
    ultimately show ?thesis by (rule dvd_trans [rotated])
  next
    case False
    with alloc_pages_none [OF ok req] run show ?thesis by simp
  qed
qed (rule free_bytes_phys)

text \<open>A list of separate chunks is determined by its bytes.\<close>

lemma chunks_head:
  assumes "chunks_ok (c # cs)" "chunks_ok (d # ds)" "chunks_bytes (c # cs) = chunks_bytes (d # ds)"
  shows "chunk_beg c \<le> chunk_beg d" "chunk_beg c = chunk_beg d \<Longrightarrow> chunk_lim c \<le> chunk_lim d"
proof -
  have "chunk_beg d \<in> chunks_bytes (c # cs)" using assms(2,3) by (auto simp: chunk_bytes_def chunk_ok_def)
  then show "chunk_beg c \<le> chunk_beg d" using assms(1) by (fastforce simp: chunks_bytes_def chunk_bytes_def chunk_ok_def)
next
  assume eq: "chunk_beg c = chunk_beg d"
  show "chunk_lim c \<le> chunk_lim d"
  proof (rule ccontr)
    assume "\<not> chunk_lim c \<le> chunk_lim d"
    with eq assms(2) have "chunk_lim d \<in> chunks_bytes (c # cs)" by (auto simp: chunk_bytes_def chunk_ok_def)
    with assms(3) have "chunk_lim d \<in> chunks_bytes (d # ds)" by blast
    with assms(2) show False by (fastforce simp: chunks_bytes_def chunk_bytes_def)
  qed
qed

lemma chunks_unique: "chunks_ok cs \<Longrightarrow> chunks_ok ds \<Longrightarrow> chunks_bytes cs = chunks_bytes ds \<Longrightarrow> cs = ds"
proof (induction cs arbitrary: ds)
  case Nil
  then show ?case by (cases ds) (auto simp: chunk_bytes_def chunk_ok_def)
next
  case (Cons c cs)
  show ?case
  proof (cases ds)
    case Nil
    with Cons.prems show ?thesis by (auto simp: chunk_bytes_def chunk_ok_def)
  next
    case (Cons d ds')
    note prems = Cons.prems [unfolded Cons]
    have beg: "chunk_beg c = chunk_beg d"
      using chunks_head(1) [OF prems] chunks_head(1) [OF prems(2,1) prems(3) [symmetric]] by simp
    then have "chunk_lim c = chunk_lim d"
      using chunks_head(2) [OF prems] chunks_head(2) [OF prems(2,1) prems(3) [symmetric]] by simp
    with beg have "unat (fc_addr c) = unat (fc_addr d)" "unat (fc_size c) = unat (fc_size d)"
      by (simp_all add: chunk_beg_def chunk_lim_def)
    then have "fc_addr c = fc_addr d" "fc_size c = fc_size d" by (simp_all only: word_unat_eq_iff)
    then have cd: "c = d" by (intro free_chunk.equality) simp_all
    have "chunks_bytes cs = chunks_bytes (c # cs) - chunk_bytes c"
      using chunks_bytes_cut [of "[]" c cs "chunk_bytes c"] prems(1) by auto
    also have "\<dots> = chunks_bytes (d # ds') - chunk_bytes d" using prems(3) by (simp only: cd)
    also have "\<dots> = chunks_bytes ds'"
      using chunks_bytes_cut [of "[]" d ds' "chunk_bytes d"] prems(2) by auto
    finally have "chunks_bytes cs = chunks_bytes ds'" .
    with Cons.IH [of ds'] prems cd Cons show ?thesis by simp
  qed
qed

subsection \<open>Properties\<close>

text \<open>C1: freeing a range of physical memory that is not free reads no null pointer, reports no
  error, and leaves a valid tree of separate, maximal chunks whose bytes are the old free bytes
  plus the range, whichever neighbours it has to be merged with and whatever the tree's shape.\<close>

theorem free_range_correct:
  assumes "free_tree_ok t" "0 < unat addr" "0 < unat sz" "unat addr + unat sz \<le> PHYS_LIMIT"
    and "free_bytes t \<inter> {unat addr ..< unat addr + unat sz} = {}"
  shows "\<exists>t'. page_alloc_rbtree_free_range t addr sz = Some (0, t') \<and> free_tree_ok t' \<and>
           free_bytes t' = free_bytes t \<union> {unat addr ..< unat addr + unat sz}"
  using assms by (rule free_range_ok)

text \<open>a double free, that is freeing a range that lies in free memory, is refused with
  \<open>EINVAL\<close> and the tree stays as it is.\<close>

theorem free_range_double_free:
  assumes "free_tree_ok t" "0 < unat sz" "unat addr + unat sz \<le> PHYS_LIMIT"
    and "{unat addr ..< unat addr + unat sz} \<subseteq> free_bytes t"
  shows "page_alloc_rbtree_free_range t addr sz = Some (EINVAL, t)"
  using assms by (rule free_range_double)

text \<open>C2: allocation is first fit and complete.  If some aligned free range of \<open>npages\<close> pages
  exists, the lowest such range is returned and exactly its bytes leave the free set; otherwise
  0 is returned and the tree is unchanged.  The tree stays valid in both cases.\<close>

theorem alloc_pages_first_fit:
  assumes "free_tree_ok t" "request_ok npages p2align"
  shows "if \<exists>b. aligned_free (free_bytes t) npages p2align b
         then \<exists>a t'. page_alloc_rbtree_alloc_pages t npages p2align = Some (a, t') \<and> free_tree_ok t' \<and>
                a \<noteq> 0 \<and> unat a = (LEAST b. aligned_free (free_bytes t) npages p2align b) \<and>
                free_bytes t' = free_bytes t - page_range a npages
         else page_alloc_rbtree_alloc_pages t npages p2align = Some (0, t)"
proof (cases "\<exists>b. aligned_free (free_bytes t) npages p2align b")
  case True
  let ?b = "LEAST b. aligned_free (free_bytes t) npages p2align b"
  from alloc_pages_found [OF assms LeastI_ex [OF True]] obtain a t' where
    a: "page_alloc_rbtree_alloc_pages t npages p2align = Some (a, t')" "0 < unat a" "unat a \<le> ?b" "free_tree_ok t'"
      "aligned_free (free_bytes t) npages p2align (unat a)"
      "free_bytes t' = free_bytes t - {unat a ..< unat a + 4096 * nat npages}" by blast
  from Least_le [of "aligned_free (free_bytes t) npages p2align", OF a(5)] a(3) have "unat a = ?b" by simp
  with a True show ?thesis by (auto simp: page_range_def)
next
  case False
  with alloc_pages_none [OF assms] show ?thesis by simp
qed

text \<open>reserving a page range succeeds exactly when the whole range is free, takes exactly its
  bytes out of the free set, and otherwise changes nothing and returns 0.\<close>

theorem reserve_pages_correct:
  assumes "free_tree_ok t" "0 < npages" "npages < 2 ^ 31" "0 < unat addr" "unat addr \<le> PHYS_LIMIT"
  shows "if page_range addr npages \<subseteq> free_bytes t
         then \<exists>t'. page_alloc_rbtree_reserve_pages t addr npages = Some (addr, t') \<and> free_tree_ok t' \<and>
                free_bytes t' = free_bytes t - page_range addr npages
         else page_alloc_rbtree_reserve_pages t addr npages = Some (0, t)"
  using reserve_pages_ok [OF assms] by (simp add: page_range_def)

text \<open>C13: freeing what was allocated restores the very list of chunks: every split the allocation
  made is undone by merging.\<close>

theorem alloc_free_roundtrip:
  assumes "free_tree_ok t" "request_ok npages p2align" "npages \<le> INT_PAGES_MAX"
    and "page_alloc_rbtree_alloc_pages t npages p2align = Some (a, t')" "a \<noteq> 0"
  shows "\<exists>t''. rbtree_dealloc t' a npages = Some t'' \<and> rb_inorder t'' = rb_inorder t"
proof -
  from rbp.alloc_sound [OF assms(1,2)] assms(4,5) have a: "free_tree_ok t'" "page_range a npages \<subseteq> free_bytes t"
    "free_bytes t' = free_bytes t - page_range a npages" by auto
  have n: "0 < npages" using assms(2) by (simp add: request_ok_def)
  have al: "4096 dvd unat a" using rbp.alloc_aligned [OF assms(1,4,2)] .
  have ph: "page_range a npages \<subseteq> phys_bytes t'" using a(2) free_bytes_phys [OF assms(1)] by (auto simp: phys_bytes_def)
  have "page_range a npages \<inter> free_bytes t' = {}" using a(3) by blast
  from rbp.dealloc_sound [OF a(1) n assms(3) al ph this] obtain t'' where
    t'': "rbtree_dealloc t' a npages = Some t''" "free_tree_ok t''" "free_bytes t'' = free_bytes t' \<union> page_range a npages" by blast
  moreover have "free_bytes t'' = free_bytes t" using t''(3) a(2,3) by blast
  then have "rb_inorder t'' = rb_inorder t"
    using chunks_unique t''(2) assms(1) by (auto simp: free_tree_ok_def free_bytes_def)
  ultimately show ?thesis by blast
qed

text \<open>over any sequence of allocations and of frees of ranges still held, no call fails
  inside, the ranges held stay pairwise disjoint and apart from the free memory, and together
  with it make up the memory that was free at the start: nothing is handed out twice or lost.\<close>

theorem rbtree_run_conserves:
  assumes "free_tree_ok t" "\<forall>op \<in> set ops. pa_op_ok INT_PAGES_MAX op"
  shows "\<exists>t' held. pa_run page_alloc_rbtree_alloc_pages rbtree_dealloc ops (t, []) = Some (t', held) \<and>
           free_tree_ok t' \<and> held_disjoint held \<and> free_bytes t' \<inter> held_bytes held = {} \<and>
           free_bytes t' \<union> held_bytes held = free_bytes t"
  using assms by (rule rbp.run_conserves)


subsection \<open>Witnesses\<close>

text \<open>One free chunk of 16 pages at \<open>0x10000\<close>.\<close>

definition example_tree :: free_tree where
  "example_tree = RB_Node RB_BLACK RB_Null \<lparr>fc_addr = 0x10000, fc_size = 0x10000\<rparr> RB_Null"

lemma example_tree_ok: "free_tree_ok example_tree"
  by (simp add: example_tree_def free_tree_ok_def rb_valid_def chunk_ok_def chunk_beg_def chunk_lim_def PHYS_LIMIT_def)

lemma example_tree_bytes: "free_bytes example_tree = {0x10000 ..< 0x20000}"
  by (simp add: example_tree_def free_bytes_def chunk_bytes_def chunk_beg_def chunk_lim_def)

theorem free_range_correct_witness:
  "\<exists>t'. page_alloc_rbtree_free_range example_tree 0x20000 0x1000 = Some (0, t') \<and> free_tree_ok t' \<and>
     free_bytes t' = {0x10000 ..< 0x20000} \<union> {0x20000 ..< 0x21000}"
  using free_range_correct [OF example_tree_ok, of "0x20000" "0x1000"]
  by (simp add: example_tree_bytes PHYS_LIMIT_def)

theorem free_range_double_free_witness:
  "page_alloc_rbtree_free_range example_tree 0x11000 0x1000 = Some (EINVAL, example_tree)"
  using free_range_double_free [OF example_tree_ok, of "0x1000" "0x11000"]
  by (simp add: example_tree_bytes PHYS_LIMIT_def)

lemma example_aligned: "aligned_free {0x10000 ..< 0x20000} 2 1 0x10000"
  by (simp add: aligned_free_def)

theorem alloc_pages_first_fit_witness:
  "\<exists>a t'. page_alloc_rbtree_alloc_pages example_tree 2 1 = Some (a, t') \<and> free_tree_ok t' \<and> a \<noteq> 0 \<and>
     free_bytes t' = {0x10000 ..< 0x20000} - page_range a 2"
  using alloc_pages_first_fit [OF example_tree_ok, of 2 1] example_aligned
  by (auto simp: example_tree_bytes request_ok_def split: if_splits)

theorem reserve_pages_correct_witness:
  "\<exists>t'. page_alloc_rbtree_reserve_pages example_tree 0x12000 3 = Some (0x12000, t') \<and> free_tree_ok t' \<and>
     free_bytes t' = {0x10000 ..< 0x20000} - page_range 0x12000 3"
  using reserve_pages_correct [OF example_tree_ok, of 3 "0x12000"]
  by (simp add: example_tree_bytes page_range_def PHYS_LIMIT_def)

theorem alloc_free_roundtrip_witness:
  "\<exists>a t' t''. page_alloc_rbtree_alloc_pages example_tree 2 1 = Some (a, t') \<and> a \<noteq> 0 \<and>
     rbtree_dealloc t' a 2 = Some t'' \<and> rb_inorder t'' = [\<lparr>fc_addr = 0x10000, fc_size = 0x10000\<rparr>]"
proof -
  have req: "request_ok 2 1" "(2::int) \<le> INT_PAGES_MAX" by (simp_all add: request_ok_def INT_PAGES_MAX_def)
  have "aligned_free (free_bytes example_tree) 2 1 0x10000" using example_aligned by (simp add: example_tree_bytes)
  from alloc_pages_found [OF example_tree_ok req(1) this] obtain a t' where
    a: "page_alloc_rbtree_alloc_pages example_tree 2 1 = Some (a, t')" and "0 < unat a" by blast
  then have "a \<noteq> 0" by auto
  note a = a this
  from alloc_free_roundtrip [OF example_tree_ok req a] a show ?thesis by (auto simp: example_tree_def)
qed

theorem rbtree_run_conserves_witness:
  "\<exists>t' held. pa_run page_alloc_rbtree_alloc_pages rbtree_dealloc [PA_Alloc 2 0, PA_Alloc 1 3, PA_Free 0] (example_tree, []) =
       Some (t', held) \<and> held_disjoint held \<and> free_bytes t' \<union> held_bytes held = {0x10000 ..< 0x20000}"
  using rbtree_run_conserves [OF example_tree_ok, of "[PA_Alloc 2 0, PA_Alloc 1 3, PA_Free 0]"]
  by (auto simp: request_ok_def INT_PAGES_MAX_def example_tree_bytes)

end
