(* ===== verification/Numa.thy ===== *)
theory Numa
  imports PageAlloc_RB
begin

section \<open>NUMA nodes and deferred zeroing\<close>

text \<open>
  The external routines at the end of \<open>lib/page_alloc.c\<close>: a NUMA node keeps its free memory in
  the tree of \<open>PageAlloc_RB\<close>, freed chunks that still have to be zeroed in \<open>to_zero_list\<close> and
  zeroed chunks that are not in the tree yet in \<open>zeroed_list\<close> (lock-less stacks, newest first).
  The globals \<open>zero_at_free\<close> and \<open>deferred_zero_at_free\<close> are arguments.  The configuration is the
  default one, without \<open>ENABLE_PER_CPU_ALLOC_CACHE\<close>.  Each function runs under the node's lock
  as in the source, so it is one transition of the node's state.
\<close>

subsection \<open>Lock-less lists\<close>

definition llist_add :: "'a \<Rightarrow> 'a list \<Rightarrow> 'a list" where
  "llist_add x xs = x # xs"

definition llist_add_batch :: "'a list \<Rightarrow> 'a list \<Rightarrow> bool \<times> 'a list" where
  "llist_add_batch batch xs = (xs = [], batch @ xs)"

fun llist_del_first :: "'a list \<Rightarrow> ('a \<times> 'a list) option" where
  "llist_del_first [] = None"
| "llist_del_first (x # xs) = Some (x, xs)"

text \<open>The loop of \<open>llist_reverse_order\<close>, with \<open>new_head\<close> as accumulator.\<close>

fun llist_reverse_loop :: "'a list \<Rightarrow> 'a list \<Rightarrow> 'a list" where
  "llist_reverse_loop [] new_head = new_head"
| "llist_reverse_loop (x # xs) new_head = llist_reverse_loop xs (x # new_head)"

definition llist_reverse_order :: "'a list \<Rightarrow> 'a list" where
  "llist_reverse_order xs = llist_reverse_loop xs []"

subsection \<open>State and operations\<close>

record numa_node =
  nn_id :: int
  nn_free_chunks :: free_tree
  nn_zeroed_list :: "free_chunk list"
  nn_to_zero_list :: "free_chunk list"
  nn_nr_to_zero_pages :: u32
  nn_zeroing_workers :: u32
  nn_nr_pages :: u64
  nn_nr_free_pages :: u64
  nn_min_addr :: u64
  nn_max_addr :: u64

definition ihk_numa_add_free_pages :: "numa_node \<Rightarrow> u64 \<Rightarrow> u64 \<Rightarrow> (int \<times> numa_node) option" where
  "ihk_numa_add_free_pages node addr sz =
     (case page_alloc_rbtree_free_range (nn_free_chunks node) addr sz of
        None \<Rightarrow> None
      | Some (ret, root) \<Rightarrow>
          if ret \<noteq> 0 then Some (EINVAL, node\<lparr>nn_free_chunks := root\<rparr>)
          else Some (0, node\<lparr>nn_free_chunks := root,
                 nn_min_addr := (if addr < nn_min_addr node then addr else nn_min_addr node),
                 nn_max_addr := (if nn_max_addr node < addr + sz then addr + sz else nn_max_addr node),
                 nn_nr_pages := nn_nr_pages node + drop_bit PAGE_SHIFT sz,
                 nn_nr_free_pages := nn_nr_free_pages node + drop_bit PAGE_SHIFT sz\<rparr>))"

text \<open>\<open>__ihk_numa_zero_free_pages\<close>: with a number of pages the first big enough chunk of
  \<open>to_zero_list\<close> is looked for; the ones that do not match collect on \<open>tmp\<close> and are put back one
  by one.\<close>

fun zero_look_chunk :: "int \<Rightarrow> free_chunk list \<Rightarrow> free_chunk list \<Rightarrow>
    free_chunk option \<times> free_chunk list \<times> free_chunk list" where
  "zero_look_chunk nr_pages [] tmp = (None, [], tmp)"
| "zero_look_chunk nr_pages (chunk # chunks) tmp =
     (if fc_size chunk < int_page_bytes nr_pages then zero_look_chunk nr_pages chunks (llist_add chunk tmp)
      else (Some chunk, chunks, tmp))"

definition zero_chunk_done :: "free_chunk \<Rightarrow> numa_node \<Rightarrow> numa_node" where
  "zero_chunk_done chunk node =
     node\<lparr>nn_zeroed_list := llist_add chunk (nn_zeroed_list node),
          nn_nr_to_zero_pages := nn_nr_to_zero_pages node - ucast (drop_bit PAGE_SHIFT (fc_size chunk))\<rparr>"

definition numa_zero_one :: "numa_node \<Rightarrow> int \<Rightarrow> int \<Rightarrow> numa_node \<times> int" where
  "numa_zero_one node nr_pages nr_zeroed =
     (case zero_look_chunk nr_pages (nn_to_zero_list node) [] of
        (found, rest, tmp) \<Rightarrow>
          (let node = node\<lparr>nn_to_zero_list := fold llist_add tmp rest\<rparr>
           in case found of
                None \<Rightarrow> (node, nr_zeroed)
              | Some chunk \<Rightarrow> (zero_chunk_done chunk node,
                               to_int (word_of_int nr_zeroed + drop_bit PAGE_SHIFT (fc_size chunk)))))"

fun numa_zero_all :: "free_chunk list \<Rightarrow> numa_node \<Rightarrow> int \<Rightarrow> numa_node \<times> int" where
  "numa_zero_all [] node nr_zeroed = (node\<lparr>nn_to_zero_list := []\<rparr>, nr_zeroed)"
| "numa_zero_all (chunk # chunks) node nr_zeroed =
     numa_zero_all chunks (zero_chunk_done chunk (node\<lparr>nn_to_zero_list := chunks\<rparr>))
       (to_int (word_of_int nr_zeroed + drop_bit PAGE_SHIFT (fc_size chunk)))"

definition numa_zero_node :: "numa_node \<Rightarrow> int \<Rightarrow> int \<Rightarrow> numa_node \<times> int" where
  "numa_zero_node node nr_pages nr_zeroed =
     (if nr_pages \<noteq> 0 then numa_zero_one node nr_pages nr_zeroed
      else numa_zero_all (nn_to_zero_list node) node nr_zeroed)"

text \<open>With an explicit node only that node is looked at; without, all nodes in the order of
  distance (\<open>by_distance i\<close> is the index the distance table gives), up to the first missing one.\<close>

fun numa_zero_nodes :: "nat option list \<Rightarrow> numa_node list \<Rightarrow> int \<Rightarrow> int \<Rightarrow> numa_node list \<times> int" where
  "numa_zero_nodes [] nodes nr_pages nr_zeroed = (nodes, nr_zeroed)"
| "numa_zero_nodes (None # is) nodes nr_pages nr_zeroed = (nodes, nr_zeroed)"
| "numa_zero_nodes (Some i # is) nodes nr_pages nr_zeroed =
     (case numa_zero_node (nodes ! i) nr_pages nr_zeroed of
        (node, nr) \<Rightarrow> numa_zero_nodes is (nodes[i := node]) nr_pages nr)"

definition numa_zero_free_pages_all :: "bool \<Rightarrow> nat option list \<Rightarrow> numa_node list \<Rightarrow> int \<Rightarrow> numa_node list \<times> int" where
  "numa_zero_free_pages_all zero_at_free by_distance nodes nr_pages =
     (if \<not> zero_at_free then (nodes, 0) else numa_zero_nodes by_distance nodes nr_pages 0)"

definition numa_zero_free_pages :: "bool \<Rightarrow> numa_node \<Rightarrow> int \<Rightarrow> numa_node \<times> int" where
  "numa_zero_free_pages zero_at_free node nr_pages =
     (if \<not> zero_at_free then (node, 0) else numa_zero_node node nr_pages 0)"

definition ihk_numa_zero_free_pages :: "bool \<Rightarrow> numa_node \<Rightarrow> numa_node" where
  "ihk_numa_zero_free_pages zero_at_free node = fst (numa_zero_free_pages zero_at_free node 0)"

text \<open>The first loop of \<open>ihk_numa_alloc_pages\<close>: zeroed chunks go to the tree.\<close>

fun numa_drain_zeroed :: "free_chunk list \<Rightarrow> numa_node \<Rightarrow> numa_node option" where
  "numa_drain_zeroed [] node = Some (node\<lparr>nn_zeroed_list := []\<rparr>)"
| "numa_drain_zeroed (chunk # chunks) node =
     (case page_alloc_rbtree_free_range (nn_free_chunks node) (fc_addr chunk) (fc_size chunk) of
        None \<Rightarrow> None
      | Some (ret, root) \<Rightarrow>
          numa_drain_zeroed chunks
            (node\<lparr>nn_free_chunks := root,
                  nn_nr_free_pages := (if ret \<noteq> 0 then nn_nr_free_pages node
                                       else nn_nr_free_pages node + drop_bit PAGE_SHIFT (fc_size chunk))\<rparr>))"

text \<open>From the label \<open>retry\<close> to the check that enough pages are free.  \<open>None\<close> also stands for a
  loop that does not end.\<close>

partial_function (option) numa_alloc_retry :: "bool \<Rightarrow> numa_node \<Rightarrow> int \<Rightarrow> numa_node option" where
  "numa_alloc_retry zero_at_free node npages =
     (if zero_at_free then
        (case numa_drain_zeroed (nn_zeroed_list node) node of
           None \<Rightarrow> None
         | Some node \<Rightarrow>
             if nn_nr_free_pages node < word_of_int npages then
               (case numa_zero_free_pages zero_at_free node npages of
                  (node, zeroed) \<Rightarrow>
                    if npages \<le> zeroed then numa_alloc_retry zero_at_free node npages else Some node)
             else Some node)
      else Some node)"

definition ihk_numa_alloc_pages :: "bool \<Rightarrow> numa_node \<Rightarrow> int \<Rightarrow> nat \<Rightarrow> (u64 \<times> numa_node) option" where
  "ihk_numa_alloc_pages zero_at_free node npages p2align =
     (case numa_alloc_retry zero_at_free node npages of
        None \<Rightarrow> None
      | Some node \<Rightarrow>
          if nn_nr_free_pages node < word_of_int npages then Some (0, node)
          else
            (case page_alloc_rbtree_alloc_pages (nn_free_chunks node) npages p2align of
               None \<Rightarrow> None
             | Some (addr, root) \<Rightarrow>
                 Some (addr, node\<lparr>nn_free_chunks := root,
                   nn_nr_free_pages := (if addr \<noteq> 0 then nn_nr_free_pages node - word_of_int npages
                                        else nn_nr_free_pages node)\<rparr>)))"

text \<open>\<open>may_ask\<close>: the current CPU runs a thread that may ask Linux to zero memory.  The second
  component tells whether the request packet is sent.\<close>

definition ihk_numa_free_pages :: "bool \<Rightarrow> bool \<Rightarrow> bool \<Rightarrow> numa_node \<Rightarrow> u64 \<Rightarrow> int \<Rightarrow> (numa_node \<times> bool) option" where
  "ihk_numa_free_pages zero_at_free deferred_zero_at_free may_ask node addr npages =
     (if addr < nn_min_addr node \<or> nn_max_addr node < addr + int_page_bytes npages then Some (node, False)
      else if npages \<le> 0 then Some (node, False)
      else if \<not> zero_at_free \<or> (zero_at_free \<and> \<not> deferred_zero_at_free) then
        (case page_alloc_rbtree_free_range (nn_free_chunks node) addr (int_page_bytes npages) of
           None \<Rightarrow> None
         | Some (ret, root) \<Rightarrow>
             Some (node\<lparr>nn_free_chunks := root,
                        nn_nr_free_pages := (if ret \<noteq> 0 then nn_nr_free_pages node
                                             else nn_nr_free_pages node + word_of_int npages)\<rparr>, False))
      else
        (let chunk = \<lparr>fc_addr = addr, fc_size = int_page_bytes npages\<rparr>;
             node = node\<lparr>nn_nr_to_zero_pages := nn_nr_to_zero_pages node + word_of_int npages,
                         nn_to_zero_list := llist_add chunk (nn_to_zero_list node)\<rparr>
         in if may_ask \<and> sint (nn_zeroing_workers node) \<le> 0
            then Some (node\<lparr>nn_zeroing_workers := nn_zeroing_workers node + 1\<rparr>, True)
            else Some (node, False)))"

subsection \<open>Invariant\<close>

text \<open>Chunks waiting on the two lists: whole pages, apart from each other.\<close>

definition page_chunk_ok :: "free_chunk \<Rightarrow> bool" where
  "page_chunk_ok c \<longleftrightarrow> chunk_ok c \<and> 4096 dvd chunk_beg c \<and> 4096 dvd unat (fc_size c)"

fun chunks_apart :: "free_chunk list \<Rightarrow> bool" where
  "chunks_apart [] \<longleftrightarrow> True"
| "chunks_apart (c # cs) \<longleftrightarrow> page_chunk_ok c \<and> chunk_bytes c \<inter> chunks_bytes cs = {} \<and> chunks_apart cs"

definition numa_waiting :: "numa_node \<Rightarrow> free_chunk list" where
  "numa_waiting node = nn_zeroed_list node @ nn_to_zero_list node"

text \<open>All memory the node could hand out, and the memory it is responsible for.\<close>

definition numa_bytes :: "numa_node \<Rightarrow> nat set" where
  "numa_bytes node = free_bytes (nn_free_chunks node) \<union> chunks_bytes (numa_waiting node)"

definition numa_range :: "numa_node \<Rightarrow> nat set" where
  "numa_range node = {unat (nn_min_addr node) ..< unat (nn_max_addr node)}"

definition numa_ok :: "numa_node \<Rightarrow> bool" where
  "numa_ok node \<longleftrightarrow> free_tree_ok (nn_free_chunks node) \<and> chunks_apart (numa_waiting node) \<and>
     free_bytes (nn_free_chunks node) \<inter> chunks_bytes (numa_waiting node) = {} \<and>
     4096 * unat (nn_nr_free_pages node) = card (free_bytes (nn_free_chunks node)) \<and>
     0 < unat (nn_min_addr node) \<and> unat (nn_max_addr node) \<le> PHYS_LIMIT \<and>
     numa_bytes node \<subseteq> numa_range node"

lemma chunks_apart_append [simp]:
  "chunks_apart (xs @ ys) \<longleftrightarrow> chunks_apart xs \<and> chunks_apart ys \<and> chunks_bytes xs \<inter> chunks_bytes ys = {}"
  by (induction xs) auto

lemma chunks_bytes_set: "set xs = set ys \<Longrightarrow> chunks_bytes xs = chunks_bytes ys"
  by (simp add: chunks_bytes_def)

lemma free_bytes_finite [simp]: "finite (free_bytes t)"
  by (simp add: free_bytes_def)

lemma card_free_bytes_bound: "free_tree_ok t \<Longrightarrow> card (free_bytes t) \<le> 2 ^ 52"
  using card_mono [of "{1 ..< PHYS_LIMIT}" "free_bytes t"] free_bytes_phys [of t]
  by (auto simp: phys_bytes_def PHYS_LIMIT_def)

lemma chunk_bytes_card: "card (chunk_bytes c) = unat (fc_size c)"
  by (simp add: chunk_bytes_def chunk_beg_def chunk_lim_def)

lemma chunk_bytes_finite [simp]: "finite (chunk_bytes c)"
  by (simp add: chunk_bytes_def)

lemma drop_page_shift: "unat (drop_bit PAGE_SHIFT w :: u64) = unat w div 4096"
  using unsigned_drop_bit_eq [of PAGE_SHIFT w, where ?'a=nat] unsigned_less [of w, where ?'a=nat]
  by (simp add: take_bit_eq_mod drop_bit_eq_div PAGE_SHIFT_def)

text \<open>Moving a waiting chunk to the tree.\<close>

lemma nr_free_add:
  assumes "free_tree_ok t'" "4096 * unat nr = card (free_bytes t)" "free_bytes t' = free_bytes t \<union> B"
    "free_bytes t \<inter> B = {}" "finite B" "card B = 4096 * unat k"
  shows "4096 * unat (nr + k :: u64) = card (free_bytes t')"
proof -
  have c: "card (free_bytes t') = 4096 * unat nr + 4096 * unat k"
    using assms by (simp add: card_Un_disjoint)
  have "unat nr + unat k < 2 ^ 64" using card_free_bytes_bound [OF assms(1)] c by simp
  then show ?thesis using c by (simp add: u64_add)
qed

lemma numa_drain_ok:
  assumes "free_tree_ok (nn_free_chunks node)" "chunks_apart cs" "free_bytes (nn_free_chunks node) \<inter> chunks_bytes cs = {}"
    "4096 * unat (nn_nr_free_pages node) = card (free_bytes (nn_free_chunks node))"
  shows "\<exists>t nr. numa_drain_zeroed cs node =
             Some (node\<lparr>nn_free_chunks := t, nn_nr_free_pages := nr, nn_zeroed_list := []\<rparr>) \<and>
           free_tree_ok t \<and> free_bytes t = free_bytes (nn_free_chunks node) \<union> chunks_bytes cs \<and>
           4096 * unat nr = card (free_bytes t)"
  using assms
proof (induction cs arbitrary: node)
  case Nil
  then show ?case by (intro exI [of _ "nn_free_chunks node"] exI [of _ "nn_nr_free_pages node"]) simp
next
  case (Cons c cs)
  let ?t = "nn_free_chunks node" and ?nr = "nn_nr_free_pages node"
  have c: "chunk_ok c" "4096 dvd unat (fc_size c)" using Cons.prems(2) by (simp_all add: page_chunk_ok_def)
  have range: "{unat (fc_addr c) ..< unat (fc_addr c) + unat (fc_size c)} = chunk_bytes c"
    by (simp add: chunk_bytes_def chunk_beg_def chunk_lim_def)
  have "0 < unat (fc_addr c)" "0 < unat (fc_size c)" "unat (fc_addr c) + unat (fc_size c) \<le> PHYS_LIMIT"
    using c(1) by (auto simp: chunk_ok_def chunk_beg_def chunk_lim_def)
  from free_range_ok [OF Cons.prems(1) this] Cons.prems(3) range obtain t' where
    t': "page_alloc_rbtree_free_range ?t (fc_addr c) (fc_size c) = Some (0, t')" "free_tree_ok t'"
      "free_bytes t' = free_bytes ?t \<union> chunk_bytes c" by auto
  let ?nr' = "?nr + drop_bit PAGE_SHIFT (fc_size c)"
  let ?node = "node\<lparr>nn_free_chunks := t', nn_nr_free_pages := ?nr'\<rparr>"
  have "4096 * unat ?nr' = card (free_bytes t')"
    using Cons.prems(3,4) t'(2,3) c(2)
    by (intro nr_free_add [of t' ?nr ?t "chunk_bytes c"]) (auto simp: chunk_bytes_card drop_page_shift)
  with Cons.prems t' have "free_tree_ok (nn_free_chunks ?node)" "chunks_apart cs"
    "free_bytes (nn_free_chunks ?node) \<inter> chunks_bytes cs = {}"
    "4096 * unat (nn_nr_free_pages ?node) = card (free_bytes (nn_free_chunks ?node))" by auto
  from Cons.IH [OF this] t' show ?case by (auto simp: Un_assoc)
qed

lemma zero_look_chunk_None:
  "zero_look_chunk n cs tmp = (None, rest, tmp') \<Longrightarrow> rest = [] \<and> tmp' = rev cs @ tmp \<and> (\<forall>c \<in> set cs. fc_size c < int_page_bytes n)"
  by (induction n cs tmp rule: zero_look_chunk.induct) (auto simp: llist_add_def split: if_splits)

lemma zero_look_chunk_Some:
  "zero_look_chunk n cs tmp = (Some c, rest, tmp') \<Longrightarrow>
     \<exists>us. cs = us @ c # rest \<and> tmp' = rev us @ tmp \<and> \<not> fc_size c < int_page_bytes n"
proof (induction n cs tmp rule: zero_look_chunk.induct)
  case (2 n d cs tmp)
  show ?case
  proof (cases "fc_size d < int_page_bytes n")
    case True
    with 2 obtain us where "cs = us @ c # rest" "tmp' = rev us @ d # tmp" "\<not> fc_size c < int_page_bytes n"
      by (auto simp: llist_add_def)
    then show ?thesis by (intro exI [of _ "d # us"]) simp
  next
    case False
    with 2 show ?thesis by (intro exI [of _ "[]"]) simp
  qed
qed simp

lemma fold_llist_add [simp]: "fold llist_add xs ys = rev xs @ ys"
  by (induction xs arbitrary: ys) (auto simp: llist_add_def)

text \<open>One round of zeroing moves a big enough chunk from \<open>to_zero_list\<close> to \<open>zeroed_list\<close> and
  leaves the others in their order.\<close>

lemma numa_zero_one_cases:
  obtains (none) "numa_zero_one node n z = (node, z)" "\<forall>c \<in> set (nn_to_zero_list node). fc_size c < int_page_bytes n"
  | (moved) us c vs where "nn_to_zero_list node = us @ c # vs" "\<not> fc_size c < int_page_bytes n"
      "numa_zero_one node n z = (zero_chunk_done c (node\<lparr>nn_to_zero_list := us @ vs\<rparr>),
         to_int (word_of_int z + drop_bit PAGE_SHIFT (fc_size c)))"
proof -
  obtain found rest tmp where look: "zero_look_chunk n (nn_to_zero_list node) [] = (found, rest, tmp)"
    by (cases "zero_look_chunk n (nn_to_zero_list node) []") auto
  show thesis
  proof (cases found)
    case None
    with zero_look_chunk_None [of n "nn_to_zero_list node" "[]" rest tmp] look none show thesis
      by (auto simp: numa_zero_one_def)
  next
    case (Some c)
    with zero_look_chunk_Some [of n "nn_to_zero_list node" "[]" c rest tmp] look
    obtain us where "nn_to_zero_list node = us @ c # rest" "tmp = rev us" "\<not> fc_size c < int_page_bytes n" by auto
    with look Some moved [of us c rest] show thesis by (simp add: numa_zero_one_def)
  qed
qed

lemma numa_zero_one_ok:
  assumes "numa_ok node" "numa_zero_one node n z = (node', z')"
  shows "numa_ok node' \<and> numa_bytes node' = numa_bytes node \<and> numa_range node' = numa_range node \<and>
     nn_free_chunks node' = nn_free_chunks node \<and> nn_nr_free_pages node' = nn_nr_free_pages node"
proof (cases rule: numa_zero_one_cases [of node n z])
  case none
  with assms show ?thesis by simp
next
  case (moved us c vs)
  with assms(2) have node': "node' = zero_chunk_done c (node\<lparr>nn_to_zero_list := us @ vs\<rparr>)" by simp
  have w: "numa_waiting node = nn_zeroed_list node @ us @ c # vs" "numa_waiting node' = c # nn_zeroed_list node @ us @ vs"
    using moved(1) by (simp_all add: node' numa_waiting_def zero_chunk_done_def llist_add_def)
  have ap: "chunks_apart (numa_waiting node')" "chunks_bytes (numa_waiting node') = chunks_bytes (numa_waiting node)"
    using assms(1) unfolding numa_ok_def w by auto
  have same: "nn_free_chunks node' = nn_free_chunks node" "nn_nr_free_pages node' = nn_nr_free_pages node"
    "nn_min_addr node' = nn_min_addr node" "nn_max_addr node' = nn_max_addr node"
    by (simp_all add: node' zero_chunk_done_def)
  then show ?thesis using assms(1) ap by (simp add: numa_ok_def numa_bytes_def numa_range_def)
qed

lemma numa_drain_node_ok:
  assumes "numa_ok node"
  shows "\<exists>node'. numa_drain_zeroed (nn_zeroed_list node) node = Some node' \<and> numa_ok node' \<and>
     numa_bytes node' = numa_bytes node \<and> numa_range node' = numa_range node \<and> nn_zeroed_list node' = [] \<and>
     nn_to_zero_list node' = nn_to_zero_list node \<and>
     free_bytes (nn_free_chunks node') = free_bytes (nn_free_chunks node) \<union> chunks_bytes (nn_zeroed_list node)"
proof -
  from assms have "free_tree_ok (nn_free_chunks node)" "chunks_apart (nn_zeroed_list node)"
    "free_bytes (nn_free_chunks node) \<inter> chunks_bytes (nn_zeroed_list node) = {}"
    "4096 * unat (nn_nr_free_pages node) = card (free_bytes (nn_free_chunks node))"
    by (auto simp: numa_ok_def numa_waiting_def)
  from numa_drain_ok [OF this] obtain t nr where
    d: "numa_drain_zeroed (nn_zeroed_list node) node = Some (node\<lparr>nn_free_chunks := t, nn_nr_free_pages := nr, nn_zeroed_list := []\<rparr>)"
      "free_tree_ok t" "free_bytes t = free_bytes (nn_free_chunks node) \<union> chunks_bytes (nn_zeroed_list node)"
      "4096 * unat nr = card (free_bytes t)" by blast
  let ?n = "node\<lparr>nn_free_chunks := t, nn_nr_free_pages := nr, nn_zeroed_list := []\<rparr>"
  have "numa_bytes ?n = numa_bytes node" "numa_range ?n = numa_range node"
    using d(3) by (auto simp: numa_bytes_def numa_range_def numa_waiting_def)
  moreover from this have "numa_ok ?n" using assms d by (auto simp: numa_ok_def numa_waiting_def)
  ultimately show ?thesis using d by simp
qed

text \<open>The retry loop ends: each round takes a chunk off \<open>to_zero_list\<close>.\<close>

lemma numa_alloc_retry_ok:
  assumes "numa_ok node" "0 < npages"
  shows "\<exists>node'. numa_alloc_retry zaf node npages = Some node' \<and> numa_ok node' \<and>
     numa_bytes node' = numa_bytes node \<and> numa_range node' = numa_range node \<and>
     free_bytes (nn_free_chunks node) \<subseteq> free_bytes (nn_free_chunks node') \<and>
     (zaf \<longrightarrow> chunks_bytes (nn_zeroed_list node) \<subseteq> free_bytes (nn_free_chunks node'))"
  using assms(1)
proof (induction "length (nn_to_zero_list node)" arbitrary: node rule: less_induct)
  case less
  show ?case
  proof (cases zaf)
    case False
    with less.prems show ?thesis by (subst numa_alloc_retry.simps) simp
  next
    case True
    from numa_drain_node_ok [OF less.prems] obtain n1 where
      d: "numa_drain_zeroed (nn_zeroed_list node) node = Some n1" and n1: "numa_ok n1" "numa_bytes n1 = numa_bytes node"
        "numa_range n1 = numa_range node" "nn_to_zero_list n1 = nn_to_zero_list node"
        "free_bytes (nn_free_chunks n1) = free_bytes (nn_free_chunks node) \<union> chunks_bytes (nn_zeroed_list node)" by blast
    obtain n2 z where z: "numa_zero_one n1 npages 0 = (n2, z)" by (cases "numa_zero_one n1 npages 0")
    note n2 = numa_zero_one_ok [OF n1(1) z]
    have unfold: "numa_alloc_retry zaf node npages =
       (if nn_nr_free_pages n1 < word_of_int npages then
          (if npages \<le> z then numa_alloc_retry zaf n2 npages else Some n2) else Some n1)"
      using True d z assms(2)
      by (subst numa_alloc_retry.simps) (simp add: numa_zero_free_pages_def numa_zero_node_def)
    show ?thesis
    proof (cases "nn_nr_free_pages n1 < word_of_int npages \<and> npages \<le> z")
      case again: True
      have "length (nn_to_zero_list n2) < length (nn_to_zero_list node)"
      proof (cases rule: numa_zero_one_cases [of n1 npages 0])
        case none
        with z again assms(2) show ?thesis by simp
      next
        case (moved us c vs)
        with z have "n2 = zero_chunk_done c (n1\<lparr>nn_to_zero_list := us @ vs\<rparr>)" by simp
        with moved(1) n1(4) show ?thesis by (simp add: zero_chunk_done_def)
      qed
      from less.hyps [OF this] n2 n1 again unfold show ?thesis by auto
    next
      case False
      with unfold n1 n2 show ?thesis by auto
    qed
  qed
qed

subsection \<open>Allocation and freeing\<close>

lemma page_range_finite [simp]: "finite (page_range a n)"
  by (simp add: page_range_def)

lemma page_range_card: "card (page_range a n) = 4096 * nat n"
  by (simp add: page_range_def)

lemma word_of_npages: "0 \<le> n \<Longrightarrow> n < 2 ^ 31 \<Longrightarrow> unat (word_of_int n :: u64) = nat n"
  by (cases n) (auto simp: unat_of_nat)

lemma nr_free_sub:
  assumes "4096 * unat nr = card (free_bytes t)" "page_range a n \<subseteq> free_bytes t" "0 \<le> n" "n < 2 ^ 31"
    "free_bytes t' = free_bytes t - page_range a n"
  shows "4096 * unat (nr - word_of_int n :: u64) = card (free_bytes t')"
proof -
  have c: "card (free_bytes t') = 4096 * unat nr - 4096 * nat n"
    using assms by (simp add: card_Diff_subset page_range_card)
  have "4096 * nat n \<le> 4096 * unat nr" using card_mono [OF free_bytes_finite assms(2)] assms(1) by (simp add: page_range_card)
  then have "(word_of_int n :: u64) \<le> nr" using word_of_npages assms(3,4) by (simp add: word_nat)
  then show ?thesis using c word_of_npages assms(3,4) by (simp add: u64_sub right_diff_distrib')
qed

lemma numa_alloc_sound:
  assumes "numa_ok node" "request_ok npages p2align"
  shows "\<exists>a node'. ihk_numa_alloc_pages zaf node npages p2align = Some (a, node') \<and> numa_ok node' \<and>
     numa_range node' = numa_range node \<and> 4096 dvd unat a \<and>
     (if a = 0 then numa_bytes node' = numa_bytes node
      else page_range a npages \<subseteq> numa_bytes node \<and> numa_bytes node' = numa_bytes node - page_range a npages)"
proof -
  have n: "0 < npages" "npages < 2 ^ 31" using assms(2) by (simp_all add: request_ok_def)
  from numa_alloc_retry_ok [OF assms(1) n(1), of zaf] obtain n1 where
    n1: "numa_alloc_retry zaf node npages = Some n1" "numa_ok n1" "numa_bytes n1 = numa_bytes node"
      "numa_range n1 = numa_range node" by blast
  show ?thesis
  proof (cases "nn_nr_free_pages n1 < word_of_int npages")
    case True
    with n1 show ?thesis by (simp add: ihk_numa_alloc_pages_def)
  next
    case False
    have t: "free_tree_ok (nn_free_chunks n1)" using n1(2) by (simp add: numa_ok_def)
    from rbp.alloc_sound [OF t assms(2)] obtain a t' where
      a: "page_alloc_rbtree_alloc_pages (nn_free_chunks n1) npages p2align = Some (a, t')" "free_tree_ok t'"
        "if a = 0 then free_bytes t' = free_bytes (nn_free_chunks n1)
         else page_range a npages \<subseteq> free_bytes (nn_free_chunks n1) \<and>
              free_bytes t' = free_bytes (nn_free_chunks n1) - page_range a npages" by blast
    have al: "4096 dvd unat a" using rbp.alloc_aligned [OF t a(1) assms(2)] .
    define nr where "nr = (if a \<noteq> 0 then nn_nr_free_pages n1 - word_of_int npages else nn_nr_free_pages n1)"
    let ?n = "n1\<lparr>nn_free_chunks := t', nn_nr_free_pages := nr\<rparr>"
    have run: "ihk_numa_alloc_pages zaf node npages p2align = Some (a, ?n)"
      using n1(1) False a(1) by (simp add: ihk_numa_alloc_pages_def nr_def)
    have w: "numa_waiting ?n = numa_waiting n1" "numa_range ?n = numa_range n1" by (simp_all add: numa_waiting_def numa_range_def)
    have nr: "4096 * unat nr = card (free_bytes t')"
      using a(3) n1(2) n nr_free_sub [of "nn_nr_free_pages n1" "nn_free_chunks n1" a npages t'] by (simp add: numa_ok_def nr_def split: if_splits)
    have sub: "free_bytes t' \<subseteq> free_bytes (nn_free_chunks n1)" using a(3) by (auto split: if_splits)
    have ok: "numa_ok ?n" using n1(2) a(2) nr sub w by (auto simp: numa_ok_def numa_bytes_def)
    have bytes: "if a = 0 then numa_bytes ?n = numa_bytes n1
        else page_range a npages \<subseteq> numa_bytes n1 \<and> numa_bytes ?n = numa_bytes n1 - page_range a npages"
      using a(3) n1(2) w(1) by (auto simp: numa_bytes_def numa_ok_def split: if_splits)
    show ?thesis using run ok w(2) al bytes [unfolded n1(3)] n1(4) by (intro exI [of _ a] exI [of _ ?n]) (auto split: if_splits)
  qed
qed

text \<open>The freeing call as an allocator's deallocation; whether Linux is asked does not matter.\<close>

definition numa_dealloc :: "bool \<Rightarrow> bool \<Rightarrow> bool \<Rightarrow> numa_node \<Rightarrow> u64 \<Rightarrow> int \<Rightarrow> numa_node option" where
  "numa_dealloc zaf dzaf ask node a n = map_option fst (ihk_numa_free_pages zaf dzaf ask node a n)"

lemma numa_free_sound:
  assumes "numa_ok node" "0 < npages" "npages \<le> INT_PAGES_MAX" "4096 dvd unat a"
    "page_range a npages \<subseteq> numa_range node" "page_range a npages \<inter> numa_bytes node = {}"
  shows "\<exists>node' sent. ihk_numa_free_pages zaf dzaf ask node a npages = Some (node', sent) \<and> numa_ok node' \<and>
     numa_range node' = numa_range node \<and> numa_bytes node' = numa_bytes node \<union> page_range a npages"
proof -
  have n31: "npages < 2 ^ 31" using assms(3) by (simp add: INT_PAGES_MAX_def)
  have ends: "unat a \<in> page_range a npages" "unat a + 4096 * nat npages - 1 \<in> page_range a npages"
    using assms(2) by (auto simp: page_range_def)
  with assms(5) have "unat a \<in> numa_range node" "unat a + 4096 * nat npages - 1 \<in> numa_range node" by blast+
  then have "unat (nn_min_addr node) \<le> unat a" "unat a + 4096 * nat npages \<le> unat (nn_max_addr node)"
    by (auto simp: numa_range_def)
  moreover have b: "unat (int_page_bytes npages) = 4096 * nat npages" using int_page_bytes_unat assms(2,3) by simp
  moreover have lim: "0 < unat (nn_min_addr node)" "unat (nn_max_addr node) \<le> PHYS_LIMIT" using assms(1) by (auto simp: numa_ok_def)
  ultimately have range: "\<not> a < nn_min_addr node" "\<not> nn_max_addr node < a + int_page_bytes npages"
    and pre: "0 < unat a" "0 < unat (int_page_bytes npages)" "unat a + unat (int_page_bytes npages) \<le> PHYS_LIMIT"
    using range_end_unat [of a "int_page_bytes npages"] assms(2) by (auto simp: word_nat)
  have pr: "{unat a ..< unat a + unat (int_page_bytes npages)} = page_range a npages" by (simp add: b page_range_def)
  show ?thesis
  proof (cases "zaf \<and> dzaf")
    case False
    let ?t = "nn_free_chunks node"
    have "free_bytes ?t \<inter> {unat a ..< unat a + unat (int_page_bytes npages)} = {}"
      unfolding pr using assms(6) by (auto simp: numa_bytes_def)
    from free_range_ok [OF _ pre this] assms(1) pr obtain t' where
      t': "page_alloc_rbtree_free_range ?t a (int_page_bytes npages) = Some (0, t')" "free_tree_ok t'"
        "free_bytes t' = free_bytes ?t \<union> page_range a npages" by (auto simp: numa_ok_def)
    let ?n = "node\<lparr>nn_free_chunks := t', nn_nr_free_pages := nn_nr_free_pages node + word_of_int npages\<rparr>"
    have run: "ihk_numa_free_pages zaf dzaf ask node a npages = Some (?n, False)"
      using range assms(2) False t'(1) by (auto simp: ihk_numa_free_pages_def)
    have "4096 * unat (nn_nr_free_pages node + word_of_int npages) = card (free_bytes t')"
      using t' assms(1,2,6) n31 by (intro nr_free_add [of t' _ ?t "page_range a npages"])
        (auto simp: numa_ok_def page_range_card word_of_npages numa_bytes_def)
    then have "numa_ok ?n" "numa_bytes ?n = numa_bytes node \<union> page_range a npages" "numa_range ?n = numa_range node"
      using assms(1,5,6) t' by (auto simp: numa_ok_def numa_bytes_def numa_waiting_def numa_range_def)
    with run show ?thesis by blast
  next
    case True
    let ?c = "\<lparr>fc_addr = a, fc_size = int_page_bytes npages\<rparr>"
    obtain n' sent where run: "ihk_numa_free_pages zaf dzaf ask node a npages = Some (n', sent)"
      and n': "nn_free_chunks n' = nn_free_chunks node" "nn_zeroed_list n' = nn_zeroed_list node"
        "nn_to_zero_list n' = ?c # nn_to_zero_list node" "nn_nr_free_pages n' = nn_nr_free_pages node"
        "nn_min_addr n' = nn_min_addr node" "nn_max_addr n' = nn_max_addr node"
      using range assms(2) True
      by (cases "ask \<and> sint (nn_zeroing_workers node) \<le> 0")
        (auto simp: ihk_numa_free_pages_def Let_def llist_add_def)
    have cb: "chunk_bytes ?c = page_range a npages" by (simp add: chunk_bytes_def chunk_beg_def chunk_lim_def pr)
    have "page_chunk_ok ?c" using pre assms(4) b by (auto simp: page_chunk_ok_def chunk_ok_def chunk_beg_def chunk_lim_def)
    then have "numa_ok n'" "numa_bytes n' = numa_bytes node \<union> page_range a npages" "numa_range n' = numa_range node"
      using assms(1,5,6) cb n' by (auto simp: numa_ok_def numa_bytes_def numa_waiting_def numa_range_def)
    with run show ?thesis by blast
  qed
qed

interpretation numa: phys_allocator "ihk_numa_alloc_pages zaf" "numa_dealloc zaf dzaf ask" numa_ok numa_bytes numa_range INT_PAGES_MAX
  for zaf dzaf ask
proof
  fix node npages p2align
  assume "numa_ok node" "request_ok npages p2align"
  from numa_alloc_sound [OF this, of zaf]
  show "\<exists>a node'. ihk_numa_alloc_pages zaf node npages p2align = Some (a, node') \<and> numa_ok node' \<and> numa_range node' = numa_range node \<and>
      (if a = 0 then numa_bytes node' = numa_bytes node
       else page_range a npages \<subseteq> numa_bytes node \<and> numa_bytes node' = numa_bytes node - page_range a npages)" by blast
next
  fix node a npages
  assume "numa_ok node" "0 < npages" "npages \<le> INT_PAGES_MAX" "4096 dvd unat a"
    "page_range a npages \<subseteq> numa_range node" "page_range a npages \<inter> numa_bytes node = {}"
  from numa_free_sound [OF this, of zaf dzaf ask]
  show "\<exists>node'. numa_dealloc zaf dzaf ask node a npages = Some node' \<and> numa_ok node' \<and> numa_range node' = numa_range node \<and>
      numa_bytes node' = numa_bytes node \<union> page_range a npages" by (auto simp: numa_dealloc_def)
next
  fix node npages p2align a node'
  assume "numa_ok node" "ihk_numa_alloc_pages zaf node npages p2align = Some (a, node')" "request_ok npages p2align"
  with numa_alloc_sound [of node npages p2align zaf] show "4096 dvd unat a" by auto
next
  fix node
  assume "numa_ok node"
  then show "numa_bytes node \<subseteq> numa_range node" by (simp add: numa_ok_def)
qed

lemma numa_alloc_found:
  assumes retry: "numa_alloc_retry zaf node npages = Some n1" "numa_ok n1" and req: "request_ok npages p2align"
    and b: "aligned_free (free_bytes (nn_free_chunks n1)) npages p2align b"
  shows "\<exists>a node'. ihk_numa_alloc_pages zaf node npages p2align = Some (a, node') \<and> a \<noteq> 0 \<and> 2 ^ (12 + p2align) dvd unat a"
proof -
  have n: "0 < npages" "npages < 2 ^ 31" using req by (simp_all add: request_ok_def)
  have "4096 * nat npages \<le> card (free_bytes (nn_free_chunks n1))"
    using card_mono [OF free_bytes_finite, of "{b ..< b + 4096 * nat npages}"] b by (simp add: aligned_free_def)
  then have "\<not> nn_nr_free_pages n1 < word_of_int npages"
    using retry(2) n word_of_npages [of npages] by (auto simp: numa_ok_def word_nat)
  moreover from alloc_pages_found [OF _ req b] retry(2) obtain a t' where
    "page_alloc_rbtree_alloc_pages (nn_free_chunks n1) npages p2align = Some (a, t')" "0 < unat a"
    "aligned_free (free_bytes (nn_free_chunks n1)) npages p2align (unat a)" by (auto simp: numa_ok_def)
  moreover from this have "a \<noteq> 0" "2 ^ (12 + p2align) dvd unat a" by (auto simp: aligned_free_def)
  ultimately show ?thesis using retry(1) by (simp add: ihk_numa_alloc_pages_def)
qed

lemma aligned_free_mono: "aligned_free A n p b \<Longrightarrow> A \<subseteq> B \<Longrightarrow> aligned_free B n p b"
  by (auto simp: aligned_free_def)

lemma numa_retry_zeroes:
  assumes ok: "numa_ok node" and zaf: "zaf" and n: "0 < npages" "npages \<le> INT_PAGES_MAX"
    and few: "card (free_bytes (nn_free_chunks node) \<union> chunks_bytes (nn_zeroed_list node)) < 4096 * nat npages"
    and c: "c \<in> set (nn_to_zero_list node)" "4096 * nat npages \<le> unat (fc_size c)"
    and sizes: "\<forall>d \<in> set (nn_to_zero_list node). unat (fc_size d) < 2 ^ 43"
  shows "\<exists>n1 d. numa_alloc_retry zaf node npages = Some n1 \<and> numa_ok n1 \<and> d \<in> set (nn_to_zero_list node) \<and>
           4096 * nat npages \<le> unat (fc_size d) \<and> chunk_bytes d \<subseteq> free_bytes (nn_free_chunks n1)"
proof -
  have n31: "npages < 2 ^ 31" using n(2) by (simp add: INT_PAGES_MAX_def)
  from numa_drain_node_ok [OF ok] obtain n1 where
    d: "numa_drain_zeroed (nn_zeroed_list node) node = Some n1" and n1: "numa_ok n1" "nn_to_zero_list n1 = nn_to_zero_list node"
      "free_bytes (nn_free_chunks n1) = free_bytes (nn_free_chunks node) \<union> chunks_bytes (nn_zeroed_list node)" by blast
  have few': "nn_nr_free_pages n1 < word_of_int npages"
    using n1(1,3) few n(1) n31 word_of_npages [of npages] by (auto simp: numa_ok_def word_nat)
  have b: "unat (int_page_bytes npages) = 4096 * nat npages" using int_page_bytes_unat n by simp
  obtain us e vs where e: "nn_to_zero_list n1 = us @ e # vs" "\<not> fc_size e < int_page_bytes npages"
    and z: "numa_zero_one n1 npages 0 = (zero_chunk_done e (n1\<lparr>nn_to_zero_list := us @ vs\<rparr>), to_int (drop_bit PAGE_SHIFT (fc_size e)))"
  proof (cases rule: numa_zero_one_cases [of n1 npages 0])
    case none
    with c n1(2) b show thesis by (auto simp: word_nat)
  next
    case (moved us e vs)
    with that [of us e vs] show thesis by simp
  qed
  let ?n2 = "zero_chunk_done e (n1\<lparr>nn_to_zero_list := us @ vs\<rparr>)"
  have big: "4096 * nat npages \<le> unat (fc_size e)" "e \<in> set (nn_to_zero_list node)"
    using e b n1(2) by (auto simp: word_nat)
  have "unat (fc_size e) < 2 ^ 43" using sizes big(2) by blast
  then have "unat (fc_size e) div 4096 < 2 ^ 31" by (simp add: less_mult_imp_div_less)
  then have "to_int (drop_bit PAGE_SHIFT (fc_size e)) = int (unat (fc_size e) div 4096)"
    by (simp add: to_int_small drop_page_shift)
  moreover have "nat npages \<le> unat (fc_size e) div 4096" using big(1) by (simp add: less_eq_div_iff_mult_less_eq mult.commute)
  ultimately have "npages \<le> to_int (drop_bit PAGE_SHIFT (fc_size e))" using n(1) by linarith
  then have again: "numa_alloc_retry zaf node npages = numa_alloc_retry zaf ?n2 npages"
    using zaf d few' z n(1)
    by (subst numa_alloc_retry.simps) (simp add: numa_zero_free_pages_def numa_zero_node_def)
  have ok2: "numa_ok ?n2" using numa_zero_one_ok [OF n1(1) z] by blast
  from numa_alloc_retry_ok [OF ok2 n(1), of zaf] zaf obtain n3 where
    n3: "numa_alloc_retry zaf ?n2 npages = Some n3" "numa_ok n3"
      "chunks_bytes (nn_zeroed_list ?n2) \<subseteq> free_bytes (nn_free_chunks n3)" by blast
  have "chunk_bytes e \<subseteq> chunks_bytes (nn_zeroed_list ?n2)" by (simp add: zero_chunk_done_def llist_add_def)
  with n3 again big show ?thesis by (intro exI [of _ n3] exI [of _ e]) auto
qed

lemma page_chunk_aligned_free:
  assumes "page_chunk_ok d" "4096 * nat npages \<le> unat (fc_size d)" "chunk_bytes d \<subseteq> B"
  shows "aligned_free B npages 0 (chunk_beg d)"
  using assms by (auto simp: page_chunk_ok_def aligned_free_def chunk_bytes_def chunk_beg_def chunk_lim_def subset_iff)

lemma chunks_apart_mem: "chunks_apart cs \<Longrightarrow> c \<in> set cs \<Longrightarrow> page_chunk_ok c"
  by (induction cs) auto

subsection \<open>Properties\<close>

text \<open>C5: over any sequence of allocations and frees on a NUMA node, with or without zeroing at
  free, deferred or not, every call returns, the ranges held are pairwise disjoint, apart from
  what the node still has (free tree, zeroed list and to-zero list), and nothing is lost.\<close>

theorem numa_run_conserves:
  assumes "numa_ok node" "\<forall>op \<in> set ops. pa_op_ok INT_PAGES_MAX op"
  shows "\<exists>node' held. pa_run (ihk_numa_alloc_pages zaf) (numa_dealloc zaf dzaf ask) ops (node, []) = Some (node', held) \<and>
           numa_ok node' \<and> held_disjoint held \<and> numa_bytes node' \<inter> held_bytes held = {} \<and>
           numa_bytes node' \<union> held_bytes held = numa_bytes node"
  using assms by (rule numa.run_conserves)

text \<open>an allocation succeeds, with the alignment asked for, whenever an aligned range of the
  size lies in the free tree or, with zeroing at free, in the tree and the zeroed list together.\<close>

theorem numa_alloc_complete:
  assumes "numa_ok node" "request_ok npages p2align"
    and "aligned_free (free_bytes (nn_free_chunks node) \<union> (if zaf then chunks_bytes (nn_zeroed_list node) else {})) npages p2align b"
  shows "\<exists>a node'. ihk_numa_alloc_pages zaf node npages p2align = Some (a, node') \<and> a \<noteq> 0 \<and> 2 ^ (12 + p2align) dvd unat a"
proof -
  have n: "0 < npages" using assms(2) by (simp add: request_ok_def)
  from numa_alloc_retry_ok [OF assms(1) n, of zaf] obtain n1 where
    n1: "numa_alloc_retry zaf node npages = Some n1" "numa_ok n1" "free_bytes (nn_free_chunks node) \<subseteq> free_bytes (nn_free_chunks n1)"
      "zaf \<longrightarrow> chunks_bytes (nn_zeroed_list node) \<subseteq> free_bytes (nn_free_chunks n1)" by blast
  have "aligned_free (free_bytes (nn_free_chunks n1)) npages p2align b"
    using n1(3,4) by (intro aligned_free_mono [OF assms(3)]) auto
  from numa_alloc_found [OF n1(1,2) assms(2) this] show ?thesis .
qed

text \<open>C14: the retry loop does its work.  When too few pages are free but a chunk that waits to be
  zeroed is big enough (and the chunks are below 8 TiB, so that page counts fit an \<open>int\<close>), the
  chunk is zeroed in the allocation path and the allocation succeeds.\<close>

theorem numa_alloc_zeroes_on_demand:
  assumes "numa_ok node" "0 < npages" "npages \<le> INT_PAGES_MAX"
    and "card (free_bytes (nn_free_chunks node) \<union> chunks_bytes (nn_zeroed_list node)) < 4096 * nat npages"
    and "c \<in> set (nn_to_zero_list node)" "4096 * nat npages \<le> unat (fc_size c)"
    and "\<forall>d \<in> set (nn_to_zero_list node). unat (fc_size d) < 2 ^ 43"
  shows "\<exists>a node'. ihk_numa_alloc_pages True node npages 0 = Some (a, node') \<and> a \<noteq> 0"
proof -
  from numa_retry_zeroes [OF assms(1) TrueI assms(2-7)] obtain n1 d where
    n1: "numa_alloc_retry True node npages = Some n1" "numa_ok n1" and d: "d \<in> set (nn_to_zero_list node)"
      "4096 * nat npages \<le> unat (fc_size d)" "chunk_bytes d \<subseteq> free_bytes (nn_free_chunks n1)" by blast
  have "page_chunk_ok d" using assms(1) d(1) chunks_apart_mem by (auto simp: numa_ok_def numa_waiting_def)
  from page_chunk_aligned_free [OF this d(2,3)] have "aligned_free (free_bytes (nn_free_chunks n1)) npages 0 (chunk_beg d)" .
  moreover have "request_ok npages 0" using assms(2,3) by (simp add: request_ok_def INT_PAGES_MAX_def)
  ultimately show ?thesis using numa_alloc_found [OF n1] by blast
qed

lemma numa_add_free_sound:
  assumes "numa_ok node" "0 < unat addr" "0 < unat sz" "4096 dvd unat sz" "unat addr + unat sz \<le> PHYS_LIMIT"
    and "{unat addr ..< unat addr + unat sz} \<inter> numa_bytes node = {}"
  shows "\<exists>node'. ihk_numa_add_free_pages node addr sz = Some (0, node') \<and> numa_ok node' \<and>
           numa_bytes node' = numa_bytes node \<union> {unat addr ..< unat addr + unat sz} \<and>
           numa_range node \<union> {unat addr ..< unat addr + unat sz} \<subseteq> numa_range node' \<and>
           nn_nr_pages node' = nn_nr_pages node + drop_bit 12 sz"
proof -
  let ?R = "{unat addr ..< unat addr + unat sz}" and ?t = "nn_free_chunks node"
  have t: "free_tree_ok ?t" "free_bytes ?t \<inter> ?R = {}" using assms(1,6) by (auto simp: numa_ok_def numa_bytes_def)
  from free_range_ok [OF t(1) assms(2,3,5) t(2)] obtain t' where
    t': "page_alloc_rbtree_free_range ?t addr sz = Some (0, t')" "free_tree_ok t'" "free_bytes t' = free_bytes ?t \<union> ?R" by blast
  have nr: "4096 * unat (nn_nr_free_pages node + drop_bit PAGE_SHIFT sz) = card (free_bytes t')"
    using t' t(2) assms(1,4) by (intro nr_free_add [of t' _ ?t ?R]) (auto simp: numa_ok_def drop_page_shift)
  define node' where "node' = node\<lparr>nn_free_chunks := t',
      nn_min_addr := (if addr < nn_min_addr node then addr else nn_min_addr node),
      nn_max_addr := (if nn_max_addr node < addr + sz then addr + sz else nn_max_addr node),
      nn_nr_pages := nn_nr_pages node + drop_bit PAGE_SHIFT sz,
      nn_nr_free_pages := nn_nr_free_pages node + drop_bit PAGE_SHIFT sz\<rparr>"
  have run: "ihk_numa_add_free_pages node addr sz = Some (0, node')"
    by (simp add: ihk_numa_add_free_pages_def t'(1) node'_def)
  have e: "unat (addr + sz) = unat addr + unat sz" using range_end_unat [OF assms(5)] .
  have w: "numa_waiting node' = numa_waiting node" "nn_free_chunks node' = t'" by (simp_all add: node'_def numa_waiting_def)
  have bytes: "numa_bytes node' = numa_bytes node \<union> ?R" unfolding numa_bytes_def w t'(3) by auto
  have bounds: "unat (nn_min_addr node') = min (unat addr) (unat (nn_min_addr node))"
    "unat (nn_max_addr node') = max (unat addr + unat sz) (unat (nn_max_addr node))"
    using e by (auto simp: node'_def word_nat min_def max_def)
  have range: "numa_range node \<union> ?R \<subseteq> numa_range node'" by (auto simp: numa_range_def bounds)
  have ok: "chunks_apart (numa_waiting node)" "0 < unat (nn_min_addr node)" "unat (nn_max_addr node) \<le> PHYS_LIMIT"
    "numa_bytes node \<subseteq> numa_range node" using assms(1) by (simp_all add: numa_ok_def)
  have "numa_ok node'"
    unfolding numa_ok_def w
  proof (intro conjI)
    show "free_bytes t' \<inter> chunks_bytes (numa_waiting node) = {}"
      using assms(1,6) t'(3) by (auto simp: numa_ok_def numa_bytes_def)
    show "4096 * unat (nn_nr_free_pages node') = card (free_bytes t')" using nr by (simp add: node'_def)
    show "0 < unat (nn_min_addr node')" "unat (nn_max_addr node') \<le> PHYS_LIMIT" using bounds ok(2,3) assms(2,5) by simp_all
    show "numa_bytes node' \<subseteq> numa_range node'" using bytes range ok(4) by blast
  qed (use t'(2) ok(1) in simp_all)
  with run bytes range show ?thesis by (auto simp: node'_def PAGE_SHIFT_def)
qed

text \<open>adding a region of whole pages the node does not have yet to a node keeps its
  invariant, adds exactly the region to the memory it can hand out, and widens its address
  range to include it.\<close>

theorem numa_add_free_pages_correct:
  assumes "numa_ok node" "0 < unat addr" "0 < unat sz" "4096 dvd unat sz" "unat addr + unat sz \<le> PHYS_LIMIT"
    and "{unat addr ..< unat addr + unat sz} \<inter> numa_bytes node = {}"
  shows "\<exists>node'. ihk_numa_add_free_pages node addr sz = Some (0, node') \<and> numa_ok node' \<and>
           numa_bytes node' = numa_bytes node \<union> {unat addr ..< unat addr + unat sz} \<and>
           numa_range node \<union> {unat addr ..< unat addr + unat sz} \<subseteq> numa_range node' \<and>
           nn_nr_pages node' = nn_nr_pages node + drop_bit 12 sz"
  using numa_add_free_sound [OF assms] .

text \<open>C19: \<open>npages << PAGE_SHIFT\<close> is computed in \<open>int\<close>.  Freeing exactly 2 GiB (\<open>0x80000\<close> pages) at an
  address below 2 GiB is therefore dropped by the range check, although the range is inside the
  node: the pages are lost.\<close>

theorem numa_free_2gib_lost:
  assumes "unat addr < 2 ^ 31" "unat (nn_max_addr node) \<le> PHYS_LIMIT"
  shows "ihk_numa_free_pages zaf dzaf ask node addr 0x80000 = Some (node, False)"
proof -
  have "int_page_bytes 0x80000 = 0xFFFFFFFF80000000" by (simp add: int_page_bytes_def PAGE_SHIFT_def scast_eq)
  moreover have "unat (addr + 0xFFFFFFFF80000000) = unat addr + 0xFFFFFFFF80000000"
    using assms(1) by (subst u64_add) auto
  ultimately have "nn_max_addr node < addr + int_page_bytes 0x80000"
    using assms(2) by (simp only: word_less_nat_alt PHYS_LIMIT_def) simp
  then show ?thesis by (simp add: ihk_numa_free_pages_def)
qed

subsection \<open>Witnesses\<close>

text \<open>16 free pages, a 32-page chunk that waits to be zeroed.\<close>

definition example_node :: numa_node where
  "example_node = \<lparr>nn_id = 0, nn_free_chunks = example_tree, nn_zeroed_list = [],
     nn_to_zero_list = [\<lparr>fc_addr = 0x40000, fc_size = 0x20000\<rparr>], nn_nr_to_zero_pages = 32, nn_zeroing_workers = 0,
     nn_nr_pages = 48, nn_nr_free_pages = 16, nn_min_addr = 0x10000, nn_max_addr = 0x60000\<rparr>"

lemma example_node_ok: "numa_ok example_node"
  by (auto simp: numa_ok_def example_node_def numa_waiting_def page_chunk_ok_def chunk_ok_def chunk_beg_def chunk_lim_def
      chunk_bytes_def PHYS_LIMIT_def numa_bytes_def numa_range_def example_tree_ok example_tree_bytes)

lemma example_node_bytes: "numa_bytes example_node = {0x10000 ..< 0x20000} \<union> {0x40000 ..< 0x60000}"
  by (simp add: numa_bytes_def example_node_def numa_waiting_def example_tree_bytes chunk_bytes_def chunk_beg_def chunk_lim_def)

theorem numa_run_conserves_witness:
  "\<exists>node' held. pa_run (ihk_numa_alloc_pages True) (numa_dealloc True True False)
       [PA_Alloc 20 0, PA_Alloc 4 2, PA_Free 1, PA_Alloc 3 0] (example_node, []) = Some (node', held) \<and>
     held_disjoint held \<and> numa_bytes node' \<union> held_bytes held = {0x10000 ..< 0x20000} \<union> {0x40000 ..< 0x60000}"
  using numa_run_conserves [OF example_node_ok, of "[PA_Alloc 20 0, PA_Alloc 4 2, PA_Free 1, PA_Alloc 3 0]" True True False]
  by (auto simp: request_ok_def INT_PAGES_MAX_def example_node_bytes)

theorem numa_alloc_complete_witness:
  "\<exists>a node'. ihk_numa_alloc_pages True example_node 2 1 = Some (a, node') \<and> a \<noteq> 0 \<and> 2 ^ 13 dvd unat a"
  using numa_alloc_complete [OF example_node_ok, of 2 1 True "0x10000"] example_aligned
  by (simp add: request_ok_def example_node_def example_tree_bytes)

theorem numa_alloc_zeroes_on_demand_witness:
  "\<exists>a node'. ihk_numa_alloc_pages True example_node 20 0 = Some (a, node') \<and> a \<noteq> 0"
  using numa_alloc_zeroes_on_demand [OF example_node_ok, of 20 "\<lparr>fc_addr = 0x40000, fc_size = 0x20000\<rparr>"]
  by (simp add: INT_PAGES_MAX_def example_node_def example_tree_bytes)

theorem numa_add_free_pages_correct_witness:
  "\<exists>node'. ihk_numa_add_free_pages example_node 0x80000 0x8000 = Some (0, node') \<and> numa_ok node' \<and>
     numa_bytes node' = numa_bytes example_node \<union> {0x80000 ..< 0x88000}"
proof -
  have "{unat (0x80000::u64) ..< unat (0x80000::u64) + unat (0x8000::u64)} \<inter> numa_bytes example_node = {}"
    by (simp add: example_node_bytes Int_Un_distrib)
  from numa_add_free_pages_correct [OF example_node_ok _ _ _ _ this] show ?thesis
    by (auto simp: PHYS_LIMIT_def)
qed

theorem numa_free_2gib_lost_witness:
  "ihk_numa_free_pages True False False (example_node\<lparr>nn_max_addr := 0x100000000\<rparr>) 0x20000 0x80000 =
     Some (example_node\<lparr>nn_max_addr := 0x100000000\<rparr>, False)"
  by (rule numa_free_2gib_lost) (simp_all add: PHYS_LIMIT_def)

end
