(* ===== verification/PageHash.thy ===== *)
theory PageHash
  imports Prelude
begin

section \<open>The hash of shared pages\<close>

text \<open>
  \<open>kernel/mem.c\<close>, \<open>phys_to_page\<close> and its companions, and the accessors of \<open>kernel/include/page.h\<close>:
  page structures exist only for pages that are mapped through a memory object.  Structures live
  in a store, the buckets are lists of their addresses.
\<close>

datatype page_mode = PM_NONE | PM_PENDING_FREE | PM_WILL_PAGEIO | PM_PAGEIO | PM_DONE_PAGEIO | PM_PAGEIO_EOF | PM_PAGEIO_ERROR | PM_MAPPED

record page =
  pg_mode :: page_mode
  pg_phys :: u64
  pg_count :: int
  pg_mapped :: int
  pg_offset :: int

record page_hash =
  ph_bucket :: "nat \<Rightarrow> nat list"
  ph_page :: "nat \<Rightarrow> page"

definition PHYS_PAGE_HASH_SIZE :: nat where
  "PHYS_PAGE_HASH_SIZE = 2 ^ 10"

definition page_hash_index :: "u64 \<Rightarrow> nat" where
  "page_hash_index phys = unat (drop_bit PAGE_SHIFT phys AND word_of_nat (PHYS_PAGE_HASH_SIZE - 1))"

definition page_init :: "page_hash \<Rightarrow> page_hash" where
  "page_init h = h\<lparr>ph_bucket := (\<lambda>i. if i < PHYS_PAGE_HASH_SIZE then [] else ph_bucket h i)\<rparr>"

definition page_hash_count_pages :: "page_hash \<Rightarrow> nat" where
  "page_hash_count_pages h = fold (\<lambda>i cnt. cnt + length (ph_bucket h i)) [0 ..< PHYS_PAGE_HASH_SIZE] 0"

definition phys_to_page :: "page_hash \<Rightarrow> u64 \<Rightarrow> nat option" where
  "phys_to_page h phys = find (\<lambda>p. pg_phys (ph_page h p) = phys) (ph_bucket h (page_hash_index phys))"

definition page_to_phys :: "page_hash \<Rightarrow> nat option \<Rightarrow> u64" where
  "page_to_phys h page = (case page of None \<Rightarrow> 0 | Some p \<Rightarrow> pg_phys (ph_page h p))"

text \<open>\<open>new\<close> is what \<open>kmalloc\<close> returns if it is called.  The fields \<open>mapped\<close> and \<open>offset\<close> of a new structure
  are left as they are in memory.\<close>

definition phys_to_page_insert_hash :: "nat option \<Rightarrow> u64 \<Rightarrow> page_hash \<Rightarrow> nat option \<times> page_hash" where
  "phys_to_page_insert_hash new phys h =
     (case phys_to_page h phys of
        Some p \<Rightarrow> (Some p, h)
      | None \<Rightarrow>
          (case new of
             None \<Rightarrow> (None, h)
           | Some p \<Rightarrow>
               (let i = page_hash_index phys
                in (Some p, h\<lparr>ph_bucket := (ph_bucket h)(i := p # ph_bucket h i),
                              ph_page := (ph_page h)(p := (ph_page h p)\<lparr>pg_phys := phys, pg_mode := PM_NONE, pg_count := 0\<rparr>)\<rparr>))))"

definition page_map :: "nat \<Rightarrow> page_hash \<Rightarrow> page_hash" where
  "page_map p h = h\<lparr>ph_page := (ph_page h)(p := (ph_page h p)\<lparr>pg_count := pg_count (ph_page h p) + 1\<rparr>)\<rparr>"

definition page_unmap :: "nat \<Rightarrow> page_hash \<Rightarrow> int \<times> page_hash" where
  "page_unmap p h =
     (let i = page_hash_index (pg_phys (ph_page h p)); cnt = pg_count (ph_page h p) - 1;
          h = h\<lparr>ph_page := (ph_page h)(p := (ph_page h p)\<lparr>pg_count := cnt\<rparr>)\<rparr>
      in if cnt > 0 then (0, h)
         else (1, h\<lparr>ph_bucket := (ph_bucket h)(i := remove1 p (ph_bucket h i))\<rparr>))"

definition page_is_in_memobj :: "page \<Rightarrow> bool" where
  "page_is_in_memobj pg \<longleftrightarrow> pg_mode pg = PM_MAPPED \<or> pg_mode pg = PM_PAGEIO \<or> pg_mode pg = PM_WILL_PAGEIO \<or>
     pg_mode pg = PM_DONE_PAGEIO \<or> pg_mode pg = PM_PAGEIO_EOF \<or> pg_mode pg = PM_PAGEIO_ERROR"

definition page_is_multi_mapped :: "page \<Rightarrow> bool" where
  "page_is_multi_mapped pg \<longleftrightarrow> pg_count pg > 1"

subsection \<open>The invariant\<close>

text \<open>Every structure is in the bucket of its address and only there, once, and no two structures
  have the same address; so the hash is a partial map from addresses to structures.\<close>

definition page_hash_ok :: "page_hash \<Rightarrow> bool" where
  "page_hash_ok h \<longleftrightarrow> (\<forall>i p. p \<in> set (ph_bucket h i) \<longrightarrow> page_hash_index (pg_phys (ph_page h p)) = i) \<and>
     (\<forall>i. distinct (map (\<lambda>p. pg_phys (ph_page h p)) (ph_bucket h i)))"

definition hashed :: "page_hash \<Rightarrow> nat set" where
  "hashed h = (\<Union>i. set (ph_bucket h i))"

lemma page_hash_index_bound: "page_hash_index phys < PHYS_PAGE_HASH_SIZE"
proof -
  have "drop_bit PAGE_SHIFT phys AND word_of_nat (PHYS_PAGE_HASH_SIZE - 1) \<le> (word_of_nat (PHYS_PAGE_HASH_SIZE - 1) :: u64)"
    by (rule word_and_le1)
  then have "page_hash_index phys \<le> unat (word_of_nat (PHYS_PAGE_HASH_SIZE - 1) :: u64)"
    unfolding page_hash_index_def by (simp add: word_le_nat_alt)
  also have "unat (word_of_nat (PHYS_PAGE_HASH_SIZE - 1) :: u64) = 1023" by (simp add: PHYS_PAGE_HASH_SIZE_def)
  finally show ?thesis by (simp add: PHYS_PAGE_HASH_SIZE_def)
qed

lemma phys_to_page_Some:
  assumes "page_hash_ok h"
  shows "phys_to_page h phys = Some p \<longleftrightarrow> p \<in> hashed h \<and> pg_phys (ph_page h p) = phys"
proof
  assume "phys_to_page h phys = Some p"
  then show "p \<in> hashed h \<and> pg_phys (ph_page h p) = phys" by (auto simp: phys_to_page_def find_Some_iff hashed_def intro!: exI [of _ "page_hash_index phys"])
next
  assume p: "p \<in> hashed h \<and> pg_phys (ph_page h p) = phys"
  then obtain i where i: "p \<in> set (ph_bucket h i)" by (auto simp: hashed_def)
  with assms p have "i = page_hash_index phys" by (auto simp: page_hash_ok_def)
  with i p have mem: "p \<in> set (ph_bucket h (page_hash_index phys))" by simp
  then obtain q where q: "phys_to_page h phys = Some q"
    using p by (cases "phys_to_page h phys") (auto simp: phys_to_page_def find_None_iff)
  then have q': "q \<in> set (ph_bucket h (page_hash_index phys))" "pg_phys (ph_page h q) = phys"
    by (auto simp: phys_to_page_def find_Some_iff)
  have "inj_on (\<lambda>p. pg_phys (ph_page h p)) (set (ph_bucket h (page_hash_index phys)))"
    using assms by (simp add: page_hash_ok_def distinct_map)
  with mem q' p have "q = p" by (auto dest: inj_onD)
  with q show "phys_to_page h phys = Some p" by simp
qed

lemma phys_to_page_None:
  "page_hash_ok h \<Longrightarrow> phys_to_page h phys = None \<longleftrightarrow> (\<forall>p \<in> hashed h. pg_phys (ph_page h p) \<noteq> phys)"
  using phys_to_page_Some [of h phys] by (metis not_None_eq)

lemma insert_hash_sound:
  assumes ok: "page_hash_ok h" and new: "\<And>p. new = Some p \<Longrightarrow> p \<notin> hashed h"
    and ins: "phys_to_page_insert_hash new phys h = (res, h')"
  shows "page_hash_ok h' \<and> phys_to_page h' phys = res \<and> (\<forall>other. other \<noteq> phys \<longrightarrow> phys_to_page h' other = phys_to_page h other) \<and>
    (res = None \<longleftrightarrow> phys_to_page h phys = None \<and> new = None)"
proof (cases "phys_to_page h phys \<noteq> None \<or> new = None")
  case True
  then have "h' = h" "res = phys_to_page h phys" using ins by (auto simp: phys_to_page_insert_hash_def split: option.splits)
  with ok True show ?thesis by auto
next
  case False
  then obtain p where p: "new = Some p" "p \<notin> hashed h" and none: "phys_to_page h phys = None" using new by auto
  define i where "i = page_hash_index phys"
  have h': "res = Some p" "h' = h\<lparr>ph_bucket := (ph_bucket h)(i := p # ph_bucket h i),
      ph_page := (ph_page h)(p := (ph_page h p)\<lparr>pg_phys := phys, pg_mode := PM_NONE, pg_count := 0\<rparr>)\<rparr>"
    using ins none p by (simp_all add: phys_to_page_insert_hash_def i_def Let_def)
  have old: "q \<noteq> p" if "q \<in> set (ph_bucket h j)" for q j using p(2) that by (auto simp: hashed_def)
  have phys: "pg_phys (ph_page h' q) = (if q = p then phys else pg_phys (ph_page h q))" for q by (simp add: h'(2))
  have bucket: "ph_bucket h' j = (if j = i then p # ph_bucket h i else ph_bucket h j)" for j by (simp add: h'(2))
  have hashed': "hashed h' = insert p (hashed h)" unfolding hashed_def bucket by (auto split: if_splits)
  have maps: "map (\<lambda>q. pg_phys (ph_page h' q)) (ph_bucket h j) = map (\<lambda>q. pg_phys (ph_page h q)) (ph_bucket h j)" for j
    using old by (auto simp: phys)
  have nophys: "phys \<notin> set (map (\<lambda>q. pg_phys (ph_page h q)) (ph_bucket h i))"
    using none ok by (auto simp: phys_to_page_None hashed_def)
  have ok': "page_hash_ok h'" unfolding page_hash_ok_def
  proof (intro conjI allI impI)
    show "page_hash_index (pg_phys (ph_page h' q)) = j" if "q \<in> set (ph_bucket h' j)" for j q
      using that ok old by (auto simp: phys bucket i_def page_hash_ok_def split: if_splits)
    show "distinct (map (\<lambda>q. pg_phys (ph_page h' q)) (ph_bucket h' j))" for j
      using ok nophys phys [of p] by (auto simp: bucket maps page_hash_ok_def simp del: set_map)
  qed
  have "phys_to_page h' other = phys_to_page h other" if "other \<noteq> phys" for other
  proof -
    have "phys_to_page h' other = Some q \<longleftrightarrow> phys_to_page h other = Some q" for q
      unfolding phys_to_page_Some [OF ok'] phys_to_page_Some [OF ok] hashed' phys using that p(2) by auto
    then show ?thesis by (cases "phys_to_page h other"; cases "phys_to_page h' other") auto
  qed
  moreover have "phys_to_page h' phys = Some p" unfolding phys_to_page_Some [OF ok'] hashed' by (simp add: phys)
  ultimately show ?thesis using ok' h'(1) p(1) by simp
qed

lemma unmap_sound:
  assumes ok: "page_hash_ok h" and p: "phys_to_page h phys = Some p" and u: "page_unmap p h = (ret, h')"
  shows "page_hash_ok h' \<and> (\<forall>other. other \<noteq> phys \<longrightarrow> phys_to_page h' other = phys_to_page h other) \<and>
    (if pg_count (ph_page h p) > 1 then ret = 0 \<and> phys_to_page h' phys = Some p \<and> pg_count (ph_page h' p) = pg_count (ph_page h p) - 1
     else ret = 1 \<and> phys_to_page h' phys = None)"
proof -
  define i where "i = page_hash_index phys"
  have pp: "p \<in> hashed h" "pg_phys (ph_page h p) = phys" using p phys_to_page_Some [OF ok] by auto
  have phys: "pg_phys (ph_page h' q) = pg_phys (ph_page h q)" for q
    using u by (auto simp: page_unmap_def Let_def split: if_splits)
  show ?thesis
  proof (cases "pg_count (ph_page h p) > 1")
    case True
    then have h': "ret = 0" "ph_bucket h' = ph_bucket h" "pg_count (ph_page h' p) = pg_count (ph_page h p) - 1"
      using u by (auto simp: page_unmap_def Let_def)
    have "page_hash_ok h'" using ok by (simp add: page_hash_ok_def phys h'(2))
    moreover have "phys_to_page h' = phys_to_page h" by (rule ext) (simp add: phys_to_page_def phys h'(2))
    ultimately show ?thesis using True h' p by simp
  next
    case False
    then have h': "ret = 1" "ph_bucket h' = (ph_bucket h)(i := remove1 p (ph_bucket h i))"
      using u pp(2) by (auto simp: page_unmap_def Let_def i_def)
    have dis: "distinct (ph_bucket h j)" for j using ok by (auto simp: page_hash_ok_def distinct_map)
    have ok': "page_hash_ok h'"
      using ok by (auto simp: page_hash_ok_def phys h'(2) distinct_map dest: notin_set_remove1 intro: inj_on_subset split: if_splits)
    have only: "p \<notin> set (ph_bucket h j)" if "j \<noteq> i" for j
    proof
      assume "p \<in> set (ph_bucket h j)"
      then have "page_hash_index (pg_phys (ph_page h p)) = j" using ok by (auto simp: page_hash_ok_def)
      with pp(2) that show False by (simp add: i_def)
    qed
    have hashed': "hashed h' = hashed h - {p}"
    proof (intro set_eqI iffI)
      fix q
      show "q \<in> hashed h - {p}" if "q \<in> hashed h'"
        using that dis only by (auto simp: hashed_def h'(2) split: if_splits)
      show "q \<in> hashed h'" if "q \<in> hashed h - {p}"
        using that dis by (auto simp: hashed_def h'(2)) (metis Diff_iff empty_iff insert_iff set_remove1_eq)
    qed
    have "phys_to_page h' other = phys_to_page h other" if "other \<noteq> phys" for other
    proof -
      have "phys_to_page h' other = Some q \<longleftrightarrow> phys_to_page h other = Some q" for q
        unfolding phys_to_page_Some [OF ok'] phys_to_page_Some [OF ok] hashed' phys using that pp(2) by auto
      then show ?thesis by (cases "phys_to_page h other"; cases "phys_to_page h' other") auto
    qed
    moreover have "phys_to_page h' phys = None"
    proof (cases "phys_to_page h' phys")
      case (Some q)
      then have "q \<in> hashed h" "q \<noteq> p" "pg_phys (ph_page h q) = phys" using phys_to_page_Some [OF ok'] hashed' phys by auto
      then have "phys_to_page h phys = Some q" using phys_to_page_Some [OF ok] by simp
      with p \<open>q \<noteq> p\<close> show ?thesis by simp
    qed
    ultimately show ?thesis using False ok' h'(1) by simp
  qed
qed

text \<open>C26: the hash of pages is a map from physical addresses to page structures.  Inserting gives the
  address its structure, an existing one or the new one, and unmapping takes it away exactly with the
  last mapping; neither changes the entry of another address.\<close>

theorem page_hash_map:
  assumes "page_hash_ok h" "new \<notin> hashed h"
  shows "\<exists>p h'. phys_to_page_insert_hash (Some new) phys h = (Some p, h') \<and> page_hash_ok h' \<and> phys_to_page h' phys = Some p \<and>
    p = (case phys_to_page h phys of None \<Rightarrow> new | Some q \<Rightarrow> q) \<and> (\<forall>other. other \<noteq> phys \<longrightarrow> phys_to_page h' other = phys_to_page h other) \<and>
    (\<exists>ret h''. page_unmap p (page_map p h') = (ret, h'') \<and> page_hash_ok h'' \<and>
       (\<forall>other. other \<noteq> phys \<longrightarrow> phys_to_page h'' other = phys_to_page h other) \<and>
       (if pg_count (ph_page h' p) > 0 then ret = 0 \<and> phys_to_page h'' phys = Some p else ret = 1 \<and> phys_to_page h'' phys = None))"
proof -
  obtain res h' where i: "phys_to_page_insert_hash (Some new) phys h = (res, h')" by (cases "phys_to_page_insert_hash (Some new) phys h")
  from insert_hash_sound [OF assms(1) _ i] assms(2) have
    s: "page_hash_ok h'" "phys_to_page h' phys = res" "\<forall>other. other \<noteq> phys \<longrightarrow> phys_to_page h' other = phys_to_page h other" "res \<noteq> None" by auto
  then obtain p where p: "res = Some p" by auto
  have peq: "p = (case phys_to_page h phys of None \<Rightarrow> new | Some q \<Rightarrow> q)"
    using i p by (auto simp: phys_to_page_insert_hash_def Let_def split: option.splits)
  have m: "pg_phys (ph_page (page_map p h') q) = pg_phys (ph_page h' q)" "ph_bucket (page_map p h') = ph_bucket h'"
    "pg_count (ph_page (page_map p h') p) = pg_count (ph_page h' p) + 1" for q by (simp_all add: page_map_def)
  have mok: "page_hash_ok (page_map p h')" using s(1) by (simp add: page_hash_ok_def m)
  have mlook: "phys_to_page (page_map p h') = phys_to_page h'" by (rule ext) (simp add: phys_to_page_def m)
  obtain ret h'' where u: "page_unmap p (page_map p h') = (ret, h'')" by (cases "page_unmap p (page_map p h')")
  from unmap_sound [OF mok _ u, of phys] s p mlook m(3) peq i u show ?thesis by (auto split: if_splits)
qed

theorem page_hash_map_witness:
  "\<exists>p h'. phys_to_page_insert_hash (Some 5) 0x7000 \<lparr>ph_bucket = (\<lambda>_. []), ph_page = (\<lambda>_. undefined)\<rparr> = (Some p, h') \<and>
     page_hash_ok h' \<and> phys_to_page h' 0x7000 = Some 5"
  using page_hash_map [of "\<lparr>ph_bucket = (\<lambda>_. []), ph_page = (\<lambda>_. undefined)\<rparr>" 5 "0x7000"]
  by (auto simp: page_hash_ok_def hashed_def phys_to_page_def)

end
