(* ===== verification/VmTypes.thy ===== *)
theory VmTypes
  imports Prelude
begin

section \<open>Ranges of a process address space and memory objects\<close>

text \<open>
  The structures of \<open>kernel/include/process.h\<close> and \<open>kernel/include/memobj.h\<close> that the accounting, the
  page allocation and the address space code share.  Pointers to memory objects are numbers into
  a store the operations take; 0 does not stand for NULL, \<open>None\<close> does.
\<close>

record vm_range =
  vr_start :: u64
  vr_end :: u64
  vr_flag :: u64
  vr_straight_start :: u64
  vr_memobj :: "nat option"
  vr_objoff :: u64
  vr_pgshift :: int
  vr_private_data :: nat

record memobj =
  mo_flags :: u32
  mo_refcnt :: int

definition "VR_STACK = (0x1 :: u64)"
definition "VR_RESERVED = (0x2 :: u64)"
definition "VR_AP_USER = (0x4 :: u64)"
definition "VR_IO_NOCACHE = (0x100 :: u64)"
definition "VR_REMOTE = (0x200 :: u64)"
definition "VR_WRITE_COMBINED = (0x400 :: u64)"
definition "VR_DONTFORK = (0x800 :: u64)"
definition "VR_DEMAND_PAGING = (0x1000 :: u64)"
definition "VR_PRIVATE = (0x2000 :: u64)"
definition "VR_LOCKED = (0x4000 :: u64)"
definition "VR_FILEOFF = (0x8000 :: u64)"
definition "VR_PROT_READ = (0x00010000 :: u64)"
definition "VR_PROT_WRITE = (0x00020000 :: u64)"
definition "VR_PROT_EXEC = (0x00040000 :: u64)"
definition "VR_PROT_MASK = (0x00070000 :: u64)"
definition "VR_MAXPROT_MASK = (0x00700000 :: u64)"
definition "VR_MEMTYPE_UC = (0x01000000 :: u64)"
definition "VR_MEMTYPE_MASK = (0x0f000000 :: u64)"
definition "VR_WIPEONFORK = (0x80000000 :: u64)"

definition PROT_TO_VR_FLAG :: "u64 \<Rightarrow> u64" where
  "PROT_TO_VR_FLAG prot = push_bit 16 prot AND VR_PROT_MASK"

definition VRFLAG_PROT_TO_MAXPROT :: "u64 \<Rightarrow> u64" where
  "VRFLAG_PROT_TO_MAXPROT vrflag = push_bit 4 (vrflag AND VR_PROT_MASK)"

definition VRFLAG_MAXPROT_TO_PROT :: "u64 \<Rightarrow> u64" where
  "VRFLAG_MAXPROT_TO_PROT vrflag = drop_bit 4 (vrflag AND VR_MAXPROT_MASK)"

definition "MF_HAS_PAGER = (0x0001 :: u32)"
definition "MF_ZEROFILL = (0x0010 :: u32)"
definition "MF_REG_FILE = (0x1000 :: u32)"
definition "MF_DEV_FILE = (0x2000 :: u32)"
definition "MF_PREMAP = (0x8000 :: u32)"
definition "MF_XPMEM = (0x10000 :: u32)"
definition "MF_ZEROOBJ = (0x20000 :: u32)"
definition "MF_SHM = (0x40000 :: u32)"
definition "MF_HUGETLBFS = (0x100000 :: u32)"
definition "MF_PRIVATE = (0x200000 :: u32)"

end
