(* ===== verification/Rusage.thy ===== *)
theory Rusage
  imports VmTypes
begin

section \<open>Memory accounting\<close>

text \<open>
  \<open>kernel/include/rusage_private.h\<close> with \<open>ENABLE_RUSAGE\<close>: the counters of memory and threads the
  kernel exports, the out-of-memory check of the page allocator and the per-process resident set.
  Counters are 64 bit words and wrap as in C.  The loops that raise a maximum with compare-and-swap
  are one step: without interference the first exchange succeeds.
\<close>

datatype pgtype = IHK_OS_PGSIZE_4KB | IHK_OS_PGSIZE_2MB | IHK_OS_PGSIZE_1GB

record rusage_global =
  ru_memory_stat_rss :: "pgtype \<Rightarrow> u64"
  ru_memory_stat_mapped_file :: "pgtype \<Rightarrow> u64"
  ru_rss_current :: u64
  ru_memory_max_usage :: u64
  ru_max_num_threads :: u64
  ru_num_threads :: u64
  ru_memory_kmem_usage :: u64
  ru_memory_kmem_max_usage :: u64
  ru_memory_numa_stat :: "nat \<Rightarrow> u64"
  ru_total_memory :: u64
  ru_total_memory_usage :: u64
  ru_total_memory_max_usage :: u64

text \<open>The resident set of an address space and of the process it belongs to, if any.\<close>

record vm_rss =
  vm_currss :: u64
  vm_proc :: "nat option"

record rusage_sys =
  rs_global :: rusage_global
  rs_vm :: "nat \<Rightarrow> vm_rss"
  rs_maxrss :: "nat \<Rightarrow> u64"
  rs_on_fork_vm :: "nat option"
  rs_current_vm :: nat

definition RUSAGE_OOM_MARGIN :: u64 where
  "RUSAGE_OOM_MARGIN = 2 * 1024 * 1024"

text \<open>\<open>pgsize_to_pgshift\<close> of the x86-64 port; sizes that are no page size give \<open>-EINVAL\<close>.\<close>

definition pgsize_to_pgshift :: "u64 \<Rightarrow> int" where
  "pgsize_to_pgshift pgsize =
     (if pgsize = 2 ^ 12 then 12 else if pgsize = 2 ^ 21 then 21 else if pgsize = 2 ^ 30 then 30
      else if pgsize = 2 ^ 39 then 39 else - EINVAL)"

definition rusage_pgsize_to_pgtype :: "u64 \<Rightarrow> pgtype" where
  "rusage_pgsize_to_pgtype pgsize =
     (let pgshift = pgsize_to_pgshift pgsize
      in if pgshift = 12 then IHK_OS_PGSIZE_4KB
         else if pgshift = 21 then IHK_OS_PGSIZE_2MB
         else if pgshift = 30 then IHK_OS_PGSIZE_1GB
         else IHK_OS_PGSIZE_4KB)"

definition rusage_total_memory_add :: "u64 \<Rightarrow> rusage_global \<Rightarrow> rusage_global" where
  "rusage_total_memory_add sz g = g\<lparr>ru_total_memory := ru_total_memory g + sz\<rparr>"

definition rusage_get_total_memory :: "rusage_global \<Rightarrow> u64" where
  "rusage_get_total_memory g = ru_total_memory g"

definition rusage_get_free_memory :: "rusage_global \<Rightarrow> u64" where
  "rusage_get_free_memory g = ru_total_memory g - ru_total_memory_usage g"

definition rusage_get_usage_memory :: "rusage_global \<Rightarrow> u64" where
  "rusage_get_usage_memory g = ru_total_memory_usage g"

definition raise_max :: "u64 \<Rightarrow> u64 \<Rightarrow> u64" where
  "raise_max newval oldval = (if newval > oldval then newval else oldval)"

definition rusage_rss_add :: "u64 \<Rightarrow> rusage_sys \<Rightarrow> rusage_sys" where
  "rusage_rss_add sz s =
     (let g = rs_global s; newval = ru_rss_current g + sz;
          g = g\<lparr>ru_rss_current := newval, ru_memory_max_usage := raise_max newval (ru_memory_max_usage g)\<rparr>;
          vm = (case rs_on_fork_vm s of None \<Rightarrow> rs_current_vm s | Some vm \<Rightarrow> vm);
          currss = vm_currss (rs_vm s vm) + sz;
          s = s\<lparr>rs_global := g, rs_vm := (rs_vm s)(vm := (rs_vm s vm)\<lparr>vm_currss := currss\<rparr>)\<rparr>
      in case vm_proc (rs_vm s vm) of
           None \<Rightarrow> s
         | Some p \<Rightarrow>
             if sint currss > sint (rs_maxrss s p) then s\<lparr>rs_maxrss := (rs_maxrss s)(p := currss)\<rparr> else s)"

definition rusage_rss_sub :: "u64 \<Rightarrow> rusage_sys \<Rightarrow> rusage_sys" where
  "rusage_rss_sub sz s =
     (let g = rs_global s; vm = rs_current_vm s
      in s\<lparr>rs_global := g\<lparr>ru_rss_current := ru_rss_current g - sz\<rparr>,
           rs_vm := (rs_vm s)(vm := (rs_vm s vm)\<lparr>vm_currss := vm_currss (rs_vm s vm) - sz\<rparr>)\<rparr>)"

definition memory_stat_rss_add :: "u64 \<Rightarrow> u64 \<Rightarrow> rusage_global \<Rightarrow> rusage_global" where
  "memory_stat_rss_add sz pgsize g =
     (let t = rusage_pgsize_to_pgtype pgsize
      in g\<lparr>ru_memory_stat_rss := (ru_memory_stat_rss g)(t := ru_memory_stat_rss g t + sz)\<rparr>)"

definition memory_stat_rss_sub :: "u64 \<Rightarrow> u64 \<Rightarrow> rusage_global \<Rightarrow> rusage_global" where
  "memory_stat_rss_sub sz pgsize g =
     (let t = rusage_pgsize_to_pgtype pgsize
      in g\<lparr>ru_memory_stat_rss := (ru_memory_stat_rss g)(t := ru_memory_stat_rss g t + - sz)\<rparr>)"

definition rusage_memory_stat_mapped_file_add :: "u64 \<Rightarrow> u64 \<Rightarrow> rusage_global \<Rightarrow> rusage_global" where
  "rusage_memory_stat_mapped_file_add sz pgsize g =
     (let t = rusage_pgsize_to_pgtype pgsize
      in g\<lparr>ru_memory_stat_mapped_file := (ru_memory_stat_mapped_file g)(t := ru_memory_stat_mapped_file g t + sz)\<rparr>)"

definition rusage_memory_stat_mapped_file_sub :: "u64 \<Rightarrow> u64 \<Rightarrow> rusage_global \<Rightarrow> rusage_global" where
  "rusage_memory_stat_mapped_file_sub sz pgsize g =
     (let t = rusage_pgsize_to_pgtype pgsize
      in g\<lparr>ru_memory_stat_mapped_file := (ru_memory_stat_mapped_file g)(t := ru_memory_stat_mapped_file g t + - sz)\<rparr>)"

text \<open>\<open>mapped\<close> is the counter of the page structure, \<open>None\<close> when there is no such structure; the
  result is the return value, the counters and the new value of the page's counter.  The first
  function looks the structure up with \<open>phys_to_page\<close>, the second gets it from its caller.\<close>

definition rusage_memory_stat_add ::
  "(nat \<Rightarrow> memobj) \<Rightarrow> (u64 \<Rightarrow> int option) \<Rightarrow> vm_range \<Rightarrow> u64 \<Rightarrow> u64 \<Rightarrow> u64 \<Rightarrow> rusage_global \<Rightarrow>
   int \<times> rusage_global \<times> (u64 \<Rightarrow> int option)" where
  "rusage_memory_stat_add objs pages rng phys sz pgsize g =
     (if vr_flag rng AND (VR_REMOTE OR VR_IO_NOCACHE OR VR_RESERVED) \<noteq> 0 then (0, g, pages)
      else
        (case vr_memobj rng of
           None \<Rightarrow> (1, memory_stat_rss_add sz pgsize g, pages)
         | Some obj \<Rightarrow>
             (let flags = mo_flags (objs obj)
              in if flags AND MF_DEV_FILE \<noteq> 0 \<or> flags AND MF_PREMAP \<noteq> 0 \<or> flags AND MF_XPMEM \<noteq> 0 then (0, g, pages)
                 else if flags AND MF_ZEROOBJ \<noteq> 0 then (1, memory_stat_rss_add sz pgsize g, pages)
                 else if flags AND (MF_DEV_FILE OR MF_REG_FILE OR MF_HUGETLBFS) \<noteq> 0 \<and> pages phys = None
                 then (1, memory_stat_rss_add sz pgsize g, pages)
                 else
                   (case pages phys of
                      None \<Rightarrow> (0, g, pages)
                    | Some mapped \<Rightarrow>
                        if mapped = 0
                        then (1, if flags AND MF_SHM \<noteq> 0 then memory_stat_rss_add sz pgsize g
                                 else rusage_memory_stat_mapped_file_add sz pgsize g, pages(phys \<mapsto> 1))
                        else (0, g, pages)))))"

definition rusage_memory_stat_add_with_page ::
  "(nat \<Rightarrow> memobj) \<Rightarrow> vm_range \<Rightarrow> u64 \<Rightarrow> u64 \<Rightarrow> int option \<Rightarrow> rusage_global \<Rightarrow> int \<times> rusage_global \<times> int option" where
  "rusage_memory_stat_add_with_page objs rng sz pgsize page g =
     (if vr_flag rng AND (VR_REMOTE OR VR_IO_NOCACHE OR VR_RESERVED) \<noteq> 0 then (0, g, page)
      else
        (case vr_memobj rng of
           None \<Rightarrow> (1, memory_stat_rss_add sz pgsize g, page)
         | Some obj \<Rightarrow>
             (let flags = mo_flags (objs obj)
              in if flags AND MF_DEV_FILE \<noteq> 0 \<or> flags AND MF_PREMAP \<noteq> 0 \<or> flags AND MF_XPMEM \<noteq> 0 then (0, g, page)
                 else if flags AND MF_ZEROOBJ \<noteq> 0 then (1, memory_stat_rss_add sz pgsize g, page)
                 else if flags AND (MF_DEV_FILE OR MF_REG_FILE) \<noteq> 0 \<and> page = None
                 then (1, memory_stat_rss_add sz pgsize g, page)
                 else
                   (case page of
                      None \<Rightarrow> (0, g, page)
                    | Some mapped \<Rightarrow>
                        if mapped = 0
                        then (1, if flags AND MF_SHM \<noteq> 0 then memory_stat_rss_add sz pgsize g
                                 else rusage_memory_stat_mapped_file_add sz pgsize g, Some 1)
                        else (0, g, page)))))"

definition rusage_memory_stat_sub :: "memobj \<Rightarrow> u64 \<Rightarrow> u64 \<Rightarrow> rusage_global \<Rightarrow> rusage_global" where
  "rusage_memory_stat_sub obj sz pgsize g =
     (if mo_flags obj AND MF_SHM \<noteq> 0 then memory_stat_rss_sub sz pgsize g
      else rusage_memory_stat_mapped_file_sub sz pgsize g)"

definition rusage_kmem_add :: "u64 \<Rightarrow> rusage_global \<Rightarrow> rusage_global" where
  "rusage_kmem_add sz g =
     (let newval = ru_memory_kmem_usage g + sz
      in g\<lparr>ru_memory_kmem_usage := newval, ru_memory_kmem_max_usage := raise_max newval (ru_memory_kmem_max_usage g)\<rparr>)"

definition rusage_kmem_sub :: "u64 \<Rightarrow> rusage_global \<Rightarrow> rusage_global" where
  "rusage_kmem_sub sz g = g\<lparr>ru_memory_kmem_usage := ru_memory_kmem_usage g - sz\<rparr>"

definition rusage_numa_add :: "nat \<Rightarrow> u64 \<Rightarrow> rusage_sys \<Rightarrow> rusage_sys" where
  "rusage_numa_add numa_id sz s =
     (let g = rs_global s
      in rusage_rss_add sz
           (s\<lparr>rs_global := g\<lparr>ru_memory_numa_stat := (ru_memory_numa_stat g)(numa_id := ru_memory_numa_stat g numa_id + sz)\<rparr>\<rparr>))"

definition rusage_numa_sub :: "nat \<Rightarrow> u64 \<Rightarrow> rusage_sys \<Rightarrow> rusage_sys" where
  "rusage_numa_sub numa_id sz s =
     (let s = rusage_rss_sub sz s; g = rs_global s
      in s\<lparr>rs_global := g\<lparr>ru_memory_numa_stat := (ru_memory_numa_stat g)(numa_id := ru_memory_numa_stat g numa_id - sz)\<rparr>\<rparr>)"

text \<open>The result is the return value and whether the out-of-memory event was signalled.\<close>

definition rusage_check_oom :: "u64 \<Rightarrow> bool \<Rightarrow> rusage_global \<Rightarrow> int \<times> bool" where
  "rusage_check_oom pages is_user g =
     (let sz = pages * PAGE_SIZE
      in if ru_total_memory_usage g + sz > ru_total_memory g - RUSAGE_OOM_MARGIN
         then (if is_user then - ENOMEM else 0, True)
         else (0, False))"

definition rusage_check_overmap :: "bool \<Rightarrow> u64 \<Rightarrow> nat \<Rightarrow> rusage_global \<Rightarrow> int" where
  "rusage_check_overmap overcommit_always len pgshift g =
     (if overcommit_always then 0
      else
        (let npages = to_int (drop_bit pgshift (len + push_bit pgshift 1 - 1));
             remain_pages = to_int (drop_bit pgshift (ru_total_memory g - ru_total_memory_usage g))
         in if npages > remain_pages then 1 else 0))"

definition rusage_page_add :: "nat \<Rightarrow> u64 \<Rightarrow> bool \<Rightarrow> rusage_sys \<Rightarrow> rusage_sys" where
  "rusage_page_add numa_id pages is_user s =
     (let sz = pages * PAGE_SIZE;
          s = (if is_user then rusage_numa_add numa_id sz s else s\<lparr>rs_global := rusage_kmem_add sz (rs_global s)\<rparr>);
          g = rs_global s; newval = ru_total_memory_usage g + sz
      in s\<lparr>rs_global := g\<lparr>ru_total_memory_usage := newval,
                           ru_total_memory_max_usage := raise_max newval (ru_total_memory_max_usage g)\<rparr>\<rparr>)"

definition rusage_page_sub :: "nat \<Rightarrow> u64 \<Rightarrow> bool \<Rightarrow> rusage_sys \<Rightarrow> rusage_sys" where
  "rusage_page_sub numa_id pages is_user s =
     (let sz = pages * PAGE_SIZE; g = rs_global s;
          s = s\<lparr>rs_global := g\<lparr>ru_total_memory_usage := ru_total_memory_usage g - sz\<rparr>\<rparr>
      in if is_user then rusage_numa_sub numa_id sz s
         else s\<lparr>rs_global := rusage_kmem_sub sz (rs_global s)\<rparr>)"

definition rusage_num_threads_inc :: "rusage_global \<Rightarrow> rusage_global" where
  "rusage_num_threads_inc g =
     (let newval = ru_num_threads g + 1
      in g\<lparr>ru_num_threads := newval, ru_max_num_threads := raise_max newval (ru_max_num_threads g)\<rparr>)"

definition rusage_num_threads_dec :: "rusage_global \<Rightarrow> rusage_global" where
  "rusage_num_threads_dec g = g\<lparr>ru_num_threads := ru_num_threads g - 1\<rparr>"

subsection \<open>Properties\<close>

text \<open>The counters agree: all memory in use is kernel memory or memory of some NUMA node, and the
  resident memory is the memory of the nodes.\<close>

definition rusage_balanced :: "nat \<Rightarrow> rusage_sys \<Rightarrow> bool" where
  "rusage_balanced n s \<longleftrightarrow>
     ru_total_memory_usage (rs_global s) = ru_memory_kmem_usage (rs_global s) + (\<Sum>i<n. ru_memory_numa_stat (rs_global s) i) \<and>
     ru_rss_current (rs_global s) = (\<Sum>i<n. ru_memory_numa_stat (rs_global s) i)"

datatype rusage_op = RU_Add nat u64 bool | RU_Sub nat u64 bool

fun rusage_step :: "rusage_op \<Rightarrow> rusage_sys \<Rightarrow> rusage_sys" where
  "rusage_step (RU_Add numa_id pages is_user) s = rusage_page_add numa_id pages is_user s"
| "rusage_step (RU_Sub numa_id pages is_user) s = rusage_page_sub numa_id pages is_user s"

fun rusage_op_ok :: "nat \<Rightarrow> rusage_op \<Rightarrow> bool" where
  "rusage_op_ok n (RU_Add numa_id pages is_user) \<longleftrightarrow> numa_id < n"
| "rusage_op_ok n (RU_Sub numa_id pages is_user) \<longleftrightarrow> numa_id < n"

lemma sum_upd:
  fixes f :: "nat \<Rightarrow> u64"
  assumes "k < n"
  shows "(\<Sum>i<n. (f(k := f k + d)) i) = (\<Sum>i<n. f i) + d"
proof -
  have "k \<in> {..<n}" using assms by simp
  then have "(\<Sum>i<n. (f(k := f k + d)) i) = f k + d + (\<Sum>i \<in> {..<n} - {k}. (f(k := f k + d)) i)"
    by (subst sum.remove [of _ k]) auto
  also have "(\<Sum>i \<in> {..<n} - {k}. (f(k := f k + d)) i) = (\<Sum>i \<in> {..<n} - {k}. f i)" by (intro sum.cong) auto
  also have "f k + d + (\<Sum>i \<in> {..<n} - {k}. f i) = (\<Sum>i<n. f i) + d" using \<open>k \<in> {..<n}\<close> by (subst (2) sum.remove [of _ k]) auto
  finally show ?thesis .
qed

lemma rss_add_global:
  "rs_global (rusage_rss_add sz s) = (rs_global s)\<lparr>ru_rss_current := ru_rss_current (rs_global s) + sz,
     ru_memory_max_usage := raise_max (ru_rss_current (rs_global s) + sz) (ru_memory_max_usage (rs_global s))\<rparr>"
  by (simp add: rusage_rss_add_def Let_def split: option.split)

lemma page_add_counters:
  "ru_total_memory_usage (rs_global (rusage_page_add k pages u s)) = ru_total_memory_usage (rs_global s) + pages * PAGE_SIZE"
  "ru_memory_kmem_usage (rs_global (rusage_page_add k pages u s)) = ru_memory_kmem_usage (rs_global s) + (if u then 0 else pages * PAGE_SIZE)"
  "ru_memory_numa_stat (rs_global (rusage_page_add k pages u s)) =
     (let f = ru_memory_numa_stat (rs_global s) in f(k := f k + (if u then pages * PAGE_SIZE else 0)))"
  "ru_rss_current (rs_global (rusage_page_add k pages u s)) = ru_rss_current (rs_global s) + (if u then pages * PAGE_SIZE else 0)"
  by (simp_all add: rusage_page_add_def rusage_numa_add_def rusage_kmem_add_def rss_add_global Let_def)

lemma page_sub_counters:
  "ru_total_memory_usage (rs_global (rusage_page_sub k pages u s)) = ru_total_memory_usage (rs_global s) - pages * PAGE_SIZE"
  "ru_memory_kmem_usage (rs_global (rusage_page_sub k pages u s)) = ru_memory_kmem_usage (rs_global s) - (if u then 0 else pages * PAGE_SIZE)"
  "ru_memory_numa_stat (rs_global (rusage_page_sub k pages u s)) =
     (let f = ru_memory_numa_stat (rs_global s) in f(k := f k + - (if u then pages * PAGE_SIZE else 0)))"
  "ru_rss_current (rs_global (rusage_page_sub k pages u s)) = ru_rss_current (rs_global s) - (if u then pages * PAGE_SIZE else 0)"
  by (simp_all add: rusage_page_sub_def rusage_numa_sub_def rusage_kmem_sub_def rusage_rss_sub_def Let_def)

lemma rusage_step_balanced:
  assumes "rusage_balanced n s" "rusage_op_ok n op"
  shows "rusage_balanced n (rusage_step op s)"
proof (cases op)
  case (RU_Add k pages u)
  with assms show ?thesis by (simp add: rusage_balanced_def page_add_counters Let_def sum_upd del: fun_upd_apply)
next
  case (RU_Sub k pages u)
  with assms show ?thesis
    using sum_upd [of k n "ru_memory_numa_stat (rs_global s)" "- (if u then pages * PAGE_SIZE else 0)"]
    by (simp add: rusage_balanced_def page_sub_counters Let_def del: fun_upd_apply)
qed


definition hugetlb_copy :: "(nat \<Rightarrow> memobj) \<Rightarrow> vm_range \<Rightarrow> int option \<Rightarrow> bool" where
  "hugetlb_copy objs rng page \<longleftrightarrow>
     page = None \<and> vr_flag rng AND (VR_REMOTE OR VR_IO_NOCACHE OR VR_RESERVED) = 0 \<and>
     (case vr_memobj rng of
        None \<Rightarrow> False
      | Some m \<Rightarrow>
          (let f = mo_flags (objs m)
           in f AND MF_DEV_FILE = 0 \<and> f AND MF_PREMAP = 0 \<and> f AND MF_XPMEM = 0 \<and> f AND MF_ZEROOBJ = 0 \<and>
              f AND (MF_DEV_FILE OR MF_REG_FILE) = 0 \<and> f AND (MF_DEV_FILE OR MF_REG_FILE OR MF_HUGETLBFS) \<noteq> 0))"

text \<open>the two routines that account for a mapping agree except for a private copy of a page of a
  hugetlbfs file: the one that looks the page structure up counts it, the other one does not.\<close>

theorem rusage_stat_add_variants:
  "let (ret, g1, pages') = rusage_memory_stat_add objs pages rng phys sz pgsize g;
       (ret', g2, page') = rusage_memory_stat_add_with_page objs rng sz pgsize (pages phys) g
   in if hugetlb_copy objs rng (pages phys) then ret = 1 \<and> g1 = memory_stat_rss_add sz pgsize g \<and> ret' = 0 \<and> g2 = g
      else ret = ret' \<and> g1 = g2 \<and> pages' phys = page'"
proof -
  have wider: "f AND (MF_DEV_FILE OR MF_REG_FILE OR MF_HUGETLBFS) \<noteq> 0" if "f AND (MF_DEV_FILE OR MF_REG_FILE) \<noteq> 0" for f :: u32
  proof
    assume "f AND (MF_DEV_FILE OR MF_REG_FILE OR MF_HUGETLBFS) = 0"
    then have "(f AND (MF_DEV_FILE OR MF_REG_FILE OR MF_HUGETLBFS)) AND (MF_DEV_FILE OR MF_REG_FILE) = 0" by simp
    moreover have "(MF_DEV_FILE OR MF_REG_FILE OR MF_HUGETLBFS) AND (MF_DEV_FILE OR MF_REG_FILE) = MF_DEV_FILE OR MF_REG_FILE"
      by (simp add: MF_DEV_FILE_def MF_REG_FILE_def MF_HUGETLBFS_def)
    ultimately show False using that by (simp add: and.assoc)
  qed
  show ?thesis
    unfolding rusage_memory_stat_add_def rusage_memory_stat_add_with_page_def hugetlb_copy_def Let_def
    using wider by (cases "vr_memobj rng"; cases "pages phys") auto
qed

definition example_rusage :: rusage_sys where
  "example_rusage = \<lparr>rs_global = \<lparr>ru_memory_stat_rss = (\<lambda>_. 0), ru_memory_stat_mapped_file = (\<lambda>_. 0), ru_rss_current = 0, ru_memory_max_usage = 0,
     ru_max_num_threads = 0, ru_num_threads = 0, ru_memory_kmem_usage = 0, ru_memory_kmem_max_usage = 0, ru_memory_numa_stat = (\<lambda>_. 0),
     ru_total_memory = 0x10000000, ru_total_memory_usage = 0, ru_total_memory_max_usage = 0\<rparr>,
     rs_vm = (\<lambda>_. \<lparr>vm_currss = 0, vm_proc = None\<rparr>), rs_maxrss = (\<lambda>_. 0), rs_on_fork_vm = None, rs_current_vm = 0\<rparr>"


end
