(* ===== verification/Kmalloc.thy ===== *)
theory Kmalloc
  imports Prelude
begin

section \<open>The kernel heap\<close>

text \<open>
  \<open>___kmalloc\<close>, \<open>___kfree\<close> and their helpers of \<open>kernel/mem.c\<close>.  Every chunk starts with a header
  of 32 bytes; free chunks of a CPU are on its \<open>free_list\<close> in address order, chunks freed by
  another CPU on its \<open>remote_free_list\<close>.  The headers are a store from addresses to records, the
  lists hold chunk addresses, so a header stays readable through a pointer the client holds, as
  in the code.  Addresses are \<open>nat\<close> (a chunk never reaches the end of the address space), sizes
  \<open>int\<close> as in C.  The page allocator below is an argument: what the call of
  \<open>___ihk_mc_alloc_pages\<close> returned, \<open>None\<close> for a null pointer.
\<close>

subsection \<open>State and operations\<close>

record kmalloc_header =
  kh_front_magic :: nat
  kh_cpu_id :: nat
  kh_size :: int
  kh_end_magic :: nat

record kheap =
  kp_mem :: "nat \<Rightarrow> kmalloc_header"
  kp_free_list :: "nat \<Rightarrow> nat list"
  kp_remote_free_list :: "nat \<Rightarrow> nat list"

datatype kfault = KF_Corruption

definition HDR :: nat where
  "HDR = 32"

definition FRONT_MAGIC :: nat where
  "FRONT_MAGIC = 0x5c5c5c5c"

definition END_MAGIC :: nat where
  "END_MAGIC = 0x6d6d6d6d"

definition kmalloc_init :: "nat \<Rightarrow> kheap \<Rightarrow> kheap" where
  "kmalloc_init cpu h =
     h\<lparr>kp_free_list := (kp_free_list h)(cpu := []), kp_remote_free_list := (kp_remote_free_list h)(cpu := [])\<rparr>"

text \<open>The loop finds the first chunk behind the new one; the new one goes in front of it, or to
  the tail.\<close>

fun kmalloc_insert_chunk :: "nat \<Rightarrow> nat list \<Rightarrow> nat list" where
  "kmalloc_insert_chunk chunk [] = [chunk]"
| "kmalloc_insert_chunk chunk (chunk_iter # rest) =
     (if chunk < chunk_iter then chunk # chunk_iter # rest
      else chunk_iter # kmalloc_insert_chunk chunk rest)"

definition kmalloc_init_chunk :: "nat \<Rightarrow> int \<Rightarrow> kmalloc_header" where
  "kmalloc_init_chunk cpu sz = \<lparr>kh_front_magic = FRONT_MAGIC, kh_cpu_id = cpu, kh_size = sz, kh_end_magic = END_MAGIC\<rparr>"

text \<open>One iteration over the list: the first chunk that ends where its successor begins.\<close>

fun kmalloc_find_adjacent :: "(nat \<Rightarrow> kmalloc_header) \<Rightarrow> nat list \<Rightarrow> (nat \<times> nat) option" where
  "kmalloc_find_adjacent mem (chunk_iter # next_chunk # rest) =
     (if int chunk_iter + int HDR + kh_size (mem chunk_iter) = int next_chunk then Some (chunk_iter, next_chunk)
      else kmalloc_find_adjacent mem (next_chunk # rest))"
| "kmalloc_find_adjacent mem _ = None"

lemma kmalloc_find_adjacent_mem: "kmalloc_find_adjacent mem cs = Some (a, b) \<Longrightarrow> b \<in> set cs"
  by (induction mem cs rule: kmalloc_find_adjacent.induct) (auto split: if_splits)

function kmalloc_consolidate_list ::
  "(nat \<Rightarrow> kmalloc_header) \<Rightarrow> nat list \<Rightarrow> (nat \<Rightarrow> kmalloc_header) \<times> nat list" where
  "kmalloc_consolidate_list mem cs =
     (case kmalloc_find_adjacent mem cs of
        None \<Rightarrow> (mem, cs)
      | Some (chunk, next_chunk) \<Rightarrow>
          kmalloc_consolidate_list
            (mem(chunk := (mem chunk)\<lparr>kh_size := c_int (kh_size (mem chunk) + (kh_size (mem next_chunk) + int HDR))\<rparr>))
            (remove1 next_chunk cs))"
  by pat_completeness auto
termination
  by (relation "measure (\<lambda>(mem, cs). length cs)")
     (auto dest!: kmalloc_find_adjacent_mem simp: length_remove1 intro: Nat.diff_less length_pos_if_in_set)

declare kmalloc_consolidate_list.simps [simp del]

definition kmalloc_consolidate_free_list :: "nat \<Rightarrow> kheap \<Rightarrow> kheap" where
  "kmalloc_consolidate_free_list cpu h =
     (case kmalloc_consolidate_list (kp_mem h)
             (fold kmalloc_insert_chunk (kp_remote_free_list h cpu) (kp_free_list h cpu)) of
        (mem, cs) \<Rightarrow>
          h\<lparr>kp_mem := mem, kp_free_list := (kp_free_list h)(cpu := cs),
            kp_remote_free_list := (kp_remote_free_list h)(cpu := [])\<rparr>)"

text \<open>\<open>KMALLOC_MIN_SIZE\<close> aligned size.\<close>

definition kmalloc_round :: "int \<Rightarrow> int" where
  "kmalloc_round sz = (if sz mod 32 \<noteq> 0 then c_int (sz + 32 - 1) div 32 * 32 else sz)"

text \<open>From the label \<open>split_and_return\<close> on, for a chunk on the free list.  \<open>list_add\<close> puts the rest
  right behind the chunk, before the chunk is taken off.\<close>

fun list_add_after :: "nat \<Rightarrow> nat \<Rightarrow> nat list \<Rightarrow> nat list" where
  "list_add_after new pos [] = []"
| "list_add_after new pos (c # cs) = (if c = pos then c # new # cs else c # list_add_after new pos cs)"

definition kmalloc_split_return :: "nat \<Rightarrow> nat \<Rightarrow> int \<Rightarrow> kheap \<Rightarrow> kheap" where
  "kmalloc_split_return cpu chunk sz h =
     (let h = (if c_ulong (sz + int HDR) < c_ulong (kh_size (kp_mem h chunk)) then
                 (let leftover = nat (int (chunk + HDR) + sz);
                      mem = (kp_mem h)(leftover := kmalloc_init_chunk cpu (c_int (kh_size (kp_mem h chunk) - sz - int HDR)));
                      mem = mem(chunk := (mem chunk)\<lparr>kh_size := sz\<rparr>)
                  in h\<lparr>kp_mem := mem, kp_free_list := (kp_free_list h)(cpu := list_add_after leftover chunk (kp_free_list h cpu))\<rparr>)
               else h)
      in h\<lparr>kp_free_list := (kp_free_list h)(cpu := remove1 chunk (kp_free_list h cpu))\<rparr>)"

definition kmalloc_npages :: "int \<Rightarrow> int" where
  "kmalloc_npages sz = c_int (c_ulong (sz + int HDR + 4095) div 4096)"

text \<open>\<open>alloc_pages s npages\<close> is the call of \<open>___ihk_mc_alloc_pages\<close>; address 0 is the null pointer and
  \<open>None\<close> a fault inside the call.\<close>

definition kmalloc :: "('s \<Rightarrow> int \<Rightarrow> (nat \<times> 's) option) \<Rightarrow> nat \<Rightarrow> int \<Rightarrow> 's \<times> kheap \<Rightarrow> (nat \<times> 's \<times> kheap) option" where
  "kmalloc alloc_pages cpu size0 st =
     (let s = fst st; h = snd st; sz = kmalloc_round size0
      in case find (\<lambda>chunk. sz \<le> kh_size (kp_mem h chunk)) (kp_free_list h cpu) of
           Some chunk \<Rightarrow> Some (chunk + HDR, s, kmalloc_split_return cpu chunk sz h)
         | None \<Rightarrow>
             (let npages = kmalloc_npages sz
              in case alloc_pages s npages of
                   None \<Rightarrow> None
                 | Some (chunk, s) \<Rightarrow>
                     if chunk = 0 then Some (0, s, h)
                     else
                       (let h = h\<lparr>kp_mem := (kp_mem h)(chunk := kmalloc_init_chunk cpu (c_int (npages * 4096 - int HDR))),
                                  kp_free_list := (kp_free_list h)(cpu := kmalloc_insert_chunk chunk (kp_free_list h cpu))\<rparr>
                        in Some (chunk + HDR, s, kmalloc_split_return cpu chunk sz h))))"

definition kfree :: "nat \<Rightarrow> nat \<Rightarrow> kheap \<Rightarrow> kfault + kheap" where
  "kfree cpu ptr h =
     (if ptr = 0 then Inr h
      else
        (let chunk = ptr - HDR; hd = kp_mem h chunk
         in if kh_front_magic hd \<noteq> FRONT_MAGIC \<or> kh_end_magic hd \<noteq> END_MAGIC then Inl KF_Corruption
            else if kh_cpu_id hd = cpu then
              (case kmalloc_consolidate_list (kp_mem h) (kmalloc_insert_chunk chunk (kp_free_list h cpu)) of
                 (mem, cs) \<Rightarrow> Inr (h\<lparr>kp_mem := mem, kp_free_list := (kp_free_list h)(cpu := cs)\<rparr>))
            else
              Inr (h\<lparr>kp_remote_free_list :=
                       (kp_remote_free_list h)(kh_cpu_id hd := chunk # kp_remote_free_list h (kh_cpu_id hd))\<rparr>)))"

subsection \<open>Chunks as sets of bytes\<close>

definition kchunk_ok :: "(nat \<Rightarrow> kmalloc_header) \<Rightarrow> nat \<Rightarrow> bool" where
  "kchunk_ok mem a \<longleftrightarrow> 32 dvd a \<and> kh_front_magic (mem a) = FRONT_MAGIC \<and> kh_end_magic (mem a) = END_MAGIC \<and>
     0 \<le> kh_size (mem a) \<and> 32 dvd kh_size (mem a) \<and> kh_size (mem a) < 2 ^ 31"

definition extent :: "(nat \<Rightarrow> kmalloc_header) \<Rightarrow> nat \<Rightarrow> nat set" where
  "extent mem a = {a ..< a + HDR + nat (kh_size (mem a))}"

definition span :: "(nat \<Rightarrow> kmalloc_header) \<Rightarrow> nat set \<Rightarrow> nat set" where
  "span mem S = (\<Union>a \<in> S. extent mem a)"

definition chunks_wf :: "(nat \<Rightarrow> kmalloc_header) \<Rightarrow> nat set \<Rightarrow> bool" where
  "chunks_wf mem S \<longleftrightarrow> (\<forall>a \<in> S. kchunk_ok mem a) \<and> (\<forall>a \<in> S. \<forall>b \<in> S. a \<noteq> b \<longrightarrow> extent mem a \<inter> extent mem b = {})"

lemma extent_self [simp]: "a \<in> extent mem a"
  by (simp add: extent_def HDR_def)

lemma extent_upd [simp]: "a \<noteq> b \<Longrightarrow> extent (mem(b := v)) a = extent mem a"
  by (simp add: extent_def)

lemma kchunk_ok_upd [simp]: "a \<noteq> b \<Longrightarrow> kchunk_ok (mem(b := v)) a = kchunk_ok mem a"
  by (simp add: kchunk_ok_def)

lemma span_Un [simp]: "span mem (S \<union> T) = span mem S \<union> span mem T"
  by (auto simp: span_def)

lemma span_insert [simp]: "span mem (insert a S) = extent mem a \<union> span mem S"
  by (auto simp: span_def)

lemma span_empty [simp]: "span mem {} = {}"
  by (simp add: span_def)

lemma span_upd: "b \<notin> S \<Longrightarrow> span (mem(b := v)) S = span mem S"
  unfolding span_def by (intro SUP_cong refl extent_upd) auto

lemma chunks_wf_upd: "b \<notin> S \<Longrightarrow> chunks_wf (mem(b := v)) S = chunks_wf mem S"
proof -
  assume "b \<notin> S"
  then have "\<And>a. a \<in> S \<Longrightarrow> a \<noteq> b" by blast
  then show ?thesis by (simp add: chunks_wf_def)
qed

lemma chunks_wf_insert:
  assumes "a \<notin> S"
  shows "chunks_wf mem (insert a S) \<longleftrightarrow> kchunk_ok mem a \<and> chunks_wf mem S \<and> extent mem a \<inter> span mem S = {}"
proof -
  have "extent mem a \<inter> span mem S = {} \<longleftrightarrow> (\<forall>b \<in> S. a \<noteq> b \<longrightarrow> extent mem a \<inter> extent mem b = {})"
    using assms unfolding span_def by (auto 0 3)
  moreover define P where "P x y \<longleftrightarrow> extent mem x \<inter> extent mem y = {}" for x y
  moreover have "P x y = P y x" for x y by (simp add: P_def Int_commute)
  ultimately show ?thesis unfolding chunks_wf_def P_def [symmetric] by auto
qed

lemma chunks_wf_mono: "chunks_wf mem S \<Longrightarrow> T \<subseteq> S \<Longrightarrow> chunks_wf mem T"
  unfolding chunks_wf_def by blast

lemma chunks_wf_notin: "extent mem a \<inter> span mem S = {} \<Longrightarrow> a \<notin> S"
  using extent_self [of a mem] unfolding span_def by blast

text \<open>Splitting a chunk and merging it with its successor leave the bytes of the heap as they are.\<close>

lemma split_chunk:
  fixes cpu :: nat
  assumes wf: "chunks_wf mem S" and a: "a \<in> S" and sz: "0 \<le> sz" "32 dvd sz" "sz + int HDR < kh_size (mem a)"
  defines "l \<equiv> nat (int (a + HDR) + sz)"
  defines "mem' \<equiv> mem(l := kmalloc_init_chunk cpu (c_int (kh_size (mem a) - sz - int HDR)), a := (mem a)\<lparr>kh_size := sz\<rparr>)"
  shows "l \<notin> S \<and> chunks_wf mem' (insert l S) \<and> span mem' (insert l S) = span mem S \<and> a < l \<and> extent mem' l \<subseteq> extent mem a"
proof -
  define T where "T = S - {a}"
  have S: "S = insert a T" "a \<notin> T" using a by (auto simp: T_def)
  have ok: "kchunk_ok mem a" "chunks_wf mem T" "extent mem a \<inter> span mem T = {}"
    using wf S by (auto simp: chunks_wf_insert)
  have l: "l = a + 32 + nat sz" "a < l" using sz by (auto simp: l_def HDR_def)
  have c: "c_int (kh_size (mem a) - sz - int HDR) = kh_size (mem a) - sz - 32"
    using ok(1) sz by (intro trans [OF c_int_small]) (auto simp: kchunk_ok_def HDR_def)
  have mem: "mem' l = kmalloc_init_chunk cpu (kh_size (mem a) - sz - 32)" "mem' a = (mem a)\<lparr>kh_size := sz\<rparr>"
    using l unfolding mem'_def c by auto
  have el: "extent mem' l = {l ..< a + 32 + nat (kh_size (mem a))}"
    using sz l(1) unfolding extent_def mem kmalloc_init_chunk_def HDR_def by (intro arg_cong2 [of _ _ _ _ atLeastLessThan]) auto
  have ea: "extent mem' a = {a ..< l}" using l(1) by (simp add: extent_def mem HDR_def)
  have "l \<le> a + 32 + nat (kh_size (mem a))" using sz l(1) by (simp add: HDR_def)
  then have ext: "extent mem' l \<union> extent mem' a = extent mem a" "extent mem' l \<inter> extent mem' a = {}"
    using l(2) unfolding el ea by (auto simp: extent_def HDR_def)
  have lT: "l \<notin> T" using ok(3) ext(1) extent_self [of l mem'] extent_self [of l mem] unfolding span_def by blast
  have "32 dvd nat sz" using sz(1,2) by (auto elim!: dvdE simp: nat_mult_distrib)
  then have "32 dvd l" using ok(1) unfolding l(1) by (simp add: kchunk_ok_def)
  then have okl: "kchunk_ok mem' l"
    using ok(1) sz unfolding kchunk_ok_def mem kmalloc_init_chunk_def by (simp add: HDR_def)
  have oka: "kchunk_ok mem' a"
    using ok(1) sz unfolding kchunk_ok_def mem by (simp add: HDR_def)
  have T: "span mem' T = span mem T" "chunks_wf mem' T"
    using ok(2) S(2) lT by (simp_all add: mem'_def span_upd chunks_wf_upd)
  have "l \<notin> insert a T" using l lT by auto
  moreover have "chunks_wf mem' (insert l (insert a T))"
    using okl oka T ok(3) ext S(2) \<open>l \<notin> insert a T\<close> by (subst chunks_wf_insert, simp, subst chunks_wf_insert) auto
  ultimately show ?thesis using T(1) ext(1) l unfolding S(1) by auto
qed

lemma merge_chunks:
  assumes wf: "chunks_wf mem S" and ab: "a \<in> S" "b \<in> S" "a \<noteq> b" "int a + int HDR + kh_size (mem a) = int b"
    and small: "kh_size (mem a) + kh_size (mem b) + 32 < 2 ^ 31"
  defines "mem' \<equiv> mem(a := (mem a)\<lparr>kh_size := c_int (kh_size (mem a) + (kh_size (mem b) + int HDR))\<rparr>)"
  shows "chunks_wf mem' (S - {b}) \<and> span mem' (S - {b}) = span mem S"
proof -
  define T where "T = S - {a, b}"
  have S: "S = insert b (insert a T)" "S - {b} = insert a T" "a \<notin> T" "b \<notin> insert a T" using ab by (auto simp: T_def)
  have ok: "kchunk_ok mem a" "kchunk_ok mem b" "chunks_wf mem T" "extent mem a \<inter> span mem T = {}" "extent mem b \<inter> span mem T = {}"
    using wf S by (auto simp: chunks_wf_insert)
  have c: "c_int (kh_size (mem a) + (kh_size (mem b) + int HDR)) = kh_size (mem a) + kh_size (mem b) + 32"
    using ok(1,2) small unfolding kchunk_ok_def HDR_def by (intro trans [OF c_int_small]) simp_all
  have a: "mem' a = (mem a)\<lparr>kh_size := kh_size (mem a) + kh_size (mem b) + 32\<rparr>" unfolding mem'_def c by simp
  have pos: "0 \<le> kh_size (mem a)" "0 \<le> kh_size (mem b)" using ok(1,2) by (simp_all add: kchunk_ok_def)
  have b: "b = a + 32 + nat (kh_size (mem a))" using ab(4) pos(1) by (simp add: HDR_def)
  have top: "a + 32 + nat (kh_size (mem a) + kh_size (mem b) + 32) = b + 32 + nat (kh_size (mem b))"
    using b pos by linarith
  have sa: "kh_size (mem' a) = kh_size (mem a) + kh_size (mem b) + 32" unfolding a by simp
  have "extent mem' a = {a ..< b + 32 + nat (kh_size (mem b))}"
    unfolding extent_def sa HDR_def by (simp only: top)
  moreover have "extent mem a = {a ..< b}" "a \<le> b" using b by (simp_all add: extent_def HDR_def)
  moreover have "extent mem b = {b ..< b + 32 + nat (kh_size (mem b))}" by (simp add: extent_def HDR_def)
  ultimately have ext: "extent mem' a = extent mem a \<union> extent mem b"
    using ivl_disj_un_two(3) [of a b "b + 32 + nat (kh_size (mem b))"] by simp
  have "kchunk_ok mem' a" using ok(1,2) small unfolding kchunk_ok_def a by simp
  moreover have "chunks_wf mem' T" "span mem' T = span mem T"
    using ok(3) S(3) by (simp_all add: mem'_def span_upd chunks_wf_upd)
  ultimately have "chunks_wf mem' (insert a T)" "span mem' (insert a T) = span mem (insert b (insert a T))"
    using ok(4,5) S(3) by (simp_all add: chunks_wf_insert ext Int_Un_distrib2 Un_assoc Un_left_commute)
  then show ?thesis by (simp only: S(2), simp only: S(1))
qed

subsection \<open>Consolidation\<close>

lemma set_kmalloc_insert_chunk [simp]: "set (kmalloc_insert_chunk a cs) = insert a (set cs)"
  by (induction cs) auto

lemma sorted_kmalloc_insert_chunk:
  "sorted_wrt (<) cs \<Longrightarrow> a \<notin> set cs \<Longrightarrow> sorted_wrt (<) (kmalloc_insert_chunk a cs)"
  by (induction cs) (auto simp: not_less)

lemma fold_kmalloc_insert_chunk:
  "sorted_wrt (<) cs \<Longrightarrow> distinct rs \<Longrightarrow> set rs \<inter> set cs = {} \<Longrightarrow>
     sorted_wrt (<) (fold kmalloc_insert_chunk rs cs) \<and> set (fold kmalloc_insert_chunk rs cs) = set rs \<union> set cs"
  by (induction rs arbitrary: cs) (auto simp: sorted_kmalloc_insert_chunk)

lemma kmalloc_find_adjacent_Some:
  "kmalloc_find_adjacent mem cs = Some (a, b) \<Longrightarrow>
     a \<in> set cs \<and> b \<in> set cs \<and> int a + int HDR + kh_size (mem a) = int b"
  by (induction mem cs rule: kmalloc_find_adjacent.induct) (auto split: if_splits)

lemma kmalloc_find_adjacent_None:
  "kmalloc_find_adjacent mem cs = None \<Longrightarrow> sorted_wrt (<) cs \<Longrightarrow> chunks_wf mem (set cs) \<Longrightarrow>
     a \<in> set cs \<Longrightarrow> b \<in> set cs \<Longrightarrow> int a + int HDR + kh_size (mem a) \<noteq> int b"
proof (induction mem cs rule: kmalloc_find_adjacent.induct)
  case (1 mem x y rest)
  have wf: "chunks_wf mem (set (y # rest))" using "1.prems"(3) by (rule chunks_wf_mono) auto
  have IH: "a \<in> set (y # rest) \<Longrightarrow> b \<in> set (y # rest) \<Longrightarrow> int a + int HDR + kh_size (mem a) \<noteq> int b"
    using "1.IH" [OF _ _ _ wf] "1.prems"(1,2) by (simp split: if_splits)
  have xy: "int x + int HDR + kh_size (mem x) \<noteq> int y" "x < y" using "1.prems" by (auto split: if_splits)
  have pos: "0 \<le> kh_size (mem a)" using "1.prems"(3,4) by (auto simp: chunks_wf_def kchunk_ok_def)
  have dis: "y \<notin> extent mem x" using "1.prems"(3) xy(2) extent_self [of y mem] by (auto simp: chunks_wf_def)
  show ?case
  proof
    assume eq: "int a + int HDR + kh_size (mem a) = int b"
    then have ab: "a < b" using pos by (simp add: HDR_def)
    have "b \<in> set (y # rest)" using "1.prems"(2,4,5) ab by auto
    with IH eq have a: "a = x" using "1.prems"(4) by auto
    then have "b \<noteq> y" using xy eq by auto
    then have "y < b" using \<open>b \<in> set (y # rest)\<close> "1.prems"(2) by auto
    then have "y \<in> extent mem x" using eq a xy(2) pos by (simp add: extent_def)
    with dis show False by simp
  qed
qed (auto simp: HDR_def chunks_wf_def kchunk_ok_def)

definition chunk_sum :: "(nat \<Rightarrow> kmalloc_header) \<Rightarrow> nat set \<Rightarrow> int" where
  "chunk_sum mem S = (\<Sum>a \<in> S. kh_size (mem a) + int HDR)"

lemma chunk_sum_two:
  assumes "finite S" "a \<in> S" "b \<in> S" "a \<noteq> b" "\<forall>a \<in> S. 0 \<le> kh_size (mem a)"
  shows "kh_size (mem a) + kh_size (mem b) + 2 * int HDR \<le> chunk_sum mem S"
proof -
  have "(\<Sum>x \<in> {a, b}. kh_size (mem x) + int HDR) \<le> (\<Sum>x \<in> S. kh_size (mem x) + int HDR)"
    using assms by (intro sum_mono2) auto
  then show ?thesis using assms(4) by (simp add: chunk_sum_def)
qed

lemma chunk_sum_merge:
  assumes "finite S" "a \<in> S" "b \<in> S" "a \<noteq> b"
  shows "chunk_sum (mem(a := (mem a)\<lparr>kh_size := kh_size (mem a) + (kh_size (mem b) + int HDR)\<rparr>)) (S - {b}) = chunk_sum mem S"
proof -
  define T where "T = S - {a, b}"
  have S: "S = insert b (insert a T)" "S - {b} = insert a T" "a \<notin> T" "b \<notin> insert a T" "finite T"
    using assms by (auto simp: T_def)
  have "(\<Sum>x \<in> T. kh_size ((mem(a := v)) x) + int HDR) = (\<Sum>x \<in> T. kh_size (mem x) + int HDR)" for v
    using S(3) by (intro sum.cong) auto
  with S(3-5) show ?thesis unfolding S(2) unfolding S(1) by (simp add: chunk_sum_def)
qed

definition consolidated :: "(nat \<Rightarrow> kmalloc_header) \<Rightarrow> nat list \<Rightarrow> nat set \<Rightarrow> (nat \<Rightarrow> kmalloc_header) \<Rightarrow> nat list \<Rightarrow> bool" where
  "consolidated mem cs R mem' cs' \<longleftrightarrow> set cs' \<subseteq> set cs \<and> sorted_wrt (<) cs' \<and> chunks_wf mem' (set cs' \<union> R) \<and>
     span mem' (set cs' \<union> R) = span mem (set cs \<union> R) \<and> (\<forall>a. a \<notin> set cs \<longrightarrow> mem' a = mem a) \<and>
     (\<forall>a. kh_cpu_id (mem' a) = kh_cpu_id (mem a)) \<and> kmalloc_find_adjacent mem' cs' = None"

lemma kmalloc_consolidate_list_correct:
  "chunks_wf mem (set cs \<union> R) \<Longrightarrow> set cs \<inter> R = {} \<Longrightarrow> sorted_wrt (<) cs \<Longrightarrow> chunk_sum mem (set cs) \<le> 2 ^ 31 \<Longrightarrow>
     \<exists>mem' cs'. kmalloc_consolidate_list mem cs = (mem', cs') \<and> consolidated mem cs R mem' cs'"
proof (induction mem cs rule: kmalloc_consolidate_list.induct)
  case (1 mem cs)
  show ?case
  proof (cases "kmalloc_find_adjacent mem cs")
    case None
    then have "kmalloc_consolidate_list mem cs = (mem, cs)" by (subst kmalloc_consolidate_list.simps) simp
    with None "1.prems" show ?thesis by (simp add: consolidated_def)
  next
    case (Some ab)
    obtain a b where ab: "ab = (a, b)" by (cases ab)
    note f = Some [unfolded ab]
    from kmalloc_find_adjacent_Some [OF f] have adj: "a \<in> set cs" "b \<in> set cs" "int a + int HDR + kh_size (mem a) = int b" by auto
    have pos: "\<forall>a \<in> set cs. 0 \<le> kh_size (mem a)" using "1.prems"(1) by (auto simp: chunks_wf_def kchunk_ok_def)
    have ne: "a \<noteq> b" using adj pos by (auto simp: HDR_def)
    have small: "kh_size (mem a) + kh_size (mem b) + 32 < 2 ^ 31"
      using chunk_sum_two [OF _ adj(1,2) ne pos] "1.prems"(4) by (simp add: HDR_def)
    have c: "c_int (kh_size (mem a) + (kh_size (mem b) + int HDR)) = kh_size (mem a) + (kh_size (mem b) + int HDR)"
      using small pos adj by (intro c_int_small) (auto simp: HDR_def)
    define mem1 where "mem1 = mem(a := (mem a)\<lparr>kh_size := c_int (kh_size (mem a) + (kh_size (mem b) + int HDR))\<rparr>)"
    have dis: "distinct cs" using "1.prems"(3) by (simp add: strict_sorted_iff)
    have cs1: "set (remove1 b cs) = set cs - {b}" using dis by simp
    have R: "set cs \<union> R - {b} = set (remove1 b cs) \<union> R" using "1.prems"(2) adj cs1 by auto
    have m: "chunks_wf mem1 (set (remove1 b cs) \<union> R)" "span mem1 (set (remove1 b cs) \<union> R) = span mem (set cs \<union> R)"
      using merge_chunks [OF "1.prems"(1) _ _ ne adj(3) small] adj(1,2) unfolding mem1_def [symmetric] R by auto
    have s: "chunk_sum mem1 (set (remove1 b cs)) = chunk_sum mem (set cs)"
      using chunk_sum_merge [of "set cs" a b mem] adj ne unfolding mem1_def c cs1 by simp
    have srt: "sorted_wrt (<) (remove1 b cs)" using "1.prems"(3) by (simp add: strict_sorted_iff sorted_remove1)
    have "set (remove1 b cs) \<inter> R = {}" using "1.prems"(2) cs1 by auto
    from "1.IH" [OF f refl, folded mem1_def, OF m(1) this srt] s "1.prems"(4) obtain mem' cs' where
      r: "kmalloc_consolidate_list mem1 (remove1 b cs) = (mem', cs')" "consolidated mem1 (remove1 b cs) R mem' cs'" by auto
    have "kmalloc_consolidate_list mem cs = (mem', cs')"
      using r(1) f by (subst kmalloc_consolidate_list.simps) (simp add: mem1_def)
    moreover have "consolidated mem cs R mem' cs'"
      using r(2) m(2) cs1 adj(1) unfolding consolidated_def by (auto simp: mem1_def)
    ultimately show ?thesis by blast
  qed
qed

subsection \<open>The heap invariant\<close>

text \<open>\<open>L\<close> are the chunks in the hands of the kernel.  Chunks on the lists of a CPU carry its number,
  no chunk is in two places, and the chunks do not overlap.\<close>

definition rest_chunks :: "kheap \<Rightarrow> nat \<Rightarrow> nat set \<Rightarrow> nat set" where
  "rest_chunks h c L = (\<Union>d \<in> - {c}. set (kp_free_list h d)) \<union> (\<Union>d. set (kp_remote_free_list h d)) \<union> L"

definition heap_chunks :: "kheap \<Rightarrow> nat set \<Rightarrow> nat set" where
  "heap_chunks h L = (\<Union>d. set (kp_free_list h d) \<union> set (kp_remote_free_list h d)) \<union> L"

definition heap_span :: "kheap \<Rightarrow> nat set \<Rightarrow> nat set" where
  "heap_span h L = span (kp_mem h) (heap_chunks h L)"

definition cpu_lists_ok :: "kheap \<Rightarrow> nat set \<Rightarrow> nat \<Rightarrow> bool" where
  "cpu_lists_ok h L c \<longleftrightarrow> sorted_wrt (<) (kp_free_list h c) \<and> distinct (kp_remote_free_list h c) \<and>
     set (kp_free_list h c) \<inter> set (kp_remote_free_list h c) = {} \<and>
     (\<forall>a \<in> set (kp_free_list h c) \<union> set (kp_remote_free_list h c). kh_cpu_id (kp_mem h a) = c \<and> a \<notin> L)"

definition kheap_ok :: "kheap \<Rightarrow> nat set \<Rightarrow> bool" where
  "kheap_ok h L \<longleftrightarrow> chunks_wf (kp_mem h) (heap_chunks h L) \<and> (\<forall>c. cpu_lists_ok h L c)"

lemma heap_chunks_split: "heap_chunks h L = set (kp_free_list h c) \<union> rest_chunks h c L"
  unfolding heap_chunks_def rest_chunks_def by auto

lemma kheap_okD:
  assumes "kheap_ok h L"
  shows "a \<in> set (kp_free_list h c) \<Longrightarrow> kh_cpu_id (kp_mem h a) = c \<and> a \<notin> L \<and> a \<notin> set (kp_remote_free_list h c)"
    and "a \<in> set (kp_remote_free_list h c) \<Longrightarrow> kh_cpu_id (kp_mem h a) = c \<and> a \<notin> L"
  using assms unfolding kheap_ok_def cpu_lists_ok_def by blast+

lemma free_list_rest:
  assumes "kheap_ok h L"
  shows "set (kp_free_list h c) \<inter> rest_chunks h c L = {}"
proof -
  have "a \<notin> rest_chunks h c L" if "a \<in> set (kp_free_list h c)" for a
    using that kheap_okD [OF assms, of a] unfolding rest_chunks_def by blast
  then show ?thesis by blast
qed

lemma chunks_wf_apart: "chunks_wf mem S \<Longrightarrow> a \<in> S \<Longrightarrow> b \<in> S \<Longrightarrow> a \<noteq> b \<Longrightarrow> b \<notin> extent mem a"
  using extent_self [of b mem] unfolding chunks_wf_def by blast

lemma kheap_ok_free_listI:
  assumes ok: "kheap_ok h L" and wf: "chunks_wf mem (set cs \<union> rest_chunks h c L')"
    and cs: "sorted_wrt (<) cs" "\<And>a. a \<in> set cs \<Longrightarrow> kh_cpu_id (mem a) = c \<and> a \<notin> rest_chunks h c L'"
    and rest: "\<And>a. a \<in> rest_chunks h c {} \<Longrightarrow> kh_cpu_id (mem a) = kh_cpu_id (kp_mem h a) \<and> a \<notin> L'"
  defines "h' \<equiv> h\<lparr>kp_mem := mem, kp_free_list := (kp_free_list h)(c := cs)\<rparr>"
  shows "kheap_ok h' L' \<and> heap_span h' L' = span mem (set cs \<union> rest_chunks h c L')"
proof -
  have ch: "heap_chunks h' L' = set cs \<union> rest_chunks h c L'"
    unfolding h'_def heap_chunks_def rest_chunks_def by (auto split: if_splits)
  have "cpu_lists_ok h' L' d" for d
  proof -
    have old: "cpu_lists_ok h L d" using ok by (simp add: kheap_ok_def)
    have r: "a \<in> rest_chunks h c {}" if "a \<in> set (kp_remote_free_list h d) \<or> d \<noteq> c \<and> a \<in> set (kp_free_list h d)" for a
      using that unfolding rest_chunks_def by auto
    have r': "a \<in> rest_chunks h c L'" if "a \<in> set (kp_remote_free_list h d)" for a
      using that unfolding rest_chunks_def by auto
    have L': "a \<in> rest_chunks h c L'" if "a \<in> L'" for a using that unfolding rest_chunks_def by auto
    show ?thesis using old cs r r' L' rest unfolding cpu_lists_ok_def h'_def by (cases "d = c") auto
  qed
  with ch wf show ?thesis by (simp add: kheap_ok_def heap_span_def h'_def)
qed

lemma list_add_after_remove1:
  assumes "sorted_wrt (<) cs" "a \<in> set cs" "a < l" "\<And>b. b \<in> set cs \<Longrightarrow> a < b \<Longrightarrow> l < b"
  shows "sorted_wrt (<) (remove1 a (list_add_after l a cs)) \<and>
    set (remove1 a (list_add_after l a cs)) = insert l (set cs - {a})"
  using assms
proof (induction cs)
  case (Cons c cs)
  show ?case
  proof (cases "c = a")
    case True
    with Cons.prems show ?thesis by auto
  next
    case False
    then have "a \<in> set cs" "c < a" "c \<noteq> l" using Cons.prems by auto
    with Cons False show ?thesis by auto
  qed
qed simp

lemma kmalloc_split_return_correct:
  assumes ok: "kheap_ok h L" and a: "a \<in> set (kp_free_list h c)"
    and sz: "0 \<le> sz" "32 dvd sz" "sz \<le> kh_size (kp_mem h a)"
  defines "h' \<equiv> kmalloc_split_return c a sz h"
  shows "kheap_ok h' (insert a L) \<and> heap_span h' (insert a L) = heap_span h L \<and> a \<notin> L \<and>
    kh_cpu_id (kp_mem h' a) = c \<and> sz \<le> kh_size (kp_mem h' a) \<and> kh_size (kp_mem h' a) \<le> sz + 32 \<and>
    (\<forall>b \<in> L. kp_mem h' b = kp_mem h b)"
proof -
  define mem where "mem = kp_mem h"
  define cs where "cs = kp_free_list h c"
  have wf: "chunks_wf mem (set cs \<union> rest_chunks h c L)" and lists: "cpu_lists_ok h L c"
    using ok heap_chunks_split [of h L c] by (auto simp: kheap_ok_def mem_def cs_def)
  have srt: "sorted_wrt (<) cs" "\<And>b. b \<in> set cs \<Longrightarrow> kh_cpu_id (mem b) = c \<and> b \<notin> L"
    using lists by (auto simp: cpu_lists_ok_def mem_def cs_def)
  have dis: "set cs \<inter> rest_chunks h c L = {}" using free_list_rest [OF ok] by (simp add: cs_def)
  have a': "a \<in> set cs" "a \<notin> L" using a srt(2) by (auto simp: cs_def)
  have aok: "0 \<le> kh_size (mem a)" "kh_size (mem a) < 2 ^ 31" using wf a' by (auto simp: chunks_wf_def kchunk_ok_def)
  have L: "\<And>b. b \<in> rest_chunks h c {} \<Longrightarrow> b \<in> rest_chunks h c L \<and> b \<notin> L"
    using ok unfolding kheap_ok_def cpu_lists_ok_def rest_chunks_def by auto
  have restL: "rest_chunks h c (insert a L) = insert a (rest_chunks h c L)" unfolding rest_chunks_def by auto
  have guard: "c_ulong (sz + int HDR) < c_ulong (kh_size (mem a)) \<longleftrightarrow> sz + int HDR < kh_size (mem a)"
    using sz aok by (simp add: c_ulong_small HDR_def mem_def)
  have span0: "heap_span h L = span mem (set cs \<union> rest_chunks h c L)"
    by (simp add: heap_span_def heap_chunks_split [of h L c] mem_def cs_def)
  show ?thesis
  proof (cases "sz + int HDR < kh_size (mem a)")
    case False
    have h': "h' = h\<lparr>kp_mem := mem, kp_free_list := (kp_free_list h)(c := remove1 a cs)\<rparr>"
      using False guard by (simp add: h'_def kmalloc_split_return_def mem_def cs_def)
    have set: "set (remove1 a cs) = set cs - {a}" using srt(1) by (simp add: strict_sorted_iff)
    have un: "set (remove1 a cs) \<union> rest_chunks h c (insert a L) = set cs \<union> rest_chunks h c L"
      using set restL a' by auto
    have "kheap_ok h' (insert a L) \<and> heap_span h' (insert a L) = span mem (set cs \<union> rest_chunks h c L)"
      unfolding h' un [symmetric]
    proof (rule kheap_ok_free_listI [OF ok])
      show "chunks_wf mem (set (remove1 a cs) \<union> rest_chunks h c (insert a L))" using wf un by simp
      show "sorted_wrt (<) (remove1 a cs)" using srt(1) by (simp add: strict_sorted_iff sorted_remove1)
      show "kh_cpu_id (mem b) = c \<and> b \<notin> rest_chunks h c (insert a L)" if "b \<in> set (remove1 a cs)" for b
        using that srt(2) set dis restL by auto
      show "kh_cpu_id (mem b) = kh_cpu_id (kp_mem h b) \<and> b \<notin> insert a L" if "b \<in> rest_chunks h c {}" for b
        using L [OF that] dis a' by (auto simp: mem_def)
    qed
    moreover have "kp_mem h' = mem" by (simp add: h')
    ultimately show ?thesis using False sz span0 a' srt(2) by (auto simp: mem_def HDR_def)
  next
    case True
    define l where "l = nat (int (a + HDR) + sz)"
    define mem' where "mem' = mem(l := kmalloc_init_chunk c (c_int (kh_size (mem a) - sz - int HDR)), a := (mem a)\<lparr>kh_size := sz\<rparr>)"
    from split_chunk [OF wf _ sz(1,2) True, of c, folded l_def, folded mem'_def] a'
    have sp: "l \<notin> set cs \<union> rest_chunks h c L" "chunks_wf mem' (insert l (set cs \<union> rest_chunks h c L))"
      "span mem' (insert l (set cs \<union> rest_chunks h c L)) = span mem (set cs \<union> rest_chunks h c L)" "a < l"
      "extent mem' l \<subseteq> extent mem a" by auto
    define cs' where "cs' = remove1 a (list_add_after l a cs)"
    have next_chunk: "l < b" if "b \<in> set cs" "a < b" for b
    proof -
      have "b \<notin> extent mem a" using chunks_wf_apart [OF wf, of a b] a' that by auto
      moreover have "l \<in> extent mem a" using sp(5) extent_self [of l mem'] by blast
      ultimately show ?thesis using that by (auto simp: extent_def)
    qed
    have cs': "sorted_wrt (<) cs'" "set cs' = insert l (set cs - {a})"
      using list_add_after_remove1 [OF srt(1) a'(1) sp(4) next_chunk] by (auto simp: cs'_def)
    have h': "h' = h\<lparr>kp_mem := mem', kp_free_list := (kp_free_list h)(c := cs')\<rparr>"
    proof -
      have "l \<noteq> a" using sp(4) by simp
      then show ?thesis using True guard
        by (simp add: h'_def kmalloc_split_return_def mem_def cs_def cs'_def l_def mem'_def Let_def)
    qed
    have un: "set cs' \<union> rest_chunks h c (insert a L) = insert l (set cs \<union> rest_chunks h c L)"
      using cs'(2) restL a' by auto
    have "kheap_ok h' (insert a L) \<and> heap_span h' (insert a L) = span mem' (insert l (set cs \<union> rest_chunks h c L))"
      unfolding h' un [symmetric]
    proof (rule kheap_ok_free_listI [OF ok])
      show "chunks_wf mem' (set cs' \<union> rest_chunks h c (insert a L))" using sp(2) un by simp
      show "sorted_wrt (<) cs'" by (rule cs'(1))
      show "kh_cpu_id (mem' b) = c \<and> b \<notin> rest_chunks h c (insert a L)" if "b \<in> set cs'" for b
        using that srt(2) cs'(2) sp(1,4) dis restL by (auto simp: mem'_def kmalloc_init_chunk_def)
      show "kh_cpu_id (mem' b) = kh_cpu_id (kp_mem h b) \<and> b \<notin> insert a L" if "b \<in> rest_chunks h c {}" for b
        using L [OF that] dis a' sp(1) by (auto simp: mem_def mem'_def)
    qed
    moreover have "\<forall>b \<in> L. mem' b = mem b"
      using a'(2) sp(1) by (auto simp: mem'_def rest_chunks_def)
    moreover have "kp_mem h' = mem'" "kh_size (mem' a) = sz" "kh_cpu_id (mem' a) = c"
      using srt(2) a' by (simp_all add: h' mem'_def)
    ultimately show ?thesis using sp(3) span0 a' by (simp add: mem_def)
  qed
qed

subsection \<open>Freeing\<close>

text \<open>Own chunks go back to the free list and are merged with their neighbours, chunks of another
  CPU wait on its remote list.  The sizes are \<open>int\<close>: merging needs the free bytes of the list to
  stay below 2 GiB.\<close>

lemma consolidate_heap:
  assumes ok: "kheap_ok h L" and "sorted_wrt (<) cs" "chunk_sum (kp_mem h) (set cs) \<le> 2 ^ 31"
    and wf: "chunks_wf (kp_mem h) (set cs \<union> rest_chunks h0 c L')"
    and cs: "\<forall>a \<in> set cs. kh_cpu_id (kp_mem h a) = c" "set cs \<inter> rest_chunks h0 c L' = {}"
    and h0: "h0 = h\<lparr>kp_remote_free_list := rm\<rparr>" "kheap_ok h0 L" "L' \<subseteq> L"
  shows "\<exists>mem' cs'. kmalloc_consolidate_list (kp_mem h) cs = (mem', cs') \<and>
    kheap_ok (h0\<lparr>kp_mem := mem', kp_free_list := (kp_free_list h0)(c := cs')\<rparr>) L' \<and>
    heap_span (h0\<lparr>kp_mem := mem', kp_free_list := (kp_free_list h0)(c := cs')\<rparr>) L' = span (kp_mem h) (set cs \<union> rest_chunks h0 c L') \<and>
    (\<forall>a \<in> L'. mem' a = kp_mem h a) \<and>
    (\<forall>a \<in> set cs'. \<forall>b \<in> set cs'. int a + int HDR + kh_size (mem' a) \<noteq> int b)"
proof -
  from kmalloc_consolidate_list_correct [OF wf cs(2) assms(2,3)] obtain mem' cs' where
    r: "kmalloc_consolidate_list (kp_mem h) cs = (mem', cs')" "consolidated (kp_mem h) cs (rest_chunks h0 c L') mem' cs'" by blast
  have c: "set cs' \<subseteq> set cs" "sorted_wrt (<) cs'" "chunks_wf mem' (set cs' \<union> rest_chunks h0 c L')"
     "span mem' (set cs' \<union> rest_chunks h0 c L') = span (kp_mem h) (set cs \<union> rest_chunks h0 c L')"
     "\<And>a. a \<notin> set cs \<Longrightarrow> mem' a = kp_mem h a" "\<And>a. kh_cpu_id (mem' a) = kh_cpu_id (kp_mem h a)"
     "kmalloc_find_adjacent mem' cs' = None"
    using r(2) by (auto simp: consolidated_def)
  have "a \<notin> L'" if "a \<in> rest_chunks h0 c {}" for a
    using that kheap_okD [OF h0(2), of a] h0(3) unfolding rest_chunks_def by blast
  then have "kheap_ok (h0\<lparr>kp_mem := mem', kp_free_list := (kp_free_list h0)(c := cs')\<rparr>) L' \<and>
    heap_span (h0\<lparr>kp_mem := mem', kp_free_list := (kp_free_list h0)(c := cs')\<rparr>) L' = span mem' (set cs' \<union> rest_chunks h0 c L')"
    using c cs h0(1) by (intro kheap_ok_free_listI [OF h0(2)]) auto
  moreover have "\<forall>a \<in> L'. mem' a = kp_mem h a" using c(5) cs(2) unfolding rest_chunks_def by blast
  moreover have "\<forall>a \<in> set cs'. \<forall>b \<in> set cs'. int a + int HDR + kh_size (mem' a) \<noteq> int b"
    using kmalloc_find_adjacent_None [OF c(7,2)] chunks_wf_mono [OF c(3), of "set cs'"] by blast
  ultimately show ?thesis using r(1) c(4) by auto
qed

definition free_sum_ok :: "nat \<Rightarrow> nat \<Rightarrow> kheap \<Rightarrow> bool" where
  "free_sum_ok c a h \<longleftrightarrow> kh_cpu_id (kp_mem h a) = c \<longrightarrow> chunk_sum (kp_mem h) (insert a (set (kp_free_list h c))) \<le> 2 ^ 31"

definition no_adjacent :: "kheap \<Rightarrow> nat \<Rightarrow> bool" where
  "no_adjacent h c \<longleftrightarrow> (\<forall>a \<in> set (kp_free_list h c). \<forall>b \<in> set (kp_free_list h c).
     int a + int HDR + kh_size (kp_mem h a) \<noteq> int b)"

lemma kfree_sound:
  assumes ok: "kheap_ok h L" and a: "a \<in> L" and small: "free_sum_ok c a h"
  shows "\<exists>h'. kfree c (a + HDR) h = Inr h' \<and> kheap_ok h' (L - {a}) \<and> heap_span h' (L - {a}) = heap_span h L \<and>
    (\<forall>b \<in> L - {a}. kp_mem h' b = kp_mem h b) \<and> (kh_cpu_id (kp_mem h a) = c \<longrightarrow> no_adjacent h' c)"
proof -
  have wf: "chunks_wf (kp_mem h) (heap_chunks h L)" using ok by (simp add: kheap_ok_def)
  have "kchunk_ok (kp_mem h) a" using wf a by (auto simp: chunks_wf_def heap_chunks_def)
  then have magic: "kh_front_magic (kp_mem h a) = FRONT_MAGIC" "kh_end_magic (kp_mem h a) = END_MAGIC"
    by (simp_all add: kchunk_ok_def)
  define d where "d = kh_cpu_id (kp_mem h a)"
  show ?thesis
  proof (cases "d = c")
    case True
    have afree: "a \<notin> set (kp_free_list h c)" "a \<notin> rest_chunks h c (L - {a})"
      using kheap_okD [OF ok, of a] a unfolding rest_chunks_def by blast+
    have un: "set (kmalloc_insert_chunk a (kp_free_list h c)) \<union> rest_chunks h c (L - {a}) = heap_chunks h L"
      using a unfolding heap_chunks_split [of h L c] rest_chunks_def by auto
    have sub: "rest_chunks h c (L - {a}) \<subseteq> rest_chunks h c L" unfolding rest_chunks_def by auto
    have srt: "sorted_wrt (<) (kmalloc_insert_chunk a (kp_free_list h c))"
      using ok afree by (intro sorted_kmalloc_insert_chunk) (auto simp: kheap_ok_def cpu_lists_ok_def)
    have sum: "chunk_sum (kp_mem h) (set (kmalloc_insert_chunk a (kp_free_list h c))) \<le> 2 ^ 31"
      using small True by (simp add: free_sum_ok_def d_def)
    have cpu: "\<forall>b \<in> set (kmalloc_insert_chunk a (kp_free_list h c)). kh_cpu_id (kp_mem h b) = c"
      using True kheap_okD(1) [OF ok] by (auto simp: d_def)
    have dis: "set (kmalloc_insert_chunk a (kp_free_list h c)) \<inter> rest_chunks h c (L - {a}) = {}"
      using afree free_list_rest [OF ok, of c] sub by auto
    have wf': "chunks_wf (kp_mem h) (set (kmalloc_insert_chunk a (kp_free_list h c)) \<union> rest_chunks h c (L - {a}))"
      unfolding un by (rule wf)
    have hh: "h = h\<lparr>kp_remote_free_list := kp_remote_free_list h\<rparr>" by simp
    from consolidate_heap [OF ok srt sum wf' cpu dis hh ok Diff_subset, unfolded un]
    obtain mem' cs' where r: "kmalloc_consolidate_list (kp_mem h) (kmalloc_insert_chunk a (kp_free_list h c)) = (mem', cs')"
      "kheap_ok (h\<lparr>kp_mem := mem', kp_free_list := (kp_free_list h)(c := cs')\<rparr>) (L - {a})"
      "heap_span (h\<lparr>kp_mem := mem', kp_free_list := (kp_free_list h)(c := cs')\<rparr>) (L - {a}) = heap_span h L"
      "\<forall>b \<in> L - {a}. mem' b = kp_mem h b" "\<forall>a \<in> set cs'. \<forall>b \<in> set cs'. int a + int HDR + kh_size (mem' a) \<noteq> int b"
      unfolding heap_span_def by (elim exE conjE)
    have "kfree c (a + HDR) h = Inr (h\<lparr>kp_mem := mem', kp_free_list := (kp_free_list h)(c := cs')\<rparr>)"
      using magic True r(1) by (simp add: kfree_def d_def HDR_def Let_def)
    moreover have "no_adjacent (h\<lparr>kp_mem := mem', kp_free_list := (kp_free_list h)(c := cs')\<rparr>) c"
      using r(5) by (simp add: no_adjacent_def)
    ultimately show ?thesis using r(2-4) by (intro exI conjI) auto
  next
    case False
    define h' where "h' = h\<lparr>kp_remote_free_list := (kp_remote_free_list h)(d := a # kp_remote_free_list h d)\<rparr>"
    have "kfree c (a + HDR) h = Inr h'" using magic False by (simp add: kfree_def d_def HDR_def Let_def h'_def)
    moreover have ch: "heap_chunks h' (L - {a}) = heap_chunks h L"
    proof -
      have "set (kp_free_list h' e) \<union> set (kp_remote_free_list h' e) = set (kp_free_list h e) \<union> set (kp_remote_free_list h e) \<union> (if e = d then {a} else {})" for e
        by (simp add: h'_def)
      then show ?thesis using a unfolding heap_chunks_def by (auto split: if_splits)
    qed
    moreover have "cpu_lists_ok h' (L - {a}) e" for e
    proof -
      have "cpu_lists_ok h L e" using ok by (simp add: kheap_ok_def)
      moreover have "a \<notin> set (kp_free_list h e)" "a \<notin> set (kp_remote_free_list h e)"
        using kheap_okD [OF ok, of a e] a by auto
      ultimately show ?thesis unfolding cpu_lists_ok_def h'_def by (cases "e = d") (simp_all add: d_def [symmetric] ball_Un)
    qed
    moreover have "kp_mem h' = kp_mem h" by (simp add: h'_def)
    ultimately show ?thesis using wf False by (auto simp: kheap_ok_def heap_span_def d_def)
  qed
qed

lemma kmalloc_consolidate_free_list_sound:
  assumes ok: "kheap_ok h L" and small: "chunk_sum (kp_mem h) (set (kp_free_list h c) \<union> set (kp_remote_free_list h c)) \<le> 2 ^ 31"
  defines "h' \<equiv> kmalloc_consolidate_free_list c h"
  shows "kheap_ok h' L \<and> heap_span h' L = heap_span h L \<and> kp_remote_free_list h' c = [] \<and> no_adjacent h' c \<and>
    (\<forall>b \<in> L. kp_mem h' b = kp_mem h b)"
proof -
  define h0 where "h0 = h\<lparr>kp_remote_free_list := (kp_remote_free_list h)(c := [])\<rparr>"
  define cs where "cs = fold kmalloc_insert_chunk (kp_remote_free_list h c) (kp_free_list h c)"
  have lists: "cpu_lists_ok h L d" for d using ok by (simp add: kheap_ok_def)
  have cs: "sorted_wrt (<) cs" "set cs = set (kp_free_list h c) \<union> set (kp_remote_free_list h c)"
    using fold_kmalloc_insert_chunk [of "kp_free_list h c" "kp_remote_free_list h c"] lists [of c]
    by (auto simp: cs_def cpu_lists_ok_def)
  have un: "set cs \<union> rest_chunks h0 c L = heap_chunks h L"
    unfolding cs(2) rest_chunks_def heap_chunks_def h0_def by (auto split: if_splits)
  have wf: "chunks_wf (kp_mem h) (heap_chunks h L)" using ok by (simp add: kheap_ok_def)
  have "cpu_lists_ok h0 L d" for d using lists [of d] unfolding cpu_lists_ok_def h0_def by auto
  moreover have "heap_chunks h0 L \<subseteq> heap_chunks h L" unfolding heap_chunks_def h0_def by (auto split: if_splits)
  ultimately have ok0: "kheap_ok h0 L" using chunks_wf_mono [OF wf] by (simp add: kheap_ok_def h0_def)
  have cpu: "\<forall>b \<in> set cs. kh_cpu_id (kp_mem h b) = c" using kheap_okD [OF ok] cs(2) by auto
  have "b \<notin> rest_chunks h0 c L" if "b \<in> set cs" for b
    using that kheap_okD [OF ok, of b] unfolding cs(2) rest_chunks_def h0_def by (auto split: if_splits)
  then have dis: "set cs \<inter> rest_chunks h0 c L = {}" by blast
  have sum: "chunk_sum (kp_mem h) (set cs) \<le> 2 ^ 31" using small cs(2) by simp
  have wf': "chunks_wf (kp_mem h) (set cs \<union> rest_chunks h0 c L)" using wf un by simp
  from consolidate_heap [OF ok cs(1) sum wf' cpu dis h0_def ok0]
  obtain mem' cs' where "kmalloc_consolidate_list (kp_mem h) cs = (mem', cs')"
    "kheap_ok (h0\<lparr>kp_mem := mem', kp_free_list := (kp_free_list h0)(c := cs')\<rparr>) L"
    "heap_span (h0\<lparr>kp_mem := mem', kp_free_list := (kp_free_list h0)(c := cs')\<rparr>) L = heap_span h L"
    "\<forall>b \<in> L. mem' b = kp_mem h b" "\<forall>a \<in> set cs'. \<forall>b \<in> set cs'. int a + int HDR + kh_size (mem' a) \<noteq> int b"
    using un by (auto simp: heap_span_def)
  moreover from this(1) have "h' = h0\<lparr>kp_mem := mem', kp_free_list := (kp_free_list h0)(c := cs')\<rparr>"
    unfolding h'_def kmalloc_consolidate_free_list_def cs_def [symmetric] h0_def by simp
  ultimately show ?thesis by (simp add: h0_def no_adjacent_def)
qed

subsection \<open>Allocation over a page provider\<close>

lemma kmalloc_round_correct:
  assumes "0 \<le> sz" "sz \<le> 2 ^ 31 - 32"
  shows "sz \<le> kmalloc_round sz \<and> kmalloc_round sz < sz + 32 \<and> 32 dvd kmalloc_round sz \<and> kmalloc_round sz \<le> 2 ^ 31 - 32"
proof -
  have "c_int (sz + 32 - 1) = sz + 31" using assms by (intro trans [OF c_int_small]) auto
  then show ?thesis using assms unfolding kmalloc_round_def by (auto simp: dvd_eq_mod_eq_0)
qed

lemma kmalloc_npages_correct:
  assumes "0 \<le> sz" "sz \<le> 2 ^ 31 - 32"
  shows "0 < kmalloc_npages sz \<and> kmalloc_npages sz \<le> 0x80000 \<and> sz + 32 \<le> kmalloc_npages sz * 4096"
proof -
  have "c_ulong (sz + int HDR + 4095) = sz + 4127" using assms by (intro trans [OF c_ulong_small]) (auto simp: HDR_def)
  moreover have "c_int ((sz + 4127) div 4096) = (sz + 4127) div 4096" using assms by (intro c_int_small) auto
  ultimately have "kmalloc_npages sz = (sz + 4127) div 4096" by (simp add: kmalloc_npages_def)
  moreover have "4096 * ((sz + 4127) div 4096) \<le> sz + 4127" "sz + 4127 < 4096 * ((sz + 4127) div 4096) + 4096" by simp_all
  ultimately show ?thesis using assms by simp
qed

text \<open>Adding the pages of a new region as one free chunk.\<close>

lemma kheap_ok_new_chunk:
  fixes c :: nat
  assumes ok: "kheap_ok h L" and p: "4096 dvd p" and n: "0 < n" "n \<le> 0x80000"
    and fresh: "{p ..< p + 4096 * nat n} \<inter> heap_span h L = {}"
  defines "h' \<equiv> h\<lparr>kp_mem := (kp_mem h)(p := kmalloc_init_chunk c (c_int (n * 4096 - int HDR))),
                  kp_free_list := (kp_free_list h)(c := kmalloc_insert_chunk p (kp_free_list h c))\<rparr>"
  shows "kheap_ok h' L \<and> heap_span h' L = heap_span h L \<union> {p ..< p + 4096 * nat n} \<and> p \<in> set (kp_free_list h' c) \<and>
    kh_size (kp_mem h' p) = n * 4096 - 32 \<and> (\<forall>b \<in> L. kp_mem h' b = kp_mem h b)"
proof -
  define mem where "mem = (kp_mem h)(p := kmalloc_init_chunk c (c_int (n * 4096 - int HDR)))"
  have size: "c_int (n * 4096 - int HDR) = n * 4096 - 32" using n by (intro trans [OF c_int_small]) (auto simp: HDR_def)
  have memp: "mem p = kmalloc_init_chunk c (n * 4096 - 32)" by (simp add: mem_def size)
  have ext: "extent mem p = {p ..< p + 4096 * nat n}"
  proof -
    have "HDR + nat (n * 4096 - 32) = 4096 * nat n" using n by (simp add: HDR_def nat_diff_distrib nat_mult_distrib)
    then show ?thesis by (simp add: extent_def memp kmalloc_init_chunk_def add.assoc)
  qed
  have notin: "p \<notin> heap_chunks h L"
  proof
    assume "p \<in> heap_chunks h L"
    then have "p \<in> heap_span h L" unfolding heap_span_def span_def using extent_self [of p "kp_mem h"] by blast
    moreover have "p \<in> {p ..< p + 4096 * nat n}" using n by simp
    ultimately show False using fresh by blast
  qed
  have "kchunk_ok mem p"
    using n p unfolding kchunk_ok_def memp kmalloc_init_chunk_def by (auto intro: dvd_trans [of 32 4096])
  then have wf: "chunks_wf mem (insert p (heap_chunks h L))"
    using ok fresh notin ext by (simp add: chunks_wf_insert mem_def chunks_wf_upd span_upd kheap_ok_def heap_span_def)
  have un: "set (kmalloc_insert_chunk p (kp_free_list h c)) \<union> rest_chunks h c L = insert p (heap_chunks h L)"
    by (simp add: heap_chunks_split [of h L c])
  have pn: "p \<notin> set (kp_free_list h c)" "p \<notin> rest_chunks h c L"
    using notin unfolding heap_chunks_split [of h L c] by auto
  have h': "h' = h\<lparr>kp_mem := mem, kp_free_list := (kp_free_list h)(c := kmalloc_insert_chunk p (kp_free_list h c))\<rparr>"
    by (simp add: h'_def mem_def)
  have "kheap_ok h' L \<and> heap_span h' L = span mem (set (kmalloc_insert_chunk p (kp_free_list h c)) \<union> rest_chunks h c L)"
    unfolding h'
  proof (rule kheap_ok_free_listI [OF ok])
    show "chunks_wf mem (set (kmalloc_insert_chunk p (kp_free_list h c)) \<union> rest_chunks h c L)" unfolding un by (rule wf)
    show "sorted_wrt (<) (kmalloc_insert_chunk p (kp_free_list h c))"
      using ok pn by (intro sorted_kmalloc_insert_chunk) (auto simp: kheap_ok_def cpu_lists_ok_def)
    show "kh_cpu_id (mem b) = c \<and> b \<notin> rest_chunks h c L" if "b \<in> set (kmalloc_insert_chunk p (kp_free_list h c))" for b
      using that pn kheap_okD(1) [OF ok, of b c] free_list_rest [OF ok, of c] by (auto simp: mem_def kmalloc_init_chunk_def)
    show "kh_cpu_id (mem b) = kh_cpu_id (kp_mem h b) \<and> b \<notin> L" if b: "b \<in> rest_chunks h c {}" for b
    proof -
      have "b \<in> rest_chunks h c L" "b \<notin> L" using b kheap_okD [OF ok, of b] unfolding rest_chunks_def by blast+
      then show ?thesis using pn by (auto simp: mem_def)
    qed
  qed
  moreover have "span mem (insert p (heap_chunks h L)) = heap_span h L \<union> {p ..< p + 4096 * nat n}"
    using notin ext by (simp add: heap_span_def mem_def span_upd Un_commute)
  moreover have "p \<notin> L" using notin by (auto simp: heap_chunks_def)
  moreover have "kp_mem h' = mem" "kp_free_list h' c = kmalloc_insert_chunk p (kp_free_list h c)" by (simp_all add: h')
  ultimately show ?thesis using memp unfolding un by (auto simp: mem_def kmalloc_init_chunk_def)
qed

text \<open>What the heap relies on in the page allocator of \<open>kernel/mem.c\<close>: \<open>pfree\<close> are the virtual
  addresses of the pages it could still hand out.\<close>

locale page_provider =
  fixes alloc_pages :: "'s \<Rightarrow> int \<Rightarrow> (nat \<times> 's) option"
    and pinv :: "'s \<Rightarrow> bool"
    and pfree :: "'s \<Rightarrow> nat set"
  assumes alloc_pages_sound: "pinv s \<Longrightarrow> 0 < n \<Longrightarrow> n \<le> 0x80000 \<Longrightarrow>
      \<exists>p s'. alloc_pages s n = Some (p, s') \<and> pinv s' \<and>
        (if p = 0 then pfree s' = pfree s
         else 4096 dvd p \<and> {p ..< p + 4096 * nat n} \<subseteq> pfree s \<and> pfree s' = pfree s - {p ..< p + 4096 * nat n})"

definition find_free :: "nat \<Rightarrow> int \<Rightarrow> kheap \<Rightarrow> nat option" where
  "find_free c sz h = find (\<lambda>chunk. sz \<le> kh_size (kp_mem h chunk)) (kp_free_list h c)"

lemma kmalloc_unfold:
  "kmalloc alloc_pages c sz (s, h) =
     (case find_free c (kmalloc_round sz) h of
        Some chunk \<Rightarrow> Some (chunk + HDR, s, kmalloc_split_return c chunk (kmalloc_round sz) h)
      | None \<Rightarrow>
          (case alloc_pages s (kmalloc_npages (kmalloc_round sz)) of
             None \<Rightarrow> None
           | Some (p, s') \<Rightarrow>
               if p = 0 then Some (0, s', h)
               else Some (p + HDR, s', kmalloc_split_return c p (kmalloc_round sz)
                 (h\<lparr>kp_mem := (kp_mem h)(p := kmalloc_init_chunk c (c_int (kmalloc_npages (kmalloc_round sz) * 4096 - int HDR))),
                    kp_free_list := (kp_free_list h)(c := kmalloc_insert_chunk p (kp_free_list h c))\<rparr>))))"
  unfolding kmalloc_def find_free_def Let_def fst_conv snd_conv by (rule refl)

datatype kheap_op = KMalloc nat int | KFree nat nat | KConsolidate nat

fun kstep :: "('s \<Rightarrow> int \<Rightarrow> (nat \<times> 's) option) \<Rightarrow> kheap_op \<Rightarrow> 's \<times> kheap \<times> nat set \<Rightarrow> ('s \<times> kheap \<times> nat set) option" where
  "kstep alloc_pages (KMalloc c sz) (s, h, L) =
     (case kmalloc alloc_pages c sz (s, h) of
        None \<Rightarrow> None
      | Some (p, s', h') \<Rightarrow> Some (s', h', if p = 0 then L else insert (p - HDR) L))"
| "kstep alloc_pages (KFree c a) (s, h, L) =
     (case kfree c (a + HDR) h of Inl _ \<Rightarrow> None | Inr h' \<Rightarrow> Some (s, h', L - {a}))"
| "kstep alloc_pages (KConsolidate c) (s, h, L) = Some (s, kmalloc_consolidate_free_list c h, L)"

fun krun :: "('s \<Rightarrow> int \<Rightarrow> (nat \<times> 's) option) \<Rightarrow> kheap_op list \<Rightarrow> 's \<times> kheap \<times> nat set \<Rightarrow> ('s \<times> kheap \<times> nat set) option" where
  "krun alloc_pages [] st = Some st"
| "krun alloc_pages (op # ops) st = (case kstep alloc_pages op st of None \<Rightarrow> None | Some st' \<Rightarrow> krun alloc_pages ops st')"

text \<open>What the kernel may do: ask for a size that can be rounded up in an \<open>int\<close>, free chunks it
  holds, and merge as long as less than 2 GiB of a CPU's heap are free.\<close>

fun kop_ok :: "kheap_op \<Rightarrow> kheap \<Rightarrow> nat set \<Rightarrow> bool" where
  "kop_ok (KMalloc c sz) h L \<longleftrightarrow> 0 \<le> sz \<and> sz \<le> 2 ^ 31 - 32"
| "kop_ok (KFree c a) h L \<longleftrightarrow> a \<in> L \<and> free_sum_ok c a h"
| "kop_ok (KConsolidate c) h L \<longleftrightarrow>
     chunk_sum (kp_mem h) (set (kp_free_list h c) \<union> set (kp_remote_free_list h c)) \<le> 2 ^ 31"

fun krun_ok :: "('s \<Rightarrow> int \<Rightarrow> (nat \<times> 's) option) \<Rightarrow> kheap_op list \<Rightarrow> 's \<times> kheap \<times> nat set \<Rightarrow> bool" where
  "krun_ok alloc_pages [] st \<longleftrightarrow> True"
| "krun_ok alloc_pages (op # ops) st \<longleftrightarrow> kop_ok op (fst (snd st)) (snd (snd st)) \<and>
     (case kstep alloc_pages op st of None \<Rightarrow> True | Some st' \<Rightarrow> krun_ok alloc_pages ops st')"

context page_provider
begin

definition heap_inv :: "nat set \<Rightarrow> 's \<times> kheap \<times> nat set \<Rightarrow> bool" where
  "heap_inv tot st \<longleftrightarrow> (case st of (s, h, L) \<Rightarrow>
     pinv s \<and> kheap_ok h L \<and> heap_span h L \<inter> pfree s = {} \<and> heap_span h L \<union> pfree s = tot)"

lemma kmalloc_sound:
  assumes inv: "heap_inv tot (s, h, L)" and sz: "0 \<le> sz" "sz \<le> 2 ^ 31 - 32"
  shows "\<exists>p s' h'. kmalloc alloc_pages c sz (s, h) = Some (p, s', h') \<and>
    (if p = 0 then h' = h \<and> heap_inv tot (s', h, L)
     else HDR \<le> p \<and> p - HDR \<notin> L \<and> 32 dvd p \<and> heap_inv tot (s', h', insert (p - HDR) L) \<and>
       sz \<le> kh_size (kp_mem h' (p - HDR)) \<and> kh_size (kp_mem h' (p - HDR)) \<le> kmalloc_round sz + 32 \<and>
       kh_cpu_id (kp_mem h' (p - HDR)) = c \<and> (\<forall>b \<in> L. kp_mem h' b = kp_mem h b))"
proof -
  define r where "r = kmalloc_round sz"
  have r: "sz \<le> r" "0 \<le> r" "32 dvd r" "r \<le> 2 ^ 31 - 32" using kmalloc_round_correct [OF sz] sz by (auto simp: r_def)
  have st: "pinv s" "kheap_ok h L" "heap_span h L \<inter> pfree s = {}" "heap_span h L \<union> pfree s = tot"
    using inv by (simp_all add: heap_inv_def)
  have fin: "HDR \<le> a + HDR \<and> a + HDR - HDR \<notin> L \<and> 32 dvd a + HDR \<and>
      heap_inv tot (s1, kmalloc_split_return c a r h1, insert (a + HDR - HDR) L) \<and>
      sz \<le> kh_size (kp_mem (kmalloc_split_return c a r h1) (a + HDR - HDR)) \<and>
      kh_size (kp_mem (kmalloc_split_return c a r h1) (a + HDR - HDR)) \<le> r + 32 \<and>
      kh_cpu_id (kp_mem (kmalloc_split_return c a r h1) (a + HDR - HDR)) = c \<and>
      (\<forall>b \<in> L. kp_mem (kmalloc_split_return c a r h1) b = kp_mem h b)"
    if inv1: "heap_inv tot (s1, h1, L)" and a: "a \<in> set (kp_free_list h1 c)" "r \<le> kh_size (kp_mem h1 a)"
      and same: "\<forall>b \<in> L. kp_mem h1 b = kp_mem h b" for s1 h1 a
  proof -
    have ok1: "kheap_ok h1 L" using inv1 by (simp add: heap_inv_def)
    then have "kchunk_ok (kp_mem h1) a" using a(1) by (auto simp: kheap_ok_def chunks_wf_def heap_chunks_def)
    then have "32 dvd a + HDR" by (simp add: kchunk_ok_def HDR_def)
    then show ?thesis using kmalloc_split_return_correct [OF ok1 a(1) r(2,3) a(2)] inv1 same r(1)
      by (auto simp: heap_inv_def)
  qed
  show ?thesis
  proof (cases "find_free c r h")
    case (Some a)
    then have "a \<in> set (kp_free_list h c)" "r \<le> kh_size (kp_mem h a)" by (auto simp: find_free_def find_Some_iff)
    from fin [OF inv this] Some show ?thesis by (simp add: kmalloc_unfold r_def [symmetric] HDR_def)
  next
    case None
    define n where "n = kmalloc_npages r"
    have n: "0 < n" "n \<le> 0x80000" "r + 32 \<le> n * 4096" using kmalloc_npages_correct [OF r(2,4)] by (auto simp: n_def)
    from alloc_pages_sound [OF st(1) n(1,2)] obtain p s' where p: "alloc_pages s n = Some (p, s')" "pinv s'"
      "if p = 0 then pfree s' = pfree s
       else 4096 dvd p \<and> {p ..< p + 4096 * nat n} \<subseteq> pfree s \<and> pfree s' = pfree s - {p ..< p + 4096 * nat n}" by blast
    show ?thesis
    proof (cases "p = 0")
      case True
      then show ?thesis using None p st by (simp add: kmalloc_unfold r_def [symmetric] n_def [symmetric] heap_inv_def)
    next
      case False
      define h1 where "h1 = h\<lparr>kp_mem := (kp_mem h)(p := kmalloc_init_chunk c (c_int (n * 4096 - int HDR))),
                        kp_free_list := (kp_free_list h)(c := kmalloc_insert_chunk p (kp_free_list h c))\<rparr>"
      have pp: "4096 dvd p" "{p ..< p + 4096 * nat n} \<subseteq> pfree s" "pfree s' = pfree s - {p ..< p + 4096 * nat n}"
        using p(3) False by auto
      have "{p ..< p + 4096 * nat n} \<inter> heap_span h L = {}" using pp(2) st(3) by blast
      from kheap_ok_new_chunk [OF st(2) pp(1) n(1,2) this, of c, folded h1_def]
      have h1: "kheap_ok h1 L" "heap_span h1 L = heap_span h L \<union> {p ..< p + 4096 * nat n}" "p \<in> set (kp_free_list h1 c)"
        "kh_size (kp_mem h1 p) = n * 4096 - 32" "\<forall>b \<in> L. kp_mem h1 b = kp_mem h b" by auto
      have "heap_inv tot (s', h1, L)" unfolding heap_inv_def using h1(1,2) p(2) pp st by auto
      moreover have "kmalloc alloc_pages c sz (s, h) = Some (p + HDR, s', kmalloc_split_return c p r h1)"
        using None p(1) False by (simp add: kmalloc_unfold r_def [symmetric] n_def [symmetric] h1_def [symmetric])
      moreover have "HDR \<noteq> 0" "r \<le> kh_size (kp_mem h1 p)" using h1(4) n(3) by (simp_all add: HDR_def)
      ultimately show ?thesis using fin [of s' h1 p, OF _ h1(3) _ h1(5)] r_def by simp
    qed
  qed
qed

lemma kstep_inv:
  assumes "heap_inv tot (s, h, L)" "kop_ok op h L"
  shows "\<exists>st'. kstep alloc_pages op (s, h, L) = Some st' \<and> heap_inv tot st'"
proof (cases op)
  case (KMalloc c sz)
  from kmalloc_sound [OF assms(1), of sz c] assms(2) KMalloc show ?thesis by (auto split: if_splits)
next
  case (KFree c a)
  from kfree_sound [of h L a c] assms KFree show ?thesis by (auto simp: heap_inv_def)
next
  case (KConsolidate c)
  from kmalloc_consolidate_free_list_sound [of h L c] assms KConsolidate show ?thesis by (auto simp: heap_inv_def)
qed

lemma krun_inv:
  "heap_inv tot st \<Longrightarrow> krun_ok alloc_pages ops st \<Longrightarrow> \<exists>st'. krun alloc_pages ops st = Some st' \<and> heap_inv tot st'"
proof (induction ops arbitrary: st)
  case (Cons op ops)
  obtain s h L where st: "st = (s, h, L)" by (cases st)
  from kstep_inv [of tot s h L op] Cons.prems st obtain st1 where
    "kstep alloc_pages op st = Some st1" "heap_inv tot st1" by auto
  with Cons.IH [of st1] Cons.prems(2) show ?case by simp
qed simp

lemma heap_run_safe:
  assumes "pinv s" "krun_ok alloc_pages ops (s, h, {})" "kheap_ok h {}" "heap_span h {} \<inter> pfree s = {}"
  shows "\<exists>s' h' L. krun alloc_pages ops (s, h, {}) = Some (s', h', L) \<and> kheap_ok h' L \<and>
    heap_span h' L \<inter> pfree s' = {} \<and> heap_span h' L \<union> pfree s' = heap_span h {} \<union> pfree s"
  using krun_inv [of "heap_span h {} \<union> pfree s" "(s, h, {})" ops] assms by (auto simp: heap_inv_def)

end

subsection \<open>Properties\<close>

text \<open>C30: Freeing a live chunk never panics, gives its bytes back and leaves the headers of all other
  live chunks alone: on the CPU that owns it the chunk is merged so that no two chunks of the free list
  touch, on another CPU it is put on the owner's remote list.  A chunk with a damaged header is found, and
  freeing the null pointer does nothing.\<close>

theorem kfree_correct:
  assumes "kheap_ok h L"
  shows "(a \<in> L \<and> free_sum_ok c a h \<longrightarrow>
     (\<exists>h'. kfree c (a + HDR) h = Inr h' \<and> kheap_ok h' (L - {a}) \<and> heap_span h' (L - {a}) = heap_span h L \<and>
        (\<forall>b \<in> L - {a}. kp_mem h' b = kp_mem h b) \<and>
        (if kh_cpu_id (kp_mem h a) = c then no_adjacent h' c
         else kp_free_list h' = kp_free_list h \<and>
           kp_remote_free_list h' (kh_cpu_id (kp_mem h a)) = a # kp_remote_free_list h (kh_cpu_id (kp_mem h a))))) \<and>
   (kh_front_magic (kp_mem h a) \<noteq> FRONT_MAGIC \<or> kh_end_magic (kp_mem h a) \<noteq> END_MAGIC \<longrightarrow> kfree c (a + HDR) h = Inl KF_Corruption) \<and>
   kfree c 0 h = Inr h"
proof (intro conjI impI)
  assume a: "a \<in> L \<and> free_sum_ok c a h"
  from kfree_sound [OF assms, of a c] a obtain h' where
    h': "kfree c (a + HDR) h = Inr h'" "kheap_ok h' (L - {a})" "heap_span h' (L - {a}) = heap_span h L"
      "\<forall>b \<in> L - {a}. kp_mem h' b = kp_mem h b" "kh_cpu_id (kp_mem h a) = c \<longrightarrow> no_adjacent h' c" by blast
  have "kh_cpu_id (kp_mem h a) \<noteq> c \<Longrightarrow> kp_free_list h' = kp_free_list h \<and>
      kp_remote_free_list h' (kh_cpu_id (kp_mem h a)) = a # kp_remote_free_list h (kh_cpu_id (kp_mem h a))"
    using h'(1) by (auto simp: kfree_def HDR_def Let_def split: if_splits)
  with h' show "\<exists>h'. kfree c (a + HDR) h = Inr h' \<and> kheap_ok h' (L - {a}) \<and> heap_span h' (L - {a}) = heap_span h L \<and>
        (\<forall>b \<in> L - {a}. kp_mem h' b = kp_mem h b) \<and>
        (if kh_cpu_id (kp_mem h a) = c then no_adjacent h' c
         else kp_free_list h' = kp_free_list h \<and>
           kp_remote_free_list h' (kh_cpu_id (kp_mem h a)) = a # kp_remote_free_list h (kh_cpu_id (kp_mem h a)))"
    by (intro exI [of _ h']) simp
qed (auto simp: kfree_def HDR_def Let_def)

text \<open>A live chunk between two free ones, all of CPU 0.\<close>

definition example_heap :: kheap where
  "example_heap = \<lparr>kp_mem = (\<lambda>a. kmalloc_init_chunk 0 (if a = 4192 then 64 else 32)),
     kp_free_list = (\<lambda>c. if c = 0 then [4128, 4288] else []), kp_remote_free_list = (\<lambda>_. [])\<rparr>"

lemma example_heap_ok: "kheap_ok example_heap {4192}"
proof -
  have "heap_chunks example_heap {4192} = {4128, 4192, 4288}" by (auto simp: heap_chunks_def example_heap_def)
  then show ?thesis
    by (auto simp: kheap_ok_def chunks_wf_def cpu_lists_ok_def kchunk_ok_def extent_def example_heap_def kmalloc_init_chunk_def HDR_def)
qed

theorem kfree_correct_witness:
  "\<exists>h'. kfree 0 (4192 + HDR) example_heap = Inr h' \<and> kheap_ok h' {} \<and> kp_free_list h' 0 = [4128] \<and> kh_size (kp_mem h' 4128) = 192"
proof -
  have "free_sum_ok 0 4192 example_heap"
    by (simp add: free_sum_ok_def chunk_sum_def example_heap_def kmalloc_init_chunk_def HDR_def)
  moreover have "map_sum id (\<lambda>h. (kp_free_list h 0, kh_size (kp_mem h 4128))) (kfree 0 (4192 + HDR) example_heap) = Inr ([4128], 192)"
    by (simp add: kfree_def example_heap_def kmalloc_init_chunk_def HDR_def Let_def kmalloc_consolidate_list.simps c_int_def)
  ultimately show ?thesis using kfree_correct [OF example_heap_ok, of 4192 0] by auto
qed

end
