(* ===== verification/VmRange.thy ===== *)
theory VmRange
  imports VmTypes RBTree_Lemmas
begin

section \<open>The address space of a process\<close>

text \<open>
  The operations of \<open>kernel/process.c\<close> on the ranges of a \<open>struct process_vm\<close>.  Range structures
  live in a store indexed by their address; the red-black tree holds the addresses, as the code
  embeds the tree nodes in the ranges, and so does the small cache of recently found ranges.
  Calls into the page table code, the page allocator and the memory objects are recorded in a
  trace in the order they are made; their results come from a parameter \<open>env\<close>.  The results of
  the coming calls of \<open>kmalloc\<close> are a list, where \<open>None\<close> (or the end of the list) is a null pointer.
  A null dereference in the code is the result \<open>None\<close>.
\<close>

subsection \<open>State\<close>

datatype vm_call =
    PT_Split u64
  | PT_SetRange u64 u64 u64 u64 int
  | PT_ClearRange u64 u64
  | PT_FreeRange u64 u64 "nat option"
  | PT_ChangeAttr u64 u64 u64 u64
  | PT_CopyRange u64 u64 int
  | MC_FreePages u64 u64
  | MC_Memset u64 u64
  | MC_Kfree nat
  | Obj_Free nat
  | Xpmem_Remove nat

record process_vm =
  pv_tree :: "nat rbt"
  pv_ranges :: "nat \<Rightarrow> vm_range"
  pv_objs :: "nat \<Rightarrow> memobj"
  pv_range_cache :: "nat option list"
  pv_range_cache_ind :: nat
  pv_user_start :: u64
  pv_user_end :: u64
  pv_straight_va :: u64
  pv_straight_len :: u64
  pv_straight_pa :: u64
  pv_kmalloc :: "nat option list"
  pv_trace :: "vm_call list"

definition VM_RANGE_CACHE_SIZE :: nat where
  "VM_RANGE_CACHE_SIZE = 4"

definition NOPHYS :: u64 where
  "NOPHYS = - 1"

definition vm_do :: "(vm_call \<Rightarrow> int) \<Rightarrow> vm_call \<Rightarrow> process_vm \<Rightarrow> int \<times> process_vm" where
  "vm_do env call vm = (env call, vm\<lparr>pv_trace := call # pv_trace vm\<rparr>)"

definition vm_kmalloc :: "process_vm \<Rightarrow> nat option \<times> process_vm" where
  "vm_kmalloc vm = (case pv_kmalloc vm of [] \<Rightarrow> (None, vm) | r # rs \<Rightarrow> (r, vm\<lparr>pv_kmalloc := rs\<rparr>))"

definition set_range :: "nat \<Rightarrow> vm_range \<Rightarrow> process_vm \<Rightarrow> process_vm" where
  "set_range p r vm = vm\<lparr>pv_ranges := (pv_ranges vm)(p := r)\<rparr>"

definition memobj_ref :: "nat \<Rightarrow> process_vm \<Rightarrow> process_vm" where
  "memobj_ref obj vm = vm\<lparr>pv_objs := (pv_objs vm)(obj := (pv_objs vm obj)\<lparr>mo_refcnt := mo_refcnt (pv_objs vm obj) + 1\<rparr>)\<rparr>"

definition memobj_unref :: "(vm_call \<Rightarrow> int) \<Rightarrow> nat \<Rightarrow> process_vm \<Rightarrow> process_vm" where
  "memobj_unref env obj vm =
     (let cnt = mo_refcnt (pv_objs vm obj) - 1;
          vm = vm\<lparr>pv_objs := (pv_objs vm)(obj := (pv_objs vm obj)\<lparr>mo_refcnt := cnt\<rparr>)\<rparr>
      in if cnt = 0 then snd (vm_do env (Obj_Free obj) vm) else vm)"

definition opt_ref :: "nat option \<Rightarrow> process_vm \<Rightarrow> process_vm" where
  "opt_ref obj vm = (case obj of None \<Rightarrow> vm | Some m \<Rightarrow> memobj_ref m vm)"

definition opt_unref :: "(vm_call \<Rightarrow> int) \<Rightarrow> nat option \<Rightarrow> process_vm \<Rightarrow> process_vm" where
  "opt_unref env obj vm = (case obj of None \<Rightarrow> vm | Some m \<Rightarrow> memobj_unref env m vm)"

subsection \<open>The tree of ranges\<close>

definition range_node :: "process_vm \<Rightarrow> nat \<Rightarrow> nat rb_locus option" where
  "range_node vm p = rb_locate (\<lambda>q. q = p) (pv_tree vm) []"

definition vm_range_insert_dir :: "vm_range \<Rightarrow> vm_range \<Rightarrow> rb_dir" where
  "vm_range_insert_dir newrange rng =
     (if vr_end newrange \<le> vr_start rng then GoLeft
      else if vr_start newrange \<ge> vr_end rng then GoRight
      else Stop)"

definition vm_range_insert :: "nat \<Rightarrow> process_vm \<Rightarrow> (int \<times> process_vm) option" where
  "vm_range_insert newrange vm =
     (let node = rb_descend (\<lambda>p. vm_range_insert_dir (pv_ranges vm newrange) (pv_ranges vm p)) (pv_tree vm) []
      in case rb_entry node of
           Some _ \<Rightarrow> Some (- EFAULT, vm)
         | None \<Rightarrow>
             (case rb_insert_at newrange (snd node) of
                None \<Rightarrow> None
              | Some t \<Rightarrow> Some (0, vm\<lparr>pv_tree := t\<rparr>)))"

definition next_process_memory_range :: "process_vm \<Rightarrow> nat \<Rightarrow> nat option option" where
  "next_process_memory_range vm rng =
     (case range_node vm rng of
        None \<Rightarrow> None
      | Some n \<Rightarrow> (case rb_next n of None \<Rightarrow> Some None | Some n' \<Rightarrow> map_option Some (rb_entry n')))"

definition previous_process_memory_range :: "process_vm \<Rightarrow> nat \<Rightarrow> nat option option" where
  "previous_process_memory_range vm rng =
     (case range_node vm rng of
        None \<Rightarrow> None
      | Some n \<Rightarrow> (case rb_prev n of None \<Rightarrow> Some None | Some n' \<Rightarrow> map_option Some (rb_entry n')))"

text \<open>The loop over the cache, from the slot used last, and the descent.\<close>

fun lookup_cache :: "process_vm \<Rightarrow> u64 \<Rightarrow> u64 \<Rightarrow> nat list \<Rightarrow> nat option" where
  "lookup_cache vm start end0 [] = None"
| "lookup_cache vm start end0 (i # is) =
     (case pv_range_cache vm ! ((i + pv_range_cache_ind vm) mod VM_RANGE_CACHE_SIZE) of
        None \<Rightarrow> lookup_cache vm start end0 is
      | Some p \<Rightarrow>
          if vr_start (pv_ranges vm p) \<le> start \<and> vr_end (pv_ranges vm p) \<ge> end0 then Some p
          else lookup_cache vm start end0 is)"

fun lookup_tree :: "(nat \<Rightarrow> vm_range) \<Rightarrow> u64 \<Rightarrow> u64 \<Rightarrow> nat rbt \<Rightarrow> nat option \<Rightarrow> nat option" where
  "lookup_tree rs start end0 RB_Null match = match"
| "lookup_tree rs start end0 (RB_Node c l p r) match =
     (if end0 \<le> vr_start (rs p) then lookup_tree rs start end0 l match
      else if start \<ge> vr_end (rs p) then lookup_tree rs start end0 r match
      else if start < vr_start (rs p) then lookup_tree rs start end0 l (Some p)
      else Some p)"

definition lookup_process_memory_range :: "u64 \<Rightarrow> u64 \<Rightarrow> process_vm \<Rightarrow> nat option \<times> process_vm" where
  "lookup_process_memory_range start end0 vm =
     (if end0 \<le> start then (None, vm)
      else
        (case lookup_cache vm start end0 [0 ..< VM_RANGE_CACHE_SIZE] of
           Some p \<Rightarrow> (Some p, vm)
         | None \<Rightarrow>
             (case lookup_tree (pv_ranges vm) start end0 (pv_tree vm) None of
                None \<Rightarrow> (None, vm)
              | Some match \<Rightarrow>
                  if end0 > vr_start (pv_ranges vm match) then
                    (let ind = (pv_range_cache_ind vm + VM_RANGE_CACHE_SIZE - 1) mod VM_RANGE_CACHE_SIZE
                     in (Some match, vm\<lparr>pv_range_cache_ind := ind, pv_range_cache := (pv_range_cache vm)[ind := Some match]\<rparr>))
                  else (Some match, vm))))"

subsection \<open>Page table attributes\<close>

definition "PTATTR_ACTIVE = (0x01 :: u64)"
definition "PTATTR_WRITABLE = (0x02 :: u64)"
definition "PTATTR_USER = (0x04 :: u64)"
definition "PTATTR_DIRTY = (0x40 :: u64)"
definition "PTATTR_UNCACHABLE = (0x10000 :: u64)"
definition "PTATTR_FOR_USER = (0x20000 :: u64)"
definition "PTATTR_WRITE_COMBINED = (0x40000 :: u64)"
definition "PTATTR_NO_EXECUTE = (0x8000000000000000 :: u64)"
definition "PF_PROT = (1 :: u64)"
definition "PF_PATCH = (0x20000000 :: u64)"
definition "PF_POPULATE = (0x40000000 :: u64)"

text \<open>\<open>remote\<close> is \<open>IHK_PTA_REMOTE\<close>, a constant of the IHK headers.\<close>

definition common_vrflag_to_ptattr :: "u64 \<Rightarrow> u64 \<Rightarrow> u64" where
  "common_vrflag_to_ptattr remote flag =
     (let attr = PTATTR_USER OR PTATTR_FOR_USER;
          attr = (if flag AND VR_REMOTE \<noteq> 0 then attr OR remote
                  else if flag AND VR_IO_NOCACHE \<noteq> 0 then attr OR PTATTR_UNCACHABLE else attr);
          attr = (if flag AND VR_PROT_MASK \<noteq> 0 then attr OR PTATTR_ACTIVE else attr);
          attr = (if flag AND VR_PROT_WRITE \<noteq> 0 then attr OR PTATTR_WRITABLE else attr);
          attr = (if flag AND VR_PROT_EXEC = 0 then attr OR PTATTR_NO_EXECUTE else attr)
      in if flag AND VR_WRITE_COMBINED \<noteq> 0 then attr OR PTATTR_WRITE_COMBINED else attr)"

definition arch_vrflag_to_ptattr :: "u64 \<Rightarrow> u64 \<Rightarrow> u64 \<Rightarrow> u64" where
  "arch_vrflag_to_ptattr remote flag fault =
     (let attr = common_vrflag_to_ptattr remote flag
      in if fault AND PF_PROT \<noteq> 0 \<or> fault AND (PF_POPULATE OR PF_PATCH) \<noteq> 0 \<and> flag AND VR_PRIVATE \<noteq> 0
         then attr OR PTATTR_DIRTY else attr)"

definition update_process_page_table :: "(vm_call \<Rightarrow> int) \<Rightarrow> u64 \<Rightarrow> nat \<Rightarrow> u64 \<Rightarrow> process_vm \<Rightarrow> int \<times> process_vm" where
  "update_process_page_table env remote rng phys vm =
     (let r = pv_ranges vm rng; attr = arch_vrflag_to_ptattr remote (vr_flag r) PF_POPULATE;
          (error, vm) = vm_do env (PT_SetRange (vr_start r) (vr_end r) phys attr (vr_pgshift r)) vm
      in (error, vm))"

subsection \<open>Splitting and joining\<close>

definition split_page_mask :: "int \<Rightarrow> u64" where
  "split_page_mask pgshift = word_of_int (c_int (2 ^ nat pgshift) - 1)"

text \<open>The result is the error, the range stored through \<open>splitp\<close> if any, and the address space.\<close>

definition split_process_memory_range ::
  "(vm_call \<Rightarrow> int) \<Rightarrow> nat \<Rightarrow> u64 \<Rightarrow> process_vm \<Rightarrow> (int \<times> nat option \<times> process_vm) option" where
  "split_process_memory_range env rng addr vm =
     (let r = pv_ranges vm rng;
          vm = (if vr_pgshift r \<noteq> 0 \<and> addr AND split_page_mask (vr_pgshift r) \<noteq> 0
                then set_range rng (r\<lparr>vr_pgshift := 0\<rparr>) vm else vm);
          (error, vm) = vm_do env (PT_Split addr) vm
      in if error \<noteq> 0 then Some (error, None, vm)
         else
           (case vm_kmalloc vm of
              (None, vm) \<Rightarrow> Some (- ENOMEM, None, vm)
            | (Some newrange, vm) \<Rightarrow>
                (let r = pv_ranges vm rng;
                     new = \<lparr>vr_start = addr, vr_end = vr_end r, vr_flag = vr_flag r,
                            vr_straight_start = (if vr_straight_start r \<noteq> 0 then vr_straight_start r + (addr - vr_start r) else 0),
                            vr_memobj = vr_memobj r,
                            vr_objoff = (if vr_memobj r \<noteq> None then vr_objoff r + (addr - vr_start r) else 0),
                            vr_pgshift = vr_pgshift r, vr_private_data = vr_private_data r\<rparr>;
                     vm = opt_ref (vr_memobj r) vm;
                     vm = set_range newrange new vm;
                     vm = set_range rng (r\<lparr>vr_end := addr\<rparr>) vm
                 in case vm_range_insert newrange vm of
                      None \<Rightarrow> None
                    | Some (error, vm) \<Rightarrow> Some (error, if error \<noteq> 0 then None else Some newrange, vm))))"

text \<open>\<open>rb_erase\<close> of the node of a range, and the pass over the cache that replaces it.\<close>

definition range_erase :: "nat \<Rightarrow> nat option \<Rightarrow> process_vm \<Rightarrow> process_vm option" where
  "range_erase rng repl vm =
     (case range_node vm rng of
        None \<Rightarrow> None
      | Some n \<Rightarrow>
          (case rb_erase n of
             None \<Rightarrow> None
           | Some t \<Rightarrow>
               Some (vm\<lparr>pv_tree := t,
                        pv_range_cache := map (\<lambda>c. if c = Some rng then repl else c) (pv_range_cache vm)\<rparr>)))"

definition join_process_memory_range ::
  "(vm_call \<Rightarrow> int) \<Rightarrow> nat \<Rightarrow> nat \<Rightarrow> process_vm \<Rightarrow> (int \<times> process_vm) option" where
  "join_process_memory_range env surviving merging vm =
     (let s = pv_ranges vm surviving; m = pv_ranges vm merging
      in if vr_end s \<noteq> vr_start m \<or> vr_flag s \<noteq> vr_flag m \<or> vr_memobj s \<noteq> vr_memobj m then Some (- EINVAL, vm)
         else if vr_memobj s \<noteq> None \<and> vr_objoff s + (vr_end s - vr_start s) \<noteq> vr_objoff m then Some (- EINVAL, vm)
         else
           (let vm = set_range surviving (s\<lparr>vr_end := vr_end m\<rparr>) vm;
                vm = opt_unref env (vr_memobj m) vm
            in case range_erase merging (Some surviving) vm of
                 None \<Rightarrow> None
               | Some vm \<Rightarrow> Some (0, snd (vm_do env (MC_Kfree merging) vm))))"

subsection \<open>Freeing and removing\<close>

definition PTL1_SIZE :: u64 where
  "PTL1_SIZE = 0x1000"

definition PTL2_SIZE :: u64 where
  "PTL2_SIZE = 0x200000"

definition PTL3_SIZE :: u64 where
  "PTL3_SIZE = 0x40000000"

definition arch_get_smaller_page_size :: "bool \<Rightarrow> u64 \<Rightarrow> int \<times> u64" where
  "arch_get_smaller_page_size use_1gb_page cursize =
     (if cursize > PTL3_SIZE \<and> use_1gb_page then (0, PTL3_SIZE)
      else if cursize > PTL2_SIZE then (0, PTL2_SIZE)
      else if cursize > PTL1_SIZE then (0, PTL1_SIZE)
      else (- ENOMEM, cursize))"

lemma smaller_page_size_less: "arch_get_smaller_page_size big cur = (0, new) \<Longrightarrow> unat new < unat cur"
  by (auto simp: arch_get_smaller_page_size_def PTL1_SIZE_def PTL2_SIZE_def PTL3_SIZE_def word_less_nat_alt split: if_splits)

text \<open>The two loops that extend the interval to whole large pages as far as the neighbours allow;
  the last arguments are the bound of the neighbour, if there is one, and the page size.\<close>

function free_low_bound :: "bool \<Rightarrow> u64 \<Rightarrow> u64 option \<Rightarrow> u64 \<Rightarrow> u64" where
  "free_low_bound big start neighbor_end pgsize =
     (case arch_get_smaller_page_size big pgsize of
        (error, newsize) \<Rightarrow>
          if error \<noteq> 0 then start
          else
            (let lpstart = start AND NOT (newsize - 1)
             in if (case neighbor_end of None \<Rightarrow> True | Some e \<Rightarrow> e \<le> lpstart) then lpstart
                else free_low_bound big start neighbor_end newsize))"
  by pat_completeness auto
termination
  by (relation "measure (\<lambda>(big, start, neighbor_end, pgsize). unat pgsize)")
     (auto intro!: smaller_page_size_less)

function free_high_bound :: "bool \<Rightarrow> u64 \<Rightarrow> u64 option \<Rightarrow> u64 \<Rightarrow> u64" where
  "free_high_bound big end0 neighbor_start pgsize =
     (case arch_get_smaller_page_size big pgsize of
        (error, newsize) \<Rightarrow>
          if error \<noteq> 0 then end0
          else
            (let lpend = (end0 + newsize - 1) AND NOT (newsize - 1)
             in if (case neighbor_start of None \<Rightarrow> True | Some s \<Rightarrow> lpend \<le> s) then lpend
                else free_high_bound big end0 neighbor_start newsize))"
  by pat_completeness auto
termination
  by (relation "measure (\<lambda>(big, end0, neighbor_start, pgsize). unat pgsize)")
     (auto intro!: smaller_page_size_less)

declare free_low_bound.simps [simp del] free_high_bound.simps [simp del]

text \<open>The page table part: everything up to the label \<open>straight_out\<close>.\<close>

definition free_range_unmap ::
  "(vm_call \<Rightarrow> int) \<Rightarrow> bool \<Rightarrow> nat \<Rightarrow> process_vm \<Rightarrow> (u64 \<times> u64 \<times> process_vm) option" where
  "free_range_unmap env big rng vm =
     (let r = pv_ranges vm rng; start = vr_start r; end0 = vr_end r
      in if vr_straight_start r \<noteq> 0 \<or> start = pv_straight_va vm then Some (start, end0, vm)
         else if vr_flag r AND (VR_REMOTE OR VR_IO_NOCACHE OR VR_RESERVED) = 0 then
           (case (previous_process_memory_range vm rng, next_process_memory_range vm rng) of
              (Some prev, Some nxt) \<Rightarrow>
                (let start = free_low_bound big start (map_option (\<lambda>p. vr_end (pv_ranges vm p)) prev) (- 1);
                     end0 = free_high_bound big end0 (map_option (\<lambda>p. vr_start (pv_ranges vm p)) nxt) (- 1);
                     vm = opt_ref (vr_memobj r) vm;
                     vm = (case vr_memobj r of
                             Some m \<Rightarrow>
                               if mo_flags (pv_objs vm m) AND MF_HUGETLBFS \<noteq> 0
                               then snd (vm_do env (PT_ClearRange start end0) vm)
                               else snd (vm_do env (PT_FreeRange start end0 (vr_memobj r)) vm)
                           | None \<Rightarrow> snd (vm_do env (PT_FreeRange start end0 (vr_memobj r)) vm));
                     vm = opt_unref env (vr_memobj r) vm
                 in Some (start, end0, opt_unref env (vr_memobj r) vm))
            | _ \<Rightarrow> None)
         else
           (let vm = snd (vm_do env (PT_ClearRange start end0) vm)
            in Some (start, end0, opt_unref env (vr_memobj r) vm)))"

definition free_process_memory_range :: "(vm_call \<Rightarrow> int) \<Rightarrow> bool \<Rightarrow> nat \<Rightarrow> process_vm \<Rightarrow> (int \<times> process_vm) option" where
  "free_process_memory_range env big rng vm =
     (case free_range_unmap env big rng vm of
        None \<Rightarrow> None
      | Some (start, end0, vm) \<Rightarrow>
          (case range_erase rng None vm of
             None \<Rightarrow> None
           | Some vm \<Rightarrow>
               (let r = pv_ranges vm rng;
                    vm = (if vr_straight_start r \<noteq> 0 then
                            snd (vm_do env (MC_FreePages (pv_straight_pa vm + (vr_straight_start r - pv_straight_va vm))
                                   (drop_bit 12 (vr_end r - vr_start r))) vm)
                          else if vr_start r = pv_straight_va vm \<and> vr_end r = pv_straight_va vm + pv_straight_len vm then
                            (snd (vm_do env (PT_ClearRange start end0) vm))\<lparr>pv_straight_len := 0\<rparr>
                          else vm)
                in Some (0, snd (vm_do env (MC_Kfree rng) vm)))))"

text \<open>\<open>remove_process_memory_range\<close>: an interval inside the straight mapping is translated first.\<close>

definition in_straight_mapping :: "process_vm \<Rightarrow> u64 \<Rightarrow> u64 \<Rightarrow> bool" where
  "in_straight_mapping vm start end0 \<longleftrightarrow>
     pv_straight_va vm \<noteq> 0 \<and> start \<ge> pv_straight_va vm \<and> end0 \<le> pv_straight_va vm + pv_straight_len vm \<and>
     \<not> (start = pv_straight_va vm \<and> end0 = pv_straight_va vm + pv_straight_len vm)"

definition straight_range :: "process_vm \<Rightarrow> u64 \<Rightarrow> nat option \<times> process_vm" where
  "straight_range vm start =
     (case lookup_process_memory_range 0 (- 1) vm of
        (None, vm) \<Rightarrow> (None, vm)
      | (Some first, vm) \<Rightarrow>
          (case rb_for_each
                  (\<lambda>p. let r = pv_ranges vm p
                       in vr_straight_start r \<noteq> 0 \<and> start \<ge> vr_straight_start r \<and>
                          start < vr_straight_start r + (vr_end r - vr_start r))
                  (range_node vm first) of
             None \<Rightarrow> (None, vm)
           | Some n \<Rightarrow> (rb_entry n, vm)))"

text \<open>The loop; \<open>nxt\<close> is the range it looks at next.\<close>

partial_function (option) remove_loop ::
  "(vm_call \<Rightarrow> int) \<Rightarrow> bool \<Rightarrow> u64 \<Rightarrow> u64 \<Rightarrow> nat option \<Rightarrow> bool \<Rightarrow> process_vm \<Rightarrow> (int \<times> bool \<times> process_vm) option" where
  "remove_loop env big start end0 nxt ro_freed vm =
     (case nxt of
        None \<Rightarrow> Some (0, ro_freed, vm)
      | Some rng \<Rightarrow>
          if \<not> vr_start (pv_ranges vm rng) < end0 then Some (0, ro_freed, vm)
          else
            (case next_process_memory_range vm rng of
               None \<Rightarrow> None
             | Some nxt' \<Rightarrow>
                 (case (if vr_start (pv_ranges vm rng) < start
                        then split_process_memory_range env rng start vm
                        else Some (0, Some rng, vm)) of
                    None \<Rightarrow> None
                  | Some (error, split, vm) \<Rightarrow>
                      if error \<noteq> 0 then Some (error, ro_freed, vm)
                      else
                        (case split of
                           None \<Rightarrow> None
                         | Some rng \<Rightarrow>
                             (case (if end0 < vr_end (pv_ranges vm rng)
                                    then map_option (\<lambda>(error, _, vm). (error, vm)) (split_process_memory_range env rng end0 vm)
                                    else Some (0, vm)) of
                                None \<Rightarrow> None
                              | Some (error, vm) \<Rightarrow>
                                  if error \<noteq> 0 then Some (error, ro_freed, vm)
                                  else
                                    (let ro_freed = (ro_freed \<or> vr_flag (pv_ranges vm rng) AND VR_PROT_WRITE = 0);
                                         vm = (if vr_private_data (pv_ranges vm rng) \<noteq> 0
                                               then snd (vm_do env (Xpmem_Remove rng) vm) else vm)
                                     in case free_process_memory_range env big rng vm of
                                          None \<Rightarrow> None
                                        | Some (error, vm) \<Rightarrow>
                                            if error \<noteq> 0 then Some (error, ro_freed, vm)
                                            else remove_loop env big start end0 nxt' ro_freed vm))))))"

declare remove_loop.simps [code]

definition remove_process_memory_range ::
  "(vm_call \<Rightarrow> int) \<Rightarrow> bool \<Rightarrow> u64 \<Rightarrow> u64 \<Rightarrow> process_vm \<Rightarrow> (int \<times> bool \<times> process_vm) option" where
  "remove_process_memory_range env big start end0 vm =
     (let go = (\<lambda>start end0 vm. case lookup_process_memory_range start end0 vm of
                  (nxt, vm) \<Rightarrow> remove_loop env big start end0 nxt False vm)
      in if in_straight_mapping vm start end0 then
           (case straight_range vm start of
              (None, vm) \<Rightarrow> Some (0, False, vm)
            | (Some rng, vm) \<Rightarrow>
                (let start' = vr_start (pv_ranges vm rng) + (start - vr_straight_start (pv_ranges vm rng))
                 in go start' (start' + (end0 - start)) vm))
         else go start end0 vm)"

subsection \<open>Adding, extending and protecting\<close>

definition add_process_memory_range ::
  "(vm_call \<Rightarrow> int) \<Rightarrow> u64 \<Rightarrow> bool \<Rightarrow> u64 \<Rightarrow> u64 \<Rightarrow> u64 \<Rightarrow> u64 \<Rightarrow> nat option \<Rightarrow> u64 \<Rightarrow> int \<Rightarrow> process_vm \<Rightarrow>
   (int \<times> nat option \<times> process_vm) option" where
  "add_process_memory_range env remote zero_at_free start end0 phys flag obj offset pgshift vm =
     (if start < pv_user_start vm \<or> pv_user_end vm < end0 then Some (- EINVAL, None, vm)
      else
        (case vm_kmalloc vm of
           (None, vm) \<Rightarrow> Some (- ENOMEM, None, vm)
         | (Some rng, vm) \<Rightarrow>
             (let vm = set_range rng \<lparr>vr_start = start, vr_end = end0, vr_flag = flag, vr_straight_start = 0,
                         vr_memobj = obj, vr_objoff = offset, vr_pgshift = pgshift, vr_private_data = 0\<rparr> vm;
                  (rc, vm) =
                    (if phys = NOPHYS then (0, vm)
                     else if flag AND VR_REMOTE \<noteq> 0 then update_process_page_table env remote rng phys vm
                     else if flag AND VR_IO_NOCACHE \<noteq> 0 then update_process_page_table env remote rng phys vm
                     else if flag AND VR_DEMAND_PAGING \<noteq> 0 then (0, vm)
                     else if flag AND VR_PROT_MASK = 0 then (0, vm)
                     else update_process_page_table env remote rng phys vm)
              in if rc \<noteq> 0 then Some (rc, None, snd (vm_do env (MC_Kfree rng) vm))
                 else
                   (case vm_range_insert rng vm of
                      None \<Rightarrow> None
                    | Some (rc, vm) \<Rightarrow>
                        if rc \<noteq> 0 then Some (rc, None, vm)
                        else
                          (let vm = (if phys \<noteq> NOPHYS \<and> flag AND (VR_REMOTE OR VR_DEMAND_PAGING) = 0 \<and>
                                        flag AND VR_PROT_MASK \<noteq> 0 \<and> \<not> zero_at_free
                                     then snd (vm_do env (MC_Memset phys (end0 - start)) vm) else vm)
                           in Some (0, Some rng, vm))))))"

definition extend_up_process_memory_range :: "nat \<Rightarrow> u64 \<Rightarrow> process_vm \<Rightarrow> (int \<times> process_vm) option" where
  "extend_up_process_memory_range rng newend vm =
     (if newend \<le> vr_end (pv_ranges vm rng) then Some (- EINVAL, vm)
      else if pv_user_end vm < newend then Some (- EPERM, vm)
      else
        (case next_process_memory_range vm rng of
           None \<Rightarrow> None
         | Some nxt \<Rightarrow>
             if (case nxt of None \<Rightarrow> False | Some p \<Rightarrow> vr_start (pv_ranges vm p) < newend) then Some (- ENOMEM, vm)
             else Some (0, set_range rng ((pv_ranges vm rng)\<lparr>vr_end := newend\<rparr>) vm)))"

definition change_prot_process_memory_range ::
  "(vm_call \<Rightarrow> int) \<Rightarrow> u64 \<Rightarrow> nat \<Rightarrow> u64 \<Rightarrow> process_vm \<Rightarrow> int \<times> process_vm" where
  "change_prot_process_memory_range env remote rng protflag vm =
     (let r = pv_ranges vm rng;
          newflag = (vr_flag r AND NOT VR_PROT_MASK) OR (protflag AND VR_PROT_MASK)
      in if vr_flag r = newflag then (0, vm)
         else
           (let oldattr = arch_vrflag_to_ptattr remote (vr_flag r) PF_POPULATE;
                newattr = arch_vrflag_to_ptattr remote newflag PF_POPULATE;
                clrattr = oldattr AND NOT newattr;
                setattr = newattr AND NOT oldattr;
                cow = (case vr_memobj r of None \<Rightarrow> False
                       | Some m \<Rightarrow> vr_flag r AND VR_PRIVATE \<noteq> 0 \<and> mo_flags (pv_objs vm m) AND MF_HUGETLBFS = 0);
                setattr = (if cow then setattr AND NOT PTATTR_WRITABLE else setattr)
            in if cow \<and> clrattr = 0 \<and> setattr = 0 then (0, set_range rng (r\<lparr>vr_flag := newflag\<rparr>) vm)
               else
                 (case vm_do env (PT_ChangeAttr (vr_start r) (vr_end r) clrattr setattr) vm of
                    (error, vm) \<Rightarrow>
                      if error \<noteq> 0 \<and> error \<noteq> - ENOENT then (error, vm)
                      else (0, set_range rng (r\<lparr>vr_flag := newflag\<rparr>) vm))))"

subsection \<open>Copying an address space\<close>

text \<open>\<open>copy_user_ranges\<close>.  The memory objects are those of the new address space's store.  The loop
  ends with whether it ran to the end, the last source range a copy was inserted for, and the new
  address space.\<close>

partial_function (option) copy_loop ::
  "(vm_call \<Rightarrow> int) \<Rightarrow> process_vm \<Rightarrow> nat option \<Rightarrow> nat option \<Rightarrow> process_vm \<Rightarrow> (bool \<times> nat option \<times> process_vm) option" where
  "copy_loop env orgvm src_range last_insert vm =
     (case src_range of
        None \<Rightarrow> Some (True, last_insert, vm)
      | Some src \<Rightarrow>
          (let r = pv_ranges orgvm src
           in if vr_flag r AND VR_DONTFORK \<noteq> 0 then
                (case next_process_memory_range orgvm src of
                   None \<Rightarrow> None
                 | Some nxt \<Rightarrow> copy_loop env orgvm nxt last_insert vm)
              else
                (case vm_kmalloc vm of
                   (None, vm) \<Rightarrow> Some (False, last_insert, vm)
                 | (Some rng, vm) \<Rightarrow>
                     (case vm_range_insert rng (opt_ref (vr_memobj r) (set_range rng r vm)) of
                        None \<Rightarrow> None
                      | Some (_, vm) \<Rightarrow>
                          (case vm_do env (PT_CopyRange (vr_start r) (vr_end r) (vr_pgshift r)) vm of
                             (error, vm) \<Rightarrow>
                               if error \<noteq> 0 then Some (False, Some src, vm)
                               else
                                 (case next_process_memory_range orgvm src of
                                    None \<Rightarrow> None
                                  | Some nxt \<Rightarrow> copy_loop env orgvm nxt (Some src) vm))))))"

text \<open>The roll-back skips a range that is not inherited with \<open>continue\<close>, which does not advance.\<close>

partial_function (option) copy_rollback ::
  "(vm_call \<Rightarrow> int) \<Rightarrow> bool \<Rightarrow> process_vm \<Rightarrow> nat option \<Rightarrow> nat \<Rightarrow> process_vm \<Rightarrow> process_vm option" where
  "copy_rollback env big orgvm src_range last_insert vm =
     (case src_range of
        None \<Rightarrow> Some vm
      | Some src \<Rightarrow>
          (let r = pv_ranges orgvm src
           in if vr_flag r AND VR_DONTFORK \<noteq> 0 then copy_rollback env big orgvm src_range last_insert vm
              else
                (case (case lookup_process_memory_range (vr_start r) (vr_end r) vm of
                         (None, vm) \<Rightarrow> Some vm
                       | (Some dest, vm) \<Rightarrow> map_option snd (free_process_memory_range env big dest vm)) of
                   None \<Rightarrow> None
                 | Some vm \<Rightarrow>
                     if src = last_insert then Some vm
                     else
                       (case next_process_memory_range orgvm src of
                          None \<Rightarrow> None
                        | Some nxt \<Rightarrow> copy_rollback env big orgvm nxt last_insert vm))))"

declare copy_loop.simps [code] copy_rollback.simps [code]

definition copy_user_ranges ::
  "(vm_call \<Rightarrow> int) \<Rightarrow> bool \<Rightarrow> process_vm \<Rightarrow> process_vm \<Rightarrow> (int \<times> process_vm \<times> process_vm) option" where
  "copy_user_ranges env big vm orgvm =
     (case lookup_process_memory_range 0 (- 1) orgvm of
        (first, orgvm) \<Rightarrow>
          (case copy_loop env orgvm first None vm of
             None \<Rightarrow> None
           | Some (True, last_insert, vm) \<Rightarrow> Some (0, vm, orgvm)
           | Some (False, last_insert, vm) \<Rightarrow>
               (case last_insert of
                  None \<Rightarrow> Some (- 1, vm, orgvm)
                | Some last_src \<Rightarrow>
                    (case lookup_process_memory_range 0 (- 1) orgvm of
                       (first, orgvm) \<Rightarrow>
                         map_option (\<lambda>vm. (- 1, vm, orgvm)) (copy_rollback env big orgvm first last_src vm)))))"

subsection \<open>Ranges in order\<close>

text \<open>An address space is well formed when its tree is a valid red-black tree whose ranges are not
  empty, lie in address order without overlap, and the cache only points to ranges of the tree.\<close>

abbreviation vm_ptrs :: "process_vm \<Rightarrow> nat list" where
  "vm_ptrs vm \<equiv> rb_inorder (pv_tree vm)"

definition ranges_sorted :: "(nat \<Rightarrow> vm_range) \<Rightarrow> nat list \<Rightarrow> bool" where
  "ranges_sorted rs ps \<longleftrightarrow> sorted_wrt (\<lambda>p q. vr_end (rs p) \<le> vr_start (rs q)) ps \<and> (\<forall>p \<in> set ps. vr_start (rs p) < vr_end (rs p))"

definition cache_ok :: "process_vm \<Rightarrow> bool" where
  "cache_ok vm \<longleftrightarrow> length (pv_range_cache vm) = VM_RANGE_CACHE_SIZE \<and> pv_range_cache_ind vm < VM_RANGE_CACHE_SIZE \<and>
     (\<forall>p. Some p \<in> set (pv_range_cache vm) \<longrightarrow> p \<in> set (vm_ptrs vm))"

definition vm_ok :: "process_vm \<Rightarrow> bool" where
  "vm_ok vm \<longleftrightarrow> rb_valid (pv_tree vm) \<and> ranges_sorted (pv_ranges vm) (vm_ptrs vm) \<and> cache_ok vm"

lemma ranges_sorted_Nil [simp]: "ranges_sorted rs []"
  by (simp add: ranges_sorted_def)

lemma ranges_sorted_Cons:
  "ranges_sorted rs (p # ps) \<longleftrightarrow>
     vr_start (rs p) < vr_end (rs p) \<and> (\<forall>q \<in> set ps. vr_end (rs p) \<le> vr_start (rs q)) \<and> ranges_sorted rs ps"
  by (auto simp: ranges_sorted_def)

lemma ranges_sorted_append:
  "ranges_sorted rs (ps @ qs) \<longleftrightarrow> ranges_sorted rs ps \<and> ranges_sorted rs qs \<and>
     (\<forall>p \<in> set ps. \<forall>q \<in> set qs. vr_end (rs p) \<le> vr_start (rs q))"
  by (auto simp: ranges_sorted_def sorted_wrt_append)

lemmas ranges_sorted_simps = ranges_sorted_Cons ranges_sorted_append

lemma ranges_sorted_cong:
  "(\<And>p. p \<in> set ps \<Longrightarrow> vr_start (rs p) = vr_start (rs' p) \<and> vr_end (rs p) = vr_end (rs' p)) \<Longrightarrow>
     ranges_sorted rs ps = ranges_sorted rs' ps"
  by (induction ps) (auto simp: ranges_sorted_Cons)

lemma ranges_sorted_distinct: "ranges_sorted rs ps \<Longrightarrow> distinct ps"
  by (induction ps) (fastforce simp: ranges_sorted_Cons)+

lemma ranges_sorted_nonempty: "ranges_sorted rs ps \<Longrightarrow> p \<in> set ps \<Longrightarrow> vr_start (rs p) < vr_end (rs p)"
  by (simp add: ranges_sorted_def)

lemma ranges_sorted_disjoint:
  "ranges_sorted rs ps \<Longrightarrow> p \<in> set ps \<Longrightarrow> q \<in> set ps \<Longrightarrow> p \<noteq> q \<Longrightarrow>
     vr_end (rs p) \<le> vr_start (rs q) \<or> vr_end (rs q) \<le> vr_start (rs p)"
  by (induction ps) (auto simp: ranges_sorted_Cons)

subsection \<open>Looking up\<close>

text \<open>The specification of a lookup: the first range that shares an address with the interval.\<close>

definition overlaps :: "u64 \<Rightarrow> u64 \<Rightarrow> vm_range \<Rightarrow> bool" where
  "overlaps start end0 r \<longleftrightarrow> vr_start r < end0 \<and> start < vr_end r"

definition first_overlap :: "(nat \<Rightarrow> vm_range) \<Rightarrow> u64 \<Rightarrow> u64 \<Rightarrow> nat list \<Rightarrow> nat option" where
  "first_overlap rs start end0 ps = find (\<lambda>p. overlaps start end0 (rs p)) ps"

lemma first_overlap_append:
  "first_overlap rs s e (ps @ qs) = (case first_overlap rs s e ps of None \<Rightarrow> first_overlap rs s e qs | Some p \<Rightarrow> Some p)"
  by (induction ps) (auto simp: first_overlap_def)

lemma first_overlap_Cons:
  "first_overlap rs s e (p # ps) = (if overlaps s e (rs p) then Some p else first_overlap rs s e ps)"
  by (simp add: first_overlap_def)

lemma first_overlap_None: "\<forall>p \<in> set ps. \<not> overlaps s e (rs p) \<Longrightarrow> first_overlap rs s e ps = None"
  by (simp add: first_overlap_def find_None_iff)

lemma lookup_tree_correct:
  "ranges_sorted rs (rb_inorder t) \<Longrightarrow> s < e \<Longrightarrow>
     lookup_tree rs s e t match = (case first_overlap rs s e (rb_inorder t) of None \<Rightarrow> match | Some p \<Rightarrow> Some p)"
proof (induction t arbitrary: match)
  case RB_Null
  then show ?case by (simp add: first_overlap_def)
next
  case (RB_Node c l p r)
  have srt: "ranges_sorted rs (rb_inorder l)" "ranges_sorted rs (rb_inorder r)" "vr_start (rs p) < vr_end (rs p)"
    "\<forall>q \<in> set (rb_inorder l). vr_end (rs q) \<le> vr_start (rs p)" "\<forall>q \<in> set (rb_inorder r). vr_end (rs p) \<le> vr_start (rs q)"
    "\<forall>q \<in> set (rb_inorder l). vr_start (rs q) < vr_end (rs q)" "\<forall>q \<in> set (rb_inorder r). vr_start (rs q) < vr_end (rs q)"
    using RB_Node.prems(1) ranges_sorted_nonempty [OF RB_Node.prems(1)] by (simp_all add: ranges_sorted_simps)
  consider "e \<le> vr_start (rs p)" | "vr_start (rs p) < e" "vr_end (rs p) \<le> s"
    | "vr_start (rs p) < e" "s < vr_end (rs p)" "s < vr_start (rs p)"
    | "vr_start (rs p) < e" "s < vr_end (rs p)" "vr_start (rs p) \<le> s" by fastforce
  then show ?case
  proof cases
    case 1
    then have "first_overlap rs s e (p # rb_inorder r) = None"
      using srt by (intro first_overlap_None) (fastforce simp: overlaps_def)
    with 1 RB_Node show ?thesis using srt by (simp add: first_overlap_append split: option.split)
  next
    case 2
    then have "first_overlap rs s e (rb_inorder l) = None"
      using srt by (intro first_overlap_None) (fastforce simp: overlaps_def)
    with 2 RB_Node.IH(2) [OF srt(2) RB_Node.prems(2)] show ?thesis
      by (auto simp: first_overlap_append first_overlap_Cons overlaps_def)
  next
    case 3
    with RB_Node.IH(1) [OF srt(1) RB_Node.prems(2)] show ?thesis
      by (auto simp: first_overlap_append first_overlap_Cons overlaps_def split: option.splits)
  next
    case 4
    then have "first_overlap rs s e (rb_inorder l) = None"
      using srt by (intro first_overlap_None) (fastforce simp: overlaps_def)
    with 4 show ?thesis by (auto simp: first_overlap_append first_overlap_Cons overlaps_def)
  qed
qed

lemma lookup_cache_Some:
  "lookup_cache vm s e is = Some p \<Longrightarrow> cache_ok vm \<Longrightarrow>
     p \<in> set (vm_ptrs vm) \<and> vr_start (pv_ranges vm p) \<le> s \<and> e \<le> vr_end (pv_ranges vm p)"
proof (induction "is")
  case (Cons i "is")
  define k where "k = (i + pv_range_cache_ind vm) mod VM_RANGE_CACHE_SIZE"
  have "k < length (pv_range_cache vm)" using Cons.prems(2) by (simp add: k_def cache_ok_def VM_RANGE_CACHE_SIZE_def)
  then have "pv_range_cache vm ! k \<in> set (pv_range_cache vm)" by simp
  with Cons show ?case by (auto simp: k_def [symmetric] cache_ok_def split: option.splits if_splits)
qed simp

lemma first_overlap_contains:
  assumes "ranges_sorted rs ps" "p \<in> set ps" "vr_start (rs p) \<le> s" "e \<le> vr_end (rs p)" "s < e"
  shows "first_overlap rs s e ps = Some p"
proof -
  from assms(2) obtain as bs where ps: "ps = as @ p # bs" by (auto simp: in_set_conv_decomp)
  have "first_overlap rs s e as = None"
    using assms ps by (intro first_overlap_None) (auto simp: overlaps_def ranges_sorted_simps not_less intro: order_trans)
  moreover have "overlaps s e (rs p)" using assms by (auto simp: overlaps_def)
  ultimately show ?thesis by (simp add: ps first_overlap_append) (simp add: first_overlap_def)
qed

definition same_but_cache :: "process_vm \<Rightarrow> process_vm \<Rightarrow> bool" where
  "same_but_cache vm vm' \<longleftrightarrow> pv_tree vm' = pv_tree vm \<and> pv_ranges vm' = pv_ranges vm \<and> pv_objs vm' = pv_objs vm \<and>
     pv_kmalloc vm' = pv_kmalloc vm \<and> pv_trace vm' = pv_trace vm \<and> pv_straight_va vm' = pv_straight_va vm \<and>
     pv_straight_len vm' = pv_straight_len vm"

lemma lookup_sound:
  assumes ok: "vm_ok vm" and l: "lookup_process_memory_range s e vm = (res, vm')"
  shows "res = (if s < e then first_overlap (pv_ranges vm) s e (vm_ptrs vm) else None) \<and> vm_ok vm' \<and> same_but_cache vm vm'"
proof (cases "e \<le> s")
  case True
  with l ok show ?thesis by (auto simp: lookup_process_memory_range_def same_but_cache_def)
next
  case False
  then have se: "s < e" by simp
  have srt: "ranges_sorted (pv_ranges vm) (vm_ptrs vm)" and c: "cache_ok vm" using ok by (simp_all add: vm_ok_def)
  show ?thesis
  proof (cases "lookup_cache vm s e [0 ..< VM_RANGE_CACHE_SIZE]")
    case (Some p)
    with lookup_cache_Some [OF Some c] first_overlap_contains [OF srt, of p s e] se l ok False
    show ?thesis by (auto simp: lookup_process_memory_range_def same_but_cache_def)
  next
    case None
    note t = lookup_tree_correct [OF srt se, of None]
    show ?thesis
    proof (cases "first_overlap (pv_ranges vm) s e (vm_ptrs vm)")
      case N: None
      with None t l ok False show ?thesis by (auto simp: lookup_process_memory_range_def same_but_cache_def)
    next
      case S: (Some p)
      then have p: "p \<in> set (vm_ptrs vm)" "vr_start (pv_ranges vm p) < e"
        by (auto simp: first_overlap_def find_Some_iff overlaps_def)
      define ind where "ind = (pv_range_cache_ind vm + VM_RANGE_CACHE_SIZE - 1) mod VM_RANGE_CACHE_SIZE"
      have r: "res = Some p" "vm' = vm\<lparr>pv_range_cache_ind := ind, pv_range_cache := (pv_range_cache vm)[ind := Some p]\<rparr>"
        using l False None S t p(2) by (auto simp: lookup_process_memory_range_def ind_def Let_def)
      have "cache_ok vm'" unfolding cache_ok_def
      proof (intro conjI allI impI)
        show "length (pv_range_cache vm') = VM_RANGE_CACHE_SIZE" using c by (simp add: r(2) cache_ok_def)
        show "pv_range_cache_ind vm' < VM_RANGE_CACHE_SIZE" by (simp add: r(2) ind_def VM_RANGE_CACHE_SIZE_def)
        show "q \<in> set (vm_ptrs vm')" if "Some q \<in> set (pv_range_cache vm')" for q
          using that c p(1) set_update_subset_insert [of "pv_range_cache vm" ind "Some p"] by (auto simp: r(2) cache_ok_def)
      qed
      then have "vm_ok vm'" using ok by (simp add: vm_ok_def r(2))
      with r S se show ?thesis by (simp add: same_but_cache_def)
    qed
  qed
qed

subsection \<open>Tree operations on the sequence of ranges\<close>

lemma range_node_at:
  assumes "vm_ptrs vm = as @ p # bs" "distinct (vm_ptrs vm)"
  shows "\<exists>n. range_node vm p = Some n \<and> rb_entry n = Some p \<and> rb_root_of n = pv_tree vm \<and>
    rb_left_of n = as \<and> rb_right_of n = bs"
proof (cases "range_node vm p")
  case None
  then show ?thesis using assms(1) by (simp add: range_node_def rb_locate_None)
next
  case (Some n)
  from rb_locate_pos [OF Some [unfolded range_node_def]] obtain ys where
    n: "rb_entry n = Some p" "rb_root_of n = pv_tree vm" "rb_left_of n = ys" "p \<notin> set ys" by auto
  have "as @ p # bs = ys @ p # rb_right_of n" using rb_inorder_root [OF n(1)] n assms(1) by simp
  moreover have "p \<notin> set as" "p \<notin> set bs" using assms by auto
  ultimately have "as = ys \<and> bs = rb_right_of n" by (simp add: append_Cons_eq_iff)
  with Some n show ?thesis by simp
qed

lemma next_range_at:
  assumes "vm_ptrs vm = as @ p # bs" "distinct (vm_ptrs vm)"
  shows "next_process_memory_range vm p = Some (case bs of [] \<Rightarrow> None | q # _ \<Rightarrow> Some q)"
proof -
  from range_node_at [OF assms] obtain n where n: "range_node vm p = Some n" "rb_entry n = Some p" "rb_right_of n = bs" by blast
  show ?thesis
  proof (cases "rb_next n")
    case None
    with n show ?thesis using rb_next_end [OF n(2)] by (simp add: next_process_memory_range_def)
  next
    case (Some n')
    with rb_next_pos [OF n(2) Some] n show ?thesis by (auto simp: next_process_memory_range_def)
  qed
qed

lemma prev_range_at:
  assumes "vm_ptrs vm = as @ p # bs" "distinct (vm_ptrs vm)"
  shows "previous_process_memory_range vm p = Some (if as = [] then None else Some (last as))"
proof -
  from range_node_at [OF assms] obtain n where n: "range_node vm p = Some n" "rb_entry n = Some p" "rb_left_of n = as" by blast
  show ?thesis
  proof (cases "rb_prev n")
    case None
    with n show ?thesis using rb_prev_end [OF n(2)] by (simp add: previous_process_memory_range_def)
  next
    case (Some n')
    with rb_prev_pos [OF n(2) Some] n show ?thesis by (auto simp: previous_process_memory_range_def)
  qed
qed

lemma range_erase_at:
  assumes "vm_ptrs vm = as @ p # bs" "distinct (vm_ptrs vm)" "rb_valid (pv_tree vm)"
  shows "\<exists>t. range_erase p repl vm = Some (vm\<lparr>pv_tree := t,
      pv_range_cache := map (\<lambda>c. if c = Some p then repl else c) (pv_range_cache vm)\<rparr>) \<and> rb_valid t \<and> rb_inorder t = as @ bs"
proof -
  from range_node_at [OF assms(1,2)] obtain n where
    n: "range_node vm p = Some n" "rb_entry n = Some p" "rb_root_of n = pv_tree vm" "rb_left_of n = as" "rb_right_of n = bs" by blast
  with rb_erase_locus_ok [of n p] assms(3) show ?thesis by (auto simp: range_erase_def)
qed

lemma ranges_partition:
  assumes "ranges_sorted rs ps" "s < e"
  shows "\<exists>as ms bs. ps = as @ ms @ bs \<and> (\<forall>p \<in> set as. vr_end (rs p) \<le> s) \<and>
    (\<forall>p \<in> set ms. overlaps s e (rs p)) \<and> (\<forall>p \<in> set bs. e \<le> vr_start (rs p))"
  using assms(1)
proof (induction ps)
  case (Cons p ps)
  from Cons.prems have p: "vr_start (rs p) < vr_end (rs p)" "\<forall>q \<in> set ps. vr_end (rs p) \<le> vr_start (rs q)"
    and ps: "ranges_sorted rs ps" by (auto simp: ranges_sorted_Cons)
  from Cons.IH [OF ps] obtain as ms bs where IH: "ps = as @ ms @ bs" "\<forall>p \<in> set as. vr_end (rs p) \<le> s"
    "\<forall>p \<in> set ms. overlaps s e (rs p)" "\<forall>p \<in> set bs. e \<le> vr_start (rs p)" by blast
  consider "vr_end (rs p) \<le> s" | "overlaps s e (rs p)" | "e \<le> vr_start (rs p)" "s < vr_end (rs p)"
    by (auto simp: overlaps_def not_less) (meson not_less)
  then show ?case
  proof cases
    case 1
    with IH show ?thesis by (intro exI [of _ "p # as"] exI [of _ ms] exI [of _ bs]) simp
  next
    case 2
    have "a \<notin> set as" for a
    proof
      assume a: "a \<in> set as"
      then have "vr_end (rs p) \<le> vr_start (rs a)" "vr_start (rs a) < vr_end (rs a)" "vr_end (rs a) \<le> s"
        using p(2) IH ranges_sorted_nonempty [OF ps] by auto
      with 2 show False by (auto simp: overlaps_def)
    qed
    then have "as = []" by (cases as) auto
    with 2 IH show ?thesis by (intro exI [of _ "[]"] exI [of _ "p # ms"] exI [of _ bs]) simp
  next
    case 3
    have "\<forall>q \<in> set ps. e \<le> vr_start (rs q)" using p 3(1) by (meson le_less_trans less_imp_le order_trans)
    with 3 show ?thesis by (intro exI [of _ "[]"] exI [of _ "[]"] exI [of _ "p # ps"]) simp
  qed
qed simp

text \<open>Inserting a range: exactly a range that overlaps none of the tree is accepted.\<close>

lemma vm_range_insert_sound:
  assumes valid: "rb_valid (pv_tree vm)" and srt: "ranges_sorted (pv_ranges vm) (vm_ptrs vm)"
    and new: "vr_start (pv_ranges vm new) < vr_end (pv_ranges vm new)"
  shows "\<exists>err vm'. vm_range_insert new vm = Some (err, vm') \<and>
    (if \<exists>p \<in> set (vm_ptrs vm). overlaps (vr_start (pv_ranges vm new)) (vr_end (pv_ranges vm new)) (pv_ranges vm p)
     then err = - EFAULT \<and> vm' = vm
     else err = 0 \<and> (\<exists>t as bs. vm' = vm\<lparr>pv_tree := t\<rparr> \<and> rb_valid t \<and> vm_ptrs vm = as @ bs \<and> rb_inorder t = as @ new # bs \<and>
       ranges_sorted (pv_ranges vm) (as @ new # bs)))"
proof -
  define s e where "s = vr_start (pv_ranges vm new)" and "e = vr_end (pv_ranges vm new)"
  have se: "s < e" using new by (simp add: s_def e_def)
  define dir where "dir = (\<lambda>p. vm_range_insert_dir (pv_ranges vm new) (pv_ranges vm p))"
  from ranges_partition [OF srt se] obtain as ms bs where
    split: "vm_ptrs vm = as @ ms @ bs" "\<forall>p \<in> set as. vr_end (pv_ranges vm p) \<le> s"
      "\<forall>p \<in> set ms. overlaps s e (pv_ranges vm p)" "\<forall>p \<in> set bs. e \<le> vr_start (pv_ranges vm p)" by blast
  have ne: "\<forall>p \<in> set (vm_ptrs vm). vr_start (pv_ranges vm p) < vr_end (pv_ranges vm p)" using srt by (simp add: ranges_sorted_def)
  have no: "\<not> overlaps s e (pv_ranges vm p)" if "p \<in> set as \<union> set bs" for p
    using that split(2,4) by (auto simp: overlaps_def not_less)
  have d: "\<forall>p \<in> set as. dir p = GoRight" "\<forall>p \<in> set ms. dir p = Stop" "\<forall>p \<in> set bs. dir p = GoLeft"
  proof -
    have "\<not> e \<le> vr_start (pv_ranges vm p)" if "p \<in> set as" for p
    proof -
      have "vr_start (pv_ranges vm p) < vr_end (pv_ranges vm p)" "vr_end (pv_ranges vm p) \<le> s" using that split(1,2) ne by auto
      then show ?thesis using se by (meson less_le_trans less_trans not_less)
    qed
    then show "\<forall>p \<in> set as. dir p = GoRight" "\<forall>p \<in> set ms. dir p = Stop" "\<forall>p \<in> set bs. dir p = GoLeft"
      using split(2-4) by (auto simp: dir_def vm_range_insert_dir_def overlaps_def s_def [symmetric] e_def [symmetric])
  qed
  show ?thesis
  proof (cases "ms = []")
    case True
    from rb_descend_gap [of "pv_tree vm" as bs dir "[]"] split(1) True d obtain path where
      path: "rb_descend dir (pv_tree vm) [] = (RB_Null, path)" "rb_before path = as" "rb_after path = bs" by auto
    from rb_descend_null_root [OF path(1)] valid have "rb_valid (rb_zip RB_Null path)" by simp
    from rb_insert_at_ok [OF this, of new] path obtain t where
      t: "rb_insert_at new path = Some t" "rb_valid t" "rb_inorder t = as @ new # bs" by auto
    have "ranges_sorted (pv_ranges vm) (as @ new # bs)"
      using srt split True new by (auto simp: ranges_sorted_simps s_def e_def)
    moreover have "\<not> (\<exists>p \<in> set (vm_ptrs vm). overlaps s e (pv_ranges vm p))" using split(1) True no by auto
    moreover have "vm_range_insert new vm = Some (0, vm\<lparr>pv_tree := t\<rparr>)"
      using path(1) t(1) by (simp add: vm_range_insert_def dir_def)
    ultimately show ?thesis using t split(1) True unfolding s_def e_def by auto
  next
    case False
    from rb_descend_span [OF split(1) False d] obtain x where "rb_entry (rb_descend dir (pv_tree vm) []) = Some x" by blast
    then have "vm_range_insert new vm = Some (- EFAULT, vm)" by (simp add: vm_range_insert_def dir_def)
    moreover have "\<exists>p \<in> set (vm_ptrs vm). overlaps s e (pv_ranges vm p)" using split(1,3) False by (cases ms) auto
    ultimately show ?thesis by (auto simp: s_def e_def)
  qed
qed

subsection \<open>The address space as a map\<close>

text \<open>The abstract view: which flags an address has and which byte of which memory object it shows.\<close>

type_synonym aspace = "u64 \<Rightarrow> (u64 \<times> (nat \<times> u64) option) option"

definition in_range :: "u64 \<Rightarrow> vm_range \<Rightarrow> bool" where
  "in_range a r \<longleftrightarrow> vr_start r \<le> a \<and> a < vr_end r"

definition range_attr :: "vm_range \<Rightarrow> u64 \<Rightarrow> u64 \<times> (nat \<times> u64) option" where
  "range_attr r a = (vr_flag r, map_option (\<lambda>m. (m, vr_objoff r + (a - vr_start r))) (vr_memobj r))"

definition ranges_map :: "(nat \<Rightarrow> vm_range) \<Rightarrow> nat list \<Rightarrow> aspace" where
  "ranges_map rs ps a = map_option (\<lambda>p. range_attr (rs p) a) (find (\<lambda>p. in_range a (rs p)) ps)"

definition vm_map :: "process_vm \<Rightarrow> aspace" where
  "vm_map vm = ranges_map (pv_ranges vm) (vm_ptrs vm)"

lemma ranges_map_Nil [simp]: "ranges_map rs [] a = None"
  by (simp add: ranges_map_def)

lemma ranges_map_Cons [simp]:
  "ranges_map rs (p # ps) a = (if in_range a (rs p) then Some (range_attr (rs p) a) else ranges_map rs ps a)"
  by (simp add: ranges_map_def)

lemma ranges_map_append [simp]:
  "ranges_map rs (ps @ qs) a = (case ranges_map rs ps a of None \<Rightarrow> ranges_map rs qs a | Some v \<Rightarrow> Some v)"
  by (induction ps) auto

lemma ranges_map_cong: "(\<And>p. p \<in> set ps \<Longrightarrow> rs p = rs' p) \<Longrightarrow> ranges_map rs ps = ranges_map rs' ps"
  by (rule ext) (induction ps; simp)

lemma ranges_map_None: "(\<And>p. p \<in> set ps \<Longrightarrow> \<not> in_range a (rs p)) \<Longrightarrow> ranges_map rs ps a = None"
  by (induction ps) auto

lemma ranges_map_attr_cong:
  "(\<And>p. p \<in> set ps \<Longrightarrow> in_range a (rs p) = in_range a (rs' p) \<and> range_attr (rs p) a = range_attr (rs' p) a) \<Longrightarrow>
     ranges_map rs ps a = ranges_map rs' ps a"
  by (induction ps) auto

text \<open>The pointers \<open>kmalloc\<close> will return are not in use, and no two of them are the same.\<close>

fun fresh_ptrs :: "nat option list \<Rightarrow> nat set \<Rightarrow> bool" where
  "fresh_ptrs [] used \<longleftrightarrow> True"
| "fresh_ptrs (None # ks) used \<longleftrightarrow> fresh_ptrs ks used"
| "fresh_ptrs (Some p # ks) used \<longleftrightarrow> p \<notin> used \<and> fresh_ptrs ks (insert p used)"

lemma fresh_ptrs_mono: "fresh_ptrs ks used \<Longrightarrow> used' \<subseteq> used \<Longrightarrow> fresh_ptrs ks used'"
proof (induction ks used arbitrary: used' rule: fresh_ptrs.induct)
  case (3 p ks used)
  from "3.IH" [of "insert p used'"] "3.prems" show ?case by auto
qed auto

definition vm_fresh :: "process_vm \<Rightarrow> bool" where
  "vm_fresh vm \<longleftrightarrow> fresh_ptrs (pv_kmalloc vm) (set (vm_ptrs vm))"

text \<open>What the auxiliary steps leave alone.\<close>

definition same_ranges :: "process_vm \<Rightarrow> process_vm \<Rightarrow> bool" where
  "same_ranges vm vm' \<longleftrightarrow> pv_tree vm' = pv_tree vm \<and> pv_ranges vm' = pv_ranges vm \<and> pv_range_cache vm' = pv_range_cache vm \<and>
     pv_range_cache_ind vm' = pv_range_cache_ind vm \<and> pv_kmalloc vm' = pv_kmalloc vm"

lemma same_ranges_refl [simp]: "same_ranges vm vm"
  by (simp add: same_ranges_def)

lemma same_ranges_trans: "same_ranges vm vm1 \<Longrightarrow> same_ranges vm1 vm2 \<Longrightarrow> same_ranges vm vm2"
  by (simp add: same_ranges_def)

lemma same_ranges_do [simp]: "same_ranges vm (snd (vm_do env call vm))"
  by (simp add: same_ranges_def vm_do_def)

lemma same_ranges_ref [simp]: "same_ranges vm (opt_ref obj vm)"
  by (simp add: same_ranges_def opt_ref_def memobj_ref_def split: option.split)

lemma same_ranges_unref [simp]: "same_ranges vm (opt_unref env obj vm)"
  by (simp add: same_ranges_def opt_unref_def memobj_unref_def vm_do_def Let_def split: option.split)

lemma same_ranges_ok:
  "same_ranges vm vm' \<Longrightarrow> vm_ok vm' = vm_ok vm \<and> vm_fresh vm' = vm_fresh vm \<and> vm_map vm' = vm_map vm \<and> vm_ptrs vm' = vm_ptrs vm"
  by (simp add: same_ranges_def vm_ok_def cache_ok_def vm_fresh_def vm_map_def)

lemma vm_ok_distinct: "vm_ok vm \<Longrightarrow> distinct (vm_ptrs vm)"
  using ranges_sorted_distinct by (auto simp: vm_ok_def)

subsection \<open>Splitting\<close>

definition split_low :: "vm_range \<Rightarrow> u64 \<Rightarrow> vm_range" where
  "split_low r addr = r\<lparr>vr_end := addr, vr_pgshift := (if vr_pgshift r \<noteq> 0 \<and> addr AND split_page_mask (vr_pgshift r) \<noteq> 0 then 0 else vr_pgshift r)\<rparr>"

definition split_high :: "vm_range \<Rightarrow> u64 \<Rightarrow> vm_range" where
  "split_high r addr =
     \<lparr>vr_start = addr, vr_end = vr_end r, vr_flag = vr_flag r,
      vr_straight_start = (if vr_straight_start r \<noteq> 0 then vr_straight_start r + (addr - vr_start r) else 0),
      vr_memobj = vr_memobj r, vr_objoff = (if vr_memobj r \<noteq> None then vr_objoff r + (addr - vr_start r) else 0),
      vr_pgshift = (if vr_pgshift r \<noteq> 0 \<and> addr AND split_page_mask (vr_pgshift r) \<noteq> 0 then 0 else vr_pgshift r),
      vr_private_data = vr_private_data r\<rparr>"

lemma ranges_map_split:
  assumes "rs' p = split_low (rs p) addr" "rs' new = split_high (rs p) addr" "vr_start (rs p) < addr" "addr < vr_end (rs p)"
    and "\<And>q. q \<in> set as \<union> set bs \<Longrightarrow> rs' q = rs q"
  shows "ranges_map rs' (as @ p # new # bs) = ranges_map rs (as @ p # bs)"
proof
  fix a
  have "ranges_map rs' as a = ranges_map rs as a" "ranges_map rs' bs a = ranges_map rs bs a"
    using assms(5) by (auto intro!: fun_cong [OF ranges_map_cong])
  moreover have "(if in_range a (rs' p) then Some (range_attr (rs' p) a)
      else if in_range a (rs' new) then Some (range_attr (rs' new) a) else x) =
      (if in_range a (rs p) then Some (range_attr (rs p) a) else x)" for x
    using assms(1-4) by (auto simp: in_range_def range_attr_def split_low_def split_high_def not_le)
  ultimately show "ranges_map rs' (as @ p # new # bs) a = ranges_map rs (as @ p # bs) a" by (simp only: ranges_map_append ranges_map_Cons)
qed

lemma ranges_sorted_insert_unique:
  assumes "xs @ ys = us @ vs" "ranges_sorted rs (xs @ n # ys)" "ranges_sorted rs (us @ n # vs)"
  shows "xs = us \<and> ys = vs"
proof -
  have no: "z \<notin> set xs \<or> z \<notin> set vs" "z \<notin> set us \<or> z \<notin> set ys" for z
  proof -
    have z: "z \<in> set zs \<Longrightarrow> z \<in> set ws \<Longrightarrow> ranges_sorted rs (zs @ n # zs') \<Longrightarrow> ranges_sorted rs (ws' @ n # ws) \<Longrightarrow> False" for zs ws zs' ws'
    proof -
      assume "z \<in> set zs" "z \<in> set ws" "ranges_sorted rs (zs @ n # zs')" "ranges_sorted rs (ws' @ n # ws)"
      then have "vr_end (rs z) \<le> vr_start (rs n)" "vr_end (rs n) \<le> vr_start (rs z)" "vr_start (rs z) < vr_end (rs z)" "vr_start (rs n) < vr_end (rs n)"
        by (auto simp: ranges_sorted_simps dest: ranges_sorted_nonempty)
      then show False by auto
    qed
    show "z \<notin> set xs \<or> z \<notin> set vs" "z \<notin> set us \<or> z \<notin> set ys" using z assms(2,3) by blast+
  qed
  from assms(1) obtain zs where "xs = us @ zs \<and> zs @ ys = vs \<or> xs @ zs = us \<and> ys = zs @ vs"
    by (auto simp: append_eq_append_conv2)
  then have "zs = []" using no [of "hd zs"] by (cases zs) auto
  with \<open>xs = us @ zs \<and> zs @ ys = vs \<or> xs @ zs = us \<and> ys = zs @ vs\<close> show ?thesis by auto
qed

lemma split_sound:
  assumes ok: "vm_ok vm" and fresh: "vm_fresh vm" and ptrs: "vm_ptrs vm = as @ p # bs"
    and addr: "vr_start (pv_ranges vm p) < addr" "addr < vr_end (pv_ranges vm p)"
  shows "\<exists>err new vm'. split_process_memory_range env p addr vm = Some (err, new, vm') \<and> vm_ok vm' \<and> vm_fresh vm' \<and> vm_map vm' = vm_map vm \<and>
    pv_straight_va vm' = pv_straight_va vm \<and>
    (if err \<noteq> 0 then new = None \<and> vm_ptrs vm' = vm_ptrs vm
     else \<exists>n. new = Some n \<and> n \<notin> set (vm_ptrs vm) \<and> vm_ptrs vm' = as @ p # n # bs \<and>
       pv_ranges vm' = (pv_ranges vm)(n := split_high (pv_ranges vm p) addr, p := split_low (pv_ranges vm p) addr))"
proof -
  define r where "r = pv_ranges vm p"
  define r1 where "r1 = r\<lparr>vr_pgshift := (if vr_pgshift r \<noteq> 0 \<and> addr AND split_page_mask (vr_pgshift r) \<noteq> 0 then 0 else vr_pgshift r)\<rparr>"
  define vm1 where "vm1 = (set_range p r1 vm)\<lparr>pv_trace := PT_Split addr # pv_trace vm\<rparr>"
  have srt: "ranges_sorted (pv_ranges vm) (vm_ptrs vm)" using ok by (simp add: vm_ok_def)
  have r1r: "r1 = r" if "\<not> (vr_pgshift r \<noteq> 0 \<and> addr AND split_page_mask (vr_pgshift r) \<noteq> 0)" using that by (simp add: r1_def)
  have f1: "pv_ranges vm1 = (pv_ranges vm)(p := r1)" "pv_tree vm1 = pv_tree vm" "pv_range_cache vm1 = pv_range_cache vm"
    "pv_range_cache_ind vm1 = pv_range_cache_ind vm" "pv_kmalloc vm1 = pv_kmalloc vm" "pv_straight_va vm1 = pv_straight_va vm"
    by (simp_all add: vm1_def set_range_def)
  have "ranges_sorted (pv_ranges vm1) (vm_ptrs vm)"
    using srt by (subst ranges_sorted_cong [of _ _ "pv_ranges vm"]) (auto simp: f1 r1_def r_def)
  then have ok1: "vm_ok vm1" "vm_fresh vm1" using ok fresh by (simp_all add: vm_ok_def cache_ok_def vm_fresh_def f1)
  have map1: "vm_map vm1 = vm_map vm"
    by (rule ext) (auto simp: vm_map_def f1 r1_def r_def in_range_def range_attr_def intro!: ranges_map_attr_cong split: if_splits)
  have go: "split_process_memory_range env p addr vm =
    (if env (PT_Split addr) \<noteq> 0 then Some (env (PT_Split addr), None, vm1)
     else (case vm_kmalloc vm1 of
        (None, vm) \<Rightarrow> Some (- ENOMEM, None, vm)
      | (Some n, vm) \<Rightarrow>
          (case vm_range_insert n (set_range p (split_low r addr) (set_range n (split_high r addr) (opt_ref (vr_memobj r) vm))) of
             None \<Rightarrow> None
           | Some (error, vm) \<Rightarrow> Some (error, if error \<noteq> 0 then None else Some n, vm))))"
  proof -
    have pre: "(if vr_pgshift r \<noteq> 0 \<and> addr AND split_page_mask (vr_pgshift r) \<noteq> 0 then set_range p (r\<lparr>vr_pgshift := 0\<rparr>) vm else vm) = set_range p r1 vm"
      using r1r by (cases "vr_pgshift r \<noteq> 0 \<and> addr AND split_page_mask (vr_pgshift r) \<noteq> 0") (auto simp: r1_def set_range_def r_def)
    have k: "vm_kmalloc vm1 = (x, vm2) \<Longrightarrow> pv_ranges vm2 p = r1" for x vm2
      using f1(1) by (auto simp: vm_kmalloc_def split: list.splits)
    have sl: "r1\<lparr>vr_end := addr\<rparr> = split_low r addr" "vr_start r1 = vr_start r" "vr_end r1 = vr_end r" "vr_flag r1 = vr_flag r"
      "vr_straight_start r1 = vr_straight_start r" "vr_memobj r1 = vr_memobj r" "vr_objoff r1 = vr_objoff r"
      "vr_private_data r1 = vr_private_data r" by (simp_all add: r1_def split_low_def)
    have "vr_pgshift r1 = vr_pgshift (split_high r addr)" by (simp add: r1_def split_high_def)
    then have sh: "\<lparr>vr_start = addr, vr_end = vr_end r, vr_flag = vr_flag r,
                            vr_straight_start = (if vr_straight_start r \<noteq> 0 then vr_straight_start r + (addr - vr_start r) else 0),
                            vr_memobj = vr_memobj r,
                            vr_objoff = (if vr_memobj r \<noteq> None then vr_objoff r + (addr - vr_start r) else 0),
                            vr_pgshift = vr_pgshift r1, vr_private_data = vr_private_data r\<rparr> = split_high r addr"
      by (simp add: split_high_def)
    have d: "vm_do env (PT_Split addr) (set_range p r1 vm) = (env (PT_Split addr), vm1)"
      by (simp add: vm_do_def vm1_def set_range_def)
    obtain x vm2 where kk: "vm_kmalloc vm1 = (x, vm2)" by (cases "vm_kmalloc vm1")
    show ?thesis
      unfolding split_process_memory_range_def Let_def r_def [symmetric] pre d prod.case kk
      by (cases x) (simp_all only: option.case prod.case k [OF kk] sl sh)
  qed
  show ?thesis
  proof (cases "env (PT_Split addr) \<noteq> 0")
    case True
    with go ok1 map1 show ?thesis by (simp add: f1)
  next
    case False
    consider "fst (vm_kmalloc vm1) = None" | n ks where "pv_kmalloc vm = Some n # ks" "vm_kmalloc vm1 = (Some n, vm1\<lparr>pv_kmalloc := ks\<rparr>)"
      by (cases "pv_kmalloc vm1") (auto simp: vm_kmalloc_def f1)
    then show ?thesis
    proof cases
      case 1
      then obtain vm2 where k: "vm_kmalloc vm1 = (None, vm2)" "vm2 = vm1 \<or> (\<exists>ks. pv_kmalloc vm1 = None # ks \<and> vm2 = vm1\<lparr>pv_kmalloc := ks\<rparr>)"
        by (cases "pv_kmalloc vm1") (auto simp: vm_kmalloc_def)
      from k(2) have "vm_ok vm2 \<and> vm_fresh vm2 \<and> vm_map vm2 = vm_map vm1 \<and> vm_ptrs vm2 = vm_ptrs vm \<and> pv_straight_va vm2 = pv_straight_va vm"
        using ok1 by (auto simp: vm_ok_def cache_ok_def vm_fresh_def vm_map_def f1)
      with go False k(1) map1 show ?thesis by simp
    next
      case 2
      define vm2 where "vm2 = set_range p (split_low r addr) (set_range n (split_high r addr) (opt_ref (vr_memobj r) (vm1\<lparr>pv_kmalloc := ks\<rparr>)))"
      have s2: "same_ranges (vm1\<lparr>pv_kmalloc := ks\<rparr>) (opt_ref (vr_memobj r) (vm1\<lparr>pv_kmalloc := ks\<rparr>))" by simp
      have n: "n \<notin> set (vm_ptrs vm)" "fresh_ptrs ks (insert n (set (vm_ptrs vm)))" "n \<noteq> p"
        using fresh 2(1) ptrs by (auto simp: vm_fresh_def)
      have f2: "pv_ranges vm2 = (pv_ranges vm)(n := split_high r addr, p := split_low r addr)" "pv_tree vm2 = pv_tree vm"
        "pv_range_cache vm2 = pv_range_cache vm" "pv_range_cache_ind vm2 = pv_range_cache_ind vm" "pv_kmalloc vm2 = ks"
        "pv_straight_va vm2 = pv_straight_va vm"
        using s2 n(3) by (auto simp: vm2_def set_range_def same_ranges_def f1 fun_upd_twist opt_ref_def memobj_ref_def split: option.split)
      have low: "vr_start (split_low r addr) = vr_start r" "vr_end (split_low r addr) = addr"
        "vr_start (split_high r addr) = addr" "vr_end (split_high r addr) = vr_end r" by (simp_all add: split_low_def split_high_def)
      have srt': "ranges_sorted (pv_ranges vm2) (as @ p # n # bs)"
      proof -
        have old: "ranges_sorted (pv_ranges vm) as" "ranges_sorted (pv_ranges vm) bs" "p \<notin> set as \<union> set bs" "n \<notin> set as \<union> set bs"
          "\<forall>q \<in> set as. vr_end (pv_ranges vm q) \<le> vr_start r" "\<forall>q \<in> set bs. vr_end r \<le> vr_start (pv_ranges vm q)"
          "\<forall>x \<in> set as. \<forall>y \<in> set bs. vr_end (pv_ranges vm x) \<le> vr_start (pv_ranges vm y)"
          using srt ptrs n(1) vm_ok_distinct [OF ok] by (auto simp: ranges_sorted_simps r_def)
        have same: "\<And>q. q \<in> set as \<union> set bs \<Longrightarrow> pv_ranges vm2 q = pv_ranges vm q" using old(3,4) by (auto simp: f2)
        have "ranges_sorted (pv_ranges vm2) as = ranges_sorted (pv_ranges vm) as"
          "ranges_sorted (pv_ranges vm2) bs = ranges_sorted (pv_ranges vm) bs"
          by (rule ranges_sorted_cong; simp add: same)+
        moreover have "vr_start r < addr" "addr < vr_end r" using addr by (simp_all add: r_def)
        moreover have "pv_ranges vm2 p = split_low r addr" "pv_ranges vm2 n = split_high r addr" using n(3) by (simp_all add: f2)
        ultimately show ?thesis using old(1,2,5-7) unfolding ranges_sorted_simps
          by (simp add: same low) (meson less_imp_le order_trans)
      qed
      have srt2: "ranges_sorted (pv_ranges vm2) (vm_ptrs vm2)"
        using srt' by (auto simp: f2(2) ptrs ranges_sorted_simps)
      have no: "\<not> (\<exists>q \<in> set (vm_ptrs vm2). overlaps (vr_start (pv_ranges vm2 n)) (vr_end (pv_ranges vm2 n)) (pv_ranges vm2 q))"
        using srt' by (auto simp: f2(2) ptrs ranges_sorted_simps overlaps_def not_less)
      have ne: "vr_start (pv_ranges vm2 n) < vr_end (pv_ranges vm2 n)" using addr low n(3) by (simp add: f2 r_def)
      have "rb_valid (pv_tree vm2)" using ok by (simp add: vm_ok_def f2)
      from vm_range_insert_sound [OF this srt2 ne] no obtain t as' bs' where
        ins: "vm_range_insert n vm2 = Some (0, vm2\<lparr>pv_tree := t\<rparr>)" "rb_valid t" "vm_ptrs vm2 = as' @ bs'" "rb_inorder t = as' @ n # bs'"
        "ranges_sorted (pv_ranges vm2) (as' @ n # bs')" by auto
      have pos: "as' @ n # bs' = as @ p # n # bs"
        using ranges_sorted_insert_unique [of as' bs' "as @ [p]" bs "pv_ranges vm2" n] ins(3,5) srt' ptrs f2(2) by simp
      define vm3 where "vm3 = vm2\<lparr>pv_tree := t\<rparr>"
      have ptrs3: "vm_ptrs vm3 = as @ p # n # bs" by (simp add: vm3_def ins(4) pos)
      have "cache_ok vm3" using ok ptrs by (auto simp: vm_ok_def cache_ok_def vm3_def f2 ins(4) pos)
      then have ok3: "vm_ok vm3" using srt' ins(2) ptrs3 by (simp add: vm_ok_def vm3_def)
      moreover have "vm_fresh vm3" using n(2) ptrs3 ptrs by (simp add: vm_fresh_def vm3_def f2 insert_commute)
      moreover have "vm_map vm3 = vm_map vm"
        unfolding vm_map_def ptrs3 ptrs
        using addr n vm_ok_distinct [OF ok] ptrs by (intro ranges_map_split) (auto simp: vm3_def f2 r_def)
      moreover have "split_process_memory_range env p addr vm = Some (0, Some n, vm3)"
        using go False 2(2) ins(1) by (simp add: vm2_def [symmetric] vm3_def)
      ultimately show ?thesis using n(1) ptrs3 by (simp add: vm3_def f2 r_def)
    qed
  qed
qed

subsection \<open>Freeing one range\<close>

text \<open>The interval given to the page table code contains the range, is not empty and shares no
  address with another range: the extension to large pages stops at the neighbours.\<close>

lemma page_sizes:
  "arch_get_smaller_page_size big cur = (0, new) \<Longrightarrow> new = 2 ^ 12 \<or> new = 2 ^ 21 \<or> new = 2 ^ 30"
  by (auto simp: arch_get_smaller_page_size_def PTL1_SIZE_def PTL2_SIZE_def PTL3_SIZE_def split: if_splits)

lemma free_low_bound_sound:
  "\<forall>e. nb = Some e \<longrightarrow> e \<le> start \<Longrightarrow>
     free_low_bound big start nb pgsize \<le> start \<and> (\<forall>e. nb = Some e \<longrightarrow> e \<le> free_low_bound big start nb pgsize)"
proof (induction big start nb pgsize rule: free_low_bound.induct)
  case (1 big start nb pgsize)
  obtain err new where sz: "arch_get_smaller_page_size big pgsize = (err, new)" by (cases "arch_get_smaller_page_size big pgsize")
  have le: "start AND NOT (new - 1) \<le> start" by (rule word_and_le2)
  show ?case
  proof (cases "err \<noteq> 0")
    case True
    then have "free_low_bound big start nb pgsize = start" using sz by (subst free_low_bound.simps) simp
    with "1.prems" show ?thesis by auto
  next
    case False
    show ?thesis
    proof (cases "case nb of None \<Rightarrow> True | Some e \<Rightarrow> e \<le> start AND NOT (new - 1)")
      case True
      then have "free_low_bound big start nb pgsize = start AND NOT (new - 1)" using sz False by (subst free_low_bound.simps) (simp add: Let_def)
      with True le show ?thesis by auto
    next
      case F: False
      then have "free_low_bound big start nb pgsize = free_low_bound big start nb new" using sz False by (subst free_low_bound.simps) (simp add: Let_def)
      with "1.IH" [OF sz [symmetric] _ refl F "1.prems"] False show ?thesis by auto
    qed
  qed
qed

lemma vm_align_up_ge:
  assumes "new = 2 ^ k" "k \<le> 30" "unat end0 \<le> 2 ^ 63"
  shows "end0 \<le> (end0 + new - 1) AND NOT (new - 1 :: u64)"
proof -
  have new: "unat new = 2 ^ k" using assms(1,2) by (simp add: u64_pow2)
  have k: "(2::nat) ^ k \<le> 2 ^ 30" using assms(2) by (intro power_increasing) auto
  have one: "(1::u64) \<le> new" using new by (simp add: word_le_nat_alt)
  have "unat (end0 + new) = unat end0 + 2 ^ k" using assms(3) new k by (intro trans [OF u64_add]) auto
  moreover have "(1::u64) \<le> end0 + new" using calculation by (simp add: word_le_nat_alt Suc_le_eq)
  ultimately have u: "unat (end0 + new - 1) = unat end0 + 2 ^ k - 1" by (simp add: u64_sub)
  have "unat ((end0 + new - 1) AND NOT (new - 1)) = (unat end0 + 2 ^ k - 1) div 2 ^ k * 2 ^ k"
    using u64_align_down [of "end0 + new - 1" k] u assms(1) by simp
  moreover have "unat end0 \<le> (unat end0 + 2 ^ k - 1) div 2 ^ k * 2 ^ k"
  proof -
    have "(unat end0 + 2 ^ k - 1) div 2 ^ k * 2 ^ k + (unat end0 + 2 ^ k - 1) mod 2 ^ k = unat end0 + 2 ^ k - 1"
      by (rule div_mult_mod_eq)
    moreover have "(unat end0 + 2 ^ k - 1) mod 2 ^ k < 2 ^ k" by simp
    ultimately show ?thesis by linarith
  qed
  ultimately show ?thesis by (simp add: word_le_nat_alt)
qed

lemma free_high_bound_sound:
  "\<forall>s. nb = Some s \<longrightarrow> end0 \<le> s \<Longrightarrow> unat end0 \<le> 2 ^ 63 \<Longrightarrow>
     end0 \<le> free_high_bound big end0 nb pgsize \<and> (\<forall>s. nb = Some s \<longrightarrow> free_high_bound big end0 nb pgsize \<le> s)"
proof (induction big end0 nb pgsize rule: free_high_bound.induct)
  case (1 big end0 nb pgsize)
  obtain err new where sz: "arch_get_smaller_page_size big pgsize = (err, new)" by (cases "arch_get_smaller_page_size big pgsize")
  show ?case
  proof (cases "err \<noteq> 0")
    case True
    then have "free_high_bound big end0 nb pgsize = end0" using sz by (subst free_high_bound.simps) simp
    with "1.prems" show ?thesis by auto
  next
    case False
    have le: "end0 \<le> (end0 + new - 1) AND NOT (new - 1)"
      using page_sizes [of big pgsize new] sz False vm_align_up_ge [OF _ _ "1.prems"(2)] by (metis (no_types, lifting) numeral_le_iff rel_simps order_refl)
    show ?thesis
    proof (cases "case nb of None \<Rightarrow> True | Some s \<Rightarrow> (end0 + new - 1) AND NOT (new - 1) \<le> s")
      case True
      then have "free_high_bound big end0 nb pgsize = (end0 + new - 1) AND NOT (new - 1)" using sz False by (subst free_high_bound.simps) (simp add: Let_def)
      with True le show ?thesis by auto
    next
      case F: False
      then have "free_high_bound big end0 nb pgsize = free_high_bound big end0 nb new" using sz False by (subst free_high_bound.simps) (simp add: Let_def)
      with "1.IH" [OF sz [symmetric] _ refl F "1.prems"] False show ?thesis by auto
    qed
  qed
qed

lemma free_range_unmap_same:
  assumes "vm_ptrs vm = as @ p # bs" "distinct (vm_ptrs vm)"
  shows "\<exists>s e vm'. free_range_unmap env big p vm = Some (s, e, vm') \<and> same_ranges vm vm' \<and> pv_straight_va vm' = pv_straight_va vm"
proof -
  have ref: "pv_straight_va (opt_ref m vm) = pv_straight_va vm" "pv_straight_va (opt_unref env m vm) = pv_straight_va vm"
    "pv_straight_va (snd (vm_do env call vm)) = pv_straight_va vm" for m call vm
    by (simp_all add: opt_ref_def memobj_ref_def opt_unref_def memobj_unref_def vm_do_def Let_def split: option.split)
  note t = same_ranges_trans [OF _ same_ranges_unref] same_ranges_trans [OF _ same_ranges_do] same_ranges_ref same_ranges_do
  show ?thesis
    unfolding free_range_unmap_def Let_def prev_range_at [OF assms] next_range_at [OF assms]
    by (auto simp: ref split: option.split intro: t)
qed

lemma free_sound:
  assumes ok: "vm_ok vm" and fresh: "vm_fresh vm" and ptrs: "vm_ptrs vm = as @ p # bs"
  shows "\<exists>vm'. free_process_memory_range env big p vm = Some (0, vm') \<and> vm_ok vm' \<and> vm_fresh vm' \<and> vm_ptrs vm' = as @ bs \<and>
    pv_ranges vm' = pv_ranges vm \<and> pv_straight_va vm' = pv_straight_va vm"
proof -
  have dis: "distinct (vm_ptrs vm)" using ok by (rule vm_ok_distinct)
  from free_range_unmap_same [OF ptrs dis] obtain s e vm1 where
    u: "free_range_unmap env big p vm = Some (s, e, vm1)" "same_ranges vm vm1" "pv_straight_va vm1 = pv_straight_va vm" by blast
  have f1: "vm_ptrs vm1 = as @ p # bs" "distinct (vm_ptrs vm1)" "rb_valid (pv_tree vm1)" "pv_ranges vm1 = pv_ranges vm" "vm_ok vm1" "vm_fresh vm1"
    using u(2) ptrs dis ok fresh same_ranges_ok [OF u(2)] by (simp_all add: same_ranges_def vm_ok_def)
  from range_erase_at [OF f1(1-3), of None] obtain t where
    t: "range_erase p None vm1 = Some (vm1\<lparr>pv_tree := t, pv_range_cache := map (\<lambda>c. if c = Some p then None else c) (pv_range_cache vm1)\<rparr>)"
      "rb_valid t" "rb_inorder t = as @ bs" by blast
  define vm2 where "vm2 = vm1\<lparr>pv_tree := t, pv_range_cache := map (\<lambda>c. if c = Some p then None else c) (pv_range_cache vm1)\<rparr>"
  have "cache_ok vm2" using f1(1,5) by (auto simp: vm_ok_def cache_ok_def vm2_def t(3))
  moreover have "ranges_sorted (pv_ranges vm2) (as @ bs)" using f1(1,5) by (auto simp: vm_ok_def vm2_def ranges_sorted_simps)
  ultimately have ok2: "vm_ok vm2" using t(2,3) by (simp add: vm_ok_def vm2_def)
  have "vm_fresh vm2" using f1(1,6) by (auto simp: vm_fresh_def vm2_def t(3) intro: fresh_ptrs_mono)
  moreover define vm3 where "vm3 = (if vr_straight_start (pv_ranges vm2 p) \<noteq> 0 then
        snd (vm_do env (MC_FreePages (pv_straight_pa vm2 + (vr_straight_start (pv_ranges vm2 p) - pv_straight_va vm2))
          (drop_bit 12 (vr_end (pv_ranges vm2 p) - vr_start (pv_ranges vm2 p)))) vm2)
      else if vr_start (pv_ranges vm2 p) = pv_straight_va vm2 \<and> vr_end (pv_ranges vm2 p) = pv_straight_va vm2 + pv_straight_len vm2 then
        (snd (vm_do env (PT_ClearRange s e) vm2))\<lparr>pv_straight_len := 0\<rparr>
      else vm2)"
  moreover have "same_ranges vm2 vm3" "pv_straight_va vm3 = pv_straight_va vm2" by (auto simp: vm3_def same_ranges_def vm_do_def)
  moreover have "free_process_memory_range env big p vm = Some (0, snd (vm_do env (MC_Kfree p) vm3))"
    using u(1) t(1) by (simp add: free_process_memory_range_def vm2_def [symmetric] vm3_def Let_def)
  ultimately show ?thesis
    using ok2 same_ranges_ok [of vm2 vm3] same_ranges_ok [of vm3 "snd (vm_do env (MC_Kfree p) vm3)"] u(3) f1(4) t(3)
    by (auto simp: vm2_def same_ranges_def vm_do_def)
qed

subsection \<open>Removing an interval\<close>

definition outside :: "u64 \<Rightarrow> u64 \<Rightarrow> (nat \<Rightarrow> vm_range) \<Rightarrow> nat list \<Rightarrow> bool" where
  "outside s e rs ps \<longleftrightarrow> (\<forall>p \<in> set ps. vr_end (rs p) \<le> s \<or> e \<le> vr_start (rs p))"

lemma outside_simps [simp]:
  "outside s e rs []" "outside s e rs (p # ps) \<longleftrightarrow> (vr_end (rs p) \<le> s \<or> e \<le> vr_start (rs p)) \<and> outside s e rs ps"
  "outside s e rs (ps @ qs) \<longleftrightarrow> outside s e rs ps \<and> outside s e rs qs"
  by (auto simp: outside_def)

lemma outside_cong: "(\<And>p. p \<in> set ps \<Longrightarrow> rs p = rs' p) \<Longrightarrow> outside s e rs ps = outside s e rs' ps"
  by (simp add: outside_def)

lemma outside_map: "outside s e rs ps \<Longrightarrow> s \<le> a \<Longrightarrow> a < e \<Longrightarrow> ranges_map rs ps a = None"
  by (rule ranges_map_None) (auto simp: outside_def in_range_def)

lemma ranges_map_delete:
  assumes "ranges_sorted rs (as @ q # bs)"
  shows "ranges_map rs (as @ bs) a = (if in_range a (rs q) then None else ranges_map rs (as @ q # bs) a)"
proof (cases "in_range a (rs q)")
  case True
  have "\<not> in_range a (rs p)" if p: "p \<in> set (as @ bs)" for p
  proof -
    have "vr_end (rs p) \<le> vr_start (rs q) \<or> vr_end (rs q) \<le> vr_start (rs p)" using p assms by (auto simp: ranges_sorted_simps)
    with True show ?thesis by (auto simp: in_range_def)
  qed
  with True show ?thesis by (metis ranges_map_None)
qed (simp split: option.split)

lemma remove_split_low:
  assumes ok: "vm_ok vm" "vm_fresh vm" and ptrs: "vm_ptrs vm = as @ p # bs" and out: "outside s e (pv_ranges vm) as"
    and p: "vr_start (pv_ranges vm p) < e" "s < vr_end (pv_ranges vm p)" "s < e"
  shows "\<exists>err split vm'. (if vr_start (pv_ranges vm p) < s then split_process_memory_range env p s vm else Some (0, Some p, vm)) =
      Some (err, split, vm') \<and> vm_ok vm' \<and> vm_fresh vm' \<and> vm_map vm' = vm_map vm \<and> pv_straight_va vm' = pv_straight_va vm \<and>
      (err = 0 \<longrightarrow> (\<exists>q as'. split = Some q \<and> vm_ptrs vm' = as' @ q # bs \<and> outside s e (pv_ranges vm') as' \<and>
         s \<le> vr_start (pv_ranges vm' q) \<and> vr_start (pv_ranges vm' q) < e \<and> s < vr_end (pv_ranges vm' q) \<and>
         (\<forall>x \<in> set bs. pv_ranges vm' x = pv_ranges vm x)))"
proof (cases "vr_start (pv_ranges vm p) < s")
  case False
  then show ?thesis using assms by auto
next
  case True
  from split_sound [OF ok ptrs True p(2), of env] obtain err new vm' where
    r: "split_process_memory_range env p s vm = Some (err, new, vm')" "vm_ok vm'" "vm_fresh vm'" "vm_map vm' = vm_map vm"
      "pv_straight_va vm' = pv_straight_va vm"
      "if err \<noteq> 0 then new = None \<and> vm_ptrs vm' = vm_ptrs vm
       else \<exists>n. new = Some n \<and> n \<notin> set (vm_ptrs vm) \<and> vm_ptrs vm' = as @ p # n # bs \<and>
         pv_ranges vm' = (pv_ranges vm)(n := split_high (pv_ranges vm p) s, p := split_low (pv_ranges vm p) s)" by blast
  show ?thesis
  proof (cases "err = 0")
    case False
    with r True show ?thesis by simp
  next
    case E: True
    with r(6) obtain n where n: "new = Some n" "n \<notin> set (vm_ptrs vm)" "vm_ptrs vm' = as @ p # n # bs"
      "pv_ranges vm' = (pv_ranges vm)(n := split_high (pv_ranges vm p) s, p := split_low (pv_ranges vm p) s)" by auto
    have ne: "n \<noteq> p" "\<forall>x \<in> set as \<union> set bs. x \<noteq> p \<and> x \<noteq> n" using n(2) ptrs vm_ok_distinct [OF ok(1)] by auto
    then have "outside s e (pv_ranges vm') as" using out outside_cong [of as "pv_ranges vm'" "pv_ranges vm"] by (simp add: n(4))
    then have "outside s e (pv_ranges vm') (as @ [p])" by (simp add: n(4) split_low_def)
    moreover have "vr_start (pv_ranges vm' n) = s" "vr_end (pv_ranges vm' n) = vr_end (pv_ranges vm p)"
      using ne(1) by (simp_all add: n(4) split_high_def)
    moreover have "\<forall>x \<in> set bs. pv_ranges vm' x = pv_ranges vm x" using ne(2) by (simp add: n(4))
    ultimately show ?thesis using r(1-5) n(1,3) True E p
      by (intro exI [of _ 0] exI [of _ "Some n"] exI [of _ vm']) (auto intro!: exI [of _ "as @ [p]"])
  qed
qed

lemma remove_split_high:
  assumes ok: "vm_ok vm" "vm_fresh vm" and ptrs: "vm_ptrs vm = as @ q # bs" and out: "outside s e (pv_ranges vm) as"
    and q: "s \<le> vr_start (pv_ranges vm q)" "vr_start (pv_ranges vm q) < e"
  shows "\<exists>err vm'. (if e < vr_end (pv_ranges vm q) then map_option (\<lambda>(error, _, vm). (error, vm)) (split_process_memory_range env q e vm)
        else Some (0, vm)) = Some (err, vm') \<and> vm_ok vm' \<and> vm_fresh vm' \<and> vm_map vm' = vm_map vm \<and> pv_straight_va vm' = pv_straight_va vm \<and>
      (err = 0 \<longrightarrow> (\<exists>cs. vm_ptrs vm' = as @ q # cs @ bs \<and> outside s e (pv_ranges vm') (as @ cs) \<and>
         s \<le> vr_start (pv_ranges vm' q) \<and> vr_end (pv_ranges vm' q) \<le> e \<and> (\<forall>x \<in> set bs. pv_ranges vm' x = pv_ranges vm x)))"
proof (cases "e < vr_end (pv_ranges vm q)")
  case False
  then show ?thesis using assms by (auto intro: exI [of _ "[]"])
next
  case True
  from split_sound [OF ok ptrs q(2) True, of env] obtain err new vm' where
    r: "split_process_memory_range env q e vm = Some (err, new, vm')" "vm_ok vm'" "vm_fresh vm'" "vm_map vm' = vm_map vm"
      "pv_straight_va vm' = pv_straight_va vm"
      "if err \<noteq> 0 then new = None \<and> vm_ptrs vm' = vm_ptrs vm
       else \<exists>n. new = Some n \<and> n \<notin> set (vm_ptrs vm) \<and> vm_ptrs vm' = as @ q # n # bs \<and>
         pv_ranges vm' = (pv_ranges vm)(n := split_high (pv_ranges vm q) e, q := split_low (pv_ranges vm q) e)" by blast
  show ?thesis
  proof (cases "err = 0")
    case False
    with r True show ?thesis by simp
  next
    case E: True
    with r(6) obtain n where n: "new = Some n" "n \<notin> set (vm_ptrs vm)" "vm_ptrs vm' = as @ q # n # bs"
      "pv_ranges vm' = (pv_ranges vm)(n := split_high (pv_ranges vm q) e, q := split_low (pv_ranges vm q) e)" by auto
    have ne: "n \<noteq> q" "\<forall>x \<in> set as \<union> set bs. x \<noteq> q \<and> x \<noteq> n" using n(2) ptrs vm_ok_distinct [OF ok(1)] by auto
    then have "outside s e (pv_ranges vm') as" using out outside_cong [of as "pv_ranges vm'" "pv_ranges vm"] by (simp add: n(4))
    then have "outside s e (pv_ranges vm') (as @ [n])" using ne(1) by (simp add: n(4) split_high_def)
    moreover have "vr_start (pv_ranges vm' q) = vr_start (pv_ranges vm q)" "vr_end (pv_ranges vm' q) = e"
      by (simp_all add: n(4) split_low_def)
    moreover have "\<forall>x \<in> set bs. pv_ranges vm' x = pv_ranges vm x" using ne(2) by (simp add: n(4))
    ultimately show ?thesis using r(1-5) n(1,3) True E q
      by (intro exI [of _ 0] exI [of _ vm']) (auto intro!: exI [of _ "[n]"])
  qed
qed

text \<open>What the loop does to the map, for every outcome: nothing outside the interval changes, and
  when it reports success nothing is left inside.\<close>

definition removed :: "u64 \<Rightarrow> u64 \<Rightarrow> int \<Rightarrow> process_vm \<Rightarrow> process_vm \<Rightarrow> bool" where
  "removed s e err vm vm' \<longleftrightarrow> vm_ok vm' \<and> vm_fresh vm' \<and>
     (\<forall>a. \<not> (s \<le> a \<and> a < e) \<longrightarrow> vm_map vm' a = vm_map vm a) \<and>
     (\<forall>a. s \<le> a \<and> a < e \<longrightarrow> (vm_map vm' a = None \<or> vm_map vm' a = vm_map vm a) \<and> (err = 0 \<longrightarrow> vm_map vm' a = None))"

lemma remove_loop_sound:
  "vm_ok vm \<Longrightarrow> vm_fresh vm \<Longrightarrow> vm_ptrs vm = as @ ns \<Longrightarrow> outside s e (pv_ranges vm) as \<Longrightarrow> s < e \<Longrightarrow>
   \<forall>p \<in> set ns. s < vr_end (pv_ranges vm p) \<Longrightarrow>
     \<exists>err ro' vm'. remove_loop env big s e (case ns of [] \<Rightarrow> None | p # _ \<Rightarrow> Some p) ro vm = Some (err, ro', vm') \<and> removed s e err vm vm'"
proof (induction ns arbitrary: as vm ro)
  case Nil
  then have "vm_map vm a = None" if "s \<le> a" "a < e" for a using outside_map [of s e _ as a] that by (simp add: vm_map_def)
  with Nil show ?case by (simp add: remove_loop.simps removed_def)
next
  case (Cons p bs)
  have srt: "ranges_sorted (pv_ranges vm) (vm_ptrs vm)" using Cons.prems(1) by (simp add: vm_ok_def)
  have nxt: "next_process_memory_range vm p = Some (case bs of [] \<Rightarrow> None | q # _ \<Rightarrow> Some q)"
    using next_range_at [OF Cons.prems(3) vm_ok_distinct [OF Cons.prems(1)]] .
  show ?case
  proof (cases "vr_start (pv_ranges vm p) < e")
    case False
    have "outside s e (pv_ranges vm) (as @ p # bs)"
    proof -
      have "e \<le> vr_start (pv_ranges vm x)" if "x \<in> set (p # bs)" for x
      proof (cases "x = p")
        case False
        then have "vr_end (pv_ranges vm p) \<le> vr_start (pv_ranges vm x)" "vr_start (pv_ranges vm p) < vr_end (pv_ranges vm p)"
          using that srt Cons.prems(3) by (auto simp: ranges_sorted_simps)
        with \<open>\<not> vr_start (pv_ranges vm p) < e\<close> show ?thesis by (meson less_imp_le not_less order_trans)
      qed (use False in simp)
      then show ?thesis using Cons.prems(4) by (auto simp: outside_def)
    qed
    then have "vm_map vm a = None" if "s \<le> a" "a < e" for a
      using outside_map [of s e "pv_ranges vm" "as @ p # bs" a] that Cons.prems(3) by (simp add: vm_map_def)
    with False Cons.prems show ?thesis by (simp add: remove_loop.simps removed_def)
  next
    case True
    have pe: "s < vr_end (pv_ranges vm p)" using Cons.prems(6) by simp
    from remove_split_low [OF Cons.prems(1,2,3,4) True pe Cons.prems(5), of env] obtain e1 split vm1 where
      s1: "(if vr_start (pv_ranges vm p) < s then split_process_memory_range env p s vm else Some (0, Some p, vm)) = Some (e1, split, vm1)"
        "vm_ok vm1" "vm_fresh vm1" "vm_map vm1 = vm_map vm"
        "e1 = 0 \<longrightarrow> (\<exists>q as'. split = Some q \<and> vm_ptrs vm1 = as' @ q # bs \<and> outside s e (pv_ranges vm1) as' \<and>
         s \<le> vr_start (pv_ranges vm1 q) \<and> vr_start (pv_ranges vm1 q) < e \<and> s < vr_end (pv_ranges vm1 q) \<and>
         (\<forall>x \<in> set bs. pv_ranges vm1 x = pv_ranges vm x))" by blast
    note unf = remove_loop.simps [of env big s e "Some p" ro vm]
    show ?thesis
    proof (cases "e1 = 0")
      case False
      with s1 True nxt show ?thesis by (simp add: unf removed_def)
    next
      case E1: True
      with s1(5) obtain q as1 where q: "split = Some q" "vm_ptrs vm1 = as1 @ q # bs" "outside s e (pv_ranges vm1) as1"
        "s \<le> vr_start (pv_ranges vm1 q)" "vr_start (pv_ranges vm1 q) < e" "\<forall>x \<in> set bs. pv_ranges vm1 x = pv_ranges vm x" by blast
      from remove_split_high [OF s1(2,3) q(2-5), of env] obtain e2 vm2 where
        s2: "(if e < vr_end (pv_ranges vm1 q) then map_option (\<lambda>(error, _, vm). (error, vm)) (split_process_memory_range env q e vm1)
            else Some (0, vm1)) = Some (e2, vm2)" "vm_ok vm2" "vm_fresh vm2" "vm_map vm2 = vm_map vm1"
          "e2 = 0 \<longrightarrow> (\<exists>cs. vm_ptrs vm2 = as1 @ q # cs @ bs \<and> outside s e (pv_ranges vm2) (as1 @ cs) \<and>
             s \<le> vr_start (pv_ranges vm2 q) \<and> vr_end (pv_ranges vm2 q) \<le> e \<and> (\<forall>x \<in> set bs. pv_ranges vm2 x = pv_ranges vm1 x))" by blast
      show ?thesis
      proof (cases "e2 = 0")
        case False
        with s1 s2 E1 q(1) True nxt show ?thesis by (simp add: unf removed_def)
      next
        case E2: True
        with s2(5) obtain cs where c: "vm_ptrs vm2 = as1 @ q # cs @ bs" "outside s e (pv_ranges vm2) (as1 @ cs)"
          "s \<le> vr_start (pv_ranges vm2 q)" "vr_end (pv_ranges vm2 q) \<le> e" "\<forall>x \<in> set bs. pv_ranges vm2 x = pv_ranges vm1 x" by blast
        define vm3 where "vm3 = (if vr_private_data (pv_ranges vm2 q) \<noteq> 0 then snd (vm_do env (Xpmem_Remove q) vm2) else vm2)"
        have "same_ranges vm2 vm3" by (simp add: vm3_def)
        then have f3: "vm_ok vm3" "vm_fresh vm3" "vm_map vm3 = vm_map vm2" "vm_ptrs vm3 = as1 @ q # (cs @ bs)" "pv_ranges vm3 = pv_ranges vm2"
          using s2(2,3) c(1) same_ranges_ok [of vm2 vm3] by (auto simp: same_ranges_def)
        from free_sound [OF f3(1,2,4), of env big] obtain vm4 where
          f4: "free_process_memory_range env big q vm3 = Some (0, vm4)" "vm_ok vm4" "vm_fresh vm4" "vm_ptrs vm4 = (as1 @ cs) @ bs"
            "pv_ranges vm4 = pv_ranges vm3" by auto
        define ro' where "ro' = (ro \<or> vr_flag (pv_ranges vm2 q) AND VR_PROT_WRITE = 0)"
        have "\<forall>x \<in> set bs. s < vr_end (pv_ranges vm4 x)" using Cons.prems(6) q(6) c(5) by (simp add: f4(5) f3(5))
        moreover have "outside s e (pv_ranges vm4) (as1 @ cs)" using c(2) by (simp add: f4(5) f3(5))
        ultimately obtain err ro2 vm5 where
          IH: "remove_loop env big s e (case bs of [] \<Rightarrow> None | q # _ \<Rightarrow> Some q) ro' vm4 = Some (err, ro2, vm5)" "removed s e err vm4 vm5"
          using Cons.IH [OF f4(2-4) _ Cons.prems(5), of ro'] by blast
        have m4: "vm_map vm4 a = (if in_range a (pv_ranges vm2 q) then None else vm_map vm a)" for a
        proof -
          have "ranges_sorted (pv_ranges vm3) (as1 @ q # cs @ bs)" using f3(1,4) by (simp add: vm_ok_def)
          from ranges_map_delete [OF this, of a] show ?thesis
            using f3(3-5) s2(4) s1(4) f4(4,5) by (simp add: vm_map_def)
        qed
        have inq: "s \<le> a \<and> a < e" if "in_range a (pv_ranges vm2 q)" for a
          using that c(3,4) by (auto simp: in_range_def)
        have "removed s e err vm vm5" unfolding removed_def
        proof (intro conjI allI impI)
          show "vm_ok vm5" "vm_fresh vm5" using IH(2) by (simp_all add: removed_def)
          show "vm_map vm5 a = vm_map vm a" if "\<not> (s \<le> a \<and> a < e)" for a
            using IH(2) that m4 [of a] inq [of a] by (auto simp: removed_def)
          show "vm_map vm5 a = None \<or> vm_map vm5 a = vm_map vm a" if "s \<le> a \<and> a < e" for a
          proof -
            have "vm_map vm5 a = None \<or> vm_map vm5 a = vm_map vm4 a" using IH(2) that by (simp add: removed_def)
            then show ?thesis using m4 [of a] by (cases "in_range a (pv_ranges vm2 q)") simp_all
          qed
          show "vm_map vm5 a = None" if "s \<le> a \<and> a < e" "err = 0" for a
            using IH(2) that by (auto simp: removed_def)
        qed
        moreover have "remove_loop env big s e (Some p) ro vm = Some (err, ro2, vm5)"
          using True nxt s1(1) E1 q(1) s2(1) E2 f4(1) [unfolded vm3_def] IH(1) [unfolded ro'_def]
          by (cases "vr_private_data (pv_ranges vm2 q) = 0") (simp_all add: unf Let_def)
        ultimately show ?thesis by simp
      qed
    qed
  qed
qed

lemma remove_sound:
  assumes ok: "vm_ok vm" "vm_fresh vm" and se: "s < e" and ns: "\<not> in_straight_mapping vm s e"
  shows "\<exists>err ro vm'. remove_process_memory_range env big s e vm = Some (err, ro, vm') \<and> removed s e err vm vm'"
proof -
  obtain res vm1 where l: "lookup_process_memory_range s e vm = (res, vm1)" by (cases "lookup_process_memory_range s e vm")
  from lookup_sound [OF ok(1) l] se have l1: "res = first_overlap (pv_ranges vm) s e (vm_ptrs vm)" "vm_ok vm1" "same_but_cache vm vm1"
    by auto
  have same: "pv_ranges vm1 = pv_ranges vm" "pv_tree vm1 = pv_tree vm" "pv_kmalloc vm1 = pv_kmalloc vm"
    using l1(3) by (simp_all add: same_but_cache_def)
  have fresh1: "vm_fresh vm1" and map1: "vm_map vm1 = vm_map vm" using ok(2) by (simp_all add: vm_fresh_def vm_map_def same)
  have srt: "ranges_sorted (pv_ranges vm) (vm_ptrs vm)" using ok(1) by (simp add: vm_ok_def)
  from ranges_partition [OF srt se] obtain as ms bs where
    split: "vm_ptrs vm = as @ ms @ bs" "\<forall>p \<in> set as. vr_end (pv_ranges vm p) \<le> s"
      "\<forall>p \<in> set ms. overlaps s e (pv_ranges vm p)" "\<forall>p \<in> set bs. e \<le> vr_start (pv_ranges vm p)" by blast
  have go: "\<exists>err ro vm'. remove_loop env big s e res False vm1 = Some (err, ro, vm') \<and> removed s e err vm1 vm'"
  proof (cases ms)
    case Nil
    have "first_overlap (pv_ranges vm) s e (as @ bs) = None"
      using split(2,4) by (intro first_overlap_None) (auto simp: overlaps_def)
    then have "res = None" using l1(1) split(1) Nil by simp
    moreover have "outside s e (pv_ranges vm1) (as @ bs)" using split(2,4) by (auto simp: outside_def same)
    ultimately show ?thesis
      using remove_loop_sound [OF l1(2) fresh1, of "as @ bs" "[]" s e env big False] se split(1) Nil same by simp
  next
    case (Cons p ms')
    have "first_overlap (pv_ranges vm) s e as = None" using split(2) by (intro first_overlap_None) (auto simp: overlaps_def)
    then have "res = Some p" using l1(1) split(1,3) Cons by (simp add: first_overlap_append first_overlap_Cons)
    moreover have "\<forall>x \<in> set (ms @ bs). s < vr_end (pv_ranges vm1 x)"
    proof
      fix x assume "x \<in> set (ms @ bs)"
      then consider "x \<in> set ms" | "x \<in> set bs" by auto
      then show "s < vr_end (pv_ranges vm1 x)"
      proof cases
        case 2
        then have "e \<le> vr_start (pv_ranges vm x)" "vr_start (pv_ranges vm x) < vr_end (pv_ranges vm x)"
          using split(1,4) ranges_sorted_nonempty [OF srt] by auto
        with se show ?thesis by (simp add: same)
      qed (use split(3) in \<open>auto simp: overlaps_def same\<close>)
    qed
    moreover have "outside s e (pv_ranges vm1) as" using split(2) by (auto simp: outside_def same)
    ultimately show ?thesis
      using remove_loop_sound [OF l1(2) fresh1, of as "ms @ bs" s e env big False] se split(1) Cons same by simp
  qed
  then show ?thesis using l ns map1 by (simp add: remove_process_memory_range_def removed_def)
qed

end
