(* ===== verification/VmSpace.thy ===== *)
theory VmSpace
  imports VmRange
begin

section \<open>The operations on an address space refine a map\<close>

text \<open>
  What the operations of \<open>VmRange\<close> do to the map from addresses to flags and object bytes: lookups
  and splitting and joining leave it alone, adding and extending enlarge it, removing clears an
  interval, protecting changes the flags of one range.
\<close>

subsection \<open>Joining\<close>

lemma adjacent_ranges:
  assumes "ranges_sorted rs ps" "p \<in> set ps" "q \<in> set ps" "vr_end (rs p) = vr_start (rs q)"
  shows "\<exists>as bs. ps = as @ p # q # bs"
proof -
  have ne: "vr_start (rs x) < vr_end (rs x)" if "x \<in> set ps" for x using ranges_sorted_nonempty [OF assms(1) that] .
  from assms(2) obtain as cs where ps: "ps = as @ p # cs" by (auto simp: in_set_conv_decomp)
  have "q \<noteq> p" using assms(4) ne [OF assms(2)] by auto
  moreover have "q \<notin> set as"
  proof
    assume "q \<in> set as"
    then have "vr_end (rs q) \<le> vr_start (rs p)" using assms(1) ps by (auto simp: ranges_sorted_simps)
    with assms(4) ne [OF assms(2)] ne [OF assms(3)] show False by auto
  qed
  ultimately have "q \<in> set cs" using assms(3) ps by auto
  then obtain xs bs where cs: "cs = xs @ q # bs" by (auto simp: in_set_conv_decomp)
  have "xs = []"
  proof (cases xs)
    case (Cons x ys)
    then have "vr_end (rs p) \<le> vr_start (rs x)" "vr_end (rs x) \<le> vr_start (rs q)" "vr_start (rs x) < vr_end (rs x)"
      using assms(1) ps cs by (auto simp: ranges_sorted_simps)
    with assms(4) show ?thesis by auto
  qed
  with ps cs show ?thesis by auto
qed

lemma join_sound:
  assumes ok: "vm_ok vm" and p: "p \<in> set (vm_ptrs vm)" "q \<in> set (vm_ptrs vm)"
  shows "\<exists>err vm'. join_process_memory_range env p q vm = Some (err, vm') \<and> vm_ok vm' \<and> vm_map vm' = vm_map vm \<and>
    (if vr_end (pv_ranges vm p) = vr_start (pv_ranges vm q) \<and> vr_flag (pv_ranges vm p) = vr_flag (pv_ranges vm q) \<and>
        vr_memobj (pv_ranges vm p) = vr_memobj (pv_ranges vm q) \<and>
        (vr_memobj (pv_ranges vm p) \<noteq> None \<longrightarrow>
          vr_objoff (pv_ranges vm p) + (vr_end (pv_ranges vm p) - vr_start (pv_ranges vm p)) = vr_objoff (pv_ranges vm q))
     then err = 0 \<and> set (vm_ptrs vm') = set (vm_ptrs vm) - {q} \<and> vr_end (pv_ranges vm' p) = vr_end (pv_ranges vm q)
     else err = - EINVAL \<and> vm' = vm)"
proof -
  define rp rq where "rp = pv_ranges vm p" and "rq = pv_ranges vm q"
  define fits where "fits \<longleftrightarrow> vr_end rp = vr_start rq \<and> vr_flag rp = vr_flag rq \<and> vr_memobj rp = vr_memobj rq \<and>
    (vr_memobj rp \<noteq> None \<longrightarrow> vr_objoff rp + (vr_end rp - vr_start rp) = vr_objoff rq)"
  have srt: "ranges_sorted (pv_ranges vm) (vm_ptrs vm)" using ok by (simp add: vm_ok_def)
  show ?thesis
  proof (cases fits)
    case False
    then have "join_process_memory_range env p q vm = Some (- EINVAL, vm)"
      by (auto simp: join_process_memory_range_def rp_def [symmetric] rq_def [symmetric] fits_def Let_def)
    with False ok show ?thesis by (simp add: fits_def rp_def rq_def)
  next
    case True
    with adjacent_ranges [OF srt p] obtain as bs where ptrs: "vm_ptrs vm = as @ p # q # bs" by (auto simp: fits_def rp_def rq_def)
    have dis: "distinct (as @ p # q # bs)" using vm_ok_distinct [OF ok] ptrs by simp
    define vm1 where "vm1 = opt_unref env (vr_memobj rq) (set_range p (rp\<lparr>vr_end := vr_end rq\<rparr>) vm)"
    have "same_ranges (set_range p (rp\<lparr>vr_end := vr_end rq\<rparr>) vm) vm1" by (simp add: vm1_def)
    then have f1: "pv_tree vm1 = pv_tree vm" "pv_ranges vm1 = (pv_ranges vm)(p := rp\<lparr>vr_end := vr_end rq\<rparr>)"
      "pv_range_cache vm1 = pv_range_cache vm" "pv_range_cache_ind vm1 = pv_range_cache_ind vm"
      by (simp_all add: same_ranges_def set_range_def)
    from range_erase_at [of vm1 "as @ [p]" q bs "Some p"] ptrs dis ok f1 obtain t where
      t: "range_erase q (Some p) vm1 = Some (vm1\<lparr>pv_tree := t, pv_range_cache := map (\<lambda>c. if c = Some q then Some p else c) (pv_range_cache vm1)\<rparr>)"
        "rb_valid t" "rb_inorder t = as @ p # bs" by (auto simp: vm_ok_def)
    define vm2 where "vm2 = vm1\<lparr>pv_tree := t, pv_range_cache := map (\<lambda>c. if c = Some q then Some p else c) (pv_range_cache vm1)\<rparr>"
    have c2: "cache_ok vm2" using ok ptrs by (auto simp: vm_ok_def cache_ok_def vm2_def t(3) f1)
    have same: "\<And>x. x \<in> set as \<union> set bs \<Longrightarrow> pv_ranges vm2 x = pv_ranges vm x" using dis by (auto simp: vm2_def f1)
    have p2: "pv_ranges vm2 p = rp\<lparr>vr_end := vr_end rq\<rparr>" by (simp add: vm2_def f1)
    have srt2: "ranges_sorted (pv_ranges vm2) (as @ p # bs)"
    proof -
      have "ranges_sorted (pv_ranges vm2) as = ranges_sorted (pv_ranges vm) as" "ranges_sorted (pv_ranges vm2) bs = ranges_sorted (pv_ranges vm) bs"
        by (rule ranges_sorted_cong; simp add: same)+
      moreover have "vr_start rp < vr_end rq"
        using srt ptrs True by (auto simp: ranges_sorted_simps fits_def rp_def rq_def)
      ultimately show ?thesis using srt p2 unfolding ptrs ranges_sorted_simps
        by (simp add: same rp_def [symmetric] rq_def [symmetric])
    qed
    have m2: "ranges_map (pv_ranges vm2) (as @ p # bs) = ranges_map (pv_ranges vm) (as @ p # q # bs)"
    proof
      fix a
      have "ranges_map (pv_ranges vm2) as a = ranges_map (pv_ranges vm) as a" "ranges_map (pv_ranges vm2) bs a = ranges_map (pv_ranges vm) bs a"
        using same by (auto intro!: fun_cong [OF ranges_map_cong])
      moreover have "(if in_range a (pv_ranges vm2 p) then Some (range_attr (pv_ranges vm2 p) a) else x) =
          (if in_range a (pv_ranges vm p) then Some (range_attr (pv_ranges vm p) a)
           else if in_range a (pv_ranges vm q) then Some (range_attr (pv_ranges vm q) a) else x)" for x
      proof -
        have "vr_start rp < vr_end rp" "vr_start rq < vr_end rq" using ranges_sorted_nonempty [OF srt] p by (simp_all add: rp_def rq_def)
        moreover have "range_attr rq a = range_attr rp a"
        proof (cases "vr_memobj rp")
          case (Some m)
          then have "vr_objoff rq = vr_objoff rp + (vr_start rq - vr_start rp)" using True by (auto simp: fits_def)
          with True show ?thesis by (simp add: fits_def range_attr_def)
        qed (use True in \<open>simp add: fits_def range_attr_def\<close>)
        ultimately show ?thesis using True unfolding p2 rp_def [symmetric] rq_def [symmetric]
          by (auto simp: fits_def in_range_def range_attr_def not_less)
      qed
      ultimately show "ranges_map (pv_ranges vm2) (as @ p # bs) a = ranges_map (pv_ranges vm) (as @ p # q # bs) a"
        by (simp only: ranges_map_append ranges_map_Cons)
    qed
    define vm3 where "vm3 = snd (vm_do env (MC_Kfree q) vm2)"
    have s3: "same_ranges vm2 vm3" by (simp add: vm3_def)
    have ptrs2: "vm_ptrs vm2 = as @ p # bs" by (simp add: vm2_def t(3))
    have "vm_ok vm2" using c2 srt2 t(2) ptrs2 by (simp add: vm_ok_def) (simp add: vm2_def)
    moreover have "vm_map vm2 = vm_map vm" using m2 ptrs ptrs2 by (simp add: vm_map_def)
    moreover have "join_process_memory_range env p q vm = Some (0, vm3)"
      using True t(1) by (auto simp: join_process_memory_range_def rp_def [symmetric] rq_def [symmetric] fits_def Let_def vm1_def [symmetric] vm2_def [symmetric] vm3_def)
    moreover have "vm_ptrs vm3 = as @ p # bs" "pv_ranges vm3 p = rp\<lparr>vr_end := vr_end rq\<rparr>"
      using s3 ptrs2 p2 by (simp_all add: same_ranges_def)
    ultimately show ?thesis using True same_ranges_ok [OF s3] ptrs dis
      by (auto simp: fits_def rp_def [symmetric] rq_def [symmetric])
  qed
qed

subsection \<open>Adding and extending\<close>

definition map_add_range :: "vm_range \<Rightarrow> aspace \<Rightarrow> aspace" where
  "map_add_range r m a = (if in_range a r then Some (range_attr r a) else m a)"

lemma ranges_map_insert:
  assumes "ranges_sorted rs (as @ n # bs)"
  shows "ranges_map rs (as @ n # bs) = map_add_range (rs n) (ranges_map rs (as @ bs))"
proof
  fix a
  show "ranges_map rs (as @ n # bs) a = map_add_range (rs n) (ranges_map rs (as @ bs)) a"
  proof (cases "in_range a (rs n)")
    case True
    then have "ranges_map rs as a = None"
      using assms by (intro ranges_map_None) (auto simp: ranges_sorted_simps in_range_def)
    with True show ?thesis by (simp add: map_add_range_def)
  qed (simp add: map_add_range_def split: option.split)
qed

lemma extend_up_sound:
  assumes ok: "vm_ok vm" and p: "p \<in> set (vm_ptrs vm)"
  shows "\<exists>err vm'. extend_up_process_memory_range p newend vm = Some (err, vm') \<and> vm_ok vm' \<and>
    (if err = 0 then vr_end (pv_ranges vm p) < newend \<and> newend \<le> pv_user_end vm \<and>
       vm_map vm' = map_add_range ((pv_ranges vm p)\<lparr>vr_end := newend\<rparr>) (vm_map vm)
     else vm' = vm \<and> err \<in> {- EINVAL, - EPERM, - ENOMEM})"
proof -
  have srt: "ranges_sorted (pv_ranges vm) (vm_ptrs vm)" using ok by (simp add: vm_ok_def)
  from p obtain as bs where ptrs: "vm_ptrs vm = as @ p # bs" by (auto simp: in_set_conv_decomp)
  have dis: "distinct (vm_ptrs vm)" using vm_ok_distinct [OF ok] .
  note nxt = next_range_at [OF ptrs dis]
  define r where "r = (pv_ranges vm p)\<lparr>vr_end := newend\<rparr>"
  show ?thesis
  proof (cases "newend \<le> vr_end (pv_ranges vm p) \<or> pv_user_end vm < newend \<or> (\<exists>q cs. bs = q # cs \<and> vr_start (pv_ranges vm q) < newend)")
    case True
    then show ?thesis using ok nxt by (auto simp: extend_up_process_memory_range_def)
  next
    case False
    define vm' where "vm' = set_range p r vm"
    have eq: "extend_up_process_memory_range p newend vm = Some (0, vm')"
      using False nxt by (auto simp: extend_up_process_memory_range_def vm'_def r_def split: list.splits)
    have same: "\<And>x. x \<in> set as \<union> set bs \<Longrightarrow> pv_ranges vm' x = pv_ranges vm x" using dis ptrs by (auto simp: vm'_def set_range_def)
    have ptrs': "vm_ptrs vm' = as @ p # bs" using ptrs by (simp add: vm'_def set_range_def)
    have above: "\<forall>q \<in> set bs. newend \<le> vr_start (pv_ranges vm q)"
    proof
      fix q assume q: "q \<in> set bs"
      then obtain b cs where bs: "bs = b # cs" by (cases bs) auto
      with False have "newend \<le> vr_start (pv_ranges vm b)" by (simp add: not_less)
      moreover have "vr_start (pv_ranges vm b) \<le> vr_start (pv_ranges vm q)"
        using q bs srt ptrs by (auto simp: ranges_sorted_simps intro: order_trans [OF less_imp_le])
      ultimately show "newend \<le> vr_start (pv_ranges vm q)" by simp
    qed
    have "ranges_sorted (pv_ranges vm') as = ranges_sorted (pv_ranges vm) as" "ranges_sorted (pv_ranges vm') bs = ranges_sorted (pv_ranges vm) bs"
      by (rule ranges_sorted_cong; simp add: same)+
    moreover have "pv_ranges vm' p = r" "vr_start r = vr_start (pv_ranges vm p)" "vr_end r = newend"
      by (simp_all add: vm'_def set_range_def r_def)
    moreover have "vr_start (pv_ranges vm p) < newend" using ranges_sorted_nonempty [OF srt p] False by auto
    ultimately have srt': "ranges_sorted (pv_ranges vm') (as @ p # bs)"
      using srt above unfolding ptrs ranges_sorted_simps by (simp add: same)
    have "vm_ok vm'" using ok srt' ptrs' by (simp add: vm_ok_def cache_ok_def) (simp add: vm'_def set_range_def)
    moreover have "vm_map vm' = map_add_range r (vm_map vm)"
    proof
      fix a
      have "ranges_map (pv_ranges vm') (as @ bs) = ranges_map (pv_ranges vm) (as @ bs)" using same by (intro ranges_map_cong) auto
      then have "vm_map vm' a = map_add_range r (ranges_map (pv_ranges vm) (as @ bs)) a"
        using ranges_map_insert [OF srt'] ptrs' \<open>pv_ranges vm' p = r\<close> by (simp add: vm_map_def)
      also have "\<dots> = map_add_range r (map_add_range (pv_ranges vm p) (ranges_map (pv_ranges vm) (as @ bs))) a"
        using False by (auto simp: map_add_range_def in_range_def r_def)
      also have "\<dots> = map_add_range r (vm_map vm) a"
        using ranges_map_insert [of "pv_ranges vm" as p bs] srt ptrs by (simp add: vm_map_def)
      finally show "vm_map vm' a = map_add_range r (vm_map vm) a" .
    qed
    ultimately show ?thesis using eq False by (auto simp: r_def)
  qed
qed

lemma vm_kmalloc_cases:
  obtains vm1 where "vm_kmalloc vm = (None, vm1)" "vm1 = vm \<or> (\<exists>ks. pv_kmalloc vm = None # ks \<and> vm1 = vm\<lparr>pv_kmalloc := ks\<rparr>)"
  | n ks where "pv_kmalloc vm = Some n # ks" "vm_kmalloc vm = (Some n, vm\<lparr>pv_kmalloc := ks\<rparr>)"
proof (cases "pv_kmalloc vm")
  case Nil
  then show ?thesis by (intro that(1)) (auto simp: vm_kmalloc_def)
next
  case (Cons k ks)
  show ?thesis
  proof (cases k)
    case None
    with Cons show ?thesis by (intro that(1)) (auto simp: vm_kmalloc_def)
  next
    case (Some n)
    with Cons show ?thesis by (intro that(2)) (auto simp: vm_kmalloc_def)
  qed
qed

lemma add_sound:
  fixes flag off :: u64 and obj :: "nat option" and pgshift :: int
  assumes ok: "vm_ok vm" "vm_fresh vm" and se: "s < e"
  defines "r \<equiv> \<lparr>vr_start = s, vr_end = e, vr_flag = flag, vr_straight_start = 0, vr_memobj = obj, vr_objoff = off,
                vr_pgshift = pgshift, vr_private_data = 0\<rparr>"
  shows "\<exists>err res vm'. add_process_memory_range env remote zaf s e phys flag obj off pgshift vm = Some (err, res, vm') \<and> vm_ok vm' \<and>
    (if err = 0 then pv_user_start vm \<le> s \<and> e \<le> pv_user_end vm \<and> (\<forall>p \<in> set (vm_ptrs vm). \<not> overlaps s e (pv_ranges vm p)) \<and>
        (\<exists>n. res = Some n \<and> pv_ranges vm' n = r \<and> set (vm_ptrs vm') = insert n (set (vm_ptrs vm)) \<and> n \<notin> set (vm_ptrs vm)) \<and>
        vm_map vm' = map_add_range r (vm_map vm)
     else res = None \<and> vm_map vm' = vm_map vm \<and> vm_ptrs vm' = vm_ptrs vm)"
proof (cases "s < pv_user_start vm \<or> pv_user_end vm < e")
  case True
  then show ?thesis using ok by (simp add: add_process_memory_range_def)
next
  case False
  show ?thesis
  proof (cases rule: vm_kmalloc_cases [of vm])
    case (1 vm1)
    then have "vm_ok vm1 \<and> vm_map vm1 = vm_map vm \<and> vm_ptrs vm1 = vm_ptrs vm"
      using ok by (auto simp: vm_ok_def cache_ok_def vm_map_def)
    then show ?thesis using False 1(1) by (simp add: add_process_memory_range_def)
  next
    case (2 n ks)
    define vm1 where "vm1 = set_range n r (vm\<lparr>pv_kmalloc := ks\<rparr>)"
    have n: "n \<notin> set (vm_ptrs vm)" using ok(2) 2(1) by (simp add: vm_fresh_def)
    define set_pt where "set_pt \<longleftrightarrow> phys \<noteq> NOPHYS \<and> (flag AND VR_REMOTE \<noteq> 0 \<or> flag AND VR_IO_NOCACHE \<noteq> 0 \<or>
      flag AND VR_DEMAND_PAGING = 0 \<and> flag AND VR_PROT_MASK \<noteq> 0)"
    define rc vm2 where "rc = (if set_pt then fst (update_process_page_table env remote n phys vm1) else 0)"
      and "vm2 = (if set_pt then snd (update_process_page_table env remote n phys vm1) else vm1)"
    have pt: "(if phys = NOPHYS then (0, vm1)
         else if flag AND VR_REMOTE \<noteq> 0 then update_process_page_table env remote n phys vm1
         else if flag AND VR_IO_NOCACHE \<noteq> 0 then update_process_page_table env remote n phys vm1
         else if flag AND VR_DEMAND_PAGING \<noteq> 0 then (0, vm1)
         else if flag AND VR_PROT_MASK = 0 then (0, vm1)
         else update_process_page_table env remote n phys vm1) = (rc, vm2)"
      by (simp add: rc_def vm2_def set_pt_def)
    have s2: "same_ranges vm1 vm2" by (simp add: vm2_def update_process_page_table_def Let_def same_ranges_def vm_do_def)
    have f1: "pv_ranges vm1 = (pv_ranges vm)(n := r)" "pv_tree vm1 = pv_tree vm" "pv_range_cache vm1 = pv_range_cache vm"
      "pv_range_cache_ind vm1 = pv_range_cache_ind vm" by (simp_all add: vm1_def set_range_def)
    have srt: "ranges_sorted (pv_ranges vm1) (vm_ptrs vm1)"
      using ok(1) n by (subst ranges_sorted_cong [of _ _ "pv_ranges vm"]) (auto simp: f1 vm_ok_def)
    then have ok1: "vm_ok vm1" using ok(1) by (simp add: vm_ok_def cache_ok_def f1)
    have map1: "vm_map vm1 = vm_map vm" unfolding vm_map_def f1 using n by (intro ranges_map_cong) auto
    note s2' = same_ranges_ok [OF s2]
    have body: "add_process_memory_range env remote zaf s e phys flag obj off pgshift vm =
      (if rc \<noteq> 0 then Some (rc, None, snd (vm_do env (MC_Kfree n) vm2))
       else (case vm_range_insert n vm2 of
               None \<Rightarrow> None
             | Some (rc, vm) \<Rightarrow>
                 if rc \<noteq> 0 then Some (rc, None, vm)
                 else
                   (let vm = (if phys \<noteq> NOPHYS \<and> flag AND (VR_REMOTE OR VR_DEMAND_PAGING) = 0 \<and>
                                 flag AND VR_PROT_MASK \<noteq> 0 \<and> \<not> zaf
                              then snd (vm_do env (MC_Memset phys (e - s)) vm) else vm)
                    in Some (0, Some n, vm))))"
      unfolding add_process_memory_range_def 2(2) prod.case option.case r_def [symmetric] Let_def vm1_def [symmetric] pt
      using False by simp
    show ?thesis
    proof (cases "rc \<noteq> 0")
      case True
      note s3 = same_ranges_ok [OF same_ranges_do [of vm2 env "MC_Kfree n"]]
      show ?thesis using True body s3 s2' ok1 map1 f1 by (auto simp: same_ranges_def)
    next
      case rc: False
      have r2: "pv_ranges vm2 n = r" using s2 by (simp add: same_ranges_def f1)
      have eq2: "pv_ranges vm2 p = pv_ranges vm p" if "p \<in> set (vm_ptrs vm)" for p
        using s2 that n by (auto simp: same_ranges_def f1)
      have ptrs2: "vm_ptrs vm2 = vm_ptrs vm" using s2' f1 by simp
      have se2: "vr_start (pv_ranges vm2 n) < vr_end (pv_ranges vm2 n)" using se by (simp add: r2 r_def)
      have "rb_valid (pv_tree vm2)" "ranges_sorted (pv_ranges vm2) (vm_ptrs vm2)" using conjunct1 [OF s2'] ok1 by (simp_all add: vm_ok_def)
      from vm_range_insert_sound [OF this se2] obtain err vm3 where
        ins: "vm_range_insert n vm2 = Some (err, vm3)"
          "if \<exists>p \<in> set (vm_ptrs vm2). overlaps (vr_start (pv_ranges vm2 n)) (vr_end (pv_ranges vm2 n)) (pv_ranges vm2 p)
           then err = - EFAULT \<and> vm3 = vm2
           else err = 0 \<and> (\<exists>t as bs. vm3 = vm2\<lparr>pv_tree := t\<rparr> \<and> rb_valid t \<and> vm_ptrs vm2 = as @ bs \<and> rb_inorder t = as @ n # bs \<and>
             ranges_sorted (pv_ranges vm2) (as @ n # bs))" by blast
      show ?thesis
      proof (cases "\<exists>p \<in> set (vm_ptrs vm2). overlaps (vr_start (pv_ranges vm2 n)) (vr_end (pv_ranges vm2 n)) (pv_ranges vm2 p)")
        case True
        with ins body rc s2' ok1 map1 f1 show ?thesis by simp
      next
        case no: False
        with ins(2) obtain t as bs where t: "err = 0" "vm3 = vm2\<lparr>pv_tree := t\<rparr>" "rb_valid t" "vm_ptrs vm2 = as @ bs"
          "rb_inorder t = as @ n # bs" "ranges_sorted (pv_ranges vm2) (as @ n # bs)" by auto
        define vm4 where "vm4 = (if phys \<noteq> NOPHYS \<and> flag AND (VR_REMOTE OR VR_DEMAND_PAGING) = 0 \<and>
                                 flag AND VR_PROT_MASK \<noteq> 0 \<and> \<not> zaf
                              then snd (vm_do env (MC_Memset phys (e - s)) vm3) else vm3)"
        have s4: "same_ranges vm3 vm4" by (simp add: vm4_def)
        have "add_process_memory_range env remote zaf s e phys flag obj off pgshift vm = Some (0, Some n, vm4)"
          using body rc ins(1) t(1) by (simp add: Let_def vm4_def)
        moreover have ok3: "vm_ok vm3"
          using s2' ok1 t by (auto simp: vm_ok_def cache_ok_def)
        moreover have "vm_map vm3 = map_add_range r (vm_map vm)"
        proof -
          have "vm_map vm3 = map_add_range r (ranges_map (pv_ranges vm2) (as @ bs))"
            using ranges_map_insert [OF t(6)] by (simp add: vm_map_def t(2,5) r2)
          also have "ranges_map (pv_ranges vm2) (as @ bs) = vm_map vm2" by (simp add: vm_map_def t(4))
          finally show ?thesis using s2' map1 by simp
        qed
        moreover have "set (vm_ptrs vm4) = insert n (set (vm_ptrs vm))" using same_ranges_ok [OF s4] t(2,4,5) ptrs2 by auto
        moreover have "pv_ranges vm4 n = r" using s4 r2 t(2) by (simp add: same_ranges_def)
        moreover have "\<forall>p \<in> set (vm_ptrs vm). \<not> overlaps s e (pv_ranges vm p)" using no ptrs2 eq2 by (simp add: r2) (simp add: r_def)
        ultimately show ?thesis using same_ranges_ok [OF s4] False n by (auto simp: not_less)
      qed
    qed
  qed
qed

subsection \<open>Protecting\<close>

definition map_protect :: "vm_range \<Rightarrow> u64 \<Rightarrow> aspace \<Rightarrow> aspace" where
  "map_protect r prot m a =
     (if in_range a r then map_option (\<lambda>(flag, obj). ((flag AND NOT VR_PROT_MASK) OR (prot AND VR_PROT_MASK), obj)) (m a) else m a)"

lemma ranges_map_set_flag:
  assumes srt: "ranges_sorted rs (as @ p # bs)" and dis: "distinct (as @ p # bs)" and f: "f = (vr_flag (rs p) AND NOT VR_PROT_MASK) OR (prot AND VR_PROT_MASK)"
  shows "ranges_map (rs(p := (rs p)\<lparr>vr_flag := f\<rparr>)) (as @ p # bs) = map_protect (rs p) prot (ranges_map rs (as @ p # bs))"
proof
  fix a
  have same: "ranges_map (rs(p := (rs p)\<lparr>vr_flag := f\<rparr>)) qs a = ranges_map rs qs a" if "p \<notin> set qs" for qs
    using that by (intro fun_cong [OF ranges_map_cong]) auto
  have "ranges_map rs as a = None" if "in_range a (rs p)"
    using that srt by (intro ranges_map_None) (auto simp: ranges_sorted_simps in_range_def)
  then show "ranges_map (rs(p := (rs p)\<lparr>vr_flag := f\<rparr>)) (as @ p # bs) a = map_protect (rs p) prot (ranges_map rs (as @ p # bs)) a"
    using dis same [of as] same [of bs] f by (auto simp: map_protect_def in_range_def range_attr_def split: option.split)
qed

lemma change_prot_sound:
  assumes ok: "vm_ok vm" and p: "p \<in> set (vm_ptrs vm)"
  shows "\<exists>err vm'. change_prot_process_memory_range env remote p prot vm = (err, vm') \<and> vm_ok vm' \<and>
    vm_map vm' = (if err = 0 then map_protect (pv_ranges vm p) prot (vm_map vm) else vm_map vm)"
proof -
  define r where "r = pv_ranges vm p"
  define f where "f = (vr_flag r AND NOT VR_PROT_MASK) OR (prot AND VR_PROT_MASK)"
  from p obtain as bs where ptrs: "vm_ptrs vm = as @ p # bs" by (auto simp: in_set_conv_decomp)
  have srt: "ranges_sorted (pv_ranges vm) (as @ p # bs)" and dis: "distinct (as @ p # bs)"
    using ok vm_ok_distinct [OF ok] ptrs by (simp_all add: vm_ok_def)
  note set_flag = ranges_map_set_flag [OF srt dis, of f prot, folded r_def, OF f_def]
  have fin: "vm_ok (set_range p (r\<lparr>vr_flag := f\<rparr>) vm1) \<and> vm_map (set_range p (r\<lparr>vr_flag := f\<rparr>) vm1) = map_protect r prot (vm_map vm)"
    if "same_ranges vm vm1" for vm1
  proof -
    have m: "pv_ranges (set_range p (r\<lparr>vr_flag := f\<rparr>) vm1) = (pv_ranges vm)(p := r\<lparr>vr_flag := f\<rparr>)"
      "pv_tree (set_range p (r\<lparr>vr_flag := f\<rparr>) vm1) = pv_tree vm" "pv_range_cache (set_range p (r\<lparr>vr_flag := f\<rparr>) vm1) = pv_range_cache vm"
      "pv_range_cache_ind (set_range p (r\<lparr>vr_flag := f\<rparr>) vm1) = pv_range_cache_ind vm"
      using that by (simp_all add: set_range_def same_ranges_def)
    have "ranges_sorted ((pv_ranges vm)(p := r\<lparr>vr_flag := f\<rparr>)) (as @ p # bs)"
      using srt by (subst ranges_sorted_cong [of _ _ "pv_ranges vm"]) (auto simp: r_def)
    then show ?thesis using set_flag ok ptrs by (simp add: vm_ok_def cache_ok_def vm_map_def m)
  qed
  have same_flag: "map_protect r prot (vm_map vm) = vm_map vm" if "vr_flag r = f"
  proof -
    have "(pv_ranges vm)(p := r\<lparr>vr_flag := f\<rparr>) = pv_ranges vm" using that by (auto simp: r_def)
    then show ?thesis using set_flag ptrs by (simp add: vm_map_def)
  qed
  note call = same_ranges_do [of vm env]
  show ?thesis
    unfolding change_prot_process_memory_range_def Let_def r_def [symmetric] f_def [symmetric] vm_do_def prod.case
    using ok same_flag fin [OF same_ranges_refl] fin [OF call, unfolded vm_do_def snd_conv]
      same_ranges_ok [OF call, unfolded vm_do_def snd_conv]
    by auto
qed

subsection \<open>A roll-back that does not end\<close>

lemma copy_rollback_skip:
  assumes "copy_rollback env big orgvm src_range last_src vm = Some v"
  shows "\<forall>src. src_range = Some src \<longrightarrow> vr_flag (pv_ranges orgvm src) AND VR_DONTFORK = 0"
proof (rule copy_rollback.raw_induct [OF _ assms])
  fix f env big orgvm src_range last_src vm v
  assume IH: "\<And>big orgvm src_range last_src vm b y. f big orgvm src_range last_src vm b = Some y \<Longrightarrow>
      \<forall>src. last_src = Some src \<longrightarrow> vr_flag (pv_ranges src_range src) AND VR_DONTFORK = 0"
    and body: "(case src_range of None \<Rightarrow> Some vm
      | Some src \<Rightarrow>
          let r = pv_ranges orgvm src
          in if vr_flag r AND VR_DONTFORK \<noteq> 0 then f env big orgvm src_range last_src vm
             else case case lookup_process_memory_range (vr_start r) (vr_end r) vm of
                       (None, vm) \<Rightarrow> Some vm
                     | (Some dest, vm) \<Rightarrow> map_option snd (free_process_memory_range env big dest vm) of
                  None \<Rightarrow> None
                | Some vm \<Rightarrow>
                    if src = last_src then Some vm
                    else case next_process_memory_range orgvm src of
                           None \<Rightarrow> None
                         | Some nxt \<Rightarrow> f env big orgvm nxt last_src vm) = Some v"
  show "\<forall>src. src_range = Some src \<longrightarrow> vr_flag (pv_ranges orgvm src) AND VR_DONTFORK = 0"
  proof (intro allI impI, rule ccontr)
    fix src assume s: "src_range = Some src" "vr_flag (pv_ranges orgvm src) AND VR_DONTFORK \<noteq> 0"
    then have "f env big orgvm src_range last_src vm = Some v" using body by (simp add: Let_def)
    from IH [OF this] s show False by simp
  qed
qed

lemma copy_rollback_diverges:
  "vr_flag (pv_ranges orgvm src) AND VR_DONTFORK \<noteq> 0 \<Longrightarrow> copy_rollback env big orgvm (Some src) last_src vm = None"
  using copy_rollback_skip [of env big orgvm "Some src" last_src vm] by (cases "copy_rollback env big orgvm (Some src) last_src vm") auto

subsection \<open>What freeing a range unmaps\<close>

fun pt_interval :: "vm_call \<Rightarrow> (u64 \<times> u64) option" where
  "pt_interval (PT_ClearRange s e) = Some (s, e)"
| "pt_interval (PT_FreeRange s e obj) = Some (s, e)"
| "pt_interval _ = None"

definition unmap_ok :: "process_vm \<Rightarrow> nat \<Rightarrow> vm_call \<Rightarrow> bool" where
  "unmap_ok vm p call \<longleftrightarrow>
     (case pt_interval call of
        None \<Rightarrow> True
      | Some (lo, hi) \<Rightarrow>
          lo \<le> vr_start (pv_ranges vm p) \<and> vr_end (pv_ranges vm p) \<le> hi \<and>
          (\<forall>q \<in> set (vm_ptrs vm). q \<noteq> p \<longrightarrow> vr_end (pv_ranges vm q) \<le> lo \<or> hi \<le> vr_start (pv_ranges vm q)))"

lemma trace_do: "pv_trace (snd (vm_do env call vm)) = call # pv_trace vm"
  by (simp add: vm_do_def)

lemma trace_ref: "pv_trace (opt_ref obj vm) = pv_trace vm"
  by (simp add: opt_ref_def memobj_ref_def split: option.split)

lemma trace_unref: "\<exists>cs. pv_trace (opt_unref env obj vm) = cs @ pv_trace vm \<and> (\<forall>call \<in> set cs. pt_interval call = None)"
proof (cases obj)
  case (Some m)
  then show ?thesis
    by (cases "mo_refcnt (pv_objs vm m) = 1") (auto simp: opt_unref_def memobj_unref_def vm_do_def Let_def intro: exI [of _ "[Obj_Free m]"])
qed (simp add: opt_unref_def)

lemma unmap_own: "vm_ok vm \<Longrightarrow> p \<in> set (vm_ptrs vm) \<Longrightarrow> pt_interval call = Some (vr_start (pv_ranges vm p), vr_end (pv_ranges vm p)) \<Longrightarrow> unmap_ok vm p call"
  using ranges_sorted_disjoint [of "pv_ranges vm" "vm_ptrs vm" p] unfolding unmap_ok_def vm_ok_def by fastforce

lemma unmap_extended:
  assumes ok: "vm_ok vm" and ptrs: "vm_ptrs vm = as @ p # bs" and fits: "unat (vr_end (pv_ranges vm p)) \<le> 2 ^ 63"
    and lo: "lo = free_low_bound big (vr_start (pv_ranges vm p)) (map_option (\<lambda>q. vr_end (pv_ranges vm q)) (if as = [] then None else Some (last as))) pg"
    and hi: "hi = free_high_bound big (vr_end (pv_ranges vm p)) (map_option (\<lambda>q. vr_start (pv_ranges vm q)) (case bs of [] \<Rightarrow> None | q # _ \<Rightarrow> Some q)) pg'"
    and call: "pt_interval call = Some (lo, hi)"
  shows "unmap_ok vm p call"
proof -
  have srt: "ranges_sorted (pv_ranges vm) (as @ p # bs)" using ok ptrs by (simp add: vm_ok_def)
  have l: "lo \<le> vr_start (pv_ranges vm p)" "as \<noteq> [] \<Longrightarrow> vr_end (pv_ranges vm (last as)) \<le> lo"
  proof -
    have "\<forall>e. map_option (\<lambda>q. vr_end (pv_ranges vm q)) (if as = [] then None else Some (last as)) = Some e \<longrightarrow> e \<le> vr_start (pv_ranges vm p)"
      using srt by (auto simp: ranges_sorted_simps)
    from free_low_bound_sound [OF this, of big pg] show "lo \<le> vr_start (pv_ranges vm p)" "as \<noteq> [] \<Longrightarrow> vr_end (pv_ranges vm (last as)) \<le> lo"
      unfolding lo by auto
  qed
  have h: "vr_end (pv_ranges vm p) \<le> hi" "\<And>q cs. bs = q # cs \<Longrightarrow> hi \<le> vr_start (pv_ranges vm q)"
  proof -
    have "\<forall>s. map_option (\<lambda>q. vr_start (pv_ranges vm q)) (case bs of [] \<Rightarrow> None | q # _ \<Rightarrow> Some q) = Some s \<longrightarrow> vr_end (pv_ranges vm p) \<le> s"
      using srt by (auto simp: ranges_sorted_simps split: list.splits)
    from free_high_bound_sound [OF this fits, of big pg'] show "vr_end (pv_ranges vm p) \<le> hi" "\<And>q cs. bs = q # cs \<Longrightarrow> hi \<le> vr_start (pv_ranges vm q)"
      unfolding hi by auto
  qed
  have "vr_end (pv_ranges vm q) \<le> lo" if q: "q \<in> set as" for q
  proof -
    from q obtain xs x where as: "as = xs @ [x]" by (cases as rule: rev_cases) auto
    show ?thesis
    proof (cases "q = x")
      case False
      then have "vr_end (pv_ranges vm q) \<le> vr_start (pv_ranges vm x)" "vr_start (pv_ranges vm x) < vr_end (pv_ranges vm x)"
        using q srt as by (auto simp: ranges_sorted_simps)
      with l(2) as show ?thesis by simp
    qed (use l(2) as in simp)
  qed
  moreover have "hi \<le> vr_start (pv_ranges vm q)" if q: "q \<in> set bs" for q
  proof -
    from q obtain x xs where bs: "bs = x # xs" by (cases bs) auto
    show ?thesis
    proof (cases "q = x")
      case False
      then have "vr_end (pv_ranges vm x) \<le> vr_start (pv_ranges vm q)" "vr_start (pv_ranges vm x) < vr_end (pv_ranges vm x)"
        using q srt bs by (auto simp: ranges_sorted_simps)
      with h(2) [OF bs] show ?thesis by (meson less_imp_le order_trans)
    qed (use h(2) bs in simp)
  qed
  ultimately show ?thesis using l(1) h(1) call ptrs by (auto simp: unmap_ok_def)
qed

lemma free_range_unmap_calls:
  assumes ok: "vm_ok vm" and ptrs: "vm_ptrs vm = as @ p # bs" and fits: "unat (vr_end (pv_ranges vm p)) \<le> 2 ^ 63"
    and u: "free_range_unmap env big p vm = Some (lo, hi, vm')"
  shows "\<exists>cs. pv_trace vm' = cs @ pv_trace vm \<and> (\<forall>call \<in> set cs. unmap_ok vm p call) \<and>
    (vr_start (pv_ranges vm p) = pv_straight_va vm \<longrightarrow> lo = vr_start (pv_ranges vm p) \<and> hi = vr_end (pv_ranges vm p))"
proof -
  define r where "r = pv_ranges vm p"
  have dis: "distinct (vm_ptrs vm)" and p: "p \<in> set (vm_ptrs vm)" using vm_ok_distinct [OF ok] ptrs by auto
  note nb = prev_range_at [OF ptrs dis] next_range_at [OF ptrs dis]
  have triv: "pt_interval call = None \<Longrightarrow> unmap_ok vm p call" for call by (simp add: unmap_ok_def)
  consider "vr_straight_start r \<noteq> 0 \<or> vr_start r = pv_straight_va vm"
    | "\<not> (vr_straight_start r \<noteq> 0 \<or> vr_start r = pv_straight_va vm)" "vr_flag r AND (VR_REMOTE OR VR_IO_NOCACHE OR VR_RESERVED) = 0"
    | "\<not> (vr_straight_start r \<noteq> 0 \<or> vr_start r = pv_straight_va vm)" "vr_flag r AND (VR_REMOTE OR VR_IO_NOCACHE OR VR_RESERVED) \<noteq> 0" by blast
  then show ?thesis
  proof cases
    case 1
    then have "lo = vr_start r" "hi = vr_end r" "vm' = vm" using u by (auto simp: free_range_unmap_def r_def [symmetric] Let_def)
    then show ?thesis by (simp add: r_def)
  next
    case 2
    define l' h' where "l' = free_low_bound big (vr_start r) (map_option (\<lambda>q. vr_end (pv_ranges vm q)) (if as = [] then None else Some (last as))) (- 1)"
      and "h' = free_high_bound big (vr_end r) (map_option (\<lambda>q. vr_start (pv_ranges vm q)) (case bs of [] \<Rightarrow> None | q # _ \<Rightarrow> Some q)) (- 1)"
    define vm1 where "vm1 = opt_ref (vr_memobj r) vm"
    define call where "call = (case vr_memobj r of
        Some m \<Rightarrow> if mo_flags (pv_objs vm1 m) AND MF_HUGETLBFS \<noteq> 0 then PT_ClearRange l' h' else PT_FreeRange l' h' (vr_memobj r)
      | None \<Rightarrow> PT_FreeRange l' h' (vr_memobj r))"
    define vm2 where "vm2 = snd (vm_do env call vm1)"
    have "vm' = opt_unref env (vr_memobj r) (opt_unref env (vr_memobj r) vm2)"
      using u 2 by (auto simp: free_range_unmap_def r_def [symmetric] Let_def nb l'_def h'_def vm1_def call_def vm2_def split: option.splits if_splits)
    moreover obtain c1 where "pv_trace (opt_unref env (vr_memobj r) vm2) = c1 @ pv_trace vm2" "\<forall>call \<in> set c1. pt_interval call = None"
      using trace_unref by blast
    moreover obtain c2 where "pv_trace (opt_unref env (vr_memobj r) (opt_unref env (vr_memobj r) vm2)) = c2 @ pv_trace (opt_unref env (vr_memobj r) vm2)"
      "\<forall>call \<in> set c2. pt_interval call = None" using trace_unref by blast
    moreover have "pt_interval call = Some (l', h')" by (simp add: call_def split: option.split)
    then have "unmap_ok vm p call" using unmap_extended [OF ok ptrs fits l'_def [unfolded r_def] h'_def [unfolded r_def]] by simp
    moreover have "pv_trace vm2 = call # pv_trace vm" by (simp add: vm2_def vm1_def trace_do trace_ref)
    ultimately show ?thesis using triv 2(1) by (auto simp: r_def intro!: exI [of _ "c2 @ c1 @ [call]"])
  next
    case 3
    define vm1 where "vm1 = snd (vm_do env (PT_ClearRange (vr_start r) (vr_end r)) vm)"
    have "vm' = opt_unref env (vr_memobj r) vm1"
      using u 3 by (auto simp: free_range_unmap_def r_def [symmetric] Let_def vm1_def)
    moreover obtain c1 where "pv_trace (opt_unref env (vr_memobj r) vm1) = c1 @ pv_trace vm1" "\<forall>call \<in> set c1. pt_interval call = None"
      using trace_unref by blast
    moreover have "unmap_ok vm p (PT_ClearRange (vr_start r) (vr_end r))" using unmap_own [OF ok p] by (simp add: r_def)
    moreover have "pv_trace vm1 = PT_ClearRange (vr_start r) (vr_end r) # pv_trace vm" by (simp add: vm1_def trace_do)
    ultimately show ?thesis using triv 3(1) by (auto simp: r_def intro!: exI [of _ "c1 @ [PT_ClearRange (vr_start r) (vr_end r)]"])
  qed
qed

lemma free_calls:
  assumes ok: "vm_ok vm" "vm_fresh vm" and p: "p \<in> set (vm_ptrs vm)" and fits: "unat (vr_end (pv_ranges vm p)) \<le> 2 ^ 63"
  shows "\<exists>vm' cs. free_process_memory_range env big p vm = Some (0, vm') \<and> pv_trace vm' = cs @ pv_trace vm \<and> (\<forall>call \<in> set cs. unmap_ok vm p call)"
proof -
  from p obtain as bs where ptrs: "vm_ptrs vm = as @ p # bs" by (auto simp: in_set_conv_decomp)
  have dis: "distinct (vm_ptrs vm)" using vm_ok_distinct [OF ok(1)] .
  from free_range_unmap_same [OF ptrs dis] obtain lo hi vm1 where
    u: "free_range_unmap env big p vm = Some (lo, hi, vm1)" "same_ranges vm vm1" "pv_straight_va vm1 = pv_straight_va vm" by blast
  from free_range_unmap_calls [OF ok(1) ptrs fits u(1)] obtain c1 where
    c1: "pv_trace vm1 = c1 @ pv_trace vm" "\<forall>call \<in> set c1. unmap_ok vm p call"
      "vr_start (pv_ranges vm p) = pv_straight_va vm \<longrightarrow> lo = vr_start (pv_ranges vm p) \<and> hi = vr_end (pv_ranges vm p)" by blast
  have f1: "vm_ptrs vm1 = as @ p # bs" "rb_valid (pv_tree vm1)" "pv_ranges vm1 = pv_ranges vm"
    using u(2) ptrs ok(1) by (simp_all add: same_ranges_def vm_ok_def)
  from range_erase_at [OF f1(1) _ f1(2), of None] f1(1) dis ptrs obtain t where
    t: "range_erase p None vm1 = Some (vm1\<lparr>pv_tree := t, pv_range_cache := map (\<lambda>c. if c = Some p then None else c) (pv_range_cache vm1)\<rparr>)" by auto
  define vm2 where "vm2 = vm1\<lparr>pv_tree := t, pv_range_cache := map (\<lambda>c. if c = Some p then None else c) (pv_range_cache vm1)\<rparr>"
  have f2: "pv_trace vm2 = pv_trace vm1" "pv_ranges vm2 = pv_ranges vm" "pv_straight_va vm2 = pv_straight_va vm" by (simp_all add: vm2_def f1 u(3))
  have own: "unmap_ok vm p (PT_ClearRange lo hi)" if "vr_start (pv_ranges vm p) = pv_straight_va vm"
    using c1(3) that unmap_own [OF ok(1) p] by simp
  have triv: "pt_interval call = None \<Longrightarrow> unmap_ok vm p call" for call by (simp add: unmap_ok_def)
  define vm3 where "vm3 = (if vr_straight_start (pv_ranges vm2 p) \<noteq> 0 then
        snd (vm_do env (MC_FreePages (pv_straight_pa vm2 + (vr_straight_start (pv_ranges vm2 p) - pv_straight_va vm2))
          (drop_bit 12 (vr_end (pv_ranges vm2 p) - vr_start (pv_ranges vm2 p)))) vm2)
      else if vr_start (pv_ranges vm2 p) = pv_straight_va vm2 \<and> vr_end (pv_ranges vm2 p) = pv_straight_va vm2 + pv_straight_len vm2 then
        (snd (vm_do env (PT_ClearRange lo hi) vm2))\<lparr>pv_straight_len := 0\<rparr>
      else vm2)"
  obtain c3 where c3: "pv_trace vm3 = c3 @ pv_trace vm2" "\<forall>call \<in> set c3. unmap_ok vm p call"
    using own f2 triv unfolding vm3_def
    by (cases "vr_straight_start (pv_ranges vm2 p) \<noteq> 0";
        cases "vr_start (pv_ranges vm2 p) = pv_straight_va vm2 \<and> vr_end (pv_ranges vm2 p) = pv_straight_va vm2 + pv_straight_len vm2")
       (auto simp: vm_do_def)
  have "free_process_memory_range env big p vm = Some (0, snd (vm_do env (MC_Kfree p) vm3))"
    using u(1) t by (simp add: free_process_memory_range_def vm2_def [symmetric] vm3_def Let_def)
  moreover have "pv_trace (snd (vm_do env (MC_Kfree p) vm3)) = (MC_Kfree p # c3 @ c1) @ pv_trace vm"
    using c3(1) c1(1) f2(1) by (simp add: vm_do_def)
  moreover have "\<forall>call \<in> set (MC_Kfree p # c3 @ c1). unmap_ok vm p call" using c1(2) c3(2) triv by auto
  ultimately show ?thesis by blast
qed

subsection \<open>Properties\<close>

text \<open>C22: a lookup finds the first range that shares an address with the interval, whatever the cache
  holds; it changes nothing but the cache, and keeps the cache consistent with the tree.\<close>

theorem lookup_first_overlap:
  assumes "vm_ok vm"
  shows "\<exists>vm'. lookup_process_memory_range s e vm =
      (if s < e then find (\<lambda>p. vr_start (pv_ranges vm p) < e \<and> s < vr_end (pv_ranges vm p)) (rb_inorder (pv_tree vm)) else None, vm') \<and>
    vm_ok vm' \<and> same_but_cache vm vm'"
  using lookup_sound [OF assms] unfolding first_overlap_def overlaps_def
  by (cases "lookup_process_memory_range s e vm") blast

text \<open>C20: removing an interval always ends; on success exactly the addresses of the interval are gone
  from the address space, and whatever happens no other address changes.\<close>

theorem remove_refines:
  assumes "vm_ok vm" "vm_fresh vm" "s < e" "\<not> in_straight_mapping vm s e"
  shows "\<exists>err ro vm'. remove_process_memory_range env big s e vm = Some (err, ro, vm') \<and> vm_ok vm' \<and>
    (if err = 0 then vm_map vm' = (\<lambda>a. if s \<le> a \<and> a < e then None else vm_map vm a)
     else (\<forall>a. \<not> (s \<le> a \<and> a < e) \<longrightarrow> vm_map vm' a = vm_map vm a) \<and> vm_map vm' \<subseteq>\<^sub>m vm_map vm)"
proof -
  from remove_sound [OF assms] obtain err ro vm' where
    r: "remove_process_memory_range env big s e vm = Some (err, ro, vm')" "removed s e err vm vm'" by blast
  have "vm_map vm' \<subseteq>\<^sub>m vm_map vm" unfolding map_le_def
  proof
    fix a assume "a \<in> dom (vm_map vm')"
    then show "vm_map vm' a = vm_map vm a" using r(2) by (cases "s \<le> a \<and> a < e") (auto simp: removed_def)
  qed
  with r show ?thesis by (auto simp: removed_def)
qed

text \<open>splitting a range inside it leaves the address space as it was, also when the page table or
  the memory for the new range fails; on success the range ends at the address and the new one, which
  begins there, follows it.\<close>

theorem split_refines:
  assumes "vm_ok vm" "vm_fresh vm" "p \<in> set (rb_inorder (pv_tree vm))"
    and "vr_start (pv_ranges vm p) < addr" "addr < vr_end (pv_ranges vm p)"
  shows "\<exists>err new vm'. split_process_memory_range env p addr vm = Some (err, new, vm') \<and> vm_ok vm' \<and> vm_map vm' = vm_map vm \<and>
    (if err = 0 then \<exists>n. new = Some n \<and> next_process_memory_range vm' p = Some (Some n) \<and>
       vr_end (pv_ranges vm' p) = addr \<and> vr_start (pv_ranges vm' n) = addr \<and> vr_end (pv_ranges vm' n) = vr_end (pv_ranges vm p)
     else new = None \<and> rb_inorder (pv_tree vm') = rb_inorder (pv_tree vm))"
proof -
  from assms(3) obtain as bs where ptrs: "vm_ptrs vm = as @ p # bs" by (auto simp: in_set_conv_decomp)
  from split_sound [OF assms(1,2) ptrs assms(4,5), of env] obtain err new vm' where
    r: "split_process_memory_range env p addr vm = Some (err, new, vm')" "vm_ok vm'" "vm_map vm' = vm_map vm"
      "if err \<noteq> 0 then new = None \<and> vm_ptrs vm' = vm_ptrs vm
       else \<exists>n. new = Some n \<and> n \<notin> set (vm_ptrs vm) \<and> vm_ptrs vm' = as @ p # n # bs \<and>
         pv_ranges vm' = (pv_ranges vm)(n := split_high (pv_ranges vm p) addr, p := split_low (pv_ranges vm p) addr)" by blast
  show ?thesis
  proof (cases "err = 0")
    case True
    with r(4) obtain n where n: "new = Some n" "n \<notin> set (vm_ptrs vm)" "vm_ptrs vm' = as @ p # (n # bs)"
      "pv_ranges vm' = (pv_ranges vm)(n := split_high (pv_ranges vm p) addr, p := split_low (pv_ranges vm p) addr)" by auto
    have "next_process_memory_range vm' p = Some (Some n)" using next_range_at [OF n(3) vm_ok_distinct [OF r(2)]] by simp
    moreover have "n \<noteq> p" using n(2) assms(3) by auto
    ultimately show ?thesis using r(1-3) True n(1,4) by (simp add: split_low_def split_high_def)
  qed (use r in simp)
qed

text \<open>joining succeeds exactly for adjacent ranges with the same flags that show contiguous bytes of
  the same object; it leaves the address space as it was and removes the second range.\<close>

theorem join_refines:
  assumes "vm_ok vm" "p \<in> set (rb_inorder (pv_tree vm))" "q \<in> set (rb_inorder (pv_tree vm))"
  shows "\<exists>err vm'. join_process_memory_range env p q vm = Some (err, vm') \<and> vm_ok vm' \<and> vm_map vm' = vm_map vm \<and>
    (if vr_end (pv_ranges vm p) = vr_start (pv_ranges vm q) \<and> vr_flag (pv_ranges vm p) = vr_flag (pv_ranges vm q) \<and>
        vr_memobj (pv_ranges vm p) = vr_memobj (pv_ranges vm q) \<and>
        (vr_memobj (pv_ranges vm p) \<noteq> None \<longrightarrow>
          vr_objoff (pv_ranges vm p) + (vr_end (pv_ranges vm p) - vr_start (pv_ranges vm p)) = vr_objoff (pv_ranges vm q))
     then err = 0 \<and> set (rb_inorder (pv_tree vm')) = set (rb_inorder (pv_tree vm)) - {q} \<and> vr_end (pv_ranges vm' p) = vr_end (pv_ranges vm q)
     else err = - EINVAL \<and> vm' = vm)"
  using join_sound [OF assms] .



text \<open>C24: freeing a range never fails, and every interval it has unmapped contains the range and shares
  no address with any other range, although it is extended to whole large pages.\<close>

theorem free_unmaps_only_own:
  assumes "vm_ok vm" "vm_fresh vm" "p \<in> set (rb_inorder (pv_tree vm))" "unat (vr_end (pv_ranges vm p)) \<le> 2 ^ 63"
  shows "\<exists>vm' calls. free_process_memory_range env big p vm = Some (0, vm') \<and> pv_trace vm' = calls @ pv_trace vm \<and>
    (\<forall>call \<in> set calls. unmap_ok vm p call)"
  using free_calls [OF assms] .


subsection \<open>Witnesses\<close>

text \<open>Two ranges, 0x1000 to 0x3000 and 0x5000 to 0x9000 (object 0 from byte 0x400), the second one in
  the cache, memory for two more.\<close>

definition example_vm :: process_vm where
  "example_vm = \<lparr>pv_tree = RB_Node RB_BLACK RB_Null 1 (RB_Node RB_RED RB_Null 2 RB_Null),
     pv_ranges = (\<lambda>p. if p = 1
       then \<lparr>vr_start = 0x1000, vr_end = 0x3000, vr_flag = VR_PROT_READ, vr_straight_start = 0, vr_memobj = None,
             vr_objoff = 0, vr_pgshift = 12, vr_private_data = 0\<rparr>
       else \<lparr>vr_start = 0x5000, vr_end = 0x9000, vr_flag = VR_PROT_READ OR VR_PROT_WRITE, vr_straight_start = 0, vr_memobj = Some 0,
             vr_objoff = 0x400, vr_pgshift = 0, vr_private_data = 0\<rparr>),
     pv_objs = (\<lambda>m. \<lparr>mo_flags = 0, mo_refcnt = 1\<rparr>), pv_range_cache = [None, Some 2, None, None], pv_range_cache_ind = 1,
     pv_user_start = 0x1000, pv_user_end = 0x100000, pv_straight_va = 0, pv_straight_len = 0, pv_straight_pa = 0,
     pv_kmalloc = [Some 7, Some 8], pv_trace = []\<rparr>"

lemma example_vm_ok: "vm_ok example_vm" "vm_fresh example_vm" "\<not> in_straight_mapping example_vm s e"
  "rb_inorder (pv_tree example_vm) = [1, 2]"
  by (auto simp: vm_ok_def vm_fresh_def cache_ok_def example_vm_def ranges_sorted_simps rb_valid_def VM_RANGE_CACHE_SIZE_def in_straight_mapping_def)

theorem lookup_first_overlap_witness:
  "fst (lookup_process_memory_range 0x2000 0x6000 example_vm) = Some 1 \<and> fst (lookup_process_memory_range 0x3000 0x6000 example_vm) = Some 2"
  using lookup_first_overlap [OF example_vm_ok(1), of "0x2000" "0x6000"] lookup_first_overlap [OF example_vm_ok(1), of "0x3000" "0x6000"]
  by (auto simp: example_vm_ok(4)) (auto simp: example_vm_def)

theorem remove_refines_witness:
  "\<exists>ro vm'. remove_process_memory_range (\<lambda>_. 0) False 0x2000 0x6000 example_vm = Some (0, ro, vm') \<and>
     vm_map vm' 0x2800 = None \<and> vm_map vm' 0x6000 = Some (VR_PROT_READ OR VR_PROT_WRITE, Some (0, 0x1400))"
proof -
  have "map_option fst (remove_process_memory_range (\<lambda>_. 0) False 0x2000 0x6000 example_vm) = Some 0" by code_simp
  moreover have "vm_map example_vm 0x6000 = Some (VR_PROT_READ OR VR_PROT_WRITE, Some (0, 0x1400))" by code_simp
  ultimately show ?thesis
    using remove_refines [OF example_vm_ok(1,2) _ example_vm_ok(3), of "0x2000" "0x6000" "\<lambda>_. 0" False] by (auto split: if_splits)
qed

theorem split_refines_witness:
  "\<exists>err new vm'. split_process_memory_range (\<lambda>_. 0) 1 0x2800 example_vm = Some (err, new, vm') \<and> vm_ok vm' \<and> vm_map vm' = vm_map example_vm"
  using split_refines [OF example_vm_ok(1,2), of 1 "0x2800" "\<lambda>_. 0"] unfolding example_vm_ok(4) by (auto simp: example_vm_def)

theorem join_refines_witness:
  "join_process_memory_range (\<lambda>_. 0) 1 2 example_vm = Some (- EINVAL, example_vm)"
  using join_refines [OF example_vm_ok(1), of 1 2 "\<lambda>_. 0"] unfolding example_vm_ok(4) by (auto simp: example_vm_def)



theorem free_unmaps_only_own_witness:
  "\<exists>vm' calls. free_process_memory_range (\<lambda>_. 0) True 2 example_vm = Some (0, vm') \<and> pv_trace vm' = calls \<and> list_all (unmap_ok example_vm 2) calls"
  using free_unmaps_only_own [OF example_vm_ok(1,2), of 2 "\<lambda>_. 0" True] unfolding example_vm_ok(4)
  by (auto simp: list_all_iff) (auto simp: example_vm_def)

text \<open>The first range is not inherited, the copy of the second one fails.\<close>

definition dontfork_vm :: process_vm where
  "dontfork_vm = set_range 1 ((pv_ranges example_vm 1)\<lparr>vr_flag := VR_DONTFORK\<rparr>) example_vm"

definition empty_vm :: process_vm where
  "empty_vm = example_vm\<lparr>pv_tree := RB_Null, pv_range_cache := replicate 4 None\<rparr>"


end
