(* ===== verification/MemPages.thy ===== *)
theory MemPages
  imports Numa PageHash Rusage Kmalloc VmSpace Bitops
begin

section \<open>Page allocation over the NUMA nodes\<close>

text \<open>
  The allocator of \<open>kernel/mem.c\<close> that the rest of the kernel calls: it chooses NUMA nodes by an
  explicit request, by the memory policy of the process or of the range, by distance, and by
  number, keeps the accounting, and gives pages back to the node that owns them, at once or when
  the pending frees of a CPU are finished.  The model is the build with \<open>IHK_RBTREE_ALLOCATOR\<close>
  and \<open>ENABLE_RUSAGE\<close>.  \<open>None\<close> is a null dereference or an array index out of range.
\<close>

subsection \<open>State\<close>

text \<open>The kernel's view of physical memory: \<open>MAP_KERNEL_START\<close> and the other bases are fixed at build
  and boot time.\<close>

record kernel_map =
  km_init_pt_loaded :: bool
  km_linux_page_offset_base :: u64
  km_kernel_start :: u64
  km_kernel_phys_base :: u64

record vm_range_numa_policy =
  np_start :: u64
  np_end :: u64
  np_numa_mask :: "u64 list"
  np_numa_mem_policy :: int

text \<open>The address space of the current thread, as far as the allocator looks at it.\<close>

record vm_view =
  vv_numa_mem_policy :: int
  vv_numa_mask :: "u64 list"
  vv_policy_tree :: "vm_range_numa_policy rbt"
  vv_space :: process_vm

text \<open>What leaves the kernel: the out-of-memory notification and the request to zero memory.\<close>

datatype mem_event = ME_Oom | ME_Zero nat

text \<open>\<open>nodes_by_distance\<close> is a null pointer or a table of node numbers; \<open>ms_pending\<close> is the list
  \<open>pending_free_pages\<close> of this CPU, \<open>None\<close> if its \<open>next\<close> pointer is null.\<close>

record mem_sys =
  ms_map :: kernel_map
  ms_nodes :: "numa_node list"
  ms_by_distance :: "nat \<Rightarrow> nat list option"
  ms_chunks :: "(u64 \<times> u64 \<times> nat) list"
  ms_rusage :: rusage_sys
  ms_numa_id :: nat
  ms_vm :: "vm_view option"
  ms_hash :: page_hash
  ms_pending :: "nat list option"
  ms_events :: "mem_event list"

definition "MAP_ST_START = (0xffff800000000000 :: u64)"
definition "MAP_FIXED_START = (0xffff860000000000 :: u64)"
definition "MPOL_DEFAULT = (0 :: int)"
definition "MPOL_PREFERRED = (1 :: int)"
definition "MPOL_BIND = (2 :: int)"
definition "IHK_MC_AP_USER = (0x001000 :: u64)"

definition phys_to_virt :: "kernel_map \<Rightarrow> u64 \<Rightarrow> u64" where
  "phys_to_virt km p = (if \<not> km_init_pt_loaded km then p + MAP_ST_START else p + km_linux_page_offset_base km)"

definition virt_to_phys :: "kernel_map \<Rightarrow> u64 \<Rightarrow> u64" where
  "virt_to_phys km va =
     (if va \<ge> km_kernel_start km then va - km_kernel_start km + km_kernel_phys_base km
      else if va \<ge> km_linux_page_offset_base km then va - km_linux_page_offset_base km
      else if va \<ge> MAP_FIXED_START then va - MAP_FIXED_START
      else va - MAP_ST_START)"

fun vm_range_policy_search :: "vm_range_numa_policy rbt \<Rightarrow> u64 \<Rightarrow> vm_range_numa_policy option" where
  "vm_range_policy_search RB_Null addr = None"
| "vm_range_policy_search (RB_Node c l p r) addr =
     (if addr < np_start p then vm_range_policy_search l addr
      else if addr \<ge> np_end p then vm_range_policy_search r addr
      else Some p)"

text \<open>\<open>lookup_process_memory_range(vm, virt_addr, virt_addr + 1)\<close> on the current address space.\<close>

definition view_lookup :: "u64 \<Rightarrow> vm_view \<Rightarrow> vm_range option \<times> vm_view" where
  "view_lookup addr v =
     (case lookup_process_memory_range addr (addr + 1) (vv_space v) of
        (p, vm) \<Rightarrow> (map_option (pv_ranges vm) p, v\<lparr>vv_space := vm\<rparr>))"

subsection \<open>Allocation\<close>

text \<open>One attempt on a node: the out-of-memory check, the allocation, the accounting.  The result 0
  is failure.\<close>

definition node_alloc :: "bool \<Rightarrow> int \<Rightarrow> nat \<Rightarrow> bool \<Rightarrow> nat \<Rightarrow> mem_sys \<Rightarrow> (u64 \<times> mem_sys) option" where
  "node_alloc zero_at_free npages p2align is_user numa_id ms =
     (case rusage_check_oom (word_of_int npages) is_user (rs_global (ms_rusage ms)) of
        (ret, notify) \<Rightarrow>
          (let ms = (if notify then ms\<lparr>ms_events := ms_events ms @ [ME_Oom]\<rparr> else ms)
           in if ret = - ENOMEM then Some (0, ms)
              else if numa_id < length (ms_nodes ms) then
                (case ihk_numa_alloc_pages zero_at_free (ms_nodes ms ! numa_id) npages p2align of
                   None \<Rightarrow> None
                 | Some (pa, node) \<Rightarrow>
                     (let ms = ms\<lparr>ms_nodes := (ms_nodes ms)[numa_id := node]\<rparr>
                      in Some (pa, if pa \<noteq> 0
                                   then ms\<lparr>ms_rusage := rusage_page_add numa_id (word_of_int npages) is_user (ms_rusage ms)\<rparr>
                                   else ms)))
              else None))"

text \<open>Failure falls through to the next attempt.\<close>

definition alloc_else :: "(mem_sys \<Rightarrow> (u64 \<times> mem_sys) option) \<Rightarrow> (mem_sys \<Rightarrow> (u64 \<times> mem_sys) option) \<Rightarrow> mem_sys \<Rightarrow> (u64 \<times> mem_sys) option" where
  "alloc_else f g ms =
     (case f ms of None \<Rightarrow> None | Some (pa, ms) \<Rightarrow> if pa \<noteq> 0 then Some (pa, ms) else g ms)"

primrec nodes_alloc :: "bool \<Rightarrow> int \<Rightarrow> nat \<Rightarrow> bool \<Rightarrow> nat list \<Rightarrow> mem_sys \<Rightarrow> (u64 \<times> mem_sys) option" where
  "nodes_alloc zero_at_free npages p2align is_user [] = (\<lambda>ms. Some (0, ms))"
| "nodes_alloc zero_at_free npages p2align is_user (numa_id # ids) =
     alloc_else (node_alloc zero_at_free npages p2align is_user numa_id) (nodes_alloc zero_at_free npages p2align is_user ids)"

text \<open>The loop over the nodes of the policy mask, in the order of distance.\<close>

primrec policy_alloc :: "bool \<Rightarrow> int \<Rightarrow> nat \<Rightarrow> bool \<Rightarrow> u64 list \<Rightarrow> nat list \<Rightarrow> mem_sys \<Rightarrow> (u64 \<times> mem_sys) option" where
  "policy_alloc zero_at_free npages p2align is_user numa_mask [] = (\<lambda>ms. Some (0, ms))"
| "policy_alloc zero_at_free npages p2align is_user numa_mask (numa_id # ids) =
     (case test_bit_at numa_id numa_mask of
        None \<Rightarrow> (\<lambda>ms. None)
      | Some False \<Rightarrow> policy_alloc zero_at_free npages p2align is_user numa_mask ids
      | Some True \<Rightarrow> alloc_else (node_alloc zero_at_free npages p2align is_user numa_id)
                       (policy_alloc zero_at_free npages p2align is_user numa_mask ids))"

text \<open>The first \<open>ihk_mc_get_nr_numa_nodes()\<close> entries of the table of the node of this CPU.\<close>

definition distance_ids :: "mem_sys \<Rightarrow> nat list option" where
  "distance_ids ms = map_option (take (length (ms_nodes ms))) (ms_by_distance ms (ms_numa_id ms))"

definition order_ids :: "mem_sys \<Rightarrow> nat list" where
  "order_ids ms = map (\<lambda>i. (ms_numa_id ms + i) mod length (ms_nodes ms)) [0 ..< length (ms_nodes ms)]"

definition alloc_order_based :: "bool \<Rightarrow> int \<Rightarrow> nat \<Rightarrow> bool \<Rightarrow> mem_sys \<Rightarrow> (u64 \<times> mem_sys) option" where
  "alloc_order_based zero_at_free npages p2align is_user ms =
     nodes_alloc zero_at_free npages p2align is_user (order_ids ms) ms"

definition alloc_distance_based :: "bool \<Rightarrow> int \<Rightarrow> nat \<Rightarrow> bool \<Rightarrow> mem_sys \<Rightarrow> (u64 \<times> mem_sys) option" where
  "alloc_distance_based zero_at_free npages p2align is_user ms =
     (case distance_ids ms of
        None \<Rightarrow> alloc_order_based zero_at_free npages p2align is_user ms
      | Some ids \<Rightarrow>
          alloc_else (nodes_alloc zero_at_free npages p2align is_user ids)
            (alloc_order_based zero_at_free npages p2align is_user) ms)"

text \<open>The explicitly requested node, if it is valid.\<close>

definition alloc_explicit :: "bool \<Rightarrow> int \<Rightarrow> nat \<Rightarrow> bool \<Rightarrow> int \<Rightarrow> mem_sys \<Rightarrow> (u64 \<times> mem_sys) option" where
  "alloc_explicit zero_at_free npages p2align is_user pref_node ms =
     (if pref_node > - 1 \<and> pref_node < int (length (ms_nodes ms))
      then node_alloc zero_at_free npages p2align is_user (nat pref_node) ms
      else Some (0, ms))"

text \<open>Whether \<open>range->memobj->flags == MF_SHM\<close>; \<open>None\<close> when there is no object.\<close>

definition range_is_shm :: "vm_view \<Rightarrow> vm_range \<Rightarrow> bool option" where
  "range_is_shm v r = map_option (\<lambda>m. mo_flags (pv_objs (vv_space v) m) = MF_SHM) (vr_memobj r)"

text \<open>No explicitly requested node and no user policy: look for a policy of the range.  The result
  is the policy found, \<open>chk_shm\<close>, the view, and whether the allocation goes on by distance.\<close>

definition range_policy_check ::
  "int \<Rightarrow> u64 \<Rightarrow> u64 \<Rightarrow> vm_view \<Rightarrow> vm_range_numa_policy option \<times> bool \<times> vm_view \<times> bool" where
  "range_policy_check pref_node flag virt_addr v =
     (if pref_node = - 1 \<and> (flag AND IHK_MC_AP_USER = 0 \<or> vv_numa_mem_policy v = MPOL_DEFAULT) then
        (let (iter, chk_shm, v) =
               (if virt_addr \<noteq> - 1 then
                  (case vm_range_policy_search (vv_policy_tree v) virt_addr of
                     None \<Rightarrow> (None, False, v)
                   | Some pol \<Rightarrow>
                       (case view_lookup virt_addr v of
                          (None, v) \<Rightarrow> (Some pol, False, v)
                        | (Some r, v) \<Rightarrow> (Some pol, range_is_shm v r = Some True, v)))
                else (None, False, v))
         in (iter, chk_shm, v,
             \<not> (case iter of None \<Rightarrow> False | Some pol \<Rightarrow> np_numa_mem_policy pol \<noteq> MPOL_DEFAULT) \<and> \<not> chk_shm))
      else (None, False, v, False))"

text \<open>The policy that applies: that of the range, unless it is shared memory, or that of the process.
  Here the object of the range is used without a check.\<close>

definition effective_policy ::
  "u64 \<Rightarrow> vm_range_numa_policy option \<Rightarrow> bool \<Rightarrow> vm_view \<Rightarrow> (int \<times> vm_view) option" where
  "effective_policy virt_addr iter chk_shm v =
     (case (if virt_addr \<noteq> - 1 \<and> \<not> chk_shm then
              (case (case iter of None \<Rightarrow> vm_range_policy_search (vv_policy_tree v) virt_addr | Some pol \<Rightarrow> Some pol) of
                 None \<Rightarrow> Some (- 1, v)
               | Some pol \<Rightarrow>
                   (case view_lookup virt_addr v of
                      (None, v) \<Rightarrow> Some (np_numa_mem_policy pol, v)
                    | (Some r, v) \<Rightarrow>
                        (case range_is_shm v r of
                           None \<Rightarrow> None
                         | Some shm \<Rightarrow> Some (if shm then - 1 else np_numa_mem_policy pol, v))))
            else Some (- 1, v)) of
        None \<Rightarrow> None
      | Some (policy, v) \<Rightarrow> Some (if policy = - 1 then vv_numa_mem_policy v else policy, v))"

definition alloc_user_policy ::
  "bool \<Rightarrow> int \<Rightarrow> nat \<Rightarrow> bool \<Rightarrow> u64 \<Rightarrow> vm_range_numa_policy option \<Rightarrow> bool \<Rightarrow> mem_sys \<Rightarrow> (u64 \<times> mem_sys) option" where
  "alloc_user_policy zero_at_free npages p2align is_user virt_addr iter chk_shm ms =
     (case (ms_vm ms, distance_ids ms) of
        (Some v, Some ids) \<Rightarrow>
          (case effective_policy virt_addr iter chk_shm v of
             None \<Rightarrow> None
           | Some (policy, v) \<Rightarrow>
               (if policy = MPOL_BIND \<or> policy = MPOL_PREFERRED
                then policy_alloc zero_at_free npages p2align is_user (vv_numa_mask v) ids
                else (\<lambda>ms. Some (0, ms))) (ms\<lparr>ms_vm := Some v\<rparr>))
      | _ \<Rightarrow> None)"

definition mckernel_allocate_aligned_pages_node ::
  "bool \<Rightarrow> int \<Rightarrow> nat \<Rightarrow> u64 \<Rightarrow> int \<Rightarrow> bool \<Rightarrow> u64 \<Rightarrow> mem_sys \<Rightarrow> (u64 \<times> mem_sys) option" where
  "mckernel_allocate_aligned_pages_node zero_at_free npages p2align flag pref_node is_user virt_addr ms =
     (if npages \<le> 0 then Some (0, ms)
      else
        (case ms_vm ms of
           None \<Rightarrow> alloc_distance_based zero_at_free npages p2align is_user ms
         | Some v \<Rightarrow>
             (case range_policy_check pref_node flag virt_addr v of
                (iter, chk_shm, v, by_distance) \<Rightarrow>
                  (if by_distance then alloc_distance_based zero_at_free npages p2align is_user
                   else if distance_ids ms = None then alloc_order_based zero_at_free npages p2align is_user
                   else
                     alloc_else (alloc_explicit zero_at_free npages p2align is_user pref_node)
                       (alloc_else (alloc_user_policy zero_at_free npages p2align is_user virt_addr iter chk_shm)
                          (alloc_distance_based zero_at_free npages p2align is_user)))
                  (ms\<lparr>ms_vm := Some v\<rparr>))))"

text \<open>The pointer the caller gets: every path returns \<open>phys_to_virt(pa)\<close> if \<open>pa\<close> is set, else null.\<close>

definition alloc_page :: "bool \<Rightarrow> int \<Rightarrow> nat \<Rightarrow> u64 \<Rightarrow> int \<Rightarrow> bool \<Rightarrow> u64 \<Rightarrow> mem_sys \<Rightarrow> (u64 \<times> mem_sys) option" where
  "alloc_page zero_at_free npages p2align flag pref_node is_user virt_addr ms =
     (case mckernel_allocate_aligned_pages_node zero_at_free npages p2align flag pref_node is_user virt_addr ms of
        None \<Rightarrow> None
      | Some (pa, ms) \<Rightarrow> Some (if pa \<noteq> 0 then phys_to_virt (ms_map ms) pa else 0, ms))"

definition PAGE_P2ALIGN :: nat where
  "PAGE_P2ALIGN = 0"

definition ihk_mc_alloc_pages :: "bool \<Rightarrow> int \<Rightarrow> u64 \<Rightarrow> bool \<Rightarrow> mem_sys \<Rightarrow> (u64 \<times> mem_sys) option" where
  "ihk_mc_alloc_pages zero_at_free npages flag is_user ms =
     alloc_page zero_at_free npages PAGE_P2ALIGN flag (- 1) is_user (- 1) ms"

text \<open>The test on the index lets \<open>i\<close> be the number of nodes, one past the end of the table.\<close>

definition ihk_mc_get_numa_node_by_distance :: "bool \<Rightarrow> int \<Rightarrow> mem_sys \<Rightarrow> nat option option" where
  "ihk_mc_get_numa_node_by_distance initialized i ms =
     (if \<not> initialized then Some None
      else if i < 0 \<or> i > int (length (ms_nodes ms)) then Some None
      else
        (case ms_by_distance ms (ms_numa_id ms) of
           None \<Rightarrow> Some None
         | Some ids \<Rightarrow> if nat i < length ids then Some (Some (ids ! nat i)) else None))"

subsection \<open>Deallocation\<close>

text \<open>The loop over the memory chunks: the first one that holds the range.\<close>

definition find_chunk :: "u64 \<Rightarrow> u64 \<Rightarrow> (u64 \<times> u64 \<times> nat) list \<Rightarrow> (u64 \<times> u64 \<times> nat) option" where
  "find_chunk pa_start pa_end chunks =
     find (\<lambda>(start_a, end_a, numa_id). \<not> (start_a > pa_start \<or> end_a < pa_end)) chunks"

definition mckernel_free_pages_in_allocator ::
  "bool \<Rightarrow> bool \<Rightarrow> bool \<Rightarrow> u64 \<Rightarrow> int \<Rightarrow> bool \<Rightarrow> mem_sys \<Rightarrow> mem_sys option" where
  "mckernel_free_pages_in_allocator zero_at_free deferred_zero_at_free may_ask va npages is_user ms =
     (let pa_start = virt_to_phys (ms_map ms) va; pa_end = pa_start + word_of_int npages * PAGE_SIZE
      in case find_chunk pa_start pa_end (ms_chunks ms) of
           None \<Rightarrow> Some ms
         | Some (start_a, end_a, numa_id) \<Rightarrow>
             if numa_id < length (ms_nodes ms) then
               (case ihk_numa_free_pages zero_at_free deferred_zero_at_free may_ask (ms_nodes ms ! numa_id) pa_start npages of
                  None \<Rightarrow> None
                | Some (node, sent) \<Rightarrow>
                    Some (ms\<lparr>ms_nodes := (ms_nodes ms)[numa_id := node],
                             ms_events := (if sent then ms_events ms @ [ME_Zero numa_id] else ms_events ms),
                             ms_rusage := rusage_page_sub numa_id (word_of_int npages) is_user (ms_rusage ms)\<rparr>))
             else None)"

definition set_page :: "nat \<Rightarrow> (page \<Rightarrow> page) \<Rightarrow> mem_sys \<Rightarrow> mem_sys" where
  "set_page p f ms = ms\<lparr>ms_hash := (ms_hash ms)\<lparr>ph_page := (ph_page (ms_hash ms))(p := f (ph_page (ms_hash ms) p))\<rparr>\<rparr>"

definition mckernel_free_pages ::
  "bool \<Rightarrow> bool \<Rightarrow> bool \<Rightarrow> u64 \<Rightarrow> int \<Rightarrow> bool \<Rightarrow> mem_sys \<Rightarrow> mem_sys option" where
  "mckernel_free_pages zero_at_free deferred_zero_at_free may_ask va npages is_user ms =
     (case (phys_to_page (ms_hash ms) (virt_to_phys (ms_map ms) va), ms_pending ms) of
        (Some p, Some pendings) \<Rightarrow>
          Some ((set_page p (\<lambda>pg. pg\<lparr>pg_mode := PM_PENDING_FREE, pg_offset := npages\<rparr>) ms)\<lparr>ms_pending := Some (pendings @ [p])\<rparr>)
      | _ \<Rightarrow> mckernel_free_pages_in_allocator zero_at_free deferred_zero_at_free may_ask va npages is_user ms)"

datatype pending_fault = Begin_Pending_Panic | Not_Pending_Panic | Null_Fault

definition begin_free_pages_pending :: "mem_sys \<Rightarrow> pending_fault + mem_sys" where
  "begin_free_pages_pending ms =
     (case ms_pending ms of Some _ \<Rightarrow> Inl Begin_Pending_Panic | None \<Rightarrow> Inr (ms\<lparr>ms_pending := Some []\<rparr>))"

fun finish_loop :: "bool \<Rightarrow> bool \<Rightarrow> bool \<Rightarrow> nat list \<Rightarrow> mem_sys \<Rightarrow> pending_fault + mem_sys" where
  "finish_loop zero_at_free deferred_zero_at_free may_ask [] ms = Inr ms"
| "finish_loop zero_at_free deferred_zero_at_free may_ask (p # pendings) ms =
     (if pg_mode (ph_page (ms_hash ms) p) \<noteq> PM_PENDING_FREE then Inl Not_Pending_Panic
      else
        (let ms = (set_page p (\<lambda>pg. pg\<lparr>pg_mode := PM_NONE\<rparr>) ms)\<lparr>ms_pending := Some pendings\<rparr>
         in case mckernel_free_pages_in_allocator zero_at_free deferred_zero_at_free may_ask
                   (phys_to_virt (ms_map ms) (page_to_phys (ms_hash ms) (Some p)))
                   (c_int (pg_offset (ph_page (ms_hash ms) p))) True ms of
              None \<Rightarrow> Inl Null_Fault
            | Some ms \<Rightarrow> finish_loop zero_at_free deferred_zero_at_free may_ask pendings ms))"

definition finish_free_pages_pending :: "bool \<Rightarrow> bool \<Rightarrow> bool \<Rightarrow> mem_sys \<Rightarrow> pending_fault + mem_sys" where
  "finish_free_pages_pending zero_at_free deferred_zero_at_free may_ask ms =
     (case ms_pending ms of
        None \<Rightarrow> Inr ms
      | Some pendings \<Rightarrow>
          (case finish_loop zero_at_free deferred_zero_at_free may_ask pendings ms of
             Inl f \<Rightarrow> Inl f
           | Inr ms \<Rightarrow> Inr (ms\<lparr>ms_pending := None\<rparr>)))"

definition is_mckernel_memory :: "u64 \<Rightarrow> u64 \<Rightarrow> mem_sys \<Rightarrow> bool" where
  "is_mckernel_memory start_a end_a ms \<longleftrightarrow>
     list_ex (\<lambda>(chunk_start, chunk_end, numa_id).
       (chunk_start \<le> start_a \<and> start_a < chunk_end) \<and> (chunk_start \<le> end_a \<and> end_a \<le> chunk_end)) (ms_chunks ms)"

subsection \<open>Invariant\<close>

text \<open>The memory chunks the kernel got at boot: not empty, with a gap between any two, each on an
  existing node.  The bytes of a node stay inside its chunks.\<close>

fun chunk_area :: "u64 \<times> u64 \<times> nat \<Rightarrow> nat set" where
  "chunk_area (s, e, i) = {unat s ..< unat e}"

fun chunks_gap :: "u64 \<times> u64 \<times> nat \<Rightarrow> u64 \<times> u64 \<times> nat \<Rightarrow> bool" where
  "chunks_gap (s, e, i) (s', e', i') \<longleftrightarrow> e < s' \<or> e' < s"

definition mem_chunks_ok :: "nat \<Rightarrow> (u64 \<times> u64 \<times> nat) list \<Rightarrow> bool" where
  "mem_chunks_ok n cs \<longleftrightarrow> sorted_wrt chunks_gap cs \<and> (\<forall>(s, e, i) \<in> set cs. s < e \<and> i < n)"

definition owned :: "(u64 \<times> u64 \<times> nat) list \<Rightarrow> nat \<Rightarrow> nat set" where
  "owned cs i = \<Union> (chunk_area ` {c \<in> set cs. snd (snd c) = i})"

text \<open>Physical memory fits below the next region of the kernel's address space.\<close>

definition kmap_base :: "kernel_map \<Rightarrow> u64" where
  "kmap_base km = (if km_init_pt_loaded km then km_linux_page_offset_base km else MAP_ST_START)"

definition kmap_ok :: "kernel_map \<Rightarrow> u64 \<Rightarrow> bool" where
  "kmap_ok km e \<longleftrightarrow>
     (if km_init_pt_loaded km then unat (km_linux_page_offset_base km) + unat e \<le> unat (km_kernel_start km)
      else unat MAP_ST_START + unat e \<le> unat MAP_FIXED_START \<and> MAP_FIXED_START \<le> km_linux_page_offset_base km \<and>
        MAP_FIXED_START \<le> km_kernel_start km) \<and> 4096 dvd unat (km_linux_page_offset_base km)"

definition mem_ok :: "mem_sys \<Rightarrow> bool" where
  "mem_ok ms \<longleftrightarrow> ms_numa_id ms < length (ms_nodes ms) \<and>
     (\<forall>i < length (ms_nodes ms). numa_ok (ms_nodes ms ! i) \<and> numa_bytes (ms_nodes ms ! i) \<subseteq> owned (ms_chunks ms) i) \<and>
     (\<forall>i ids. ms_by_distance ms i = Some ids \<longrightarrow> set ids \<subseteq> {..<length (ms_nodes ms)}) \<and>
     mem_chunks_ok (length (ms_nodes ms)) (ms_chunks ms) \<and> (\<forall>(s, e, i) \<in> set (ms_chunks ms). kmap_ok (ms_map ms) e) \<and>
     (\<forall>v. ms_vm ms = Some v \<longrightarrow> length (ms_nodes ms) \<le> 64 * length (vv_numa_mask v))"

text \<open>What can be handed out, and what can be given back.\<close>

definition mem_bytes :: "mem_sys \<Rightarrow> nat set" where
  "mem_bytes ms = (\<Union>i < length (ms_nodes ms). numa_bytes (ms_nodes ms ! i))"

definition mem_range :: "mem_sys \<Rightarrow> nat set" where
  "mem_range ms = (\<Union>i < length (ms_nodes ms). owned (ms_chunks ms) i \<inter> numa_range (ms_nodes ms ! i))"

lemma phys_virt:
  assumes "kmap_ok km e" "unat p < unat e"
  shows "virt_to_phys km (phys_to_virt km p) = p" "unat (phys_to_virt km p) = unat p + unat (kmap_base km)"
proof -
  have e: "unat p + unat (kmap_base km) < 2 ^ 64"
    using assms unsigned_less [of "km_kernel_start km", where ?'a=nat] by (auto simp: kmap_ok_def kmap_base_def MAP_ST_START_def MAP_FIXED_START_def split: if_splits)
  have v: "phys_to_virt km p = p + kmap_base km" by (simp add: phys_to_virt_def kmap_base_def)
  show u: "unat (phys_to_virt km p) = unat p + unat (kmap_base km)" using e by (simp add: v u64_add)
  have "\<not> km_kernel_start km \<le> phys_to_virt km p"
    using assms u by (auto simp: word_le_nat_alt kmap_ok_def kmap_base_def MAP_ST_START_def MAP_FIXED_START_def split: if_splits)
  moreover have "km_init_pt_loaded km \<Longrightarrow> km_linux_page_offset_base km \<le> phys_to_virt km p"
    using u by (simp add: word_le_nat_alt kmap_base_def)
  moreover have "\<not> km_init_pt_loaded km \<Longrightarrow> \<not> km_linux_page_offset_base km \<le> phys_to_virt km p \<and> \<not> MAP_FIXED_START \<le> phys_to_virt km p"
    using assms u by (auto simp: word_le_nat_alt kmap_ok_def kmap_base_def MAP_ST_START_def MAP_FIXED_START_def split: if_splits)
  ultimately show "virt_to_phys km (phys_to_virt km p) = p"
    by (cases "km_init_pt_loaded km") (simp_all add: virt_to_phys_def v kmap_base_def)
qed

lemma chunks_gap_disjoint: "chunks_gap c d \<Longrightarrow> chunk_area c \<inter> chunk_area d = {}"
  by (cases c; cases d) (auto simp: word_less_nat_alt)

lemma mem_chunks_disjoint:
  assumes "mem_chunks_ok n cs" "c \<in> set cs" "d \<in> set cs" "x \<in> chunk_area c" "x \<in> chunk_area d"
  shows "c = d"
proof -
  obtain i j where ij: "i < length cs" "j < length cs" "c = cs ! i" "d = cs ! j" using assms(2,3) by (auto simp: in_set_conv_nth)
  have "sorted_wrt chunks_gap cs" using assms(1) by (simp add: mem_chunks_ok_def)
  with ij have "i < j \<Longrightarrow> chunks_gap c d" "j < i \<Longrightarrow> chunks_gap d c" by (auto simp: sorted_wrt_iff_nth_less)
  with chunks_gap_disjoint assms(4,5) have "\<not> i < j" "\<not> j < i" by blast+
  with ij show ?thesis by simp
qed

lemma owned_disjoint:
  assumes "mem_chunks_ok n cs" "x \<in> owned cs i" "x \<in> owned cs j"
  shows "i = j"
  using mem_chunks_disjoint [OF assms(1)] assms(2,3) by (fastforce simp: owned_def)

text \<open>A contiguous range inside the chunks lies in one of them, because of the gaps.\<close>

lemma range_in_one_chunk:
  assumes ok: "mem_chunks_ok n cs" and sub: "{a ..< a + k} \<subseteq> \<Union> (chunk_area ` set cs)" and "0 < k"
  shows "\<exists>c \<in> set cs. {a ..< a + k} \<subseteq> chunk_area c"
  using sub \<open>0 < k\<close>
proof (induction k)
  case (Suc k)
  show ?case
  proof (cases "k = 0")
    case True
    with Suc.prems(1) show ?thesis by fastforce
  next
    case False
    have "{a ..< a + k} \<subseteq> \<Union> (chunk_area ` set cs)" using Suc.prems(1) by auto
    with Suc.IH False obtain c where c: "c \<in> set cs" "{a ..< a + k} \<subseteq> chunk_area c" by auto
    have "a + k \<in> \<Union> (chunk_area ` set cs)" by (rule subsetD [OF Suc.prems(1)]) simp
    then obtain d where d: "d \<in> set cs" "a + k \<in> chunk_area d" by blast
    have last_in: "a + k - 1 \<in> chunk_area c" using c(2) False by auto
    obtain s e i s' e' i' where ce: "c = (s, e, i)" "d = (s', e', i')" by (cases c; cases d)
    have "c = d"
    proof (rule ccontr)
      assume neq: "c \<noteq> d"
      obtain l m where lm: "l < length cs" "m < length cs" "c = cs ! l" "d = cs ! m" using c(1) d(1) by (auto simp: in_set_conv_nth)
      have "sorted_wrt chunks_gap cs" using ok by (simp add: mem_chunks_ok_def)
      with lm neq have "chunks_gap c d \<or> chunks_gap d c" by (metis linorder_neqE_nat sorted_wrt_iff_nth_less)
      with ce last_in d(2) False show False by (auto simp: word_less_nat_alt)
    qed
    with c d have "{a ..< a + Suc k} \<subseteq> chunk_area c" by (auto simp: less_Suc_eq)
    with c(1) show ?thesis by blast
  qed
qed simp

subsection \<open>Allocation is safe\<close>

definition mem_frame :: "mem_sys \<Rightarrow> mem_sys \<Rightarrow> bool" where
  "mem_frame ms ms' \<longleftrightarrow> ms_map ms' = ms_map ms \<and> ms_by_distance ms' = ms_by_distance ms \<and> ms_chunks ms' = ms_chunks ms \<and>
     ms_numa_id ms' = ms_numa_id ms \<and> ms_hash ms' = ms_hash ms \<and> ms_pending ms' = ms_pending ms \<and>
     length (ms_nodes ms') = length (ms_nodes ms) \<and> (ms_vm ms' = None \<longleftrightarrow> ms_vm ms = None) \<and> mem_range ms' = mem_range ms"

definition alloc_effect :: "int \<Rightarrow> mem_sys \<Rightarrow> u64 \<Rightarrow> mem_sys \<Rightarrow> bool" where
  "alloc_effect npages ms pa ms' \<longleftrightarrow> mem_ok ms' \<and> mem_frame ms ms' \<and> 4096 dvd unat pa \<and>
     (if pa = 0 then mem_bytes ms' = mem_bytes ms
      else page_range pa npages \<subseteq> mem_bytes ms \<and> mem_bytes ms' = mem_bytes ms - page_range pa npages)"

lemma alloc_effect_refl: "mem_ok ms \<Longrightarrow> alloc_effect npages ms 0 ms"
  by (simp add: alloc_effect_def mem_frame_def)

lemma alloc_effect_trans:
  "alloc_effect npages ms 0 ms1 \<Longrightarrow> alloc_effect npages ms1 pa ms2 \<Longrightarrow> alloc_effect npages ms pa ms2"
  by (auto simp: alloc_effect_def mem_frame_def split: if_splits)

text \<open>Replacing one node.\<close>

lemma mem_update_node:
  assumes "i < length (ms_nodes ms)" "ms_nodes ms' = (ms_nodes ms)[i := node]" "ms_chunks ms' = ms_chunks ms"
    "numa_range node = numa_range (ms_nodes ms ! i)"
  shows "mem_range ms' = mem_range ms"
    "mem_bytes ms' = (\<Union>j \<in> {..<length (ms_nodes ms)} - {i}. numa_bytes (ms_nodes ms ! j)) \<union> numa_bytes node"
    "mem_bytes ms = (\<Union>j \<in> {..<length (ms_nodes ms)} - {i}. numa_bytes (ms_nodes ms ! j)) \<union> numa_bytes (ms_nodes ms ! i)"
proof -
  have "numa_range (ms_nodes ms' ! j) = numa_range (ms_nodes ms ! j)" for j
    using assms by (cases "j = i") auto
  then show "mem_range ms' = mem_range ms" using assms by (simp add: mem_range_def)
  have "{..<length (ms_nodes ms)} = insert i ({..<length (ms_nodes ms)} - {i})" using assms(1) by auto
  then show "mem_bytes ms = (\<Union>j \<in> {..<length (ms_nodes ms)} - {i}. numa_bytes (ms_nodes ms ! j)) \<union> numa_bytes (ms_nodes ms ! i)"
    unfolding mem_bytes_def by (metis UN_insert Un_commute)
  show "mem_bytes ms' = (\<Union>j \<in> {..<length (ms_nodes ms)} - {i}. numa_bytes (ms_nodes ms ! j)) \<union> numa_bytes node"
    using assms(1,2) by (auto simp: mem_bytes_def nth_list_update split: if_splits)
qed

lemma mem_ok_update_node:
  assumes "mem_ok ms" "i < length (ms_nodes ms)" "ms_nodes ms' = (ms_nodes ms)[i := node]" "ms_chunks ms' = ms_chunks ms"
    "ms_map ms' = ms_map ms" "ms_by_distance ms' = ms_by_distance ms" "ms_numa_id ms' = ms_numa_id ms" "ms_vm ms' = ms_vm ms"
    "numa_ok node" "numa_bytes node \<subseteq> owned (ms_chunks ms) i"
  shows "mem_ok ms'"
  using assms by (auto simp: mem_ok_def nth_list_update)

lemma other_nodes_apart:
  assumes "mem_ok ms" "i < length (ms_nodes ms)" "B \<subseteq> owned (ms_chunks ms) i"
  shows "(\<Union>j \<in> {..<length (ms_nodes ms)} - {i}. numa_bytes (ms_nodes ms ! j)) \<inter> B = {}"
proof -
  have "mem_chunks_ok (length (ms_nodes ms)) (ms_chunks ms)" using assms(1) by (simp add: mem_ok_def)
  note d = owned_disjoint [OF this]
  have "numa_bytes (ms_nodes ms ! j) \<inter> B = {}" if "j \<in> {..<length (ms_nodes ms)} - {i}" for j
    using d [of _ i j] that assms by (auto simp: mem_ok_def)
  then show ?thesis by blast
qed

lemma mem_ok_events [simp]: "mem_ok (ms\<lparr>ms_events := e\<rparr>) = mem_ok ms" "mem_bytes (ms\<lparr>ms_events := e\<rparr>) = mem_bytes ms"
  "mem_range (ms\<lparr>ms_events := e\<rparr>) = mem_range ms"
  by (simp_all add: mem_ok_def mem_bytes_def mem_range_def)

lemma node_alloc_sound:
  assumes "mem_ok ms" "request_ok npages p2align" "i < length (ms_nodes ms)"
  shows "\<exists>pa ms'. node_alloc zaf npages p2align u i ms = Some (pa, ms') \<and> alloc_effect npages ms pa ms' \<and> ms_vm ms' = ms_vm ms"
proof -
  obtain ret notify where oom: "rusage_check_oom (word_of_int npages) u (rs_global (ms_rusage ms)) = (ret, notify)" by fastforce
  define ms1 where "ms1 = (if notify then ms\<lparr>ms_events := ms_events ms @ [ME_Oom]\<rparr> else ms)"
  have ms1: "mem_ok ms1" "i < length (ms_nodes ms1)" "ms_nodes ms1 = ms_nodes ms" "alloc_effect npages ms 0 ms1" "ms_vm ms1 = ms_vm ms"
    using assms by (auto simp: ms1_def alloc_effect_def mem_frame_def)
  show ?thesis
  proof (cases "ret = - ENOMEM")
    case True
    with oom ms1 show ?thesis by (simp add: node_alloc_def ms1_def [symmetric])
  next
    case False
    have nok: "numa_ok (ms_nodes ms ! i)" "numa_bytes (ms_nodes ms ! i) \<subseteq> owned (ms_chunks ms) i" using assms by (auto simp: mem_ok_def)
    from numa_alloc_sound [OF nok(1) assms(2), of zaf] obtain pa node where
      n: "ihk_numa_alloc_pages zaf (ms_nodes ms ! i) npages p2align = Some (pa, node)" "numa_ok node"
        "numa_range node = numa_range (ms_nodes ms ! i)" "4096 dvd unat pa"
        "if pa = 0 then numa_bytes node = numa_bytes (ms_nodes ms ! i)
         else page_range pa npages \<subseteq> numa_bytes (ms_nodes ms ! i) \<and> numa_bytes node = numa_bytes (ms_nodes ms ! i) - page_range pa npages"
      by blast
    define ms2 where "ms2 = ms1\<lparr>ms_nodes := (ms_nodes ms1)[i := node]\<rparr>"
    define ms3 where "ms3 = (if pa \<noteq> 0 then ms2\<lparr>ms_rusage := rusage_page_add i (word_of_int npages) u (ms_rusage ms2)\<rparr> else ms2)"
    have eq: "node_alloc zaf npages p2align u i ms = Some (pa, ms3)"
      using oom False ms1 n(1) by (simp add: node_alloc_def ms1_def [symmetric] ms2_def ms3_def Let_def)
    have f: "ms_nodes ms3 = (ms_nodes ms)[i := node]" "ms_chunks ms3 = ms_chunks ms" "ms_map ms3 = ms_map ms"
      "ms_by_distance ms3 = ms_by_distance ms" "ms_numa_id ms3 = ms_numa_id ms" "ms_vm ms3 = ms_vm ms"
      "ms_hash ms3 = ms_hash ms" "ms_pending ms3 = ms_pending ms"
      by (simp_all add: ms3_def ms2_def ms1_def)
    have "numa_bytes node \<subseteq> owned (ms_chunks ms) i" using n(5) nok(2) by (auto split: if_splits)
    with mem_ok_update_node [OF assms(1,3) f(1-6) n(2)] have ok3: "mem_ok ms3" .
    note upd = mem_update_node [OF assms(3) f(1,2) n(3)]
    have "pa \<noteq> 0 \<Longrightarrow> (\<Union>j \<in> {..<length (ms_nodes ms)} - {i}. numa_bytes (ms_nodes ms ! j)) \<inter> page_range pa npages = {}"
      using other_nodes_apart [OF assms(1,3), of "page_range pa npages"] n(5) nok(2) by auto
    with n(4,5) upd ok3 f have "alloc_effect npages ms pa ms3" unfolding alloc_effect_def mem_frame_def by (auto split: if_splits)
    with eq f show ?thesis by blast
  qed
qed

text \<open>The allocator changes nothing but the cache of the current address space.  It is safe to look
  for a policy when every range has an object.\<close>

definition view_ok :: "vm_view \<Rightarrow> bool" where
  "view_ok v \<longleftrightarrow> vm_ok (vv_space v) \<and> (\<forall>p \<in> set (vm_ptrs (vv_space v)). vr_memobj (pv_ranges (vv_space v) p) \<noteq> None)"

definition view_same :: "vm_view \<Rightarrow> vm_view \<Rightarrow> bool" where
  "view_same v v' \<longleftrightarrow> vv_numa_mem_policy v' = vv_numa_mem_policy v \<and> vv_numa_mask v' = vv_numa_mask v \<and>
     vv_policy_tree v' = vv_policy_tree v \<and> (vm_ok (vv_space v) \<longrightarrow> vm_ok (vv_space v') \<and> same_but_cache (vv_space v) (vv_space v'))"

definition policy_safe :: "u64 \<Rightarrow> mem_sys \<Rightarrow> bool" where
  "policy_safe virt_addr ms \<longleftrightarrow> virt_addr = - 1 \<or> (\<forall>v. ms_vm ms = Some v \<longrightarrow> view_ok v)"

lemma view_same_refl [simp]: "view_same v v"
  by (simp add: view_same_def same_but_cache_def)

lemma view_same_trans: "view_same u v \<Longrightarrow> view_same v w \<Longrightarrow> view_same u w"
  by (auto simp: view_same_def same_but_cache_def)

lemma view_same_ok: "view_same v v' \<Longrightarrow> view_ok v \<Longrightarrow> view_ok v'"
  by (auto simp: view_same_def view_ok_def same_but_cache_def)

lemma policy_safe_same:
  "policy_safe a ms \<Longrightarrow> ms_vm ms = Some v \<Longrightarrow> view_same v v' \<Longrightarrow> ms_vm ms' = Some v' \<Longrightarrow> policy_safe a ms'"
  by (auto simp: policy_safe_def dest: view_same_ok)

text \<open>An attempt goes well: it returns, and what it takes it takes from the free memory.\<close>

definition alloc_good :: "int \<Rightarrow> u64 \<Rightarrow> mem_sys \<Rightarrow> (u64 \<times> mem_sys) option \<Rightarrow> bool" where
  "alloc_good npages a ms r \<longleftrightarrow> (\<exists>pa ms'. r = Some (pa, ms') \<and> alloc_effect npages ms pa ms' \<and> policy_safe a ms')"

lemma alloc_good_else:
  assumes "alloc_good npages a ms (f ms)"
    "\<And>ms'. alloc_effect npages ms 0 ms' \<Longrightarrow> policy_safe a ms' \<Longrightarrow> alloc_good npages a ms' (g ms')"
  shows "alloc_good npages a ms (alloc_else f g ms)"
proof -
  obtain pa ms1 where f: "f ms = Some (pa, ms1)" "alloc_effect npages ms pa ms1" "policy_safe a ms1"
    using assms(1) by (auto simp: alloc_good_def)
  show ?thesis
  proof (cases "pa = 0")
    case True
    with f(2) have e: "alloc_effect npages ms 0 ms1" by simp
    from assms(2) [OF e f(3)] f(1) True alloc_effect_trans [OF e] show ?thesis by (auto simp: alloc_good_def alloc_else_def)
  next
    case False
    with f show ?thesis by (simp add: alloc_good_def alloc_else_def)
  qed
qed

lemma alloc_good_none: "mem_ok ms \<Longrightarrow> policy_safe a ms \<Longrightarrow> alloc_good npages a ms (Some (0, ms))"
  by (simp add: alloc_good_def alloc_effect_refl)

lemma alloc_good_node:
  assumes "mem_ok ms" "request_ok npages p2align" "i < length (ms_nodes ms)" "policy_safe a ms"
  shows "alloc_good npages a ms (node_alloc zaf npages p2align u i ms)"
  using node_alloc_sound [OF assms(1-3), of zaf u] assms(4) by (auto simp: alloc_good_def policy_safe_def)

lemma alloc_effect_ok: "alloc_effect npages ms pa ms' \<Longrightarrow> mem_ok ms' \<and> length (ms_nodes ms') = length (ms_nodes ms) \<and>
    distance_ids ms' = distance_ids ms \<and> (ms_vm ms' = None \<longleftrightarrow> ms_vm ms = None)"
  by (simp add: alloc_effect_def mem_frame_def distance_ids_def)

lemma alloc_good_nodes:
  "mem_ok ms \<Longrightarrow> request_ok npages p2align \<Longrightarrow> set ids \<subseteq> {..<length (ms_nodes ms)} \<Longrightarrow> policy_safe a ms \<Longrightarrow>
    alloc_good npages a ms (nodes_alloc zaf npages p2align u ids ms)"
proof (induction ids arbitrary: ms)
  case (Cons i ids)
  have "alloc_good npages a ms' (nodes_alloc zaf npages p2align u ids ms')" if "alloc_effect npages ms 0 ms'" "policy_safe a ms'" for ms'
    using Cons.prems that alloc_effect_ok [OF that(1)] by (intro Cons.IH) auto
  with Cons.prems show ?case by (simp add: alloc_good_else alloc_good_node)
qed (simp add: alloc_good_none)

lemma alloc_good_policy:
  "mem_ok ms \<Longrightarrow> request_ok npages p2align \<Longrightarrow> set ids \<subseteq> {..<length (ms_nodes ms)} \<Longrightarrow> policy_safe a ms \<Longrightarrow>
    length (ms_nodes ms) \<le> 64 * length nmask \<Longrightarrow> alloc_good npages a ms (policy_alloc zaf npages p2align u nmask ids ms)"
proof (induction ids arbitrary: ms)
  case (Cons i ids)
  have "test_bit_at i nmask = Some (region_bit nmask i)" using Cons.prems by (intro test_bit_at_region) auto
  moreover have "alloc_good npages a ms' (policy_alloc zaf npages p2align u nmask ids ms')" if "alloc_effect npages ms 0 ms'" "policy_safe a ms'" for ms'
    using Cons.prems that alloc_effect_ok [OF that(1)] by (intro Cons.IH) auto
  ultimately show ?case using Cons
    by (cases "region_bit nmask i") (simp_all add: alloc_good_else alloc_good_node)
qed (simp add: alloc_good_none)

lemma distance_ids_bound: "mem_ok ms \<Longrightarrow> distance_ids ms = Some ids \<Longrightarrow> set ids \<subseteq> {..<length (ms_nodes ms)}"
  using set_take_subset [of "length (ms_nodes ms)"] unfolding distance_ids_def mem_ok_def by fast

lemma alloc_good_order:
  "mem_ok ms \<Longrightarrow> request_ok npages p2align \<Longrightarrow> policy_safe a ms \<Longrightarrow> alloc_good npages a ms (alloc_order_based zaf npages p2align u ms)"
  unfolding alloc_order_based_def
  by (rule alloc_good_nodes) (auto simp: order_ids_def mem_ok_def intro!: mod_less_divisor)

lemma alloc_good_distance:
  assumes "mem_ok ms" "request_ok npages p2align" "policy_safe a ms"
  shows "alloc_good npages a ms (alloc_distance_based zaf npages p2align u ms)"
  using assms distance_ids_bound [OF assms(1)] unfolding alloc_distance_based_def
  by (cases "distance_ids ms") (auto intro!: alloc_good_else alloc_good_nodes alloc_good_order dest: alloc_effect_ok)

lemma mem_ok_view:
  assumes "mem_ok ms" "ms_vm ms = Some v" "view_same v v'"
  shows "alloc_effect npages ms 0 (ms\<lparr>ms_vm := Some v'\<rparr>)"
  using assms by (simp add: alloc_effect_def mem_frame_def mem_ok_def mem_bytes_def mem_range_def view_same_def)

lemma view_lookup_same: "view_lookup a v = (r, v') \<Longrightarrow> view_same v v'"
  using lookup_sound [of "vv_space v" a "a + 1"]
  by (auto simp: view_lookup_def view_same_def split: prod.splits)

lemma first_overlap_mem: "first_overlap rs s e ps = Some p \<Longrightarrow> p \<in> set ps"
  by (auto simp: first_overlap_def find_Some_iff)

lemma view_lookup_object:
  assumes "view_ok v" "view_lookup a v = (Some r, v')"
  shows "vr_memobj r \<noteq> None"
proof -
  obtain p vm where l: "lookup_process_memory_range a (a + 1) (vv_space v) = (p, vm)" by fastforce
  then obtain q where q: "p = Some q" "r = pv_ranges vm q" using assms(2) by (auto simp: view_lookup_def)
  from lookup_sound [OF _ l] assms(1) q have "q \<in> set (vm_ptrs (vv_space v))" "pv_ranges vm = pv_ranges (vv_space v)"
    by (auto simp: view_ok_def same_but_cache_def dest: first_overlap_mem [OF sym] split: if_splits)
  with assms(1) q show ?thesis by (simp add: view_ok_def)
qed

lemma range_policy_check_same:
  "range_policy_check pref flag a v = (iter, shm, v', d) \<Longrightarrow> view_same v v'"
  by (auto simp: range_policy_check_def split: if_splits option.splits prod.splits dest: view_lookup_same)

lemma effective_policy_sound:
  assumes "a = - 1 \<or> view_ok v"
  shows "\<exists>policy v'. effective_policy a iter shm v = Some (policy, v') \<and> view_same v v'"
proof (cases "a \<noteq> - 1 \<and> \<not> shm")
  case False
  then show ?thesis by (auto simp: effective_policy_def)
next
  case True
  then have v: "view_ok v" using assms by simp
  define pol where "pol = (case iter of None \<Rightarrow> vm_range_policy_search (vv_policy_tree v) a | Some pol \<Rightarrow> Some pol)"
  obtain r v' where l: "view_lookup a v = (r, v')" by fastforce
  have "view_same v v'" using view_lookup_same [OF l] .
  moreover have "r = Some x \<Longrightarrow> range_is_shm v' x \<noteq> None" for x
    using view_lookup_object [OF v] l by (auto simp: range_is_shm_def)
  ultimately show ?thesis using True l
    by (cases pol; cases r) (auto simp: effective_policy_def pol_def [symmetric] split: option.splits)
qed

lemma alloc_good_view:
  assumes "mem_ok ms" "ms_vm ms = Some v" "view_same v v'" "policy_safe a ms"
    "alloc_good npages a (ms\<lparr>ms_vm := Some v'\<rparr>) r"
  shows "alloc_good npages a ms r"
  using assms(5) alloc_effect_trans [OF mem_ok_view [OF assms(1-3)]] by (auto simp: alloc_good_def)

lemma alloc_good_user_policy:
  assumes "mem_ok ms" "request_ok npages p2align" "policy_safe a ms" "ms_vm ms \<noteq> None" "distance_ids ms \<noteq> None"
  shows "alloc_good npages a ms (alloc_user_policy zaf npages p2align u a iter shm ms)"
proof -
  obtain v ids where v: "ms_vm ms = Some v" "distance_ids ms = Some ids" using assms(4,5) by auto
  have "a = - 1 \<or> view_ok v" using assms(3) v by (auto simp: policy_safe_def)
  from effective_policy_sound [OF this, of iter shm] obtain policy v' where
    p: "effective_policy a iter shm v = Some (policy, v')" "view_same v v'" by blast
  define ms1 where "ms1 = ms\<lparr>ms_vm := Some v'\<rparr>"
  have ok1: "mem_ok ms1" using mem_ok_view [OF assms(1) v(1) p(2), of npages] by (simp add: ms1_def alloc_effect_def)
  have safe1: "policy_safe a ms1" using policy_safe_same [OF assms(3) v(1) p(2)] by (simp add: ms1_def)
  have "length (ms_nodes ms1) \<le> 64 * length (vv_numa_mask v')" using ok1 by (simp add: mem_ok_def ms1_def)
  moreover have "set ids \<subseteq> {..<length (ms_nodes ms1)}" using distance_ids_bound [OF assms(1) v(2)] by (simp add: ms1_def)
  ultimately have "alloc_good npages a ms1 ((if policy = MPOL_BIND \<or> policy = MPOL_PREFERRED
      then policy_alloc zaf npages p2align u (vv_numa_mask v') ids else (\<lambda>ms. Some (0, ms))) ms1)"
    using ok1 safe1 assms(2) by (simp add: alloc_good_policy alloc_good_none)
  from alloc_good_view [OF assms(1) v(1) p(2) assms(3) this [unfolded ms1_def]] show ?thesis
    by (simp add: alloc_user_policy_def v p(1) cong: if_cong)
qed

lemma alloc_good_explicit:
  "mem_ok ms \<Longrightarrow> request_ok npages p2align \<Longrightarrow> policy_safe a ms \<Longrightarrow> alloc_good npages a ms (alloc_explicit zaf npages p2align u pref ms)"
  by (auto simp: alloc_explicit_def alloc_good_none intro!: alloc_good_node)

lemma allocate_sound:
  assumes ok: "mem_ok ms" and req: "request_ok npages p2align" and safe: "policy_safe a ms"
  shows "alloc_good npages a ms (mckernel_allocate_aligned_pages_node zaf npages p2align flag pref u a ms)"
proof (cases "ms_vm ms")
  case None
  with alloc_good_distance [OF ok req safe] req show ?thesis by (simp add: mckernel_allocate_aligned_pages_node_def request_ok_def)
next
  case (Some v)
  obtain iter shm v1 d where chk: "range_policy_check pref flag a v = (iter, shm, v1, d)" by (metis prod_cases4)
  note same1 = range_policy_check_same [OF chk]
  define ms1 where "ms1 = ms\<lparr>ms_vm := Some v1\<rparr>"
  have ok1: "mem_ok ms1" using mem_ok_view [OF ok Some same1, of npages] by (simp add: ms1_def alloc_effect_def)
  have safe1: "policy_safe a ms1" using policy_safe_same [OF safe Some same1] by (simp add: ms1_def)
  have ids: "distance_ids ms1 = distance_ids ms" "ms_vm ms1 \<noteq> None" by (simp_all add: ms1_def distance_ids_def)
  let ?g = "(if d then alloc_distance_based zaf npages p2align u
             else if distance_ids ms = None then alloc_order_based zaf npages p2align u
             else alloc_else (alloc_explicit zaf npages p2align u pref)
               (alloc_else (alloc_user_policy zaf npages p2align u a iter shm) (alloc_distance_based zaf npages p2align u)))"
  have later: "alloc_good npages a ms' (alloc_else (alloc_user_policy zaf npages p2align u a iter shm) (alloc_distance_based zaf npages p2align u) ms')"
    if "alloc_effect npages ms1 0 ms'" "policy_safe a ms'" "distance_ids ms \<noteq> None" for ms'
    using alloc_effect_ok [OF that(1)] that(2,3) ids req
    by (intro alloc_good_else alloc_good_user_policy alloc_good_distance) (auto dest: alloc_effect_ok)
  have "alloc_good npages a ms1 (?g ms1)"
    using alloc_good_distance [OF ok1 req safe1] alloc_good_order [OF ok1 req safe1]
      alloc_good_else [of npages a ms1 "alloc_explicit zaf npages p2align u pref", OF alloc_good_explicit [OF ok1 req safe1] later] by auto
  from alloc_good_view [OF ok Some same1 safe this [unfolded ms1_def]] req show ?thesis
    by (simp add: mckernel_allocate_aligned_pages_node_def request_ok_def Some chk)
qed

subsection \<open>Deallocation is safe\<close>

lemma mem_bytes_chunk:
  assumes "mem_ok ms" "x \<in> mem_bytes ms"
  shows "x \<in> mem_range ms" "\<exists>c \<in> set (ms_chunks ms). x \<in> chunk_area c"
proof -
  obtain i where i: "i < length (ms_nodes ms)" "x \<in> numa_bytes (ms_nodes ms ! i)" using assms(2) by (auto simp: mem_bytes_def)
  with assms(1) have "x \<in> owned (ms_chunks ms) i" "x \<in> numa_range (ms_nodes ms ! i)" by (auto simp: mem_ok_def numa_ok_def)
  with i show "x \<in> mem_range ms" "\<exists>c \<in> set (ms_chunks ms). x \<in> chunk_area c" unfolding mem_range_def owned_def by blast+
qed

text \<open>A page range that may be freed: the chunk that holds it is the one the loop finds.\<close>

lemma find_chunk_range:
  assumes ok: "mem_ok ms" and n: "0 < npages" "npages \<le> INT_PAGES_MAX" and sub: "page_range pa npages \<subseteq> mem_range ms"
  obtains s e i where "find_chunk pa (pa + word_of_int npages * PAGE_SIZE) (ms_chunks ms) = Some (s, e, i)"
    "i < length (ms_nodes ms)" "page_range pa npages \<subseteq> chunk_area (s, e, i)" "(s, e, i) \<in> set (ms_chunks ms)"
    "page_range pa npages \<subseteq> owned (ms_chunks ms) i" "page_range pa npages \<subseteq> numa_range (ms_nodes ms ! i)"
proof -
  have cok: "mem_chunks_ok (length (ms_nodes ms)) (ms_chunks ms)" using ok by (simp add: mem_ok_def)
  have "mem_range ms \<subseteq> \<Union> (chunk_area ` set (ms_chunks ms))" by (auto simp: mem_range_def owned_def)
  with sub have "{unat pa ..< unat pa + 4096 * nat npages} \<subseteq> \<Union> (chunk_area ` set (ms_chunks ms))" by (auto simp: page_range_def)
  from range_in_one_chunk [OF cok this] n obtain c where c: "c \<in> set (ms_chunks ms)" "page_range pa npages \<subseteq> chunk_area c"
    by (auto simp: page_range_def)
  obtain s e i where sei: "c = (s, e, i)" by (cases c)
  have i: "i < length (ms_nodes ms)" using cok c(1) sei by (auto simp: mem_chunks_ok_def)
  have fst_in: "unat pa \<in> page_range pa npages" "unat pa + 4096 * nat npages - 1 \<in> page_range pa npages" using n by (auto simp: page_range_def)
  with c(2) sei have "unat pa \<in> {unat s ..< unat e}" "unat pa + 4096 * nat npages - 1 \<in> {unat s ..< unat e}" by auto
  with n have b: "unat s \<le> unat pa" "unat pa + 4096 * nat npages \<le> unat e" by auto
  have w: "unat (word_of_int npages * PAGE_SIZE :: u64) = 4096 * nat npages"
    using n word_of_npages [of npages] by (simp add: unat_mult_lem [THEN iffD1] PAGE_SIZE_def INT_PAGES_MAX_def unat_word_ariths)
  have "unat (pa + word_of_int npages * PAGE_SIZE) = unat pa + 4096 * nat npages"
    using b(2) w unsigned_less [of e, where ?'a=nat] by (simp add: u64_add)
  note ends = this
  have "\<exists>d. find_chunk pa (pa + word_of_int npages * PAGE_SIZE) (ms_chunks ms) = Some d"
  proof (rule ccontr)
    assume "\<not> ?thesis"
    then have "find_chunk pa (pa + word_of_int npages * PAGE_SIZE) (ms_chunks ms) = None" by (metis option.exhaust)
    with c(1) sei b ends show False by (fastforce simp: find_chunk_def find_None_iff word_less_nat_alt)
  qed
  then obtain s' e' i' where d: "find_chunk pa (pa + word_of_int npages * PAGE_SIZE) (ms_chunks ms) = Some (s', e', i')" by auto
  then have "(s', e', i') \<in> set (ms_chunks ms)" "unat s' \<le> unat pa" "unat pa + 4096 * nat npages \<le> unat e'"
    using ends by (auto simp: find_chunk_def find_Some_iff word_less_nat_alt word_le_nat_alt not_less dest: nth_mem)
  moreover from this n have "unat pa \<in> chunk_area (s', e', i')" by auto
  ultimately have "(s', e', i') = c" using mem_chunks_disjoint [OF cok, of _ c "unat pa"] c fst_in(1) by blast
  with d sei have found: "find_chunk pa (pa + word_of_int npages * PAGE_SIZE) (ms_chunks ms) = Some (s, e, i)" by simp
  have own: "page_range pa npages \<subseteq> owned (ms_chunks ms) i"
  proof -
    have "chunk_area c \<subseteq> owned (ms_chunks ms) i" using c(1) sei unfolding owned_def by (intro Union_upper imageI) simp
    with c(2) show ?thesis by (rule subset_trans)
  qed
  have "page_range pa npages \<subseteq> numa_range (ms_nodes ms ! i)"
  proof
    fix x
    assume x: "x \<in> page_range pa npages"
    with sub obtain j where "x \<in> owned (ms_chunks ms) j" "x \<in> numa_range (ms_nodes ms ! j)" by (auto simp: mem_range_def)
    with owned_disjoint [OF cok, of x i j] own x show "x \<in> numa_range (ms_nodes ms ! i)" by auto
  qed
  with that [OF found i] c sei own show thesis by simp
qed

lemma free_in_allocator_sound:
  assumes ok: "mem_ok ms" and n: "0 < npages" "npages \<le> INT_PAGES_MAX" and al: "4096 dvd unat pa"
    and sub: "page_range pa npages \<subseteq> mem_range ms" and dis: "page_range pa npages \<inter> mem_bytes ms = {}"
  shows "\<exists>ms'. mckernel_free_pages_in_allocator z d ask (phys_to_virt (ms_map ms) pa) npages u ms = Some ms' \<and>
    mem_ok ms' \<and> mem_frame ms ms' \<and> ms_vm ms' = ms_vm ms \<and> mem_bytes ms' = mem_bytes ms \<union> page_range pa npages"
proof -
  obtain s e i where c: "find_chunk pa (pa + word_of_int npages * PAGE_SIZE) (ms_chunks ms) = Some (s, e, i)"
    "i < length (ms_nodes ms)" "page_range pa npages \<subseteq> chunk_area (s, e, i)" "(s, e, i) \<in> set (ms_chunks ms)"
    "page_range pa npages \<subseteq> owned (ms_chunks ms) i" "page_range pa npages \<subseteq> numa_range (ms_nodes ms ! i)"
    by (rule find_chunk_range [OF ok n sub])
  have nok: "numa_ok (ms_nodes ms ! i)" "numa_bytes (ms_nodes ms ! i) \<subseteq> owned (ms_chunks ms) i" "kmap_ok (ms_map ms) e"
    using ok c(2,4) by (auto simp: mem_ok_def)
  have "unat pa \<in> page_range pa npages" using n by (simp add: page_range_def)
  with c(3) have "unat pa < unat e" by auto
  note virt = phys_virt(1) [OF nok(3) this]
  have "page_range pa npages \<inter> numa_bytes (ms_nodes ms ! i) = {}" using dis c(2) by (auto simp: mem_bytes_def)
  from numa_free_sound [OF nok(1) n al c(6) this, of z d ask] obtain node sent where
    f: "ihk_numa_free_pages z d ask (ms_nodes ms ! i) pa npages = Some (node, sent)" "numa_ok node"
      "numa_range node = numa_range (ms_nodes ms ! i)" "numa_bytes node = numa_bytes (ms_nodes ms ! i) \<union> page_range pa npages" by blast
  define ms' where "ms' = ms\<lparr>ms_nodes := (ms_nodes ms)[i := node],
      ms_events := (if sent then ms_events ms @ [ME_Zero i] else ms_events ms),
      ms_rusage := rusage_page_sub i (word_of_int npages) u (ms_rusage ms)\<rparr>"
  have eq: "mckernel_free_pages_in_allocator z d ask (phys_to_virt (ms_map ms) pa) npages u ms = Some ms'"
    using c(1,2) f(1) virt by (simp add: mckernel_free_pages_in_allocator_def Let_def ms'_def)
  have g: "ms_nodes ms' = (ms_nodes ms)[i := node]" "ms_chunks ms' = ms_chunks ms" "ms_map ms' = ms_map ms"
    "ms_by_distance ms' = ms_by_distance ms" "ms_numa_id ms' = ms_numa_id ms" "ms_vm ms' = ms_vm ms"
    "ms_hash ms' = ms_hash ms" "ms_pending ms' = ms_pending ms" by (simp_all add: ms'_def)
  note upd = mem_update_node [OF c(2) g(1,2) f(3)]
  have "mem_ok ms'" using mem_ok_update_node [OF ok c(2) g(1-6) f(2)] f(4) nok(2) c(5) by simp
  moreover have "mem_frame ms ms'" using g upd(1) by (simp add: mem_frame_def)
  moreover have "mem_bytes ms' = mem_bytes ms \<union> page_range pa npages" using upd(2,3) f(4) by auto
  ultimately show ?thesis using eq g(6) by blast
qed

definition mem_dealloc :: "bool \<Rightarrow> bool \<Rightarrow> bool \<Rightarrow> bool \<Rightarrow> mem_sys \<Rightarrow> u64 \<Rightarrow> int \<Rightarrow> mem_sys option" where
  "mem_dealloc z d ask u ms pa n = mckernel_free_pages_in_allocator z d ask (phys_to_virt (ms_map ms) pa) n u ms"

definition mem_alloc :: "bool \<Rightarrow> u64 \<Rightarrow> int \<Rightarrow> bool \<Rightarrow> u64 \<Rightarrow> mem_sys \<Rightarrow> int \<Rightarrow> nat \<Rightarrow> (u64 \<times> mem_sys) option" where
  "mem_alloc z flag pref u a ms n p2align = mckernel_allocate_aligned_pages_node z n p2align flag pref u a ms"

lemma mem_alloc_good:
  assumes "mem_ok ms \<and> policy_safe a ms" "request_ok n p2align"
  shows "\<exists>pa ms'. mem_alloc z flag pref u a ms n p2align = Some (pa, ms') \<and> alloc_effect n ms pa ms' \<and> policy_safe a ms'"
  using allocate_sound [of ms n p2align a z flag pref u] assms by (auto simp: alloc_good_def mem_alloc_def)

interpretation kpages: phys_allocator "mem_alloc z flag pref u a" "mem_dealloc z d ask u" "\<lambda>ms. mem_ok ms \<and> policy_safe a ms"
  mem_bytes mem_range INT_PAGES_MAX
  for z d ask flag pref u a
proof
  fix ms n p2align
  assume "mem_ok ms \<and> policy_safe a ms" "request_ok n p2align"
  from mem_alloc_good [OF this, of z flag pref u] show
    "\<exists>pa ms'. mem_alloc z flag pref u a ms n p2align = Some (pa, ms') \<and> (mem_ok ms' \<and> policy_safe a ms') \<and> mem_range ms' = mem_range ms \<and>
      (if pa = 0 then mem_bytes ms' = mem_bytes ms
       else page_range pa n \<subseteq> mem_bytes ms \<and> mem_bytes ms' = mem_bytes ms - page_range pa n)"
    by (fastforce simp: alloc_effect_def mem_frame_def)
next
  fix ms n pa
  assume ok: "mem_ok ms \<and> policy_safe a ms" and pre: "0 < n" "n \<le> INT_PAGES_MAX" "4096 dvd unat pa" "page_range pa n \<subseteq> mem_range ms"
    "page_range pa n \<inter> mem_bytes ms = {}"
  from free_in_allocator_sound [OF conjunct1 [OF ok] pre, of z d ask u] ok show
    "\<exists>ms'. mem_dealloc z d ask u ms pa n = Some ms' \<and> (mem_ok ms' \<and> policy_safe a ms') \<and> mem_range ms' = mem_range ms \<and>
      mem_bytes ms' = mem_bytes ms \<union> page_range pa n"
    by (auto simp: mem_dealloc_def mem_frame_def policy_safe_def)
next
  fix ms n p2align pa ms'
  assume "mem_ok ms \<and> policy_safe a ms" "mem_alloc z flag pref u a ms n p2align = Some (pa, ms')" "request_ok n p2align"
  with mem_alloc_good [of ms a n p2align z flag pref u] show "4096 dvd unat pa" by (auto simp: alloc_effect_def)
next
  fix ms
  assume "mem_ok ms \<and> policy_safe a ms"
  with mem_bytes_chunk(1) show "mem_bytes ms \<subseteq> mem_range ms" by blast
qed

text \<open>The kernel's own allocations, as the heap asks for them.\<close>

definition heap_pages :: "bool \<Rightarrow> u64 \<Rightarrow> mem_sys \<Rightarrow> int \<Rightarrow> (nat \<times> mem_sys) option" where
  "heap_pages z flag ms n = map_option (\<lambda>(va, ms). (unat va, ms)) (ihk_mc_alloc_pages z n flag False ms)"

definition virt_bytes :: "mem_sys \<Rightarrow> nat set" where
  "virt_bytes ms = (\<lambda>x. x + unat (kmap_base (ms_map ms))) ` mem_bytes ms"

lemma heap_pages_sound:
  assumes "mem_ok ms" "0 < n" "n \<le> 0x80000"
  shows "\<exists>p ms'. heap_pages z flag ms n = Some (p, ms') \<and> mem_ok ms' \<and>
    (if p = 0 then virt_bytes ms' = virt_bytes ms
     else 4096 dvd p \<and> {p ..< p + 4096 * nat n} \<subseteq> virt_bytes ms \<and> virt_bytes ms' = virt_bytes ms - {p ..< p + 4096 * nat n})"
proof -
  have "request_ok n PAGE_P2ALIGN" "policy_safe (- 1) ms" using assms(2,3) by (simp_all add: request_ok_def PAGE_P2ALIGN_def policy_safe_def)
  from allocate_sound [OF assms(1) this, of z flag "- 1" False] obtain pa ms' where
    a: "mckernel_allocate_aligned_pages_node z n PAGE_P2ALIGN flag (- 1) False (- 1) ms = Some (pa, ms')" "alloc_effect n ms pa ms'"
    by (auto simp: alloc_good_def)
  let ?b = "unat (kmap_base (ms_map ms))"
  have frame: "ms_map ms' = ms_map ms" "mem_ok ms'" using a(2) by (simp_all add: alloc_effect_def mem_frame_def)
  have eq: "heap_pages z flag ms n = Some (if pa = 0 then 0 else unat (phys_to_virt (ms_map ms) pa), ms')"
    using a(1) frame by (simp add: heap_pages_def ihk_mc_alloc_pages_def alloc_page_def)
  show ?thesis
  proof (cases "pa = 0")
    case True
    with eq a(2) frame show ?thesis by (simp add: alloc_effect_def virt_bytes_def)
  next
    case False
    with a(2) have pr: "page_range pa n \<subseteq> mem_bytes ms" "mem_bytes ms' = mem_bytes ms - page_range pa n" "4096 dvd unat pa"
      by (simp_all add: alloc_effect_def)
    have "unat pa \<in> page_range pa n" using assms(2) by (simp add: page_range_def)
    with pr(1) mem_bytes_chunk(2) [OF assms(1)] obtain s e i where
      c: "(s, e, i) \<in> set (ms_chunks ms)" "unat pa < unat e" by fastforce
    then have k: "kmap_ok (ms_map ms) e" using assms(1) by (auto simp: mem_ok_def)
    have v: "unat (phys_to_virt (ms_map ms) pa) = unat pa + ?b" using phys_virt(2) [OF k c(2)] .
    have base: "4096 dvd ?b" using k by (auto simp: kmap_ok_def kmap_base_def MAP_ST_START_def)
    have img: "{unat pa + ?b ..< unat pa + ?b + 4096 * nat n} = (\<lambda>x. x + ?b) ` page_range pa n"
      by (simp add: page_range_def algebra_simps)
    have "unat pa \<noteq> 0" using False by (simp add: unat_eq_0)
    then have "unat pa + ?b \<noteq> 0" by simp
    moreover have "virt_bytes ms' = virt_bytes ms - (\<lambda>x. x + ?b) ` page_range pa n"
      using pr(2) frame(1) by (simp add: virt_bytes_def image_set_diff inj_def)
    moreover have "(\<lambda>x. x + ?b) ` page_range pa n \<subseteq> virt_bytes ms" unfolding virt_bytes_def by (rule image_mono [OF pr(1)])
    ultimately show ?thesis using eq False v pr(3) base frame(2) img by (auto simp: if_split)
  qed
qed

interpretation kheap_pages: page_provider "heap_pages z flag" mem_ok virt_bytes for z flag
  by unfold_locales (rule heap_pages_sound)

subsection \<open>Pending frees\<close>

definition pend_range :: "page_hash \<Rightarrow> nat \<Rightarrow> nat set" where
  "pend_range h p = page_range (pg_phys (ph_page h p)) (pg_offset (ph_page h p))"

definition pend_bytes :: "page_hash \<Rightarrow> nat list \<Rightarrow> nat set" where
  "pend_bytes h ps = (\<Union>p \<in> set ps. pend_range h p)"

text \<open>What waits on the list: marked page structures of ranges that may be freed, each range once.\<close>

fun pend_ok :: "page_hash \<Rightarrow> nat set \<Rightarrow> nat list \<Rightarrow> bool" where
  "pend_ok h R [] \<longleftrightarrow> True"
| "pend_ok h R (p # ps) \<longleftrightarrow> pg_mode (ph_page h p) = PM_PENDING_FREE \<and> 0 < pg_offset (ph_page h p) \<and>
     pg_offset (ph_page h p) \<le> INT_PAGES_MAX \<and> 4096 dvd unat (pg_phys (ph_page h p)) \<and> pend_range h p \<subseteq> R \<and>
     pend_range h p \<inter> pend_bytes h ps = {} \<and> p \<notin> set ps \<and> pend_ok h R ps"

lemma pend_cong:
  assumes "\<forall>p \<in> set ps. ph_page h' p = ph_page h p"
  shows "pend_bytes h' ps = pend_bytes h ps" "pend_ok h' R ps = pend_ok h R ps"
proof -
  show b: "pend_bytes h' ps = pend_bytes h ps" using assms by (simp add: pend_bytes_def pend_range_def)
  show "pend_ok h' R ps = pend_ok h R ps" using assms
  proof (induction ps)
    case (Cons p ps)
    have "pend_bytes h' ps = pend_bytes h ps" using Cons.prems by (simp add: pend_bytes_def pend_range_def)
    with Cons show ?case by (simp add: pend_range_def)
  qed simp
qed

lemma pend_bytes_simps [simp]: "pend_bytes h [] = {}" "pend_bytes h (p # ps) = pend_range h p \<union> pend_bytes h ps"
  "pend_bytes h (ps @ qs) = pend_bytes h ps \<union> pend_bytes h qs"
  by (auto simp: pend_bytes_def)

lemma pend_ok_append:
  "pend_ok h R (ps @ [p]) \<longleftrightarrow> pend_ok h R ps \<and> pend_ok h R [p] \<and> p \<notin> set ps \<and> pend_bytes h ps \<inter> pend_range h p = {}"
  by (induction ps) auto

lemma set_page_mem [simp]: "mem_ok (set_page p f ms) = mem_ok ms" "mem_bytes (set_page p f ms) = mem_bytes ms"
  "mem_range (set_page p f ms) = mem_range ms" "ms_map (set_page p f ms) = ms_map ms" "ms_pending (set_page p f ms) = ms_pending ms"
  "ph_page (ms_hash (set_page p f ms)) = (ph_page (ms_hash ms))(p := f (ph_page (ms_hash ms) p))"
  by (simp_all add: set_page_def mem_ok_def mem_bytes_def mem_range_def)

lemma pending_mem [simp]: "mem_ok (ms\<lparr>ms_pending := x\<rparr>) = mem_ok ms" "mem_bytes (ms\<lparr>ms_pending := x\<rparr>) = mem_bytes ms"
  "mem_range (ms\<lparr>ms_pending := x\<rparr>) = mem_range ms"
  by (simp_all add: mem_ok_def mem_bytes_def mem_range_def)

lemma finish_loop_sound:
  "mem_ok ms \<Longrightarrow> pend_ok (ms_hash ms) (mem_range ms) ps \<Longrightarrow> pend_bytes (ms_hash ms) ps \<inter> mem_bytes ms = {} \<Longrightarrow>
   \<exists>ms'. finish_loop z d ask ps ms = Inr ms' \<and> mem_ok ms' \<and> mem_range ms' = mem_range ms \<and>
     mem_bytes ms' = mem_bytes ms \<union> pend_bytes (ms_hash ms) ps \<and>
     (\<forall>p. pg_mode (ph_page (ms_hash ms') p) = (if p \<in> set ps then PM_NONE else pg_mode (ph_page (ms_hash ms) p)))"
proof (induction ps arbitrary: ms)
  case (Cons p ps)
  let ?pg = "ph_page (ms_hash ms) p"
  define ms1 where "ms1 = (set_page p (\<lambda>pg. pg\<lparr>pg_mode := PM_NONE\<rparr>) ms)\<lparr>ms_pending := Some ps\<rparr>"
  have pg: "pg_mode ?pg = PM_PENDING_FREE" "0 < pg_offset ?pg" "pg_offset ?pg \<le> INT_PAGES_MAX" "4096 dvd unat (pg_phys ?pg)"
    "page_range (pg_phys ?pg) (pg_offset ?pg) \<subseteq> mem_range ms1" "page_range (pg_phys ?pg) (pg_offset ?pg) \<inter> mem_bytes ms1 = {}"
    using Cons.prems(2,3) by (auto simp: ms1_def pend_range_def)
  have ok1: "mem_ok ms1" using Cons.prems(1) by (simp add: ms1_def)
  from free_in_allocator_sound [OF ok1 pg(2-6), of z d ask True] obtain ms2 where
    f: "mckernel_free_pages_in_allocator z d ask (phys_to_virt (ms_map ms1) (pg_phys ?pg)) (pg_offset ?pg) True ms1 = Some ms2"
      "mem_ok ms2" "mem_frame ms1 ms2" "mem_bytes ms2 = mem_bytes ms1 \<union> page_range (pg_phys ?pg) (pg_offset ?pg)" by blast
  have same: "\<forall>q \<in> set ps. ph_page (ms_hash ms2) q = ph_page (ms_hash ms) q"
    using f(3) Cons.prems(2) by (auto simp: mem_frame_def ms1_def)
  have "pend_ok (ms_hash ms2) (mem_range ms2) ps" "pend_bytes (ms_hash ms2) ps \<inter> mem_bytes ms2 = {}"
    using pend_cong [OF same] Cons.prems(2,3) f(3,4) by (auto simp: mem_frame_def ms1_def pend_range_def)
  from Cons.IH [OF f(2) this] obtain ms3 where
    g: "finish_loop z d ask ps ms2 = Inr ms3" "mem_ok ms3" "mem_range ms3 = mem_range ms2"
      "mem_bytes ms3 = mem_bytes ms2 \<union> pend_bytes (ms_hash ms2) ps"
      "\<forall>q. pg_mode (ph_page (ms_hash ms3) q) = (if q \<in> set ps then PM_NONE else pg_mode (ph_page (ms_hash ms2) q))" by blast
  have cint: "c_int (pg_offset ?pg) = pg_offset ?pg" using pg(2,3) by (intro c_int_small) (simp_all add: INT_PAGES_MAX_def)
  have "page_to_phys (ms_hash ms1) (Some p) = pg_phys ?pg" "pg_offset (ph_page (ms_hash ms1) p) = pg_offset ?pg"
    by (simp_all add: page_to_phys_def ms1_def)
  with f(1) cint have "finish_loop z d ask (p # ps) ms = finish_loop z d ask ps ms2"
    using pg(1) by (simp add: ms1_def [symmetric] Let_def)
  moreover have "mem_bytes ms3 = mem_bytes ms \<union> pend_bytes (ms_hash ms) (p # ps)"
    using g(4) f(4) pend_cong(1) [OF same] by (auto simp: ms1_def pend_range_def)
  moreover have "mem_range ms3 = mem_range ms" using g(3) f(3) by (simp add: mem_frame_def ms1_def)
  moreover have "pg_mode (ph_page (ms_hash ms3) q) = (if q \<in> set (p # ps) then PM_NONE else pg_mode (ph_page (ms_hash ms) q))" for q
    using g(5) f(3) by (simp add: mem_frame_def ms1_def)
  ultimately show ?case using g(1,2) by auto
qed simp

subsection \<open>Properties\<close>


text \<open>C29: The kernel heap on top of the page allocator: every sequence of \<open>kmalloc\<close>, \<open>kfree\<close> (from
  any CPU) and consolidation runs without a corruption panic, keeps all chunks disjoint and well formed, and
  the bytes of the heap and of the free pages together stay the same.\<close>

theorem kernel_heap_run:
  assumes "mem_ok ms" "kheap_ok h {}" "heap_span h {} \<inter> virt_bytes ms = {}" "krun_ok (heap_pages z flag) ops (ms, h, {})"
  shows "\<exists>ms' h' L. krun (heap_pages z flag) ops (ms, h, {}) = Some (ms', h', L) \<and> mem_ok ms' \<and> kheap_ok h' L \<and>
    heap_span h' L \<inter> virt_bytes ms' = {} \<and> heap_span h' L \<union> virt_bytes ms' = heap_span h {} \<union> virt_bytes ms"
  using kheap_pages.krun_inv [of "heap_span h {} \<union> virt_bytes ms" "(ms, h, {})" z flag ops] assms
  by (auto simp: kheap_pages.heap_inv_def)

text \<open>C31: While frees are pending, a page freed through its page structure is not handed out again: the
  free memory stays as it is.  \<open>finish_free_pages_pending\<close> then gives back exactly the ranges that were
  waiting, and resets the marks; a second \<open>begin_free_pages_pending\<close> before that panics.\<close>

theorem pending_free_deferred:
  assumes "mem_ok ms" "ms_pending ms = Some ps" "pend_ok (ms_hash ms) (mem_range ms) ps" "pend_bytes (ms_hash ms) ps \<inter> mem_bytes ms = {}"
    "phys_to_page (ms_hash ms) pa = Some p" "pg_phys (ph_page (ms_hash ms) p) = pa" "p \<notin> set ps"
    "0 < n" "n \<le> INT_PAGES_MAX" "4096 dvd unat pa" "page_range pa n \<subseteq> mem_range ms"
    "page_range pa n \<inter> (mem_bytes ms \<union> pend_bytes (ms_hash ms) ps) = {}"
  shows "\<exists>ms1 ms2. mckernel_free_pages z d ask (phys_to_virt (ms_map ms) pa) n u ms = Some ms1 \<and> mem_bytes ms1 = mem_bytes ms \<and>
    begin_free_pages_pending ms1 = Inl Begin_Pending_Panic \<and>
    finish_free_pages_pending z d ask ms1 = Inr ms2 \<and> mem_ok ms2 \<and> ms_pending ms2 = None \<and>
    mem_bytes ms2 = mem_bytes ms \<union> pend_bytes (ms_hash ms) ps \<union> page_range pa n \<and>
    (\<forall>q \<in> insert p (set ps). pg_mode (ph_page (ms_hash ms2) q) = PM_NONE)"
proof -
  obtain s e i where c: "page_range pa n \<subseteq> chunk_area (s, e, i)" "(s, e, i) \<in> set (ms_chunks ms)"
    by (rule find_chunk_range [OF assms(1,8,9,11)])
  have "unat pa \<in> page_range pa n" using assms(8) by (simp add: page_range_def)
  with c(1) have "unat pa < unat e" by auto
  moreover have "kmap_ok (ms_map ms) e" using c(2) assms(1) by (auto simp: mem_ok_def)
  ultimately have virt: "virt_to_phys (ms_map ms) (phys_to_virt (ms_map ms) pa) = pa" by (simp add: phys_virt(1))
  define ms1 where "ms1 = (set_page p (\<lambda>pg. pg\<lparr>pg_mode := PM_PENDING_FREE, pg_offset := n\<rparr>) ms)\<lparr>ms_pending := Some (ps @ [p])\<rparr>"
  have free: "mckernel_free_pages z d ask (phys_to_virt (ms_map ms) pa) n u ms = Some ms1"
    using virt assms(2,5) by (simp add: mckernel_free_pages_def ms1_def)
  have same: "\<forall>q \<in> set ps. ph_page (ms_hash ms1) q = ph_page (ms_hash ms) q" using assms(7) by (auto simp: ms1_def)
  have pr: "pend_range (ms_hash ms1) p = page_range pa n" using assms(6) by (simp add: pend_range_def ms1_def)
  have "pend_ok (ms_hash ms1) (mem_range ms1) (ps @ [p])"
    unfolding pend_ok_append using pend_cong [OF same] pr assms by (auto simp: ms1_def)
  moreover have "pend_bytes (ms_hash ms1) (ps @ [p]) \<inter> mem_bytes ms1 = {}"
    using pend_cong(1) [OF same] pr assms(4,12) by (auto simp: ms1_def)
  moreover have "mem_ok ms1" using assms(1) by (simp add: ms1_def)
  ultimately obtain ms2 where fin: "finish_loop z d ask (ps @ [p]) ms1 = Inr ms2" "mem_ok ms2"
    "mem_bytes ms2 = mem_bytes ms1 \<union> pend_bytes (ms_hash ms1) (ps @ [p])"
    "\<forall>q. pg_mode (ph_page (ms_hash ms2) q) = (if q \<in> set (ps @ [p]) then PM_NONE else pg_mode (ph_page (ms_hash ms1) q))"
    using finish_loop_sound [of ms1 "ps @ [p]" z d ask] by blast
  have pend: "ms_pending ms1 = Some (ps @ [p])" by (simp add: ms1_def)
  have "finish_free_pages_pending z d ask ms1 = Inr (ms2\<lparr>ms_pending := None\<rparr>)" using pend fin(1) by (simp add: finish_free_pages_pending_def)
  moreover have "begin_free_pages_pending ms1 = Inl Begin_Pending_Panic" using pend by (simp add: begin_free_pages_pending_def)
  moreover have "mem_bytes ms1 = mem_bytes ms" by (simp add: ms1_def)
  ultimately show ?thesis using free fin pr pend_cong(1) [OF same] by (intro exI [of _ ms1] exI [of _ "ms2\<lparr>ms_pending := None\<rparr>"]) auto
qed

text \<open>C32: A page requested for an address whose range has a policy other than the default but no
  memory object: the second lookup of the range uses \<open>range->memobj\<close> without the check the first one
  has, and the allocation dereferences a null pointer.\<close>

theorem range_policy_null_object:
  assumes "ms_vm ms = Some v" "ms_by_distance ms (ms_numa_id ms) \<noteq> None" "0 < n" "a \<noteq> - 1"
    "flag AND IHK_MC_AP_USER = 0 \<or> vv_numa_mem_policy v = MPOL_DEFAULT"
    "vm_range_policy_search (vv_policy_tree v) a = Some pol" "np_numa_mem_policy pol \<noteq> MPOL_DEFAULT"
    "vm_ok (vv_space v)" "first_overlap (pv_ranges (vv_space v)) a (a + 1) (vm_ptrs (vv_space v)) = Some q"
    "vr_memobj (pv_ranges (vv_space v) q) = None"
  shows "mckernel_allocate_aligned_pages_node z n p2align flag (- 1) u a ms = None"
proof -
  have "a < a + 1" using assms(4) by (metis not_le_imp_less inc_less_eq_self_iff_eq)
  then have look: "\<exists>v'. view_lookup a w = (Some (pv_ranges (vv_space v) q), v') \<and> view_same w v'" if "view_same v w" for w
  proof -
    obtain r vm where l: "lookup_process_memory_range a (a + 1) (vv_space w) = (r, vm)" by fastforce
    have w: "vm_ok (vv_space w)" "same_but_cache (vv_space v) (vv_space w)" using that assms(8) by (simp_all add: view_same_def)
    from lookup_sound [OF w(1) l] w(2) assms(9) \<open>a < a + 1\<close> have "r = Some q" "pv_ranges vm = pv_ranges (vv_space v)"
      by (simp_all add: same_but_cache_def)
    with l have "view_lookup a w = (Some (pv_ranges (vv_space v) q), w\<lparr>vv_space := vm\<rparr>)" by (simp add: view_lookup_def)
    with view_lookup_same show ?thesis by blast
  qed
  from look [OF view_same_refl] obtain v1 where l1: "view_lookup a v = (Some (pv_ranges (vv_space v) q), v1)" "view_same v v1" by blast
  from look [OF l1(2)] obtain v2 where l2: "view_lookup a v1 = (Some (pv_ranges (vv_space v) q), v2)" by blast
  have chk: "range_policy_check (- 1) flag a v = (Some pol, False, v1, False)"
    using assms l1(1) by (auto simp: range_policy_check_def range_is_shm_def)
  have eff: "effective_policy a (Some pol) False v1 = None"
    using assms(4,10) l2 by (simp add: effective_policy_def range_is_shm_def)
  show ?thesis using assms(1-3) chk eff
    by (auto simp: mckernel_allocate_aligned_pages_node_def alloc_else_def alloc_explicit_def alloc_user_policy_def distance_ids_def)
qed

subsection \<open>Witnesses\<close>

text \<open>Two nodes with memory, of which the second is far; the CPU is on the second.\<close>

definition example_node2 :: numa_node where
  "example_node2 = \<lparr>nn_id = 1, nn_free_chunks = RB_Null, nn_zeroed_list = [],
     nn_to_zero_list = [\<lparr>fc_addr = 0x80000, fc_size = 0x10000\<rparr>], nn_nr_to_zero_pages = 16, nn_zeroing_workers = 0,
     nn_nr_pages = 32, nn_nr_free_pages = 0, nn_min_addr = 0x80000, nn_max_addr = 0xa0000\<rparr>"

definition example_map :: kernel_map where
  "example_map = \<lparr>km_init_pt_loaded = True, km_linux_page_offset_base = 0xffff880000000000,
     km_kernel_start = 0xfffffffffe800000, km_kernel_phys_base = 0x200000\<rparr>"

definition example_view :: vm_view where
  "example_view = \<lparr>vv_numa_mem_policy = MPOL_DEFAULT, vv_numa_mask = [1, 0, 0, 0],
     vv_policy_tree = RB_Node RB_BLACK RB_Null \<lparr>np_start = 0x1000, np_end = 0x2000, np_numa_mask = [1, 0, 0, 0], np_numa_mem_policy = MPOL_BIND\<rparr> RB_Null,
     vv_space = example_vm\<rparr>"

text \<open>One page structure, for the page at 0x90000, which is in use.\<close>

definition example_hash :: page_hash where
  "example_hash = \<lparr>ph_bucket = (\<lambda>i. if i = 0x90 then [5] else []),
     ph_page = (\<lambda>_. \<lparr>pg_mode = PM_NONE, pg_phys = 0x90000, pg_count = 1, pg_mapped = 0, pg_offset = 0\<rparr>)\<rparr>"

definition example_ms :: mem_sys where
  "example_ms = \<lparr>ms_map = example_map, ms_nodes = [example_node, example_node2],
     ms_by_distance = (\<lambda>i. Some (if i = 0 then [0, 1] else [1, 0])),
     ms_chunks = [(0x10000, 0x60000, 0), (0x80000, 0xa0000, 1)], ms_rusage = example_rusage, ms_numa_id = 1,
     ms_vm = Some example_view, ms_hash = example_hash, ms_pending = Some [], ms_events = []\<rparr>"

lemma example_node2_ok: "numa_ok example_node2" "numa_bytes example_node2 = {0x80000 ..< 0x90000}"
  by (auto simp: numa_ok_def example_node2_def numa_waiting_def page_chunk_ok_def chunk_ok_def chunk_beg_def chunk_lim_def
      chunk_bytes_def PHYS_LIMIT_def numa_bytes_def numa_range_def free_tree_ok_def free_bytes_def rb_valid_def)

lemma example_owned: "owned (ms_chunks example_ms) 0 = {0x10000 ..< 0x60000}" "owned (ms_chunks example_ms) (Suc 0) = {0x80000 ..< 0xa0000}"
  by (auto simp: owned_def example_ms_def)

lemma example_ms_ok: "mem_ok example_ms"
  using example_node_ok example_node2_ok example_node_bytes example_owned
  by (auto simp: mem_ok_def example_ms_def less_Suc_eq mem_chunks_ok_def kmap_ok_def example_map_def example_view_def)

lemma example_ms_bytes: "mem_bytes example_ms = {0x10000 ..< 0x20000} \<union> {0x40000 ..< 0x60000} \<union> {0x80000 ..< 0x90000}"
  "mem_range example_ms = {0x10000 ..< 0x60000} \<union> {0x80000 ..< 0xa0000}"
  using example_node2_ok(2) example_node_bytes example_owned
  by (auto simp: mem_bytes_def mem_range_def example_ms_def lessThan_Suc numa_range_def example_node_def example_node2_def)


theorem pending_free_deferred_witness:
  "\<exists>ms1 ms2. mckernel_free_pages True False False (phys_to_virt example_map 0x90000) 1 True example_ms = Some ms1 \<and>
     finish_free_pages_pending True False False ms1 = Inr ms2 \<and>
     mem_bytes ms2 = {0x10000 ..< 0x20000} \<union> {0x40000 ..< 0x60000} \<union> {0x80000 ..< 0x90000} \<union> {0x90000 ..< 0x91000}"
proof -
  have "phys_to_page (ms_hash example_ms) 0x90000 = Some 5" "pg_phys (ph_page (ms_hash example_ms) 5) = 0x90000"
    by code_simp+
  moreover have "ms_pending example_ms = Some []" "ms_map example_ms = example_map" by (simp_all add: example_ms_def)
  moreover have "page_range 0x90000 1 = {0x90000 ..< 0x91000}" by (simp add: page_range_def)
  moreover have "{0x90000 ..< 0x91000} \<subseteq> mem_range example_ms" "{0x90000 ..< 0x91000} \<inter> mem_bytes example_ms = {}"
    by (auto simp: example_ms_bytes)
  ultimately show ?thesis
    using pending_free_deferred [OF example_ms_ok, of "[]" "0x90000" 5 1 True False False True]
    by (auto simp: example_ms_bytes INT_PAGES_MAX_def)
qed

theorem range_policy_null_object_witness:
  "mckernel_allocate_aligned_pages_node True 1 0 0 (- 1) True 0x1800 example_ms = None"
proof (rule range_policy_null_object [of _ example_view])
  show "vm_range_policy_search (vv_policy_tree example_view) 0x1800 =
    Some \<lparr>np_start = 0x1000, np_end = 0x2000, np_numa_mask = [1, 0, 0, 0], np_numa_mem_policy = MPOL_BIND\<rparr>"
    by (simp add: example_view_def)
  show "first_overlap (pv_ranges (vv_space example_view)) 0x1800 (0x1800 + 1) (vm_ptrs (vv_space example_view)) = Some 1"
    by (simp add: example_view_def example_vm_def first_overlap_Cons overlaps_def)
qed (simp_all add: example_ms_def example_view_def MPOL_BIND_def MPOL_DEFAULT_def example_vm_ok, simp add: example_vm_def)

definition empty_heap :: kheap where
  "empty_heap = \<lparr>kp_mem = (\<lambda>_. kmalloc_init_chunk 0 0), kp_free_list = (\<lambda>_. []), kp_remote_free_list = (\<lambda>_. [])\<rparr>"

lemma empty_heap_ok: "kheap_ok empty_heap {}" "heap_span empty_heap {} = {}"
  by (auto simp: kheap_ok_def empty_heap_def chunks_wf_def heap_chunks_def cpu_lists_ok_def heap_span_def span_def)

theorem kernel_heap_run_witness:
  "\<exists>ms' h' L. krun (heap_pages True 0) [KMalloc 0 100, KMalloc 1 5000, KMalloc 0 64] (example_ms, empty_heap, {}) = Some (ms', h', L) \<and>
     kheap_ok h' L \<and> heap_span h' L \<union> virt_bytes ms' = virt_bytes example_ms"
proof -
  have "krun_ok (heap_pages True 0) [KMalloc 0 100, KMalloc 1 5000, KMalloc 0 64] (example_ms, empty_heap, {})"
    by (auto split: option.splits)
  from kernel_heap_run [OF example_ms_ok empty_heap_ok(1) _ this] empty_heap_ok(2) show ?thesis by auto
qed

end
