(* ===== verification/NumaInit.thy ===== *)
theory NumaInit
  imports MemPages "HOL-Library.Product_Lexorder" "HOL-Library.Multiset"
begin

section \<open>Boot: memory nodes and distance tables\<close>

text \<open>
  \<open>numa_init\<close> and \<open>numa_distances_init\<close> of \<open>kernel/mem.c\<close>.  The first hands the memory chunks the host
  gave to the kernel to their nodes, the second allocates one table per node and sorts it by distance.
  The number of nodes, the chunks, the distances and the end of the early heap come from the boot
  parameters and are arguments.
\<close>

subsection \<open>Memory nodes\<close>

definition empty_node :: "nat \<Rightarrow> numa_node" where
  "empty_node i = \<lparr>nn_id = int i, nn_free_chunks = RB_Null, nn_zeroed_list = [], nn_to_zero_list = [],
     nn_nr_to_zero_pages = 0, nn_zeroing_workers = 0, nn_nr_pages = 0, nn_nr_free_pages = 0,
     nn_min_addr = 0xFFFFFFFFFFFFFFFF, nn_max_addr = 0\<rparr>"

text \<open>Memory the early boot allocator used is not given away.\<close>

definition skip_early_heap :: "u64 \<Rightarrow> u64 \<Rightarrow> u64 \<Rightarrow> u64" where
  "skip_early_heap last_early_heap start_a end_a =
     (if last_early_heap \<ge> start_a \<and> last_early_heap < end_a then last_early_heap else start_a)"

definition numa_init_chunk ::
  "u64 \<Rightarrow> u64 \<times> u64 \<times> nat \<Rightarrow> numa_node list \<times> rusage_global \<Rightarrow> (numa_node list \<times> rusage_global) option" where
  "numa_init_chunk last_early_heap chunk st =
     (case (chunk, st) of
        ((start_a, end_a, numa_id), (nodes, g)) \<Rightarrow>
          (let start_a = skip_early_heap last_early_heap start_a end_a
           in if numa_id < length nodes then
                (case ihk_numa_add_free_pages (nodes ! numa_id) start_a (end_a - start_a) of
                   None \<Rightarrow> None
                 | Some (ret, node) \<Rightarrow> Some (nodes[numa_id := node], rusage_total_memory_add (end_a - start_a) g))
              else None))"

fun numa_init_chunks ::
  "u64 \<Rightarrow> (u64 \<times> u64 \<times> nat) list \<Rightarrow> numa_node list \<times> rusage_global \<Rightarrow> (numa_node list \<times> rusage_global) option" where
  "numa_init_chunks last_early_heap [] st = Some st"
| "numa_init_chunks last_early_heap (chunk # chunks) st =
     (case numa_init_chunk last_early_heap chunk st of
        None \<Rightarrow> None | Some st \<Rightarrow> numa_init_chunks last_early_heap chunks st)"

definition numa_init :: "u64 \<Rightarrow> nat \<Rightarrow> (u64 \<times> u64 \<times> nat) list \<Rightarrow> rusage_global \<Rightarrow> (numa_node list \<times> rusage_global) option" where
  "numa_init last_early_heap nr_nodes chunks g =
     numa_init_chunks last_early_heap chunks (map empty_node [0 ..< nr_nodes], g)"

subsection \<open>Distance tables\<close>

record node_distance =
  nd_id :: int
  nd_distance :: int

text \<open>The six exclusive-or assignments that exchange two entries.\<close>

definition dist_swap :: "node_distance \<Rightarrow> node_distance \<Rightarrow> node_distance \<times> node_distance" where
  "dist_swap a b =
     (let a = a\<lparr>nd_id := nd_id a XOR nd_id b\<rparr>;
          b = b\<lparr>nd_id := nd_id b XOR nd_id a\<rparr>;
          a = a\<lparr>nd_id := nd_id a XOR nd_id b\<rparr>;
          a = a\<lparr>nd_distance := nd_distance a XOR nd_distance b\<rparr>;
          b = b\<lparr>nd_distance := nd_distance b XOR nd_distance a\<rparr>;
          a = a\<lparr>nd_distance := nd_distance a XOR nd_distance b\<rparr>
      in (a, b))"

definition dist_out_of_order :: "node_distance \<Rightarrow> node_distance \<Rightarrow> bool" where
  "dist_out_of_order a b \<longleftrightarrow> nd_distance a > nd_distance b \<or> (nd_distance a = nd_distance b \<and> nd_id a > nd_id b)"

text \<open>The inner loop from index \<open>j\<close> on, and the outer loop.\<close>

function dist_pass :: "nat \<Rightarrow> node_distance list \<Rightarrow> bool \<Rightarrow> node_distance list \<times> bool" where
  "dist_pass j xs swapped =
     (if j < length xs then
        (if dist_out_of_order (xs ! (j - 1)) (xs ! j) then
           (case dist_swap (xs ! (j - 1)) (xs ! j) of
              (a, b) \<Rightarrow> dist_pass (Suc j) (xs[j - 1 := a, j := b]) True)
         else dist_pass (Suc j) xs swapped)
      else (xs, swapped))"
  by pat_completeness auto
termination
  by (relation "measure (\<lambda>(j, xs, swapped). length xs - j)") auto

declare dist_pass.simps [simp del]

lemma xor_cancel: "b XOR (a XOR b) = a" for a b :: int
  by (rule bit_eqI) (auto simp: bit_simps)

lemma dist_swap_eq: "dist_swap a b = (b, a)"
  by (simp add: dist_swap_def Let_def xor.assoc xor_cancel)

text \<open>One pass carries the largest entry seen to the right.\<close>

fun bubble :: "node_distance \<Rightarrow> node_distance list \<Rightarrow> node_distance list \<times> bool" where
  "bubble x [] = ([x], False)"
| "bubble x (y # ys) =
     (if dist_out_of_order x y then (y # fst (bubble x ys), True)
      else (x # fst (bubble y ys), snd (bubble y ys)))"

lemma dist_pass_bubble:
  "dist_pass (Suc (length us)) (us @ x # ys) sw = (us @ fst (bubble x ys), sw \<or> snd (bubble x ys))"
proof (induction ys arbitrary: us x sw)
  case Nil
  show ?case by (simp add: dist_pass.simps)
next
  case (Cons y ys)
  show ?case
  proof (cases "dist_out_of_order x y")
    case True
    have "dist_pass (Suc (length us)) (us @ x # y # ys) sw = dist_pass (Suc (length (us @ [y]))) ((us @ [y]) @ x # ys) True"
      using True by (subst dist_pass.simps) (simp add: dist_swap_eq nth_append list_update_append)
    with Cons.IH [of "us @ [y]" x True] True show ?thesis by simp
  next
    case False
    have "dist_pass (Suc (length us)) (us @ x # y # ys) sw = dist_pass (Suc (length (us @ [x]))) ((us @ [x]) @ y # ys) sw"
      using False by (subst dist_pass.simps) (simp add: nth_append)
    with Cons.IH [of "us @ [x]" y sw] False show ?thesis by simp
  qed
qed

text \<open>The order of the tables is that of the pairs of distance and number.\<close>

definition nd_key :: "node_distance \<Rightarrow> int \<times> int" where
  "nd_key a = (nd_distance a, nd_id a)"

lemma out_of_order_key: "dist_out_of_order a b \<longleftrightarrow> nd_key b < nd_key a"
  by (auto simp: dist_out_of_order_def nd_key_def)

fun inversions :: "node_distance list \<Rightarrow> nat" where
  "inversions [] = 0"
| "inversions (x # xs) = length (filter (\<lambda>y. nd_key y < nd_key x) xs) + inversions xs"

lemma bubble_mset: "mset (fst (bubble x ys)) = add_mset x (mset ys)"
  by (induction x ys rule: bubble.induct) auto

lemma inversions_cong: "mset xs = mset ys \<Longrightarrow> length (filter P xs) = length (filter P ys)"
  by (metis mset_filter size_mset)

lemma bubble_inversions: "inversions (fst (bubble x ys)) + of_bool (snd (bubble x ys)) \<le> inversions (x # ys)"
proof (induction x ys rule: bubble.induct)
  case (2 x y ys)
  show ?case
  proof (cases "dist_out_of_order x y")
    case True
    then have lt: "nd_key y < nd_key x" by (simp add: out_of_order_key)
    then have nl: "\<not> nd_key x < nd_key y" by (rule less_not_sym)
    have "length (filter (\<lambda>z. nd_key z < nd_key y) (fst (bubble x ys))) = length (filter (\<lambda>z. nd_key z < nd_key y) (x # ys))"
      by (rule inversions_cong) (simp add: bubble_mset)
    with 2(1) [OF True] True lt nl show ?thesis by simp
  next
    case False
    have "length (filter (\<lambda>z. nd_key z < nd_key x) (fst (bubble y ys))) = length (filter (\<lambda>z. nd_key z < nd_key x) (y # ys))"
      by (rule inversions_cong) (simp add: bubble_mset)
    with 2(2) [OF False] False show ?thesis by simp
  qed
qed simp

lemma bubble_sorted: "\<not> snd (bubble x ys) \<Longrightarrow> fst (bubble x ys) = x # ys \<and> sorted (map nd_key (x # ys))"
  by (induction x ys rule: bubble.induct) (auto simp: out_of_order_key split: if_splits)

lemma dist_pass_first:
  "dist_pass (Suc 0) (x # xs) False = bubble x xs" "dist_pass (Suc 0) [] False = ([], False)"
  using dist_pass_bubble [of "[]" x xs False] by (simp_all add: dist_pass.simps [of "Suc 0" "[]"])

function dist_sort :: "node_distance list \<Rightarrow> node_distance list" where
  "dist_sort xs = (case dist_pass 1 xs False of (xs, swapped) \<Rightarrow> if swapped then dist_sort xs else xs)"
  by pat_completeness auto
termination
proof (relation "measure inversions")
  fix xs ys sw
  assume p: "(ys, sw) = dist_pass 1 xs False" "sw"
  then obtain x xs' where x: "xs = x # xs'" by (cases xs) (auto simp: dist_pass_first)
  with p bubble_inversions [of x xs'] show "(ys, xs) \<in> measure inversions" by (cases "bubble x xs'") (auto simp: dist_pass_first)
qed simp

declare dist_sort.simps [simp del]

lemma dist_sort_correct: "mset (dist_sort xs) = mset xs \<and> sorted (map nd_key (dist_sort xs))"
proof (induction xs rule: dist_sort.induct)
  case (1 xs)
  show ?case
  proof (cases xs)
    case Nil
    then show ?thesis by (simp add: dist_sort.simps dist_pass_first)
  next
    case (Cons x ys)
    obtain zs sw where b: "bubble x ys = (zs, sw)" by fastforce
    have m: "mset zs = mset xs" using bubble_mset [of x ys] b Cons by simp
    show ?thesis
    proof (cases sw)
      case True
      with "1" b Cons m show ?thesis by (simp add: dist_sort.simps [of "x # ys"] dist_pass_first)
    next
      case False
      with bubble_sorted [of x ys] b Cons m show ?thesis by (simp add: dist_sort.simps [of "x # ys"] dist_pass_first)
    qed
  qed
qed

definition IHK_MC_AP_NOWAIT :: u64 where
  "IHK_MC_AP_NOWAIT = 0x000002"

definition dist_table :: "(nat \<Rightarrow> nat \<Rightarrow> int) \<Rightarrow> nat \<Rightarrow> nat \<Rightarrow> node_distance list" where
  "dist_table dist n i = dist_sort (map (\<lambda>j. \<lparr>nd_id = int j, nd_distance = dist i j\<rparr>) [0 ..< n])"

text \<open>The page count is \<open>(sizeof(struct node_distance) * nr_nodes + PAGE_SIZE - 1) >> PAGE_SHIFT\<close>.  A
  node whose table cannot be allocated keeps a null pointer.\<close>

definition numa_distances_node :: "bool \<Rightarrow> (nat \<Rightarrow> nat \<Rightarrow> int) \<Rightarrow> nat \<Rightarrow> mem_sys \<Rightarrow> mem_sys option" where
  "numa_distances_node zero_at_free dist i ms =
     (let n = length (ms_nodes ms)
      in case ihk_mc_alloc_pages zero_at_free (int ((8 * n + 4096 - 1) div 4096)) IHK_MC_AP_NOWAIT False ms of
           None \<Rightarrow> None
         | Some (p, ms) \<Rightarrow>
             Some (ms\<lparr>ms_by_distance := (ms_by_distance ms)
               (i := if p = 0 then None else Some (map (\<lambda>d. nat (nd_id d)) (dist_table dist n i)))\<rparr>))"

fun numa_distances_loop :: "bool \<Rightarrow> (nat \<Rightarrow> nat \<Rightarrow> int) \<Rightarrow> nat list \<Rightarrow> mem_sys \<Rightarrow> mem_sys option" where
  "numa_distances_loop zero_at_free dist [] ms = Some ms"
| "numa_distances_loop zero_at_free dist (i # is) ms =
     (case numa_distances_node zero_at_free dist i ms of
        None \<Rightarrow> None | Some ms \<Rightarrow> numa_distances_loop zero_at_free dist is ms)"

definition numa_distances_init :: "bool \<Rightarrow> (nat \<Rightarrow> nat \<Rightarrow> int) \<Rightarrow> mem_sys \<Rightarrow> mem_sys option" where
  "numa_distances_init zero_at_free dist ms = numa_distances_loop zero_at_free dist [0 ..< length (ms_nodes ms)] ms"

subsection \<open>Boot establishes the invariant\<close>

fun boot_area :: "u64 \<Rightarrow> u64 \<times> u64 \<times> nat \<Rightarrow> nat set" where
  "boot_area heap (s, e, i) = {unat (skip_early_heap heap s e) ..< unat e}"

definition boot_bytes :: "u64 \<Rightarrow> (u64 \<times> u64 \<times> nat) list \<Rightarrow> nat \<Rightarrow> nat set" where
  "boot_bytes heap cs i = \<Union> (boot_area heap ` {c \<in> set cs. snd (snd c) = i})"

definition boot_chunks_ok :: "u64 \<Rightarrow> nat \<Rightarrow> (u64 \<times> u64 \<times> nat) list \<Rightarrow> bool" where
  "boot_chunks_ok heap n cs \<longleftrightarrow> mem_chunks_ok n cs \<and> 4096 dvd unat heap \<and>
     (\<forall>(s, e, i) \<in> set cs. 0 < s \<and> unat e \<le> PHYS_LIMIT \<and> 4096 dvd unat s \<and> 4096 dvd unat e)"

lemma boot_area_sub: "boot_area heap c \<subseteq> chunk_area c"
  by (cases c) (auto simp: skip_early_heap_def word_le_nat_alt)

lemma boot_bytes_simps: "boot_bytes heap [] i = {}"
  "boot_bytes heap (c # cs) i = (if snd (snd c) = i then boot_area heap c else {}) \<union> boot_bytes heap cs i"
  by (auto simp: boot_bytes_def)

lemma boot_bytes_owned: "boot_bytes heap cs i \<subseteq> owned cs i"
  unfolding boot_bytes_def owned_def using boot_area_sub by blast

lemma boot_chunks_Cons:
  assumes "boot_chunks_ok heap n (c # cs)"
  shows "boot_chunks_ok heap n cs" "boot_area heap c \<inter> boot_bytes heap cs i = {}"
proof -
  show "boot_chunks_ok heap n cs" using assms by (auto simp: boot_chunks_ok_def mem_chunks_ok_def)
  have "chunk_area c \<inter> chunk_area d = {}" if "d \<in> set cs" for d
    using assms that by (intro chunks_gap_disjoint) (auto simp: boot_chunks_ok_def mem_chunks_ok_def)
  with boot_area_sub show "boot_area heap c \<inter> boot_bytes heap cs i = {}" unfolding boot_bytes_def by blast
qed

text \<open>What a node has after some chunks were added.\<close>

definition boot_node_ok :: "nat set \<Rightarrow> numa_node \<Rightarrow> bool" where
  "boot_node_ok B node \<longleftrightarrow> numa_ok node \<and> numa_bytes node = B"

definition boot_total :: "u64 \<Rightarrow> (u64 \<times> u64 \<times> nat) list \<Rightarrow> u64" where
  "boot_total heap cs = sum_list (map (\<lambda>(s, e, i). e - skip_early_heap heap s e) cs)"

lemma numa_init_chunk_sound:
  assumes "boot_chunks_ok heap n (c # cs)" "length nodes = n" "boot_node_ok B (nodes ! snd (snd c))" "boot_area heap c \<inter> B = {}"
  shows "\<exists>node. numa_init_chunk heap c (nodes, g) = Some (nodes[snd (snd c) := node], g\<lparr>ru_total_memory := ru_total_memory g + boot_total heap [c]\<rparr>) \<and>
    boot_node_ok (B \<union> boot_area heap c) node"
proof -
  obtain s e i where c: "c = (s, e, i)" by (cases c)
  define st where "st = skip_early_heap heap s e"
  have ce: "s < e" "i < n" "0 < s" "unat e \<le> PHYS_LIMIT" "4096 dvd unat s" "4096 dvd unat e" "4096 dvd unat heap"
    using assms(1) c by (auto simp: boot_chunks_ok_def mem_chunks_ok_def)
  have st: "unat st < unat e" "unat s \<le> unat st" "4096 dvd unat st"
    using ce by (auto simp: st_def skip_early_heap_def word_less_nat_alt word_le_nat_alt)
  have sz: "unat (e - st) = unat e - unat st" using st(1) by (subst u64_sub) (simp_all add: word_le_nat_alt)
  have area: "{unat st ..< unat st + unat (e - st)} = boot_area heap c" using st(1) sz by (simp add: c st_def)
  have pos: "0 < unat st" using ce(3) st(2) by (simp add: word_less_nat_alt)
  have size_pos: "0 < unat (e - st)" "4096 dvd unat (e - st)" "unat st + unat (e - st) \<le> PHYS_LIMIT"
    using st ce(4,6) sz by (auto simp: dvd_diff_nat)
  have node: "numa_ok (nodes ! i)" "{unat st ..< unat st + unat (e - st)} \<inter> numa_bytes (nodes ! i) = {}"
    using assms(3,4) c area by (auto simp: boot_node_ok_def)
  from numa_add_free_sound [OF node(1) pos size_pos node(2)] obtain node where
    a: "ihk_numa_add_free_pages (nodes ! i) st (e - st) = Some (0, node)" "numa_ok node"
      "numa_bytes node = numa_bytes (nodes ! i) \<union> {unat st ..< unat st + unat (e - st)}" by blast
  with assms(2,3) ce(2) c area show ?thesis
    by (auto simp: numa_init_chunk_def Let_def st_def [symmetric] rusage_total_memory_add_def boot_total_def boot_node_ok_def)
qed

lemma numa_init_chunks_sound:
  assumes "boot_chunks_ok heap n cs" "length nodes = n" "\<forall>i < n. boot_node_ok (B i) (nodes ! i)"
    "\<forall>i < n. \<forall>j. boot_bytes heap cs j \<inter> B i = {}"
  shows "\<exists>nodes'. numa_init_chunks heap cs (nodes, g) = Some (nodes', g\<lparr>ru_total_memory := ru_total_memory g + boot_total heap cs\<rparr>) \<and>
    length nodes' = n \<and> (\<forall>i < n. boot_node_ok (B i \<union> boot_bytes heap cs i) (nodes' ! i))"
  using assms
proof (induction cs arbitrary: nodes B g)
  case Nil
  then show ?case by (simp add: boot_bytes_simps boot_total_def)
next
  case (Cons c cs)
  define i where "i = snd (snd c)"
  have i: "i < n" using Cons.prems(1) by (cases c) (auto simp: i_def boot_chunks_ok_def mem_chunks_ok_def)
  have dis: "boot_area heap c \<inter> B k = {}" if "k < n" for k
    using Cons.prems(4) that boot_bytes_simps(2) [of heap c cs i] by (auto simp: i_def)
  from numa_init_chunk_sound [OF Cons.prems(1,2), of "B i" g] Cons.prems(3) i dis [OF i] obtain node where
    s: "numa_init_chunk heap c (nodes, g) = Some (nodes[i := node], g\<lparr>ru_total_memory := ru_total_memory g + boot_total heap [c]\<rparr>)"
      "boot_node_ok (B i \<union> boot_area heap c) node" by (auto simp: i_def)
  let ?B = "B(i := B i \<union> boot_area heap c)"
  have 1: "length (nodes[i := node]) = n" "\<forall>k < n. boot_node_ok (?B k) (nodes[i := node] ! k)"
    using Cons.prems(2,3) s(2) i by (auto simp: nth_list_update)
  have 2: "\<forall>k < n. \<forall>j. boot_bytes heap cs j \<inter> ?B k = {}"
    using Cons.prems(4) boot_chunks_Cons(2) [OF Cons.prems(1)] unfolding boot_bytes_simps by (simp add: Int_Un_distrib Int_Un_distrib2 Int_commute)
  from Cons.IH [OF boot_chunks_Cons(1) [OF Cons.prems(1)] 1 2, of "g\<lparr>ru_total_memory := ru_total_memory g + boot_total heap [c]\<rparr>"]
  obtain nodes' where
    n: "numa_init_chunks heap cs (nodes[i := node], g\<lparr>ru_total_memory := ru_total_memory g + boot_total heap [c]\<rparr>) =
        Some (nodes', g\<lparr>ru_total_memory := ru_total_memory g + boot_total heap [c] + boot_total heap cs\<rparr>)" "length nodes' = n"
      "\<forall>k < n. boot_node_ok (?B k \<union> boot_bytes heap cs k) (nodes' ! k)" by auto
  have "?B k \<union> boot_bytes heap cs k = B k \<union> boot_bytes heap (c # cs) k" for k by (auto simp: boot_bytes_simps i_def)
  with n s(1) show ?case by (auto simp: boot_total_def add.assoc)
qed

lemma numa_init_sound:
  assumes "boot_chunks_ok heap n cs"
  shows "\<exists>nodes. numa_init heap n cs g = Some (nodes, g\<lparr>ru_total_memory := ru_total_memory g + boot_total heap cs\<rparr>) \<and>
    length nodes = n \<and> (\<forall>i < n. boot_node_ok (boot_bytes heap cs i) (nodes ! i))"
proof -
  have "boot_node_ok {} (empty_node i)" for i
    by (auto simp: boot_node_ok_def numa_ok_def empty_node_def numa_waiting_def numa_bytes_def free_tree_ok_def free_bytes_def rb_valid_def)
  then show ?thesis using numa_init_chunks_sound [OF assms, of "map empty_node [0 ..< n]" "\<lambda>_. {}" g] by (simp add: numa_init_def)
qed

lemma boot_mem_ok:
  assumes "boot_chunks_ok heap n cs" "length (ms_nodes ms) = n" "\<forall>i < n. boot_node_ok (boot_bytes heap cs i) (ms_nodes ms ! i)"
    "ms_chunks ms = cs" "ms_numa_id ms < n" "ms_by_distance ms = (\<lambda>_. None)" "ms_vm ms = None"
    "\<forall>(s, e, i) \<in> set cs. kmap_ok (ms_map ms) e"
  shows "mem_ok ms" "mem_bytes ms = \<Union> (boot_area heap ` set cs)"
proof -
  show "mem_ok ms" using assms boot_bytes_owned by (auto simp: mem_ok_def boot_node_ok_def boot_chunks_ok_def)
  have "mem_bytes ms = (\<Union>i < n. boot_bytes heap cs i)" using assms(2,3) by (simp add: mem_bytes_def boot_node_ok_def)
  also have "\<dots> = \<Union> (boot_area heap ` set cs)"
  proof -
    have "snd (snd c) < n" if "c \<in> set cs" for c using assms(1) that by (auto simp: boot_chunks_ok_def mem_chunks_ok_def)
    then show ?thesis unfolding boot_bytes_def by blast
  qed
  finally show "mem_bytes ms = \<Union> (boot_area heap ` set cs)" .
qed

subsection \<open>The distance tables\<close>

text \<open>The nodes in the order of their distance, the number deciding between equals.\<close>

definition by_distance :: "(nat \<Rightarrow> nat \<Rightarrow> int) \<Rightarrow> nat \<Rightarrow> nat \<Rightarrow> nat list" where
  "by_distance dist n i = sort_key (\<lambda>j. (dist i j, j)) [0 ..< n]"

lemma nat_key_sorted: "sorted (map (\<lambda>j. (f j, int j)) js) \<Longrightarrow> sorted (map (\<lambda>j. (f j, j)) js)" for f :: "nat \<Rightarrow> int"
  by (simp add: sorted_map)

lemma dist_table_sorted: "map (\<lambda>d. nat (nd_id d)) (dist_table dist n i) = by_distance dist n i"
proof -
  let ?e = "\<lambda>j. \<lparr>nd_id = int j, nd_distance = dist i j\<rparr>" and ?t = "dist_table dist n i"
  have t: "mset ?t = mset (map ?e [0 ..< n])" "sorted (map nd_key ?t)"
    using dist_sort_correct unfolding dist_table_def by blast+
  have e: "\<exists>j. d = ?e j" if "d \<in> set ?t" for d
    using that mset_eq_setD [OF t(1)] by auto
  have k: "map nd_key ?t = map (\<lambda>j. (dist i j, int j)) (map (\<lambda>d. nat (nd_id d)) ?t)" (is "_ = map _ ?js")
    by (auto simp: nd_key_def dest!: e)
  have "mset ?js = image_mset (\<lambda>d. nat (nd_id d)) (mset ?t)" by simp
  also have "\<dots> = mset [0 ..< n]" unfolding t(1) by (simp add: image_mset.compositionality o_def)
  finally have m: "mset ?js = mset [0 ..< n]" .
  have s: "sorted (map (\<lambda>j. (dist i j, j)) ?js)"
    by (rule nat_key_sorted) (use t(2) in \<open>simp only: k\<close>)
  show ?thesis unfolding by_distance_def
    by (rule sort_key_inj_key_eq [OF m [symmetric] _ s, symmetric]) (simp add: inj_on_def)
qed

definition table_ok :: "(nat \<Rightarrow> nat \<Rightarrow> int) \<Rightarrow> mem_sys \<Rightarrow> nat \<Rightarrow> bool" where
  "table_ok dist ms i \<longleftrightarrow> ms_by_distance ms i \<in> {None, Some (by_distance dist (length (ms_nodes ms)) i)}"

lemma numa_distances_node_sound:
  assumes "mem_ok ms" "length (ms_nodes ms) \<le> 0x1000000"
  shows "\<exists>ms'. numa_distances_node z dist i ms = Some ms' \<and> mem_ok ms' \<and> mem_bytes ms' \<subseteq> mem_bytes ms \<and>
    length (ms_nodes ms') = length (ms_nodes ms) \<and> table_ok dist ms' i \<and> (\<forall>j. j \<noteq> i \<longrightarrow> ms_by_distance ms' j = ms_by_distance ms j)"
proof -
  let ?n = "length (ms_nodes ms)"
  define k where "k = int ((8 * ?n + 4096 - 1) div 4096)"
  have "0 < ?n" using assms(1) by (auto simp: mem_ok_def)
  then have "0 < (8 * ?n + 4096 - 1) div 4096" by (simp only: div_greater_zero_iff) linarith
  then have "0 < k" "k \<le> 0x80000" using assms(2) by (simp_all add: k_def)
  then have "request_ok k PAGE_P2ALIGN" "policy_safe (- 1) ms" by (simp_all add: request_ok_def PAGE_P2ALIGN_def policy_safe_def)
  from allocate_sound [OF assms(1) this, of z IHK_MC_AP_NOWAIT "- 1" False] obtain pa ms1 where
    a: "mckernel_allocate_aligned_pages_node z k PAGE_P2ALIGN IHK_MC_AP_NOWAIT (- 1) False (- 1) ms = Some (pa, ms1)" "alloc_effect k ms pa ms1"
    by (auto simp: alloc_good_def)
  then obtain p where p: "ihk_mc_alloc_pages z k IHK_MC_AP_NOWAIT False ms = Some (p, ms1)"
    by (auto simp: ihk_mc_alloc_pages_def alloc_page_def)
  have f: "mem_ok ms1" "mem_bytes ms1 \<subseteq> mem_bytes ms" "length (ms_nodes ms1) = ?n" "ms_by_distance ms1 = ms_by_distance ms"
    using a(2) by (auto simp: alloc_effect_def mem_frame_def split: if_splits)
  have "set (by_distance dist ?n i) = {..<?n}" by (auto simp: by_distance_def)
  with f p show ?thesis
    by (auto simp: numa_distances_node_def Let_def k_def dist_table_sorted table_ok_def mem_ok_def mem_bytes_def)
qed

lemma numa_distances_loop_sound:
  assumes "mem_ok ms" "length (ms_nodes ms) \<le> 0x1000000" "distinct is"
  shows "\<exists>ms'. numa_distances_loop z dist is ms = Some ms' \<and> mem_ok ms' \<and> mem_bytes ms' \<subseteq> mem_bytes ms \<and>
    length (ms_nodes ms') = length (ms_nodes ms) \<and> (\<forall>i \<in> set is. table_ok dist ms' i) \<and>
    (\<forall>j. j \<notin> set is \<longrightarrow> ms_by_distance ms' j = ms_by_distance ms j)"
  using assms
proof (induction "is" arbitrary: ms)
  case (Cons i "is")
  from numa_distances_node_sound [OF Cons.prems(1,2), of z dist i] obtain ms1 where
    1: "numa_distances_node z dist i ms = Some ms1" "mem_ok ms1" "mem_bytes ms1 \<subseteq> mem_bytes ms" "length (ms_nodes ms1) = length (ms_nodes ms)"
      "table_ok dist ms1 i" "\<forall>j. j \<noteq> i \<longrightarrow> ms_by_distance ms1 j = ms_by_distance ms j" by blast
  from Cons.IH [OF 1(2)] Cons.prems(2,3) 1(4) obtain ms2 where
    2: "numa_distances_loop z dist is ms1 = Some ms2" "mem_ok ms2" "mem_bytes ms2 \<subseteq> mem_bytes ms1" "length (ms_nodes ms2) = length (ms_nodes ms)"
      "\<forall>i \<in> set is. table_ok dist ms2 i" "\<forall>j. j \<notin> set is \<longrightarrow> ms_by_distance ms2 j = ms_by_distance ms1 j" by auto
  have "table_ok dist ms2 i" using 1(4,5) 2(4,6) Cons.prems(3) by (simp add: table_ok_def)
  with 1 2 show ?case by auto
qed simp

subsection \<open>Boot\<close>



end
