(* ===== verification/PageTable.thy ===== *)
theory PageTable
  imports NumaInit "HOL-Library.Monad_Syntax"
begin

section \<open>Page tables of the x86-64 port\<close>

text \<open>
  \<open>arch/x86_64/kernel/memory.c\<close> and the entry accessors of \<open>arch-memory.h\<close>.  A pointer to a
  \<open>struct page_table\<close> is its kernel virtual address; the tables that are allocated are the domain of
  \<open>ps_tab\<close>, so that an access to a page that is no page table, or no longer one, is the result \<open>None\<close>,
  like a panic.  A pointer to an entry is a pair of table and index.  Table pages come from the page
  allocator of \<open>MemPages\<close> and go back to it.  The locks around the tables are not part of the model.
\<close>

subsection \<open>Constants and entry accessors\<close>

definition "PTL1_SHIFT = (12 :: nat)"
definition "PTL2_SHIFT = (21 :: nat)"
definition "PTL3_SHIFT = (30 :: nat)"
definition "PTL4_SHIFT = (39 :: nat)"

definition PTL4_SIZE :: u64 where
  "PTL4_SIZE = 0x8000000000"

definition PT_ENTRIES :: nat where
  "PT_ENTRIES = 512"

definition PAGE_MASK :: u64 where
  "PAGE_MASK = 0xfffffffffffff000"

definition LARGE_PAGE_MASK :: u64 where
  "LARGE_PAGE_MASK = 0xffffffffffe00000"

definition PT_PHYSMASK :: u64 where
  "PT_PHYSMASK = 0x000ffffffffff000"

definition "PF_PRESENT = (0x01 :: u64)"
definition "PF_WRITABLE = (0x02 :: u64)"
definition "PFLX_PWT = (0x08 :: u64)"
definition "PFLX_PCD = (0x10 :: u64)"
definition "PFLX_DIRTY = (0x40 :: u64)"
definition "PF_SIZE = (0x80 :: u64)"
definition "PFLX_FILEOFF = (0x800 :: u64)"
definition "PTATTR_LARGEPAGE = (0x80 :: u64)"
definition "PTATTR_FILEOFF = (0x800 :: u64)"

text \<open>\<open>PFL4_PDIR_ATTR\<close>, \<open>PFL3_PDIR_ATTR\<close> and \<open>PFL2_PDIR_ATTR\<close>: present, writable, user.\<close>

definition PDIR_ATTR :: u64 where
  "PDIR_ATTR = 0x07"

definition PTE_NULL :: u64 where
  "PTE_NULL = 0"

definition pfn_is_write_combined :: "u64 \<Rightarrow> bool" where
  "pfn_is_write_combined pfn \<longleftrightarrow> pfn AND PFLX_PWT \<noteq> 0 \<and> \<not> pfn AND PFLX_PCD \<noteq> 0"

definition pte_is_null :: "u64 \<Rightarrow> bool" where
  "pte_is_null pte \<longleftrightarrow> pte = PTE_NULL"

definition pte_is_present :: "u64 \<Rightarrow> bool" where
  "pte_is_present pte \<longleftrightarrow> pte AND PF_PRESENT \<noteq> 0"

definition pte_is_writable :: "u64 \<Rightarrow> bool" where
  "pte_is_writable pte \<longleftrightarrow> pte AND PF_WRITABLE \<noteq> 0"

text \<open>The dirty and the file offset bit are at the same place on all levels.\<close>

definition pte_is_dirty :: "u64 \<Rightarrow> bool" where
  "pte_is_dirty pte \<longleftrightarrow> pte AND PFLX_DIRTY \<noteq> 0"

definition pte_is_fileoff :: "u64 \<Rightarrow> bool" where
  "pte_is_fileoff pte \<longleftrightarrow> pte AND PFLX_FILEOFF \<noteq> 0"

definition pte_update_phys :: "u64 \<Rightarrow> u64 \<Rightarrow> u64" where
  "pte_update_phys pte phys = pte AND NOT PT_PHYSMASK OR phys AND PT_PHYSMASK"

definition pte_get_phys :: "u64 \<Rightarrow> u64" where
  "pte_get_phys pte = pte AND PT_PHYSMASK"

definition pte_get_off :: "u64 \<Rightarrow> u64" where
  "pte_get_off pte = pte AND PAGE_MASK"

definition pte_get_attr :: "u64 \<Rightarrow> u64 \<Rightarrow> u64 \<Rightarrow> u64" where
  "pte_get_attr attr_mask pte pgsize =
     (let attr = pte AND attr_mask;
          attr = (if pte AND PFLX_PWT \<noteq> 0
                  then (if pte AND PFLX_PCD \<noteq> 0 then attr OR PTATTR_UNCACHABLE else attr OR PTATTR_WRITE_COMBINED)
                  else attr)
      in if pgsize = PTL2_SIZE \<and> pte AND PF_SIZE \<noteq> 0 \<or> pgsize = PTL3_SIZE \<and> pte AND PF_SIZE \<noteq> 0
         then attr OR PTATTR_LARGEPAGE else attr)"

definition pte_make_fileoff :: "u64 \<Rightarrow> u64 \<Rightarrow> u64 \<Rightarrow> u64" where
  "pte_make_fileoff off ptattr pgsize =
     (let attr = ptattr AND NOT PAGE_MASK;
          attr = (if pgsize = PTL2_SIZE \<or> pgsize = PTL3_SIZE then attr OR (PFLX_FILEOFF OR PF_SIZE) else attr OR PFLX_FILEOFF)
      in off AND PAGE_MASK OR attr)"

definition pte_clear_dirty :: "u64 \<Rightarrow> u64" where
  "pte_clear_dirty pte = pte AND NOT PFLX_DIRTY"

definition pte_set_dirty :: "u64 \<Rightarrow> u64" where
  "pte_set_dirty pte = pte OR PFLX_DIRTY"

definition pgsize_to_tbllv :: "u64 \<Rightarrow> int" where
  "pgsize_to_tbllv pgsize =
     (if pgsize = PTL1_SIZE then 1 else if pgsize = PTL2_SIZE then 2 else if pgsize = PTL3_SIZE then 3
      else if pgsize = PTL4_SIZE then 4 else 0)"

definition tbllv_to_pgsize :: "int \<Rightarrow> u64" where
  "tbllv_to_pgsize level =
     (if level = 1 then PTL1_SIZE else if level = 2 then PTL2_SIZE else if level = 3 then PTL3_SIZE
      else if level = 4 then PTL4_SIZE else 0)"

subsection \<open>State\<close>

text \<open>What leaves this part of the kernel: invalidations of translations on the CPUs of an address
  space, and dirty pages written back to their object.\<close>

datatype pt_event = Flush_Tlb | Flush_Addr u64 | Flush_Array "u64 list" | Memobj_Flush_Page nat u64 u64

record pt_sys =
  ps_tab :: "u64 \<Rightarrow> (nat \<Rightarrow> u64) option"
  ps_ms :: mem_sys
  ps_objs :: "nat \<Rightarrow> memobj"
  ps_init_pt :: u64
  ps_fixed_virt :: u64
  ps_use_1gb_page :: bool
  ps_attr_mask :: u64
  ps_zero_at_free :: bool
  ps_deferred_zero :: bool
  ps_may_ask :: bool
  ps_events :: "pt_event list"

definition pt_event :: "pt_event \<Rightarrow> pt_sys \<Rightarrow> pt_sys" where
  "pt_event e s = s\<lparr>ps_events := ps_events s @ [e]\<rparr>"

definition pt_phys_to_virt :: "pt_sys \<Rightarrow> u64 \<Rightarrow> u64" where
  "pt_phys_to_virt s p = phys_to_virt (ms_map (ps_ms s)) p"

definition pt_virt_to_phys :: "pt_sys \<Rightarrow> u64 \<Rightarrow> u64" where
  "pt_virt_to_phys s va = virt_to_phys (ms_map (ps_ms s)) va"

definition pt_read :: "u64 \<times> nat \<Rightarrow> pt_sys \<Rightarrow> u64 option" where
  "pt_read ptep s = (case ps_tab s (fst ptep) of None \<Rightarrow> None | Some t \<Rightarrow> if snd ptep < PT_ENTRIES then Some (t (snd ptep)) else None)"

definition pt_write :: "u64 \<times> nat \<Rightarrow> u64 \<Rightarrow> pt_sys \<Rightarrow> pt_sys option" where
  "pt_write ptep pte s =
     (case ps_tab s (fst ptep) of
        None \<Rightarrow> None
      | Some t \<Rightarrow> if snd ptep < PT_ENTRIES then Some (s\<lparr>ps_tab := (ps_tab s)(fst ptep \<mapsto> t(snd ptep := pte))\<rparr>) else None)"

definition pt_rusage :: "(rusage_global \<Rightarrow> rusage_global) \<Rightarrow> pt_sys \<Rightarrow> pt_sys" where
  "pt_rusage f s =
     (let ms = ps_ms s; r = ms_rusage ms in s\<lparr>ps_ms := ms\<lparr>ms_rusage := r\<lparr>rs_global := f (rs_global r)\<rparr>\<rparr>\<rparr>)"

definition pt_hash :: "(page_hash \<Rightarrow> page_hash) \<Rightarrow> pt_sys \<Rightarrow> pt_sys" where
  "pt_hash f s = s\<lparr>ps_ms := (ps_ms s)\<lparr>ms_hash := f (ms_hash (ps_ms s))\<rparr>\<rparr>"

definition pt_phys_to_page :: "pt_sys \<Rightarrow> u64 \<Rightarrow> nat option" where
  "pt_phys_to_page s phys = phys_to_page (ms_hash (ps_ms s)) phys"

text \<open>Whether the object pointer is set and has one of the flags.\<close>

definition obj_has :: "pt_sys \<Rightarrow> nat option \<Rightarrow> u32 \<Rightarrow> bool" where
  "obj_has s obj flags = (case obj of None \<Rightarrow> False | Some m \<Rightarrow> mo_flags (ps_objs s m) AND flags \<noteq> 0)"

text \<open>\<open>rusage_memory_stat_add\<close> of the accounting, on the page structures of the hash.\<close>

definition pt_stat_add :: "vm_range \<Rightarrow> u64 \<Rightarrow> u64 \<Rightarrow> pt_sys \<Rightarrow> pt_sys" where
  "pt_stat_add rng phys pgsize s =
     (let h = ms_hash (ps_ms s);
          pages = (\<lambda>phys. map_option (\<lambda>p. pg_mapped (ph_page h p)) (phys_to_page h phys))
      in case rusage_memory_stat_add (ps_objs s) pages rng phys pgsize pgsize (rs_global (ms_rusage (ps_ms s))) of
           (ret, g, pages) \<Rightarrow>
             (let s = pt_rusage (\<lambda>_. g) s
              in case (phys_to_page h phys, pages phys) of
                   (Some p, Some mapped) \<Rightarrow> s\<lparr>ps_ms := set_page p (\<lambda>pg. pg\<lparr>pg_mapped := mapped\<rparr>) (ps_ms s)\<rparr>
                 | _ \<Rightarrow> s))"

subsection \<open>Table pages\<close>

definition IHK_MC_AP_CRITICAL :: u64 where
  "IHK_MC_AP_CRITICAL = 0x000001"

definition pt_alloc_pages :: "int \<Rightarrow> u64 \<Rightarrow> pt_sys \<Rightarrow> (u64 \<times> pt_sys) option" where
  "pt_alloc_pages npages flag s =
     do { (va, ms) \<leftarrow> ihk_mc_alloc_pages (ps_zero_at_free s) npages flag False (ps_ms s);
          Some (va, s\<lparr>ps_ms := ms\<rparr>) }"

definition pt_free_pages :: "u64 \<Rightarrow> int \<Rightarrow> bool \<Rightarrow> pt_sys \<Rightarrow> pt_sys option" where
  "pt_free_pages va npages is_user s =
     do { ms \<leftarrow> mckernel_free_pages (ps_zero_at_free s) (ps_deferred_zero s) (ps_may_ask s) va npages is_user (ps_ms s);
          Some (s\<lparr>ps_ms := ms\<rparr>) }"

definition alloc_new_pt :: "u64 \<Rightarrow> pt_sys \<Rightarrow> (u64 \<times> pt_sys) option" where
  "alloc_new_pt ap_flag s =
     do { (newpt, s) \<leftarrow> pt_alloc_pages 1 ap_flag s;
          Some (newpt, if newpt \<noteq> 0 then s\<lparr>ps_tab := (ps_tab s)(newpt \<mapsto> (\<lambda>_. 0))\<rparr> else s) }"

text \<open>\<open>ihk_mc_free_pages(pt, 1)\<close>: the page is no page table any more.\<close>

definition free_pt :: "u64 \<Rightarrow> pt_sys \<Rightarrow> pt_sys option" where
  "free_pt pt s = pt_free_pages pt 1 False (s\<lparr>ps_tab := (ps_tab s)(pt := None)\<rparr>)"

subsection \<open>Attributes\<close>

definition attr_mask_init :: u64 where
  "attr_mask_init = PTATTR_FILEOFF OR PTATTR_WRITABLE OR PTATTR_USER OR PTATTR_ACTIVE"

definition enable_ptattr_no_execute :: "pt_sys \<Rightarrow> pt_sys" where
  "enable_ptattr_no_execute s = s\<lparr>ps_attr_mask := ps_attr_mask s OR PTATTR_NO_EXECUTE\<rparr>"

definition attr_to_l3attr :: "u64 \<Rightarrow> u64 \<Rightarrow> u64" where
  "attr_to_l3attr attr_mask attr =
     (let r = attr AND (attr_mask OR PTATTR_LARGEPAGE)
      in if attr AND PTATTR_UNCACHABLE \<noteq> 0 \<and> attr AND PTATTR_LARGEPAGE \<noteq> 0 then r OR PFLX_PCD OR PFLX_PWT else r)"

definition attr_to_l2attr :: "u64 \<Rightarrow> u64 \<Rightarrow> u64" where
  "attr_to_l2attr attr_mask attr =
     (let r = attr AND (attr_mask OR PTATTR_LARGEPAGE)
      in if attr AND PTATTR_UNCACHABLE \<noteq> 0 \<and> attr AND PTATTR_LARGEPAGE \<noteq> 0 then r OR PFLX_PCD OR PFLX_PWT else r)"

definition attr_to_l1attr :: "u64 \<Rightarrow> u64 \<Rightarrow> u64" where
  "attr_to_l1attr attr_mask attr =
     (if attr AND PTATTR_UNCACHABLE \<noteq> 0 then attr AND attr_mask OR PFLX_PCD OR PFLX_PWT
      else if attr AND PTATTR_WRITE_COMBINED \<noteq> 0 then attr AND attr_mask OR PFLX_PWT
      else attr AND attr_mask)"

definition set_pte :: "u64 \<times> nat \<Rightarrow> u64 \<Rightarrow> u64 \<Rightarrow> pt_sys \<Rightarrow> pt_sys option" where
  "set_pte ppte phys attr s =
     (if attr AND PTATTR_LARGEPAGE \<noteq> 0 then pt_write ppte (phys OR attr_to_l2attr (ps_attr_mask s) attr OR PF_SIZE) s
      else pt_write ppte (phys OR attr_to_l1attr (ps_attr_mask s) attr) s)"

text \<open>\<open>GET_VIRT_INDICES\<close>.\<close>

definition virt_index :: "nat \<Rightarrow> u64 \<Rightarrow> nat" where
  "virt_index shift virt = unat (drop_bit shift virt AND 511)"

subsection \<open>Single pages\<close>

definition pt_or_init :: "u64 \<Rightarrow> pt_sys \<Rightarrow> u64" where
  "pt_or_init pt s = (if pt = 0 then ps_init_pt s else pt)"

text \<open>One level down: the table of a present entry, or a new one.  The result 0 is a failed allocation.\<close>

definition pt_next_alloc :: "u64 \<Rightarrow> u64 \<Rightarrow> nat \<Rightarrow> pt_sys \<Rightarrow> (u64 \<times> pt_sys) option" where
  "pt_next_alloc ap_flag pt i s =
     do { pte \<leftarrow> pt_read (pt, i) s;
          if pte AND PF_PRESENT \<noteq> 0 then Some (pt_phys_to_virt s (pte AND PAGE_MASK), s)
          else do {
            (newpt, s) \<leftarrow> alloc_new_pt ap_flag s;
            if newpt = 0 then Some (0, s)
            else do {
              s \<leftarrow> pt_write (pt, i) (pt_virt_to_phys s newpt OR PDIR_ATTR) s;
              Some (newpt, s) } } }"

definition EBUSY :: int where
  "EBUSY = 16"

text \<open>The entry of a large page, and of a small one.\<close>

definition set_pt_large :: "u64 \<Rightarrow> nat \<Rightarrow> u64 \<Rightarrow> u64 \<Rightarrow> pt_sys \<Rightarrow> (int \<times> pt_sys) option" where
  "set_pt_large pt l2idx phys attr s =
     do { pte \<leftarrow> pt_read (pt, l2idx) s;
          if pte AND PF_PRESENT \<noteq> 0 then Some (if pte AND PAGE_MASK \<noteq> phys then - ENOMEM else 0, s)
          else do {
            s \<leftarrow> pt_write (pt, l2idx) (phys OR attr_to_l2attr (ps_attr_mask s) attr OR PF_SIZE) s;
            Some (0, s) } }"

definition set_pt_small :: "u64 \<Rightarrow> nat \<Rightarrow> u64 \<Rightarrow> u64 \<Rightarrow> pt_sys \<Rightarrow> (int \<times> pt_sys) option" where
  "set_pt_small pt l1idx phys attr s =
     do { pte \<leftarrow> pt_read (pt, l1idx) s;
          if pte AND PF_PRESENT \<noteq> 0 then Some (if pte AND PT_PHYSMASK \<noteq> phys then - EBUSY else 0, s)
          else do {
            s \<leftarrow> pt_write (pt, l1idx) (phys OR attr_to_l1attr (ps_attr_mask s) attr) s;
            Some (0, s) } }"

definition set_pt_page :: "u64 \<Rightarrow> u64 \<Rightarrow> u64 \<Rightarrow> u64 \<Rightarrow> pt_sys \<Rightarrow> (int \<times> pt_sys) option" where
  "set_pt_page pt virt phys attr s =
     (let ap_flag = (if attr AND PTATTR_FOR_USER \<noteq> 0 then IHK_MC_AP_NOWAIT else IHK_MC_AP_CRITICAL);
          pt = pt_or_init pt s;
          phys = (if attr AND PTATTR_LARGEPAGE \<noteq> 0 then phys AND LARGE_PAGE_MASK else phys AND PAGE_MASK)
      in do {
        (pt, s) \<leftarrow> pt_next_alloc ap_flag pt (virt_index PTL4_SHIFT virt) s;
        if pt = 0 then Some (- ENOMEM, s)
        else do {
          (pt, s) \<leftarrow> pt_next_alloc ap_flag pt (virt_index PTL3_SHIFT virt) s;
          if pt = 0 then Some (- ENOMEM, s)
          else if attr AND PTATTR_LARGEPAGE \<noteq> 0 then set_pt_large pt (virt_index PTL2_SHIFT virt) phys attr s
          else do {
            (pt, s) \<leftarrow> pt_next_alloc ap_flag pt (virt_index PTL2_SHIFT virt) s;
            if pt = 0 then Some (- ENOMEM, s)
            else set_pt_small pt (virt_index PTL1_SHIFT virt) phys attr s } } })"

definition clear_pt_page :: "u64 \<Rightarrow> u64 \<Rightarrow> bool \<Rightarrow> pt_sys \<Rightarrow> (int \<times> pt_sys) option" where
  "clear_pt_page pt virt largepage s =
     (let pt = pt_or_init pt s;
          v = (if largepage then virt AND LARGE_PAGE_MASK else virt AND PAGE_MASK)
      in do {
        e4 \<leftarrow> pt_read (pt, virt_index PTL4_SHIFT v) s;
        if \<not> e4 AND PF_PRESENT \<noteq> 0 then Some (- EINVAL, s)
        else do {
          let pt = pt_phys_to_virt s (e4 AND PAGE_MASK);
          e3 \<leftarrow> pt_read (pt, virt_index PTL3_SHIFT v) s;
          if \<not> e3 AND PF_PRESENT \<noteq> 0 then Some (- EINVAL, s)
          else do {
            let pt = pt_phys_to_virt s (e3 AND PAGE_MASK);
            e2 \<leftarrow> pt_read (pt, virt_index PTL2_SHIFT v) s;
            if largepage then
              (if \<not> e2 AND PF_PRESENT \<noteq> 0 then Some (- EINVAL, s)
               else do { s \<leftarrow> pt_write (pt, virt_index PTL2_SHIFT v) 0 s; Some (0, s) })
            else if \<not> e2 AND PF_PRESENT \<noteq> 0 then Some (- EINVAL, s)
            else do {
              let pt = pt_phys_to_virt s (e2 AND PAGE_MASK);
              s \<leftarrow> pt_write (pt, virt_index PTL1_SHIFT v) 0 s;
              Some (0, s) } } } })"

text \<open>The error, or the physical address and the size of the page.\<close>

definition ihk_mc_pt_virt_to_phys_size :: "u64 \<Rightarrow> u64 \<Rightarrow> pt_sys \<Rightarrow> (int + u64 \<times> u64) option" where
  "ihk_mc_pt_virt_to_phys_size pt v s =
     (let pt = pt_or_init pt s
      in do {
        e4 \<leftarrow> pt_read (pt, virt_index PTL4_SHIFT v) s;
        if \<not> e4 AND PF_PRESENT \<noteq> 0 then Some (Inl (- EFAULT))
        else do {
          let pt = pt_phys_to_virt s (pte_get_phys e4);
          e3 \<leftarrow> pt_read (pt, virt_index PTL3_SHIFT v) s;
          if \<not> e3 AND PF_PRESENT \<noteq> 0 then Some (Inl (- EFAULT))
          else if e3 AND PF_SIZE \<noteq> 0 then Some (Inr (pte_get_phys e3 OR (v AND (PTL3_SIZE - 1)), PTL3_SIZE))
          else do {
            let pt = pt_phys_to_virt s (pte_get_phys e3);
            e2 \<leftarrow> pt_read (pt, virt_index PTL2_SHIFT v) s;
            if \<not> e2 AND PF_PRESENT \<noteq> 0 then Some (Inl (- EFAULT))
            else if e2 AND PF_SIZE \<noteq> 0 then Some (Inr (pte_get_phys e2 OR (v AND (PTL2_SIZE - 1)), PTL2_SIZE))
            else do {
              let pt = pt_phys_to_virt s (pte_get_phys e2);
              e1 \<leftarrow> pt_read (pt, virt_index PTL1_SHIFT v) s;
              if \<not> e1 AND PF_PRESENT \<noteq> 0 then Some (Inl (- EFAULT))
              else Some (Inr (pte_get_phys e1 OR (v AND (PTL1_SIZE - 1)), PTL1_SIZE)) } } } })"

definition ihk_mc_pt_virt_to_phys :: "u64 \<Rightarrow> u64 \<Rightarrow> pt_sys \<Rightarrow> (int + u64) option" where
  "ihk_mc_pt_virt_to_phys pt v s = map_option (map_sum id fst) (ihk_mc_pt_virt_to_phys_size pt v s)"

definition PM_PSHIFT :: "u64 \<Rightarrow> u64" where
  "PM_PSHIFT x = push_bit 55 x AND push_bit 55 (2 ^ 6 - 1)"

definition PM_PFRAME :: "u64 \<Rightarrow> u64" where
  "PM_PFRAME x = x AND (2 ^ 55 - 1)"

definition PM_PRESENT :: u64 where
  "PM_PRESENT = push_bit 61 4 AND push_bit 61 (2 ^ 3 - 1)"

definition ihk_mc_pt_virt_to_pagemap :: "u64 \<Rightarrow> u64 \<Rightarrow> pt_sys \<Rightarrow> u64 option" where
  "ihk_mc_pt_virt_to_pagemap pt virt s =
     do { r \<leftarrow> ihk_mc_pt_virt_to_phys pt virt s;
          case r of
            Inl _ \<Rightarrow> Some (PM_PSHIFT (word_of_nat PAGE_SHIFT))
          | Inr phys \<Rightarrow> Some (PM_PFRAME (drop_bit PAGE_SHIFT phys) OR (PM_PSHIFT (word_of_nat PAGE_SHIFT) OR PM_PRESENT)) }"

definition ihk_mc_pt_set_large_page :: "u64 \<Rightarrow> u64 \<Rightarrow> u64 \<Rightarrow> u64 \<Rightarrow> pt_sys \<Rightarrow> (int \<times> pt_sys) option" where
  "ihk_mc_pt_set_large_page pt virt phys attr s = set_pt_page pt virt phys (attr OR PTATTR_LARGEPAGE OR PTATTR_ACTIVE) s"

definition ihk_mc_pt_set_page :: "u64 \<Rightarrow> u64 \<Rightarrow> u64 \<Rightarrow> u64 \<Rightarrow> pt_sys \<Rightarrow> (int \<times> pt_sys) option" where
  "ihk_mc_pt_set_page pt virt phys attr s = set_pt_page pt virt phys (attr OR PTATTR_ACTIVE) s"

definition ihk_mc_pt_clear_page :: "u64 \<Rightarrow> u64 \<Rightarrow> pt_sys \<Rightarrow> (int \<times> pt_sys) option" where
  "ihk_mc_pt_clear_page pt virt s = clear_pt_page pt virt False s"

definition ihk_mc_pt_clear_large_page :: "u64 \<Rightarrow> u64 \<Rightarrow> pt_sys \<Rightarrow> (int \<times> pt_sys) option" where
  "ihk_mc_pt_clear_large_page pt virt s = clear_pt_page pt virt True s"

subsection \<open>Whole tables\<close>

datatype prepare_flag = IHK_MC_PT_FIRST_LEVEL | IHK_MC_PT_LAST_LEVEL

text \<open>The loop over the top entries stops with 0 at the first one that is present.\<close>

fun prepare_first :: "u64 \<Rightarrow> nat list \<Rightarrow> int \<Rightarrow> pt_sys \<Rightarrow> (int \<times> pt_sys) option" where
  "prepare_first pt [] ret s = Some (ret, s)"
| "prepare_first pt (l4idx # is) ret s =
     do { pte \<leftarrow> pt_read (pt, l4idx) s;
          if pte AND PF_PRESENT \<noteq> 0 then Some (0, s)
          else do {
            (newpt, s) \<leftarrow> alloc_new_pt IHK_MC_AP_CRITICAL s;
            if newpt = 0 then prepare_first pt is (- ENOMEM) s
            else do {
              s \<leftarrow> pt_write (pt, l4idx) (pt_virt_to_phys s newpt OR PDIR_ATTR) s;
              prepare_first pt is ret s } } }"

partial_function (option) prepare_last :: "u64 \<Rightarrow> u64 \<Rightarrow> u64 \<Rightarrow> pt_sys \<Rightarrow> (int \<times> pt_sys) option" where
  "prepare_last pt v l s =
     (if v < l then
        Option.bind (set_pt_page pt v 0 PTATTR_WRITABLE s)
          (\<lambda>r. if fst r \<noteq> 0 then Some r else prepare_last pt (v + PAGE_SIZE) l (snd r))
      else Some (0, s))"

definition ihk_mc_pt_prepare_map :: "u64 \<Rightarrow> u64 \<Rightarrow> u64 \<Rightarrow> prepare_flag \<Rightarrow> pt_sys \<Rightarrow> (int \<times> pt_sys) option" where
  "ihk_mc_pt_prepare_map p v sz flag s =
     (let pt = pt_or_init p s
      in case flag of
           IHK_MC_PT_FIRST_LEVEL \<Rightarrow> prepare_first pt [virt_index PTL4_SHIFT v ..< Suc (virt_index PTL4_SHIFT (v + sz))] 0 s
         | IHK_MC_PT_LAST_LEVEL \<Rightarrow> prepare_last pt v (v + sz) s)"

text \<open>A new top table shares the upper half, the kernel's, with \<open>init_pt\<close>.\<close>

definition ihk_mc_pt_create :: "u64 \<Rightarrow> pt_sys \<Rightarrow> (u64 \<times> pt_sys) option" where
  "ihk_mc_pt_create ap_flag s =
     do { (pt, s) \<leftarrow> pt_alloc_pages 1 ap_flag s;
          if pt = 0 then Some (0, s)
          else do {
            kern \<leftarrow> ps_tab s (ps_init_pt s);
            Some (pt, s\<lparr>ps_tab := (ps_tab s)(pt \<mapsto> (\<lambda>i. if i < PT_ENTRIES div 2 then 0 else kern i))\<rparr>) } }"

fun destroy_entries :: "(u64 \<Rightarrow> pt_sys \<Rightarrow> pt_sys option) \<Rightarrow> u64 \<Rightarrow> nat list \<Rightarrow> pt_sys \<Rightarrow> pt_sys option" where
  "destroy_entries destroy_lower pt [] s = Some s"
| "destroy_entries destroy_lower pt (ix # ixs) s =
     do { entry \<leftarrow> pt_read (pt, ix) s;
          s \<leftarrow> (if \<not> entry AND PF_PRESENT \<noteq> 0 then Some s
                else if entry AND PF_SIZE \<noteq> 0 then Some s
                else destroy_lower (pt_phys_to_virt s (entry AND PT_PHYSMASK)) s);
          destroy_entries destroy_lower pt ixs s }"

primrec destroy_page_table :: "nat \<Rightarrow> u64 \<Rightarrow> pt_sys \<Rightarrow> pt_sys option" where
  "destroy_page_table 0 = (\<lambda>pt s. None)"
| "destroy_page_table (Suc lower) = (\<lambda>pt s.
     if 4 < Suc lower then None
     else if pt = 0 then None
     else do {
       s \<leftarrow> (if Suc lower > 1 then destroy_entries (destroy_page_table lower) pt [0 ..< PT_ENTRIES] s else Some s);
       free_pt pt s })"

definition ihk_mc_pt_destroy :: "u64 \<Rightarrow> pt_sys \<Rightarrow> pt_sys option" where
  "ihk_mc_pt_destroy pt s =
     do { t \<leftarrow> ps_tab s pt;
          destroy_page_table 4 pt (s\<lparr>ps_tab := (ps_tab s)(pt \<mapsto> (\<lambda>i. if i < PT_ENTRIES div 2 then t i else 0))\<rparr>) }"

subsection \<open>Walking a range\<close>

text \<open>The loop of the four walkers: \<open>-ENOENT\<close> of a callback is passed over, every other error ends
  the walk.\<close>

fun walk_entries :: "(nat \<Rightarrow> 's \<Rightarrow> (int \<times> 's) option) \<Rightarrow> nat list \<Rightarrow> int \<Rightarrow> 's \<Rightarrow> (int \<times> 's) option" where
  "walk_entries f [] ret s = Some (ret, s)"
| "walk_entries f (i # is) ret s =
     do { (error, s) \<leftarrow> f i s;
          if error = 0 then walk_entries f is 0 s
          else if error \<noteq> - ENOENT then Some (error, s)
          else walk_entries f is ret s }"

type_synonym 's walk_fn = "u64 \<times> nat \<Rightarrow> u64 \<Rightarrow> u64 \<Rightarrow> u64 \<Rightarrow> 's \<Rightarrow> (int \<times> 's) option"

definition walk_pte_l1 :: "u64 \<Rightarrow> u64 \<Rightarrow> u64 \<Rightarrow> u64 \<Rightarrow> 's walk_fn \<Rightarrow> 's \<Rightarrow> (int \<times> 's) option" where
  "walk_pte_l1 pt base start_a end_a funcp s =
     (let six = (if start_a \<le> base then 0 else unat (drop_bit PTL1_SHIFT (start_a - base)));
          eix = (if end_a = 0 \<or> base + PTL2_SIZE \<le> end_a then PT_ENTRIES
                 else unat (drop_bit PTL1_SHIFT (end_a - base + (PTL1_SIZE - 1))))
      in walk_entries (\<lambda>i. funcp (pt, i) (base + word_of_nat i * PTL1_SIZE) start_a end_a) [six ..< eix] (- ENOENT) s)"

definition walk_pte_l2 :: "u64 \<Rightarrow> u64 \<Rightarrow> u64 \<Rightarrow> u64 \<Rightarrow> 's walk_fn \<Rightarrow> 's \<Rightarrow> (int \<times> 's) option" where
  "walk_pte_l2 pt base start_a end_a funcp s =
     (let six = (if start_a \<le> base then 0 else unat (drop_bit PTL2_SHIFT (start_a - base)));
          eix = (if end_a = 0 \<or> base + PTL3_SIZE \<le> end_a then PT_ENTRIES
                 else unat (drop_bit PTL2_SHIFT (end_a - base + (PTL2_SIZE - 1))))
      in walk_entries (\<lambda>i. funcp (pt, i) (base + word_of_nat i * PTL2_SIZE) start_a end_a) [six ..< eix] (- ENOENT) s)"

definition walk_pte_l3 :: "u64 \<Rightarrow> u64 \<Rightarrow> u64 \<Rightarrow> u64 \<Rightarrow> 's walk_fn \<Rightarrow> 's \<Rightarrow> (int \<times> 's) option" where
  "walk_pte_l3 pt base start_a end_a funcp s =
     (let six = (if start_a \<le> base then 0 else unat (drop_bit PTL3_SHIFT (start_a - base)));
          eix = (if end_a = 0 \<or> base + PTL4_SIZE \<le> end_a then PT_ENTRIES
                 else unat (drop_bit PTL3_SHIFT (end_a - base + (PTL3_SIZE - 1))))
      in walk_entries (\<lambda>i. funcp (pt, i) (base + word_of_nat i * PTL3_SIZE) start_a end_a) [six ..< eix] (- ENOENT) s)"

text \<open>The last walker does not compare the end with the reach of the table: an end above \<open>2 ^ 48\<close> makes
  it leave the table.\<close>

definition walk_pte_l4 :: "u64 \<Rightarrow> u64 \<Rightarrow> u64 \<Rightarrow> u64 \<Rightarrow> 's walk_fn \<Rightarrow> 's \<Rightarrow> (int \<times> 's) option" where
  "walk_pte_l4 pt base start_a end_a funcp s =
     (let six = (if start_a \<le> base then 0 else unat (drop_bit PTL4_SHIFT (start_a - base)));
          eix = (if end_a = 0 then PT_ENTRIES else unat (drop_bit PTL4_SHIFT (end_a - base + (PTL4_SIZE - 1))))
      in walk_entries (\<lambda>i. funcp (pt, i) (base + word_of_nat i * PTL4_SIZE) start_a end_a) [six ..< eix] (- ENOENT) s)"

subsection \<open>Splitting a large page\<close>

fun split_fill :: "u64 \<Rightarrow> u64 \<Rightarrow> u64 \<Rightarrow> nat list \<Rightarrow> u64 \<Rightarrow> pt_sys \<Rightarrow> pt_sys option" where
  "split_fill pgsize phys_base pt [] pte s = Some s"
| "split_fill pgsize phys_base pt (i # is) pte s =
     do { let s = (if phys_base \<noteq> NOPHYS then
                     (case pt_phys_to_page s (phys_base + word_of_nat i * pgsize div 512) of
                        None \<Rightarrow> s | Some p \<Rightarrow> pt_hash (page_map p) s)
                   else s);
          s \<leftarrow> pt_write (pt, i) pte s;
          let s = (if pgsize = PTL3_SIZE then pt_rusage (memory_stat_rss_add PTL2_SIZE PTL2_SIZE) s
                   else if pgsize = PTL2_SIZE then pt_rusage (memory_stat_rss_add PTL1_SIZE PTL1_SIZE) s
                   else s);
          split_fill pgsize phys_base pt is (pte + pgsize div 512) s }"

text \<open>A panic if the structure of a huge page was mapped only once.\<close>

definition split_unmap :: "u64 \<Rightarrow> u64 \<Rightarrow> pt_sys \<Rightarrow> pt_sys option" where
  "split_unmap pgsize phys_base s =
     (if pgsize \<noteq> PTL2_SIZE \<and> phys_base \<noteq> NOPHYS then
        (case pt_phys_to_page s phys_base of
           None \<Rightarrow> Some s
         | Some p \<Rightarrow> if fst (page_unmap p (ms_hash (ps_ms s))) \<noteq> 0 then None
                      else Some (pt_hash (\<lambda>h. snd (page_unmap p h)) s))
      else Some s)"

definition split_large_page :: "u64 \<times> nat \<Rightarrow> u64 \<Rightarrow> pt_sys \<Rightarrow> (int \<times> pt_sys) option" where
  "split_large_page ptep pgsize s =
     (if pgsize \<noteq> PTL3_SIZE \<and> pgsize \<noteq> PTL2_SIZE then Some (- EINVAL, s)
      else do {
        (pt, s) \<leftarrow> alloc_new_pt IHK_MC_AP_NOWAIT s;
        if pt = 0 then Some (- ENOMEM, s)
        else do {
          old \<leftarrow> pt_read ptep s;
          let pte = (if pgsize = PTL2_SIZE then old AND NOT PF_SIZE else old);
          let phys_base = (if pte_is_fileoff old then NOPHYS else pte_get_phys old);
          s \<leftarrow> split_fill pgsize phys_base pt [0 ..< PT_ENTRIES] pte s;
          s \<leftarrow> pt_write ptep (pt_virt_to_phys s pt AND PT_PHYSMASK OR PDIR_ATTR) s;
          let s = pt_rusage (memory_stat_rss_sub pgsize pgsize) s;
          s \<leftarrow> split_unmap pgsize phys_base s;
          Some (0, s) } })"

subsection \<open>Visiting entries\<close>

definition "E2BIG = (7 :: int)"
definition "VPTEF_SKIP_NULL = (0x0001 :: u64)"

type_synonym pte_visitor = "u64 \<times> nat \<Rightarrow> u64 \<Rightarrow> nat \<Rightarrow> pt_sys \<Rightarrow> (int \<times> pt_sys) option"

record visit_pte_args =
  vp_flags :: u64
  vp_pgshift :: nat
  vp_funcp :: pte_visitor

definition visit_pte_l1 :: "visit_pte_args \<Rightarrow> pt_sys walk_fn" where
  "visit_pte_l1 args ptep base start_a end_a s =
     do { pte \<leftarrow> pt_read ptep s;
          if pte = PTE_NULL \<and> vp_flags args AND VPTEF_SKIP_NULL \<noteq> 0 then Some (0, s)
          else vp_funcp args ptep base PTL1_SHIFT s }"

text \<open>The table below a directory entry, allocated if the entry is null; 0 if that fails.\<close>

definition visit_table :: "u64 \<times> nat \<Rightarrow> pt_sys \<Rightarrow> (u64 \<times> pt_sys) option" where
  "visit_table ptep s =
     do { pte \<leftarrow> pt_read ptep s;
          if pte = PTE_NULL then do {
            (pt, s) \<leftarrow> alloc_new_pt IHK_MC_AP_NOWAIT s;
            if pt = 0 then Some (0, s)
            else do { s \<leftarrow> pt_write ptep (pt_virt_to_phys s pt OR PDIR_ATTR) s; Some (pt, s) } }
          else Some (pt_phys_to_virt s (pte AND PT_PHYSMASK), s) }"

text \<open>The visitor itself for a page that lies in the range; \<open>-E2BIG\<close> asks for smaller pages.\<close>

definition visit_large :: "bool \<Rightarrow> pte_visitor \<Rightarrow> u64 \<times> nat \<Rightarrow> u64 \<Rightarrow> nat \<Rightarrow> pt_sys \<Rightarrow> (int \<times> pt_sys) option" where
  "visit_large call funcp ptep base pgshift s = (if call then funcp ptep base pgshift s else Some (- E2BIG, s))"

definition visit_pte_l2 :: "visit_pte_args \<Rightarrow> pt_sys walk_fn" where
  "visit_pte_l2 args ptep base start_a end_a s =
     do { pte \<leftarrow> pt_read ptep s;
          if pte = PTE_NULL \<and> vp_flags args AND VPTEF_SKIP_NULL \<noteq> 0 then Some (0, s)
          else do {
            (error, s) \<leftarrow> visit_large ((pte = PTE_NULL \<or> pte AND PF_SIZE \<noteq> 0) \<and> start_a \<le> base
                             \<and> (base + PTL2_SIZE \<le> end_a \<or> end_a = 0)
                             \<and> (vp_pgshift args = 0 \<or> vp_pgshift args = PTL2_SHIFT)) (vp_funcp args) ptep base PTL2_SHIFT s;
            if error \<noteq> - E2BIG then Some (error, s)
            else do {
              pte \<leftarrow> pt_read ptep s;
              if pte AND PF_SIZE \<noteq> 0 then Some (- ENOMEM, s)
              else do {
                (pt, s) \<leftarrow> visit_table ptep s;
                if pt = 0 then Some (- ENOMEM, s)
                else walk_pte_l1 pt base start_a end_a (visit_pte_l1 args) s } } } }"

definition visit_pte_l3 :: "visit_pte_args \<Rightarrow> pt_sys walk_fn" where
  "visit_pte_l3 args ptep base start_a end_a s =
     do { pte \<leftarrow> pt_read ptep s;
          if pte = PTE_NULL \<and> vp_flags args AND VPTEF_SKIP_NULL \<noteq> 0 then Some (0, s)
          else do {
            (error, s) \<leftarrow> visit_large ((pte = PTE_NULL \<or> pte AND PF_SIZE \<noteq> 0) \<and> start_a \<le> base
                             \<and> (base + PTL3_SIZE \<le> end_a \<or> end_a = 0)
                             \<and> (vp_pgshift args = 0 \<or> vp_pgshift args = PTL3_SHIFT)
                             \<and> ps_use_1gb_page s) (vp_funcp args) ptep base PTL3_SHIFT s;
            if error \<noteq> - E2BIG then Some (error, s)
            else do {
              pte \<leftarrow> pt_read ptep s;
              if pte AND PF_SIZE \<noteq> 0 then Some (- ENOMEM, s)
              else do {
                (pt, s) \<leftarrow> visit_table ptep s;
                if pt = 0 then Some (- ENOMEM, s)
                else walk_pte_l2 pt base start_a end_a (visit_pte_l2 args) s } } } }"

definition visit_pte_l4 :: "visit_pte_args \<Rightarrow> pt_sys walk_fn" where
  "visit_pte_l4 args ptep base start_a end_a s =
     do { pte \<leftarrow> pt_read ptep s;
          if pte = PTE_NULL \<and> vp_flags args AND VPTEF_SKIP_NULL \<noteq> 0 then Some (0, s)
          else do {
            (pt, s) \<leftarrow> visit_table ptep s;
            if pt = 0 then Some (- ENOMEM, s)
            else walk_pte_l3 pt base start_a end_a (visit_pte_l3 args) s } }"

definition visit_pte_range :: "u64 \<Rightarrow> u64 \<Rightarrow> u64 \<Rightarrow> nat \<Rightarrow> u64 \<Rightarrow> pte_visitor \<Rightarrow> pt_sys \<Rightarrow> (int \<times> pt_sys) option" where
  "visit_pte_range pt start_a end_a pgshift flags funcp s =
     walk_pte_l4 pt 0 start_a end_a (visit_pte_l4 \<lparr>vp_flags = flags, vp_pgshift = pgshift, vp_funcp = funcp\<rparr>) s"

subsection \<open>Clearing a range\<close>

definition TLB_INVALID_ARRAY_PAGES :: int where
  "TLB_INVALID_ARRAY_PAGES = 4"

text \<open>\<open>max_nr_addr\<close>: the addresses that fit the array.\<close>

definition max_nr_addr :: nat where
  "max_nr_addr = 4 * 4096 div 8"

record clear_range_args =
  cr_free_physical :: bool
  cr_memobj :: "nat option"
  cr_addr :: "u64 list"

type_synonym clear_state = "pt_sys \<times> clear_range_args"

definition remote_flush_tlb_add_addr :: "u64 \<Rightarrow> clear_state \<Rightarrow> clear_state" where
  "remote_flush_tlb_add_addr addr sa =
     (case sa of
        (s, args) \<Rightarrow>
          if length (cr_addr args) < max_nr_addr then (s, args\<lparr>cr_addr := cr_addr args @ [addr]\<rparr>)
          else (pt_event (Flush_Array (cr_addr args)) s, args\<lparr>cr_addr := [addr]\<rparr>))"

text \<open>What the three levels do with a page after its entry \<open>old\<close> was exchanged for null: write a dirty page
  of an object back, and release the page: at once if it has no structure and is not attached from
  another process, else when the last mapping goes.\<close>

definition clear_flush :: "nat option \<Rightarrow> u64 \<Rightarrow> u64 \<Rightarrow> pt_sys \<Rightarrow> pt_sys" where
  "clear_flush memobj old pgsize s =
     (if pte_is_fileoff old then s
      else
        (case (pt_phys_to_page s (pte_get_phys old), memobj) of
           (Some p, Some m) \<Rightarrow>
             if page_is_in_memobj (ph_page (ms_hash (ps_ms s)) p) \<and> pte_is_dirty old \<and>
                \<not> mo_flags (ps_objs s m) AND (MF_ZEROFILL OR MF_PRIVATE) \<noteq> 0
             then pt_event (Memobj_Flush_Page m (pte_get_phys old) pgsize) s else s
         | _ \<Rightarrow> s))"

definition clear_release :: "bool \<Rightarrow> nat option \<Rightarrow> u64 \<Rightarrow> u64 \<Rightarrow> pt_sys \<Rightarrow> pt_sys option" where
  "clear_release free_physical memobj old pgsize s =
     (if pte_is_fileoff old \<or> \<not> free_physical then Some s
      else
        (let phys = pte_get_phys old; npages = int (unat (pgsize div PTL1_SIZE))
         in case pt_phys_to_page s phys of
              None \<Rightarrow>
                if obj_has s memobj MF_XPMEM then Some s
                else do {
                  s \<leftarrow> pt_free_pages (pt_phys_to_virt s phys) npages True s;
                  Some (pt_rusage (memory_stat_rss_sub pgsize pgsize) s) }
            | Some p \<Rightarrow>
                (let ret = fst (page_unmap p (ms_hash (ps_ms s))); s = pt_hash (\<lambda>h. snd (page_unmap p h)) s
                 in if ret = 0 then Some s
                    else do {
                      s \<leftarrow> pt_free_pages (pt_phys_to_virt s phys) npages True s;
                      m \<leftarrow> memobj;
                      Some (pt_rusage (rusage_memory_stat_sub (ps_objs s m) pgsize pgsize) s) })))"

definition clear_page_entry :: "u64 \<Rightarrow> u64 \<times> nat \<Rightarrow> u64 \<Rightarrow> clear_state \<Rightarrow> (int \<times> clear_state) option" where
  "clear_page_entry pgsize ptep base sa =
     do { old \<leftarrow> pt_read ptep (fst sa);
          s \<leftarrow> pt_write ptep PTE_NULL (fst sa);
          let (s, args) = remote_flush_tlb_add_addr base (s, snd sa);
          s \<leftarrow> clear_release (cr_free_physical args) (cr_memobj args) old pgsize (clear_flush (cr_memobj args) old pgsize s);
          Some (0, (s, args)) }"

text \<open>A table all of whose addresses were cleared is unlinked and freed.\<close>

definition clear_table_entry :: "u64 \<times> nat \<Rightarrow> u64 \<Rightarrow> u64 \<Rightarrow> clear_state \<Rightarrow> (int \<times> clear_state) option" where
  "clear_table_entry ptep base pt sa =
     do { s \<leftarrow> pt_write ptep PTE_NULL (fst sa);
          let (s, args) = remote_flush_tlb_add_addr base (s, snd sa);
          s \<leftarrow> free_pt pt s;
          Some (0, (s, args)) }"

definition clear_range_l1 :: "clear_state walk_fn" where
  "clear_range_l1 ptep base start_a end_a sa =
     do { pte \<leftarrow> pt_read ptep (fst sa);
          if pte = PTE_NULL then Some (- ENOENT, sa) else clear_page_entry PTL1_SIZE ptep base sa }"

definition clear_range_l2 :: "clear_state walk_fn" where
  "clear_range_l2 ptep base start_a end_a sa =
     do { pte \<leftarrow> pt_read ptep (fst sa);
          if pte = PTE_NULL then Some (- ENOENT, sa)
          else if pte AND PF_SIZE \<noteq> 0 \<and> (base < start_a \<or> end_a < base + PTL2_SIZE) then Some (- EINVAL, sa)
          else if pte AND PF_SIZE \<noteq> 0 then clear_page_entry PTL2_SIZE ptep base sa
          else do {
            let pt = pt_phys_to_virt (fst sa) (pte AND PT_PHYSMASK);
            (error, sa) \<leftarrow> walk_pte_l1 pt base start_a end_a clear_range_l1 sa;
            if error \<noteq> 0 \<and> error \<noteq> - ENOENT then Some (error, sa)
            else if start_a \<le> base \<and> base + PTL2_SIZE \<le> end_a then clear_table_entry ptep base pt sa
            else Some (0, sa) } }"

definition clear_range_l3 :: "clear_state walk_fn" where
  "clear_range_l3 ptep base start_a end_a sa =
     do { pte \<leftarrow> pt_read ptep (fst sa);
          if pte = PTE_NULL then Some (- ENOENT, sa)
          else if pte AND PF_SIZE \<noteq> 0 \<and> (base < start_a \<or> end_a < base + PTL3_SIZE) then Some (- EINVAL, sa)
          else if pte AND PF_SIZE \<noteq> 0 then clear_page_entry PTL3_SIZE ptep base sa
          else do {
            let pt = pt_phys_to_virt (fst sa) (pte AND PT_PHYSMASK);
            (error, sa) \<leftarrow> walk_pte_l2 pt base start_a end_a clear_range_l2 sa;
            if error \<noteq> 0 \<and> error \<noteq> - ENOENT then Some (error, sa)
            else if ps_use_1gb_page (fst sa) \<and> start_a \<le> base \<and> base + PTL3_SIZE \<le> end_a then clear_table_entry ptep base pt sa
            else Some (0, sa) } }"

definition clear_range_l4 :: "clear_state walk_fn" where
  "clear_range_l4 ptep base start_a end_a sa =
     do { pte \<leftarrow> pt_read ptep (fst sa);
          if pte = PTE_NULL then Some (- ENOENT, sa)
          else walk_pte_l3 (pt_phys_to_virt (fst sa) (pte AND PT_PHYSMASK)) base start_a end_a clear_range_l3 sa }"

text \<open>Objects of device files and premapped ones, and the straight mapping of a process, keep their pages.\<close>

definition clear_frees :: "process_vm \<Rightarrow> u64 \<Rightarrow> u64 \<Rightarrow> bool \<Rightarrow> nat option \<Rightarrow> pt_sys \<Rightarrow> bool" where
  "clear_frees vm start_a end_a free_physical memobj s \<longleftrightarrow>
     free_physical \<and> \<not> obj_has s memobj MF_DEV_FILE \<and> \<not> obj_has s memobj MF_PREMAP \<and>
     \<not> (pv_straight_va vm \<noteq> 0 \<and> start_a = pv_straight_va vm \<and> end_a = pv_straight_va vm + pv_straight_len vm)"

definition clear_range :: "u64 \<Rightarrow> process_vm \<Rightarrow> u64 \<Rightarrow> u64 \<Rightarrow> bool \<Rightarrow> nat option \<Rightarrow> pt_sys \<Rightarrow> (int \<times> pt_sys) option" where
  "clear_range pt vm start_a end_a free_physical memobj s =
     (if start_a < pv_user_start vm \<or> pv_user_end vm < end_a \<or> end_a \<le> start_a then Some (- EINVAL, s)
      else do {
        (addr, s) \<leftarrow> pt_alloc_pages TLB_INVALID_ARRAY_PAGES IHK_MC_AP_CRITICAL s;
        if addr = 0 then Some (- ENOMEM, s)
        else do {
          (error, s, args) \<leftarrow> walk_pte_l4 pt 0 start_a end_a clear_range_l4
            (s, \<lparr>cr_free_physical = clear_frees vm start_a end_a free_physical memobj s, cr_memobj = memobj, cr_addr = []\<rparr>);
          let s = (if cr_addr args \<noteq> [] then pt_event (Flush_Array (cr_addr args)) s else s);
          s \<leftarrow> pt_free_pages addr TLB_INVALID_ARRAY_PAGES False s;
          Some (error, s) } })"

definition ihk_mc_pt_clear_range :: "u64 \<Rightarrow> process_vm \<Rightarrow> u64 \<Rightarrow> u64 \<Rightarrow> pt_sys \<Rightarrow> (int \<times> pt_sys) option" where
  "ihk_mc_pt_clear_range pt vm start_a end_a s = clear_range pt vm start_a end_a False None s"

definition ihk_mc_pt_free_range :: "u64 \<Rightarrow> process_vm \<Rightarrow> u64 \<Rightarrow> u64 \<Rightarrow> nat option \<Rightarrow> pt_sys \<Rightarrow> (int \<times> pt_sys) option" where
  "ihk_mc_pt_free_range pt vm start_a end_a memobj s = clear_range pt vm start_a end_a True memobj s"

subsection \<open>Changing attributes\<close>

definition change_attr :: "u64 \<Rightarrow> u64 \<Rightarrow> u64 \<Rightarrow> u64" where
  "change_attr clrpte setpte pte = pte AND NOT clrpte OR setpte"

definition change_attr_range_l1 :: "u64 \<Rightarrow> u64 \<Rightarrow> pt_sys walk_fn" where
  "change_attr_range_l1 clrpte setpte ptep base start_a end_a s =
     do { pte \<leftarrow> pt_read ptep s;
          if pte = PTE_NULL \<or> pte AND PFLX_FILEOFF \<noteq> 0 then Some (- ENOENT, s)
          else do { s \<leftarrow> pt_write ptep (change_attr clrpte setpte pte) s; Some (0, s) } }"

definition change_attr_range_l2 :: "u64 \<Rightarrow> u64 \<Rightarrow> pt_sys walk_fn" where
  "change_attr_range_l2 clrpte setpte ptep base start_a end_a s =
     do { pte \<leftarrow> pt_read ptep s;
          if pte = PTE_NULL \<or> pte AND PFLX_FILEOFF \<noteq> 0 then Some (- ENOENT, s)
          else if pte AND PF_SIZE \<noteq> 0 \<and> (base < start_a \<or> end_a < base + PTL2_SIZE) then Some (- EINVAL, s)
          else if pte AND PF_SIZE \<noteq> 0 then
            (if \<not> pte AND PFLX_FILEOFF \<noteq> 0 then do { s \<leftarrow> pt_write ptep (change_attr clrpte setpte pte) s; Some (0, s) }
             else Some (0, s))
          else walk_pte_l1 (pt_phys_to_virt s (pte AND PT_PHYSMASK)) base start_a end_a (change_attr_range_l1 clrpte setpte) s }"

definition change_attr_range_l3 :: "u64 \<Rightarrow> u64 \<Rightarrow> pt_sys walk_fn" where
  "change_attr_range_l3 clrpte setpte ptep base start_a end_a s =
     do { pte \<leftarrow> pt_read ptep s;
          if pte = PTE_NULL \<or> pte AND PFLX_FILEOFF \<noteq> 0 then Some (- ENOENT, s)
          else if pte AND PF_SIZE \<noteq> 0 \<and> (base < start_a \<or> end_a < base + PTL3_SIZE) then Some (- EINVAL, s)
          else if pte AND PF_SIZE \<noteq> 0 then
            (if \<not> pte AND PFLX_FILEOFF \<noteq> 0 then do { s \<leftarrow> pt_write ptep (change_attr clrpte setpte pte) s; Some (0, s) }
             else Some (0, s))
          else walk_pte_l2 (pt_phys_to_virt s (pte AND PT_PHYSMASK)) base start_a end_a (change_attr_range_l2 clrpte setpte) s }"

definition change_attr_range_l4 :: "u64 \<Rightarrow> u64 \<Rightarrow> pt_sys walk_fn" where
  "change_attr_range_l4 clrpte setpte ptep base start_a end_a s =
     do { pte \<leftarrow> pt_read ptep s;
          if pte = PTE_NULL then Some (- ENOENT, s)
          else walk_pte_l3 (pt_phys_to_virt s (pte AND PT_PHYSMASK)) base start_a end_a (change_attr_range_l3 clrpte setpte) s }"

definition ihk_mc_pt_change_attr_range :: "u64 \<Rightarrow> u64 \<Rightarrow> u64 \<Rightarrow> u64 \<Rightarrow> u64 \<Rightarrow> pt_sys \<Rightarrow> (int \<times> pt_sys) option" where
  "ihk_mc_pt_change_attr_range pt start_a end_a clrattr setattr s =
     walk_pte_l4 pt 0 start_a end_a
       (change_attr_range_l4 (attr_to_l1attr (ps_attr_mask s) clrattr) (attr_to_l1attr (ps_attr_mask s) setattr)) s"

subsection \<open>Looking an entry up\<close>

text \<open>The entry that governs an address, if one of at most the wanted size can, with the shift of the page
  that it describes; then the base and the size are computed from the shift.\<close>

definition lookup_pte_shift :: "u64 \<Rightarrow> u64 \<Rightarrow> nat \<Rightarrow> pt_sys \<Rightarrow> ((u64 \<times> nat) option \<times> nat) option" where
  "lookup_pte_shift pt virt pgshift s =
     (let pgshift = (if pgshift = 0 then (if ps_use_1gb_page s then PTL3_SHIFT else PTL2_SHIFT) else pgshift)
      in do {
        e4 \<leftarrow> pt_read (pt, virt_index PTL4_SHIFT virt) s;
        if e4 = PTE_NULL then Some (None, if pgshift > PTL3_SHIFT then PTL3_SHIFT else pgshift)
        else do {
          let pt = pt_phys_to_virt s (pte_get_phys e4);
          e3 \<leftarrow> pt_read (pt, virt_index PTL3_SHIFT virt) s;
          if e3 = PTE_NULL \<or> e3 AND PF_SIZE \<noteq> 0 then
            Some (if pgshift \<ge> PTL3_SHIFT then (Some (pt, virt_index PTL3_SHIFT virt), PTL3_SHIFT) else (None, pgshift))
          else do {
            let pt = pt_phys_to_virt s (pte_get_phys e3);
            e2 \<leftarrow> pt_read (pt, virt_index PTL2_SHIFT virt) s;
            if e2 = PTE_NULL \<or> e2 AND PF_SIZE \<noteq> 0 then
              Some (if pgshift \<ge> PTL2_SHIFT then (Some (pt, virt_index PTL2_SHIFT virt), PTL2_SHIFT) else (None, pgshift))
            else Some (Some (pt_phys_to_virt s (pte_get_phys e2), virt_index PTL1_SHIFT virt), PTL1_SHIFT) } } })"

definition lookup_pte :: "u64 \<Rightarrow> u64 \<Rightarrow> nat \<Rightarrow> pt_sys \<Rightarrow> ((u64 \<times> nat) option \<times> u64 \<times> u64 \<times> int) option" where
  "lookup_pte pt virt pgshift s =
     do { (ptep, pgshift) \<leftarrow> lookup_pte_shift pt virt pgshift s;
          let sz = push_bit pgshift 1;
          Some (ptep, virt AND NOT (sz - 1), sz, int pgshift - int PAGE_SHIFT) }"

subsection \<open>Mapping a range\<close>

record set_range_args =
  sr_pt :: u64
  sr_phys :: u64
  sr_attr :: u64
  sr_pgshift :: nat
  sr_diff :: u64
  sr_vm :: process_vm
  sr_range :: vm_range

text \<open>An error part of the way: what was mapped so far is cleared; the result of that is ignored.\<close>

definition set_range_undo :: "set_range_args \<Rightarrow> u64 \<Rightarrow> u64 \<Rightarrow> int \<Rightarrow> pt_sys \<Rightarrow> (int \<times> pt_sys) option" where
  "set_range_undo args start_a base error s =
     do { (_, s) \<leftarrow> clear_range (sr_pt args) (sr_vm args) start_a base False None s;
          Some (error, s) }"

definition set_range_l1 :: "set_range_args \<Rightarrow> pt_sys walk_fn" where
  "set_range_l1 args ptep base start_a end_a s =
     do { pte \<leftarrow> pt_read ptep s;
          if pte \<noteq> PTE_NULL then set_range_undo args start_a base (- EBUSY) s
          else do {
            let phys = sr_phys args + (base - start_a);
            s \<leftarrow> pt_write ptep (phys OR attr_to_l1attr (ps_attr_mask s) (sr_attr args)) s;
            Some (0, pt_stat_add (sr_range args) phys PTL1_SIZE s) } }"

text \<open>The compare-and-exchange that links a new table succeeds because nothing runs in between.\<close>

definition set_range_l2 :: "set_range_args \<Rightarrow> pt_sys walk_fn" where
  "set_range_l2 args ptep base start_a end_a s =
     do { pte \<leftarrow> pt_read ptep s;
          if pte = PTE_NULL then
            (if start_a \<le> base \<and> base + PTL2_SIZE \<le> end_a \<and> sr_diff args AND (PTL2_SIZE - 1) = 0
                \<and> (sr_pgshift args = 0 \<or> sr_pgshift args = PTL2_SHIFT)
             then do {
               let phys = sr_phys args + (base - start_a);
               s \<leftarrow> pt_write ptep (phys OR attr_to_l2attr (ps_attr_mask s) (sr_attr args OR PTATTR_LARGEPAGE)) s;
               Some (0, pt_stat_add (sr_range args) phys PTL2_SIZE s) }
             else do {
               (newpt, s) \<leftarrow> alloc_new_pt IHK_MC_AP_NOWAIT s;
               if newpt = 0 then set_range_undo args start_a base (- ENOMEM) s
               else do {
                 s \<leftarrow> pt_write ptep (pt_virt_to_phys s newpt OR PDIR_ATTR) s;
                 walk_pte_l1 newpt base start_a end_a (set_range_l1 args) s } })
          else if pte AND PF_SIZE \<noteq> 0 then set_range_undo args start_a base (- EBUSY) s
          else walk_pte_l1 (pt_phys_to_virt s (pte AND PT_PHYSMASK)) base start_a end_a (set_range_l1 args) s }"

definition set_range_l3 :: "set_range_args \<Rightarrow> pt_sys walk_fn" where
  "set_range_l3 args ptep base start_a end_a s =
     do { pte \<leftarrow> pt_read ptep s;
          if pte = PTE_NULL then
            (if start_a \<le> base \<and> base + PTL3_SIZE \<le> end_a \<and> sr_diff args AND (PTL3_SIZE - 1) = 0
                \<and> (sr_pgshift args = 0 \<or> sr_pgshift args = PTL3_SHIFT) \<and> ps_use_1gb_page s
             then do {
               let phys = sr_phys args + (base - start_a);
               s \<leftarrow> pt_write ptep (phys OR attr_to_l3attr (ps_attr_mask s) (sr_attr args OR PTATTR_LARGEPAGE)) s;
               Some (0, pt_stat_add (sr_range args) phys PTL3_SIZE s) }
             else do {
               (newpt, s) \<leftarrow> alloc_new_pt IHK_MC_AP_NOWAIT s;
               if newpt = 0 then set_range_undo args start_a base (- ENOMEM) s
               else do {
                 s \<leftarrow> pt_write ptep (pt_virt_to_phys s newpt OR PDIR_ATTR) s;
                 walk_pte_l2 newpt base start_a end_a (set_range_l2 args) s } })
          else if pte AND PF_SIZE \<noteq> 0 then set_range_undo args start_a base (- EBUSY) s
          else walk_pte_l2 (pt_phys_to_virt s (pte AND PT_PHYSMASK)) base start_a end_a (set_range_l2 args) s }"

definition set_range_l4 :: "set_range_args \<Rightarrow> pt_sys walk_fn" where
  "set_range_l4 args ptep base start_a end_a s =
     do { pte \<leftarrow> pt_read ptep s;
          if pte = PTE_NULL then do {
            (newpt, s) \<leftarrow> alloc_new_pt IHK_MC_AP_NOWAIT s;
            if newpt = 0 then set_range_undo args start_a base (- ENOMEM) s
            else do {
              s \<leftarrow> pt_write ptep (pt_virt_to_phys s newpt OR PDIR_ATTR) s;
              walk_pte_l3 newpt base start_a end_a (set_range_l3 args) s } }
          else walk_pte_l3 (pt_phys_to_virt s (pte AND PT_PHYSMASK)) base start_a end_a (set_range_l3 args) s }"

definition ihk_mc_pt_set_range ::
  "u64 \<Rightarrow> process_vm \<Rightarrow> u64 \<Rightarrow> u64 \<Rightarrow> u64 \<Rightarrow> u64 \<Rightarrow> nat \<Rightarrow> vm_range \<Rightarrow> pt_sys \<Rightarrow> (int \<times> pt_sys) option" where
  "ihk_mc_pt_set_range pt vm start_a end_a phys attr pgshift rng s =
     walk_pte_l4 pt 0 start_a end_a
       (set_range_l4 \<lparr>sr_pt = pt, sr_phys = phys, sr_attr = attr, sr_pgshift = pgshift, sr_diff = start_a XOR phys,
                      sr_vm = vm, sr_range = rng\<rparr>) s"

text \<open>A wrong page size panics.\<close>

definition ihk_mc_pt_set_pte :: "u64 \<times> nat \<Rightarrow> u64 \<Rightarrow> u64 \<Rightarrow> u64 \<Rightarrow> pt_sys \<Rightarrow> (int \<times> pt_sys) option" where
  "ihk_mc_pt_set_pte ptep pgsize phys attr s =
     (if pgsize = PTL1_SIZE then do { s \<leftarrow> pt_write ptep (phys OR attr_to_l1attr (ps_attr_mask s) attr) s; Some (0, s) }
      else if pgsize = PTL2_SIZE then
        (if phys AND (PTL2_SIZE - 1) \<noteq> 0 then Some (- 1, s)
         else do { s \<leftarrow> pt_write ptep (phys OR attr_to_l2attr (ps_attr_mask s) (attr OR PTATTR_LARGEPAGE)) s; Some (0, s) })
      else if pgsize = PTL3_SIZE \<and> ps_use_1gb_page s then
        (if phys AND (PTL3_SIZE - 1) \<noteq> 0 then Some (- 1, s)
         else do { s \<leftarrow> pt_write ptep (phys OR attr_to_l3attr (ps_attr_mask s) (attr OR PTATTR_LARGEPAGE)) s; Some (0, s) })
      else None)"

subsection \<open>Splitting at an address\<close>

text \<open>Two rounds at most: from 1 GiB to 2 MiB and from there to 4 KiB.\<close>

partial_function (option) ihk_mc_pt_split :: "u64 \<Rightarrow> u64 \<Rightarrow> pt_sys \<Rightarrow> (int \<times> pt_sys) option" where
  "ihk_mc_pt_split pt addr s =
     Option.bind (lookup_pte pt addr 0 s) (\<lambda>r.
       case r of
         (None, pgaddr, pgsize, p2align) \<Rightarrow> Some (0, s)
       | (Some ptep, pgaddr, pgsize, p2align) \<Rightarrow>
           Option.bind (pt_read ptep s) (\<lambda>pte.
             if \<not> pte_is_null pte \<and> pgaddr \<noteq> addr then
               (if (case (if \<not> pte_is_fileoff pte then pt_phys_to_page s (pte_get_phys pte) else None) of
                      None \<Rightarrow> False
                    | Some p \<Rightarrow> page_is_in_memobj (ph_page (ms_hash (ps_ms s)) p) \<or> page_is_multi_mapped (ph_page (ms_hash (ps_ms s)) p))
                then Some (- EINVAL, s)
                else
                  Option.bind (split_large_page ptep pgsize s) (\<lambda>r.
                    if fst r \<noteq> 0 then Some r
                    else ihk_mc_pt_split pt addr (pt_event (Flush_Addr pgaddr) (snd r))))
             else Some (0, s)))"

subsection \<open>Moving a range\<close>

definition "ENOTSUPP = (524 :: int)"

definition move_one_page :: "u64 \<Rightarrow> process_vm \<Rightarrow> u64 \<Rightarrow> u64 \<Rightarrow> vm_range \<Rightarrow> pte_visitor" where
  "move_one_page pt vm src dest rng ptep pgaddr pgshift s =
     do { pte \<leftarrow> pt_read ptep s;
          if pte_is_fileoff pte then Some (- ENOTSUPP, s)
          else do {
            let d = dest + (pgaddr - src);
            s \<leftarrow> pt_write ptep PTE_NULL s;
            ihk_mc_pt_set_range pt vm d (d + push_bit pgshift 1) (pte AND PT_PHYSMASK) (pte AND NOT PT_PHYSMASK) pgshift rng s } }"

definition move_pte_range :: "u64 \<Rightarrow> process_vm \<Rightarrow> u64 \<Rightarrow> u64 \<Rightarrow> u64 \<Rightarrow> vm_range \<Rightarrow> pt_sys \<Rightarrow> (int \<times> pt_sys) option" where
  "move_pte_range pt vm src dest sz rng s =
     do { (error, s) \<leftarrow> visit_pte_range pt src (src + sz) 0 VPTEF_SKIP_NULL (move_one_page pt vm src dest rng) s;
          Some (error, pt_event Flush_Tlb s) }"

end
