(* ===== verification/PtTree.thy ===== *)
theory PtTree
  imports PageTable
begin

section \<open>The tree of page tables\<close>

text \<open>
  The tables that are reached from a top table, by the list of indices that leads to them.  The
  invariant says that every table is reached by one path only and is allocated; then writing one entry
  changes the translation of the addresses below that entry and of no others.  The number of top entries
  that belong to the tree is a parameter: 256 for the table of a process, whose upper half is shared.
\<close>

subsection \<open>Paths\<close>

type_synonym tables = "u64 \<Rightarrow> (nat \<Rightarrow> u64) option"

definition is_dir :: "nat \<Rightarrow> u64 \<Rightarrow> bool" where
  "is_dir L e \<longleftrightarrow> e \<noteq> 0 \<and> 1 < L \<and> (L = 4 \<or> e AND PF_SIZE = 0)"

definition child :: "kernel_map \<Rightarrow> u64 \<Rightarrow> u64" where
  "child km e = phys_to_virt km (e AND PT_PHYSMASK)"

fun ptw :: "kernel_map \<Rightarrow> tables \<Rightarrow> nat \<Rightarrow> u64 \<Rightarrow> nat list \<Rightarrow> u64 option" where
  "ptw km T L p [] = Some p"
| "ptw km T L p (i # is) =
     (case T p of None \<Rightarrow> None
      | Some t \<Rightarrow> if i < 512 \<and> is_dir L (t i) then ptw km T (L - 1) (child km (t i)) is else None)"

text \<open>The entry at the end of a path: level and value.\<close>

fun lf :: "kernel_map \<Rightarrow> tables \<Rightarrow> nat \<Rightarrow> u64 \<Rightarrow> nat list \<Rightarrow> (nat \<times> u64) option" where
  "lf km T L p [] = None"
| "lf km T L p (i # is) =
     (case T p of None \<Rightarrow> None
      | Some t \<Rightarrow>
          if i < 512 \<and> t i \<noteq> 0 then (if is_dir L (t i) then lf km T (L - 1) (child km (t i)) is else Some (L, t i))
          else None)"

definition path_ok :: "nat \<Rightarrow> nat list \<Rightarrow> bool" where
  "path_ok n \<pi> \<longleftrightarrow> (\<forall>i \<in> set \<pi>. i < 512) \<and> (\<pi> \<noteq> [] \<longrightarrow> hd \<pi> < n)"

definition reached :: "kernel_map \<Rightarrow> tables \<Rightarrow> nat \<Rightarrow> u64 \<Rightarrow> nat list \<Rightarrow> u64 \<Rightarrow> bool" where
  "reached km T n r \<pi> q \<longleftrightarrow> path_ok n \<pi> \<and> length \<pi> \<le> 3 \<and> ptw km T 4 r \<pi> = Some q"

definition dir_ok :: "u64 \<Rightarrow> bool" where
  "dir_ok e \<longleftrightarrow> e = e AND PT_PHYSMASK OR PDIR_ATTR"

definition tree :: "kernel_map \<Rightarrow> tables \<Rightarrow> nat \<Rightarrow> u64 \<Rightarrow> bool" where
  "tree km T n r \<longleftrightarrow> n \<le> 512 \<and>
     (\<forall>\<pi> q. reached km T n r \<pi> q \<longrightarrow> T q \<noteq> None) \<and>
     (\<forall>\<pi> \<pi>' q. reached km T n r \<pi> q \<longrightarrow> reached km T n r \<pi>' q \<longrightarrow> \<pi> = \<pi>') \<and>
     (\<forall>\<pi> q t i. reached km T n r \<pi> q \<longrightarrow> T q = Some t \<longrightarrow> path_ok n (\<pi> @ [i]) \<longrightarrow> is_dir (4 - length \<pi>) (t i) \<longrightarrow> dir_ok (t i))"

lemma path_ok_append: "path_ok n (\<pi> @ \<pi>') \<Longrightarrow> path_ok n \<pi>"
  by (auto simp: path_ok_def hd_append split: if_splits)

lemma path_ok_snoc: "path_ok n (\<pi> @ [i]) \<longleftrightarrow> path_ok n \<pi> \<and> i < 512 \<and> (\<pi> = [] \<longrightarrow> i < n)"
  by (cases \<pi>) (auto simp: path_ok_def)

lemma ptw_append: "ptw km T L p (\<pi> @ \<pi>') = Option.bind (ptw km T L p \<pi>) (\<lambda>q. ptw km T (L - length \<pi>) q \<pi>')"
  by (induction km T L p \<pi> rule: ptw.induct) (auto split: option.splits)

lemma lf_append: "ptw km T L p \<pi> = Some q \<Longrightarrow> lf km T L p (\<pi> @ \<pi>') = lf km T (L - length \<pi>) q \<pi>'"
  by (induction km T L p \<pi> rule: ptw.induct) (auto simp: is_dir_def split: option.splits if_splits)

text \<open>Following a path up to where it leaves the tables.\<close>

lemma lf_None_dir: "ptw km T L p (\<pi> @ [i]) = Some q \<Longrightarrow> lf km T L p (\<pi> @ i # \<pi>') = lf km T (L - Suc (length \<pi>)) q \<pi>'"
  using lf_append [of km T L p "\<pi> @ [i]" q \<pi>'] by simp

lemma reached_take: "reached km T n r \<pi> q \<Longrightarrow> k \<le> length \<pi> \<Longrightarrow> \<exists>q'. reached km T n r (take k \<pi>) q'"
proof -
  assume r: "reached km T n r \<pi> q" and k: "k \<le> length \<pi>"
  have "ptw km T 4 r (take k \<pi> @ drop k \<pi>) = Some q" using r by (simp add: reached_def)
  then obtain q' where "ptw km T 4 r (take k \<pi>) = Some q'" unfolding ptw_append by (auto simp: Option.bind_eq_Some_conv)
  moreover have "path_ok n (take k \<pi>)" using r path_ok_append [of n "take k \<pi>" "drop k \<pi>"] by (simp add: reached_def)
  ultimately show ?thesis using r by (auto simp: reached_def)
qed

lemma reached_root: "reached km T n r [] r"
  by (simp add: reached_def path_ok_def)

lemma ptw_snoc:
  "ptw km T L p (\<pi> @ [i]) = Some q \<longleftrightarrow>
     (\<exists>p' t. ptw km T L p \<pi> = Some p' \<and> T p' = Some t \<and> i < 512 \<and> is_dir (L - length \<pi>) (t i) \<and> q = child km (t i))"
proof (cases "ptw km T L p \<pi>")
  case (Some p')
  then show ?thesis by (cases "T p'") (auto simp: ptw_append)
qed (simp add: ptw_append)

lemma reached_snoc:
  "reached km T n r (\<pi> @ [i]) q \<longleftrightarrow> (\<exists>p t. reached km T n r \<pi> p \<and> length \<pi> \<le> 2 \<and> path_ok n (\<pi> @ [i]) \<and> T p = Some t \<and>
     is_dir (4 - length \<pi>) (t i) \<and> q = child km (t i))"
  unfolding reached_def ptw_snoc path_ok_snoc by (simp only: length_append list.size) (rule iffI; clarsimp; blast?)

subsection \<open>Changing a table that a path does not use\<close>

definition avoids :: "kernel_map \<Rightarrow> tables \<Rightarrow> u64 \<Rightarrow> u64 \<Rightarrow> nat set \<Rightarrow> nat list \<Rightarrow> bool" where
  "avoids km T r q I \<pi> \<longleftrightarrow> (\<forall>k < length \<pi>. ptw km T 4 r (take k \<pi>) = Some q \<longrightarrow> \<pi> ! k \<notin> I)"

lemma avoids_snoc: "avoids km T r q I (\<pi> @ [i]) \<longleftrightarrow> avoids km T r q I \<pi> \<and> (ptw km T 4 r \<pi> = Some q \<longrightarrow> i \<notin> I)"
  by (auto simp: avoids_def nth_append less_Suc_eq)

definition agree :: "tables \<Rightarrow> tables \<Rightarrow> u64 \<Rightarrow> nat set \<Rightarrow> bool" where
  "agree T T' q I \<longleftrightarrow> (\<forall>p. p \<noteq> q \<longrightarrow> T' p = T p) \<and>
     ((\<forall>i. i \<in> I) \<or> (\<exists>t t'. T q = Some t \<and> T' q = Some t' \<and> (\<forall>i. i \<notin> I \<longrightarrow> t' i = t i)))"

lemma agree_entry:
  assumes "agree T T' q I" "p = q \<longrightarrow> i \<notin> I"
  shows "(T' p = None \<longleftrightarrow> T p = None) \<and> (\<forall>t t'. T p = Some t \<longrightarrow> T' p = Some t' \<longrightarrow> t' i = t i)"
  using assms by (cases "p = q") (auto simp: agree_def)

lemma ptw_agree: "agree T T' q I \<Longrightarrow> avoids km T r q I \<pi> \<Longrightarrow> ptw km T' 4 r \<pi> = ptw km T 4 r \<pi>"
proof (induction \<pi> rule: rev_induct)
  case (snoc i \<pi>)
  then have IH: "ptw km T' 4 r \<pi> = ptw km T 4 r \<pi>" by (simp add: avoids_snoc)
  show ?case
  proof (cases "ptw km T 4 r \<pi>")
    case (Some p)
    with snoc.prems agree_entry [OF snoc.prems(1), of p i] show ?thesis
      by (cases "T p"; cases "T' p") (auto simp: ptw_append IH avoids_snoc)
  qed (simp add: ptw_append IH)
qed simp

lemma avoids_take: "avoids km T r q I \<pi> \<Longrightarrow> avoids km T r q I (take k \<pi>)"
  by (auto simp: avoids_def min_def)

text \<open>A lookup ends at some prefix of the path.\<close>

lemma lf_unfold:
  "lf km T 4 r (\<pi> @ [i]) =
     (case ptw km T 4 r \<pi> of
        Some p \<Rightarrow> (case T p of None \<Rightarrow> None
           | Some t \<Rightarrow> if i < 512 \<and> t i \<noteq> 0 \<and> \<not> is_dir (4 - length \<pi>) (t i) then Some (4 - length \<pi>, t i) else None)
      | None \<Rightarrow> lf km T 4 r \<pi>)"
proof (cases "ptw km T 4 r \<pi>")
  case (Some p)
  then show ?thesis by (auto simp: lf_append split: option.splits)
next
  case None
  have "ptw km T L p \<pi> = None \<Longrightarrow> lf km T L p (\<pi> @ [i]) = lf km T L p \<pi>" for L p
    by (induction km T L p \<pi> rule: ptw.induct) (auto simp: is_dir_def split: option.splits)
  with None show ?thesis by simp
qed

lemma lf_agree: "agree T T' q I \<Longrightarrow> avoids km T r q I \<pi> \<Longrightarrow> lf km T' 4 r \<pi> = lf km T 4 r \<pi>"
proof (induction \<pi> rule: rev_induct)
  case (snoc i \<pi>)
  then have IH: "lf km T' 4 r \<pi> = lf km T 4 r \<pi>" "ptw km T' 4 r \<pi> = ptw km T 4 r \<pi>"
    by (simp_all add: avoids_snoc ptw_agree)
  show ?case
  proof (cases "ptw km T 4 r \<pi>")
    case (Some p)
    with snoc.prems agree_entry [OF snoc.prems(1), of p i] show ?thesis
      by (cases "T p"; cases "T' p") (auto simp: lf_unfold IH avoids_snoc)
  qed (simp add: lf_unfold IH)
qed simp

subsection \<open>Writing an entry\<close>

lemma tree_allocated: "tree km T n r \<Longrightarrow> reached km T n r \<pi> q \<Longrightarrow> T q \<noteq> None"
  by (auto simp: tree_def)

lemma tree_path_unique: "tree km T n r \<Longrightarrow> reached km T n r \<pi> q \<Longrightarrow> reached km T n r \<pi>' q \<Longrightarrow> \<pi>' = \<pi>"
  by (auto simp: tree_def)

lemma tree_dir_ok:
  "tree km T n r \<Longrightarrow> reached km T n r \<pi> q \<Longrightarrow> T q = Some t \<Longrightarrow> path_ok n (\<pi> @ [i]) \<Longrightarrow> is_dir (4 - length \<pi>) (t i) \<Longrightarrow> dir_ok (t i)"
  unfolding tree_def by blast

lemma treeI:
  assumes "n \<le> 512" "\<And>\<pi> q. reached km T n r \<pi> q \<Longrightarrow> T q \<noteq> None"
    "\<And>\<pi> \<pi>' q. reached km T n r \<pi> q \<Longrightarrow> reached km T n r \<pi>' q \<Longrightarrow> \<pi> = \<pi>'"
    "\<And>\<pi> q t i. reached km T n r \<pi> q \<Longrightarrow> T q = Some t \<Longrightarrow> path_ok n (\<pi> @ [i]) \<Longrightarrow> is_dir (4 - length \<pi>) (t i) \<Longrightarrow> dir_ok (t i)"
  shows "tree km T n r"
  unfolding tree_def using assms by blast

lemma avoids_entry:
  assumes "tree km T n r" "reached km T n r \<pi> q" "path_ok n is" "length is \<le> 4" "\<And>rest. is \<noteq> \<pi> @ i # rest"
  shows "avoids km T r q {i} is"
  unfolding avoids_def
proof (intro allI impI notI)
  fix k assume k: "k < length is" "ptw km T 4 r (take k is) = Some q" "is ! k \<in> {i}"
  have "path_ok n (take k is)" using path_ok_append [of n "take k is" "drop k is"] assms(3) by simp
  with k assms(4) have "reached km T n r (take k is) q" by (simp add: reached_def)
  from tree_path_unique [OF assms(1,2) this] k(3) have "is = \<pi> @ i # drop (Suc k) is" using id_take_nth_drop [OF k(1)] by auto
  with assms(5) show False by blast
qed

lemma avoids_unreached:
  assumes "\<And>\<pi>. \<not> reached km T n r \<pi> q" "path_ok n is" "length is \<le> 4"
  shows "avoids km T r q I is"
  unfolding avoids_def
proof (intro allI impI)
  fix k assume k: "k < length is" "ptw km T 4 r (take k is) = Some q"
  have "path_ok n (take k is)" using path_ok_append [of n "take k is" "drop k is"] assms(2) by simp
  with k assms(3) have "reached km T n r (take k is) q" by (simp add: reached_def)
  with assms(1) show "is ! k \<notin> I" by blast
qed

text \<open>A table that is not in the tree may be added, changed and removed.\<close>

lemma unreached_change:
  assumes "tree km T n r" "\<And>\<pi>. \<not> reached km T n r \<pi> q" "\<And>p. p \<noteq> q \<Longrightarrow> T' p = T p"
  shows "reached km T' n r \<pi> p = reached km T n r \<pi> p" "tree km T' n r"
    "path_ok n is \<Longrightarrow> length is \<le> 4 \<Longrightarrow> lf km T' 4 r is = lf km T 4 r is"
proof -
  have ag: "agree T T' q UNIV" using assms(3) by (auto simp: agree_def)
  show re: "reached km T' n r \<pi> p = reached km T n r \<pi> p" for \<pi> p
  proof (cases "path_ok n \<pi> \<and> length \<pi> \<le> 3")
    case True
    with ptw_agree [OF ag avoids_unreached [OF assms(2)], of \<pi>] show ?thesis by (auto simp: reached_def)
  qed (auto simp: reached_def)
  have same: "reached km T n r \<pi> p \<Longrightarrow> T' p = T p" for \<pi> p using assms(2,3) by (cases "p = q") auto
  show "tree km T' n r"
  proof (rule treeI)
    show "n \<le> 512" using assms(1) by (simp add: tree_def)
    show "T' p \<noteq> None" if "reached km T' n r \<pi> p" for \<pi> p using that tree_allocated [OF assms(1)] same unfolding re by simp
    show "\<pi> = \<pi>'" if "reached km T' n r \<pi> p" "reached km T' n r \<pi>' p" for \<pi> \<pi>' p
      using that tree_path_unique [OF assms(1)] unfolding re by blast
    show "dir_ok (t i)" if "reached km T' n r \<pi> p" "T' p = Some t" "path_ok n (\<pi> @ [i])" "is_dir (4 - length \<pi>) (t i)" for \<pi> p t i
      using that tree_dir_ok [OF assms(1), of \<pi> p t i] same unfolding re by simp
  qed
  show "path_ok n is \<Longrightarrow> length is \<le> 4 \<Longrightarrow> lf km T' 4 r is = lf km T 4 r is"
    by (rule lf_agree [OF ag avoids_unreached [OF assms(2)]])
qed

text \<open>What may be written over an entry that is no directory: an entry of a page, null, or a link to a
  table outside the tree that has no directories itself.\<close>

definition new_entry_ok :: "kernel_map \<Rightarrow> tables \<Rightarrow> nat \<Rightarrow> u64 \<Rightarrow> nat \<Rightarrow> u64 \<Rightarrow> bool" where
  "new_entry_ok km T n r L e \<longleftrightarrow> (is_dir L e \<longrightarrow> dir_ok e \<and> (\<forall>\<pi>. \<not> reached km T n r \<pi> (child km e)) \<and>
     (\<exists>t0. T (child km e) = Some t0 \<and> (\<forall>j < 512. \<not> is_dir (L - 1) (t0 j))))"

lemma put_agree: "T q = Some t \<Longrightarrow> agree T (T(q \<mapsto> t(i := e))) q {i}"
  by (auto simp: agree_def)

lemma ptw_put_here:
  assumes "tree km T n r" "reached km T n r \<pi> q" "T q = Some t" "i < 512"
  shows "ptw km (T(q \<mapsto> t(i := e))) 4 r (\<pi> @ i # rest) =
    (if is_dir (4 - length \<pi>) e then ptw km (T(q \<mapsto> t(i := e))) (4 - length \<pi> - 1) (child km e) rest else None)"
proof -
  have "avoids km T r q {i} \<pi>" using assms(2) by (intro avoids_entry [OF assms(1,2)]) (auto simp: reached_def)
  from ptw_agree [OF put_agree [of T q t i e, OF assms(3)] this] assms(2,4) show ?thesis by (simp add: ptw_append reached_def)
qed

lemma lf_put_here:
  assumes "tree km T n r" "reached km T n r \<pi> q" "T q = Some t" "i < 512"
  shows "lf km (T(q \<mapsto> t(i := e))) 4 r (\<pi> @ i # rest) =
    (if e = 0 then None else if is_dir (4 - length \<pi>) e then lf km (T(q \<mapsto> t(i := e))) (4 - length \<pi> - 1) (child km e) rest
     else Some (4 - length \<pi>, e))"
proof -
  have "avoids km T r q {i} \<pi>" using assms(2) by (intro avoids_entry [OF assms(1,2)]) (auto simp: reached_def)
  from ptw_agree [OF put_agree [of T q t i e, OF assms(3)] this] assms(2)
  have "ptw km (T(q \<mapsto> t(i := e))) 4 r \<pi> = Some q" by (simp add: reached_def)
  from lf_append [OF this] assms(4) show ?thesis by simp
qed

lemma lf_here:
  assumes "reached km T n r \<pi> q" "T q = Some t" "i < 512"
  shows "lf km T 4 r (\<pi> @ i # rest) = (if t i = 0 then None else if is_dir (4 - length \<pi>) (t i) then lf km T (4 - length \<pi> - 1) (child km (t i)) rest
     else Some (4 - length \<pi>, t i))"
proof -
  have "ptw km T 4 r \<pi> = Some q" using assms(1) by (simp add: reached_def)
  from lf_append [OF this] assms(2,3) show ?thesis by simp
qed

lemma lf_put_other:
  assumes "tree km T n r" "reached km T n r \<pi> q" "T q = Some t" "path_ok n is" "length is \<le> 4" "\<And>rest. is \<noteq> \<pi> @ i # rest"
  shows "lf km (T(q \<mapsto> t(i := e))) 4 r is = lf km T 4 r is"
  by (rule lf_agree [OF put_agree [of T q t i e, OF assms(3)] avoids_entry [OF assms(1,2,4-6)]])

lemma reached_put:
  assumes tr: "tree km T n r" and q: "reached km T n r \<pi> q" "T q = Some t" "path_ok n (\<pi> @ [i])"
    and old: "\<not> is_dir (4 - length \<pi>) (t i)" and e: "new_entry_ok km T n r (4 - length \<pi>) e"
  shows "reached km (T(q \<mapsto> t(i := e))) n r \<pi>' p \<longleftrightarrow>
    reached km T n r \<pi>' p \<or> \<pi>' = \<pi> @ [i] \<and> is_dir (4 - length \<pi>) e \<and> p = child km e"
proof (cases "path_ok n \<pi>' \<and> length \<pi>' \<le> 3")
  case ok: True
  have i: "i < 512" using q(3) by (simp add: path_ok_snoc)
  show ?thesis
  proof (cases "\<exists>rest. \<pi>' = \<pi> @ i # rest")
    case True
    then obtain rest where rest: "\<pi>' = \<pi> @ i # rest" by blast
    have "ptw km T 4 r \<pi>' = None" using q old by (simp add: rest ptw_append reached_def)
    moreover have "ptw km (T(q \<mapsto> t(i := e))) 4 r \<pi>' = (if is_dir (4 - length \<pi>) e \<and> rest = [] then Some (child km e) else None)"
    proof (cases "is_dir (4 - length \<pi>) e")
      case d: True
      then obtain t0 where t0: "T (child km e) = Some t0" "\<forall>j < 512. \<not> is_dir (4 - length \<pi> - 1) (t0 j)" "child km e \<noteq> q"
        using e q(1) by (auto simp: new_entry_ok_def)
      then show ?thesis unfolding rest ptw_put_here [OF tr q(1,2) i] using d by (cases rest) auto
    qed (simp add: rest ptw_put_here [OF tr q(1,2) i])
    ultimately show ?thesis using ok rest by (auto simp: reached_def)
  next
    case False
    then have "ptw km (T(q \<mapsto> t(i := e))) 4 r \<pi>' = ptw km T 4 r \<pi>'"
      using ok by (intro ptw_agree [OF put_agree [of T q t i e, OF q(2)]] avoids_entry [OF tr q(1)]) auto
    with False ok show ?thesis by (auto simp: reached_def)
  qed
next
  case False
  moreover have "is_dir (4 - length \<pi>) e \<Longrightarrow> length (\<pi> @ [i]) \<le> 3" by (auto simp: is_dir_def)
  ultimately show ?thesis using q(3) by (auto simp: reached_def)
qed

lemma tree_put:
  assumes tr: "tree km T n r" and q: "reached km T n r \<pi> q" "T q = Some t" "path_ok n (\<pi> @ [i])"
    and old: "\<not> is_dir (4 - length \<pi>) (t i)" and e: "new_entry_ok km T n r (4 - length \<pi>) e"
  shows "tree km (T(q \<mapsto> t(i := e))) n r"
proof -
  let ?T = "T(q \<mapsto> t(i := e))"
  note re = reached_put [OF assms]
  have al: "reached km ?T n r \<pi>' p \<Longrightarrow> ?T p \<noteq> None" for \<pi>' p
    using tree_allocated [OF tr, of \<pi>' p] e by (auto simp: re new_entry_ok_def)
  have un: "\<pi>1 = \<pi>2" if "reached km ?T n r \<pi>1 p" "reached km ?T n r \<pi>2 p" for \<pi>1 \<pi>2 p
    using that tree_path_unique [OF tr, of \<pi>1 p \<pi>2] e unfolding re new_entry_ok_def by blast
  have dk: "dir_ok (t' j)" if p: "reached km ?T n r \<pi>' p" "?T p = Some t'" "path_ok n (\<pi>' @ [j])" "is_dir (4 - length \<pi>') (t' j)" for \<pi>' p t' j
  proof (cases "reached km T n r \<pi>' p")
    case True
    show ?thesis
    proof (cases "p = q \<and> j = i")
      case pq: True
      with tree_path_unique [OF tr q(1)] True have "\<pi>' = \<pi>" by blast
      with pq p(2,4) e show ?thesis by (auto simp: new_entry_ok_def)
    next
      case False
      then obtain t1 where t1: "T p = Some t1" "t1 j = t' j" using p(2) q(2) by (cases "p = q") auto
      show ?thesis using tree_dir_ok [OF tr True t1(1) p(3)] p(4) t1(2) by simp
    qed
  next
    case False
    then have c: "\<pi>' = \<pi> @ [i]" "is_dir (4 - length \<pi>) e" "p = child km e" using p(1) unfolding re by blast+
    then obtain t0 where t0: "T (child km e) = Some t0" "\<forall>j < 512. \<not> is_dir (4 - length \<pi> - 1) (t0 j)" "child km e \<noteq> q"
      using e q(1) by (auto simp: new_entry_ok_def)
    have "j < 512" using p(3) by (simp add: path_ok_snoc)
    with t0 c p(2,4) show ?thesis by auto
  qed
  have "n \<le> 512" using tr by (simp add: tree_def)
  then show ?thesis by (rule treeI) (fact al, fact un, fact dk)
qed

text \<open>Taking an empty table out of the tree.\<close>

lemma reached_unlink:
  assumes tr: "tree km T n r" and q: "reached km T n r \<pi> q" "T q = Some t" "path_ok n (\<pi> @ [i])"
    and old: "is_dir (4 - length \<pi>) (t i)" "T (child km (t i)) = Some t0" "\<forall>j < 512. t0 j = 0"
  shows "reached km (T(q \<mapsto> t(i := 0))) n r \<pi>' p \<longleftrightarrow> reached km T n r \<pi>' p \<and> \<pi>' \<noteq> \<pi> @ [i]"
proof (cases "path_ok n \<pi>' \<and> length \<pi>' \<le> 3")
  case ok: True
  have i: "i < 512" using q(3) by (simp add: path_ok_snoc)
  show ?thesis
  proof (cases "\<exists>rest. \<pi>' = \<pi> @ i # rest")
    case True
    then obtain rest where rest: "\<pi>' = \<pi> @ i # rest" by blast
    have "ptw km T 4 r \<pi>' = (if rest = [] then Some (child km (t i)) else None)"
      using q old by (cases rest) (auto simp: rest ptw_append reached_def i is_dir_def [of _ 0])
    moreover have "ptw km (T(q \<mapsto> t(i := 0))) 4 r \<pi>' = None"
      unfolding rest ptw_put_here [OF tr q(1,2) i] by (simp add: is_dir_def)
    ultimately show ?thesis using rest by (auto simp: reached_def)
  next
    case False
    then have "ptw km (T(q \<mapsto> t(i := 0))) 4 r \<pi>' = ptw km T 4 r \<pi>'"
      using ok by (intro ptw_agree [OF put_agree [of T q t i 0, OF q(2)]] avoids_entry [OF tr q(1)]) auto
    with False show ?thesis by (auto simp: reached_def)
  qed
qed (auto simp: reached_def)

lemma tree_unlink:
  assumes tr: "tree km T n r" and q: "reached km T n r \<pi> q" "T q = Some t" "path_ok n (\<pi> @ [i])"
    and old: "is_dir (4 - length \<pi>) (t i)" "T (child km (t i)) = Some t0" "\<forall>j < 512. t0 j = 0"
  shows "tree km (T(q \<mapsto> t(i := 0))) n r"
    "path_ok n is \<Longrightarrow> length is = 4 \<Longrightarrow> lf km (T(q \<mapsto> t(i := 0))) 4 r is = lf km T 4 r is"
proof -
  note re = reached_unlink [OF assms]
  show "tree km (T(q \<mapsto> t(i := 0))) n r"
  proof (rule treeI)
    show "n \<le> 512" using tr by (simp add: tree_def)
    show "(T(q \<mapsto> t(i := 0))) p \<noteq> None" if "reached km (T(q \<mapsto> t(i := 0))) n r \<pi>' p" for \<pi>' p
      using that tree_allocated [OF tr] unfolding re by auto
    show "\<pi>1 = \<pi>2" if "reached km (T(q \<mapsto> t(i := 0))) n r \<pi>1 p" "reached km (T(q \<mapsto> t(i := 0))) n r \<pi>2 p" for \<pi>1 \<pi>2 p
      using that tree_path_unique [OF tr] unfolding re by blast
    show "dir_ok (t' j)" if p: "reached km (T(q \<mapsto> t(i := 0))) n r \<pi>' p" "(T(q \<mapsto> t(i := 0))) p = Some t'" "path_ok n (\<pi>' @ [j])"
      "is_dir (4 - length \<pi>') (t' j)" for \<pi>' p t' j
    proof -
      have "\<not> (p = q \<and> j = i)" using p(2,4) by (auto simp: is_dir_def)
      then obtain t1 where t1: "T p = Some t1" "t1 j = t' j" using p(2) q(2) by (cases "p = q") auto
      with tree_dir_ok [OF tr _ t1(1) p(3)] p(1,4) show ?thesis unfolding re by simp
    qed
  qed
  assume i_s: "path_ok n is" "length is = 4"
  have i: "i < 512" using q(3) by (simp add: path_ok_snoc)
  show "lf km (T(q \<mapsto> t(i := 0))) 4 r is = lf km T 4 r is"
  proof (cases "\<exists>rest. is = \<pi> @ i # rest")
    case True
    then obtain rest where rest: "is = \<pi> @ i # rest" by blast
    have "rest \<noteq> []" using old(1) i_s(2) rest by (auto simp: is_dir_def)
    then obtain j rest' where j: "rest = j # rest'" "j < 512" using i_s(1) rest by (cases rest) (auto simp: path_ok_def)
    have "t i \<noteq> 0" using old(1) by (simp add: is_dir_def)
    with j old lf_here [OF q(1,2) i, of rest] lf_put_here [OF tr q(1,2) i, of 0 rest] show ?thesis by (simp add: rest)
  next
    case False
    with i_s show ?thesis by (intro lf_put_other [OF tr q(1,2)]) auto
  qed
qed

subsection \<open>Addresses\<close>

text \<open>The indices of an address, and the size of what a path of length \<open>k\<close> leaves open.\<close>

definition vix :: "nat \<Rightarrow> nat list" where
  "vix v = [v div 2 ^ 39 mod 512, v div 2 ^ 30 mod 512, v div 2 ^ 21 mod 512, v div 2 ^ 12 mod 512]"

definition psz :: "nat \<Rightarrow> nat" where
  "psz k = 2 ^ (48 - 9 * k)"

definition pidx :: "nat list \<Rightarrow> nat" where
  "pidx \<pi> = foldl (\<lambda>a i. a * 512 + i) 0 \<pi>"

definition pbase :: "nat list \<Rightarrow> nat" where
  "pbase \<pi> = pidx \<pi> * psz (length \<pi>)"

definition below :: "nat list \<Rightarrow> nat \<Rightarrow> bool" where
  "below \<pi> v \<longleftrightarrow> (\<exists>rest. vix v = \<pi> @ rest)"

lemma length_vix [simp]: "length (vix v) = 4"
  by (simp add: vix_def)

lemma psz_simps: "psz 0 = 2 ^ 48" "psz 1 = 2 ^ 39" "psz 2 = 2 ^ 30" "psz 3 = 2 ^ 21" "psz 4 = 2 ^ 12" "psz (Suc 0) = 2 ^ 39"
  by (simp_all add: psz_def)

lemma psz_pos [simp]: "0 < psz k"
  by (simp add: psz_def)

lemma psz_Suc: "k < 4 \<Longrightarrow> psz k = 512 * psz (Suc k)"
proof -
  assume "k < 4"
  then have "k = 0 \<or> k = 1 \<or> k = 2 \<or> k = 3" by arith
  then show ?thesis by (elim disjE) (simp_all add: psz_def)
qed

lemma pidx_snoc: "pidx (\<pi> @ [i]) = pidx \<pi> * 512 + i"
  by (simp add: pidx_def)

lemma pbase_Nil [simp]: "pbase [] = 0"
  by (simp add: pbase_def pidx_def)

lemma pbase_snoc: "length \<pi> < 4 \<Longrightarrow> pbase (\<pi> @ [i]) = pbase \<pi> + i * psz (Suc (length \<pi>))"
  by (simp add: pbase_def pidx_snoc psz_Suc algebra_simps)

lemma path_ok_vix: "path_ok n (vix v) \<longleftrightarrow> v div 2 ^ 39 mod 512 < n"
  by (auto simp: path_ok_def vix_def)

lemma path_ok_vix_bound: "n \<le> 512 \<Longrightarrow> v < n * 2 ^ 39 \<Longrightarrow> path_ok n (vix v)"
  unfolding path_ok_vix by (simp add: less_mult_imp_div_less)

lemma below_Nil [simp]: "below [] v"
  by (simp add: below_def)

lemma below_snoc:
  assumes "length \<pi> < 4"
  shows "below (\<pi> @ [i]) v \<longleftrightarrow> below \<pi> v \<and> v div psz (Suc (length \<pi>)) mod 512 = i"
proof -
  have len: "below \<pi> v \<Longrightarrow> vix v = \<pi> @ drop (length \<pi>) (vix v)" by (auto simp: below_def)
  have dr: "drop k (vix v) = (v div psz (Suc k) mod 512) # drop (Suc k) (vix v)" if "k < 4" for k
  proof -
    have "k = 0 \<or> k = 1 \<or> k = 2 \<or> k = 3" using that by arith
    then show ?thesis by (elim disjE) (simp_all add: vix_def psz_def)
  qed
  show ?thesis
  proof
    assume "below (\<pi> @ [i]) v"
    then obtain rest where r: "vix v = \<pi> @ i # rest" by (auto simp: below_def)
    then have "below \<pi> v" by (auto simp: below_def)
    moreover have "drop (length \<pi>) (vix v) = i # rest" using r by simp
    ultimately show "below \<pi> v \<and> v div psz (Suc (length \<pi>)) mod 512 = i" using dr [OF assms] by simp
  next
    assume b: "below \<pi> v \<and> v div psz (Suc (length \<pi>)) mod 512 = i"
    then have "vix v = \<pi> @ i # drop (Suc (length \<pi>)) (vix v)" using len dr [OF assms] by simp
    then show "below (\<pi> @ [i]) v" unfolding below_def append_assoc append_Cons append_Nil by blast
  qed
qed

lemma div_eq_range: "0 < d \<Longrightarrow> v div d = k \<longleftrightarrow> v \<in> {k * d ..< k * d + d}" for d :: nat
proof -
  assume d: "0 < d"
  have "v div d = k \<longleftrightarrow> k \<le> v div d \<and> v div d < Suc k" by arith
  with d show ?thesis by (simp add: less_eq_div_iff_mult_less_eq div_less_iff_less_mult add.commute)
qed

lemma below_range:
  assumes "v < 2 ^ 48" "length \<pi> \<le> 4" "\<forall>i \<in> set \<pi>. i < 512"
  shows "below \<pi> v \<longleftrightarrow> v \<in> {pbase \<pi> ..< pbase \<pi> + psz (length \<pi>)}"
proof -
  have "below \<pi> v \<longleftrightarrow> v div psz (length \<pi>) = pidx \<pi>"
    using assms(2,3)
  proof (induction \<pi> rule: rev_induct)
    case Nil
    then show ?case using assms(1) by (simp add: psz_def pidx_def)
  next
    case (snoc i \<pi>)
    let ?s = "psz (Suc (length \<pi>))"
    have l: "length \<pi> < 4" and i: "i < 512" using snoc.prems by auto
    have up: "v div psz (length \<pi>) = v div ?s div 512" using psz_Suc [OF l] by (simp add: div_mult2_eq mult.commute)
    have IH: "below \<pi> v \<longleftrightarrow> v div psz (length \<pi>) = pidx \<pi>" using snoc by simp
    have "x div 512 = a \<and> x mod 512 = i \<longleftrightarrow> x = a * 512 + i" for x a using i by auto
    then show ?case using l by (simp add: below_snoc pidx_snoc IH up)
  qed
  then show ?thesis by (simp only: div_eq_range [OF psz_pos] pbase_def)
qed

end
