(* ===== verification/PtMem.thy ===== *)
theory PtMem
  imports PtTree
begin

section \<open>Page table pages\<close>

text \<open>
  Every allocated table is a page that the allocator has handed out.  Allocating and freeing tables moves
  pages between the two; the sum of free memory and tables stays the same.  On top of this and of the tree
  of tables stands the invariant of an address space and the relation between its states before and after
  an operation on a part of it.
\<close>

subsection \<open>Ownership\<close>

definition frame_ok :: "mem_sys \<Rightarrow> u64 \<Rightarrow> bool" where
  "frame_ok ms q \<longleftrightarrow>
     (let pa = virt_to_phys (ms_map ms) q
      in phys_to_virt (ms_map ms) pa = q \<and> 0 < unat pa \<and> unat pa < 2 ^ 52 \<and> 4096 dvd unat pa \<and>
         page_range pa 1 \<subseteq> mem_range ms \<and> page_range pa 1 \<inter> mem_bytes ms = {})"

definition tab_page :: "pt_sys \<Rightarrow> u64 \<Rightarrow> nat set" where
  "tab_page s q = page_range (pt_virt_to_phys s q) 1"

definition tab_bytes :: "pt_sys \<Rightarrow> nat set" where
  "tab_bytes s = (\<Union>q \<in> dom (ps_tab s). tab_page s q)"

definition pt_total :: "pt_sys \<Rightarrow> nat set" where
  "pt_total s = mem_bytes (ps_ms s) \<union> tab_bytes s"

definition no_struct :: "mem_sys \<Rightarrow> nat set \<Rightarrow> bool" where
  "no_struct ms X \<longleftrightarrow> (\<forall>pa. unat pa \<in> X \<longrightarrow> phys_to_page (ms_hash ms) pa = None)"

definition pt_mem :: "pt_sys \<Rightarrow> bool" where
  "pt_mem s \<longleftrightarrow> mem_ok (ps_ms s) \<and> (\<forall>q \<in> dom (ps_tab s). frame_ok (ps_ms s) q) \<and> no_struct (ps_ms s) (pt_total s)"

text \<open>What no operation on page tables changes.\<close>

definition same_ctx :: "pt_sys \<Rightarrow> pt_sys \<Rightarrow> bool" where
  "same_ctx s s' \<longleftrightarrow> ms_map (ps_ms s') = ms_map (ps_ms s) \<and> mem_range (ps_ms s') = mem_range (ps_ms s) \<and>
     phys_to_page (ms_hash (ps_ms s')) = phys_to_page (ms_hash (ps_ms s)) \<and> ps_objs s' = ps_objs s \<and> ps_init_pt s' = ps_init_pt s \<and>
     ps_use_1gb_page s' = ps_use_1gb_page s \<and> ps_attr_mask s' = ps_attr_mask s"

lemma same_ctx_refl [simp]: "same_ctx s s"
  by (simp add: same_ctx_def)

lemma same_ctx_trans: "same_ctx s s' \<Longrightarrow> same_ctx s' s'' \<Longrightarrow> same_ctx s s''"
  by (simp add: same_ctx_def)

lemma mem_range_limit:
  assumes "mem_ok ms" "x \<in> mem_range ms"
  shows "0 < x" "x < 2 ^ 52" "\<exists>c \<in> set (ms_chunks ms). x \<in> chunk_area c"
proof -
  obtain i where i: "i < length (ms_nodes ms)" "x \<in> owned (ms_chunks ms) i" "x \<in> numa_range (ms_nodes ms ! i)"
    using assms(2) by (auto simp: mem_range_def)
  with assms(1) have "numa_ok (ms_nodes ms ! i)" by (simp add: mem_ok_def)
  with i(3) show "0 < x" "x < 2 ^ 52" by (auto simp: numa_ok_def numa_range_def PHYS_LIMIT_def)
  show "\<exists>c \<in> set (ms_chunks ms). x \<in> chunk_area c" using i(2) unfolding owned_def by blast
qed

lemma mem_virt:
  assumes "mem_ok ms" "unat pa \<in> mem_range ms"
  shows "virt_to_phys (ms_map ms) (phys_to_virt (ms_map ms) pa) = pa" "phys_to_virt (ms_map ms) pa \<noteq> 0"
proof -
  from mem_range_limit [OF assms] obtain c where c: "c \<in> set (ms_chunks ms)" "unat pa \<in> chunk_area c" "0 < unat pa" by blast
  obtain s e i where e: "c = (s, e, i)" by (cases c)
  have k: "kmap_ok (ms_map ms) e" "unat pa < unat e" using assms(1) c e by (auto simp: mem_ok_def)
  show "virt_to_phys (ms_map ms) (phys_to_virt (ms_map ms) pa) = pa" using phys_virt(1) [OF k] .
  have "unat (phys_to_virt (ms_map ms) pa) \<noteq> 0" using phys_virt(2) [OF k] c(3) by simp
  then show "phys_to_virt (ms_map ms) pa \<noteq> 0" by auto
qed

text \<open>Pages that overlap are the same page.\<close>

lemma page_overlap:
  assumes "4096 dvd unat a" "4096 dvd unat b" "page_range a 1 \<inter> page_range b 1 \<noteq> {}"
  shows "a = b"
proof -
  have x: "unat b < unat a + 4096" "unat a < unat b + 4096" using assms(3) by (auto simp: page_range_def)
  obtain j k where "unat a = 4096 * j" "unat b = 4096 * k" using assms(1,2) by (auto elim!: dvdE)
  with x have "unat a = unat b" by auto
  then show ?thesis by (simp add: word_unat_eq_iff)
qed

lemma alloc_pages_sound:
  assumes "mem_ok (ps_ms s)" "0 < k" "k \<le> 0x80000"
  shows "\<exists>pa va ms. pt_alloc_pages k flag s = Some (va, s\<lparr>ps_ms := ms\<rparr>) \<and> alloc_effect k (ps_ms s) pa ms \<and>
    (if pa = 0 then va = 0 else va = pt_phys_to_virt s pa \<and> va \<noteq> 0 \<and> pt_virt_to_phys s va = pa \<and> page_range pa k \<subseteq> mem_range (ps_ms s))"
proof -
  have "request_ok k PAGE_P2ALIGN" "policy_safe (- 1) (ps_ms s)" using assms(2,3) by (simp_all add: request_ok_def PAGE_P2ALIGN_def policy_safe_def)
  from allocate_sound [OF assms(1) this, of "ps_zero_at_free s" flag "- 1" False] obtain pa ms where
    a: "mckernel_allocate_aligned_pages_node (ps_zero_at_free s) k PAGE_P2ALIGN flag (- 1) False (- 1) (ps_ms s) = Some (pa, ms)"
      "alloc_effect k (ps_ms s) pa ms" by (auto simp: alloc_good_def)
  have m: "ms_map ms = ms_map (ps_ms s)" using a(2) by (simp add: alloc_effect_def mem_frame_def)
  have al: "pt_alloc_pages k flag s = Some (if pa = 0 then 0 else pt_phys_to_virt s pa, s\<lparr>ps_ms := ms\<rparr>)"
    using a(1) m by (simp add: pt_alloc_pages_def ihk_mc_alloc_pages_def alloc_page_def pt_phys_to_virt_def)
  show ?thesis
  proof (cases "pa = 0")
    case True
    with al a(2) show ?thesis by auto
  next
    case False
    then have "page_range pa k \<subseteq> mem_bytes (ps_ms s)" using a(2) by (simp add: alloc_effect_def)
    then have sub: "page_range pa k \<subseteq> mem_range (ps_ms s)" using mem_bytes_chunk(1) [OF assms(1)] by blast
    moreover have "unat pa \<in> page_range pa k" using assms(2) by (simp add: page_range_def)
    ultimately have "unat pa \<in> mem_range (ps_ms s)" by blast
    with mem_virt [OF assms(1), of pa] al a(2) False sub show ?thesis
      by (intro exI [of _ pa] exI) (auto simp: pt_phys_to_virt_def pt_virt_to_phys_def)
  qed
qed

lemma free_pages_sound:
  assumes "mem_ok (ps_ms s)" "0 < k" "k \<le> 0x7ffff" "4096 dvd unat pa" "page_range pa k \<subseteq> mem_range (ps_ms s)"
    "page_range pa k \<inter> mem_bytes (ps_ms s) = {}" "phys_to_page (ms_hash (ps_ms s)) pa = None"
  shows "\<exists>ms. pt_free_pages (pt_phys_to_virt s pa) k u s = Some (s\<lparr>ps_ms := ms\<rparr>) \<and> mem_ok ms \<and> mem_frame (ps_ms s) ms \<and>
    mem_bytes ms = mem_bytes (ps_ms s) \<union> page_range pa k"
proof -
  have "k \<le> INT_PAGES_MAX" using assms(3) by (simp add: INT_PAGES_MAX_def)
  from free_in_allocator_sound [OF assms(1,2) this assms(4-6), of "ps_zero_at_free s" "ps_deferred_zero s" "ps_may_ask s" u]
  obtain ms where f: "mckernel_free_pages_in_allocator (ps_zero_at_free s) (ps_deferred_zero s) (ps_may_ask s)
      (phys_to_virt (ms_map (ps_ms s)) pa) k u (ps_ms s) = Some ms" "mem_ok ms" "mem_frame (ps_ms s) ms"
      "mem_bytes ms = mem_bytes (ps_ms s) \<union> page_range pa k" by blast
  have "unat pa \<in> mem_range (ps_ms s)" using assms(2,5) by (auto simp: page_range_def)
  with mem_virt(1) [OF assms(1)] assms(7) f show ?thesis
    by (auto simp: pt_free_pages_def mckernel_free_pages_def pt_phys_to_virt_def)
qed

subsection \<open>Allocating, freeing and writing tables\<close>

lemma tab_disjoint:
  assumes "frame_ok (ps_ms s) q" "frame_ok (ps_ms s) q'" "tab_page s q \<inter> tab_page s q' \<noteq> {}"
  shows "q = q'"
proof -
  have "pt_virt_to_phys s q = pt_virt_to_phys s q'"
    using assms by (intro page_overlap) (auto simp: frame_ok_def Let_def tab_page_def pt_virt_to_phys_def)
  with assms(1,2) show ?thesis by (metis frame_ok_def pt_virt_to_phys_def)
qed

text \<open>The bits of the masks and flags.\<close>

lemma PT_PHYSMASK_mask: "PT_PHYSMASK = push_bit 12 (mask 40)"
  by (simp add: PT_PHYSMASK_def mask_eq_exp_minus_1)

lemma PAGE_MASK_mask: "PAGE_MASK = NOT (mask 12)"
  by (simp add: PAGE_MASK_def mask_eq_exp_minus_1)

lemma pte_bits:
  "bit PT_PHYSMASK k \<longleftrightarrow> 12 \<le> k \<and> k < 52"
  "bit PAGE_MASK k \<longleftrightarrow> 12 \<le> k \<and> k < 64"
  "bit PDIR_ATTR k \<longleftrightarrow> k < 3"
  "bit PF_SIZE k \<longleftrightarrow> k = 7"
  "bit PF_PRESENT k \<longleftrightarrow> k = 0"
proof -
  show "bit PT_PHYSMASK k \<longleftrightarrow> 12 \<le> k \<and> k < 52" unfolding PT_PHYSMASK_mask by (auto simp: bit_simps)
  show "bit PAGE_MASK k \<longleftrightarrow> 12 \<le> k \<and> k < 64" unfolding PAGE_MASK_mask by (auto simp: bit_simps)
  have d: "PDIR_ATTR = mask 3" "PF_SIZE = 2 ^ 7" "PF_PRESENT = 2 ^ 0"
    by (simp_all add: PDIR_ATTR_def PF_SIZE_def PF_PRESENT_def mask_eq_exp_minus_1)
  show "bit PDIR_ATTR k \<longleftrightarrow> k < 3" unfolding d(1) bit_mask_iff by auto
  show "bit PF_SIZE k \<longleftrightarrow> k = 7" unfolding d(2) bit_exp_iff by auto
  show "bit PF_PRESENT k \<longleftrightarrow> k = 0" unfolding d(3) bit_exp_iff by auto
qed

lemma page_addr_bits:
  fixes pa :: u64
  assumes "unat pa < 2 ^ 52" "4096 dvd unat pa" "bit pa k"
  shows "12 \<le> k \<and> k < 52"
proof -
  have k: "k < 64" using bit_imp_le_length [OF assms(3)] by simp
  have "bit (unat pa) k" using assms(3) by (simp add: bit_unsigned_iff)
  then have b: "odd (unat pa div 2 ^ k)" by (simp add: bit_iff_odd)
  have "k < 52"
  proof (rule ccontr)
    assume "\<not> k < 52"
    then have "(2 :: nat) ^ 52 \<le> 2 ^ k" by (intro power_increasing) auto
    with assms(1) have "unat pa div 2 ^ k = 0" by simp
    with b show False by simp
  qed
  moreover have "12 \<le> k"
  proof (rule ccontr)
    assume "\<not> 12 \<le> k"
    then have "(2 :: nat) ^ 12 = 2 ^ k * 2 ^ (11 - k) * 2" by (simp flip: power_add power_Suc2)
    with assms(2) obtain j where "unat pa = 2 ^ k * (2 ^ (11 - k) * 2 * j)" by (auto elim!: dvdE simp: algebra_simps)
    with b show False by simp
  qed
  ultimately show ?thesis by simp
qed

lemma dir_entry:
  assumes "unat pa < 2 ^ 52" "4096 dvd unat pa"
  shows "(pa OR PDIR_ATTR) AND PT_PHYSMASK = pa" "dir_ok (pa OR PDIR_ATTR)" "pa OR PDIR_ATTR \<noteq> 0"
    "(pa OR PDIR_ATTR) AND PF_SIZE = 0" "(pa OR PDIR_ATTR) AND PF_PRESENT \<noteq> 0" "(pa OR PDIR_ATTR) AND PAGE_MASK = pa"
proof -
  note b = page_addr_bits [OF assms]
  show p: "(pa OR PDIR_ATTR) AND PT_PHYSMASK = pa" "(pa OR PDIR_ATTR) AND PF_SIZE = 0" "(pa OR PDIR_ATTR) AND PAGE_MASK = pa"
    by (rule bit_eqI; use b in \<open>force simp: bit_simps pte_bits\<close>)+
  show "dir_ok (pa OR PDIR_ATTR)" unfolding dir_ok_def p(1) ..
  have "bit ((pa OR PDIR_ATTR) AND PF_PRESENT) 0" by (simp add: bit_simps pte_bits)
  then show "(pa OR PDIR_ATTR) AND PF_PRESENT \<noteq> 0" by auto
  then show "pa OR PDIR_ATTR \<noteq> 0" by auto
qed

definition pt_keep :: "pt_sys \<Rightarrow> pt_sys \<Rightarrow> bool" where
  "pt_keep s s' \<longleftrightarrow> pt_mem s' \<and> same_ctx s s' \<and> pt_total s' = pt_total s"

lemma pt_keep_trans: "pt_keep s s' \<Longrightarrow> pt_keep s' s'' \<Longrightarrow> pt_keep s s''"
  using same_ctx_trans by (auto simp: pt_keep_def)

lemma pt_keep_refl: "pt_mem s \<Longrightarrow> pt_keep s s"
  by (simp add: pt_keep_def)

lemma alloc_new_pt_sound:
  assumes "pt_mem s"
  shows "\<exists>q s'. alloc_new_pt flag s = Some (q, s') \<and> pt_keep s s' \<and>
    (if q = 0 then ps_tab s' = ps_tab s
     else ps_tab s q = None \<and> ps_tab s' = (ps_tab s)(q \<mapsto> (\<lambda>_. 0)) \<and> frame_ok (ps_ms s') q)"
proof -
  have mok: "mem_ok (ps_ms s)" using assms by (simp add: pt_mem_def)
  from alloc_pages_sound [OF mok, of 1 flag] obtain pa va ms where
    a: "pt_alloc_pages 1 flag s = Some (va, s\<lparr>ps_ms := ms\<rparr>)" "alloc_effect 1 (ps_ms s) pa ms"
      "if pa = 0 then va = 0 else va = pt_phys_to_virt s pa \<and> va \<noteq> 0 \<and> pt_virt_to_phys s va = pa \<and> page_range pa 1 \<subseteq> mem_range (ps_ms s)"
    by auto
  have f: "mem_frame (ps_ms s) ms" "mem_ok ms" using a(2) by (simp_all add: alloc_effect_def)
  show ?thesis
  proof (cases "pa = 0")
    case True
    then have "mem_bytes ms = mem_bytes (ps_ms s)" using a(2) by (simp add: alloc_effect_def)
    with True a(1,3) f assms show ?thesis
      by (auto simp: alloc_new_pt_def pt_keep_def pt_mem_def same_ctx_def mem_frame_def frame_ok_def Let_def no_struct_def
          pt_total_def tab_bytes_def tab_page_def pt_virt_to_phys_def)
  next
    case False
    let ?s = "s\<lparr>ps_ms := ms, ps_tab := (ps_tab s)(va \<mapsto> (\<lambda>_. 0))\<rparr>"
    have va: "va = pt_phys_to_virt s pa" "va \<noteq> 0" "pt_virt_to_phys s va = pa" "page_range pa 1 \<subseteq> mem_range (ps_ms s)" using a(3) False by auto
    have mb: "page_range pa 1 \<subseteq> mem_bytes (ps_ms s)" "mem_bytes ms = mem_bytes (ps_ms s) - page_range pa 1" "4096 dvd unat pa"
      using a(2) False by (simp_all add: alloc_effect_def)
    have pa: "unat pa \<in> page_range pa 1" by (simp add: page_range_def)
    have fr: "ps_tab s va = None"
    proof (rule ccontr)
      assume "ps_tab s va \<noteq> None"
      then have "frame_ok (ps_ms s) va" using assms by (auto simp: pt_mem_def)
      with va(3) pa mb(1) show False by (auto simp: frame_ok_def Let_def pt_virt_to_phys_def)
    qed
    have lim: "0 < unat pa" "unat pa < 2 ^ 52" using mem_range_limit [OF mok] va(4) pa by blast+
    have fv: "frame_ok ms va" using va mb lim f(1)
      by (auto simp: frame_ok_def Let_def pt_virt_to_phys_def pt_phys_to_virt_def mem_frame_def)
    have fo: "frame_ok ms q" if "q \<in> dom (ps_tab s)" for q
      using assms that mb(2) f(1) by (auto simp: pt_mem_def frame_ok_def Let_def mem_frame_def)
    have v2p: "pt_virt_to_phys ?s q = pt_virt_to_phys s q" for q using f(1) by (simp add: pt_virt_to_phys_def mem_frame_def)
    have "tab_bytes ?s = tab_bytes s \<union> page_range pa 1"
      using fr va(3) by (auto simp: tab_bytes_def tab_page_def v2p dom_def split: if_splits)
    with mb have tot: "pt_total ?s = pt_total s" by (auto simp: pt_total_def)
    have "pt_keep s ?s" using assms tot fv fo f
      by (auto simp: pt_keep_def pt_mem_def same_ctx_def mem_frame_def no_struct_def split: if_splits)
    with a(1) va(2) fr fv show ?thesis by (auto simp: alloc_new_pt_def)
  qed
qed

lemma free_pt_sound:
  assumes "pt_mem s" "ps_tab s q \<noteq> None"
  shows "\<exists>s'. free_pt q s = Some s' \<and> pt_keep s s' \<and> ps_tab s' = (ps_tab s)(q := None)"
proof -
  let ?s = "s\<lparr>ps_tab := (ps_tab s)(q := None)\<rparr>" and ?pa = "pt_virt_to_phys s q"
  have mok: "mem_ok (ps_ms ?s)" using assms by (simp add: pt_mem_def)
  have fo: "\<forall>p \<in> dom (ps_tab s). frame_ok (ps_ms s) p" and ns: "no_struct (ps_ms s) (pt_total s)" using assms(1) by (simp_all add: pt_mem_def)
  then have fq: "frame_ok (ps_ms s) q" using assms(2) by auto
  then have pa: "4096 dvd unat ?pa" "page_range ?pa 1 \<subseteq> mem_range (ps_ms ?s)" "page_range ?pa 1 \<inter> mem_bytes (ps_ms ?s) = {}"
    "pt_phys_to_virt ?s ?pa = q" by (auto simp: frame_ok_def Let_def pt_virt_to_phys_def pt_phys_to_virt_def)
  have "unat ?pa \<in> pt_total s" using assms(2) by (auto simp: pt_total_def tab_bytes_def tab_page_def page_range_def)
  with ns have "phys_to_page (ms_hash (ps_ms ?s)) ?pa = None" by (simp add: no_struct_def)
  from free_pages_sound [OF mok _ _ pa(1-3) this, of False] pa(4) obtain ms where
    f: "pt_free_pages q 1 False ?s = Some (?s\<lparr>ps_ms := ms\<rparr>)" "mem_ok ms" "mem_frame (ps_ms s) ms"
      "mem_bytes ms = mem_bytes (ps_ms s) \<union> page_range ?pa 1" by auto
  let ?s' = "?s\<lparr>ps_ms := ms\<rparr>"
  have v2p: "pt_virt_to_phys ?s' p = pt_virt_to_phys s p" for p using f(3) by (simp add: pt_virt_to_phys_def mem_frame_def)
  have dom: "dom (ps_tab s) = insert q (dom (ps_tab ?s'))" using assms(2) by auto
  have "tab_bytes s = tab_bytes ?s' \<union> page_range ?pa 1"
    unfolding tab_bytes_def tab_page_def v2p dom by (simp only: UN_insert Un_commute)
  with f(4) have tot: "pt_total ?s' = pt_total s" by (auto simp: pt_total_def)
  have "frame_ok ms p" if p: "p \<in> dom (ps_tab ?s')" for p
  proof -
    have fp: "frame_ok (ps_ms s) p" "p \<noteq> q" using fo p by (auto split: if_splits)
    then have "tab_page s p \<inter> page_range ?pa 1 = {}" using tab_disjoint [OF fp(1) fq] by (auto simp: tab_page_def)
    with fp(1) f(3,4) show ?thesis by (auto simp: frame_ok_def Let_def mem_frame_def tab_page_def pt_virt_to_phys_def)
  qed
  with f(2,3) ns tot have "pt_keep s ?s'" by (auto simp: pt_keep_def pt_mem_def same_ctx_def mem_frame_def no_struct_def)
  with f(1) show ?thesis by (auto simp: free_pt_def)
qed

lemma pt_write_sound:
  assumes "ps_tab s q = Some t" "i < 512"
  shows "pt_read (q, i) s = Some (t i)" "pt_write (q, i) e s = Some (s\<lparr>ps_tab := (ps_tab s)(q \<mapsto> t(i := e))\<rparr>)"
    "pt_mem s \<Longrightarrow> pt_keep s (s\<lparr>ps_tab := (ps_tab s)(q \<mapsto> t(i := e))\<rparr>)"
proof -
  have "dom ((ps_tab s)(q \<mapsto> t(i := e))) = dom (ps_tab s)" using assms(1) by auto
  then have "tab_bytes (s\<lparr>ps_tab := (ps_tab s)(q \<mapsto> t(i := e))\<rparr>) = tab_bytes s"
    unfolding tab_bytes_def tab_page_def pt_virt_to_phys_def by simp
  with assms show "pt_read (q, i) s = Some (t i)" "pt_write (q, i) e s = Some (s\<lparr>ps_tab := (ps_tab s)(q \<mapsto> t(i := e))\<rparr>)"
    "pt_mem s \<Longrightarrow> pt_keep s (s\<lparr>ps_tab := (ps_tab s)(q \<mapsto> t(i := e))\<rparr>)"
    by (auto simp: pt_read_def pt_write_def PT_ENTRIES_def pt_keep_def pt_mem_def pt_total_def same_ctx_def)
qed

subsection \<open>An address space and a change to a part of it\<close>

definition pt_inv :: "nat \<Rightarrow> u64 \<Rightarrow> pt_sys \<Rightarrow> bool" where
  "pt_inv n r s \<longleftrightarrow> pt_mem s \<and> tree (ms_map (ps_ms s)) (ps_tab s) n r"

definition table_at :: "nat \<Rightarrow> u64 \<Rightarrow> pt_sys \<Rightarrow> nat list \<Rightarrow> u64 \<Rightarrow> bool" where
  "table_at n r s \<pi> q \<longleftrightarrow> reached (ms_map (ps_ms s)) (ps_tab s) n r \<pi> q"

text \<open>The level and the value of the entry an address ends at; \<open>None\<close> for a null entry.\<close>

definition pte_at :: "u64 \<Rightarrow> pt_sys \<Rightarrow> nat \<Rightarrow> (nat \<times> u64) option" where
  "pte_at r s v = lf (ms_map (ps_ms s)) (ps_tab s) 4 r (vix v)"

definition reg :: "nat list \<Rightarrow> nat set" where
  "reg \<pi> = {v. v < 2 ^ 48 \<and> below \<pi> v}"

text \<open>Outside of the addresses \<open>R\<close> the translation stays, as do the tables that lead elsewhere; tables of
  other address spaces and the top entries from \<open>n\<close> on are left alone.\<close>

definition pt_upd :: "nat \<Rightarrow> u64 \<Rightarrow> nat set \<Rightarrow> pt_sys \<Rightarrow> pt_sys \<Rightarrow> bool" where
  "pt_upd n r R s s' \<longleftrightarrow> pt_inv n r s' \<and> same_ctx s s' \<and>
     (\<forall>\<pi> q. table_at n r s \<pi> q \<and> \<not> reg \<pi> \<subseteq> R \<longrightarrow> table_at n r s' \<pi> q) \<and>
     (\<forall>v. v < n * 2 ^ 39 \<and> v \<notin> R \<longrightarrow> pte_at r s' v = pte_at r s v) \<and>
     (\<forall>p. ps_tab s p \<noteq> None \<and> (\<forall>\<pi>. \<not> table_at n r s \<pi> p) \<longrightarrow> ps_tab s' p = ps_tab s p \<and> (\<forall>\<pi>. \<not> table_at n r s' \<pi> p)) \<and>
     (\<forall>i \<ge> n. map_option (\<lambda>t. t i) (ps_tab s' r) = map_option (\<lambda>t. t i) (ps_tab s r))"

text \<open>The tables of every other address space.\<close>

definition others_same :: "nat \<Rightarrow> u64 \<Rightarrow> pt_sys \<Rightarrow> pt_sys \<Rightarrow> bool" where
  "others_same n r s s' \<longleftrightarrow> (\<forall>p. ps_tab s p \<noteq> None \<and> (\<forall>\<pi>. \<not> table_at n r s \<pi> p) \<longrightarrow>
     ps_tab s' p = ps_tab s p \<and> (\<forall>\<pi>. \<not> table_at n r s' \<pi> p))"

lemma others_same_refl [simp]: "others_same n r s s"
  by (simp add: others_same_def)

lemma others_same_trans: "others_same n r s s' \<Longrightarrow> others_same n r s' s'' \<Longrightarrow> others_same n r s s''"
  unfolding others_same_def by fastforce

lemma pt_upd_others: "pt_upd n r R s s' \<Longrightarrow> others_same n r s s'"
  by (simp add: pt_upd_def others_same_def)

lemma pt_upd_inv: "pt_upd n r R s s' \<Longrightarrow> pt_inv n r s'"
  and pt_upd_ctx: "pt_upd n r R s s' \<Longrightarrow> same_ctx s s'"
  by (simp_all add: pt_upd_def)

lemma pt_upd_table: "pt_upd n r R s s' \<Longrightarrow> table_at n r s \<pi> q \<Longrightarrow> \<not> reg \<pi> \<subseteq> R \<Longrightarrow> table_at n r s' \<pi> q"
  unfolding pt_upd_def by blast

lemma pt_upd_pte: "pt_upd n r R s s' \<Longrightarrow> v < n * 2 ^ 39 \<Longrightarrow> v \<notin> R \<Longrightarrow> pte_at r s' v = pte_at r s v"
  unfolding pt_upd_def by blast

lemma pt_upd_other:
  "pt_upd n r R s s' \<Longrightarrow> ps_tab s p \<noteq> None \<Longrightarrow> (\<And>\<pi>. \<not> table_at n r s \<pi> p) \<Longrightarrow> ps_tab s' p = ps_tab s p \<and> (\<forall>\<pi>. \<not> table_at n r s' \<pi> p)"
  unfolding pt_upd_def by blast

lemma pt_upd_top: "pt_upd n r R s s' \<Longrightarrow> n \<le> i \<Longrightarrow> map_option (\<lambda>t. t i) (ps_tab s' r) = map_option (\<lambda>t. t i) (ps_tab s r)"
  unfolding pt_upd_def by blast

lemma pt_updI:
  assumes "pt_inv n r s'" "same_ctx s s'"
    "\<And>\<pi> q. table_at n r s \<pi> q \<Longrightarrow> \<not> reg \<pi> \<subseteq> R \<Longrightarrow> table_at n r s' \<pi> q"
    "\<And>v. v < n * 2 ^ 39 \<Longrightarrow> v \<notin> R \<Longrightarrow> pte_at r s' v = pte_at r s v"
    "\<And>p. ps_tab s p \<noteq> None \<Longrightarrow> (\<And>\<pi>. \<not> table_at n r s \<pi> p) \<Longrightarrow> ps_tab s' p = ps_tab s p \<and> (\<forall>\<pi>. \<not> table_at n r s' \<pi> p)"
    "\<And>i. n \<le> i \<Longrightarrow> map_option (\<lambda>t. t i) (ps_tab s' r) = map_option (\<lambda>t. t i) (ps_tab s r)"
  shows "pt_upd n r R s s'"
  unfolding pt_upd_def using assms by blast

lemma pt_upd_refl: "pt_inv n r s \<Longrightarrow> pt_upd n r R s s"
  by (simp add: pt_upd_def)

lemma pt_upd_mono: "pt_upd n r R s s' \<Longrightarrow> R \<subseteq> R' \<Longrightarrow> pt_upd n r R' s s'"
  by (rule pt_updI) (blast intro: pt_upd_inv pt_upd_ctx pt_upd_pte pt_upd_table | auto dest: pt_upd_other pt_upd_top)+

text \<open>A change that only adds empty tables.\<close>

lemma pt_upd_shrink:
  assumes "pt_upd n r R s s'" "\<And>v. v < n * 2 ^ 39 \<Longrightarrow> pte_at r s' v = pte_at r s v" "\<And>\<pi> q. table_at n r s \<pi> q \<Longrightarrow> table_at n r s' \<pi> q"
  shows "pt_upd n r R' s s'"
proof (rule pt_updI)
  show "ps_tab s' p = ps_tab s p \<and> (\<forall>\<pi>. \<not> table_at n r s' \<pi> p)" if "ps_tab s p \<noteq> None" "\<And>\<pi>. \<not> table_at n r s \<pi> p" for p
    by (rule pt_upd_other [OF assms(1) that])
qed (use assms pt_upd_inv [OF assms(1)] pt_upd_ctx [OF assms(1)] pt_upd_top [OF assms(1)] in auto)

lemma pt_upd_trans:
  assumes "pt_upd n r R s s'" "pt_upd n r R' s' s''"
  shows "pt_upd n r (R \<union> R') s s''"
proof (rule pt_updI)
  show "pt_inv n r s''" "same_ctx s s''"
    using pt_upd_inv [OF assms(2)] same_ctx_trans [OF pt_upd_ctx [OF assms(1)] pt_upd_ctx [OF assms(2)]] by blast+
  show "table_at n r s'' \<pi> q" if "table_at n r s \<pi> q" "\<not> reg \<pi> \<subseteq> R \<union> R'" for \<pi> q
    using that pt_upd_table [OF assms(1), of \<pi> q] pt_upd_table [OF assms(2), of \<pi> q] by blast
  show "pte_at r s'' v = pte_at r s v" if "v < n * 2 ^ 39" "v \<notin> R \<union> R'" for v
    using that pt_upd_pte [OF assms(1), of v] pt_upd_pte [OF assms(2), of v] by simp
  show "ps_tab s'' p = ps_tab s p \<and> (\<forall>\<pi>. \<not> table_at n r s'' \<pi> p)" if "ps_tab s p \<noteq> None" "\<And>\<pi>. \<not> table_at n r s \<pi> p" for p
    using pt_upd_other [OF assms(1) that] pt_upd_other [OF assms(2), of p] that(1) by simp
  show "map_option (\<lambda>t. t i) (ps_tab s'' r) = map_option (\<lambda>t. t i) (ps_tab s r)" if "n \<le> i" for i
    using pt_upd_top [OF assms(1) that] pt_upd_top [OF assms(2) that] by simp
qed

text \<open>Changes that do not concern the tables.\<close>

lemma pt_upd_frame:
  assumes "pt_inv n r s" "pt_mem s'" "same_ctx s s'" "ps_tab s' = ps_tab s"
  shows "pt_upd n r R s s'" "pte_at r s' v = pte_at r s v" "table_at n r s' \<pi> q = table_at n r s \<pi> q"
  using assms by (simp_all add: pt_upd_def pt_inv_def table_at_def pte_at_def same_ctx_def)

lemma reg_range:
  assumes "length \<pi> \<le> 4" "\<forall>i \<in> set \<pi>. i < 512"
  shows "reg \<pi> = {pbase \<pi> ..< pbase \<pi> + psz (length \<pi>)}" "pbase \<pi> + psz (length \<pi>) \<le> 2 ^ 48"
proof -
  have "pidx \<pi> < 512 ^ length \<pi>" using assms(2)
  proof (induction \<pi> rule: rev_induct)
    case (snoc i \<pi>)
    then have "pidx \<pi> + 1 \<le> 512 ^ length \<pi>" "i < 512" by auto
    then have "(pidx \<pi> + 1) * 512 \<le> 512 ^ length \<pi> * 512" by (intro mult_le_mono1)
    with \<open>i < 512\<close> show ?case by (simp add: pidx_snoc)
  qed (simp add: pidx_def)
  then have "(pidx \<pi> + 1) * psz (length \<pi>) \<le> 512 ^ length \<pi> * psz (length \<pi>)" by (intro mult_le_mono1) simp
  moreover have "512 ^ length \<pi> * psz (length \<pi>) = 2 ^ 48"
  proof -
    have "(512 :: nat) ^ k = 2 ^ (9 * k)" for k by (simp add: power_mult)
    then show ?thesis using assms(1) by (simp add: psz_def flip: power_add)
  qed
  ultimately show lim: "pbase \<pi> + psz (length \<pi>) \<le> 2 ^ 48" by (simp add: pbase_def algebra_simps)
  then show "reg \<pi> = {pbase \<pi> ..< pbase \<pi> + psz (length \<pi>)}" using below_range [OF _ assms] by (auto simp: reg_def)
qed

lemma reg_not_sub:
  assumes "length \<pi> < 4" "path_ok n (\<pi> @ [i])"
  shows "\<not> reg \<pi> \<subseteq> reg (\<pi> @ [i])"
proof -
  have ix: "\<forall>i \<in> set \<pi>. i < 512" "\<forall>j \<in> set (\<pi> @ [i]). j < 512" using assms(2) by (auto simp: path_ok_def)
  have "psz (length \<pi>) = 512 * psz (Suc (length \<pi>))" by (rule psz_Suc [OF assms(1)])
  then have "card (reg (\<pi> @ [i])) < card (reg \<pi>)" using assms(1) ix by (simp add: reg_range(1))
  moreover have "finite (reg (\<pi> @ [i]))" by (rule finite_subset [of _ "{..<2 ^ 48}"]) (auto simp: reg_def)
  ultimately show ?thesis using card_mono leD by blast
qed

lemma vix_below: "v \<in> reg \<pi> \<Longrightarrow> \<exists>rest. vix v = \<pi> @ rest"
  by (simp add: reg_def below_def)

lemma not_below: "v \<notin> reg (\<pi> @ [i]) \<Longrightarrow> v < 2 ^ 48 \<Longrightarrow> vix v \<noteq> \<pi> @ i # rest"
  by (auto simp: reg_def below_def)

text \<open>The value below an entry that is no directory.\<close>

lemma pte_at_entry:
  assumes "table_at n r s \<pi> q" "ps_tab s q = Some t" "path_ok n (\<pi> @ [i])" "\<not> is_dir (4 - length \<pi>) (t i)" "v \<in> reg (\<pi> @ [i])"
  shows "pte_at r s v = (if t i = 0 then None else Some (4 - length \<pi>, t i))"
proof -
  obtain rest where "vix v = \<pi> @ i # rest" using vix_below [OF assms(5)] by auto
  moreover have "i < 512" using assms(3) by (simp add: path_ok_snoc)
  ultimately show ?thesis using lf_here [OF assms(1) [unfolded table_at_def] assms(2), of i rest] assms(4) by (simp add: pte_at_def)
qed

subsection \<open>The three changes to the tree\<close>

lemma inv_tree: "pt_inv n r s \<Longrightarrow> tree (ms_map (ps_ms s)) (ps_tab s) n r"
  by (simp add: pt_inv_def)

lemma inv_bound: "pt_inv n r s \<Longrightarrow> v < n * 2 ^ 39 \<Longrightarrow> v < 2 ^ 48 \<and> path_ok n (vix v)"
proof -
  assume inv: "pt_inv n r s" and v: "v < n * 2 ^ 39"
  then have n: "n \<le> 512" by (simp add: pt_inv_def tree_def)
  then have "n * 2 ^ 39 \<le> 512 * 2 ^ 39" by (rule mult_le_mono1)
  then show ?thesis using path_ok_vix_bound [OF n v] v by simp
qed

lemma inv_table:
  assumes "pt_inv n r s" "table_at n r s \<pi> q"
  obtains t where "ps_tab s q = Some t"
  using tree_allocated [OF inv_tree [OF assms(1)], of \<pi> q] assms(2) unfolding table_at_def by auto

lemma table_root: "table_at n r s [] r"
  by (simp add: table_at_def reached_root)

lemma table_child:
  assumes "table_at n r s \<pi> q" "ps_tab s q = Some t" "path_ok n (\<pi> @ [i])" "is_dir (4 - length \<pi>) (t i)"
  shows "table_at n r s (\<pi> @ [i]) (pt_phys_to_virt s (t i AND PT_PHYSMASK))"
proof -
  have "length \<pi> \<le> 2" using assms(4) by (auto simp: is_dir_def)
  with assms show ?thesis by (auto simp: table_at_def reached_snoc child_def pt_phys_to_virt_def)
qed

text \<open>An entry of a page or null is written over another one.\<close>

lemma upd_put:
  assumes inv: "pt_inv n r s" and q: "table_at n r s \<pi> q" "ps_tab s q = Some t" "path_ok n (\<pi> @ [i])"
    and e: "\<not> is_dir (4 - length \<pi>) (t i)" "\<not> is_dir (4 - length \<pi>) e"
    and s': "pt_mem s'" "same_ctx s s'" "ps_tab s' = (ps_tab s)(q \<mapsto> t(i := e))"
  shows "pt_upd n r (reg (\<pi> @ [i])) s s'"
    "v \<in> reg (\<pi> @ [i]) \<Longrightarrow> pte_at r s' v = (if e = 0 then None else Some (4 - length \<pi>, e))"
    "table_at n r s' \<pi>' p = table_at n r s \<pi>' p"
proof -
  note tr = inv_tree [OF inv]
  note q1 = q(1) [unfolded table_at_def]
  have km: "ms_map (ps_ms s') = ms_map (ps_ms s)" using s'(2) by (simp add: same_ctx_def)
  have new: "new_entry_ok (ms_map (ps_ms s)) (ps_tab s) n r (4 - length \<pi>) e" using e(2) by (simp add: new_entry_ok_def)
  have i: "i < 512" using q(3) by (simp add: path_ok_snoc)
  have re: "table_at n r s' \<pi>' p = table_at n r s \<pi>' p" for \<pi>' p
    using reached_put [OF tr q1 q(2,3) e(1) new] e(2) by (simp add: table_at_def km s'(3))
  then show "table_at n r s' \<pi>' p = table_at n r s \<pi>' p" .
  show "v \<in> reg (\<pi> @ [i]) \<Longrightarrow> pte_at r s' v = (if e = 0 then None else Some (4 - length \<pi>, e))"
    using vix_below [of v "\<pi> @ [i]"] lf_put_here [OF tr q1 q(2) i, of e] e(2) by (auto simp: pte_at_def km s'(3))
  show "pt_upd n r (reg (\<pi> @ [i])) s s'"
  proof (rule pt_updI)
    show "pt_inv n r s'" using tree_put [OF tr q1 q(2,3) e(1) new] s'(1) by (simp add: pt_inv_def km s'(3))
    show "pte_at r s' v = pte_at r s v" if "v < n * 2 ^ 39" "v \<notin> reg (\<pi> @ [i])" for v
      using lf_put_other [OF tr q1 q(2), of "vix v" i e] inv_bound [OF inv that(1)] not_below [OF that(2)]
      by (simp add: pte_at_def km s'(3))
    show "ps_tab s' p = ps_tab s p \<and> (\<forall>\<pi>. \<not> table_at n r s' \<pi> p)" if "\<And>\<pi>. \<not> table_at n r s \<pi> p" for p
      using that q(1) by (auto simp: re s'(3))
    show "map_option (\<lambda>t. t j) (ps_tab s' r) = map_option (\<lambda>t. t j) (ps_tab s r)" if "n \<le> j" for j
    proof (cases "q = r")
      case True
      then have "\<pi> = []" using tree_path_unique [OF tr reached_root, of \<pi>] q1 by blast
      then have "i \<noteq> j" using q(3) that by (auto simp: path_ok_def)
      with True q(2) show ?thesis by (simp add: s'(3))
    qed (simp add: s'(3))
  qed (use re s'(2) in auto)
qed

text \<open>A new table without directories is linked where there was none.\<close>

lemma upd_link:
  assumes inv: "pt_inv n r s" and q: "table_at n r s \<pi> q" "ps_tab s q = Some t" "path_ok n (\<pi> @ [i])" "length \<pi> < 3"
    and e: "\<not> is_dir (4 - length \<pi>) (t i)" and new: "ps_tab s q' = None" "frame_ok (ps_ms s') q'" "\<forall>j < 512. \<not> is_dir (3 - length \<pi>) (t0 j)"
    and s': "pt_mem s'" "same_ctx s s'" "ps_tab s' = (ps_tab s)(q' \<mapsto> t0, q \<mapsto> t(i := pt_virt_to_phys s' q' OR PDIR_ATTR))"
  shows "pt_upd n r (reg (\<pi> @ [i])) s s'" "table_at n r s' (\<pi> @ [i]) q'" "ps_tab s' q' = Some t0"
    "v \<in> reg (\<pi> @ [i] @ [j]) \<Longrightarrow> j < 512 \<Longrightarrow> pte_at r s' v = (if t0 j = 0 then None else Some (3 - length \<pi>, t0 j))"
    "table_at n r s' \<pi>' p \<longleftrightarrow> table_at n r s \<pi>' p \<or> \<pi>' = \<pi> @ [i] \<and> p = q'"
proof -
  let ?km = "ms_map (ps_ms s)" and ?T = "(ps_tab s)(q' \<mapsto> t0)" and ?e = "pt_virt_to_phys s' q' OR PDIR_ATTR"
  note tr = inv_tree [OF inv]
  note q1 = q(1) [unfolded table_at_def]
  have km: "ms_map (ps_ms s') = ?km" using s'(2) by (simp add: same_ctx_def)
  have un: "\<not> reached ?km (ps_tab s) n r \<pi>' q'" for \<pi>' using tree_allocated [OF tr, of \<pi>' q'] new(1) by blast
  have qq: "q' \<noteq> q" using q1 un by blast
  have Tp: "?T p = ps_tab s p" if "p \<noteq> q'" for p using that by simp
  note ch = unreached_change [where T' = ?T, OF tr un Tp]
  have q2: "reached ?km ?T n r \<pi> q" "?T q = Some t" using q1 q(2) qq by (simp_all add: ch(1))
  have pa: "unat (pt_virt_to_phys s' q') < 2 ^ 52" "4096 dvd unat (pt_virt_to_phys s' q')" "phys_to_virt ?km (pt_virt_to_phys s' q') = q'"
    using new(2) by (simp_all add: frame_ok_def Let_def pt_virt_to_phys_def km)
  note de = dir_entry [OF pa(1,2)]
  have cq: "child ?km ?e = q'" by (simp add: child_def de(1) pa(3))
  have dir: "is_dir (4 - length \<pi>) ?e" using q(4) de by (auto simp: is_dir_def)
  have nw: "new_entry_ok ?km ?T n r (4 - length \<pi>) ?e" using de(2) new(3) un by (auto simp: new_entry_ok_def cq ch(1))
  have i: "i < 512" using q(3) by (simp add: path_ok_snoc)
  have tab: "ps_tab s' = ?T(q \<mapsto> t(i := ?e))" by (simp add: s'(3))
  have re: "table_at n r s' \<pi>' p \<longleftrightarrow> table_at n r s \<pi>' p \<or> \<pi>' = \<pi> @ [i] \<and> p = q'" for \<pi>' p
    using reached_put [OF ch(2) q2 q(3) e nw] dir by (simp add: table_at_def km tab ch(1) cq)
  show "table_at n r s' \<pi>' p \<longleftrightarrow> table_at n r s \<pi>' p \<or> \<pi>' = \<pi> @ [i] \<and> p = q'" by (rule re)
  show "table_at n r s' (\<pi> @ [i]) q'" by (simp add: re)
  show "ps_tab s' q' = Some t0" using qq by (simp add: tab)
  show "v \<in> reg (\<pi> @ [i] @ [j]) \<Longrightarrow> j < 512 \<Longrightarrow> pte_at r s' v = (if t0 j = 0 then None else Some (3 - length \<pi>, t0 j))"
  proof -
    assume v: "v \<in> reg (\<pi> @ [i] @ [j])" and j: "j < 512"
    obtain rest where rest: "vix v = \<pi> @ i # j # rest" using vix_below [OF v] by auto
    have "pte_at r s' v = lf ?km (?T(q \<mapsto> t(i := ?e))) (4 - length \<pi> - 1) (child ?km ?e) (j # rest)"
      unfolding pte_at_def km tab rest using lf_put_here [OF ch(2) q2 i, of ?e "j # rest"] dir de(3) by (simp only: if_True if_False simp_thms)
    also have "\<dots> = (if t0 j = 0 then None else Some (3 - length \<pi>, t0 j))" unfolding cq using new(3) j qq by simp
    finally show ?thesis .
  qed
  show "pt_upd n r (reg (\<pi> @ [i])) s s'"
  proof (rule pt_updI)
    show "pt_inv n r s'" using tree_put [OF ch(2) q2 q(3) e nw] s'(1) by (simp add: pt_inv_def km tab)
    show "same_ctx s s'" by (rule s'(2))
    show "table_at n r s' \<pi>' p" if "table_at n r s \<pi>' p" for \<pi>' p using that by (simp add: re)
    show "pte_at r s' v = pte_at r s v" if "v < n * 2 ^ 39" "v \<notin> reg (\<pi> @ [i])" for v
      using lf_put_other [where T = ?T and t = t, OF ch(2) q2, of "vix v" i ?e] ch(3) [of "vix v"] inv_bound [OF inv that(1)] not_below [OF that(2)]
      by (simp add: pte_at_def km tab)
    show "ps_tab s' p = ps_tab s p \<and> (\<forall>\<pi>. \<not> table_at n r s' \<pi> p)" if "ps_tab s p \<noteq> None" "\<And>\<pi>. \<not> table_at n r s \<pi> p" for p
      using that q(1) new(1) by (auto simp: re tab)
    show "map_option (\<lambda>t. t j) (ps_tab s' r) = map_option (\<lambda>t. t j) (ps_tab s r)" if "n \<le> j" for j
    proof -
      have "q' \<noteq> r" using un reached_root by blast
      moreover have "i \<noteq> j" if "q = r" using tree_path_unique [OF tr reached_root, of \<pi>] q1 q(3) \<open>n \<le> j\<close> that by (auto simp: path_ok_def)
      ultimately show ?thesis using q(2) by (cases "q = r") (auto simp: tab)
    qed
  qed
qed

text \<open>An empty table is taken out and freed.\<close>

lemma upd_unlink:
  assumes inv: "pt_inv n r s" and q: "table_at n r s \<pi> q" "ps_tab s q = Some t" "path_ok n (\<pi> @ [i])"
    and e: "is_dir (4 - length \<pi>) (t i)" "q' = pt_phys_to_virt s (t i AND PT_PHYSMASK)" "ps_tab s q' = Some t0" "\<forall>j < 512. t0 j = 0"
    and s': "pt_mem s'" "same_ctx s s'" "ps_tab s' = (ps_tab s)(q \<mapsto> t(i := 0), q' := None)"
  shows "pt_upd n r (reg (\<pi> @ [i])) s s'" "v < n * 2 ^ 39 \<Longrightarrow> pte_at r s' v = pte_at r s v"
    "table_at n r s' \<pi>' p \<longleftrightarrow> table_at n r s \<pi>' p \<and> \<pi>' \<noteq> \<pi> @ [i]"
proof -
  define T where "T = (ps_tab s)(q \<mapsto> t(i := 0))"
  let ?km = "ms_map (ps_ms s)"
  note tr = inv_tree [OF inv]
  note q1 = q(1) [unfolded table_at_def]
  have km: "ms_map (ps_ms s') = ?km" using s'(2) by (simp add: same_ctx_def)
  have ch: "q' = child ?km (t i)" by (simp add: e(2) child_def pt_phys_to_virt_def)
  have e': "ps_tab s (child ?km (t i)) = Some t0" using e(3) by (simp add: ch)
  have rq: "reached ?km (ps_tab s) n r (\<pi> @ [i]) q'" using table_child [OF q e(1)] e(2) by (simp add: table_at_def)
  have qq: "q \<noteq> q'" using tree_path_unique [OF tr q1, of "\<pi> @ [i]"] rq by auto
  have re: "reached ?km T n r \<pi>' p \<longleftrightarrow> reached ?km (ps_tab s) n r \<pi>' p \<and> \<pi>' \<noteq> \<pi> @ [i]" for \<pi>' p
    unfolding T_def by (rule reached_unlink [OF tr q1 q(2,3) e(1) e' e(4)])
  have trT: "tree ?km T n r" unfolding T_def by (rule tree_unlink(1) [OF tr q1 q(2,3) e(1) e' e(4)])
  have un: "\<not> reached ?km T n r \<pi>' q'" for \<pi>' using tree_path_unique [OF tr rq, of \<pi>'] unfolding re by blast
  have tab: "ps_tab s' = T(q' := None)" by (simp add: s'(3) T_def)
  have Tp: "(T(q' := None)) p = T p" if "p \<noteq> q'" for p using that by simp
  note c = unreached_change [where T = T and T' = "T(q' := None)", OF trT un Tp]
  have re': "table_at n r s' \<pi>' p \<longleftrightarrow> table_at n r s \<pi>' p \<and> \<pi>' \<noteq> \<pi> @ [i]" for \<pi>' p
    by (simp add: table_at_def km tab c(1) re)
  then show "table_at n r s' \<pi>' p \<longleftrightarrow> table_at n r s \<pi>' p \<and> \<pi>' \<noteq> \<pi> @ [i]" .
  show pte: "pte_at r s' v = pte_at r s v" if "v < n * 2 ^ 39" for v
    using c(3) [of "vix v"] tree_unlink(2) [OF tr q1 q(2,3) e(1) e' e(4), of "vix v"] inv_bound [OF inv that]
    by (simp add: pte_at_def km tab T_def)
  show "pt_upd n r (reg (\<pi> @ [i])) s s'"
  proof (rule pt_updI)
    show "pt_inv n r s'" using c(2) s'(1) by (simp add: pt_inv_def km tab)
    show "table_at n r s' \<pi>' p" if "table_at n r s \<pi>' p" "\<not> reg \<pi>' \<subseteq> reg (\<pi> @ [i])" for \<pi>' p using that by (auto simp: re')
    show "ps_tab s' p = ps_tab s p \<and> (\<forall>\<pi>. \<not> table_at n r s' \<pi> p)" if "\<And>\<pi>. \<not> table_at n r s \<pi> p" for p
    proof -
      have "p \<noteq> q" "p \<noteq> q'" using that q(1) rq unfolding table_at_def by blast+
      with that show ?thesis by (simp add: re' s'(3))
    qed
    show "map_option (\<lambda>t. t j) (ps_tab s' r) = map_option (\<lambda>t. t j) (ps_tab s r)" if "n \<le> j" for j
    proof -
      have "q' \<noteq> r" using rq tree_path_unique [OF tr reached_root, of "\<pi> @ [i]"] by auto
      moreover have "i \<noteq> j" if "q = r" using tree_path_unique [OF tr reached_root, of \<pi>] q1 q(3) \<open>n \<le> j\<close> that by (auto simp: path_ok_def)
      ultimately show ?thesis using q(2) by (cases "q = r") (auto simp: s'(3))
    qed
  qed (use s'(2) pte in auto)
qed

end
