(* ===== verification/PtPage.thy ===== *)
theory PtPage
  imports PtMem
begin

section \<open>Translation and single pages\<close>

text \<open>
  The functions of \<open>arch/x86_64/kernel/memory.c\<close> that follow one address: translation, lookup of an entry, setting
  and clearing one page.
\<close>

subsection \<open>Following an address\<close>

lemma virt_index_vix: "virt_index sh w = unat w div 2 ^ sh mod 512"
proof -
  have "drop_bit sh w AND 511 = take_bit 9 (drop_bit sh w)" by (simp add: take_bit_eq_mask mask_eq_exp_minus_1)
  then have "unat (drop_bit sh w AND 511) = take_bit 9 (unat (drop_bit sh w))" by (simp only: unsigned_take_bit_eq)
  then have "unat (drop_bit sh w AND 511) = unat (drop_bit sh w) mod 512" by (simp only: take_bit_eq_mod) simp
  moreover have "unat (drop_bit sh w) = unat w div 2 ^ sh"
    using unsigned_drop_bit_eq [of sh w, where ?'a=nat] unsigned_less [of w, where ?'a=nat] by (simp add: take_bit_eq_mod drop_bit_eq_div)
  ultimately show ?thesis by (simp only: virt_index_def)
qed

lemma vix_virt: "vix (unat w) = [virt_index PTL4_SHIFT w, virt_index PTL3_SHIFT w, virt_index PTL2_SHIFT w, virt_index PTL1_SHIFT w]"
  by (simp add: vix_def virt_index_vix PTL4_SHIFT_def PTL3_SHIFT_def PTL2_SHIFT_def PTL1_SHIFT_def)

lemma virt_index_less [simp]: "virt_index sh w < 512"
  by (simp add: virt_index_vix)

text \<open>The tables of an address: a path of directories, cut where it ends.\<close>

lemma dir_ok_flags:
  assumes "dir_ok e"
  shows "e AND PF_PRESENT \<noteq> 0" "e AND PF_SIZE = 0" "e AND PAGE_MASK = e AND PT_PHYSMASK"
proof -
  have b: "bit e k \<longleftrightarrow> bit e k \<and> 12 \<le> k \<and> k < 52 \<or> k < 3" for k
    using arg_cong [OF assms [unfolded dir_ok_def], of "\<lambda>x. bit x k"] by (simp add: bit_simps pte_bits)
  have b1: "bit e k \<Longrightarrow> 12 \<le> k \<and> k < 52 \<or> k < 3" for k using b [of k] by blast
  show "e AND PF_SIZE = 0" by (rule bit_eqI) (auto simp: bit_simps pte_bits dest: b1)
  show "e AND PAGE_MASK = e AND PT_PHYSMASK" by (rule bit_eqI) (auto simp: bit_simps pte_bits dest: b1)
  have "bit (e AND PF_PRESENT) 0" using b [of 0] by (simp add: bit_simps pte_bits)
  then show "e AND PF_PRESENT \<noteq> 0" by auto
qed

text \<open>One step of a walk: a directory leads on, everything else is the entry of the address.\<close>

lemma walk_step:
  assumes inv: "pt_inv n r s" and q: "table_at n r s \<pi> q" and v: "v < n * 2 ^ 39" "vix v = \<pi> @ i # rest" and len: "length \<pi> \<le> 3"
    and eqs: "\<pi>' = \<pi> @ [i]" "L = 4 - length \<pi>"
  shows "\<exists>e. pt_read (q, i) s = Some e \<and>
    (if is_dir L e then table_at n r s \<pi>' (pt_phys_to_virt s (e AND PT_PHYSMASK)) \<and> dir_ok e \<and> e \<noteq> 0
     else pte_at r s v = (if e = 0 then None else Some (L, e)))"
proof -
  obtain t where t: "ps_tab s q = Some t" using inv_table [OF inv q] .
  have b: "v < 2 ^ 48" "path_ok n (vix v)" using inv_bound [OF inv v(1)] by auto
  have "path_ok n ((\<pi> @ [i]) @ rest)" using b(2) v(2) by simp
  then have ok: "path_ok n (\<pi> @ [i])" by (rule path_ok_append)
  then have i: "i < 512" by (simp add: path_ok_snoc)
  have "v \<in> reg (\<pi> @ [i])" using b(1) v(2) by (auto simp: reg_def below_def)
  with pte_at_entry [OF q t ok _ this] table_child [OF q t ok] tree_dir_ok [OF inv_tree [OF inv] q [unfolded table_at_def] t ok]
  show ?thesis using pt_write_sound(1) [OF t i] eqs by (auto simp: is_dir_def)
qed

lemma shift_sizes: "PTL1_SHIFT = 12" "PTL2_SHIFT = 21" "PTL3_SHIFT = 30" "PTL4_SHIFT = 39"
  by (simp_all add: PTL1_SHIFT_def PTL2_SHIFT_def PTL3_SHIFT_def PTL4_SHIFT_def)

definition level_size :: "nat \<Rightarrow> u64" where
  "level_size L = (if L = 3 then PTL3_SIZE else if L = 2 then PTL2_SIZE else PTL1_SIZE)"

text \<open>What the hardware does with the entry of an address.\<close>

definition translate :: "u64 \<Rightarrow> pt_sys \<Rightarrow> u64 \<Rightarrow> int + u64 \<times> u64" where
  "translate r s v =
     (case pte_at r s (unat v) of
        None \<Rightarrow> Inl (- EFAULT)
      | Some (L, e) \<Rightarrow> if e AND PF_PRESENT = 0 then Inl (- EFAULT) else Inr (pte_get_phys e OR (v AND (level_size L - 1)), level_size L))"

text \<open>The four ways a walk can end.\<close>

lemma walk_cases:
  assumes inv: "pt_inv n r s" and v: "unat v < n * 2 ^ 39"
  obtains (l4) "pt_read (r, virt_index PTL4_SHIFT v) s = Some 0" "pte_at r s (unat v) = None"
    | (l3) e4 p3 e3 where "pt_read (r, virt_index PTL4_SHIFT v) s = Some e4" "dir_ok e4" "e4 \<noteq> 0" "p3 = pt_phys_to_virt s (e4 AND PT_PHYSMASK)"
        "table_at n r s [virt_index PTL4_SHIFT v] p3" "pt_read (p3, virt_index PTL3_SHIFT v) s = Some e3" "e3 = 0 \<or> e3 AND PF_SIZE \<noteq> 0"
        "pte_at r s (unat v) = (if e3 = 0 then None else Some (3, e3))"
    | (l2) e4 p3 e3 p2 e2 where "pt_read (r, virt_index PTL4_SHIFT v) s = Some e4" "dir_ok e4" "e4 \<noteq> 0" "p3 = pt_phys_to_virt s (e4 AND PT_PHYSMASK)"
        "pt_read (p3, virt_index PTL3_SHIFT v) s = Some e3" "dir_ok e3" "e3 \<noteq> 0" "p2 = pt_phys_to_virt s (e3 AND PT_PHYSMASK)"
        "table_at n r s [virt_index PTL4_SHIFT v, virt_index PTL3_SHIFT v] p2" "pt_read (p2, virt_index PTL2_SHIFT v) s = Some e2"
        "e2 = 0 \<or> e2 AND PF_SIZE \<noteq> 0" "pte_at r s (unat v) = (if e2 = 0 then None else Some (2, e2))"
    | (l1) e4 p3 e3 p2 e2 p1 e1 where "pt_read (r, virt_index PTL4_SHIFT v) s = Some e4" "dir_ok e4" "e4 \<noteq> 0" "p3 = pt_phys_to_virt s (e4 AND PT_PHYSMASK)"
        "pt_read (p3, virt_index PTL3_SHIFT v) s = Some e3" "dir_ok e3" "e3 \<noteq> 0" "p2 = pt_phys_to_virt s (e3 AND PT_PHYSMASK)"
        "pt_read (p2, virt_index PTL2_SHIFT v) s = Some e2" "dir_ok e2" "e2 \<noteq> 0" "p1 = pt_phys_to_virt s (e2 AND PT_PHYSMASK)"
        "table_at n r s [virt_index PTL4_SHIFT v, virt_index PTL3_SHIFT v, virt_index PTL2_SHIFT v] p1"
        "pt_read (p1, virt_index PTL1_SHIFT v) s = Some e1" "pte_at r s (unat v) = (if e1 = 0 then None else Some (1, e1))"
proof -
  let ?i4 = "virt_index PTL4_SHIFT v" and ?i3 = "virt_index PTL3_SHIFT v" and ?i2 = "virt_index PTL2_SHIFT v" and ?i1 = "virt_index PTL1_SHIFT v"
  note w = walk_step [OF inv _ v]
  obtain e4 where e4: "pt_read (r, ?i4) s = Some e4"
    "if is_dir 4 e4 then table_at n r s [?i4] (pt_phys_to_virt s (e4 AND PT_PHYSMASK)) \<and> dir_ok e4 \<and> e4 \<noteq> 0
     else pte_at r s (unat v) = (if e4 = 0 then None else Some (4, e4))"
    by (rule exE [OF w [OF table_root, of ?i4 "[?i3, ?i2, ?i1]" "[?i4]" 4]]) (simp_all add: vix_virt)
  show thesis
  proof (cases "is_dir 4 e4")
    case False
    then have "e4 = 0" by (simp add: is_dir_def)
    with e4 False show thesis by (intro l4) simp_all
  next
    case d4: True
    define p3 where "p3 = pt_phys_to_virt s (e4 AND PT_PHYSMASK)"
    have t3: "table_at n r s [?i4] p3" "dir_ok e4" "e4 \<noteq> 0" using e4(2) d4 by (simp_all add: p3_def)
    obtain e3 where e3: "pt_read (p3, ?i3) s = Some e3"
      "if is_dir 3 e3 then table_at n r s [?i4, ?i3] (pt_phys_to_virt s (e3 AND PT_PHYSMASK)) \<and> dir_ok e3 \<and> e3 \<noteq> 0
       else pte_at r s (unat v) = (if e3 = 0 then None else Some (3, e3))"
      by (rule exE [OF w [OF t3(1), of ?i3 "[?i2, ?i1]" "[?i4, ?i3]" 3]]) (simp_all add: vix_virt)
    show thesis
    proof (cases "is_dir 3 e3")
      case False
      then have "e3 = 0 \<or> e3 AND PF_SIZE \<noteq> 0" by (simp add: is_dir_def)
      with l3 [OF e4(1) t3(2,3) p3_def t3(1) e3(1)] e3(2) False show thesis by simp
    next
      case d3: True
      define p2 where "p2 = pt_phys_to_virt s (e3 AND PT_PHYSMASK)"
      have t2: "table_at n r s [?i4, ?i3] p2" "dir_ok e3" "e3 \<noteq> 0" using e3(2) d3 by (simp_all add: p2_def)
      obtain e2 where e2: "pt_read (p2, ?i2) s = Some e2"
        "if is_dir 2 e2 then table_at n r s [?i4, ?i3, ?i2] (pt_phys_to_virt s (e2 AND PT_PHYSMASK)) \<and> dir_ok e2 \<and> e2 \<noteq> 0
         else pte_at r s (unat v) = (if e2 = 0 then None else Some (2, e2))"
        by (rule exE [OF w [OF t2(1), of ?i2 "[?i1]" "[?i4, ?i3, ?i2]" 2]]) (simp_all add: vix_virt)
      show thesis
      proof (cases "is_dir 2 e2")
        case False
        then have "e2 = 0 \<or> e2 AND PF_SIZE \<noteq> 0" by (simp add: is_dir_def)
        with l2 [OF e4(1) t3(2,3) p3_def e3(1) t2(2,3) p2_def t2(1) e2(1)] e2(2) False show thesis by simp
      next
        case d2: True
        define p1 where "p1 = pt_phys_to_virt s (e2 AND PT_PHYSMASK)"
        have t1: "table_at n r s [?i4, ?i3, ?i2] p1" "dir_ok e2" "e2 \<noteq> 0" using e2(2) d2 by (simp_all add: p1_def)
        obtain e1 where "pt_read (p1, ?i1) s = Some e1" "pte_at r s (unat v) = (if e1 = 0 then None else Some (1, e1))"
          by (rule exE [OF w [OF t1(1), of ?i1 "[]" "[?i4, ?i3, ?i2, ?i1]" 1]]) (simp_all add: vix_virt is_dir_def)
        with l1 [OF e4(1) t3(2,3) p3_def e3(1) t2(2,3) p2_def e2(1) t1(2,3) p1_def t1(1)] show thesis by blast
      qed
    qed
  qed
qed

lemma virt_to_phys_size_translate:
  assumes "pt_inv n r s" "r \<noteq> 0" "unat v < n * 2 ^ 39"
  shows "ihk_mc_pt_virt_to_phys_size r v s = Some (translate r s v)"
  using assms(1,3)
  by (cases rule: walk_cases)
    (use assms(2) in \<open>auto simp: ihk_mc_pt_virt_to_phys_size_def pt_or_init_def translate_def pte_get_phys_def level_size_def dir_ok_flags\<close>)

subsection \<open>One level down\<close>

lemma reg_split: "v \<in> reg \<pi> \<Longrightarrow> length \<pi> < 4 \<Longrightarrow> \<exists>j < 512. v \<in> reg (\<pi> @ [j])"
  by (auto simp: reg_def below_snoc)

lemma reg_snoc_sub: "reg (\<pi> @ [j]) \<subseteq> reg \<pi>"
  by (auto simp: reg_def below_def)

lemma reg_nonempty: "table_at n r s \<pi> q \<Longrightarrow> \<not> reg \<pi> \<subseteq> {}"
  using reg_range(1) [of \<pi>] by (auto simp: table_at_def reached_def path_ok_def psz_def)

text \<open>A change that adds tables at most: every translation is as before, and no memory is lost.\<close>

definition pt_same :: "nat \<Rightarrow> u64 \<Rightarrow> pt_sys \<Rightarrow> pt_sys \<Rightarrow> bool" where
  "pt_same n r s s' \<longleftrightarrow> pt_keep s s' \<and> pt_upd n r {} s s'"

lemma pt_same_refl: "pt_inv n r s \<Longrightarrow> pt_same n r s s"
  by (simp add: pt_same_def pt_upd_refl pt_keep_refl pt_inv_def)

lemma pt_same_trans: "pt_same n r s s' \<Longrightarrow> pt_same n r s' s'' \<Longrightarrow> pt_same n r s s''"
  unfolding pt_same_def using pt_keep_trans pt_upd_trans [of n r "{}" s s' "{}" s''] by auto

lemma pt_same_inv: "pt_same n r s s' \<Longrightarrow> pt_inv n r s'"
  by (auto simp: pt_same_def intro: pt_upd_inv)

lemma pt_same_pte: "pt_same n r s s' \<Longrightarrow> v < n * 2 ^ 39 \<Longrightarrow> pte_at r s' v = pte_at r s v"
  by (auto simp: pt_same_def intro: pt_upd_pte)

lemma pt_same_table: "pt_same n r s s' \<Longrightarrow> table_at n r s \<pi> q \<Longrightarrow> table_at n r s' \<pi> q"
  using reg_nonempty pt_upd_table unfolding pt_same_def by blast

lemma pt_same_mask: "pt_same n r s s' \<Longrightarrow> ps_attr_mask s' = ps_attr_mask s"
  by (simp add: pt_same_def pt_keep_def same_ctx_def)

text \<open>A freshly linked table changes no translation.\<close>

lemma link_fresh:
  assumes inv: "pt_inv n r s" and q: "table_at n r s \<pi> q" "ps_tab s q = Some t" "path_ok n (\<pi> @ [i])" "length \<pi> < 3" "t i = 0"
    and al: "alloc_new_pt flag s = Some (q', s1)" "q' \<noteq> 0"
  shows "\<exists>s2. pt_write (q, i) (pt_virt_to_phys s1 q' OR PDIR_ATTR) s1 = Some s2 \<and> pt_same n r s s2 \<and>
    table_at n r s2 (\<pi> @ [i]) q' \<and> ps_tab s2 q' = Some (\<lambda>_. 0) \<and>
    (\<forall>\<pi>' p. table_at n r s2 \<pi>' p \<longrightarrow> table_at n r s \<pi>' p \<or> \<pi>' = \<pi> @ [i])"
proof -
  have mem: "pt_mem s" using inv by (simp add: pt_inv_def)
  from alloc_new_pt_sound [OF mem, of flag] al have a: "pt_keep s s1" "ps_tab s q' = None"
    "ps_tab s1 = (ps_tab s)(q' \<mapsto> (\<lambda>_. 0))" "frame_ok (ps_ms s1) q'" by auto
  have i: "i < 512" using q(3) by (simp add: path_ok_snoc)
  have qq: "q' \<noteq> q" using a(2) q(2) by auto
  then have t1: "ps_tab s1 q = Some t" using q(2) a(3) by simp
  let ?e = "pt_virt_to_phys s1 q' OR PDIR_ATTR"
  let ?s2 = "s1\<lparr>ps_tab := (ps_tab s1)(q \<mapsto> t(i := ?e))\<rparr>"
  have m1: "pt_mem s1" using a(1) by (simp add: pt_keep_def)
  note w = pt_write_sound(2,3) [OF t1 i, of ?e]
  have k2: "pt_keep s ?s2" using pt_keep_trans [OF a(1) w(2) [OF m1]] .
  have c: "pt_mem ?s2" "same_ctx s ?s2" using k2 by (simp_all add: pt_keep_def)
  have z: "\<not> is_dir (4 - length \<pi>) (t i)" "\<forall>j < 512. \<not> is_dir (3 - length \<pi>) ((\<lambda>_. 0 :: u64) j)" using q(5) by (simp_all add: is_dir_def)
  have f2: "frame_ok (ps_ms ?s2) q'" using a(4) by simp
  have tab: "ps_tab ?s2 = (ps_tab s)(q' \<mapsto> (\<lambda>_. 0), q \<mapsto> t(i := pt_virt_to_phys ?s2 q' OR PDIR_ATTR))"
    by (simp add: a(3) pt_virt_to_phys_def)
  note l = upd_link [OF inv q(1-4) z(1) a(2) f2 z(2) c tab]
  have pte: "pte_at r ?s2 v = pte_at r s v" if v: "v < n * 2 ^ 39" for v
  proof (cases "v \<in> reg (\<pi> @ [i])")
    case True
    then obtain j where j: "j < 512" "v \<in> reg (\<pi> @ [i] @ [j])" using reg_split [of v "\<pi> @ [i]"] q(4) by auto
    with l(4) [OF j(2,1)] pte_at_entry [OF q(1-3) z(1) True] q(5) show ?thesis by simp
  qed (use pt_upd_pte [OF l(1) v] in simp)
  have "pt_same n r s ?s2" unfolding pt_same_def
    by (rule conjI [OF k2 pt_upd_shrink [OF l(1) pte]]) (simp_all add: l(5))
  with w(1) l(2,3,5) show ?thesis by blast
qed

lemma alloc_fails:
  assumes "pt_inv n r s" "alloc_new_pt flag s = Some (0, s1)"
  shows "pt_same n r s s1" "ps_tab s1 = ps_tab s" "table_at n r s1 \<pi> q = table_at n r s \<pi> q"
proof -
  have mem: "pt_mem s" using assms(1) by (simp add: pt_inv_def)
  from alloc_new_pt_sound [OF mem, of flag] assms(2) have k: "pt_keep s s1" and t: "ps_tab s1 = ps_tab s" by auto
  have c: "pt_mem s1" "same_ctx s s1" using k by (simp_all add: pt_keep_def)
  show "pt_same n r s s1" "ps_tab s1 = ps_tab s" "table_at n r s1 \<pi> q = table_at n r s \<pi> q"
    using pt_upd_frame [OF assms(1) c t] k t by (simp_all add: pt_same_def)
qed

lemma next_alloc_sound:
  assumes inv: "pt_inv n r s" and q: "table_at n r s \<pi> q" "path_ok n (\<pi> @ [i])" "length \<pi> < 3"
    and e: "pt_read (q, i) s = Some e" "e = 0 \<or> is_dir (4 - length \<pi>) e"
  shows "\<exists>q' s'. pt_next_alloc flag q i s = Some (q', s') \<and> pt_same n r s s' \<and> (q' \<noteq> 0 \<longrightarrow> table_at n r s' (\<pi> @ [i]) q') \<and>
    (\<forall>\<pi>' p. table_at n r s' \<pi>' p \<longrightarrow> table_at n r s \<pi>' p \<or> \<pi>' = \<pi> @ [i])"
proof -
  obtain t where t: "ps_tab s q = Some t" using inv_table [OF inv q(1)] .
  have i: "i < 512" using q(2) by (simp add: path_ok_snoc)
  have ti: "t i = e" using e(1) pt_write_sound(1) [OF t i] by simp
  have mem: "pt_mem s" using inv by (simp add: pt_inv_def)
  show ?thesis
  proof (cases "e = 0")
    case True
    obtain q' s1 where al: "alloc_new_pt flag s = Some (q', s1)" using alloc_new_pt_sound [OF mem] by blast
    show ?thesis
    proof (cases "q' = 0")
      case q0: True
      note f = alloc_fails [OF inv al [unfolded q0]]
      have "pt_next_alloc flag q i s = Some (0, s1)" using e(1) al True q0 by (simp add: pt_next_alloc_def)
      with f(1,3) show ?thesis by blast
    next
      case False
      from link_fresh [OF inv q(1) t q(2,3) _ al False] ti True obtain s2 where
        l: "pt_write (q, i) (pt_virt_to_phys s1 q' OR PDIR_ATTR) s1 = Some s2" "pt_same n r s s2" "table_at n r s2 (\<pi> @ [i]) q'"
          "\<forall>\<pi>' p. table_at n r s2 \<pi>' p \<longrightarrow> table_at n r s \<pi>' p \<or> \<pi>' = \<pi> @ [i]" by blast
      have "pt_next_alloc flag q i s = Some (q', s2)" using e(1) al True False l(1) by (simp add: pt_next_alloc_def)
      with l(2-4) show ?thesis by blast
    qed
  next
    case False
    then have d: "is_dir (4 - length \<pi>) (t i)" using e(2) ti by simp
    have ok: "dir_ok e" using tree_dir_ok [OF inv_tree [OF inv] q(1) [unfolded table_at_def] t q(2) d] ti by simp
    have "pt_next_alloc flag q i s = Some (pt_phys_to_virt s (e AND PT_PHYSMASK), s)"
      using e(1) dir_ok_flags [OF ok] by (simp add: pt_next_alloc_def)
    moreover have "table_at n r s (\<pi> @ [i]) (pt_phys_to_virt s (e AND PT_PHYSMASK))" using table_child [OF q(1) t q(2) d] ti by simp
    ultimately show ?thesis using pt_same_refl [OF inv] by blast
  qed
qed

subsection \<open>Setting a page\<close>

lemma entry_free:
  assumes "pt_inv n r s" "table_at n r s \<pi> q" "v < n * 2 ^ 39" "vix v = \<pi> @ i # rest" "length \<pi> \<le> 3"
    and none: "\<forall>L e. pte_at r s v = Some (L, e) \<longrightarrow> L < 4 - length \<pi>"
  shows "\<exists>e. pt_read (q, i) s = Some e \<and> (e = 0 \<or> is_dir (4 - length \<pi>) e) \<and> path_ok n (\<pi> @ [i])"
proof -
  have "path_ok n ((\<pi> @ [i]) @ rest)" using inv_bound [OF assms(1,3)] assms(4) by simp
  then have ok: "path_ok n (\<pi> @ [i])" by (rule path_ok_append)
  from walk_step [OF assms(1-5) refl refl] obtain e where e: "pt_read (q, i) s = Some e"
    "if is_dir (4 - length \<pi>) e then table_at n r s (\<pi> @ [i]) (pt_phys_to_virt s (e AND PT_PHYSMASK)) \<and> dir_ok e \<and> e \<noteq> 0
     else pte_at r s v = (if e = 0 then None else Some (4 - length \<pi>, e))" by blast
  show ?thesis
  proof (cases "is_dir (4 - length \<pi>) e \<or> e = 0")
    case False
    with e(2) have "pte_at r s v = Some (4 - length \<pi>, e)" by simp
    with none show ?thesis by blast
  qed (use e(1) ok in auto)
qed

text \<open>The way to the table of a page: the tables on it exist afterwards, the translation is as before.\<close>

definition no_new :: "nat \<Rightarrow> u64 \<Rightarrow> nat \<Rightarrow> pt_sys \<Rightarrow> pt_sys \<Rightarrow> bool" where
  "no_new n r k s s' \<longleftrightarrow> (\<forall>\<pi> q. table_at n r s' \<pi> q \<longrightarrow> table_at n r s \<pi> q \<or> length \<pi> \<le> k)"

lemma next_alloc_down:
  assumes s: "pt_same n r s0 s" "no_new n r (length \<pi>) s0 s" and q: "table_at n r s \<pi> q"
    and v: "v < n * 2 ^ 39" "vix v = \<pi> @ i # rest" "length \<pi> < 3"
    and none: "\<forall>L e. pte_at r s0 v = Some (L, e) \<longrightarrow> L < 4 - length \<pi>"
  shows "\<exists>q' s'. pt_next_alloc flag q i s = Some (q', s') \<and> pt_same n r s0 s' \<and> no_new n r (Suc (length \<pi>)) s0 s' \<and>
    (q' \<noteq> 0 \<longrightarrow> table_at n r s' (\<pi> @ [i]) q')"
proof -
  have inv: "pt_inv n r s" using s(1) by (rule pt_same_inv)
  have l: "length \<pi> \<le> 3" "\<forall>L e. pte_at r s v = Some (L, e) \<longrightarrow> L < 4 - length \<pi>"
    using v(3) none pt_same_pte [OF s(1) v(1)] by simp_all
  from entry_free [OF inv q v(1,2) l] obtain e where
    e: "pt_read (q, i) s = Some e" "e = 0 \<or> is_dir (4 - length \<pi>) e" "path_ok n (\<pi> @ [i])" by blast
  from next_alloc_sound [OF inv q e(3) v(3) e(1,2)] obtain q' s' where
    a: "pt_next_alloc flag q i s = Some (q', s')" "pt_same n r s s'" "q' \<noteq> 0 \<longrightarrow> table_at n r s' (\<pi> @ [i]) q'"
      "\<forall>\<pi>' p. table_at n r s' \<pi>' p \<longrightarrow> table_at n r s \<pi>' p \<or> \<pi>' = \<pi> @ [i]" by blast
  have "no_new n r (Suc (length \<pi>)) s0 s'" using s(2) a(4) unfolding no_new_def by fastforce
  with a(1,3) pt_same_trans [OF s(1) a(2)] show ?thesis by blast
qed

definition set_result :: "nat \<Rightarrow> u64 \<Rightarrow> nat list \<Rightarrow> u64 \<Rightarrow> u64 \<Rightarrow> int \<Rightarrow> int \<Rightarrow> pt_sys \<Rightarrow> pt_sys \<Rightarrow> bool" where
  "set_result n r \<pi> phys e err ret s s' \<longleftrightarrow>
     (ret = - ENOMEM \<and> (\<forall>w < n * 2 ^ 39. pte_at r s' w = pte_at r s w)) \<or>
     (\<exists>old. (\<forall>w \<in> reg \<pi>. pte_at r s w = Some (5 - length \<pi>, old)) \<and> old AND PF_PRESENT \<noteq> 0 \<and>
        ret = (if old AND (if length \<pi> = 4 then PT_PHYSMASK else PAGE_MASK) = phys then 0 else err) \<and> (\<forall>w < n * 2 ^ 39. pte_at r s' w = pte_at r s w)) \<or>
     ret = 0 \<and> (\<forall>w < n * 2 ^ 39. pte_at r s' w = (if w \<in> reg \<pi> then (if e = 0 then None else Some (5 - length \<pi>, e)) else pte_at r s w)) \<and>
       (\<forall>w \<in> reg \<pi>. \<forall>L old. pte_at r s w = Some (L, old) \<longrightarrow> old AND PF_PRESENT = 0)"

lemma set_small:
  assumes inv: "pt_inv n r s" and q: "table_at n r s \<pi> q" "length \<pi> = 3" "path_ok n (\<pi> @ [i])"
  shows "\<exists>ret s'. set_pt_small q i phys attr s = Some (ret, s') \<and> pt_keep s s' \<and> pt_upd n r (reg (\<pi> @ [i])) s s' \<and>
    set_result n r (\<pi> @ [i]) phys (phys OR attr_to_l1attr (ps_attr_mask s) attr) (- EBUSY) ret s s'"
proof -
  obtain t where t: "ps_tab s q = Some t" using inv_table [OF inv q(1)] .
  have i: "i < 512" using q(3) by (simp add: path_ok_snoc)
  have mem: "pt_mem s" using inv by (simp add: pt_inv_def)
  note w = pt_write_sound [OF t i]
  have nd: "\<not> is_dir (4 - length \<pi>) x" for x using q(2) by (simp add: is_dir_def)
  have at: "pte_at r s v = (if t i = 0 then None else Some (1, t i))" if "v \<in> reg (\<pi> @ [i])" for v
    using pte_at_entry [OF q(1) t q(3) nd that] q(2) by simp
  show ?thesis
  proof (cases "t i AND PF_PRESENT = 0")
    case False
    then have "t i \<noteq> 0" by auto
    with False w(1) q(2) at pt_keep_refl [OF mem] pt_upd_refl [OF inv] show ?thesis
      by (intro exI [of _ "if t i AND PT_PHYSMASK \<noteq> phys then - EBUSY else 0"] exI [of _ s]) (auto simp: set_pt_small_def set_result_def)
  next
    case True
    let ?e = "phys OR attr_to_l1attr (ps_attr_mask s) attr" let ?s = "s\<lparr>ps_tab := (ps_tab s)(q \<mapsto> t(i := ?e))\<rparr>"
    have k: "pt_mem ?s" "same_ctx s ?s" using w(3) [OF mem] by (simp_all add: pt_keep_def)
    have tab: "ps_tab ?s = (ps_tab s)(q \<mapsto> t(i := ?e))" by simp
    note u = upd_put [OF inv q(1) t q(3) nd nd k tab]
    have "set_pt_small q i phys attr s = Some (0, ?s)" using True w(1,2) by (simp add: set_pt_small_def)
    moreover have "set_result n r (\<pi> @ [i]) phys ?e (- EBUSY) 0 s ?s"
      using u(1,2) pt_upd_pte [OF u(1)] at True q(2) by (auto simp: set_result_def)
    ultimately show ?thesis using w(3) [OF mem] u(1) by blast
  qed
qed

lemma set_large:
  assumes inv: "pt_inv n r s" and q: "table_at n r s \<pi> q" "length \<pi> = 2" "path_ok n (\<pi> @ [i])" and free: "\<And>q. \<not> table_at n r s (\<pi> @ [i]) q"
  shows "\<exists>ret s'. set_pt_large q i phys attr s = Some (ret, s') \<and> pt_keep s s' \<and> pt_upd n r (reg (\<pi> @ [i])) s s' \<and>
    set_result n r (\<pi> @ [i]) phys (phys OR attr_to_l2attr (ps_attr_mask s) attr OR PF_SIZE) (- ENOMEM) ret s s'"
proof -
  obtain t where t: "ps_tab s q = Some t" using inv_table [OF inv q(1)] .
  have i: "i < 512" using q(3) by (simp add: path_ok_snoc)
  have mem: "pt_mem s" using inv by (simp add: pt_inv_def)
  note w = pt_write_sound [OF t i]
  have nd: "\<not> is_dir (4 - length \<pi>) (t i)" using table_child [OF q(1) t q(3)] free by blast
  have at: "pte_at r s v = (if t i = 0 then None else Some (2, t i))" if "v \<in> reg (\<pi> @ [i])" for v
    using pte_at_entry [OF q(1) t q(3) nd that] q(2) by simp
  show ?thesis
  proof (cases "t i AND PF_PRESENT = 0")
    case False
    then have "t i \<noteq> 0" by auto
    with False w(1) q(2) at pt_keep_refl [OF mem] pt_upd_refl [OF inv] show ?thesis
      by (intro exI [of _ "if t i AND PAGE_MASK \<noteq> phys then - ENOMEM else 0"] exI [of _ s]) (auto simp: set_pt_large_def set_result_def)
  next
    case True
    let ?e = "phys OR attr_to_l2attr (ps_attr_mask s) attr OR PF_SIZE" let ?s = "s\<lparr>ps_tab := (ps_tab s)(q \<mapsto> t(i := ?e))\<rparr>"
    have k: "pt_mem ?s" "same_ctx s ?s" using w(3) [OF mem] by (simp_all add: pt_keep_def)
    have "bit (?e AND PF_SIZE) 7" by (simp add: bit_simps pte_bits)
    then have "?e AND PF_SIZE \<noteq> 0" by auto
    then have nd': "\<not> is_dir (4 - length \<pi>) ?e" using q(2) by (simp add: is_dir_def)
    have tab: "ps_tab ?s = (ps_tab s)(q \<mapsto> t(i := ?e))" by simp
    note u = upd_put [OF inv q(1) t q(3) nd nd' k tab]
    have "set_pt_large q i phys attr s = Some (0, ?s)" using True w(1,2) by (simp add: set_pt_large_def)
    moreover have "set_result n r (\<pi> @ [i]) phys ?e (- ENOMEM) 0 s ?s"
      using u(1,2) pt_upd_pte [OF u(1)] at True q(2) by (auto simp: set_result_def)
    ultimately show ?thesis using w(3) [OF mem] u(1) by blast
  qed
qed

lemma set_result_shift:
  assumes "pt_same n r s s1" "set_result n r \<pi> phys e err ret s1 s2" "reg \<pi> \<subseteq> {..<n * 2 ^ 39}"
  shows "set_result n r \<pi> phys e err ret s s2"
proof -
  have eq2: "pte_at r s1 w = pte_at r s w" if "w \<in> reg \<pi>" for w using that assms(3) pt_same_pte [OF assms(1)] by auto
  show ?thesis using assms(2) unfolding set_result_def by (simp only: pt_same_pte [OF assms(1)] eq2 cong: imp_cong ball_cong)
qed

lemma reg_bound:
  assumes "n \<le> 512" "path_ok n \<pi>" "\<pi> \<noteq> []" "length \<pi> \<le> 4"
  shows "reg \<pi> \<subseteq> {..<n * 2 ^ 39}"
proof
  fix v assume v: "v \<in> reg \<pi>"
  obtain i \<pi>' where \<pi>: "\<pi> = i # \<pi>'" using assms(3) by (cases \<pi>) auto
  have "i < n" using assms(2) \<pi> by (simp add: path_ok_def)
  moreover have "v div 2 ^ 39 mod 512 = i" "v < 2 ^ 48" using v \<pi> by (auto simp: reg_def below_def vix_def)
  then have "v div 2 ^ 39 = i" by (simp add: less_mult_imp_div_less)
  ultimately show "v \<in> {..<n * 2 ^ 39}" using div_less_iff_less_mult [of "2 ^ 39" v n] by simp
qed

lemma page_path:
  assumes "pt_inv n r s" "v < n * 2 ^ 39" "vix v = \<pi> @ rest"
  shows "path_ok n \<pi>" "\<pi> \<noteq> [] \<Longrightarrow> reg \<pi> \<subseteq> {..<n * 2 ^ 39}"
proof -
  show "path_ok n \<pi>" using inv_bound [OF assms(1,2)] assms(3) path_ok_append [of n \<pi> rest] by simp
  moreover have "length (vix v) = length \<pi> + length rest" using assms(3) by simp
  then have "length \<pi> \<le> 4" by simp
  ultimately show "\<pi> \<noteq> [] \<Longrightarrow> reg \<pi> \<subseteq> {..<n * 2 ^ 39}"
    using assms(1) by (intro reg_bound) (auto simp: pt_inv_def tree_def)
qed

text \<open>The entry the call asks for, and the error when the address is taken.\<close>

definition want_path :: "u64 \<Rightarrow> u64 \<Rightarrow> nat list" where
  "want_path virt attr = (if attr AND PTATTR_LARGEPAGE \<noteq> 0 then take 3 (vix (unat virt)) else vix (unat virt))"

definition want_phys :: "u64 \<Rightarrow> u64 \<Rightarrow> u64" where
  "want_phys phys attr = (if attr AND PTATTR_LARGEPAGE \<noteq> 0 then phys AND LARGE_PAGE_MASK else phys AND PAGE_MASK)"

definition want_entry :: "u64 \<Rightarrow> u64 \<Rightarrow> u64 \<Rightarrow> u64" where
  "want_entry attr_mask phys attr =
     (if attr AND PTATTR_LARGEPAGE \<noteq> 0 then want_phys phys attr OR attr_to_l2attr attr_mask attr OR PF_SIZE
      else want_phys phys attr OR attr_to_l1attr attr_mask attr)"

text \<open>No larger page is in the way, and no table where a large page is to go.\<close>

definition way_free :: "nat \<Rightarrow> u64 \<Rightarrow> u64 \<Rightarrow> u64 \<Rightarrow> pt_sys \<Rightarrow> bool" where
  "way_free n r virt attr s \<longleftrightarrow>
     (\<forall>L e. pte_at r s (unat virt) = Some (L, e) \<longrightarrow> L < (if attr AND PTATTR_LARGEPAGE \<noteq> 0 then 3 else 2)) \<and>
     (attr AND PTATTR_LARGEPAGE \<noteq> 0 \<longrightarrow> (\<forall>q. \<not> table_at n r s (take 3 (vix (unat virt))) q))"

lemma want_path_reg:
  assumes "pt_inv n r s" "unat virt < n * 2 ^ 39"
  shows "path_ok n (want_path virt attr)" "reg (want_path virt attr) \<subseteq> {..<n * 2 ^ 39}"
  using page_path [OF assms, of "want_path virt attr" "drop (length (want_path virt attr)) (vix (unat virt))"]
  by (auto simp: want_path_def vix_virt)

definition set_good :: "nat \<Rightarrow> u64 \<Rightarrow> u64 \<Rightarrow> u64 \<Rightarrow> u64 \<Rightarrow> pt_sys \<Rightarrow> int \<times> pt_sys \<Rightarrow> bool" where
  "set_good n r virt phys attr s = (\<lambda>(ret, s'). pt_keep s s' \<and> pt_upd n r (reg (want_path virt attr)) s s' \<and>
     set_result n r (want_path virt attr) (want_phys phys attr) (want_entry (ps_attr_mask s) phys attr)
       (if attr AND PTATTR_LARGEPAGE \<noteq> 0 then - ENOMEM else - EBUSY) ret s s')"

lemma set_good_fail: "pt_same n r s s1 \<Longrightarrow> set_good n r virt phys attr s (- ENOMEM, s1)"
  using pt_upd_mono [of n r "{}" s s1] by (auto simp: set_good_def set_result_def pt_same_pte) (auto simp: pt_same_def)

lemma set_good_shift:
  assumes "pt_same n r s s1" "pt_inv n r s" "unat virt < n * 2 ^ 39" "set_good n r virt phys attr s1 (ret, s2)"
  shows "set_good n r virt phys attr s (ret, s2)"
  using assms(4) set_result_shift [OF assms(1) _ want_path_reg(2) [OF assms(2,3)]] pt_same_mask [OF assms(1)]
    pt_upd_trans [of n r "{}" s s1 "reg (want_path virt attr)" s2] pt_keep_trans [of s s1 s2] assms(1)
  by (simp add: set_good_def pt_same_def)

lemma set_pt_page_sound:
  assumes inv: "pt_inv n r s" and r: "r \<noteq> 0" and v: "unat virt < n * 2 ^ 39" and way: "way_free n r virt attr s"
  shows "\<exists>x. set_pt_page r virt phys attr s = Some x \<and> set_good n r virt phys attr s x"
proof -
  let ?v = "unat virt" and ?large = "attr AND PTATTR_LARGEPAGE \<noteq> 0"
  let ?i4 = "virt_index PTL4_SHIFT virt" and ?i3 = "virt_index PTL3_SHIFT virt" and ?i2 = "virt_index PTL2_SHIFT virt" and ?i1 = "virt_index PTL1_SHIFT virt"
  define flag where "flag = (if attr AND PTATTR_FOR_USER \<noteq> 0 then IHK_MC_AP_NOWAIT else IHK_MC_AP_CRITICAL)"
  have lim: "\<forall>L e. pte_at r s ?v = Some (L, e) \<longrightarrow> L < 3" "\<not> ?large \<longrightarrow> (\<forall>L e. pte_at r s ?v = Some (L, e) \<longrightarrow> L < 2)"
    using way by (auto simp: way_free_def split: if_splits)
  note fail = set_good_fail [of n r s _ virt phys attr]
  have call: "set_pt_page r virt phys attr s = do {
      (pt, s) \<leftarrow> pt_next_alloc flag r ?i4 s;
      if pt = 0 then Some (- ENOMEM, s)
      else do {
        (pt, s) \<leftarrow> pt_next_alloc flag pt ?i3 s;
        if pt = 0 then Some (- ENOMEM, s)
        else if ?large then set_pt_large pt ?i2 (want_phys phys attr) attr s
        else do {
          (pt, s) \<leftarrow> pt_next_alloc flag pt ?i2 s;
          if pt = 0 then Some (- ENOMEM, s) else set_pt_small pt ?i1 (want_phys phys attr) attr s } } }"
    using r unfolding set_pt_page_def Let_def pt_or_init_def flag_def want_phys_def by (simp cong: if_cong)
  have same: "pt_same n r s s" "no_new n r 0 s s" using pt_same_refl [OF inv] by (simp_all add: no_new_def)
  obtain q3 s1 where a1: "pt_next_alloc flag r ?i4 s = Some (q3, s1)" "pt_same n r s s1" "no_new n r 1 s s1" "q3 \<noteq> 0 \<longrightarrow> table_at n r s1 [?i4] q3"
    using next_alloc_down [OF same(1) _ table_root v, of ?i4 "[?i3, ?i2, ?i1]" flag] same(2) lim(1) by (fastforce simp: vix_virt)
  show ?thesis
  proof (cases "q3 = 0")
    case False
    then obtain q2 s2 where a2: "pt_next_alloc flag q3 ?i3 s1 = Some (q2, s2)" "pt_same n r s s2" "no_new n r 2 s s2" "q2 \<noteq> 0 \<longrightarrow> table_at n r s2 [?i4, ?i3] q2"
      using next_alloc_down [OF a1(2) _ _ v, of "[?i4]" q3 ?i3 "[?i2, ?i1]" flag] a1(3,4) lim(1) by (auto simp: vix_virt numeral_2_eq_2)
    consider "q2 = 0" | "q2 \<noteq> 0" ?large | "q2 \<noteq> 0" "\<not> ?large" by blast
    then show ?thesis
    proof cases
      case 2
      then have t2: "table_at n r s2 [?i4, ?i3] q2" using a2(4) by blast
      have wp: "want_path virt attr = [?i4, ?i3] @ [?i2]" using 2 by (simp add: want_path_def vix_virt)
      have free: "\<not> table_at n r s2 ([?i4, ?i3] @ [?i2]) q" for q
        using a2(3) way 2 by (force simp: way_free_def vix_virt no_new_def)
      from set_large [OF pt_same_inv [OF a2(2)] t2 _ want_path_reg(1) [OF inv v, of attr, unfolded wp] free, of "want_phys phys attr" attr] obtain ret s3 where
        l: "set_pt_large q2 ?i2 (want_phys phys attr) attr s2 = Some (ret, s3)" "set_good n r virt phys attr s2 (ret, s3)"
        using 2 by (auto simp: set_good_def wp want_entry_def)
      with a1(1) a2(1) False 2 set_good_shift [OF a2(2) inv v l(2)] show ?thesis unfolding call by simp
    next
      case 3
      then obtain q1 s3 where a3: "pt_next_alloc flag q2 ?i2 s2 = Some (q1, s3)" "pt_same n r s s3" "q1 \<noteq> 0 \<longrightarrow> table_at n r s3 [?i4, ?i3, ?i2] q1"
        using next_alloc_down [OF a2(2) _ _ v, of "[?i4, ?i3]" q2 ?i2 "[?i1]" flag] a2(3,4) lim(2) by (auto simp: vix_virt numeral_2_eq_2)
      show ?thesis
      proof (cases "q1 = 0")
        case q1: False
        then have t1: "table_at n r s3 [?i4, ?i3, ?i2] q1" using a3(3) by blast
        have wp: "want_path virt attr = [?i4, ?i3, ?i2] @ [?i1]" using 3 by (simp add: want_path_def vix_virt)
        from set_small [OF pt_same_inv [OF a3(2)] t1 _ want_path_reg(1) [OF inv v, of attr, unfolded wp], of "want_phys phys attr" attr] obtain ret s4 where
          l: "set_pt_small q1 ?i1 (want_phys phys attr) attr s3 = Some (ret, s4)" "set_good n r virt phys attr s3 (ret, s4)"
          using 3 by (auto simp: set_good_def wp want_entry_def)
        with a1(1) a2(1) a3(1) False 3 q1 set_good_shift [OF a3(2) inv v l(2)] show ?thesis unfolding call by simp
      qed (use a1(1) a2(1) a3(1) False 3 fail [OF a3(2)] call in simp)
    qed (use a1(1) a2(1) False fail [OF a2(2)] call in simp)
  qed (use a1(1) fail [OF a1(2)] call in simp)
qed

end
