(* ===== verification/PtWalk.thy ===== *)
theory PtWalk
  imports PtPage
begin

section \<open>Walking a range of addresses\<close>

text \<open>
  The four walkers of \<open>arch/x86_64/kernel/memory.c\<close> call a function for every entry of a table that a
  range of addresses meets.  The locale \<open>range_walk\<close> is the rule for them: what the function does for one entry,
  the walk does for the table.  It is interpreted for clearing, for changing attributes and for mapping.
\<close>

subsection \<open>The loop\<close>

lemma walk_entries_rule:
  assumes step: "\<And>i s. a \<le> i \<Longrightarrow> i < b \<Longrightarrow> J i s \<Longrightarrow> \<exists>err s'. f i s = Some (err, s') \<and>
      ((err = 0 \<or> soft \<and> err = - ENOENT \<and> s' = s) \<and> J (Suc i) s' \<or> err \<noteq> 0 \<and> err \<noteq> - ENOENT \<and> H err s')"
    and J: "J a s" "a \<le> b"
  shows "\<exists>err s'. walk_entries f [a ..< b] ret s = Some (err, s') \<and>
    ((err = 0 \<or> err = ret \<and> (a < b \<longrightarrow> soft) \<and> s' = s) \<and> J b s' \<or> err \<noteq> 0 \<and> err \<noteq> - ENOENT \<and> H err s')"
  using step J
proof (induction "b - a" arbitrary: a s ret)
  case (Suc m)
  then have ab: "a < b" by simp
  with Suc.prems obtain err s1 where f: "f a s = Some (err, s1)"
    "(err = 0 \<or> soft \<and> err = - ENOENT \<and> s1 = s) \<and> J (Suc a) s1 \<or> err \<noteq> 0 \<and> err \<noteq> - ENOENT \<and> H err s1" by blast
  have rest: "\<exists>err s'. walk_entries f [Suc a ..< b] ret' s1 = Some (err, s') \<and>
      ((err = 0 \<or> err = ret' \<and> (Suc a < b \<longrightarrow> soft) \<and> s' = s1) \<and> J b s' \<or> err \<noteq> 0 \<and> err \<noteq> - ENOENT \<and> H err s')"
    if "J (Suc a) s1" for ret'
    by (rule Suc.hyps(1) [OF _ _ that]) (use Suc.hyps(2) Suc.prems(1) ab in auto)
  have ls: "[a ..< b] = a # [Suc a ..< b]" using ab by (rule upt_conv_Cons)
  have ne: "(0 :: int) \<noteq> - ENOENT" by simp
  consider "err = 0" "J (Suc a) s1" | "soft" "err = - ENOENT" "s1 = s" "J (Suc a) s1" | "err \<noteq> 0" "err \<noteq> - ENOENT" "H err s1" using f(2) by blast
  then show ?case
  proof cases
    case 1
    with rest [OF 1(2), of 0] f(1) show ?thesis by (auto simp: ls)
  next
    case 2
    with rest [OF 2(4), of ret] f(1) ne ab show ?thesis by (auto simp: ls)
  next
    case 3
    with f(1) show ?thesis by (auto simp: ls)
  qed
qed auto

text \<open>The entries of a table whose addresses meet a range: the first, the last, and how far the walk has come
  before an entry.\<close>

lemma index_range:
  fixes b st en sz :: nat
  assumes "0 < sz" "st < en" "b < en" "st < b + 512 * sz"
    and six: "six = (st - b) div sz" and eix: "eix = (if b + 512 * sz \<le> en then 512 else (en - b + (sz - 1)) div sz)"
  shows "six < eix" "eix \<le> 512" "max st (min en (b + six * sz)) = max st b" "max st (min en (b + eix * sz)) = min en (b + 512 * sz)"
    and "six \<le> i \<Longrightarrow> i < eix \<Longrightarrow> b + i * sz < en \<and> st < b + i * sz + sz"
proof -
  have s: "six * sz \<le> st - b" "st - b < six * sz + sz"
    unfolding six using mod_less_divisor [OF assms(1), of "st - b"] div_mult_mod_eq [of "st - b" sz] by linarith+
  have e: "b + eix * sz \<ge> min en (b + 512 * sz) \<and> eix * sz < en - b + sz \<and> eix \<le> 512"
  proof (cases "b + 512 * sz \<le> en")
    case False
    have d: "eix * sz \<le> en - b + (sz - 1)" "en - b + (sz - 1) < eix * sz + sz"
      unfolding eix if_not_P [OF False] using mod_less_divisor [OF assms(1), of "en - b + (sz - 1)"] div_mult_mod_eq [of "en - b + (sz - 1)" sz]
      by linarith+
    then have "eix * sz < 513 * sz" using False assms(1,3) by linarith
    then have "eix < 513" by simp
    with d assms(1,3) False show ?thesis by auto
  qed (use eix assms(1,3) in auto)
  show "eix \<le> 512" using e by simp
  show "max st (min en (b + six * sz)) = max st b" using s assms(2,3) by (auto simp: max_def min_def)
  have "eix * sz \<le> 512 * sz" using e by (intro mult_le_mono1) simp
  then show "max st (min en (b + eix * sz)) = min en (b + 512 * sz)" using e assms(2,4) unfolding max_def min_def by (auto split: if_splits)
  have "six * sz < eix * sz"
  proof -
    have "st - b < min en (b + 512 * sz) - b" using assms(1-4) by simp
    also have "\<dots> \<le> eix * sz" using e by linarith
    finally show ?thesis using s(1) by linarith
  qed
  then show "six < eix" by simp
  show "b + i * sz < en \<and> st < b + i * sz + sz" if "six \<le> i" "i < eix"
  proof -
    have "six * sz \<le> i * sz" using that(1) by (rule mult_le_mono1)
    moreover have "Suc i * sz \<le> eix * sz" using that(2) by (intro mult_le_mono1) simp
    then have "i * sz + sz \<le> eix * sz" by simp
    ultimately show ?thesis using s e assms(3) by linarith
  qed
qed

subsection \<open>A table\<close>

lemma shift_div: "unat (drop_bit sh (w :: u64)) = unat w div 2 ^ sh"
  using unsigned_drop_bit_eq [of sh w, where ?'a=nat] unsigned_less [of w, where ?'a=nat] by (simp add: take_bit_eq_mod drop_bit_eq_div)

lemma sub_shift:
  fixes w base :: u64
  assumes "unat w = x" "unat base = b" "b \<le> x"
  shows "unat (drop_bit sh (w - base)) = (x - b) div 2 ^ sh"
proof -
  have "unat (w - base) = x - b" using assms by (simp add: unat_sub word_le_nat_alt)
  then show ?thesis by (simp only: shift_div)
qed

lemma ceil_shift:
  fixes w base c :: u64
  assumes "unat w = x" "unat base = b" "b \<le> x" "x \<le> 2 ^ 48" "unat c = 2 ^ sh - 1" "sh \<le> 39"
  shows "unat (drop_bit sh (w - base + c)) = (x - b + (2 ^ sh - 1)) div 2 ^ sh"
proof -
  have u: "unat (w - base) = x - b" using assms by (simp add: unat_sub word_le_nat_alt)
  have l: "(2 :: nat) ^ sh \<le> 2 ^ 39" using assms(6) by (intro power_increasing) auto
  have "unat (w - base + c) = x - b + (2 ^ sh - 1)" using u assms(4,5) l by (simp add: u64_add)
  then show ?thesis by (simp only: shift_div)
qed

lemma walk_six: "unat base = b \<Longrightarrow> (if w \<le> base then 0 else unat (drop_bit sh (w - base))) = (unat w - b) div 2 ^ sh" for w base :: u64
  using sub_shift [of w "unat w" base b sh] by (auto simp: word_le_nat_alt not_le)

lemma walk_eix:
  fixes w base c sz :: u64
  assumes "unat base = b" "unat sz = 512 * 2 ^ sh" "b + 512 * 2 ^ sh \<le> 2 ^ 48" "unat w \<le> 2 ^ 48" "b < unat w" "unat c = 2 ^ sh - 1" "sh \<le> 39"
  shows "(if w = 0 \<or> base + sz \<le> w then 512 else unat (drop_bit sh (w - base + c))) =
    (if b + 512 * 2 ^ sh \<le> unat w then 512 else (unat w - b + (2 ^ sh - 1)) div 2 ^ sh)"
proof -
  have "w \<noteq> 0" using assms(5) by auto
  moreover have "base + sz \<le> w \<longleftrightarrow> b + 512 * 2 ^ sh \<le> unat w" using assms(1-3) by (simp add: word_le_nat_alt u64_add)
  ultimately show ?thesis using ceil_shift [OF refl assms(1) _ assms(4,6,7)] assms(5) by simp
qed

definition plo :: "nat \<Rightarrow> nat list \<Rightarrow> nat" where
  "plo st \<pi> = max st (pbase \<pi>)"

definition phi :: "nat \<Rightarrow> nat list \<Rightarrow> nat" where
  "phi en \<pi> = min en (pbase \<pi> + psz (length \<pi>))"

definition meets :: "nat \<Rightarrow> nat \<Rightarrow> nat list \<Rightarrow> bool" where
  "meets st en \<pi> \<longleftrightarrow> pbase \<pi> < en \<and> st < pbase \<pi> + psz (length \<pi>)"

text \<open>Tables that the range does not cover are still there.\<close>

definition persist :: "nat \<Rightarrow> u64 \<Rightarrow> nat set \<Rightarrow> pt_sys \<Rightarrow> pt_sys \<Rightarrow> bool" where
  "persist n r R s s' \<longleftrightarrow> (\<forall>\<pi> q. table_at n r s \<pi> q \<and> \<not> reg \<pi> \<subseteq> R \<longrightarrow> table_at n r s' \<pi> q)"

lemma persist_refl [simp]: "persist n r R s s"
  by (simp add: persist_def)

lemma persist_trans: "persist n r R s s' \<Longrightarrow> persist n r R' s' s'' \<Longrightarrow> R \<union> R' \<subseteq> R'' \<Longrightarrow> persist n r R'' s s''"
  unfolding persist_def by blast

lemma pt_upd_persist: "pt_upd n r R s s' \<Longrightarrow> persist n r R s s'"
  by (simp add: pt_upd_def persist_def)

lemma table_path: "table_at n r s \<pi> q \<Longrightarrow> path_ok n \<pi> \<and> length \<pi> \<le> 3"
  by (simp add: table_at_def reached_def)

lemma level_consts: "PTL1_SHIFT = 12" "PTL2_SHIFT = 21" "PTL3_SHIFT = 30" "PTL4_SHIFT = 39" "PTL1_SIZE = 0x1000" "PTL2_SIZE = 0x200000"
    "PTL3_SIZE = 0x40000000" "PTL4_SIZE = 0x8000000000"
  by (simp_all add: shift_sizes PTL1_SIZE_def PTL2_SIZE_def PTL3_SIZE_def PTL4_SIZE_def)

locale range_walk =
  fixes T :: "'s \<Rightarrow> pt_sys" and n :: nat and r start_a end_a :: u64 and soft :: bool
    and I :: "nat \<Rightarrow> 's \<Rightarrow> bool" and H :: "int \<Rightarrow> 's \<Rightarrow> bool"
  assumes in_range: "I b s \<Longrightarrow> unat start_a < unat end_a \<and> unat end_a \<le> 2 ^ 48"
begin

definition post :: "nat \<Rightarrow> nat \<Rightarrow> 's \<Rightarrow> (int \<times> 's) option \<Rightarrow> bool" where
  "post lo hi s res \<longleftrightarrow> (\<exists>err s'. res = Some (err, s') \<and>
     ((err = 0 \<or> soft \<and> err = - ENOENT \<and> s' = s) \<and> I hi s' \<and> persist n r {lo..<hi} (T s) (T s') \<or>
      err \<noteq> 0 \<and> err \<noteq> - ENOENT \<and> H err s'))"

text \<open>The walk over a table leaves that table in place.\<close>

definition post_at :: "nat list \<Rightarrow> u64 \<Rightarrow> 's \<Rightarrow> (int \<times> 's) option \<Rightarrow> bool" where
  "post_at \<pi> q s res \<longleftrightarrow> (\<exists>err s'. res = Some (err, s') \<and>
     ((err = 0 \<or> soft \<and> err = - ENOENT \<and> s' = s) \<and> I (phi (unat end_a) \<pi>) s' \<and>
        persist n r {plo (unat start_a) \<pi> ..< phi (unat end_a) \<pi>} (T s) (T s') \<and> table_at n r (T s') \<pi> q \<or>
      err \<noteq> 0 \<and> err \<noteq> - ENOENT \<and> H err s'))"

lemma post_at_post: "post_at \<pi> q s res \<Longrightarrow> post (plo (unat start_a) \<pi>) (phi (unat end_a) \<pi>) s res"
  unfolding post_at_def post_def by blast

definition entry_ok :: "nat \<Rightarrow> 's walk_fn \<Rightarrow> bool" where
  "entry_ok k f \<longleftrightarrow> (\<forall>\<pi> i q s. length \<pi> = k \<longrightarrow> path_ok n (\<pi> @ [i]) \<longrightarrow> table_at n r (T s) \<pi> q \<longrightarrow>
     meets (unat start_a) (unat end_a) (\<pi> @ [i]) \<longrightarrow> I (plo (unat start_a) (\<pi> @ [i])) s \<longrightarrow>
     post (plo (unat start_a) (\<pi> @ [i])) (phi (unat end_a) (\<pi> @ [i])) s
       (f (q, i) (word_of_nat (pbase (\<pi> @ [i]))) start_a end_a s))"

lemma walk_index:
  assumes "table_at n r (T s) \<pi> q" "meets (unat start_a) (unat end_a) \<pi>" "I b s"
    and "unat sz = psz (length \<pi>)" "2 ^ sh = psz (Suc (length \<pi>))" "unat c = 2 ^ sh - 1" "sh \<le> 39"
  shows "(if start_a \<le> word_of_nat (pbase \<pi>) then 0 else unat (drop_bit sh (start_a - word_of_nat (pbase \<pi>)))) =
      (unat start_a - pbase \<pi>) div psz (Suc (length \<pi>))"
    and "(if end_a = 0 \<or> word_of_nat (pbase \<pi>) + sz \<le> end_a then 512 else unat (drop_bit sh (end_a - word_of_nat (pbase \<pi>) + c))) =
      (if pbase \<pi> + 512 * psz (Suc (length \<pi>)) \<le> unat end_a then 512 else (unat end_a - pbase \<pi> + (psz (Suc (length \<pi>)) - 1)) div psz (Suc (length \<pi>)))"
proof -
  have p: "path_ok n \<pi>" "length \<pi> \<le> 3" using table_path [OF assms(1)] by auto
  have l: "pbase \<pi> + psz (length \<pi>) \<le> 2 ^ 48" "psz (length \<pi>) = 512 * psz (Suc (length \<pi>))" using reg_range(2) [of \<pi>] p psz_Suc [of "length \<pi>"] by (auto simp: path_ok_def)
  then have "pbase \<pi> < 2 ^ 64" by simp
  then have b: "unat (word_of_nat (pbase \<pi>) :: u64) = pbase \<pi>" by (simp add: unat_of_nat take_bit_nat_eq_self)
  have "unat end_a \<le> 2 ^ 48" "pbase \<pi> < unat end_a" using in_range [OF assms(3)] assms(2) by (simp_all add: meets_def)
  with walk_six [OF b, of start_a sh] walk_eix [OF b, of sz sh end_a c] l assms(4-7)
  show "(if start_a \<le> word_of_nat (pbase \<pi>) then 0 else unat (drop_bit sh (start_a - word_of_nat (pbase \<pi>)))) =
      (unat start_a - pbase \<pi>) div psz (Suc (length \<pi>))"
    "(if end_a = 0 \<or> word_of_nat (pbase \<pi>) + sz \<le> end_a then 512 else unat (drop_bit sh (end_a - word_of_nat (pbase \<pi>) + c))) =
      (if pbase \<pi> + 512 * psz (Suc (length \<pi>)) \<le> unat end_a then 512 else (unat end_a - pbase \<pi> + (psz (Suc (length \<pi>)) - 1)) div psz (Suc (length \<pi>)))"
    by simp_all
qed

lemma walk_table:
  assumes f: "entry_ok k f" and \<pi>: "length \<pi> = k" "k \<le> 3" "k = 0 \<Longrightarrow> unat end_a \<le> n * 2 ^ 39" and q: "table_at n r (T s) \<pi> q"
    and m: "meets (unat start_a) (unat end_a) \<pi>" and I: "I (plo (unat start_a) \<pi>) s"
    and six: "six = (unat start_a - pbase \<pi>) div psz (Suc k)"
    and eix: "eix = (if pbase \<pi> + 512 * psz (Suc k) \<le> unat end_a then 512 else (unat end_a - pbase \<pi> + (psz (Suc k) - 1)) div psz (Suc k))"
  shows "post_at \<pi> q s
    (walk_entries (\<lambda>i. f (q, i) (word_of_nat (pbase \<pi>) + word_of_nat i * word_of_nat (psz (Suc k))) start_a end_a) [six ..< eix] (- ENOENT) s)"
proof -
  let ?st = "unat start_a" and ?en = "unat end_a" and ?b = "pbase \<pi>" and ?sz = "psz (Suc k)"
  have size: "psz (length \<pi>) = 512 * ?sz" using \<pi>(1,2) psz_Suc [of k] by simp
  have r: "?st < ?en" "?en \<le> 2 ^ 48" using in_range [OF I] by auto
  note ix = index_range [OF psz_pos r(1) m [unfolded meets_def, THEN conjunct1] m [unfolded meets_def size, THEN conjunct2] six eix]
  define pr where "pr i = max ?st (min ?en (?b + i * ?sz))" for i
  have p0: "pr six = plo ?st \<pi>" "pr eix = phi ?en \<pi>" using ix(3,4) by (simp_all add: pr_def plo_def phi_def size)
  have pb: "pbase (\<pi> @ [i]) = ?b + i * ?sz" for i using \<pi>(1,2) by (simp add: pbase_snoc)
  have mono: "pr six \<le> pr i" if "six \<le> i" for i
    unfolding pr_def using mult_le_mono1 [OF that, of ?sz] by (intro max.mono min.mono) simp_all
  let ?J = "\<lambda>i s'. I (pr i) s' \<and> persist n r {pr six ..< pr i} (T s) (T s') \<and> table_at n r (T s') \<pi> q"
  let ?F = "\<lambda>i. f (q, i) (word_of_nat (pbase \<pi>) + word_of_nat i * word_of_nat ?sz) start_a end_a"
  have step: "\<exists>err s2. ?F i s1 = Some (err, s2) \<and>
      ((err = 0 \<or> soft \<and> err = - ENOENT \<and> s2 = s1) \<and> ?J (Suc i) s2 \<or> err \<noteq> 0 \<and> err \<noteq> - ENOENT \<and> H err s2)"
    if i: "six \<le> i" "i < eix" and J: "?J i s1" for i s1
  proof -
    have b: "?b + i * ?sz < ?en" "?st < ?b + i * ?sz + ?sz" using ix(5) [OF i] by auto
    have ok: "path_ok n (\<pi> @ [i])"
    proof (cases "\<pi> = []")
      case True
      then have "i * 2 ^ 39 < n * 2 ^ 39" using b(1) \<pi>(1,3) by (simp add: psz_simps)
      then show ?thesis using i(2) ix(2) True by (simp add: path_ok_def)
    qed (use table_path [OF q] i(2) ix(2) in \<open>simp add: path_ok_snoc\<close>)
    have lo: "plo ?st (\<pi> @ [i]) = pr i" and hi: "phi ?en (\<pi> @ [i]) = pr (Suc i)" and mt: "meets ?st ?en (\<pi> @ [i])"
      using b \<pi>(1) r(1) by (auto simp: plo_def phi_def meets_def pb pr_def algebra_simps)
    have "word_of_nat (pbase (\<pi> @ [i])) = (word_of_nat (pbase \<pi>) + word_of_nat i * word_of_nat ?sz :: u64)" by (simp add: pb)
    with f \<pi>(1) ok J mt have p: "post (pr i) (pr (Suc i)) s1 (?F i s1)"
      unfolding entry_ok_def lo [symmetric] hi [symmetric] by metis
    have sub: "{pr i ..< pr (Suc i)} \<subseteq> reg (\<pi> @ [i])"
    proof -
      have "\<forall>j \<in> set (\<pi> @ [i]). j < 512" using ok by (simp add: path_ok_def)
      then have "reg (\<pi> @ [i]) = {?b + i * ?sz ..< ?b + i * ?sz + ?sz}" using reg_range(1) [of "\<pi> @ [i]"] \<pi>(1,2) by (simp add: pb)
      then show ?thesis using b by (auto simp: pr_def)
    qed
    then have ns: "\<not> reg \<pi> \<subseteq> {pr i ..< pr (Suc i)}" using reg_not_sub [OF _ ok] \<pi>(1,2) by auto
    have un: "{pr six ..< pr i} \<union> {pr i ..< pr (Suc i)} \<subseteq> {pr six ..< pr (Suc i)}" using mono [OF i(1)] by (auto simp: pr_def)
    from p obtain err s2 where s2: "?F i s1 = Some (err, s2)"
      "(err = 0 \<or> soft \<and> err = - ENOENT \<and> s2 = s1) \<and> I (pr (Suc i)) s2 \<and> persist n r {pr i ..< pr (Suc i)} (T s1) (T s2) \<or>
       err \<noteq> 0 \<and> err \<noteq> - ENOENT \<and> H err s2" unfolding post_def by blast
    have "table_at n r (T s2) \<pi> q \<and> persist n r {pr six ..< pr (Suc i)} (T s) (T s2)" if "persist n r {pr i ..< pr (Suc i)} (T s1) (T s2)"
    proof
      show "table_at n r (T s2) \<pi> q" using that J ns unfolding persist_def by blast
      show "persist n r {pr six ..< pr (Suc i)} (T s) (T s2)" using persist_trans [OF _ that un] J by blast
    qed
    with s2 show ?thesis by blast
  qed
  have "?J six s" using I q by (simp add: p0)
  from walk_entries_rule [where J = ?J and f = ?F and soft = soft and H = H, OF step this, of eix "- ENOENT"] ix(1) p0
  show ?thesis unfolding post_at_def by auto
qed

lemma walk_l1:
  assumes "entry_ok 3 f" "length \<pi> = 3" "table_at n r (T s) \<pi> q" "meets (unat start_a) (unat end_a) \<pi>" "I (plo (unat start_a) \<pi>) s"
  shows "post_at \<pi> q s (walk_pte_l1 q (word_of_nat (pbase \<pi>)) start_a end_a f s)"
proof -
  have c: "PTL1_SIZE = word_of_nat (psz (Suc 3))" "unat PTL2_SIZE = psz (length \<pi>)" "2 ^ PTL1_SHIFT = psz (Suc (length \<pi>))"
    "unat (PTL1_SIZE - 1) = 2 ^ PTL1_SHIFT - 1" "PTL1_SHIFT \<le> 39" by (simp_all add: level_consts psz_def assms(2))
  show ?thesis unfolding walk_pte_l1_def Let_def PT_ENTRIES_def walk_index [OF assms(3-5) c(2-5)] unfolding c(1) assms(2)
    by (rule walk_table [OF assms(1,2) _ _ assms(3-5) refl refl]) simp_all
qed

lemma walk_l2:
  assumes "entry_ok 2 f" "length \<pi> = 2" "table_at n r (T s) \<pi> q" "meets (unat start_a) (unat end_a) \<pi>" "I (plo (unat start_a) \<pi>) s"
  shows "post_at \<pi> q s (walk_pte_l2 q (word_of_nat (pbase \<pi>)) start_a end_a f s)"
proof -
  have c: "PTL2_SIZE = word_of_nat (psz (Suc 2))" "unat PTL3_SIZE = psz (length \<pi>)" "2 ^ PTL2_SHIFT = psz (Suc (length \<pi>))"
    "unat (PTL2_SIZE - 1) = 2 ^ PTL2_SHIFT - 1" "PTL2_SHIFT \<le> 39" by (simp_all add: level_consts psz_def assms(2))
  show ?thesis unfolding walk_pte_l2_def Let_def PT_ENTRIES_def walk_index [OF assms(3-5) c(2-5)] unfolding c(1) assms(2)
    by (rule walk_table [OF assms(1,2) _ _ assms(3-5) refl refl]) simp_all
qed

lemma walk_l3:
  assumes "entry_ok 1 f" "length \<pi> = 1" "table_at n r (T s) \<pi> q" "meets (unat start_a) (unat end_a) \<pi>" "I (plo (unat start_a) \<pi>) s"
  shows "post_at \<pi> q s (walk_pte_l3 q (word_of_nat (pbase \<pi>)) start_a end_a f s)"
proof -
  have c: "PTL3_SIZE = word_of_nat (psz (Suc 1))" "unat PTL4_SIZE = psz (length \<pi>)" "2 ^ PTL3_SHIFT = psz (Suc (length \<pi>))"
    "unat (PTL3_SIZE - 1) = 2 ^ PTL3_SHIFT - 1" "PTL3_SHIFT \<le> 39" by (simp_all add: level_consts psz_def assms(2))
  show ?thesis unfolding walk_pte_l3_def Let_def PT_ENTRIES_def walk_index [OF assms(3-5) c(2-5)] unfolding c(1) assms(2)
    by (rule walk_table [OF assms(1,2) _ _ assms(3-5) refl refl]) simp_all
qed

lemma walk_l4:
  assumes "entry_ok 0 f" "I (unat start_a) s" "unat end_a \<le> n * 2 ^ 39"
  shows "post (unat start_a) (unat end_a) s (walk_pte_l4 r 0 start_a end_a f s)"
proof -
  have rg: "unat start_a < unat end_a" "unat end_a \<le> 2 ^ 48" using in_range [OF assms(2)] by auto
  have m: "meets (unat start_a) (unat end_a) []" using rg by (simp add: meets_def psz_simps)
  have I: "I (plo (unat start_a) []) s" using assms(2) by (simp add: plo_def)
  have ends: "plo (unat start_a) [] = unat start_a" "phi (unat end_a) [] = unat end_a" using rg by (simp_all add: plo_def phi_def psz_simps)
  have six: "(if start_a \<le> 0 then 0 else unat (drop_bit PTL4_SHIFT (start_a - 0))) = (unat start_a - pbase []) div psz (Suc 0)"
    using shift_div [of 39 start_a] by (auto simp: psz_simps level_consts)
  have "unat (drop_bit PTL4_SHIFT (end_a - 0 + (PTL4_SIZE - 1))) = (unat end_a - 0 + (2 ^ PTL4_SHIFT - 1)) div 2 ^ PTL4_SHIFT"
    by (rule ceil_shift) (use rg in \<open>simp_all add: level_consts\<close>)
  moreover have "end_a \<noteq> 0" using rg by auto
  moreover have "(unat end_a - pbase [] + (psz (Suc 0) - 1)) div psz (Suc 0) = 512" if "pbase [] + 512 * psz (Suc 0) \<le> unat end_a"
    using rg that by (simp add: psz_def)
  ultimately have eix: "(if end_a = 0 then PT_ENTRIES else unat (drop_bit PTL4_SHIFT (end_a - 0 + (PTL4_SIZE - 1)))) =
      (if pbase [] + 512 * psz (Suc 0) \<le> unat end_a then 512 else (unat end_a - pbase [] + (psz (Suc 0) - 1)) div psz (Suc 0))"
    by (simp add: level_consts psz_def)
  have c: "PTL4_SIZE = word_of_nat (psz (Suc 0))" "0 = word_of_nat (pbase [])" by (simp_all add: level_consts psz_def)
  show ?thesis
    unfolding walk_pte_l4_def Let_def six eix
    using post_at_post [OF walk_table [OF assms(1) _ _ assms(3) table_root m I refl refl]] by (simp add: ends c(1))
qed

end

subsection \<open>The entry of an address\<close>

lemma reg_div:
  assumes "length \<pi> \<le> 4" "\<forall>i \<in> set \<pi>. i < 512"
  shows "v \<in> reg \<pi> \<longleftrightarrow> v div psz (length \<pi>) = pidx \<pi>"
  unfolding reg_range(1) [OF assms] by (simp only: div_eq_range [OF psz_pos] pbase_def)

lemma pte_at_some:
  assumes inv: "pt_inv n r s" and v: "v < n * 2 ^ 39" and e: "pte_at r s v = Some (L, e)"
  obtains \<pi> i q t where "table_at n r s \<pi> q" "ps_tab s q = Some t" "path_ok n (\<pi> @ [i])" "\<not> is_dir (4 - length \<pi>) (t i)"
    "t i = e" "e \<noteq> 0" "L = 4 - length \<pi>" "v \<in> reg (\<pi> @ [i])"
proof -
  have b: "v < 2 ^ 48" "path_ok n (vix v)" using inv_bound [OF inv v] by auto
  have "\<exists>\<pi> i q t. table_at n r s \<pi> q \<and> ps_tab s q = Some t \<and> path_ok n (\<pi> @ [i]) \<and> \<not> is_dir (4 - length \<pi>) (t i) \<and>
      t i = e \<and> e \<noteq> 0 \<and> L = 4 - length \<pi> \<and> v \<in> reg (\<pi> @ [i])"
    if "table_at n r s \<pi> q" "vix v = \<pi> @ rest" for \<pi> q rest
    using that
  proof (induction "3 - length \<pi>" arbitrary: \<pi> q rest rule: less_induct)
    case less
    have len: "length \<pi> \<le> 3" using table_path [OF less.prems(1)] by simp
    have "length (vix v) = 4" by (simp add: vix_def)
    then obtain i rest' where rest: "rest = i # rest'" using less.prems(2) len by (cases rest) auto
    have vx: "vix v = \<pi> @ i # rest'" using less.prems(2) rest by simp
    obtain t where t: "ps_tab s q = Some t" using inv_table [OF inv less.prems(1)] .
    have "path_ok n ((\<pi> @ [i]) @ rest')" using b(2) vx by simp
    then have ok: "path_ok n (\<pi> @ [i])" by (rule path_ok_append)
    have i: "i < 512" using ok by (simp add: path_ok_snoc)
    have vr: "v \<in> reg (\<pi> @ [i])" using b(1) vx by (auto simp: reg_def below_def)
    show ?case
    proof (cases "is_dir (4 - length \<pi>) (t i)")
      case True
      then have "length \<pi> \<le> 2" by (auto simp: is_dir_def)
      then show ?thesis using less.hyps [OF _ table_child [OF less.prems(1) t ok True], of rest'] vx by simp
    next
      case False
      then show ?thesis using pte_at_entry [OF less.prems(1) t ok False vr] e less.prems(1) t ok vr by (auto split: if_splits)
    qed
  qed
  from this [OF table_root, of "vix v"] show thesis using that by auto
qed

text \<open>All addresses of a page have its entry.\<close>

lemma pte_at_same_page:
  assumes "pt_inv n r s" "v < n * 2 ^ 39" "pte_at r s v = Some (L, e)" "w div psz (5 - L) = v div psz (5 - L)"
  shows "pte_at r s w = Some (L, e)" "1 \<le> L" "L \<le> 3" "v div psz (5 - L) * psz (5 - L) + psz (5 - L) \<le> n * 2 ^ 39"
proof -
  obtain \<pi> i q t where p: "table_at n r s \<pi> q" "ps_tab s q = Some t" "path_ok n (\<pi> @ [i])" "\<not> is_dir (4 - length \<pi>) (t i)"
    "t i = e" "e \<noteq> 0" "L = 4 - length \<pi>" "v \<in> reg (\<pi> @ [i])" by (rule pte_at_some [OF assms(1-3)])
  have l: "length \<pi> \<le> 3" using table_path [OF p(1)] by simp
  have "\<pi> \<noteq> []" using p(4-6) by (auto simp: is_dir_def)
  then have "1 \<le> length \<pi>" by (cases \<pi>) simp_all
  then show "1 \<le> L" "L \<le> 3" using p(7) l by linarith+
  have ix: "length (\<pi> @ [i]) \<le> 4" "\<forall>j \<in> set (\<pi> @ [i]). j < 512" using p(3) l by (auto simp: path_ok_def)
  have eq: "5 - L = length (\<pi> @ [i])" using p(7) l by simp
  have d: "v div psz (5 - L) = pidx (\<pi> @ [i])" using p(8) unfolding reg_div [OF ix] eq .
  then have "w \<in> reg (\<pi> @ [i])" using assms(4) unfolding reg_div [OF ix] by (simp add: eq)
  from pte_at_entry [OF p(1-4) this] p(5-7) show "pte_at r s w = Some (L, e)" by simp
  have "reg (\<pi> @ [i]) \<subseteq> {..<n * 2 ^ 39}" using assms(1) p(3) ix(1) by (intro reg_bound) (auto simp: pt_inv_def tree_def)
  moreover have "pbase (\<pi> @ [i]) + (psz (length (\<pi> @ [i])) - 1) \<in> reg (\<pi> @ [i])" by (simp add: reg_range(1) [OF ix])
  ultimately have "pbase (\<pi> @ [i]) + (psz (length (\<pi> @ [i])) - 1) < n * 2 ^ 39" by auto
  then show "v div psz (5 - L) * psz (5 - L) + psz (5 - L) \<le> n * 2 ^ 39" unfolding d using eq by (simp add: pbase_def)
qed

subsection \<open>Regions of entries\<close>

lemma path_region:
  assumes "path_ok n \<pi>" "length \<pi> \<le> 4"
  shows "reg \<pi> = {pbase \<pi> ..< pbase \<pi> + psz (length \<pi>)}" "pbase \<pi> + psz (length \<pi>) \<le> 2 ^ 48" "unat (word_of_nat (pbase \<pi>) :: u64) = pbase \<pi>"
proof -
  have ix: "\<forall>i \<in> set \<pi>. i < 512" using assms(1) by (simp add: path_ok_def)
  show "reg \<pi> = {pbase \<pi> ..< pbase \<pi> + psz (length \<pi>)}" and l: "pbase \<pi> + psz (length \<pi>) \<le> 2 ^ 48" using reg_range [OF assms(2) ix] .
  have "pbase \<pi> < 2 ^ 64" using l by simp
  then show "unat (word_of_nat (pbase \<pi>) :: u64) = pbase \<pi>" by (simp add: unat_of_nat take_bit_nat_eq_self)
qed

lemma base_cmp:
  fixes w sz :: u64
  assumes "path_ok n \<pi>" "length \<pi> \<le> 4" "unat sz = psz (length \<pi>)"
  shows "w \<le> word_of_nat (pbase \<pi>) \<longleftrightarrow> unat w \<le> pbase \<pi>" "word_of_nat (pbase \<pi>) < w \<longleftrightarrow> pbase \<pi> < unat w"
    "word_of_nat (pbase \<pi>) + sz \<le> w \<longleftrightarrow> pbase \<pi> + psz (length \<pi>) \<le> unat w"
    "w < word_of_nat (pbase \<pi>) + sz \<longleftrightarrow> unat w < pbase \<pi> + psz (length \<pi>)"
proof -
  note p = path_region(2,3) [OF assms(1,2)]
  have "unat (word_of_nat (pbase \<pi>) + sz) = pbase \<pi> + psz (length \<pi>)" using p assms(3) by (simp add: u64_add)
  with p(2) show "w \<le> word_of_nat (pbase \<pi>) \<longleftrightarrow> unat w \<le> pbase \<pi>" "word_of_nat (pbase \<pi>) < w \<longleftrightarrow> pbase \<pi> < unat w"
    "word_of_nat (pbase \<pi>) + sz \<le> w \<longleftrightarrow> pbase \<pi> + psz (length \<pi>) \<le> unat w"
    "w < word_of_nat (pbase \<pi>) + sz \<longleftrightarrow> unat w < pbase \<pi> + psz (length \<pi>)" by (simp_all add: word_le_nat_alt word_less_nat_alt)
qed

lemma entry_range:
  assumes "meets st en \<pi>" "st < en" "path_ok n \<pi>" "length \<pi> \<le> 4"
  shows "plo st \<pi> \<in> reg \<pi>" "plo st \<pi> < phi en \<pi>" "{plo st \<pi> ..< phi en \<pi>} \<subseteq> reg \<pi>" "st \<le> plo st \<pi>" "phi en \<pi> \<le> en"
    "st \<le> pbase \<pi> \<Longrightarrow> plo st \<pi> = pbase \<pi>" "pbase \<pi> + psz (length \<pi>) \<le> en \<Longrightarrow> phi en \<pi> = pbase \<pi> + psz (length \<pi>)"
    "pbase \<pi> \<le> plo st \<pi>" "phi en \<pi> \<le> pbase \<pi> + psz (length \<pi>)"
  using assms(1,2) path_region(1) [OF assms(3,4)] by (auto simp: meets_def plo_def phi_def)

text \<open>Small pages are covered completely.\<close>

lemma small_covered:
  assumes "meets st en \<pi>" "length \<pi> = 4" "4096 dvd st" "4096 dvd en"
  shows "st \<le> pbase \<pi>" "pbase \<pi> + psz (length \<pi>) \<le> en"
proof -
  have p: "pbase \<pi> = 4096 * pidx \<pi>" "psz (length \<pi>) = 4096" using assms(2) by (simp_all add: pbase_def psz_def)
  obtain a b where "st = 4096 * a" "en = 4096 * b" using assms(3,4) by (auto elim!: dvdE)
  with assms(1) p show "st \<le> pbase \<pi>" "pbase \<pi> + psz (length \<pi>) \<le> en" by (auto simp: meets_def)
qed

lemma reg_prefix:
  assumes "v \<in> reg \<pi>" "v \<in> reg \<pi>'" "length \<pi> \<le> length \<pi>'"
  shows "\<exists>rest. \<pi>' = \<pi> @ rest"
proof -
  obtain a b where "vix v = \<pi> @ a" "vix v = \<pi>' @ b" using vix_below [OF assms(1)] vix_below [OF assms(2)] by blast
  then have "\<pi> = take (length \<pi>) \<pi>'" using assms(3) by (metis append_eq_conv_conj take_take min.absorb1)
  then show ?thesis using append_take_drop_id [of "length \<pi>" \<pi>'] by metis
qed

lemma table_prefix: "table_at n r s (\<pi> @ rest) q \<Longrightarrow> \<exists>p. table_at n r s \<pi> p"
proof -
  assume t: "table_at n r s (\<pi> @ rest) q"
  then have "path_ok n \<pi>" "length \<pi> \<le> 3" using path_ok_append [of n \<pi> rest] by (auto simp: table_at_def reached_def)
  moreover have "ptw (ms_map (ps_ms s)) (ps_tab s) 4 r (\<pi> @ rest) = Some q" using t by (simp add: table_at_def reached_def)
  ultimately show ?thesis unfolding table_at_def reached_def ptw_append by (auto split: option.splits Option.bind_splits)
qed

lemma table_unique: "table_at n r s \<pi> q \<Longrightarrow> table_at n r s \<pi> p \<Longrightarrow> p = q"
  by (simp add: table_at_def reached_def)

text \<open>The entry that leads to a table.\<close>

lemma table_entry:
  assumes "table_at n r s (\<pi> @ [i]) q'" "table_at n r s \<pi> q" "ps_tab s q = Some t"
  shows "is_dir (4 - length \<pi>) (t i)" "q' = pt_phys_to_virt s (t i AND PT_PHYSMASK)"
proof -
  from assms(1) obtain p t' where p: "table_at n r s \<pi> p" "ps_tab s p = Some t'" "is_dir (4 - length \<pi>) (t' i)" "q' = child (ms_map (ps_ms s)) (t' i)"
    unfolding table_at_def reached_snoc by blast
  then have "t' = t" using table_unique [OF assms(2) p(1)] assms(3) by simp
  with p(3,4) show "is_dir (4 - length \<pi>) (t i)" "q' = pt_phys_to_virt s (t i AND PT_PHYSMASK)" by (simp_all add: child_def pt_phys_to_virt_def)
qed

lemma and_size_zero: "e AND PF_SIZE = 0 \<longleftrightarrow> \<not> bit e 7" for e :: u64
proof -
  have b: "bit (e AND PF_SIZE) k \<longleftrightarrow> bit e 7 \<and> k = 7" for k by (auto simp: bit_simps pte_bits)
  show ?thesis
  proof
    assume "e AND PF_SIZE = 0"
    then show "\<not> bit e 7" using b [of 7] by simp
  next
    assume "\<not> bit e 7"
    then show "e AND PF_SIZE = 0" by (intro bit_eqI) (simp add: b)
  qed
qed

text \<open>A large page that sticks out of the range.\<close>

lemma straddle:
  assumes m: "meets st en (\<pi> @ [i])" and rg: "st < en" and q: "path_ok n (\<pi> @ [i])" "length \<pi> \<le> 2"
    and out: "pbase (\<pi> @ [i]) < st \<or> en < pbase (\<pi> @ [i]) + psz (length (\<pi> @ [i]))"
    and t: "table_at n r s \<pi> q" "ps_tab s q = Some t" "\<not> is_dir (4 - length \<pi>) (t i)" "t i \<noteq> 0"
  shows "plo st (\<pi> @ [i]) < en"
    "\<exists>L e. pte_at r s (plo st (\<pi> @ [i])) = Some (L, e) \<and> 2 \<le> L \<and> \<not> {v. v div psz (5 - L) = plo st (\<pi> @ [i]) div psz (5 - L)} \<subseteq> {st..<en}"
proof -
  let ?p = "\<pi> @ [i]"
  have l4: "length ?p \<le> 4" using q(2) by simp
  note er = entry_range [OF m rg q(1) l4]
  show "plo st ?p < en" using er(2,5) by simp
  have ix: "\<forall>j \<in> set ?p. j < 512" using q(1) by (simp add: path_ok_def)
  have len: "5 - (4 - length \<pi>) = length ?p" "2 \<le> 4 - length \<pi>" using q(2) by simp_all
  have "{v. v div psz (length ?p) = plo st ?p div psz (length ?p)} = reg ?p" using reg_div [OF l4 ix] er(1) by auto
  moreover have "\<not> reg ?p \<subseteq> {st..<en}" unfolding path_region(1) [OF q(1) l4]
    using out psz_pos [of "length ?p"] by (auto dest!: atLeastLessThan_subset_iff)
  moreover have "pte_at r s (plo st ?p) = Some (4 - length \<pi>, t i)" using pte_at_entry [OF t(1,2) q(1) t(3) er(1)] t(4) by simp
  ultimately show "\<exists>L e. pte_at r s (plo st ?p) = Some (L, e) \<and> 2 \<le> L \<and> \<not> {v. v div psz (5 - L) = plo st ?p div psz (5 - L)} \<subseteq> {st..<en}"
    using len(2) by (intro exI [of _ "4 - length \<pi>"] exI [of _ "t i"]) (simp_all only: len(1) simp_thms)
qed

end
