(* ===== verification/PtClear.thy ===== *)
theory PtClear
  imports PtWalk
begin

section \<open>Clearing a range\<close>

text \<open>
  \<open>clear_range\<close> of \<open>arch/x86_64/kernel/memory.c\<close>: the range is unmapped and nothing else, every page that was
  mapped is invalidated on the other CPUs, tables that became empty and, on request, the pages themselves
  go back to the allocator, and no other memory does.
\<close>

subsection \<open>Memory lent out\<close>

text \<open>Pages that are neither free nor tables and have no page structure: they may be given back.\<close>

definition lent :: "int \<Rightarrow> u64 \<Rightarrow> pt_sys \<Rightarrow> bool" where
  "lent k pa s \<longleftrightarrow> 0 < k \<and> k \<le> 0x7ffff \<and> 4096 dvd unat pa \<and> page_range pa k \<subseteq> mem_range (ps_ms s) \<and>
     page_range pa k \<inter> pt_total s = {} \<and> no_struct (ps_ms s) (page_range pa k)"

text \<open>Changes of accounting, page structures and events only.\<close>

definition pt_quiet :: "pt_sys \<Rightarrow> pt_sys \<Rightarrow> bool" where
  "pt_quiet s s' \<longleftrightarrow> ps_tab s' = ps_tab s \<and> same_ctx s s' \<and> pt_total s' = pt_total s \<and> (pt_mem s \<longrightarrow> pt_mem s')"

lemma pt_quiet_refl [simp]: "pt_quiet s s"
  by (simp add: pt_quiet_def)

lemma pt_quiet_trans: "pt_quiet s s' \<Longrightarrow> pt_quiet s' s'' \<Longrightarrow> pt_quiet s s''"
  using same_ctx_trans by (auto simp: pt_quiet_def)

lemma pt_quietI:
  assumes "ps_tab s' = ps_tab s" "same_ctx s s'" "mem_ok (ps_ms s) \<Longrightarrow> mem_ok (ps_ms s')" "mem_bytes (ps_ms s') = mem_bytes (ps_ms s)"
  shows "pt_quiet s s'"
proof -
  have eq: "ms_map (ps_ms s') = ms_map (ps_ms s)" "mem_range (ps_ms s') = mem_range (ps_ms s)"
    "phys_to_page (ms_hash (ps_ms s')) = phys_to_page (ms_hash (ps_ms s))" using assms(2) by (simp_all add: same_ctx_def)
  then have "pt_virt_to_phys s' = pt_virt_to_phys s" by (simp add: pt_virt_to_phys_def fun_eq_iff)
  then have tot: "pt_total s' = pt_total s" by (simp add: pt_total_def tab_bytes_def tab_page_def assms(1,4))
  then have "pt_mem s \<longrightarrow> pt_mem s'" using assms(1,3,4) eq by (auto simp: pt_mem_def frame_ok_def no_struct_def Let_def)
  with assms(1,2) tot show ?thesis by (simp add: pt_quiet_def)
qed

lemma pt_event_quiet: "pt_quiet s (pt_event e s)"
  by (rule pt_quietI) (simp_all add: pt_event_def same_ctx_def)

lemma pt_rusage_quiet: "pt_quiet s (pt_rusage f s)"
  by (rule pt_quietI) (simp_all add: pt_rusage_def Let_def same_ctx_def mem_range_def mem_bytes_def mem_ok_def)

lemma pt_alloc_sound:
  assumes "pt_mem s" "0 < k" "k \<le> 0x7ffff"
  shows "\<exists>va s'. pt_alloc_pages k flag s = Some (va, s') \<and> pt_mem s' \<and> same_ctx s s' \<and> ps_tab s' = ps_tab s \<and> ps_events s' = ps_events s \<and>
    (va = 0 \<and> pt_total s' = pt_total s \<or>
     va \<noteq> 0 \<and> (\<exists>pa. va = pt_phys_to_virt s' pa \<and> lent k pa s' \<and> pt_total s = pt_total s' \<union> page_range pa k))"
proof -
  have mok: "mem_ok (ps_ms s)" and fo: "\<forall>q \<in> dom (ps_tab s). frame_ok (ps_ms s) q" and ns: "no_struct (ps_ms s) (pt_total s)"
    using assms(1) by (simp_all add: pt_mem_def)
  from alloc_pages_sound [OF mok assms(2), of flag] assms(3) obtain pa va ms where
    a: "pt_alloc_pages k flag s = Some (va, s\<lparr>ps_ms := ms\<rparr>)" "alloc_effect k (ps_ms s) pa ms"
      "if pa = 0 then va = 0 else va = pt_phys_to_virt s pa \<and> va \<noteq> 0 \<and> pt_virt_to_phys s va = pa \<and> page_range pa k \<subseteq> mem_range (ps_ms s)"
    by auto
  let ?s = "s\<lparr>ps_ms := ms\<rparr>"
  have f: "mem_frame (ps_ms s) ms" "mem_ok ms" "4096 dvd unat pa" using a(2) by (simp_all add: alloc_effect_def)
  have ctx: "same_ctx s ?s" using f(1) by (simp add: same_ctx_def mem_frame_def)
  have tb: "tab_bytes ?s = tab_bytes s" using f(1) by (simp add: tab_bytes_def tab_page_def pt_virt_to_phys_def mem_frame_def)
  have mb: "mem_bytes ms \<subseteq> mem_bytes (ps_ms s)" using a(2) by (auto simp: alloc_effect_def split: if_splits)
  then have sub: "pt_total ?s \<subseteq> pt_total s" by (auto simp: pt_total_def tb)
  have "\<forall>q \<in> dom (ps_tab ?s). frame_ok ms q" using fo mb f(1) by (fastforce simp: frame_ok_def Let_def mem_frame_def)
  then have pm: "pt_mem ?s" using f(1,2) ns sub by (auto simp: pt_mem_def no_struct_def mem_frame_def)
  show ?thesis
  proof (cases "pa = 0")
    case True
    then have "pt_total ?s = pt_total s" using a(2) by (simp add: pt_total_def tb alloc_effect_def)
    with True a(1,3) ctx pm show ?thesis by (intro exI [of _ 0] exI [of _ ?s]) simp
  next
    case False
    then have e: "page_range pa k \<subseteq> mem_bytes (ps_ms s)" "mem_bytes ms = mem_bytes (ps_ms s) - page_range pa k"
      using a(2) by (simp_all add: alloc_effect_def)
    have "page_range pa k \<inter> tab_bytes s = {}" using e(1) fo by (fastforce simp: tab_bytes_def tab_page_def frame_ok_def Let_def pt_virt_to_phys_def)
    then have "page_range pa k \<inter> pt_total ?s = {}" "pt_total s = pt_total ?s \<union> page_range pa k" using e by (auto simp: pt_total_def tb)
    moreover have "no_struct ms (page_range pa k)" using ns e(1) f(1) by (auto simp: no_struct_def pt_total_def mem_frame_def)
    ultimately have "lent k pa ?s \<and> pt_total s = pt_total ?s \<union> page_range pa k"
      using assms(2,3) f a(3) False by (simp add: lent_def mem_frame_def)
    moreover have "va = pt_phys_to_virt ?s pa" "va \<noteq> 0" using a(3) False f(1) by (auto simp: pt_phys_to_virt_def mem_frame_def)
    ultimately show ?thesis using a(1) ctx pm by (intro exI [of _ va] exI [of _ ?s]) auto
  qed
qed

lemma pt_free_sound:
  assumes "pt_mem s" "lent k pa s"
  shows "\<exists>s'. pt_free_pages (pt_phys_to_virt s pa) k u s = Some s' \<and> pt_mem s' \<and> same_ctx s s' \<and> ps_tab s' = ps_tab s \<and>
    ps_events s' = ps_events s \<and> pt_total s' = pt_total s \<union> page_range pa k"
proof -
  have mok: "mem_ok (ps_ms s)" and fo: "\<forall>q \<in> dom (ps_tab s). frame_ok (ps_ms s) q" and ns: "no_struct (ps_ms s) (pt_total s)"
    using assms(1) by (simp_all add: pt_mem_def)
  have l: "0 < k" "k \<le> 0x7ffff" "4096 dvd unat pa" "page_range pa k \<subseteq> mem_range (ps_ms s)" "page_range pa k \<inter> pt_total s = {}"
    "no_struct (ps_ms s) (page_range pa k)" using assms(2) by (simp_all add: lent_def)
  have d: "page_range pa k \<inter> mem_bytes (ps_ms s) = {}" "page_range pa k \<inter> tab_bytes s = {}" using l(5) by (auto simp: pt_total_def)
  have "unat pa \<in> page_range pa k" using l(1) by (simp add: page_range_def)
  then have "phys_to_page (ms_hash (ps_ms s)) pa = None" using l(6) by (simp add: no_struct_def)
  from free_pages_sound [OF mok l(1-4) d(1) this, of u] obtain ms where
    f: "pt_free_pages (pt_phys_to_virt s pa) k u s = Some (s\<lparr>ps_ms := ms\<rparr>)" "mem_ok ms" "mem_frame (ps_ms s) ms"
      "mem_bytes ms = mem_bytes (ps_ms s) \<union> page_range pa k" by blast
  let ?s = "s\<lparr>ps_ms := ms\<rparr>"
  have ctx: "same_ctx s ?s" using f(3) by (simp add: same_ctx_def mem_frame_def)
  have tb: "tab_bytes ?s = tab_bytes s" using f(3) by (simp add: tab_bytes_def tab_page_def pt_virt_to_phys_def mem_frame_def)
  have tot: "pt_total ?s = pt_total s \<union> page_range pa k" using f(4) by (auto simp: pt_total_def tb)
  have "frame_ok ms q" if q: "q \<in> dom (ps_tab s)" for q
  proof -
    have "frame_ok (ps_ms s) q" "tab_page s q \<inter> page_range pa k = {}" using fo d(2) q by (auto simp: tab_bytes_def)
    with f(3,4) show ?thesis by (auto simp: frame_ok_def Let_def mem_frame_def tab_page_def pt_virt_to_phys_def)
  qed
  then have "pt_mem ?s" using f(2,3) ns l(6) tot by (simp add: pt_mem_def no_struct_def mem_frame_def ball_Un)
  with f(1) ctx tot show ?thesis by (intro exI [of _ ?s]) simp
qed

subsection \<open>The effect of clearing\<close>

text \<open>The bytes of a page, the bytes mapped in a range, and the addresses whose invalidation is sent or queued.\<close>

definition leaf_frame :: "nat \<Rightarrow> u64 \<Rightarrow> nat set" where
  "leaf_frame L e = (if pte_is_fileoff e then {} else page_range (pte_get_phys e) (512 ^ (L - 1)))"

definition frame_of :: "u64 \<Rightarrow> pt_sys \<Rightarrow> nat \<Rightarrow> nat set" where
  "frame_of r s v = (case pte_at r s v of None \<Rightarrow> {} | Some (L, e) \<Rightarrow> leaf_frame L e)"

definition freed :: "u64 \<Rightarrow> pt_sys \<Rightarrow> nat \<Rightarrow> nat \<Rightarrow> nat set" where
  "freed r s a b = (\<Union>v \<in> {a..<b}. frame_of r s v)"

definition page_base :: "nat \<Rightarrow> nat \<Rightarrow> u64" where
  "page_base L v = word_of_nat (v div psz (5 - L) * psz (5 - L))"

definition sent :: "pt_sys \<Rightarrow> u64 set" where
  "sent s = (\<Union>e \<in> set (ps_events s). case e of Flush_Array as \<Rightarrow> set as | _ \<Rightarrow> {})"

definition flushed :: "clear_state \<Rightarrow> u64 set" where
  "flushed sa = set (cr_addr (snd sa)) \<union> sent (fst sa)"

text \<open>Every page of the range that would be freed is anonymous memory, mapped only once in the range.\<close>

definition anon :: "u64 \<Rightarrow> nat \<Rightarrow> nat \<Rightarrow> pt_sys \<Rightarrow> bool" where
  "anon r st en s \<longleftrightarrow> (\<forall>v \<in> {st..<en}. \<forall>L e. pte_at r s v = Some (L, e) \<and> \<not> pte_is_fileoff e \<longrightarrow>
     lent (512 ^ (L - 1)) (pte_get_phys e) s \<and>
     (\<forall>w \<in> {st..<en}. frame_of r s w \<inter> leaf_frame L e \<noteq> {} \<longrightarrow> w div psz (5 - L) = v div psz (5 - L)))"

definition clr_pre :: "nat \<Rightarrow> u64 \<Rightarrow> nat \<Rightarrow> nat \<Rightarrow> clear_state \<Rightarrow> bool" where
  "clr_pre n r st en sa \<longleftrightarrow> pt_inv n r (fst sa) \<and> st < en \<and> en \<le> n * 2 ^ 39 \<and> 4096 dvd st \<and> 4096 dvd en \<and>
     (cr_free_physical (snd sa) \<longrightarrow> anon r st en (fst sa) \<and> \<not> obj_has (fst sa) (cr_memobj (snd sa)) MF_XPMEM)"

definition clr_eff :: "nat \<Rightarrow> u64 \<Rightarrow> clear_state \<Rightarrow> nat \<Rightarrow> nat \<Rightarrow> clear_state \<Rightarrow> bool" where
  "clr_eff n r sa a b sa' \<longleftrightarrow> pt_upd n r {a..<b} (fst sa) (fst sa') \<and> (\<forall>v \<in> {a..<b}. pte_at r (fst sa') v = None) \<and>
     pt_total (fst sa') = pt_total (fst sa) \<union> (if cr_free_physical (snd sa) then freed r (fst sa) a b else {}) \<and>
     cr_free_physical (snd sa') = cr_free_physical (snd sa) \<and> cr_memobj (snd sa') = cr_memobj (snd sa) \<and>
     flushed sa \<subseteq> flushed sa' \<and> (\<forall>v \<in> {a..<b}. \<forall>L e. pte_at r (fst sa) v = Some (L, e) \<longrightarrow> page_base L v \<in> flushed sa')"

lemma clr_eff_upd: "clr_eff n r sa a b sa' \<Longrightarrow> pt_upd n r {a..<b} (fst sa) (fst sa')"
  and clr_eff_none: "clr_eff n r sa a b sa' \<Longrightarrow> v \<in> {a..<b} \<Longrightarrow> pte_at r (fst sa') v = None"
  and clr_eff_total: "clr_eff n r sa a b sa' \<Longrightarrow> pt_total (fst sa') = pt_total (fst sa) \<union> (if cr_free_physical (snd sa) then freed r (fst sa) a b else {})"
  and clr_eff_args: "clr_eff n r sa a b sa' \<Longrightarrow> cr_free_physical (snd sa') = cr_free_physical (snd sa) \<and> cr_memobj (snd sa') = cr_memobj (snd sa)"
  and clr_eff_flush: "clr_eff n r sa a b sa' \<Longrightarrow> flushed sa \<subseteq> flushed sa'"
    "clr_eff n r sa a b sa' \<Longrightarrow> v \<in> {a..<b} \<Longrightarrow> pte_at r (fst sa) v = Some (L, e) \<Longrightarrow> page_base L v \<in> flushed sa'"
  by (auto simp: clr_eff_def)

text \<open>Nothing to do.\<close>

lemma clr_eff_skip:
  assumes "pt_inv n r (fst sa)" "\<forall>v \<in> {a..<b}. pte_at r (fst sa) v = None"
  shows "clr_eff n r sa a b sa"
  using assms pt_upd_refl [OF assms(1)] by (auto simp: clr_eff_def freed_def frame_of_def)

lemma freed_split: "a \<le> b \<Longrightarrow> b \<le> c \<Longrightarrow> freed r s a c = freed r s a b \<union> freed r s b c"
  unfolding freed_def by (simp only: ivl_disj_un(17) [of a b c, symmetric] UN_Un) 

lemma clr_eff_trans:
  assumes e: "clr_eff n r sa a b sa1" "clr_eff n r sa1 b' c sa2" and le: "a \<le> b'" "b' \<le> b" "b \<le> c" "c \<le> n * 2 ^ 39"
  shows "clr_eff n r sa a c sa2"
proof -
  note u = clr_eff_upd [OF e(1)] clr_eff_upd [OF e(2)]
  have iv: "{a..<b} \<union> {b'..<c} = {a..<c}" "{a..<b} \<union> {b..<c} = {a..<c}" "{b'..<b} \<union> {b..<c} = {b'..<c}" using le by auto
  have old: "pte_at r (fst sa1) v = pte_at r (fst sa) v" if "v \<in> {b..<c}" for v using pt_upd_pte [OF u(1), of v] that le by simp
  have new: "pte_at r (fst sa2) v = None" if "v \<in> {a..<b}" for v
    using clr_eff_none [OF e(1) that] clr_eff_none [OF e(2), of v] pt_upd_pte [OF u(2), of v] that le by (cases "v \<in> {b'..<c}") simp_all
  have "freed r (fst sa1) b' b = {}" using clr_eff_none [OF e(1)] le by (simp add: freed_def frame_of_def)
  moreover have "freed r (fst sa1) b c = freed r (fst sa) b c" unfolding freed_def frame_of_def by (rule SUP_cong) (simp_all add: old)
  ultimately have fr: "freed r (fst sa1) b' c = freed r (fst sa) b c" using freed_split [OF le(2,3), of r "fst sa1"] by simp
  have 1: "pt_upd n r {a..<c} (fst sa) (fst sa2)" using pt_upd_trans [OF u] unfolding iv .
  have 2: "\<forall>v \<in> {a..<c}. pte_at r (fst sa2) v = None"
    unfolding iv(1) [symmetric] using new clr_eff_none [OF e(2)] by blast
  have 3: "pt_total (fst sa2) = pt_total (fst sa) \<union> (if cr_free_physical (snd sa) then freed r (fst sa) a c else {})"
    unfolding clr_eff_total [OF e(2)] clr_eff_total [OF e(1)] using clr_eff_args [OF e(1)] freed_split [of a b c r "fst sa"] le fr by auto
  have 4: "\<forall>v \<in> {a..<c}. \<forall>L x. pte_at r (fst sa) v = Some (L, x) \<longrightarrow> page_base L v \<in> flushed sa2"
  proof (intro ballI allI impI)
    fix v L x assume v: "v \<in> {a..<c}" "pte_at r (fst sa) v = Some (L, x)"
    show "page_base L v \<in> flushed sa2"
    proof (cases "v \<in> {a..<b}")
      case False
      then have "v \<in> {b..<c}" "v \<in> {b'..<c}" using v(1) le by auto
      then show ?thesis using clr_eff_flush(2) [OF e(2)] old v(2) by simp
    qed (use clr_eff_flush(2) [OF e(1) _ v(2)] clr_eff_flush(1) [OF e(2)] in blast)
  qed
  show ?thesis unfolding clr_eff_def
    using 1 2 3 4 clr_eff_args [OF e(1)] clr_eff_args [OF e(2)] clr_eff_flush(1) [OF e(1)] clr_eff_flush(1) [OF e(2)] by simp
qed

lemma obj_has_ctx: "same_ctx s s' \<Longrightarrow> obj_has s' = obj_has s"
  by (simp add: obj_has_def same_ctx_def fun_eq_iff split: option.splits)

lemma lent_ctx: "lent k pa s \<Longrightarrow> same_ctx s s' \<Longrightarrow> page_range pa k \<inter> pt_total s' = {} \<Longrightarrow> lent k pa s'"
  by (simp add: lent_def same_ctx_def no_struct_def)

text \<open>What is still mapped in the range can still be freed.\<close>

lemma clr_pre_step:
  assumes pre: "clr_pre n r st en sa" and e: "clr_eff n r sa a b sa'" and ab: "st \<le> a" "b \<le> en"
  shows "clr_pre n r st en sa'"
proof -
  let ?s = "fst sa" and ?s' = "fst sa'"
  have p: "pt_inv n r ?s" "st < en" "en \<le> n * 2 ^ 39" "4096 dvd st" "4096 dvd en"
    "cr_free_physical (snd sa) \<Longrightarrow> anon r st en ?s \<and> \<not> obj_has ?s (cr_memobj (snd sa)) MF_XPMEM"
    using pre by (simp_all add: clr_pre_def)
  note u = clr_eff_upd [OF e]
  have ctx: "same_ctx ?s ?s'" and inv': "pt_inv n r ?s'" using u by (simp_all add: pt_upd_def)
  have old: "pte_at r ?s v = Some (L, x) \<and> v \<notin> {a..<b}" if "v \<in> {st..<en}" "pte_at r ?s' v = Some (L, x)" for v L x
    using that clr_eff_none [OF e, of v] pt_upd_pte [OF u, of v] p(3) by fastforce
  have sub: "frame_of r ?s' w \<subseteq> frame_of r ?s w" if "w \<in> {st..<en}" for w
    using old [OF that] by (auto simp: frame_of_def split: option.splits)
  have "anon r st en ?s' \<and> \<not> obj_has ?s' (cr_memobj (snd sa')) MF_XPMEM" if f: "cr_free_physical (snd sa')"
  proof
    have an: "anon r st en ?s" "\<not> obj_has ?s (cr_memobj (snd sa)) MF_XPMEM" and fr: "cr_free_physical (snd sa)"
      using p(6) f clr_eff_args [OF e] by auto
    then show "\<not> obj_has ?s' (cr_memobj (snd sa')) MF_XPMEM" using clr_eff_args [OF e] obj_has_ctx [OF ctx] by simp
    show "anon r st en ?s'" unfolding anon_def
    proof (intro ballI allI impI)
      fix v L x assume v: "v \<in> {st..<en}" and x: "pte_at r ?s' v = Some (L, x) \<and> \<not> pte_is_fileoff x"
      have o: "pte_at r ?s v = Some (L, x)" using old v x by blast
      have l: "lent (512 ^ (L - 1)) (pte_get_phys x) ?s"
        and dis: "\<And>w. w \<in> {st..<en} \<Longrightarrow> frame_of r ?s w \<inter> leaf_frame L x \<noteq> {} \<Longrightarrow> w div psz (5 - L) = v div psz (5 - L)"
        using an(1) v x o unfolding anon_def by blast+
      have lf: "leaf_frame L x = page_range (pte_get_phys x) (512 ^ (L - 1))" using x by (simp add: leaf_frame_def)
      have "frame_of r ?s w \<inter> leaf_frame L x = {}" if w: "w \<in> {a..<b}" for w
      proof (rule ccontr)
        assume "frame_of r ?s w \<inter> leaf_frame L x \<noteq> {}"
        then have "w div psz (5 - L) = v div psz (5 - L)" using dis [of w] w ab by auto
        then have "pte_at r ?s' w = Some (L, x)" using pte_at_same_page(1) [OF inv', of v L x w] x v p(3) by simp
        then show False using clr_eff_none [OF e w] by simp
      qed
      then have "leaf_frame L x \<inter> freed r ?s a b = {}" unfolding freed_def by blast
      moreover have "leaf_frame L x \<inter> pt_total ?s = {}" using l lf by (simp add: lent_def)
      ultimately have "leaf_frame L x \<inter> pt_total ?s' = {}" unfolding clr_eff_total [OF e] by auto
      then have "lent (512 ^ (L - 1)) (pte_get_phys x) ?s'" using lent_ctx [OF l ctx] lf by simp
      then show "lent (512 ^ (L - 1)) (pte_get_phys x) ?s' \<and>
          (\<forall>w \<in> {st..<en}. frame_of r ?s' w \<inter> leaf_frame L x \<noteq> {} \<longrightarrow> w div psz (5 - L) = v div psz (5 - L))"
        using dis sub by blast
    qed
  qed
  with inv' p(2-5) show ?thesis by (simp add: clr_pre_def)
qed

subsection \<open>One page\<close>

lemma flush_add:
  assumes "remote_flush_tlb_add_addr addr (s, args) = (s', args')"
  shows "pt_quiet s s'" "cr_free_physical args' = cr_free_physical args" "cr_memobj args' = cr_memobj args"
    "flushed (s', args') = insert addr (flushed (s, args))"
  using assms pt_event_quiet by (auto simp: remote_flush_tlb_add_addr_def flushed_def sent_def pt_event_def split: if_splits)

lemma clear_flush_sound: "pt_quiet s (clear_flush memobj old pgsize s)" "sent (clear_flush memobj old pgsize s) = sent s"
  using pt_event_quiet by (auto simp: clear_flush_def pt_event_def sent_def split: option.splits)

lemma level_pages: "1 \<le> L \<Longrightarrow> L \<le> 3 \<Longrightarrow> int (unat (level_size L div PTL1_SIZE)) = 512 ^ (L - 1)"
proof -
  assume "1 \<le> L" "L \<le> 3"
  then consider "L = 1" | "L = 2" | "L = 3" by linarith
  then show ?thesis by cases (simp_all add: level_size_def level_consts)
qed

lemma clear_release_sound:
  assumes "pt_mem s" "1 \<le> L" "L \<le> 3"
    and "free \<and> \<not> pte_is_fileoff old \<longrightarrow> lent (512 ^ (L - 1)) (pte_get_phys old) s \<and> \<not> obj_has s memobj MF_XPMEM"
  shows "\<exists>s'. clear_release free memobj old (level_size L) s = Some s' \<and> pt_mem s' \<and> same_ctx s s' \<and> ps_tab s' = ps_tab s \<and>
    sent s' = sent s \<and> pt_total s' = pt_total s \<union> (if free then leaf_frame L old else {})"
proof (cases "free \<and> \<not> pte_is_fileoff old")
  case True
  let ?pa = "pte_get_phys old"
  have l: "lent (512 ^ (L - 1)) ?pa s" "\<not> obj_has s memobj MF_XPMEM" using assms(4) True by auto
  have "unat ?pa \<in> page_range ?pa (512 ^ (L - 1))" by (simp add: page_range_def)
  then have "pt_phys_to_page s ?pa = None" using l(1) by (simp add: lent_def no_struct_def pt_phys_to_page_def)
  moreover from pt_free_sound [OF assms(1) l(1), of True] obtain s1 where
    f: "pt_free_pages (pt_phys_to_virt s ?pa) (512 ^ (L - 1)) True s = Some s1" "pt_mem s1" "same_ctx s s1" "ps_tab s1 = ps_tab s"
      "ps_events s1 = ps_events s" "pt_total s1 = pt_total s \<union> page_range ?pa (512 ^ (L - 1))" by blast
  moreover let ?s = "pt_rusage (memory_stat_rss_sub (level_size L) (level_size L)) s1"
  have q: "pt_quiet s1 ?s" "sent ?s = sent s1" by (rule pt_rusage_quiet) (simp add: pt_rusage_def sent_def Let_def)
  ultimately have "clear_release free memobj old (level_size L) s = Some ?s"
    using True l(2) level_pages [OF assms(2,3)] by (simp add: clear_release_def Let_def)
  moreover have "sent ?s = sent s" using q(2) f(5) by (simp add: sent_def)
  ultimately show ?thesis using f(2-4,6) q(1) True same_ctx_trans [OF f(3)] by (auto simp: pt_quiet_def leaf_frame_def)
qed (use assms(1) in \<open>auto simp: clear_release_def leaf_frame_def\<close>)

lemma pt_upd_quiet: "pt_upd n r R s s' \<Longrightarrow> pt_mem s'' \<Longrightarrow> same_ctx s' s'' \<Longrightarrow> ps_tab s'' = ps_tab s' \<Longrightarrow> pt_upd n r R s s''"
  using pt_upd_trans [of n r R s s' "{}" s''] pt_upd_frame(1) [OF pt_upd_inv, of n r R s s' s''] by auto

lemma clear_leaf:
  assumes pre: "clr_pre n r st en sa" and q: "table_at n r (fst sa) \<pi> q" "ps_tab (fst sa) q = Some t" "path_ok n (\<pi> @ [i])"
    and e: "\<not> is_dir (4 - length \<pi>) (t i)" "t i \<noteq> 0" and sub: "reg (\<pi> @ [i]) \<subseteq> {st..<en}"
    and sz: "pgsize = level_size (4 - length \<pi>)" and bc: "b = pbase (\<pi> @ [i])" "c = b + psz (length (\<pi> @ [i]))"
  shows "\<exists>sa'. clear_page_entry pgsize (q, i) (word_of_nat b) sa = Some (0, sa') \<and> clr_eff n r sa b c sa' \<and>
    (\<forall>\<pi>' p. table_at n r (fst sa') \<pi>' p = table_at n r (fst sa) \<pi>' p)"
proof -
  obtain s args where sa: "sa = (s, args)" by (cases sa)
  let ?L = "4 - length \<pi>" and ?s1 = "s\<lparr>ps_tab := (ps_tab s)(q \<mapsto> t(i := 0))\<rparr>"
  have inv: "pt_inv n r s" and fr: "cr_free_physical args \<Longrightarrow> anon r st en s \<and> \<not> obj_has s (cr_memobj args) MF_XPMEM"
    using pre by (simp_all add: clr_pre_def sa)
  have mem: "pt_mem s" using inv by (simp add: pt_inv_def)
  have t: "ps_tab s q = Some t" "table_at n r s \<pi> q" using q by (simp_all add: sa)
  have i: "i < 512" using q(3) by (simp add: path_ok_snoc)
  have l: "length \<pi> \<le> 3" "\<pi> \<noteq> []" using table_path [OF t(2)] e by (auto simp: is_dir_def)
  have L: "1 \<le> ?L" "?L \<le> 3" "5 - ?L = length (\<pi> @ [i])" using l by (cases \<pi>; simp)+
  have ix: "length (\<pi> @ [i]) \<le> 4" "\<forall>j \<in> set (\<pi> @ [i]). j < 512" using q(3) l by (auto simp: path_ok_def)
  have rg: "reg (\<pi> @ [i]) = {b..<c}" using reg_range(1) [OF ix] bc by simp
  have at: "pte_at r s v = Some (?L, t i)" if "v \<in> {b..<c}" for v using pte_at_entry [OF t(2,1) q(3) e(1), of v] that rg e(2) by simp
  have bin: "b \<in> {b..<c}" using bc by simp
  have len: "lent (512 ^ (?L - 1)) (pte_get_phys (t i)) s" if "cr_free_physical args" "\<not> pte_is_fileoff (t i)"
    using fr [OF that(1)] at [OF bin] that(2) sub rg bin unfolding anon_def by blast
  note w1 = pt_write_sound(1) [OF t(1) i]
  note w = pt_write_sound(2,3) [OF t(1) i, of 0]
  have k1: "pt_mem ?s1" "same_ctx s ?s1" "pt_total ?s1 = pt_total s" using w(2) [OF mem] by (simp_all add: pt_keep_def)
  have "\<not> is_dir ?L 0" by (simp add: is_dir_def)
  then have nd: "\<not> is_dir ?L 0" .
  have tab1: "ps_tab ?s1 = (ps_tab s)(q \<mapsto> t(i := 0))" by simp
  note u = upd_put [OF inv t(2,1) q(3) e(1) nd k1(1,2) tab1]
  obtain s2 args2 where s2: "remote_flush_tlb_add_addr (word_of_nat b) (?s1, args) = (s2, args2)" by fastforce
  note f2 = flush_add [OF s2]
  let ?s3 = "clear_flush (cr_memobj args) (t i) (level_size ?L) s2"
  have q3: "pt_quiet ?s1 ?s3" using pt_quiet_trans [OF f2(1) clear_flush_sound(1)] .
  then have k3: "pt_mem ?s3" "same_ctx s ?s3" "pt_total ?s3 = pt_total s" using k1 same_ctx_trans [OF k1(2)] by (auto simp: pt_quiet_def)
  have pre3: "cr_free_physical args \<and> \<not> pte_is_fileoff (t i) \<longrightarrow>
      lent (512 ^ (?L - 1)) (pte_get_phys (t i)) ?s3 \<and> \<not> obj_has ?s3 (cr_memobj args) MF_XPMEM"
  proof (intro impI conjI)
    assume a: "cr_free_physical args \<and> \<not> pte_is_fileoff (t i)"
    then have le: "lent (512 ^ (?L - 1)) (pte_get_phys (t i)) s" using len by blast
    show "lent (512 ^ (?L - 1)) (pte_get_phys (t i)) ?s3" by (rule lent_ctx [OF le k3(2)]) (use le k3(3) in \<open>simp add: lent_def\<close>)
    show "\<not> obj_has ?s3 (cr_memobj args) MF_XPMEM" using fr a obj_has_ctx [OF k3(2)] by simp
  qed
  from clear_release_sound [OF k3(1) L(1,2) pre3] obtain s4 where
    s4: "clear_release (cr_free_physical args) (cr_memobj args) (t i) (level_size ?L) ?s3 = Some s4" "pt_mem s4" "same_ctx ?s3 s4" "ps_tab s4 = ps_tab ?s3"
      "sent s4 = sent ?s3" "pt_total s4 = pt_total ?s3 \<union> (if cr_free_physical args then leaf_frame ?L (t i) else {})" by blast
  have ctx14: "same_ctx ?s1 s4" using q3 same_ctx_trans [OF _ s4(3)] by (auto simp: pt_quiet_def)
  have tab14: "ps_tab s4 = ps_tab ?s1" using s4(4) q3 by (simp add: pt_quiet_def)
  note fr14 = pt_upd_frame(2,3) [OF pt_upd_inv [OF u(1)] s4(2) ctx14 tab14]
  have run: "clear_page_entry pgsize (q, i) (word_of_nat b) sa = Some (0, (s4, args2))"
    using w1 w(1) s2 s4(1) f2(2,3) by (simp add: clear_page_entry_def sa PTE_NULL_def sz)
  have fl: "flushed (s4, args2) = insert (word_of_nat b) (flushed (s, args))"
    using f2(4) s4(5) clear_flush_sound(2) by (simp add: flushed_def) (simp add: sent_def)
  have freed: "freed r s b c = leaf_frame ?L (t i)" using at bin by (auto simp: freed_def frame_of_def)
  have base: "page_base ?L v = word_of_nat b" if "v \<in> {b..<c}" for v
    using reg_div [OF ix, of v] that rg bc(1) by (simp add: page_base_def L(3) pbase_def)
  have "clr_eff n r sa b c (s4, args2)" unfolding clr_eff_def sa fst_conv snd_conv
  proof (intro conjI)
    show "pt_upd n r {b..<c} s s4" using pt_upd_quiet [OF u(1) s4(2) ctx14 tab14] rg by simp
    show "\<forall>v \<in> {b..<c}. pte_at r s4 v = None" using u(2) fr14(1) rg by simp
    show "pt_total s4 = pt_total s \<union> (if cr_free_physical args then freed r s b c else {})" using s4(6) k3(3) freed by simp
    show "\<forall>v \<in> {b..<c}. \<forall>L x. pte_at r s v = Some (L, x) \<longrightarrow> page_base L v \<in> flushed (s4, args2)" using at base fl by auto
  qed (use f2(2,3) fl in auto)
  with run u(3) fr14(2) show ?thesis by (auto simp: sa)
qed

text \<open>An empty table.\<close>

lemma clear_table:
  assumes pre: "clr_pre n r st en sa" and q: "table_at n r (fst sa) \<pi> q" "ps_tab (fst sa) q = Some t" "path_ok n (\<pi> @ [i])"
    and e: "is_dir (4 - length \<pi>) (t i)" "q1 = pt_phys_to_virt (fst sa) (t i AND PT_PHYSMASK)" "ps_tab (fst sa) q1 = Some t1" "\<forall>j < 512. t1 j = 0"
    and none: "\<forall>v \<in> {b..<c}. pte_at r (fst sa) v = None" and bc: "b = pbase (\<pi> @ [i])" "c = b + psz (length (\<pi> @ [i]))"
  shows "\<exists>sa'. clear_table_entry (q, i) base q1 sa = Some (0, sa') \<and> clr_eff n r sa b c sa' \<and>
    (\<forall>\<pi>' p. table_at n r (fst sa') \<pi>' p \<longleftrightarrow> table_at n r (fst sa) \<pi>' p \<and> \<pi>' \<noteq> \<pi> @ [i])"
proof -
  obtain s args where sa: "sa = (s, args)" by (cases sa)
  let ?s1 = "s\<lparr>ps_tab := (ps_tab s)(q \<mapsto> t(i := 0))\<rparr>"
  have inv: "pt_inv n r s" using pre by (simp add: clr_pre_def sa)
  then have mem: "pt_mem s" by (simp add: pt_inv_def)
  have t: "ps_tab s q = Some t" "table_at n r s \<pi> q" "q1 = pt_phys_to_virt s (t i AND PT_PHYSMASK)" "ps_tab s q1 = Some t1" using q e by (simp_all add: sa)
  have i: "i < 512" using q(3) by (simp add: path_ok_snoc)
  have l: "length (\<pi> @ [i]) \<le> 4" "\<forall>j \<in> set (\<pi> @ [i]). j < 512" using table_path [OF t(2)] q(3) by (auto simp: path_ok_def)
  have rg: "reg (\<pi> @ [i]) = {b..<c}" using reg_range(1) [OF l] bc by simp
  note w = pt_write_sound(2,3) [OF t(1) i, of 0]
  have k1: "pt_keep s ?s1" using w(2) [OF mem] .
  obtain s2 args2 where s2: "remote_flush_tlb_add_addr base (?s1, args) = (s2, args2)" by fastforce
  note f2 = flush_add [OF s2]
  have k2: "pt_keep s s2" and tab2: "ps_tab s2 = ps_tab ?s1" using k1 f2(1) same_ctx_trans by (auto simp: pt_keep_def pt_quiet_def)
  have "ps_tab s2 q1 \<noteq> None" using t(4) by (simp add: tab2)
  from free_pt_sound [OF _ this] k2 obtain s3 where
    s3: "free_pt q1 s2 = Some s3" "pt_keep s2 s3" "ps_tab s3 = (ps_tab s2)(q1 := None)" by (auto simp: pt_keep_def)
  have k3: "pt_mem s3" "same_ctx s s3" "pt_total s3 = pt_total s" using pt_keep_trans [OF k2 s3(2)] by (simp_all add: pt_keep_def)
  have tab3: "ps_tab s3 = (ps_tab s)(q \<mapsto> t(i := 0), q1 := None)" by (simp add: s3(3) tab2)
  note u = upd_unlink [OF inv t(2,1) q(3) e(1) t(3,4) e(4) k3(1,2) tab3]
  have run: "clear_table_entry (q, i) base q1 sa = Some (0, (s3, args2))" using w(1) s2 s3(1) by (simp add: clear_table_entry_def sa PTE_NULL_def)
  have ev: "sent s3 = sent s2" using s3(1) by (auto simp: free_pt_def pt_free_pages_def sent_def split: Option.bind_splits)
  have fl: "flushed (s, args) \<subseteq> flushed (s3, args2)" using f2(4) ev by (auto simp: flushed_def sent_def)
  have no: "\<forall>v \<in> {b..<c}. pte_at r s v = None" using none by (simp add: sa)
  have lim: "{b..<c} \<subseteq> {..<n * 2 ^ 39}" unfolding rg [symmetric] using inv q(3) l(1) by (intro reg_bound) (auto simp: pt_inv_def tree_def)
  have "clr_eff n r sa b c (s3, args2)" unfolding clr_eff_def sa fst_conv snd_conv
  proof (intro conjI)
    show "pt_upd n r {b..<c} s s3" using u(1) rg by simp
    show "\<forall>v \<in> {b..<c}. pte_at r s3 v = None" using u(2) lim no by auto
    show "pt_total s3 = pt_total s \<union> (if cr_free_physical args then freed r s b c else {})" using k3(3) no by (auto simp: freed_def frame_of_def)
  qed (use f2(2,3) fl no in auto)
  with run u(3) show ?thesis by (auto simp: sa)
qed

subsection \<open>The levels\<close>

text \<open>How far the walk has come.  In the walk over a table of small pages the tables stay; above it no table of small
  pages is left that the range covers.\<close>

definition clr_prog :: "nat \<Rightarrow> u64 \<Rightarrow> u64 \<Rightarrow> u64 \<Rightarrow> nat \<Rightarrow> clear_state \<Rightarrow> nat \<Rightarrow> clear_state \<Rightarrow> bool" where
  "clr_prog n r start_a end_a lo sa0 b sa \<longleftrightarrow> clr_pre n r (unat start_a) (unat end_a) sa0 \<and> unat start_a \<le> lo \<and> lo \<le> b \<and> b \<le> unat end_a \<and>
     clr_eff n r sa0 lo b sa"

definition clr_ok :: "bool \<Rightarrow> nat \<Rightarrow> u64 \<Rightarrow> u64 \<Rightarrow> u64 \<Rightarrow> nat \<Rightarrow> clear_state \<Rightarrow> nat \<Rightarrow> clear_state \<Rightarrow> bool" where
  "clr_ok inner n r start_a end_a lo sa0 b sa \<longleftrightarrow> clr_prog n r start_a end_a lo sa0 b sa \<and>
     (if inner then \<forall>\<pi> q. table_at n r (fst sa) \<pi> q = table_at n r (fst sa0) \<pi> q
      else \<forall>\<pi> q. table_at n r (fst sa) \<pi> q \<and> reg \<pi> \<subseteq> {lo..<b} \<longrightarrow> length \<pi> < 3)"

text \<open>The walk ends early at a large page that sticks out of the range.\<close>

definition clr_fail :: "bool \<Rightarrow> nat \<Rightarrow> u64 \<Rightarrow> u64 \<Rightarrow> u64 \<Rightarrow> nat \<Rightarrow> clear_state \<Rightarrow> int \<Rightarrow> clear_state \<Rightarrow> bool" where
  "clr_fail inner n r start_a end_a lo sa0 err sa \<longleftrightarrow> \<not> inner \<and> err = - EINVAL \<and>
     (\<exists>b < unat end_a. clr_prog n r start_a end_a lo sa0 b sa \<and>
        (\<exists>L e. pte_at r (fst sa) b = Some (L, e) \<and> 2 \<le> L \<and> \<not> {v. v div psz (5 - L) = b div psz (5 - L)} \<subseteq> {unat start_a ..< unat end_a}))"

lemma clr_prog_range: "clr_prog n r start_a end_a lo sa0 b sa \<Longrightarrow> unat start_a < unat end_a \<and> unat end_a \<le> 2 ^ 48"
proof -
  assume "clr_prog n r start_a end_a lo sa0 b sa"
  then have p: "unat start_a < unat end_a" "unat end_a \<le> n * 2 ^ 39" "n \<le> 512" by (auto simp: clr_prog_def clr_pre_def pt_inv_def tree_def)
  have "n * 2 ^ 39 \<le> 512 * 2 ^ 39" using p(3) by (rule mult_le_mono1)
  with p show ?thesis by simp
qed

interpretation clr: range_walk fst n r start_a end_a True "clr_ok inner n r start_a end_a lo sa0" "clr_fail inner n r start_a end_a lo sa0"
  for inner n r start_a end_a lo sa0
  by unfold_locales (auto simp: clr_ok_def dest: clr_prog_range)

lemma clr_prog_pre: "clr_prog n r start_a end_a lo sa0 b sa \<Longrightarrow> clr_pre n r (unat start_a) (unat end_a) sa"
  using clr_pre_step [of n r "unat start_a" "unat end_a" sa0 lo b sa] by (auto simp: clr_prog_def)

lemma clr_prog_step:
  assumes "clr_prog n r start_a end_a lo sa0 b sa" "clr_eff n r sa b' c sa'" "lo \<le> b'" "b' \<le> b" "b \<le> c" "c \<le> unat end_a"
  shows "clr_prog n r start_a end_a lo sa0 c sa'"
proof -
  have "c \<le> n * 2 ^ 39" using assms(1,6) by (auto simp: clr_prog_def clr_pre_def)
  then show ?thesis using assms clr_eff_trans [of n r sa0 lo b sa b' c sa'] by (simp add: clr_prog_def)
qed

lemma clr_prog_start: "clr_pre n r (unat start_a) (unat end_a) sa \<Longrightarrow> unat start_a \<le> lo \<Longrightarrow> lo \<le> unat end_a \<Longrightarrow> clr_prog n r start_a end_a lo sa lo sa"
  by (auto simp: clr_prog_def intro: clr_eff_skip simp: clr_pre_def)

text \<open>An entry that is no table: the tables stay, and none lies in its region.\<close>

lemma clr_ok_leaf:
  assumes ok: "clr_ok inner n r start_a end_a lo sa0 b sa" and e: "clr_eff n r sa b c sa'" "b \<le> c" "c \<le> unat end_a"
    and tab: "\<forall>\<pi>' p. table_at n r (fst sa') \<pi>' p = table_at n r (fst sa) \<pi>' p"
    and no: "\<not> inner \<Longrightarrow> {b..<c} \<subseteq> reg \<pi>1 \<and> length \<pi>1 \<le> 3 \<and> (\<forall>p. \<not> table_at n r (fst sa) \<pi>1 p)"
  shows "clr_ok inner n r start_a end_a lo sa0 c sa'"
proof -
  have p: "clr_prog n r start_a end_a lo sa0 b sa" using ok by (simp add: clr_ok_def)
  have "length \<pi>' < 3" if inn: "\<not> inner" and t: "table_at n r (fst sa') \<pi>' q" and sub: "reg \<pi>' \<subseteq> {lo..<c}" for \<pi>' q
  proof (rule ccontr)
    assume "\<not> length \<pi>' < 3"
    then have l: "length \<pi>' = 3" using table_path [OF t] by simp
    have t': "table_at n r (fst sa) \<pi>' q" using t tab by simp
    then have "\<not> reg \<pi>' \<subseteq> {lo..<b}" using ok inn l by (auto simp: clr_ok_def)
    then obtain v where v: "v \<in> reg \<pi>'" "v \<notin> {lo..<b}" by blast
    then have "v \<in> {lo..<c}" using sub by blast
    then have v2: "v \<in> {b..<c}" using v(2) by auto
    then have "v \<in> reg \<pi>1" using no [OF inn] by blast
    then obtain rest where "\<pi>' = \<pi>1 @ rest" using reg_prefix [of v \<pi>1 \<pi>'] no [OF inn] l v(1) by auto
    then show False using table_prefix [of n r "fst sa" \<pi>1 rest q] t' no [OF inn] by auto
  qed
  with clr_prog_step [OF p e(1) _ _ e(2,3)] p ok tab show ?thesis by (auto simp: clr_ok_def clr_prog_def)
qed

lemma clear_nontable:
  assumes ok: "clr_ok inner n r start_a end_a lo sa0 (plo (unat start_a) (\<pi> @ [i])) sa"
    and q: "length \<pi> \<le> 3" "\<not> inner \<Longrightarrow> length \<pi> \<le> 2" "path_ok n (\<pi> @ [i])" "table_at n r (fst sa) \<pi> q" "ps_tab (fst sa) q = Some t"
    and e: "\<not> is_dir (4 - length \<pi>) (t i)" and m: "meets (unat start_a) (unat end_a) (\<pi> @ [i])"
  shows "t i = 0 \<Longrightarrow> clr_ok inner n r start_a end_a lo sa0 (phi (unat end_a) (\<pi> @ [i])) sa"
    and "t i \<noteq> 0 \<Longrightarrow> unat start_a \<le> pbase (\<pi> @ [i]) \<Longrightarrow> pbase (\<pi> @ [i]) + psz (length (\<pi> @ [i])) \<le> unat end_a \<Longrightarrow> pgsize = level_size (4 - length \<pi>) \<Longrightarrow>
      \<exists>sa'. clear_page_entry pgsize (q, i) (word_of_nat (pbase (\<pi> @ [i]))) sa = Some (0, sa') \<and>
        clr_ok inner n r start_a end_a lo sa0 (phi (unat end_a) (\<pi> @ [i])) sa' \<and>
        persist n r {plo (unat start_a) (\<pi> @ [i]) ..< phi (unat end_a) (\<pi> @ [i])} (fst sa) (fst sa')"
proof -
  let ?st = "unat start_a" and ?en = "unat end_a" and ?p = "\<pi> @ [i]"
  have p: "clr_prog n r start_a end_a lo sa0 (plo ?st ?p) sa" using ok by (simp add: clr_ok_def)
  have pre: "clr_pre n r ?st ?en sa" by (rule clr_prog_pre [OF p])
  have inv: "pt_inv n r (fst sa)" "?st < ?en" using pre by (simp_all add: clr_pre_def)
  have l4: "length ?p \<le> 4" using q(1) by simp
  note er = entry_range [OF m inv(2) q(3) l4]
  have "\<not> table_at n r (fst sa) ?p x" for x using table_entry(1) [OF _ q(4,5)] e by blast
  with q(2) er(3) have no: "\<not> inner \<Longrightarrow> {plo ?st ?p ..< phi ?en ?p} \<subseteq> reg ?p \<and> length ?p \<le> 3 \<and> (\<forall>x. \<not> table_at n r (fst sa) ?p x)" by simp
  have le: "plo ?st ?p \<le> phi ?en ?p" using er(2) by simp
  note leaf = clr_ok_leaf [OF ok _ le er(5) _ no]
  show "clr_ok inner n r start_a end_a lo sa0 (phi ?en ?p) sa" if "t i = 0"
  proof (rule leaf)
    have "pte_at r (fst sa) v = None" if "v \<in> reg ?p" for v using pte_at_entry [OF q(4,5,3) e that] \<open>t i = 0\<close> by simp
    then show "clr_eff n r sa (plo ?st ?p) (phi ?en ?p) sa" using er(3) by (intro clr_eff_skip [OF inv(1)]) auto
  qed simp_all
  show "\<exists>sa'. clear_page_entry pgsize (q, i) (word_of_nat (pbase ?p)) sa = Some (0, sa') \<and>
      clr_ok inner n r start_a end_a lo sa0 (phi ?en ?p) sa' \<and> persist n r {plo ?st ?p ..< phi ?en ?p} (fst sa) (fst sa')"
    if x: "t i \<noteq> 0" "?st \<le> pbase ?p" "pbase ?p + psz (length ?p) \<le> ?en" "pgsize = level_size (4 - length \<pi>)"
  proof -
    have eq: "plo ?st ?p = pbase ?p" "phi ?en ?p = pbase ?p + psz (length ?p)" using er(6,7) x by simp_all
    have sub: "reg ?p \<subseteq> {?st..<?en}" using path_region(1) [OF q(3) l4] x by auto
    from clear_leaf [OF pre q(4,5,3) e x(1) sub x(4) refl refl] obtain sa' where
      c: "clear_page_entry pgsize (q, i) (word_of_nat (pbase ?p)) sa = Some (0, sa')" "clr_eff n r sa (pbase ?p) (pbase ?p + psz (length ?p)) sa'"
        "\<forall>\<pi>' x. table_at n r (fst sa') \<pi>' x = table_at n r (fst sa) \<pi>' x" by blast
    with leaf [of sa'] pt_upd_persist [OF clr_eff_upd [OF c(2)]] eq show ?thesis by simp
  qed
qed

abbreviation clr_entry :: "bool \<Rightarrow> nat \<Rightarrow> u64 \<Rightarrow> u64 \<Rightarrow> u64 \<Rightarrow> nat \<Rightarrow> clear_state \<Rightarrow> nat \<Rightarrow> clear_state walk_fn \<Rightarrow> bool" where
  "clr_entry inner n r start_a end_a lo sa0 \<equiv>
     range_walk.entry_ok fst n r start_a end_a True (clr_ok inner n r start_a end_a lo sa0) (clr_fail inner n r start_a end_a lo sa0)"

lemma clr_entryI:
  assumes "\<And>\<pi> i q sa t. length \<pi> = k \<Longrightarrow> path_ok n (\<pi> @ [i]) \<Longrightarrow> table_at n r (fst sa) \<pi> q \<Longrightarrow> ps_tab (fst sa) q = Some t \<Longrightarrow>
      pt_read (q, i) (fst sa) = Some (t i) \<Longrightarrow> meets (unat start_a) (unat end_a) (\<pi> @ [i]) \<Longrightarrow> clr_pre n r (unat start_a) (unat end_a) sa \<Longrightarrow>
      clr_ok inner n r start_a end_a lo sa0 (plo (unat start_a) (\<pi> @ [i])) sa \<Longrightarrow>
      \<exists>err sa'. f (q, i) (word_of_nat (pbase (\<pi> @ [i]))) start_a end_a sa = Some (err, sa') \<and>
        ((err = 0 \<or> err = - ENOENT \<and> sa' = sa) \<and> clr_ok inner n r start_a end_a lo sa0 (phi (unat end_a) (\<pi> @ [i])) sa' \<and>
           persist n r {plo (unat start_a) (\<pi> @ [i]) ..< phi (unat end_a) (\<pi> @ [i])} (fst sa) (fst sa') \<or>
         clr_fail inner n r start_a end_a lo sa0 err sa')"
  shows "clr_entry inner n r start_a end_a lo sa0 k f"
  unfolding clr.entry_ok_def
proof (intro allI impI)
  fix \<pi> :: "nat list" and i q sa
  let ?p = "\<pi> @ [i]"
  assume l: "length \<pi> = k" and path: "path_ok n ?p" and q: "table_at n r (fst sa) \<pi> q" and m: "meets (unat start_a) (unat end_a) ?p"
    and ok: "clr_ok inner n r start_a end_a lo sa0 (plo (unat start_a) ?p) sa"
  have pre: "clr_pre n r (unat start_a) (unat end_a) sa" using ok by (auto simp: clr_ok_def intro: clr_prog_pre)
  obtain t where t: "ps_tab (fst sa) q = Some t" by (rule inv_table [OF _ q]) (use pre in \<open>simp_all add: clr_pre_def\<close>)
  have "i < 512" using path by (simp add: path_ok_snoc)
  then have rd: "pt_read (q, i) (fst sa) = Some (t i)" by (rule pt_write_sound(1) [OF t])
  have "err \<noteq> 0 \<and> err \<noteq> - ENOENT" if "clr_fail inner n r start_a end_a lo sa0 err sa'" for err sa' using that by (auto simp: clr_fail_def)
  with assms [OF l path q t rd m pre ok]
  show "range_walk.post fst n r True (clr_ok inner n r start_a end_a lo sa0) (clr_fail inner n r start_a end_a lo sa0) (plo (unat start_a) ?p) (phi (unat end_a) ?p) sa
      (f (q, i) (word_of_nat (pbase ?p)) start_a end_a sa)" unfolding clr.post_def by fastforce
qed

lemma clear_l1: "clr_entry True n r start_a end_a lo sa0 3 clear_range_l1"
proof (rule clr_entryI)
  fix \<pi> :: "nat list" and i q sa t
  let ?st = "unat start_a" and ?en = "unat end_a" and ?p = "\<pi> @ [i]"
  assume l: "length \<pi> = 3" and path: "path_ok n ?p" and q: "table_at n r (fst sa) \<pi> q" "ps_tab (fst sa) q = Some t" and rd: "pt_read (q, i) (fst sa) = Some (t i)"
    and m: "meets ?st ?en ?p" and pre: "clr_pre n r ?st ?en sa" and ok: "clr_ok True n r start_a end_a lo sa0 (plo ?st ?p) sa"
  have al: "4096 dvd ?st" "4096 dvd ?en" using pre by (simp_all add: clr_pre_def)
  have e: "\<not> is_dir (4 - length \<pi>) (t i)" and sz: "PTL1_SIZE = level_size (4 - length \<pi>)" using l by (simp_all add: is_dir_def level_size_def)
  have l4: "length ?p = 4" using l by simp
  note x = clear_nontable [OF ok _ _ path q e m] small_covered [OF m l4 al]
  show "\<exists>err sa'. clear_range_l1 (q, i) (word_of_nat (pbase ?p)) start_a end_a sa = Some (err, sa') \<and>
      ((err = 0 \<or> err = - ENOENT \<and> sa' = sa) \<and> clr_ok True n r start_a end_a lo sa0 (phi ?en ?p) sa' \<and>
         persist n r {plo ?st ?p ..< phi ?en ?p} (fst sa) (fst sa') \<or> clr_fail True n r start_a end_a lo sa0 err sa')"
    using x(1) x(2) [OF _ _ _ x(3,4) sz] l rd
    by (cases "t i = 0") (auto simp: clear_range_l1_def PTE_NULL_def)
qed

lemma clear_straddle:
  assumes ok: "clr_ok False n r start_a end_a lo sa0 (plo (unat start_a) (\<pi> @ [i])) sa"
    and q: "length \<pi> \<le> 2" "path_ok n (\<pi> @ [i])" "table_at n r (fst sa) \<pi> q" "ps_tab (fst sa) q = Some t"
    and e: "\<not> is_dir (4 - length \<pi>) (t i)" "t i \<noteq> 0" and m: "meets (unat start_a) (unat end_a) (\<pi> @ [i])"
    and out: "pbase (\<pi> @ [i]) < unat start_a \<or> unat end_a < pbase (\<pi> @ [i]) + psz (length (\<pi> @ [i]))"
  shows "clr_fail False n r start_a end_a lo sa0 (- EINVAL) sa"
proof -
  have p: "clr_prog n r start_a end_a lo sa0 (plo (unat start_a) (\<pi> @ [i])) sa" using ok by (simp add: clr_ok_def)
  then have "unat start_a < unat end_a" using clr_prog_range by blast
  from straddle [OF m this q(2,1) out q(3,4) e] p show ?thesis unfolding clr_fail_def by blast
qed

text \<open>Below a table of small pages.\<close>

lemma clear_small_table:
  assumes ok: "clr_ok False n r start_a end_a lo sa0 (plo (unat start_a) (\<pi> @ [i])) sa"
    and q: "length \<pi> = 2" "path_ok n (\<pi> @ [i])" "table_at n r (fst sa) \<pi> q" "table_at n r (fst sa) (\<pi> @ [i]) q1"
    and m: "meets (unat start_a) (unat end_a) (\<pi> @ [i])"
  shows "\<exists>err sa1. walk_pte_l1 q1 (word_of_nat (pbase (\<pi> @ [i]))) start_a end_a clear_range_l1 sa = Some (err, sa1) \<and> (err = 0 \<or> err = - ENOENT) \<and>
    clr_prog n r start_a end_a lo sa0 (phi (unat end_a) (\<pi> @ [i])) sa1 \<and> clr_eff n r sa (plo (unat start_a) (\<pi> @ [i])) (phi (unat end_a) (\<pi> @ [i])) sa1 \<and>
    (\<forall>\<pi>' p. table_at n r (fst sa1) \<pi>' p = table_at n r (fst sa) \<pi>' p)"
proof -
  let ?st = "unat start_a" and ?en = "unat end_a" and ?p = "\<pi> @ [i]"
  have p: "clr_prog n r start_a end_a lo sa0 (plo ?st ?p) sa" using ok by (simp add: clr_ok_def)
  have l: "length ?p \<le> 4" "length ?p = 3" using q(1) by simp_all
  have rg: "?st < ?en" using clr_prog_range [OF p] by simp
  note er = entry_range [OF m rg q(2) l(1)]
  have "clr_ok True n r start_a end_a (plo ?st ?p) sa (plo ?st ?p) sa"
    using clr_prog_start [OF clr_prog_pre [OF p] er(4)] er(2,5) by (simp add: clr_ok_def)
  from clr.walk_l1 [OF clear_l1 l(2) q(4) m this] obtain err sa1 where
    w: "walk_pte_l1 q1 (word_of_nat (pbase ?p)) start_a end_a clear_range_l1 sa = Some (err, sa1)" "err = 0 \<or> err = - ENOENT"
      "clr_ok True n r start_a end_a (plo ?st ?p) sa (phi ?en ?p) sa1"
    unfolding clr.post_at_def clr_fail_def by auto
  have e: "clr_eff n r sa (plo ?st ?p) (phi ?en ?p) sa1" "\<forall>\<pi>' x. table_at n r (fst sa1) \<pi>' x = table_at n r (fst sa) \<pi>' x"
    using w(3) by (simp_all add: clr_ok_def clr_prog_def)
  have "lo \<le> plo ?st ?p" using p by (simp add: clr_prog_def)
  then have "clr_prog n r start_a end_a lo sa0 (phi ?en ?p) sa1" by (rule clr_prog_step [OF p e(1)]) (use er(2,5) in simp_all)
  with w(1,2) e show ?thesis by blast
qed

text \<open>No table of small pages is left in the range, if the one at hand is gone.\<close>

lemma small_tables_gone:
  assumes ok: "clr_ok False n r start_a end_a lo sa0 b sa" and b: "b = plo (unat start_a) \<pi>" "length \<pi> = 3" "path_ok n \<pi>" "meets (unat start_a) (unat end_a) \<pi>"
    and p: "clr_prog n r start_a end_a lo sa0 (phi (unat end_a) \<pi>) sa'"
    and sub: "\<And>\<pi>' x. table_at n r (fst sa') \<pi>' x \<Longrightarrow> table_at n r (fst sa) \<pi>' x"
    and gone: "\<And>x. unat start_a \<le> pbase \<pi> \<Longrightarrow> pbase \<pi> + psz (length \<pi>) \<le> unat end_a \<Longrightarrow> \<not> table_at n r (fst sa') \<pi> x"
  shows "clr_ok False n r start_a end_a lo sa0 (phi (unat end_a) \<pi>) sa'"
proof -
  let ?st = "unat start_a" and ?en = "unat end_a"
  have l: "length \<pi> \<le> 4" using b(2) by simp
  have rg: "?st < ?en" using clr_prog_range [OF p] by simp
  note er = entry_range [OF b(4) rg b(3) l]
  have lo: "?st \<le> lo" "lo \<le> b" using ok by (simp_all add: clr_ok_def clr_prog_def)
  have "length \<pi>' < 3" if t: "table_at n r (fst sa') \<pi>' x" and s: "reg \<pi>' \<subseteq> {lo..<phi ?en \<pi>}" for \<pi>' x
  proof (rule ccontr)
    assume "\<not> length \<pi>' < 3"
    then have l3: "length \<pi>' = 3" using table_path [OF t] by simp
    then have "\<not> reg \<pi>' \<subseteq> {lo..<b}" using ok sub [OF t] by (auto simp: clr_ok_def)
    then obtain v where v: "v \<in> reg \<pi>'" "v \<notin> {lo..<b}" by blast
    then have "v \<in> {lo..<phi ?en \<pi>}" using s by blast
    then have "v \<in> reg \<pi>" using v(2) er(3) b(1) by auto
    then have eq: "\<pi>' = \<pi>" using reg_prefix [OF _ v(1), of \<pi>] l3 b(2) by auto
    then have "{pbase \<pi> ..< pbase \<pi> + psz (length \<pi>)} \<subseteq> {lo..<phi ?en \<pi>}" using s path_region(1) [OF b(3) l] by simp
    then have "lo \<le> pbase \<pi>" "pbase \<pi> + psz (length \<pi>) \<le> phi ?en \<pi>"
      using psz_pos [of "length \<pi>"] by (auto dest!: atLeastLessThan_subset_iff)
    then show False using gone [of x] t eq lo er(5) by simp
  qed
  with p show ?thesis by (auto simp: clr_ok_def)
qed

text \<open>The table below an entry whose addresses are all cleared is given back.\<close>

lemma clear_drop_table:
  assumes p: "clr_prog n r start_a end_a lo sa0 (phi (unat end_a) (\<pi> @ [i])) sa"
    and q: "length \<pi> \<le> 2" "path_ok n (\<pi> @ [i])" "table_at n r (fst sa) \<pi> q" "table_at n r (fst sa) (\<pi> @ [i]) q1"
    and cov: "lo \<le> pbase (\<pi> @ [i])" "pbase (\<pi> @ [i]) + psz (length (\<pi> @ [i])) \<le> unat end_a"
    and empty: "\<forall>t1 j. ps_tab (fst sa) q1 = Some t1 \<and> j < 512 \<longrightarrow> \<not> is_dir (3 - length \<pi>) (t1 j)"
  shows "\<exists>sa'. clear_table_entry (q, i) base q1 sa = Some (0, sa') \<and> clr_prog n r start_a end_a lo sa0 (phi (unat end_a) (\<pi> @ [i])) sa' \<and>
    pt_upd n r (reg (\<pi> @ [i])) (fst sa) (fst sa') \<and>
    (\<forall>\<pi>' x. table_at n r (fst sa') \<pi>' x \<longleftrightarrow> table_at n r (fst sa) \<pi>' x \<and> \<pi>' \<noteq> \<pi> @ [i])"
proof -
  let ?p = "\<pi> @ [i]"
  let ?b = "pbase ?p" and ?c = "pbase ?p + psz (length ?p)"
  have pre: "clr_pre n r (unat start_a) (unat end_a) sa" by (rule clr_prog_pre [OF p])
  then have inv: "pt_inv n r (fst sa)" by (simp add: clr_pre_def)
  have l4: "length ?p \<le> 4" using q(1) by simp
  have hi: "phi (unat end_a) ?p = ?c" using cov(2) by (simp add: phi_def)
  obtain t where t: "ps_tab (fst sa) q = Some t" using inv_table [OF inv q(3)] .
  obtain t1 where t1: "ps_tab (fst sa) q1 = Some t1" using inv_table [OF inv q(4)] .
  note d = table_entry [OF q(4,3) t]
  have none: "\<forall>v \<in> {?b..<?c}. pte_at r (fst sa) v = None" using p cov(1) by (auto simp: clr_prog_def hi clr_eff_def)
  have "t1 j = 0" if j: "j < 512" for j
  proof -
    have ok: "path_ok n (?p @ [j])" unfolding path_ok_snoc [of n ?p j] using q(2) j by simp
    have "length (?p @ [j]) \<le> 4" using q(1) by simp
    from path_region(1) [OF ok this] have "pbase (?p @ [j]) \<in> reg (?p @ [j])" by simp
    moreover from this have "pte_at r (fst sa) (pbase (?p @ [j])) = None"
      using none reg_snoc_sub [of ?p j] path_region(1) [OF q(2) l4] by blast
    moreover have "\<not> is_dir (4 - length ?p) (t1 j)" using empty t1 j by simp
    ultimately show ?thesis using pte_at_entry [OF q(4) t1 ok, of "pbase (?p @ [j])"] by (auto split: if_splits)
  qed
  then have z: "\<forall>j < 512. t1 j = 0" by blast
  from clear_table [OF pre q(3) t q(2) d t1 z none refl refl] obtain sa' where
    c: "clear_table_entry (q, i) base q1 sa = Some (0, sa')" "clr_eff n r sa ?b ?c sa'"
      "\<forall>\<pi>' x. table_at n r (fst sa') \<pi>' x \<longleftrightarrow> table_at n r (fst sa) \<pi>' x \<and> \<pi>' \<noteq> ?p" by blast
  have "clr_prog n r start_a end_a lo sa0 ?c sa'" by (rule clr_prog_step [OF p c(2)]) (use cov hi in simp_all)
  with c clr_eff_upd [OF c(2)] hi path_region(1) [OF q(2) l4] show ?thesis by auto
qed

text \<open>An entry of the upper levels that is no table.\<close>

lemma clear_large_entry:
  assumes ok: "clr_ok False n r start_a end_a lo sa0 (plo (unat start_a) (\<pi> @ [i])) sa"
    and q: "length \<pi> \<le> 2" "path_ok n (\<pi> @ [i])" "table_at n r (fst sa) \<pi> q" "ps_tab (fst sa) q = Some t"
    and e: "\<not> is_dir (4 - length \<pi>) (t i)" and m: "meets (unat start_a) (unat end_a) (\<pi> @ [i])"
    and sz: "pgsize = level_size (4 - length \<pi>)" "unat pgsize = psz (length (\<pi> @ [i]))"
  shows "\<exists>err sa'. (if t i = 0 then Some (- ENOENT, sa)
      else if word_of_nat (pbase (\<pi> @ [i])) < start_a \<or> end_a < word_of_nat (pbase (\<pi> @ [i])) + pgsize then Some (- EINVAL, sa)
      else clear_page_entry pgsize (q, i) (word_of_nat (pbase (\<pi> @ [i]))) sa) = Some (err, sa') \<and>
    ((err = 0 \<or> err = - ENOENT \<and> sa' = sa) \<and> clr_ok False n r start_a end_a lo sa0 (phi (unat end_a) (\<pi> @ [i])) sa' \<and>
       persist n r {plo (unat start_a) (\<pi> @ [i]) ..< phi (unat end_a) (\<pi> @ [i])} (fst sa) (fst sa') \<or>
     clr_fail False n r start_a end_a lo sa0 err sa')"
proof -
  let ?st = "unat start_a" and ?en = "unat end_a" and ?p = "\<pi> @ [i]"
  have l: "length \<pi> \<le> 3" "length ?p \<le> 4" using q(1) by simp_all
  note cmp = base_cmp [OF q(2) l(2) sz(2)]
  note nt = clear_nontable [OF ok l(1) q(1) q(2-4) e m]
  consider "t i = 0" | "t i \<noteq> 0" "pbase ?p < ?st \<or> ?en < pbase ?p + psz (length ?p)" | "t i \<noteq> 0" "?st \<le> pbase ?p" "pbase ?p + psz (length ?p) \<le> ?en"
    by linarith
  then show ?thesis
  proof cases
    case 1
    with nt(1) show ?thesis by simp
  next
    case 2
    with clear_straddle [OF ok q(1-4) e _ m] show ?thesis by (auto simp: cmp)
  next
    case 3
    with nt(2) [OF 3 sz(1)] show ?thesis by (auto simp: cmp)
  qed
qed

lemma clear_l2: "clr_entry False n r start_a end_a lo sa0 2 clear_range_l2"
proof (rule clr_entryI)
  fix \<pi> :: "nat list" and i q sa t
  let ?st = "unat start_a" and ?en = "unat end_a" and ?p = "\<pi> @ [i]"
  assume l: "length \<pi> = 2" and path: "path_ok n ?p" and q: "table_at n r (fst sa) \<pi> q" "ps_tab (fst sa) q = Some t" and rd: "pt_read (q, i) (fst sa) = Some (t i)"
    and m: "meets ?st ?en ?p" and pre: "clr_pre n r ?st ?en sa" and ok: "clr_ok False n r start_a end_a lo sa0 (plo ?st ?p) sa"
  let ?post = "\<lambda>err sa'. (err = 0 \<or> err = - ENOENT \<and> sa' = sa) \<and> clr_ok False n r start_a end_a lo sa0 (phi ?en ?p) sa' \<and>
    persist n r {plo ?st ?p ..< phi ?en ?p} (fst sa) (fst sa') \<or> clr_fail False n r start_a end_a lo sa0 err sa'"
  have l2: "length \<pi> \<le> 2" "length \<pi> \<le> 3" "length ?p = 3" "length ?p \<le> 4" using l by simp_all
  have sz: "PTL2_SIZE = level_size (4 - length \<pi>)" "unat PTL2_SIZE = psz (length ?p)" using l by (simp_all add: level_size_def level_consts psz_def)
  note cmp = base_cmp [OF path l2(4) sz(2)]
  have rg: "?st < ?en" using pre by (simp add: clr_pre_def)
  note er = entry_range [OF m rg path l2(4)]
  have dir: "is_dir (4 - length \<pi>) (t i) \<longleftrightarrow> t i \<noteq> 0 \<and> t i AND PF_SIZE = 0" using l by (auto simp: is_dir_def)
  show "\<exists>err sa'. clear_range_l2 (q, i) (word_of_nat (pbase ?p)) start_a end_a sa = Some (err, sa') \<and> ?post err sa'"
  proof (cases "is_dir (4 - length \<pi>) (t i)")
    case False
    have "clear_range_l2 (q, i) (word_of_nat (pbase ?p)) start_a end_a sa =
        (if t i = 0 then Some (- ENOENT, sa) else if word_of_nat (pbase ?p) < start_a \<or> end_a < word_of_nat (pbase ?p) + PTL2_SIZE then Some (- EINVAL, sa)
         else clear_page_entry PTL2_SIZE (q, i) (word_of_nat (pbase ?p)) sa)"
      using False rd dir by (auto simp: clear_range_l2_def PTE_NULL_def)
    with clear_large_entry [OF ok l2(1) path q False m sz] show ?thesis by simp
  next
    case True
    let ?q1 = "pt_phys_to_virt (fst sa) (t i AND PT_PHYSMASK)"
    have t1: "table_at n r (fst sa) ?p ?q1" by (rule table_child [OF q path True])
    from clear_small_table [OF ok l path q(1) t1 m] obtain err sa1 where
      w: "walk_pte_l1 ?q1 (word_of_nat (pbase ?p)) start_a end_a clear_range_l1 sa = Some (err, sa1)" "err = 0 \<or> err = - ENOENT"
        "clr_prog n r start_a end_a lo sa0 (phi ?en ?p) sa1" "clr_eff n r sa (plo ?st ?p) (phi ?en ?p) sa1"
        "\<forall>\<pi>' x. table_at n r (fst sa1) \<pi>' x = table_at n r (fst sa) \<pi>' x" by blast
    note per = pt_upd_persist [OF clr_eff_upd [OF w(4)]]
    note gone = small_tables_gone [OF ok refl l2(3) path m]
    have lo: "lo \<le> plo ?st ?p" using ok by (simp add: clr_ok_def clr_prog_def)
    show ?thesis
    proof (cases "?st \<le> pbase ?p \<and> pbase ?p + psz (length ?p) \<le> ?en")
      case cov: True
      have "\<not> is_dir (3 - length \<pi>) x" for x using l by (simp add: is_dir_def)
      with clear_drop_table [OF w(3) l2(1) path, of q ?q1 "word_of_nat (pbase ?p)"] q(1) t1 w(5) cov lo er(6) obtain sa' where
        c: "clear_table_entry (q, i) (word_of_nat (pbase ?p)) ?q1 sa1 = Some (0, sa')" "clr_prog n r start_a end_a lo sa0 (phi ?en ?p) sa'"
          "pt_upd n r (reg ?p) (fst sa1) (fst sa')" "\<forall>\<pi>' x. table_at n r (fst sa') \<pi>' x \<longleftrightarrow> table_at n r (fst sa1) \<pi>' x \<and> \<pi>' \<noteq> ?p" by auto
      have "reg ?p = {plo ?st ?p ..< phi ?en ?p}" using path_region(1) [OF path l2(4)] er(6,7) cov by simp
      then have "persist n r {plo ?st ?p ..< phi ?en ?p} (fst sa) (fst sa')" using persist_trans [OF per pt_upd_persist [OF c(3)]] by simp
      moreover have "clr_ok False n r start_a end_a lo sa0 (phi ?en ?p) sa'" by (rule gone [OF c(2)]) (use c(4) w(5) in auto)
      moreover have "clear_range_l2 (q, i) (word_of_nat (pbase ?p)) start_a end_a sa = Some (0, sa')"
        using rd True dir w(1,2) cov c(1) by (auto simp: clear_range_l2_def PTE_NULL_def cmp)
      ultimately show ?thesis by blast
    next
      case out: False
      have "clr_ok False n r start_a end_a lo sa0 (phi ?en ?p) sa1" by (rule gone [OF w(3)]) (use w(5) out in auto)
      moreover have "clear_range_l2 (q, i) (word_of_nat (pbase ?p)) start_a end_a sa = Some (0, sa1)"
        using rd True dir w(1,2) out by (auto simp: clear_range_l2_def PTE_NULL_def cmp)
      ultimately show ?thesis using per by blast
    qed
  qed
qed

lemma clear_l3: "clr_entry False n r start_a end_a lo sa0 1 clear_range_l3"
proof (rule clr_entryI)
  fix \<pi> :: "nat list" and i q sa t
  let ?st = "unat start_a" and ?en = "unat end_a" and ?p = "\<pi> @ [i]"
  assume l: "length \<pi> = 1" and path: "path_ok n ?p" and q: "table_at n r (fst sa) \<pi> q" "ps_tab (fst sa) q = Some t" and rd: "pt_read (q, i) (fst sa) = Some (t i)"
    and m: "meets ?st ?en ?p" and pre: "clr_pre n r ?st ?en sa" and ok: "clr_ok False n r start_a end_a lo sa0 (plo ?st ?p) sa"
  let ?post = "\<lambda>err sa'. (err = 0 \<or> err = - ENOENT \<and> sa' = sa) \<and> clr_ok False n r start_a end_a lo sa0 (phi ?en ?p) sa' \<and>
    persist n r {plo ?st ?p ..< phi ?en ?p} (fst sa) (fst sa') \<or> clr_fail False n r start_a end_a lo sa0 err sa'"
  have l2: "length \<pi> \<le> 2" "length ?p = 2" "length ?p \<le> 4" "length \<pi> < 4" using l by simp_all
  have sz: "PTL3_SIZE = level_size (4 - length \<pi>)" "unat PTL3_SIZE = psz (length ?p)" using l by (simp_all add: level_size_def level_consts psz_def)
  note cmp = base_cmp [OF path l2(3) sz(2)]
  have rg: "?st < ?en" using pre by (simp add: clr_pre_def)
  note er = entry_range [OF m rg path l2(3)]
  have dir: "is_dir (4 - length \<pi>) (t i) \<longleftrightarrow> t i \<noteq> 0 \<and> t i AND PF_SIZE = 0" using l by (auto simp: is_dir_def)
  show "\<exists>err sa'. clear_range_l3 (q, i) (word_of_nat (pbase ?p)) start_a end_a sa = Some (err, sa') \<and> ?post err sa'"
  proof (cases "is_dir (4 - length \<pi>) (t i)")
    case False
    have "clear_range_l3 (q, i) (word_of_nat (pbase ?p)) start_a end_a sa =
        (if t i = 0 then Some (- ENOENT, sa) else if word_of_nat (pbase ?p) < start_a \<or> end_a < word_of_nat (pbase ?p) + PTL3_SIZE then Some (- EINVAL, sa)
         else clear_page_entry PTL3_SIZE (q, i) (word_of_nat (pbase ?p)) sa)"
      using False rd dir by (auto simp: clear_range_l3_def PTE_NULL_def)
    with clear_large_entry [OF ok l2(1) path q False m sz] show ?thesis by simp
  next
    case True
    let ?q1 = "pt_phys_to_virt (fst sa) (t i AND PT_PHYSMASK)"
    have t1: "table_at n r (fst sa) ?p ?q1" by (rule table_child [OF q path True])
    from clr.walk_l2 [OF clear_l2 l2(2) t1 m ok] obtain err sa1 where
      w: "walk_pte_l2 ?q1 (word_of_nat (pbase ?p)) start_a end_a clear_range_l2 sa = Some (err, sa1)"
        "(err = 0 \<or> err = - ENOENT \<and> sa1 = sa) \<and> clr_ok False n r start_a end_a lo sa0 (phi ?en ?p) sa1 \<and>
           persist n r {plo ?st ?p ..< phi ?en ?p} (fst sa) (fst sa1) \<and> table_at n r (fst sa1) ?p ?q1 \<or>
         err \<noteq> 0 \<and> err \<noteq> - ENOENT \<and> clr_fail False n r start_a end_a lo sa0 err sa1" unfolding clr.post_at_def by blast
    consider "err \<noteq> 0" "err \<noteq> - ENOENT" "clr_fail False n r start_a end_a lo sa0 err sa1" | "err = 0 \<or> err = - ENOENT"
      "clr_ok False n r start_a end_a lo sa0 (phi ?en ?p) sa1" "persist n r {plo ?st ?p ..< phi ?en ?p} (fst sa) (fst sa1)" "table_at n r (fst sa1) ?p ?q1"
      using w(2) by blast
    then show ?thesis
    proof cases
      case 1
      have "clear_range_l3 (q, i) (word_of_nat (pbase ?p)) start_a end_a sa = Some (err, sa1)"
        using rd True dir w(1) 1(1,2) by (auto simp: clear_range_l3_def PTE_NULL_def)
      with 1(3) show ?thesis by blast
    next
      case 2
      have p1: "clr_prog n r start_a end_a lo sa0 (phi ?en ?p) sa1" using 2(2) by (simp add: clr_ok_def)
      show ?thesis
      proof (cases "ps_use_1gb_page (fst sa1) \<and> ?st \<le> pbase ?p \<and> pbase ?p + psz (length ?p) \<le> ?en")
        case cov: True
        have whole: "reg ?p = {plo ?st ?p ..< phi ?en ?p}" using path_region(1) [OF path l2(3)] er(6,7) cov by simp
        have tq: "table_at n r (fst sa1) \<pi> q" using 2(3) q(1) reg_not_sub [OF l2(4) path] unfolding persist_def whole by blast
        have lo: "lo \<le> pbase ?p" using ok er(6) cov by (simp add: clr_ok_def clr_prog_def)
        have empty: "\<not> is_dir (3 - length \<pi>) (t1 j)" if "ps_tab (fst sa1) ?q1 = Some t1" "j < 512" for t1 j
        proof
          assume d: "is_dir (3 - length \<pi>) (t1 j)"
          have okj: "path_ok n (?p @ [j])" unfolding path_ok_snoc [of n ?p j] using path that(2) by simp
          have "is_dir (4 - length ?p) (t1 j)" using d by simp
          from table_child [OF 2(4) that(1) okj this] obtain x where x: "table_at n r (fst sa1) (?p @ [j]) x" by blast
          have "reg (?p @ [j]) \<subseteq> {lo ..< phi ?en ?p}" using reg_snoc_sub [of ?p j] lo er(6) cov whole by auto
          with x 2(2) have "length (?p @ [j]) < 3" unfolding clr_ok_def by auto
          then show False using l by simp
        qed
        have c1: "pbase ?p + psz (length ?p) \<le> ?en" using cov by simp
        from clear_drop_table [OF p1 l2(1) path tq 2(4) lo c1] empty obtain sa' where
          c: "clear_table_entry (q, i) (word_of_nat (pbase ?p)) ?q1 sa1 = Some (0, sa')" "clr_prog n r start_a end_a lo sa0 (phi ?en ?p) sa'"
            "pt_upd n r (reg ?p) (fst sa1) (fst sa')" "\<forall>\<pi>' x. table_at n r (fst sa') \<pi>' x \<longleftrightarrow> table_at n r (fst sa1) \<pi>' x \<and> \<pi>' \<noteq> ?p" by blast
        have "persist n r {plo ?st ?p ..< phi ?en ?p} (fst sa) (fst sa')"
          using persist_trans [OF 2(3) pt_upd_persist [OF c(3)]] whole by simp
        moreover have "clr_ok False n r start_a end_a lo sa0 (phi ?en ?p) sa'" using 2(2) c(2,4) by (auto simp: clr_ok_def)
        moreover have "clear_range_l3 (q, i) (word_of_nat (pbase ?p)) start_a end_a sa = Some (0, sa')"
          using rd True dir w(1) 2(1) cov c(1) by (auto simp: clear_range_l3_def PTE_NULL_def cmp)
        ultimately show ?thesis by blast
      next
        case out: False
        have "clear_range_l3 (q, i) (word_of_nat (pbase ?p)) start_a end_a sa = Some (0, sa1)"
          using rd True dir w(1) 2(1) out by (auto simp: clear_range_l3_def PTE_NULL_def cmp)
        with 2(2,3) show ?thesis by blast
      qed
    qed
  qed
qed

lemma clear_l4: "clr_entry False n r start_a end_a lo sa0 0 clear_range_l4"
proof (rule clr_entryI)
  fix \<pi> :: "nat list" and i q sa t
  let ?st = "unat start_a" and ?en = "unat end_a" and ?p = "\<pi> @ [i]"
  assume l: "length \<pi> = 0" and path: "path_ok n ?p" and q: "table_at n r (fst sa) \<pi> q" "ps_tab (fst sa) q = Some t" and rd: "pt_read (q, i) (fst sa) = Some (t i)"
    and m: "meets ?st ?en ?p" and ok: "clr_ok False n r start_a end_a lo sa0 (plo ?st ?p) sa"
  have l2: "length \<pi> \<le> 2" "length \<pi> \<le> 3" "length ?p = 1" using l by simp_all
  have dir: "is_dir (4 - length \<pi>) (t i) \<longleftrightarrow> t i \<noteq> 0" using l by (auto simp: is_dir_def)
  show "\<exists>err sa'. clear_range_l4 (q, i) (word_of_nat (pbase ?p)) start_a end_a sa = Some (err, sa') \<and>
      ((err = 0 \<or> err = - ENOENT \<and> sa' = sa) \<and> clr_ok False n r start_a end_a lo sa0 (phi ?en ?p) sa' \<and>
         persist n r {plo ?st ?p ..< phi ?en ?p} (fst sa) (fst sa') \<or> clr_fail False n r start_a end_a lo sa0 err sa')"
  proof (cases "t i = 0")
    case True
    with clear_nontable(1) [OF ok l2(2,1) path q _ m] rd dir show ?thesis by (simp add: clear_range_l4_def PTE_NULL_def)
  next
    case False
    have t1: "table_at n r (fst sa) ?p (pt_phys_to_virt (fst sa) (t i AND PT_PHYSMASK))" by (rule table_child [OF q path]) (use dir False in simp)
    from clr.walk_l3 [OF clear_l3 l2(3) t1 m ok] rd False show ?thesis unfolding clr.post_at_def by (auto simp: clear_range_l4_def PTE_NULL_def)
  qed
qed

subsection \<open>The whole operation\<close>

definition cleared :: "nat \<Rightarrow> u64 \<Rightarrow> bool \<Rightarrow> nat \<Rightarrow> nat \<Rightarrow> pt_sys \<Rightarrow> pt_sys \<Rightarrow> bool" where
  "cleared n r free a b s s' \<longleftrightarrow> pt_inv n r s' \<and> same_ctx s s' \<and>
     (\<forall>v < n * 2 ^ 39. pte_at r s' v = (if v \<in> {a..<b} then None else pte_at r s v)) \<and>
     others_same n r s s' \<and>
     pt_total s' = pt_total s \<union> (if free then freed r s a b else {}) \<and>
     (\<forall>v \<in> {a..<b}. \<forall>L e. pte_at r s v = Some (L, e) \<longrightarrow> page_base L v \<in> sent s')"

lemma same_tabs:
  assumes "same_ctx s s'" "ps_tab s' = ps_tab s"
  shows "pte_at r s' = pte_at r s" "table_at n r s' = table_at n r s"
  using assms by (auto simp: pte_at_def table_at_def same_ctx_def intro!: ext)

lemma anon_sub:
  assumes "anon r st en s" "same_ctx s s'" "ps_tab s' = ps_tab s" "pt_total s' \<subseteq> pt_total s"
  shows "anon r st en s'"
proof -
  have pte: "pte_at r s' = pte_at r s" by (rule same_tabs [OF assms(2,3)])
  have "lent k pa s'" if "lent k pa s" for k pa by (rule lent_ctx [OF that assms(2)]) (use that assms(4) in \<open>auto simp: lent_def\<close>)
  then show ?thesis using assms(1) unfolding anon_def frame_of_def pte by blast
qed

lemma freed_disjoint: "anon r st en s \<Longrightarrow> {a..<b} \<subseteq> {st..<en} \<Longrightarrow> freed r s a b \<inter> pt_total s = {}"
proof -
  assume an: "anon r st en s" and sub: "{a..<b} \<subseteq> {st..<en}"
  have "frame_of r s v \<inter> pt_total s = {}" if "v \<in> {st..<en}" for v
    using an that unfolding anon_def frame_of_def leaf_frame_def by (auto simp: lent_def split: option.splits if_splits)
  then show ?thesis using sub unfolding freed_def by blast
qed

text \<open>The array of addresses is borrowed during the walk and given back after it.\<close>

lemma clear_finish:
  assumes e: "clr_eff n r sa a b sa1" and ab: "{a..<b} \<subseteq> {st..<en}"
    and s1: "pt_mem s" "same_ctx s (fst sa)" "ps_tab (fst sa) = ps_tab s" "pt_inv n r s"
    and fr: "cr_free_physical (snd sa) \<Longrightarrow> anon r st en s"
    and pa: "lent 4 pa (fst sa)" "pt_total s = pt_total (fst sa) \<union> page_range pa 4"
    and s2: "s2 = (if cr_addr (snd sa1) \<noteq> [] then pt_event (Flush_Array (cr_addr (snd sa1))) (fst sa1) else fst sa1)"
  shows "\<exists>s3. pt_free_pages (pt_phys_to_virt (fst sa) pa) 4 False s2 = Some s3 \<and> cleared n r (cr_free_physical (snd sa)) a b s s3"
proof -
  note u = clr_eff_upd [OF e]
  have q2: "pt_quiet (fst sa1) s2" "sent s2 = flushed sa1"
    using pt_event_quiet s2 by (auto simp: flushed_def sent_def pt_event_def)
  have pte: "pte_at r (fst sa) = pte_at r s" and tab: "table_at n r (fst sa) = table_at n r s"
    by (rule same_tabs [OF s1(2,3)])+
  have fd: "freed r (fst sa) a b = freed r s a b" by (simp add: freed_def frame_of_def pte)
  have m1: "pt_mem (fst sa1)" using pt_upd_inv [OF u] by (simp add: pt_inv_def)
  have m2: "pt_mem s2" "same_ctx (fst sa) s2" "ps_tab s2 = ps_tab (fst sa1)" "pt_total s2 = pt_total (fst sa1)"
    using q2(1) m1 same_ctx_trans [OF pt_upd_ctx [OF u]] by (auto simp: pt_quiet_def)
  have "freed r s a b \<inter> pt_total s = {}" if "cr_free_physical (snd sa)" using freed_disjoint [OF fr [OF that] ab] .
  then have dis: "page_range pa 4 \<inter> pt_total s2 = {}" using pa unfolding m2(4) clr_eff_total [OF e] fd by (auto simp: lent_def)
  have l2: "lent 4 pa s2" by (rule lent_ctx [OF pa(1) m2(2) dis])
  from pt_free_sound [OF m2(1) l2, of False] obtain s3 where
    f: "pt_free_pages (pt_phys_to_virt s2 pa) 4 False s2 = Some s3" "pt_mem s3" "same_ctx s2 s3" "ps_tab s3 = ps_tab s2"
      "ps_events s3 = ps_events s2" "pt_total s3 = pt_total s2 \<union> page_range pa 4" by blast
  have v: "pt_phys_to_virt s2 pa = pt_phys_to_virt (fst sa) pa" using m2(2) by (simp add: pt_phys_to_virt_def same_ctx_def)
  have c13: "same_ctx (fst sa1) s3" using q2(1) same_ctx_trans [OF _ f(3)] by (auto simp: pt_quiet_def)
  have t13: "ps_tab s3 = ps_tab (fst sa1)" using f(4) m2(3) by simp
  note fr3 = pt_upd_frame(2) [OF pt_upd_inv [OF u] f(2) c13 t13]
  have "cleared n r (cr_free_physical (snd sa)) a b s s3" unfolding cleared_def
  proof (intro conjI)
    show "pt_inv n r s3" using pt_upd_quiet [OF u f(2) c13 t13] by (rule pt_upd_inv)
    show "same_ctx s s3" using same_ctx_trans [OF s1(2) same_ctx_trans [OF pt_upd_ctx [OF u] c13]] .
    show "\<forall>v < n * 2 ^ 39. pte_at r s3 v = (if v \<in> {a..<b} then None else pte_at r s v)"
      using clr_eff_none [OF e] pt_upd_pte [OF u] fr3 pte by simp
    show "others_same n r s s3" using pt_upd_other [OF u] unfolding others_same_def same_tabs(2) [OF c13 t13] t13 s1(3) tab by blast
    show "pt_total s3 = pt_total s \<union> (if cr_free_physical (snd sa) then freed r s a b else {})"
      using f(6) m2(4) clr_eff_total [OF e] fd pa(2) by auto
    show "\<forall>v \<in> {a..<b}. \<forall>L x. pte_at r s v = Some (L, x) \<longrightarrow> page_base L v \<in> sent s3"
      using clr_eff_flush(2) [OF e] q2(2) f(5) pte by (simp add: sent_def)
  qed
  with f(1) v show ?thesis by auto
qed

lemma clear_range_sound:
  assumes inv: "pt_inv n r s" and al: "4096 dvd unat start_a" "4096 dvd unat end_a" and en: "unat end_a \<le> n * 2 ^ 39"
    and user: "pv_user_start vm \<le> start_a" "end_a \<le> pv_user_end vm" "start_a < end_a"
    and fr: "clear_frees vm start_a end_a free memobj s \<longrightarrow> anon r (unat start_a) (unat end_a) s \<and> \<not> obj_has s memobj MF_XPMEM"
  shows "\<exists>ret s'. clear_range r vm start_a end_a free memobj s = Some (ret, s') \<and>
    (ret = - ENOMEM \<and> cleared n r False 0 0 s s' \<or>
     (ret = 0 \<or> ret = - ENOENT \<and> (\<forall>v \<in> {unat start_a ..< unat end_a}. pte_at r s v = None)) \<and>
        cleared n r (clear_frees vm start_a end_a free memobj s) (unat start_a) (unat end_a) s s' \<or>
     ret = - EINVAL \<and> (\<exists>b \<in> {unat start_a ..< unat end_a}. cleared n r (clear_frees vm start_a end_a free memobj s) (unat start_a) b s s' \<and>
        (\<exists>L e. pte_at r s b = Some (L, e) \<and> 2 \<le> L \<and> \<not> {v. v div psz (5 - L) = b div psz (5 - L)} \<subseteq> {unat start_a ..< unat end_a})))"
proof -
  let ?st = "unat start_a" and ?en = "unat end_a" and ?fr = "clear_frees vm start_a end_a free memobj s"
  have mem: "pt_mem s" using inv by (simp add: pt_inv_def)
  from pt_alloc_sound [OF mem, of 4 IHK_MC_AP_CRITICAL] obtain va s1 where
    a: "pt_alloc_pages 4 IHK_MC_AP_CRITICAL s = Some (va, s1)" "pt_mem s1" "same_ctx s s1" "ps_tab s1 = ps_tab s" "ps_events s1 = ps_events s"
      "va = 0 \<and> pt_total s1 = pt_total s \<or>
       va \<noteq> 0 \<and> (\<exists>pa. va = pt_phys_to_virt s1 pa \<and> lent 4 pa s1 \<and> pt_total s = pt_total s1 \<union> page_range pa 4)" by auto
  have u1: "pt_upd n r {} s s1" by (rule pt_upd_frame(1) [OF inv a(2-4)])
  have good: "\<not> (start_a < pv_user_start vm \<or> pv_user_end vm < end_a \<or> end_a \<le> start_a)" using user by auto
  show ?thesis
  proof (cases "va = 0")
    case True
    then have "cleared n r False 0 0 s s1" using a(3,4,6) pt_upd_inv [OF u1] pt_upd_pte [OF u1] pt_upd_others [OF u1] by (simp add: cleared_def)
    with True a(1) good show ?thesis by (auto simp: clear_range_def TLB_INVALID_ARRAY_PAGES_def)
  next
    case False
    with a(6) obtain pa where pa: "va = pt_phys_to_virt s1 pa" "lent 4 pa s1" "pt_total s = pt_total s1 \<union> page_range pa 4" by blast
    have cf: "clear_frees vm start_a end_a free memobj s1 = ?fr" using obj_has_ctx [OF a(3)] by (simp add: clear_frees_def)
    let ?sa = "(s1, \<lparr>cr_free_physical = ?fr, cr_memobj = memobj, cr_addr = []\<rparr>)"
    have st: "?st < ?en" using user(3) by (simp add: word_less_nat_alt)
    have "anon r ?st ?en s1 \<and> \<not> obj_has s1 memobj MF_XPMEM" if "?fr"
      using fr that anon_sub [OF _ a(3,4)] pa(3) obj_has_ctx [OF a(3)] by auto
    then have pre: "clr_pre n r ?st ?en ?sa" using pt_upd_inv [OF u1] st en al by (simp add: clr_pre_def)
    have "\<not> reg \<pi> \<subseteq> {}" if "table_at n r s1 \<pi> q" for \<pi> q using reg_nonempty [OF that] .
    then have "clr_ok False n r start_a end_a ?st ?sa ?st ?sa" using clr_prog_start [OF pre] st by (auto simp: clr_ok_def)
    from clr.walk_l4 [OF clear_l4 this en] obtain err sa1 where
      w: "walk_pte_l4 r 0 start_a end_a clear_range_l4 ?sa = Some (err, sa1)"
        "(err = 0 \<or> err = - ENOENT \<and> sa1 = ?sa) \<and> clr_ok False n r start_a end_a ?st ?sa ?en sa1 \<or>
         err \<noteq> 0 \<and> err \<noteq> - ENOENT \<and> clr_fail False n r start_a end_a ?st ?sa err sa1" unfolding clr.post_def by blast
    define s2 where "s2 = (if cr_addr (snd sa1) \<noteq> [] then pt_event (Flush_Array (cr_addr (snd sa1))) (fst sa1) else fst sa1)"
    have run: "clear_range r vm start_a end_a free memobj s = map_option (Pair err) (pt_free_pages va 4 False s2)"
      using a(1) False good w(1) unfolding s2_def by (cases sa1) (simp add: clear_range_def TLB_INVALID_ARRAY_PAGES_def cf map_conv_bind_option comp_def)
    have fin: "\<exists>s3. clear_range r vm start_a end_a free memobj s = Some (err, s3) \<and> cleared n r ?fr ?st b s s3"
      if "clr_eff n r ?sa ?st b sa1" "b \<le> ?en" for b
    proof -
      have "{?st..<b} \<subseteq> {?st..<?en}" using that(2) by auto
      from clear_finish [OF that(1) this mem _ _ inv _ _ _ s2_def, of pa] show ?thesis using run a(3,4) fr pa by auto
    qed
    have pte: "pte_at r s1 = pte_at r s" by (rule same_tabs [OF a(3,4)])
    show ?thesis
    proof (cases "err = 0 \<or> err = - ENOENT")
      case True
      with w(2) have e: "clr_eff n r ?sa ?st ?en sa1" "err = - ENOENT \<longrightarrow> sa1 = ?sa" by (auto simp: clr_ok_def clr_prog_def)
      have "pte_at r s v = None" if "err = - ENOENT" "v \<in> {?st..<?en}" for v using clr_eff_none [OF e(1) that(2)] e(2) that(1) pte by simp
      with fin [OF e(1)] True show ?thesis by blast
    next
      case False
      with w(2) obtain b where b: "err = - EINVAL" "b < ?en" "?st \<le> b" "clr_eff n r ?sa ?st b sa1"
        "\<exists>L e. pte_at r (fst sa1) b = Some (L, e) \<and> 2 \<le> L \<and> \<not> {v. v div psz (5 - L) = b div psz (5 - L)} \<subseteq> {?st..<?en}"
        unfolding clr_fail_def clr_prog_def by auto
      have "pte_at r (fst sa1) b = pte_at r s b" using pt_upd_pte [OF clr_eff_upd [OF b(4)], of b] b(2) en pte by simp
      moreover have "b \<in> {?st..<?en}" "b \<le> ?en" using b(2,3) by simp_all
      ultimately show ?thesis using fin [OF b(4)] b(1,5) by (metis (no_types, lifting))
    qed
  qed
qed

end
