(* ===== verification/PtAttr.thy ===== *)
theory PtAttr
  imports PtWalk
begin

section \<open>Changing the attributes of a range\<close>

text \<open>
  \<open>ihk_mc_pt_change_attr_range\<close> of \<open>arch/x86_64/kernel/memory.c\<close>: every page of the range gets the attribute bits set and
  cleared, pages that are only file offsets and everything outside stay as they are.
\<close>

definition chg_pte :: "u64 \<Rightarrow> u64 \<Rightarrow> (nat \<times> u64) option \<Rightarrow> (nat \<times> u64) option" where
  "chg_pte cl se x =
     (case x of
        None \<Rightarrow> None
      | Some (L, e) \<Rightarrow> if e AND PFLX_FILEOFF \<noteq> 0 then Some (L, e) else if change_attr cl se e = 0 then None else Some (L, change_attr cl se e))"

definition chg_pre :: "nat \<Rightarrow> u64 \<Rightarrow> nat \<Rightarrow> nat \<Rightarrow> u64 \<Rightarrow> u64 \<Rightarrow> pt_sys \<Rightarrow> bool" where
  "chg_pre n r st en cl se s \<longleftrightarrow> pt_inv n r s \<and> st < en \<and> en \<le> n * 2 ^ 39 \<and> 4096 dvd st \<and> 4096 dvd en \<and> \<not> bit cl 7 \<and> \<not> bit se 7"

definition chg_ok :: "nat \<Rightarrow> u64 \<Rightarrow> u64 \<Rightarrow> u64 \<Rightarrow> u64 \<Rightarrow> u64 \<Rightarrow> pt_sys \<Rightarrow> nat \<Rightarrow> pt_sys \<Rightarrow> bool" where
  "chg_ok n r start_a end_a cl se s0 b s \<longleftrightarrow> chg_pre n r (unat start_a) (unat end_a) cl se s0 \<and> unat start_a \<le> b \<and> b \<le> unat end_a \<and>
     pt_keep s0 s \<and> pt_upd n r {unat start_a ..< b} s0 s \<and> (\<forall>v \<in> {unat start_a ..< b}. pte_at r s v = chg_pte cl se (pte_at r s0 v))"

definition chg_fail :: "nat \<Rightarrow> u64 \<Rightarrow> u64 \<Rightarrow> u64 \<Rightarrow> u64 \<Rightarrow> u64 \<Rightarrow> pt_sys \<Rightarrow> int \<Rightarrow> pt_sys \<Rightarrow> bool" where
  "chg_fail n r start_a end_a cl se s0 err s \<longleftrightarrow> err = - EINVAL \<and>
     (\<exists>b < unat end_a. chg_ok n r start_a end_a cl se s0 b s \<and>
        (\<exists>L e. pte_at r s b = Some (L, e) \<and> 2 \<le> L \<and> \<not> {v. v div psz (5 - L) = b div psz (5 - L)} \<subseteq> {unat start_a ..< unat end_a}))"

lemma chg_ok_range: "chg_ok n r start_a end_a cl se s0 b s \<Longrightarrow> unat start_a < unat end_a \<and> unat end_a \<le> 2 ^ 48"
proof -
  assume "chg_ok n r start_a end_a cl se s0 b s"
  then have p: "unat start_a < unat end_a" "unat end_a \<le> n * 2 ^ 39" "n \<le> 512" by (auto simp: chg_ok_def chg_pre_def pt_inv_def tree_def)
  have "n * 2 ^ 39 \<le> 512 * 2 ^ 39" using p(3) by (rule mult_le_mono1)
  with p show ?thesis by simp
qed

interpretation chg: range_walk id n r start_a end_a True "chg_ok n r start_a end_a cl se s0" "chg_fail n r start_a end_a cl se s0"
  for n r start_a end_a cl se s0
  by unfold_locales (auto dest: chg_ok_range)

lemma chg_ok_inv: "chg_ok n r start_a end_a cl se s0 b s \<Longrightarrow> pt_inv n r s"
  by (auto simp: chg_ok_def dest: pt_upd_inv)

lemma chg_ok_old: "chg_ok n r start_a end_a cl se s0 b s \<Longrightarrow> b \<le> v \<Longrightarrow> v < unat end_a \<Longrightarrow> pte_at r s0 v = pte_at r s v"
  by (auto simp: chg_ok_def chg_pre_def pt_upd_pte)

text \<open>One step further.\<close>

lemma chg_ok_step:
  assumes ok: "chg_ok n r start_a end_a cl se s0 b s" and u: "pt_keep s s'" "pt_upd n r {b..<c} s s'" and bc: "b \<le> c" "c \<le> unat end_a"
    and new: "\<forall>v \<in> {b..<c}. pte_at r s' v = chg_pte cl se (pte_at r s v)"
  shows "chg_ok n r start_a end_a cl se s0 c s'"
proof -
  let ?st = "unat start_a"
  have o: "chg_pre n r ?st (unat end_a) cl se s0" "?st \<le> b" "pt_keep s0 s" "pt_upd n r {?st..<b} s0 s"
    "\<forall>v \<in> {?st..<b}. pte_at r s v = chg_pte cl se (pte_at r s0 v)" using ok by (simp_all add: chg_ok_def)
  have iv: "{?st..<b} \<union> {b..<c} = {?st..<c}" using o(2) bc by auto
  have "pt_upd n r {?st..<c} s0 s'" using pt_upd_trans [OF o(4) u(2)] unfolding iv .
  moreover have "pte_at r s' v = chg_pte cl se (pte_at r s0 v)" if v: "v \<in> {?st..<c}" for v
  proof (cases "v \<in> {b..<c}")
    case True
    then show ?thesis using new chg_ok_old [OF ok, of v] bc by auto
  next
    case False
    then have "v \<in> {?st..<b}" "v < n * 2 ^ 39" using v o(1) bc by (auto simp: chg_pre_def)
    then show ?thesis using o(5) pt_upd_pte [OF u(2), of v] False by simp
  qed
  ultimately show ?thesis using o(1,2) bc pt_keep_trans [OF o(3) u(1)] by (simp add: chg_ok_def)
qed

text \<open>An entry without a table below it.\<close>

lemma chg_entry:
  assumes ok: "chg_ok n r start_a end_a cl se s0 (plo (unat start_a) (\<pi> @ [i])) s"
    and q: "length \<pi> \<le> 3" "path_ok n (\<pi> @ [i])" "table_at n r s \<pi> q" "ps_tab s q = Some t"
    and e: "\<not> is_dir (4 - length \<pi>) (t i)" and m: "meets (unat start_a) (unat end_a) (\<pi> @ [i])"
  shows "t i = 0 \<or> t i AND PFLX_FILEOFF \<noteq> 0 \<Longrightarrow> chg_ok n r start_a end_a cl se s0 (phi (unat end_a) (\<pi> @ [i])) s"
    and "t i \<noteq> 0 \<Longrightarrow> \<not> t i AND PFLX_FILEOFF \<noteq> 0 \<Longrightarrow> unat start_a \<le> pbase (\<pi> @ [i]) \<Longrightarrow> pbase (\<pi> @ [i]) + psz (length (\<pi> @ [i])) \<le> unat end_a \<Longrightarrow>
      \<exists>s'. pt_write (q, i) (change_attr cl se (t i)) s = Some s' \<and> chg_ok n r start_a end_a cl se s0 (phi (unat end_a) (\<pi> @ [i])) s' \<and>
        persist n r {plo (unat start_a) (\<pi> @ [i]) ..< phi (unat end_a) (\<pi> @ [i])} s s'"
    and "t i \<noteq> 0 \<Longrightarrow> length \<pi> \<le> 2 \<Longrightarrow> pbase (\<pi> @ [i]) < unat start_a \<or> unat end_a < pbase (\<pi> @ [i]) + psz (length (\<pi> @ [i])) \<Longrightarrow>
      chg_fail n r start_a end_a cl se s0 (- EINVAL) s"
proof -
  let ?st = "unat start_a" and ?en = "unat end_a" and ?p = "\<pi> @ [i]" and ?e = "change_attr cl se (t i)"
  note inv = chg_ok_inv [OF ok]
  have rg: "?st < ?en" "\<not> bit cl 7" "\<not> bit se 7" using ok by (simp_all add: chg_ok_def chg_pre_def)
  have l4: "length ?p \<le> 4" using q(1) by simp
  note er = entry_range [OF m rg(1) q(2) l4]
  have le: "plo ?st ?p \<le> phi ?en ?p" using er(2) by simp
  have mem: "pt_mem s" using inv by (simp add: pt_inv_def)
  have at: "pte_at r s v = (if t i = 0 then None else Some (4 - length \<pi>, t i))" if "v \<in> reg ?p" for v by (rule pte_at_entry [OF q(3,4,2) e that])
  show "chg_ok n r start_a end_a cl se s0 (phi ?en ?p) s" if "t i = 0 \<or> t i AND PFLX_FILEOFF \<noteq> 0"
    by (rule chg_ok_step [OF ok pt_keep_refl [OF mem] pt_upd_refl [OF inv] le er(5)]) (use that at er(3) in \<open>auto simp: chg_pte_def\<close>)
  show "\<exists>s'. pt_write (q, i) ?e s = Some s' \<and> chg_ok n r start_a end_a cl se s0 (phi ?en ?p) s' \<and> persist n r {plo ?st ?p ..< phi ?en ?p} s s'"
    if x: "t i \<noteq> 0" "\<not> t i AND PFLX_FILEOFF \<noteq> 0" "?st \<le> pbase ?p" "pbase ?p + psz (length ?p) \<le> ?en"
  proof -
    let ?s = "s\<lparr>ps_tab := (ps_tab s)(q \<mapsto> t(i := ?e))\<rparr>"
    have i: "i < 512" using q(2) by (simp add: path_ok_snoc)
    note w = pt_write_sound(2,3) [OF q(4) i, of ?e]
    have k: "pt_mem ?s" "same_ctx s ?s" using w(2) [OF mem] by (simp_all add: pt_keep_def)
    have "bit ?e 7 = bit (t i) 7" using rg(2,3) by (simp add: change_attr_def bit_simps)
    then have "?e AND PF_SIZE = 0 \<longleftrightarrow> t i AND PF_SIZE = 0" by (simp add: and_size_zero)
    moreover have "?e \<noteq> 0" if "\<not> t i AND PF_SIZE = 0" using that calculation by auto
    ultimately have nd: "\<not> is_dir (4 - length \<pi>) ?e" using e x(1) by (auto simp: is_dir_def)
    have tab: "ps_tab ?s = (ps_tab s)(q \<mapsto> t(i := ?e))" by simp
    note u = upd_put [OF inv q(3,4,2) e nd k tab]
    have whole: "reg ?p = {plo ?st ?p ..< phi ?en ?p}" using path_region(1) [OF q(2) l4] er(6,7) x by simp
    have "chg_ok n r start_a end_a cl se s0 (phi ?en ?p) ?s"
      by (rule chg_ok_step [OF ok w(2) [OF mem] _ le er(5)]) (use u(1,2) at x whole in \<open>auto simp: chg_pte_def\<close>)
    with w(1) pt_upd_persist [OF u(1)] whole show ?thesis by simp
  qed
  show "chg_fail n r start_a end_a cl se s0 (- EINVAL) s"
    if x: "t i \<noteq> 0" "length \<pi> \<le> 2" "pbase ?p < ?st \<or> ?en < pbase ?p + psz (length ?p)"
    using straddle [OF m rg(1) q(2) x(2,3) q(3,4) e x(1)] ok unfolding chg_fail_def by blast
qed

lemma dir_no_fileoff:
  assumes "dir_ok e"
  shows "e AND PFLX_FILEOFF = 0"
proof -
  have b: "bit e k \<longleftrightarrow> bit e k \<and> 12 \<le> k \<and> k < 52 \<or> k < 3" for k
    using arg_cong [OF assms [unfolded dir_ok_def], of "\<lambda>x. bit x k"] by (simp add: bit_simps pte_bits)
  have "\<not> bit e 11" using b [of 11] by simp
  moreover have d: "PFLX_FILEOFF = 2 ^ 11" by (simp add: PFLX_FILEOFF_def)
  have "bit PFLX_FILEOFF k \<longleftrightarrow> k = 11" for k unfolding d bit_exp_iff by auto
  ultimately show ?thesis by (intro bit_eqI) (auto simp: bit_and_iff)
qed

abbreviation chg_walk :: "nat \<Rightarrow> u64 \<Rightarrow> u64 \<Rightarrow> u64 \<Rightarrow> u64 \<Rightarrow> u64 \<Rightarrow> pt_sys \<Rightarrow> nat \<Rightarrow> pt_sys walk_fn \<Rightarrow> bool" where
  "chg_walk n r start_a end_a cl se s0 \<equiv>
     range_walk.entry_ok id n r start_a end_a True (chg_ok n r start_a end_a cl se s0) (chg_fail n r start_a end_a cl se s0)"

definition chg_post :: "nat \<Rightarrow> u64 \<Rightarrow> u64 \<Rightarrow> u64 \<Rightarrow> u64 \<Rightarrow> u64 \<Rightarrow> pt_sys \<Rightarrow> nat list \<Rightarrow> pt_sys \<Rightarrow> (int \<times> pt_sys) option \<Rightarrow> bool" where
  "chg_post n r start_a end_a cl se s0 \<pi> s res \<longleftrightarrow> (\<exists>err s'. res = Some (err, s') \<and>
     ((err = 0 \<or> err = - ENOENT \<and> s' = s) \<and> chg_ok n r start_a end_a cl se s0 (phi (unat end_a) \<pi>) s' \<and>
        persist n r {plo (unat start_a) \<pi> ..< phi (unat end_a) \<pi>} s s' \<or>
      chg_fail n r start_a end_a cl se s0 err s'))"

lemma chg_walkI:
  assumes "\<And>\<pi> i q s t. length \<pi> = k \<Longrightarrow> path_ok n (\<pi> @ [i]) \<Longrightarrow> table_at n r s \<pi> q \<Longrightarrow> ps_tab s q = Some t \<Longrightarrow>
      pt_read (q, i) s = Some (t i) \<Longrightarrow> meets (unat start_a) (unat end_a) (\<pi> @ [i]) \<Longrightarrow> pt_inv n r s \<Longrightarrow>
      chg_ok n r start_a end_a cl se s0 (plo (unat start_a) (\<pi> @ [i])) s \<Longrightarrow>
      chg_post n r start_a end_a cl se s0 (\<pi> @ [i]) s (f (q, i) (word_of_nat (pbase (\<pi> @ [i]))) start_a end_a s)"
  shows "chg_walk n r start_a end_a cl se s0 k f"
  unfolding chg.entry_ok_def
proof (intro allI impI)
  fix \<pi> :: "nat list" and i q s
  let ?p = "\<pi> @ [i]"
  assume l: "length \<pi> = k" and path: "path_ok n ?p" and q: "table_at n r (id s) \<pi> q" and m: "meets (unat start_a) (unat end_a) ?p"
    and ok: "chg_ok n r start_a end_a cl se s0 (plo (unat start_a) ?p) s"
  have q': "table_at n r s \<pi> q" using q by simp
  note inv = chg_ok_inv [OF ok]
  obtain t where t: "ps_tab s q = Some t" using inv_table [OF inv q'] .
  have "i < 512" using path by (simp add: path_ok_snoc)
  then have rd: "pt_read (q, i) s = Some (t i)" by (rule pt_write_sound(1) [OF t])
  have "err \<noteq> 0 \<and> err \<noteq> - ENOENT" if "chg_fail n r start_a end_a cl se s0 err s'" for err s' using that by (auto simp: chg_fail_def)
  with assms [OF l path q' t rd m inv ok]
  show "range_walk.post id n r True (chg_ok n r start_a end_a cl se s0) (chg_fail n r start_a end_a cl se s0) (plo (unat start_a) ?p) (phi (unat end_a) ?p) s
      (f (q, i) (word_of_nat (pbase ?p)) start_a end_a s)" unfolding chg.post_def chg_post_def id_apply by fastforce
qed

lemma chg_post_at:
  "range_walk.post_at id n r start_a end_a True (chg_ok n r start_a end_a cl se s0) (chg_fail n r start_a end_a cl se s0) \<pi> q s res \<Longrightarrow>
   chg_post n r start_a end_a cl se s0 \<pi> s res"
  unfolding chg.post_at_def chg_post_def id_apply by blast

text \<open>What the two large levels do with an entry that is no table.\<close>

lemma chg_large:
  assumes ok: "chg_ok n r start_a end_a cl se s0 (plo (unat start_a) (\<pi> @ [i])) s"
    and q: "length \<pi> \<le> 3" "path_ok n (\<pi> @ [i])" "table_at n r s \<pi> q" "ps_tab s q = Some t"
    and e: "\<not> is_dir (4 - length \<pi>) (t i)" and m: "meets (unat start_a) (unat end_a) (\<pi> @ [i])"
    and cov: "length \<pi> = 3 \<Longrightarrow> unat start_a \<le> pbase (\<pi> @ [i]) \<and> pbase (\<pi> @ [i]) + psz (length (\<pi> @ [i])) \<le> unat end_a"
    and sz: "unat pgsize = psz (length (\<pi> @ [i]))"
  shows "chg_post n r start_a end_a cl se s0 (\<pi> @ [i]) s
    (if t i = 0 \<or> t i AND PFLX_FILEOFF \<noteq> 0 then Some (- ENOENT, s)
     else if word_of_nat (pbase (\<pi> @ [i])) < start_a \<or> end_a < word_of_nat (pbase (\<pi> @ [i])) + pgsize then Some (- EINVAL, s)
     else do { s \<leftarrow> pt_write (q, i) (change_attr cl se (t i)) s; Some (0, s) })"
proof -
  let ?st = "unat start_a" and ?en = "unat end_a" and ?p = "\<pi> @ [i]"
  have l: "length ?p \<le> 4" using q(1) by simp
  note cmp = base_cmp [OF q(2) l sz]
  note ce = chg_entry [OF ok q e m]
  consider "t i = 0 \<or> t i AND PFLX_FILEOFF \<noteq> 0" | "t i \<noteq> 0" "\<not> t i AND PFLX_FILEOFF \<noteq> 0" "pbase ?p < ?st \<or> ?en < pbase ?p + psz (length ?p)"
    | "t i \<noteq> 0" "\<not> t i AND PFLX_FILEOFF \<noteq> 0" "?st \<le> pbase ?p" "pbase ?p + psz (length ?p) \<le> ?en" by linarith
  then show ?thesis
  proof cases
    case 1
    with ce(1) [OF 1] show ?thesis by (simp add: chg_post_def)
  next
    case 2
    have "length \<pi> \<le> 2" using 2(3) cov q(1) by linarith
    with 2 ce(3) show ?thesis unfolding chg_post_def cmp by auto
  next
    case 3
    from ce(2) [OF 3] show ?thesis using 3 unfolding chg_post_def cmp by auto
  qed
qed

lemma chg_l1: "chg_walk n r start_a end_a cl se s0 3 (change_attr_range_l1 cl se)"
proof (rule chg_walkI)
  fix \<pi> :: "nat list" and i q s t
  let ?p = "\<pi> @ [i]"
  assume l: "length \<pi> = 3" and path: "path_ok n ?p" and q: "table_at n r s \<pi> q" "ps_tab s q = Some t" and rd: "pt_read (q, i) s = Some (t i)"
    and m: "meets (unat start_a) (unat end_a) ?p" and ok: "chg_ok n r start_a end_a cl se s0 (plo (unat start_a) ?p) s"
  have al: "4096 dvd unat start_a" "4096 dvd unat end_a" using ok by (simp_all add: chg_ok_def chg_pre_def)
  have e: "\<not> is_dir (4 - length \<pi>) (t i)" and l4: "length ?p = 4" "length \<pi> \<le> 3" "length ?p \<le> 4" using l by (simp_all add: is_dir_def)
  have sz: "unat PTL1_SIZE = psz (length ?p)" using l by (simp add: level_consts psz_def)
  note cov = small_covered [OF m l4(1) al]
  have "\<not> (word_of_nat (pbase ?p) < start_a \<or> end_a < word_of_nat (pbase ?p) + PTL1_SIZE)"
    using cov unfolding base_cmp [OF path l4(3) sz] by simp
  then have "change_attr_range_l1 cl se (q, i) (word_of_nat (pbase ?p)) start_a end_a s =
      (if t i = 0 \<or> t i AND PFLX_FILEOFF \<noteq> 0 then Some (- ENOENT, s)
       else if word_of_nat (pbase ?p) < start_a \<or> end_a < word_of_nat (pbase ?p) + PTL1_SIZE then Some (- EINVAL, s)
       else do { s \<leftarrow> pt_write (q, i) (change_attr cl se (t i)) s; Some (0, s) })"
    using rd by (simp add: change_attr_range_l1_def PTE_NULL_def)
  then show "chg_post n r start_a end_a cl se s0 ?p s (change_attr_range_l1 cl se (q, i) (word_of_nat (pbase ?p)) start_a end_a s)"
    using chg_large [OF ok l4(2) path q e m conjI [OF cov] sz] by simp
qed

lemma chg_l2: "chg_walk n r start_a end_a cl se s0 2 (change_attr_range_l2 cl se)"
proof (rule chg_walkI)
  fix \<pi> :: "nat list" and i q s t
  let ?p = "\<pi> @ [i]"
  assume l: "length \<pi> = 2" and path: "path_ok n ?p" and q: "table_at n r s \<pi> q" "ps_tab s q = Some t" and rd: "pt_read (q, i) s = Some (t i)"
    and m: "meets (unat start_a) (unat end_a) ?p" and inv: "pt_inv n r s" and ok: "chg_ok n r start_a end_a cl se s0 (plo (unat start_a) ?p) s"
  have l3: "length \<pi> \<le> 3" "length ?p = 3" and sz: "unat PTL2_SIZE = psz (length ?p)" using l by (simp_all add: level_consts psz_def)
  have dir: "is_dir (4 - length \<pi>) (t i) \<longleftrightarrow> t i \<noteq> 0 \<and> t i AND PF_SIZE = 0" using l by (auto simp: is_dir_def)
  show "chg_post n r start_a end_a cl se s0 ?p s (change_attr_range_l2 cl se (q, i) (word_of_nat (pbase ?p)) start_a end_a s)"
  proof (cases "is_dir (4 - length \<pi>) (t i)")
    case False
    have "change_attr_range_l2 cl se (q, i) (word_of_nat (pbase ?p)) start_a end_a s =
        (if t i = 0 \<or> t i AND PFLX_FILEOFF \<noteq> 0 then Some (- ENOENT, s)
         else if word_of_nat (pbase ?p) < start_a \<or> end_a < word_of_nat (pbase ?p) + PTL2_SIZE then Some (- EINVAL, s)
         else do { s \<leftarrow> pt_write (q, i) (change_attr cl se (t i)) s; Some (0, s) })"
      using rd False dir by (auto simp: change_attr_range_l2_def PTE_NULL_def)
    with chg_large [OF ok l3(1) path q False m _ sz] l show ?thesis by simp
  next
    case True
    have t1: "table_at n r (id s) ?p (pt_phys_to_virt s (t i AND PT_PHYSMASK))" using table_child [OF q path True] by simp
    have "dir_ok (t i)" using tree_dir_ok [OF inv_tree [OF inv] q(1) [unfolded table_at_def] q(2) path True] .
    with chg_post_at [OF chg.walk_l1 [OF chg_l1 l3(2) t1 m ok]] rd True dir dir_no_fileoff show ?thesis
      by (simp add: change_attr_range_l2_def PTE_NULL_def)
  qed
qed

lemma chg_l3: "chg_walk n r start_a end_a cl se s0 1 (change_attr_range_l3 cl se)"
proof (rule chg_walkI)
  fix \<pi> :: "nat list" and i q s t
  let ?p = "\<pi> @ [i]"
  assume l: "length \<pi> = 1" and path: "path_ok n ?p" and q: "table_at n r s \<pi> q" "ps_tab s q = Some t" and rd: "pt_read (q, i) s = Some (t i)"
    and m: "meets (unat start_a) (unat end_a) ?p" and inv: "pt_inv n r s" and ok: "chg_ok n r start_a end_a cl se s0 (plo (unat start_a) ?p) s"
  have l3: "length \<pi> \<le> 3" "length ?p = 2" and sz: "unat PTL3_SIZE = psz (length ?p)" using l by (simp_all add: level_consts psz_def)
  have dir: "is_dir (4 - length \<pi>) (t i) \<longleftrightarrow> t i \<noteq> 0 \<and> t i AND PF_SIZE = 0" using l by (auto simp: is_dir_def)
  show "chg_post n r start_a end_a cl se s0 ?p s (change_attr_range_l3 cl se (q, i) (word_of_nat (pbase ?p)) start_a end_a s)"
  proof (cases "is_dir (4 - length \<pi>) (t i)")
    case False
    have "change_attr_range_l3 cl se (q, i) (word_of_nat (pbase ?p)) start_a end_a s =
        (if t i = 0 \<or> t i AND PFLX_FILEOFF \<noteq> 0 then Some (- ENOENT, s)
         else if word_of_nat (pbase ?p) < start_a \<or> end_a < word_of_nat (pbase ?p) + PTL3_SIZE then Some (- EINVAL, s)
         else do { s \<leftarrow> pt_write (q, i) (change_attr cl se (t i)) s; Some (0, s) })"
      using rd False dir by (auto simp: change_attr_range_l3_def PTE_NULL_def)
    with chg_large [OF ok l3(1) path q False m _ sz] l show ?thesis by simp
  next
    case True
    have t1: "table_at n r (id s) ?p (pt_phys_to_virt s (t i AND PT_PHYSMASK))" using table_child [OF q path True] by simp
    have "dir_ok (t i)" using tree_dir_ok [OF inv_tree [OF inv] q(1) [unfolded table_at_def] q(2) path True] .
    with chg_post_at [OF chg.walk_l2 [OF chg_l2 l3(2) t1 m ok]] rd True dir dir_no_fileoff show ?thesis
      by (simp add: change_attr_range_l3_def PTE_NULL_def)
  qed
qed

lemma chg_l4: "chg_walk n r start_a end_a cl se s0 0 (change_attr_range_l4 cl se)"
proof (rule chg_walkI)
  fix \<pi> :: "nat list" and i q s t
  let ?p = "\<pi> @ [i]"
  assume l: "length \<pi> = 0" and path: "path_ok n ?p" and q: "table_at n r s \<pi> q" "ps_tab s q = Some t" and rd: "pt_read (q, i) s = Some (t i)"
    and m: "meets (unat start_a) (unat end_a) ?p" and ok: "chg_ok n r start_a end_a cl se s0 (plo (unat start_a) ?p) s"
  have l3: "length \<pi> \<le> 3" "length ?p = 1" and dir: "is_dir (4 - length \<pi>) (t i) \<longleftrightarrow> t i \<noteq> 0" using l by (auto simp: is_dir_def)
  show "chg_post n r start_a end_a cl se s0 ?p s (change_attr_range_l4 cl se (q, i) (word_of_nat (pbase ?p)) start_a end_a s)"
  proof (cases "t i = 0")
    case True
    with chg_entry(1) [OF ok l3(1) path q _ m] rd dir show ?thesis by (simp add: chg_post_def change_attr_range_l4_def PTE_NULL_def)
  next
    case False
    then have t1: "table_at n r (id s) ?p (pt_phys_to_virt s (t i AND PT_PHYSMASK))" using table_child [OF q path] dir by simp
    with chg_post_at [OF chg.walk_l3 [OF chg_l3 l3(2) t1 m ok]] rd False show ?thesis by (simp add: change_attr_range_l4_def PTE_NULL_def)
  qed
qed

subsection \<open>The whole operation\<close>

definition attr_mask_ok :: "u64 \<Rightarrow> bool" where
  "attr_mask_ok m \<longleftrightarrow> m = attr_mask_init \<or> m = attr_mask_init OR PTATTR_NO_EXECUTE"

lemma l1attr_bits: "attr_mask_ok m \<Longrightarrow> bit (attr_to_l1attr m a) k \<Longrightarrow> k \<in> {0, 1, 2, 3, 4, 11, 63}"
proof -
  assume m: "attr_mask_ok m" and b: "bit (attr_to_l1attr m a) k"
  let ?all = "0x800000000000081F :: u64"
  have "m AND NOT ?all = 0" using m
    by (auto simp: attr_mask_ok_def attr_mask_init_def PTATTR_FILEOFF_def PTATTR_WRITABLE_def PTATTR_USER_def PTATTR_ACTIVE_def PTATTR_NO_EXECUTE_def)
  moreover have "PFLX_PCD AND NOT ?all = 0" "PFLX_PWT AND NOT ?all = 0" by (simp_all add: PFLX_PCD_def PFLX_PWT_def)
  ultimately have "attr_to_l1attr m a AND NOT ?all = 0"
    by (auto simp: attr_to_l1attr_def bit.conj_disj_distrib2 and.assoc)
  then have "\<not> bit (attr_to_l1attr m a AND NOT ?all) k" by simp
  then have "bit ?all k" using b bit_imp_le_length [OF b] by (auto simp: bit_simps)
  moreover have "?all = mask 5 OR push_bit 11 1 OR push_bit 63 1" by (simp add: mask_eq_exp_minus_1)
  ultimately have "bit (mask 5 OR push_bit 11 1 OR push_bit 63 1 :: u64) k" by (simp only:)
  then show ?thesis by (auto simp: bit_simps numeral_eq_Suc less_Suc_eq)
qed

lemma chg_phys:
  assumes "attr_mask_ok m"
  shows "pte_get_phys (change_attr (attr_to_l1attr m a) (attr_to_l1attr m b) e) = pte_get_phys e"
proof (rule bit_eqI)
  fix k assume "possible_bit TYPE(64 word) k"
  have "\<not> bit (attr_to_l1attr m x) k" if "12 \<le> k" "k < 52" for x using l1attr_bits [OF assms, of x k] that by auto
  then show "bit (pte_get_phys (change_attr (attr_to_l1attr m a) (attr_to_l1attr m b) e)) k = bit (pte_get_phys e) k"
    by (auto simp: pte_get_phys_def change_attr_def bit_simps pte_bits)
qed

definition changed :: "nat \<Rightarrow> u64 \<Rightarrow> u64 \<Rightarrow> u64 \<Rightarrow> nat \<Rightarrow> nat \<Rightarrow> pt_sys \<Rightarrow> pt_sys \<Rightarrow> bool" where
  "changed n r cl se a b s s' \<longleftrightarrow> pt_inv n r s' \<and>
     (\<forall>v < n * 2 ^ 39. pte_at r s' v = (if v \<in> {a..<b} then chg_pte cl se (pte_at r s v) else pte_at r s v)) \<and>
     others_same n r s s' \<and> same_ctx s s' \<and> pt_total s' = pt_total s"

lemma chg_ok_changed: "chg_ok n r start_a end_a cl se s b s' \<Longrightarrow> changed n r cl se (unat start_a) b s s'"
  by (auto simp: chg_ok_def changed_def pt_keep_def dest: pt_upd_inv pt_upd_pte pt_upd_others)

lemma change_attr_sound:
  assumes inv: "pt_inv n r s" and rg: "start_a < end_a" "unat end_a \<le> n * 2 ^ 39" "4096 dvd unat start_a" "4096 dvd unat end_a" and m: "attr_mask_ok (ps_attr_mask s)"
    and cs: "cl = attr_to_l1attr (ps_attr_mask s) clrattr" "se = attr_to_l1attr (ps_attr_mask s) setattr"
  shows "\<exists>ret s'. ihk_mc_pt_change_attr_range r start_a end_a clrattr setattr s = Some (ret, s') \<and>
    ((ret = 0 \<or> ret = - ENOENT \<and> s' = s) \<and> changed n r cl se (unat start_a) (unat end_a) s s' \<or>
     ret = - EINVAL \<and> (\<exists>b \<in> {unat start_a ..< unat end_a}. changed n r cl se (unat start_a) b s s' \<and>
        (\<exists>L e. pte_at r s b = Some (L, e) \<and> 2 \<le> L \<and> \<not> {v. v div psz (5 - L) = b div psz (5 - L)} \<subseteq> {unat start_a ..< unat end_a})))"
proof -
  let ?st = "unat start_a" and ?en = "unat end_a"
  have "\<not> bit cl 7" "\<not> bit se 7" using l1attr_bits [OF m, of clrattr 7] l1attr_bits [OF m, of setattr 7] by (auto simp: cs)
  then have "chg_ok n r start_a end_a cl se s ?st s"
    using inv rg pt_upd_refl [OF inv] by (simp add: chg_ok_def chg_pre_def word_less_nat_alt pt_keep_refl pt_inv_def)
  from chg.walk_l4 [OF chg_l4 this rg(2)] obtain ret s' where
    w: "walk_pte_l4 r 0 start_a end_a (change_attr_range_l4 cl se) s = Some (ret, s')"
      "(ret = 0 \<or> ret = - ENOENT \<and> s' = s) \<and> chg_ok n r start_a end_a cl se s ?en s' \<or> chg_fail n r start_a end_a cl se s ret s'"
    unfolding chg.post_def by blast
  have run: "ihk_mc_pt_change_attr_range r start_a end_a clrattr setattr s = Some (ret, s')"
    using w(1) by (simp add: ihk_mc_pt_change_attr_range_def cs)
  show ?thesis
  proof (cases "chg_fail n r start_a end_a cl se s ret s'")
    case True
    then obtain b where b: "ret = - EINVAL" "b < ?en" "chg_ok n r start_a end_a cl se s b s'"
      "\<exists>L e. pte_at r s' b = Some (L, e) \<and> 2 \<le> L \<and> \<not> {v. v div psz (5 - L) = b div psz (5 - L)} \<subseteq> {?st..<?en}" unfolding chg_fail_def by blast
    have "b \<in> {?st..<?en}" using b(2,3) by (simp add: chg_ok_def)
    moreover note b(4) [folded chg_ok_old [OF b(3) order_refl b(2)]]
    ultimately show ?thesis using run b(1) chg_ok_changed [OF b(3)] by (intro exI [of _ ret] exI [of _ s']) blast
  next
    case False
    then have "(ret = 0 \<or> ret = - ENOENT \<and> s' = s) \<and> changed n r cl se ?st ?en s s'" using w(2) chg_ok_changed [of n r start_a end_a cl se s ?en s'] by blast
    with run show ?thesis by blast
  qed
qed

end
