(* ===== verification/PtSet.thy ===== *)
theory PtSet
  imports PtClear PtAttr
begin

section \<open>Mapping a range\<close>

text \<open>
  \<open>ihk_mc_pt_set_range\<close> of \<open>arch/x86_64/kernel/memory.c\<close>: a range that is free is mapped to consecutive physical memory
  with pages as large as possible; on an error what was mapped so far is cleared again.
\<close>

subsection \<open>The entries\<close>

definition set_attr :: "u64 \<Rightarrow> u64 \<Rightarrow> nat \<Rightarrow> u64" where
  "set_attr m attr L = (if L = 1 then attr_to_l1attr m attr else if L = 2 then attr_to_l2attr m (attr OR PTATTR_LARGEPAGE) else attr_to_l3attr m (attr OR PTATTR_LARGEPAGE))"

lemma set_attr_bits:
  assumes m: "attr_mask_ok m"
  shows "bit (set_attr m a L) k \<Longrightarrow> k < 12 \<or> k = 63" "L \<noteq> 1 \<Longrightarrow> bit (set_attr m a L) 7"
proof -
  have l: "bit PTATTR_LARGEPAGE k \<longleftrightarrow> k = 7" "bit PFLX_PCD k \<longleftrightarrow> k = 4" "bit PFLX_PWT k \<longleftrightarrow> k = 3" for k
  proof -
    have d: "PTATTR_LARGEPAGE = 2 ^ 7" "PFLX_PCD = 2 ^ 4" "PFLX_PWT = 2 ^ 3" by (simp_all add: PTATTR_LARGEPAGE_def PFLX_PCD_def PFLX_PWT_def)
    show "bit PTATTR_LARGEPAGE k \<longleftrightarrow> k = 7" "bit PFLX_PCD k \<longleftrightarrow> k = 4" "bit PFLX_PWT k \<longleftrightarrow> k = 3" unfolding d bit_exp_iff by auto
  qed
  have mb: "k < 12 \<or> k = 63" if "bit m k" for k
  proof -
    have "attr_to_l1attr m (0x800000000000081F) = m"
      using m by (auto simp: attr_to_l1attr_def attr_mask_ok_def attr_mask_init_def PTATTR_FILEOFF_def PTATTR_WRITABLE_def PTATTR_USER_def
          PTATTR_ACTIVE_def PTATTR_NO_EXECUTE_def PTATTR_UNCACHABLE_def PTATTR_WRITE_COMBINED_def)
    then show ?thesis using l1attr_bits [OF m, of "0x800000000000081F" k] that by auto
  qed
  show "bit (set_attr m a L) k \<Longrightarrow> k < 12 \<or> k = 63"
    using l1attr_bits [OF m, of a k] mb [of k]
    by (auto simp: set_attr_def attr_to_l2attr_def attr_to_l3attr_def Let_def bit_or_iff bit_and_iff l split: if_splits)
  show "L \<noteq> 1 \<Longrightarrow> bit (set_attr m a L) 7"
    by (simp add: set_attr_def attr_to_l2attr_def attr_to_l3attr_def Let_def bit_or_iff bit_and_iff l)
qed

lemma page_addr_or:
  assumes "4096 dvd unat pa" "unat pa < 2 ^ 52" "attr_mask_ok m"
  shows "pte_get_phys (pa OR set_attr m a L) = pa" "pa \<noteq> 0 \<Longrightarrow> pa OR set_attr m a L \<noteq> 0"
proof -
  have b: "bit pa k \<Longrightarrow> 12 \<le> k \<and> k < 52" for k by (rule page_addr_bits [OF assms(2,1)])
  show "pte_get_phys (pa OR set_attr m a L) = pa"
  proof (rule bit_eqI)
    fix k assume "possible_bit TYPE(64 word) k"
    show "bit (pte_get_phys (pa OR set_attr m a L)) k = bit pa k"
      using b [of k] set_attr_bits(1) [OF assms(3), of a L k] by (auto simp: pte_get_phys_def bit_simps pte_bits)
  qed
  then show "pa \<noteq> 0 \<Longrightarrow> pa OR set_attr m a L \<noteq> 0" by (auto simp: pte_get_phys_def)
qed

text \<open>\<open>rusage_memory_stat_add\<close> changes accounting and page structures only.\<close>

lemma set_page_quiet: "(\<And>pg. pg_phys (f pg) = pg_phys pg) \<Longrightarrow> pt_quiet s (s\<lparr>ps_ms := set_page p f (ps_ms s)\<rparr>)"
proof (rule pt_quietI)
  assume f: "\<And>pg. pg_phys (f pg) = pg_phys pg"
  have "pg_phys (ph_page (ms_hash (set_page p f (ps_ms s))) x) = pg_phys (ph_page (ms_hash (ps_ms s)) x)" for x by (simp add: set_page_def f)
  then have "phys_to_page (ms_hash (set_page p f (ps_ms s))) = phys_to_page (ms_hash (ps_ms s))"
    by (auto simp: phys_to_page_def set_page_def intro!: ext)
  then show "same_ctx s (s\<lparr>ps_ms := set_page p f (ps_ms s)\<rparr>)" by (simp add: same_ctx_def set_page_def mem_range_def)
qed (simp_all add: set_page_def mem_bytes_def mem_ok_def)

lemma stat_add_quiet: "pt_quiet s (pt_stat_add rng phys pgsize s)"
proof -
  obtain ret g pages where r: "rusage_memory_stat_add (ps_objs s) (\<lambda>phys. map_option (\<lambda>p. pg_mapped (ph_page (ms_hash (ps_ms s)) p)) (phys_to_page (ms_hash (ps_ms s)) phys))
      rng phys pgsize pgsize (rs_global (ms_rusage (ps_ms s))) = (ret, g, pages)" by (metis prod_cases3)
  let ?s = "pt_rusage (\<lambda>_. g) s"
  have "pt_stat_add rng phys pgsize s =
      (case (phys_to_page (ms_hash (ps_ms s)) phys, pages phys) of
         (Some p, Some mapped) \<Rightarrow> ?s\<lparr>ps_ms := set_page p (\<lambda>pg. pg\<lparr>pg_mapped := mapped\<rparr>) (ps_ms ?s)\<rparr>
       | _ \<Rightarrow> ?s)" unfolding pt_stat_add_def Let_def r by simp
  then show ?thesis using pt_rusage_quiet [of s "\<lambda>_. g"] pt_quiet_trans [OF pt_rusage_quiet set_page_quiet] by (simp split: option.splits)
qed

subsection \<open>Progress, failure, undoing\<close>

definition set_entry :: "u64 \<Rightarrow> set_range_args \<Rightarrow> u64 \<Rightarrow> nat \<Rightarrow> nat \<Rightarrow> u64" where
  "set_entry m a start_a L b = (sr_phys a + (word_of_nat b - start_a)) OR set_attr m (sr_attr a) L"

definition set_pre :: "nat \<Rightarrow> set_range_args \<Rightarrow> u64 \<Rightarrow> u64 \<Rightarrow> pt_sys \<Rightarrow> bool" where
  "set_pre n a start_a end_a s \<longleftrightarrow> pt_inv n (sr_pt a) s \<and> start_a < end_a \<and> unat end_a \<le> n * 2 ^ 39 \<and> 4096 dvd unat start_a \<and> 4096 dvd unat end_a \<and>
     attr_mask_ok (ps_attr_mask s) \<and> 4096 dvd unat (sr_phys a) \<and> 0 < unat (sr_phys a) \<and> unat (sr_phys a) + (unat end_a - unat start_a) \<le> 2 ^ 52 \<and>
     sr_diff a = start_a XOR sr_phys a \<and> pv_user_start (sr_vm a) \<le> start_a \<and> end_a \<le> pv_user_end (sr_vm a)"

text \<open>The entry of an address after mapping up to \<open>b\<close>: a page within the part that is done, which continues the physical
  range and is aligned to its size.\<close>

definition set_at :: "u64 \<Rightarrow> set_range_args \<Rightarrow> u64 \<Rightarrow> nat \<Rightarrow> nat \<Rightarrow> (nat \<times> u64) option \<Rightarrow> bool" where
  "set_at m a start_a b v x \<longleftrightarrow> (\<exists>L \<in> {1..3}. let base = v div psz (5 - L) * psz (5 - L)
     in unat start_a \<le> base \<and> base + psz (5 - L) \<le> b \<and> x = Some (L, set_entry m a start_a L base) \<and>
        psz (5 - L) dvd unat (sr_phys a) + (base - unat start_a))"

definition set_part :: "nat \<Rightarrow> set_range_args \<Rightarrow> u64 \<Rightarrow> nat \<Rightarrow> pt_sys \<Rightarrow> pt_sys \<Rightarrow> bool" where
  "set_part n a start_a b s0 s \<longleftrightarrow> (\<forall>v < n * 2 ^ 39.
     if v \<in> {unat start_a ..< b} then pte_at (sr_pt a) s0 v = None \<and> set_at (ps_attr_mask s0) a start_a b v (pte_at (sr_pt a) s v)
     else pte_at (sr_pt a) s v = pte_at (sr_pt a) s0 v)"

definition set_ok :: "nat \<Rightarrow> set_range_args \<Rightarrow> u64 \<Rightarrow> u64 \<Rightarrow> pt_sys \<Rightarrow> nat \<Rightarrow> pt_sys \<Rightarrow> bool" where
  "set_ok n a start_a end_a s0 b s \<longleftrightarrow> set_pre n a start_a end_a s0 \<and> unat start_a \<le> b \<and> b \<le> unat end_a \<and> pt_keep s0 s \<and>
     pt_upd n (sr_pt a) {unat start_a ..< b} s0 s \<and> set_part n a start_a b s0 s"

definition set_fail :: "nat \<Rightarrow> set_range_args \<Rightarrow> u64 \<Rightarrow> u64 \<Rightarrow> pt_sys \<Rightarrow> int \<Rightarrow> pt_sys \<Rightarrow> bool" where
  "set_fail n a start_a end_a s0 err s \<longleftrightarrow>
     (err = - EBUSY \<and> (\<exists>v \<in> {unat start_a ..< unat end_a}. pte_at (sr_pt a) s0 v \<noteq> None) \<or> err = - ENOMEM) \<and>
     pt_inv n (sr_pt a) s \<and> pt_keep s0 s \<and> others_same n (sr_pt a) s0 s \<and>
     ((\<forall>v < n * 2 ^ 39. pte_at (sr_pt a) s v = pte_at (sr_pt a) s0 v) \<or> (\<exists>b \<in> {unat start_a <..< unat end_a}. set_part n a start_a b s0 s))"

lemma set_ok_range: "set_ok n a start_a end_a s0 b s \<Longrightarrow> unat start_a < unat end_a \<and> unat end_a \<le> 2 ^ 48"
proof -
  assume "set_ok n a start_a end_a s0 b s"
  then have p: "unat start_a < unat end_a" "unat end_a \<le> n * 2 ^ 39" "n \<le> 512"
    by (auto simp: set_ok_def set_pre_def pt_inv_def tree_def word_less_nat_alt)
  have "n * 2 ^ 39 \<le> 512 * 2 ^ 39" using p(3) by (rule mult_le_mono1)
  with p show ?thesis by simp
qed

interpretation rset: range_walk id n "sr_pt a" start_a end_a False "set_ok n a start_a end_a s0" "set_fail n a start_a end_a s0"
  for n a start_a end_a s0
  by unfold_locales (auto dest: set_ok_range)

lemma set_ok_inv: "set_ok n a start_a end_a s0 b s \<Longrightarrow> pt_inv n (sr_pt a) s"
  by (auto simp: set_ok_def dest: pt_upd_inv)

lemma set_ok_old: "set_ok n a start_a end_a s0 b s \<Longrightarrow> b \<le> v \<Longrightarrow> v < unat end_a \<Longrightarrow> pte_at (sr_pt a) s0 v = pte_at (sr_pt a) s v"
  by (auto simp: set_ok_def set_pre_def set_part_def)

lemma set_at_mono: "set_at m a start_a b v x \<Longrightarrow> b \<le> c \<Longrightarrow> set_at m a start_a c v x"
  unfolding set_at_def Let_def by (meson le_trans)

lemma set_ok_step:
  assumes ok: "set_ok n a start_a end_a s0 b s" and u: "pt_keep s s'" "pt_upd n (sr_pt a) {b..<c} s s'" and bc: "b \<le> c" "c \<le> unat end_a"
    and new: "\<forall>v \<in> {b..<c}. pte_at (sr_pt a) s v = None \<and> set_at (ps_attr_mask s0) a start_a c v (pte_at (sr_pt a) s' v)"
  shows "set_ok n a start_a end_a s0 c s'"
proof -
  let ?st = "unat start_a" and ?r = "sr_pt a"
  have o: "set_pre n a start_a end_a s0" "?st \<le> b" "pt_keep s0 s" "pt_upd n ?r {?st..<b} s0 s" "set_part n a start_a b s0 s"
    using ok by (simp_all add: set_ok_def)
  have iv: "{?st..<b} \<union> {b..<c} = {?st..<c}" using o(2) bc by auto
  have "pt_upd n ?r {?st..<c} s0 s'" using pt_upd_trans [OF o(4) u(2)] unfolding iv .
  moreover have "set_part n a start_a c s0 s'" unfolding set_part_def
  proof (intro allI impI)
    fix v assume v: "v < n * 2 ^ 39"
    consider "v \<in> {b..<c}" | "v \<in> {?st..<b}" | "v \<notin> {?st..<c}" using iv by blast
    then show "if v \<in> {?st..<c} then pte_at ?r s0 v = None \<and> set_at (ps_attr_mask s0) a start_a c v (pte_at ?r s' v) else pte_at ?r s' v = pte_at ?r s0 v"
    proof cases
      case 1
      then show ?thesis using new set_ok_old [OF ok, of v] bc o(2) by auto
    next
      case 2
      then show ?thesis using o(5) pt_upd_pte [OF u(2) v] set_at_mono [OF _ bc(1)] bc v by (auto simp: set_part_def)
    next
      case 3
      then have "v \<notin> {?st..<b}" "v \<notin> {b..<c}" using iv by blast+
      then have "pte_at ?r s' v = pte_at ?r s0 v" using o(5) pt_upd_pte [OF u(2) v] v unfolding set_part_def by (simp del: atLeastLessThan_iff)
      with 3 show ?thesis by (simp del: atLeastLessThan_iff)
    qed
  qed
  ultimately show ?thesis using o(1,2) bc pt_keep_trans [OF o(3) u(1)] by (simp add: set_ok_def)
qed

lemma set_ok_same:
  assumes ok: "set_ok n a start_a end_a s0 b s" and s: "pt_same n (sr_pt a) s s'"
  shows "set_ok n a start_a end_a s0 b s'"
  by (rule set_ok_step [OF ok]) (use s ok pt_upd_mono in \<open>auto simp: pt_same_def set_ok_def\<close>)

lemma set_ok_others: "set_ok n a start_a end_a s0 b s \<Longrightarrow> others_same n (sr_pt a) s0 s"
  by (auto simp: set_ok_def dest: pt_upd_others)

lemma set_at_inside:
  assumes "set_at m a start_a b v (Some (L, e))"
  shows "{w. w div psz (5 - L) = v div psz (5 - L)} \<subseteq> {unat start_a ..< b}"
proof -
  have "{w. w div psz (5 - L) = v div psz (5 - L)} = {v div psz (5 - L) * psz (5 - L) ..< v div psz (5 - L) * psz (5 - L) + psz (5 - L)}"
    using div_eq_range [OF psz_pos] by blast
  then show ?thesis using assms by (auto simp: set_at_def Let_def)
qed

lemma base_aligned: "length \<pi> \<le> 4 \<Longrightarrow> 4096 dvd pbase \<pi>"
proof -
  assume "length \<pi> \<le> 4"
  then have "(2 :: nat) ^ 12 dvd 2 ^ (48 - 9 * length \<pi>)" by (intro le_imp_power_dvd) simp
  then show ?thesis by (simp add: pbase_def psz_def)
qed

text \<open>An error at the entry of a path: the part before it is cleared, unless there is no memory for that.\<close>

lemma set_undo:
  assumes ok: "set_ok n a start_a end_a s0 (plo (unat start_a) \<pi>) s" and p: "path_ok n \<pi>" "length \<pi> \<le> 4" "meets (unat start_a) (unat end_a) \<pi>"
    and err: "err = - EBUSY \<and> (\<exists>v \<in> {unat start_a ..< unat end_a}. pte_at (sr_pt a) s0 v \<noteq> None) \<or> err = - ENOMEM"
  shows "\<exists>s'. set_range_undo a start_a (word_of_nat (pbase \<pi>)) err s = Some (err, s') \<and> set_fail n a start_a end_a s0 err s'"
proof -
  let ?st = "unat start_a" and ?en = "unat end_a" and ?r = "sr_pt a" and ?base = "word_of_nat (pbase \<pi>) :: u64"
  have o: "set_pre n a start_a end_a s0" "pt_keep s0 s" "set_part n a start_a (plo ?st \<pi>) s0 s" using ok by (simp_all add: set_ok_def)
  note inv = set_ok_inv [OF ok]
  have ub: "unat ?base = pbase \<pi>" by (rule path_region(3) [OF p(1,2)])
  have rg: "?st < ?en" using set_ok_range [OF ok] by simp
  note oth = set_ok_others [OF ok]
  show ?thesis
  proof (cases "pbase \<pi> \<le> ?st")
    case True
    then have "plo ?st \<pi> = ?st" by (simp add: plo_def)
    with o(3) have same: "\<forall>v < n * 2 ^ 39. pte_at ?r s v = pte_at ?r s0 v" by (simp add: set_part_def)
    have "?base \<le> start_a" using True ub by (simp add: word_le_nat_alt)
    then have "set_range_undo a start_a ?base err s = Some (err, s)" by (simp add: set_range_undo_def clear_range_def)
    with same err inv o(2) oth show ?thesis by (auto simp: set_fail_def)
  next
    case False
    then have lo: "plo ?st \<pi> = pbase \<pi>" by (simp add: plo_def)
    have pe: "pbase \<pi> < ?en" using p(3) by (simp add: meets_def)
    have u: "pv_user_start (sr_vm a) \<le> start_a" "?base \<le> pv_user_end (sr_vm a)" "start_a < ?base" "4096 dvd ?st" "unat ?base \<le> n * 2 ^ 39"
      using o(1) False ub pe by (auto simp: set_pre_def word_le_nat_alt word_less_nat_alt)
    have al: "4096 dvd unat ?base" using base_aligned [OF p(2)] ub by simp
    have nf: "clear_frees (sr_vm a) start_a ?base False None s = False" by (simp add: clear_frees_def)
    have part: "pte_at ?r s0 v = None \<and> set_at (ps_attr_mask s0) a start_a (pbase \<pi>) v (pte_at ?r s v)" if "v \<in> {?st..<pbase \<pi>}" for v
      using o(3) that pe o(1) by (auto simp: set_part_def lo set_pre_def)
    have ff: "clear_frees (sr_vm a) start_a ?base False None s \<longrightarrow> anon ?r ?st (unat ?base) s \<and> \<not> obj_has s None MF_XPMEM" by (simp add: nf)
    from clear_range_sound [OF inv u(4) al u(5,1,2,3) ff, unfolded nf ub] obtain ret s' where
      c: "clear_range ?r (sr_vm a) start_a ?base False None s = Some (ret, s')"
        "ret = - ENOMEM \<and> cleared n ?r False 0 0 s s' \<or> cleared n ?r False ?st (pbase \<pi>) s s' \<or>
         (\<exists>b \<in> {?st..<pbase \<pi>}. \<exists>L e. pte_at ?r s b = Some (L, e) \<and> \<not> {v. v div psz (5 - L) = b div psz (5 - L)} \<subseteq> {?st..<pbase \<pi>})"
      by blast
    have "set_fail n a start_a end_a s0 err s'"
    proof -
      have keep: "pt_inv n ?r s' \<and> pt_keep s0 s' \<and> others_same n ?r s0 s'" if "cleared n ?r False x y s s'" for x y
      proof -
        have c: "pt_inv n ?r s'" "pt_keep s s'" using that by (simp_all add: cleared_def pt_keep_def pt_inv_def)
        have "others_same n ?r s0 s'" using others_same_trans [OF set_ok_others [OF ok]] that by (simp add: cleared_def)
        with c pt_keep_trans [OF o(2)] show ?thesis by blast
      qed
      from c(2) consider (nomem) "cleared n ?r False 0 0 s s'" | (undone) "cleared n ?r False ?st (pbase \<pi>) s s'"
        | (large) "\<exists>b \<in> {?st..<pbase \<pi>}. \<exists>L e. pte_at ?r s b = Some (L, e) \<and> \<not> {v. v div psz (5 - L) = b div psz (5 - L)} \<subseteq> {?st..<pbase \<pi>}" by blast
      then show ?thesis
      proof cases
        case nomem
        then have "set_part n a start_a (pbase \<pi>) s0 s'" using o(3) by (simp add: set_part_def lo cleared_def)
        moreover have "pbase \<pi> \<in> {?st<..<?en}" using False pe by simp
        ultimately show ?thesis using keep [OF nomem] err unfolding set_fail_def by blast
      next
        case undone
        have "pte_at ?r s' v = pte_at ?r s0 v" if v: "v < n * 2 ^ 39" for v
          using undone v part [of v] o(3) by (auto simp: cleared_def set_part_def lo)
        then show ?thesis using keep [OF undone] err unfolding set_fail_def by blast
      next
        case large
        then obtain b L e where "b \<in> {?st..<pbase \<pi>}" "pte_at ?r s b = Some (L, e)" "\<not> {v. v div psz (5 - L) = b div psz (5 - L)} \<subseteq> {?st..<pbase \<pi>}" by blast
        then show ?thesis using part [of b] set_at_inside [of "ps_attr_mask s0" a start_a "pbase \<pi>" b L e] by simp
      qed
    qed
    with c(1) show ?thesis by (simp add: set_range_undo_def)
  qed
qed

subsection \<open>One entry\<close>

definition set_post :: "nat \<Rightarrow> set_range_args \<Rightarrow> u64 \<Rightarrow> u64 \<Rightarrow> pt_sys \<Rightarrow> nat list \<Rightarrow> pt_sys \<Rightarrow> (int \<times> pt_sys) option \<Rightarrow> bool" where
  "set_post n a start_a end_a s0 \<pi> s res \<longleftrightarrow> (\<exists>err s'. res = Some (err, s') \<and>
     (err = 0 \<and> set_ok n a start_a end_a s0 (phi (unat end_a) \<pi>) s' \<and> persist n (sr_pt a) {plo (unat start_a) \<pi> ..< phi (unat end_a) \<pi>} s s' \<or>
      set_fail n a start_a end_a s0 err s'))"

lemma set_post_at:
  "range_walk.post_at id n (sr_pt a) start_a end_a False (set_ok n a start_a end_a s0) (set_fail n a start_a end_a s0) \<pi> q s res \<Longrightarrow>
   set_post n a start_a end_a s0 \<pi> s res"
  unfolding rset.post_at_def set_post_def id_apply by blast

lemma set_post_same:
  assumes "set_post n a start_a end_a s0 \<pi> s1 res" "pt_same n (sr_pt a) s s1"
  shows "set_post n a start_a end_a s0 \<pi> s res"
proof -
  have "persist n (sr_pt a) {} s s1" using assms(2) by (auto simp: pt_same_def intro: pt_upd_persist)
  then have "persist n (sr_pt a) R s s'" if "persist n (sr_pt a) R s1 s'" for R s' using persist_trans [OF _ that, of "{}" s R] by simp
  with assms(1) show ?thesis unfolding set_post_def by blast
qed

lemma aligned_diff:
  assumes d: "(start_a XOR phys) AND (2 ^ sh - 1) = (0 :: u64)" and b: "unat start_a \<le> b" "2 ^ sh dvd b"
  shows "2 ^ sh dvd unat phys + (b - unat start_a)"
proof -
  have "take_bit sh (start_a XOR phys) = 0" using d by (simp add: take_bit_eq_mask mask_eq_exp_minus_1)
  then have "take_bit sh start_a XOR take_bit sh phys = 0" by (simp add: take_bit_xor)
  then have "take_bit sh start_a = take_bit sh phys" by (metis xor.assoc xor.left_neutral xor.right_neutral xor_self_eq)
  then have "unat (take_bit sh start_a) = unat (take_bit sh phys)" by simp
  then have "take_bit sh (unat start_a) = take_bit sh (unat phys)" by (simp only: unsigned_take_bit_eq)
  then have "unat start_a mod 2 ^ sh = unat phys mod 2 ^ sh" by (simp only: take_bit_eq_mod)
  then have "(unat phys + b) mod 2 ^ sh = unat start_a mod 2 ^ sh" using b(2) by (metis add.right_neutral dvd_imp_mod_0 mod_add_right_eq)
  then have "2 ^ sh dvd unat phys + b - unat start_a" using b(1) mod_eq_dvd_iff_nat [of "unat start_a" "unat phys + b" "2 ^ sh"] by simp
  then show ?thesis using b(1) by simp
qed

lemma set_leaf:
  assumes ok: "set_ok n a start_a end_a s0 (plo (unat start_a) (\<pi> @ [i])) s"
    and q: "\<pi> \<noteq> []" "length \<pi> \<le> 3" "path_ok n (\<pi> @ [i])" "table_at n (sr_pt a) s \<pi> q" "ps_tab s q = Some t" "t i = 0"
    and m: "meets (unat start_a) (unat end_a) (\<pi> @ [i])"
    and cov: "unat start_a \<le> pbase (\<pi> @ [i])" "pbase (\<pi> @ [i]) + psz (length (\<pi> @ [i])) \<le> unat end_a"
    and al: "psz (length (\<pi> @ [i])) dvd unat (sr_phys a) + (pbase (\<pi> @ [i]) - unat start_a)"
    and e: "e = (sr_phys a + (word_of_nat (pbase (\<pi> @ [i])) - start_a)) OR set_attr (ps_attr_mask s) (sr_attr a) (4 - length \<pi>)"
  shows "set_post n a start_a end_a s0 (\<pi> @ [i]) s (do { s \<leftarrow> pt_write (q, i) e s; Some (0, pt_stat_add rng phys pgsize s) })"
proof -
  let ?st = "unat start_a" and ?en = "unat end_a" and ?r = "sr_pt a" and ?p = "\<pi> @ [i]" and ?L = "4 - length \<pi>"
  let ?b = "pbase ?p" and ?c = "pbase ?p + psz (length ?p)"
  note inv = set_ok_inv [OF ok]
  have mem: "pt_mem s" using inv by (simp add: pt_inv_def)
  have pre: "set_pre n a start_a end_a s0" and mk: "ps_attr_mask s = ps_attr_mask s0" using ok by (auto simp: set_ok_def pt_keep_def same_ctx_def)
  have l4: "length ?p \<le> 4" and L: "?L \<in> {1..3}" "5 - ?L = length ?p" using q(1,2) by (cases \<pi>; simp)+
  have rg: "?st < ?en" using set_ok_range [OF ok] by simp
  note er = entry_range [OF m rg q(3) l4]
  have whole: "reg ?p = {plo ?st ?p ..< phi ?en ?p}" using path_region(1) [OF q(3) l4] er(6,7) cov by simp
  let ?pa = "sr_phys a + (word_of_nat ?b - start_a)"
  have pa: "unat ?pa = unat (sr_phys a) + (?b - ?st)"
  proof -
    have "unat (word_of_nat ?b - start_a) = ?b - ?st" using path_region(3) [OF q(3) l4] cov(1) by (simp add: unat_sub word_le_nat_alt)
    moreover have "?b < ?en" using m by (simp add: meets_def)
    then have "unat (sr_phys a) + (?b - ?st) < 2 ^ 64" using pre by (auto simp: set_pre_def)
    ultimately show ?thesis by (simp add: u64_add)
  qed
  have "4096 dvd psz (length ?p)" using q(2) le_imp_power_dvd [of 12 "48 - 9 * length ?p" "2 :: nat"] by (simp add: psz_def)
  then have d: "4096 dvd unat ?pa" using al dvd_trans unfolding pa by blast
  have lt: "unat ?pa < 2 ^ 52" "0 < unat ?pa" using pre m rg cov(1) unfolding pa by (auto simp: set_pre_def meets_def)
  have am: "attr_mask_ok (ps_attr_mask s)" using pre mk by (simp add: set_pre_def)
  have e0: "e \<noteq> 0" unfolding e by (rule page_addr_or(2) [OF d lt(1) am]) (use lt(2) in auto)
  have nd: "\<not> is_dir ?L e"
  proof (cases "?L = 1")
    case False
    then have "bit e 7" unfolding e using set_attr_bits(2) [OF am] by (simp add: bit_or_iff)
    then have "e AND PF_SIZE \<noteq> 0" by (simp add: and_size_zero)
    then show ?thesis using L by (auto simp: is_dir_def)
  qed (simp add: is_dir_def)
  have i: "i < 512" using q(3) by (simp add: path_ok_snoc)
  have nd0: "\<not> is_dir ?L (t i)" using q(6) by (simp add: is_dir_def)
  let ?s1 = "s\<lparr>ps_tab := (ps_tab s)(q \<mapsto> t(i := e))\<rparr>"
  note w = pt_write_sound(2,3) [OF q(5) i, of e]
  let ?s = "pt_stat_add rng phys pgsize ?s1"
  have qu: "pt_quiet ?s1 ?s" by (rule stat_add_quiet)
  have k: "pt_keep s ?s" using w(2) [OF mem] qu same_ctx_trans [of s ?s1 ?s] by (auto simp: pt_keep_def pt_quiet_def)
  have tab: "ps_tab ?s = (ps_tab s)(q \<mapsto> t(i := e))" using qu by (simp add: pt_quiet_def)
  note u = upd_put [OF inv q(4,5,3) nd0 nd _ _ tab]
  have u1: "pt_upd n ?r (reg ?p) s ?s" and at: "pte_at ?r ?s v = Some (?L, e)" if "v \<in> reg ?p" for v
    using u(1,2) that k e0 by (simp_all add: pt_keep_def)
  have u1: "pt_upd n ?r (reg ?p) s ?s" using u(1) k by (simp add: pt_keep_def)
  have none: "pte_at ?r s v = None" if "v \<in> reg ?p" for v using pte_at_entry [OF q(4,5,3) nd0 that] q(6) by simp
  have "set_ok n a start_a end_a s0 (phi ?en ?p) ?s"
  proof (rule set_ok_step [OF ok k])
    show "pt_upd n ?r {plo ?st ?p ..< phi ?en ?p} s ?s" using u1 whole by simp
    show "\<forall>v \<in> {plo ?st ?p ..< phi ?en ?p}. pte_at ?r s v = None \<and> set_at (ps_attr_mask s0) a start_a (phi ?en ?p) v (pte_at ?r ?s v)"
      unfolding whole [symmetric]
    proof (intro ballI conjI none)
      fix v assume v: "v \<in> reg ?p"
      have ix: "\<forall>j \<in> set ?p. j < 512" using q(3) by (simp add: path_ok_def)
      have base: "v div psz (length ?p) * psz (length ?p) = ?b" using iffD1 [OF reg_div [OF l4 ix] v] by (simp only: pbase_def)
      show "set_at (ps_attr_mask s0) a start_a (phi ?en ?p) v (pte_at ?r ?s v)"
        unfolding set_at_def Let_def at [OF v] by (rule bexI [OF _ L(1)]) (unfold L(2) base, use cov al e mk er(7) in \<open>simp add: set_entry_def\<close>)
    qed
  qed (use er(2,5) in simp_all)
  moreover have "persist n ?r {plo ?st ?p ..< phi ?en ?p} s ?s" using pt_upd_persist [OF u1] whole by simp
  ultimately show ?thesis using w(1) unfolding set_post_def by simp
qed

text \<open>A page that is there already, or no memory for a table: back out.\<close>

lemma set_busy:
  assumes ok: "set_ok n a start_a end_a s0 (plo (unat start_a) (\<pi> @ [i])) s"
    and q: "length \<pi> \<le> 3" "path_ok n (\<pi> @ [i])" "table_at n (sr_pt a) s \<pi> q" "ps_tab s q = Some t" "t i \<noteq> 0" "\<not> is_dir (4 - length \<pi>) (t i)"
    and m: "meets (unat start_a) (unat end_a) (\<pi> @ [i])"
  shows "set_post n a start_a end_a s0 (\<pi> @ [i]) s (set_range_undo a start_a (word_of_nat (pbase (\<pi> @ [i]))) (- EBUSY) s)"
proof -
  let ?st = "unat start_a" and ?en = "unat end_a" and ?p = "\<pi> @ [i]"
  have l: "length ?p \<le> 4" using q(1) by simp
  have rg: "?st < ?en" using set_ok_range [OF ok] by simp
  note er = entry_range [OF m rg q(2) l]
  have lt: "plo ?st ?p < ?en" using er(2,5) by simp
  have "pte_at (sr_pt a) s (plo ?st ?p) \<noteq> None" using pte_at_entry [OF q(3,4,2,6) er(1)] q(5) by simp
  then have "pte_at (sr_pt a) s0 (plo ?st ?p) \<noteq> None" using set_ok_old [OF ok order_refl lt] by simp
  then have "\<exists>v \<in> {?st ..< ?en}. pte_at (sr_pt a) s0 v \<noteq> None" using er(4) lt by (intro bexI [of _ "plo ?st ?p"]) simp_all
  then have "\<exists>s'. set_range_undo a start_a (word_of_nat (pbase ?p)) (- EBUSY) s = Some (- EBUSY, s') \<and> set_fail n a start_a end_a s0 (- EBUSY) s'"
    by (intro set_undo [OF ok q(2) l m]) simp
  then show ?thesis unfolding set_post_def by blast
qed

lemma set_descend:
  assumes ok: "set_ok n a start_a end_a s0 (plo (unat start_a) (\<pi> @ [i])) s"
    and q: "length \<pi> < 3" "path_ok n (\<pi> @ [i])" "table_at n (sr_pt a) s \<pi> q" "ps_tab s q = Some t" "t i = 0"
    and m: "meets (unat start_a) (unat end_a) (\<pi> @ [i])"
    and w: "\<And>q' s2. table_at n (sr_pt a) s2 (\<pi> @ [i]) q' \<Longrightarrow> set_ok n a start_a end_a s0 (plo (unat start_a) (\<pi> @ [i])) s2 \<Longrightarrow>
      set_post n a start_a end_a s0 (\<pi> @ [i]) s2 (walk q' s2)"
  shows "set_post n a start_a end_a s0 (\<pi> @ [i]) s
    (do { (newpt, s) \<leftarrow> alloc_new_pt flag s;
          if newpt = 0 then set_range_undo a start_a (word_of_nat (pbase (\<pi> @ [i]))) (- ENOMEM) s
          else do { s \<leftarrow> pt_write (q, i) (pt_virt_to_phys s newpt OR PDIR_ATTR) s; walk newpt s } })"
proof -
  let ?p = "\<pi> @ [i]"
  note inv = set_ok_inv [OF ok]
  have "pt_mem s" using inv by (simp add: pt_inv_def)
  then obtain q' s1 where al: "alloc_new_pt flag s = Some (q', s1)" using alloc_new_pt_sound by blast
  show ?thesis
  proof (cases "q' = 0")
    case True
    note f = alloc_fails(1) [OF inv al [unfolded True]]
    have l: "length ?p \<le> 4" using q(1) by simp
    have "\<exists>s'. set_range_undo a start_a (word_of_nat (pbase ?p)) (- ENOMEM) s1 = Some (- ENOMEM, s') \<and> set_fail n a start_a end_a s0 (- ENOMEM) s'"
      by (intro set_undo [OF set_ok_same [OF ok f] q(2) l m]) simp
    with al True show ?thesis unfolding set_post_def by fastforce
  next
    case False
    from link_fresh [OF inv q(3,4,2,1,5) al False] obtain s2 where
      s2: "pt_write (q, i) (pt_virt_to_phys s1 q' OR PDIR_ATTR) s1 = Some s2" "pt_same n (sr_pt a) s s2" "table_at n (sr_pt a) s2 ?p q'" by blast
    from set_post_same [OF w [OF s2(3) set_ok_same [OF ok s2(2)]] s2(2)] al False s2(1) show ?thesis by simp
  qed
qed

lemma set_aligned:
  assumes "set_ok n a start_a end_a s0 b s" "path_ok n \<pi>" "length \<pi> \<le> 4" "unat sz = psz (length \<pi>)" "psz (length \<pi>) = 2 ^ sh" "sz = 2 ^ sh"
    and big: "start_a \<le> word_of_nat (pbase \<pi>)" "word_of_nat (pbase \<pi>) + sz \<le> end_a" "sr_diff a AND (sz - 1) = 0"
  shows "unat start_a \<le> pbase \<pi>" "pbase \<pi> + psz (length \<pi>) \<le> unat end_a" "psz (length \<pi>) dvd unat (sr_phys a) + (pbase \<pi> - unat start_a)"
proof -
  note cmp = base_cmp [OF assms(2-4)]
  show b: "unat start_a \<le> pbase \<pi>" "pbase \<pi> + psz (length \<pi>) \<le> unat end_a" using big(1,2) unfolding cmp by simp_all
  have "sr_diff a = start_a XOR sr_phys a" using assms(1) by (simp add: set_ok_def set_pre_def)
  moreover have "2 ^ sh dvd pbase \<pi>" unfolding pbase_def assms(5) by simp
  ultimately show "psz (length \<pi>) dvd unat (sr_phys a) + (pbase \<pi> - unat start_a)" using aligned_diff [OF _ b(1)] big(3) assms(5,6) by simp
qed

abbreviation set_walk :: "nat \<Rightarrow> set_range_args \<Rightarrow> u64 \<Rightarrow> u64 \<Rightarrow> pt_sys \<Rightarrow> nat \<Rightarrow> pt_sys walk_fn \<Rightarrow> bool" where
  "set_walk n a start_a end_a s0 \<equiv> range_walk.entry_ok id n (sr_pt a) start_a end_a False (set_ok n a start_a end_a s0) (set_fail n a start_a end_a s0)"

lemma set_walkI:
  assumes "\<And>\<pi> i q s t. length \<pi> = k \<Longrightarrow> path_ok n (\<pi> @ [i]) \<Longrightarrow> table_at n (sr_pt a) s \<pi> q \<Longrightarrow> ps_tab s q = Some t \<Longrightarrow>
      pt_read (q, i) s = Some (t i) \<Longrightarrow> meets (unat start_a) (unat end_a) (\<pi> @ [i]) \<Longrightarrow>
      set_ok n a start_a end_a s0 (plo (unat start_a) (\<pi> @ [i])) s \<Longrightarrow>
      set_post n a start_a end_a s0 (\<pi> @ [i]) s (f (q, i) (word_of_nat (pbase (\<pi> @ [i]))) start_a end_a s)"
  shows "set_walk n a start_a end_a s0 k f"
  unfolding rset.entry_ok_def
proof (intro allI impI)
  fix \<pi> :: "nat list" and i q s
  let ?p = "\<pi> @ [i]"
  assume l: "length \<pi> = k" and path: "path_ok n ?p" and q: "table_at n (sr_pt a) (id s) \<pi> q" and m: "meets (unat start_a) (unat end_a) ?p"
    and ok: "set_ok n a start_a end_a s0 (plo (unat start_a) ?p) s"
  have q': "table_at n (sr_pt a) s \<pi> q" using q by simp
  obtain t where t: "ps_tab s q = Some t" using inv_table [OF set_ok_inv [OF ok] q'] .
  have "i < 512" using path by (simp add: path_ok_snoc)
  then have rd: "pt_read (q, i) s = Some (t i)" by (rule pt_write_sound(1) [OF t])
  have "err \<noteq> 0 \<and> err \<noteq> - ENOENT" if "set_fail n a start_a end_a s0 err s'" for err s'
    using that by (auto simp: set_fail_def EBUSY_def)
  with assms [OF l path q' t rd m ok]
  show "range_walk.post id n (sr_pt a) False (set_ok n a start_a end_a s0) (set_fail n a start_a end_a s0) (plo (unat start_a) ?p) (phi (unat end_a) ?p) s
      (f (q, i) (word_of_nat (pbase ?p)) start_a end_a s)" unfolding rset.post_def set_post_def id_apply by blast
qed

lemma set_l1: "set_walk n a start_a end_a s0 3 (set_range_l1 a)"
proof (rule set_walkI)
  fix \<pi> :: "nat list" and i q s t
  let ?p = "\<pi> @ [i]"
  assume l: "length \<pi> = 3" and path: "path_ok n ?p" and q: "table_at n (sr_pt a) s \<pi> q" "ps_tab s q = Some t" and rd: "pt_read (q, i) s = Some (t i)"
    and m: "meets (unat start_a) (unat end_a) ?p" and ok: "set_ok n a start_a end_a s0 (plo (unat start_a) ?p) s"
  have al: "4096 dvd unat start_a" "4096 dvd unat end_a" "4096 dvd unat (sr_phys a)" using ok by (simp_all add: set_ok_def set_pre_def)
  have ne: "\<pi> \<noteq> []" and l4: "length ?p = 4" "length \<pi> \<le> 3" "\<not> is_dir (4 - length \<pi>) (t i)" and lv: "4 - length \<pi> = 1" using l by (auto simp: is_dir_def)
  note cov = small_covered [OF m l4(1) al(1,2)]
  show "set_post n a start_a end_a s0 ?p s (set_range_l1 a (q, i) (word_of_nat (pbase ?p)) start_a end_a s)"
  proof (cases "t i = 0")
    case True
    have "psz (length ?p) dvd unat (sr_phys a) + (pbase ?p - unat start_a)" using al l by (simp add: pbase_def psz_def)
    from set_leaf [OF ok ne l4(2) path q True m cov this refl] rd True show ?thesis by (simp add: set_range_l1_def PTE_NULL_def lv set_attr_def Let_def)
  next
    case False
    with set_busy [OF ok l4(2) path q False l4(3) m] rd show ?thesis by (simp add: set_range_l1_def PTE_NULL_def)
  qed
qed

lemma set_l2: "set_walk n a start_a end_a s0 2 (set_range_l2 a)"
proof (rule set_walkI)
  fix \<pi> :: "nat list" and i q s t
  let ?p = "\<pi> @ [i]" and ?base = "word_of_nat (pbase (\<pi> @ [i])) :: u64"
  assume l: "length \<pi> = 2" and path: "path_ok n ?p" and q: "table_at n (sr_pt a) s \<pi> q" "ps_tab s q = Some t" and rd: "pt_read (q, i) s = Some (t i)"
    and m: "meets (unat start_a) (unat end_a) ?p" and ok: "set_ok n a start_a end_a s0 (plo (unat start_a) ?p) s"
  have l3: "\<pi> \<noteq> []" "length \<pi> \<le> 3" "length \<pi> < 3" "length ?p = 3" "length ?p \<le> 4" and lv: "4 - length \<pi> = 2"
    and sz: "unat PTL2_SIZE = psz (length ?p)" "psz (length ?p) = 2 ^ 21" "PTL2_SIZE = 2 ^ 21" using l by (auto simp: level_consts psz_def)
  have dir: "is_dir (4 - length \<pi>) (t i) \<longleftrightarrow> t i \<noteq> 0 \<and> t i AND PF_SIZE = 0" using l by (auto simp: is_dir_def)
  have w: "set_post n a start_a end_a s0 ?p s2 (walk_pte_l1 q' ?base start_a end_a (set_range_l1 a) s2)"
    if "table_at n (sr_pt a) s2 ?p q'" "set_ok n a start_a end_a s0 (plo (unat start_a) ?p) s2" for q' s2
    using set_post_at [OF rset.walk_l1 [OF set_l1 l3(4) _ m that(2)]] that(1) by simp
  let ?large = "start_a \<le> ?base \<and> ?base + PTL2_SIZE \<le> end_a \<and> sr_diff a AND (PTL2_SIZE - 1) = 0 \<and> (sr_pgshift a = 0 \<or> sr_pgshift a = PTL2_SHIFT)"
  consider "t i = 0" ?large | "t i = 0" "\<not> ?large" | "t i \<noteq> 0" "t i AND PF_SIZE \<noteq> 0" | "t i \<noteq> 0" "t i AND PF_SIZE = 0" by blast
  then show "set_post n a start_a end_a s0 ?p s (set_range_l2 a (q, i) ?base start_a end_a s)"
  proof cases
    case 1
    then have "start_a \<le> ?base" "?base + PTL2_SIZE \<le> end_a" "sr_diff a AND (PTL2_SIZE - 1) = 0" by blast+
    note al = set_aligned [OF ok path l3(5) sz this]
    from set_leaf [OF ok l3(1,2) path q 1(1) m al refl] 1 rd show ?thesis by (simp add: set_range_l2_def PTE_NULL_def lv set_attr_def Let_def)
  next
    case 2
    have "set_range_l2 a (q, i) ?base start_a end_a s =
        (do { (newpt, s) \<leftarrow> alloc_new_pt IHK_MC_AP_NOWAIT s;
             if newpt = 0 then set_range_undo a start_a ?base (- ENOMEM) s
             else do { s \<leftarrow> pt_write (q, i) (pt_virt_to_phys s newpt OR PDIR_ATTR) s; walk_pte_l1 newpt ?base start_a end_a (set_range_l1 a) s } })"
      unfolding set_range_l2_def rd bind.bind_lunit PTE_NULL_def if_P [OF 2(1)] if_not_P [OF 2(2)] by (rule refl)
    then show ?thesis using set_descend [OF ok l3(3) path q 2(1) m w] by simp
  next
    case 3
    with set_busy [OF ok l3(2) path q 3(1) _ m] dir rd show ?thesis by (simp add: set_range_l2_def PTE_NULL_def)
  next
    case 4
    with w [OF table_child [OF q path] ok] dir rd show ?thesis by (simp add: set_range_l2_def PTE_NULL_def)
  qed
qed

lemma set_l3: "set_walk n a start_a end_a s0 1 (set_range_l3 a)"
proof (rule set_walkI)
  fix \<pi> :: "nat list" and i q s t
  let ?p = "\<pi> @ [i]" and ?base = "word_of_nat (pbase (\<pi> @ [i])) :: u64"
  assume l: "length \<pi> = 1" and path: "path_ok n ?p" and q: "table_at n (sr_pt a) s \<pi> q" "ps_tab s q = Some t" and rd: "pt_read (q, i) s = Some (t i)"
    and m: "meets (unat start_a) (unat end_a) ?p" and ok: "set_ok n a start_a end_a s0 (plo (unat start_a) ?p) s"
  have l3: "\<pi> \<noteq> []" "length \<pi> \<le> 3" "length \<pi> < 3" "length ?p = 2" "length ?p \<le> 4" and lv: "4 - length \<pi> = 3"
    and sz: "unat PTL3_SIZE = psz (length ?p)" "psz (length ?p) = 2 ^ 30" "PTL3_SIZE = 2 ^ 30" using l by (auto simp: level_consts psz_def)
  have dir: "is_dir (4 - length \<pi>) (t i) \<longleftrightarrow> t i \<noteq> 0 \<and> t i AND PF_SIZE = 0" using l by (auto simp: is_dir_def)
  have w: "set_post n a start_a end_a s0 ?p s2 (walk_pte_l2 q' ?base start_a end_a (set_range_l2 a) s2)"
    if "table_at n (sr_pt a) s2 ?p q'" "set_ok n a start_a end_a s0 (plo (unat start_a) ?p) s2" for q' s2
    using set_post_at [OF rset.walk_l2 [OF set_l2 l3(4) _ m that(2)]] that(1) by simp
  let ?large = "start_a \<le> ?base \<and> ?base + PTL3_SIZE \<le> end_a \<and> sr_diff a AND (PTL3_SIZE - 1) = 0 \<and> (sr_pgshift a = 0 \<or> sr_pgshift a = PTL3_SHIFT) \<and> ps_use_1gb_page s"
  consider "t i = 0" ?large | "t i = 0" "\<not> ?large" | "t i \<noteq> 0" "t i AND PF_SIZE \<noteq> 0" | "t i \<noteq> 0" "t i AND PF_SIZE = 0" by blast
  then show "set_post n a start_a end_a s0 ?p s (set_range_l3 a (q, i) ?base start_a end_a s)"
  proof cases
    case 1
    then have "start_a \<le> ?base" "?base + PTL3_SIZE \<le> end_a" "sr_diff a AND (PTL3_SIZE - 1) = 0" by blast+
    note al = set_aligned [OF ok path l3(5) sz this]
    from set_leaf [OF ok l3(1,2) path q 1(1) m al refl] 1 rd show ?thesis by (simp add: set_range_l3_def PTE_NULL_def lv set_attr_def Let_def)
  next
    case 2
    have "set_range_l3 a (q, i) ?base start_a end_a s =
        (do { (newpt, s) \<leftarrow> alloc_new_pt IHK_MC_AP_NOWAIT s;
             if newpt = 0 then set_range_undo a start_a ?base (- ENOMEM) s
             else do { s \<leftarrow> pt_write (q, i) (pt_virt_to_phys s newpt OR PDIR_ATTR) s; walk_pte_l2 newpt ?base start_a end_a (set_range_l2 a) s } })"
      unfolding set_range_l3_def rd bind.bind_lunit PTE_NULL_def if_P [OF 2(1)] if_not_P [OF 2(2)] by (rule refl)
    then show ?thesis using set_descend [OF ok l3(3) path q 2(1) m w] by simp
  next
    case 3
    with set_busy [OF ok l3(2) path q 3(1) _ m] dir rd show ?thesis by (simp add: set_range_l3_def PTE_NULL_def)
  next
    case 4
    with w [OF table_child [OF q path] ok] dir rd show ?thesis by (simp add: set_range_l3_def PTE_NULL_def)
  qed
qed

lemma set_l4: "set_walk n a start_a end_a s0 0 (set_range_l4 a)"
proof (rule set_walkI)
  fix \<pi> :: "nat list" and i q s t
  let ?p = "\<pi> @ [i]" and ?base = "word_of_nat (pbase (\<pi> @ [i])) :: u64"
  assume l: "length \<pi> = 0" and path: "path_ok n ?p" and q: "table_at n (sr_pt a) s \<pi> q" "ps_tab s q = Some t" and rd: "pt_read (q, i) s = Some (t i)"
    and m: "meets (unat start_a) (unat end_a) ?p" and ok: "set_ok n a start_a end_a s0 (plo (unat start_a) ?p) s"
  have l3: "length \<pi> < 3" "length ?p = 1" and dir: "is_dir (4 - length \<pi>) (t i) \<longleftrightarrow> t i \<noteq> 0" using l by (auto simp: is_dir_def)
  have w: "set_post n a start_a end_a s0 ?p s2 (walk_pte_l3 q' ?base start_a end_a (set_range_l3 a) s2)"
    if "table_at n (sr_pt a) s2 ?p q'" "set_ok n a start_a end_a s0 (plo (unat start_a) ?p) s2" for q' s2
    using set_post_at [OF rset.walk_l3 [OF set_l3 l3(2) _ m that(2)]] that(1) by simp
  show "set_post n a start_a end_a s0 ?p s (set_range_l4 a (q, i) ?base start_a end_a s)"
  proof (cases "t i = 0")
    case True
    have "set_range_l4 a (q, i) ?base start_a end_a s =
        (do { (newpt, s) \<leftarrow> alloc_new_pt IHK_MC_AP_NOWAIT s;
             if newpt = 0 then set_range_undo a start_a ?base (- ENOMEM) s
             else do { s \<leftarrow> pt_write (q, i) (pt_virt_to_phys s newpt OR PDIR_ATTR) s; walk_pte_l3 newpt ?base start_a end_a (set_range_l3 a) s } })"
      unfolding set_range_l4_def rd bind.bind_lunit PTE_NULL_def if_P [OF True] by (rule refl)
    then show ?thesis using set_descend [OF ok l3(1) path q True m w] by simp
  next
    case False
    with w [OF table_child [OF q path] ok] dir rd show ?thesis by (simp add: set_range_l4_def PTE_NULL_def)
  qed
qed

text \<open>The whole operation: everything is mapped, or a page was in the way or memory for a table was missing, and then
  what was mapped is taken back; only where that too needs a table that cannot be had does a part of the mapping stay.\<close>

lemma set_range_sound:
  fixes pt phys attr start_a end_a pgshift vm rng
  defines "a \<equiv> \<lparr>sr_pt = pt, sr_phys = phys, sr_attr = attr, sr_pgshift = pgshift, sr_diff = start_a XOR phys, sr_vm = vm, sr_range = rng\<rparr>"
  assumes pre: "set_pre n a start_a end_a s"
  shows "\<exists>err s'. ihk_mc_pt_set_range pt vm start_a end_a phys attr pgshift rng s = Some (err, s') \<and>
    (err = 0 \<and> pt_inv n pt s' \<and> pt_keep s s' \<and> pt_upd n pt {unat start_a ..< unat end_a} s s' \<and> set_part n a start_a (unat end_a) s s' \<or>
     set_fail n a start_a end_a s err s')"
proof -
  have inv: "pt_inv n (sr_pt a) s" and rg: "unat start_a < unat end_a" "unat end_a \<le> n * 2 ^ 39" using pre by (auto simp: set_pre_def word_less_nat_alt)
  have "pt_keep s s" "pt_upd n (sr_pt a) {} s s" using inv pt_same_refl by (auto simp: pt_same_def)
  then have "set_ok n a start_a end_a s (unat start_a) s" using pre rg by (simp add: set_ok_def set_part_def)
  from rset.walk_l4 [OF set_l4 this rg(2)] obtain err s' where
    w: "walk_pte_l4 (sr_pt a) 0 start_a end_a (set_range_l4 a) s = Some (err, s')"
    "err = 0 \<and> set_ok n a start_a end_a s (unat end_a) s' \<or> set_fail n a start_a end_a s err s'" unfolding rset.post_def by blast
  have "ihk_mc_pt_set_range pt vm start_a end_a phys attr pgshift rng s = Some (err, s')"
    using w(1) by (simp add: ihk_mc_pt_set_range_def a_def)
  moreover have "sr_pt a = pt" by (simp add: a_def)
  ultimately show ?thesis using w(2) set_ok_inv [of n a start_a end_a s "unat end_a" s'] by (auto simp: set_ok_def)
qed

end
