(* ===== verification/PtSpace.thy ===== *)
theory PtSpace
  imports PtSet
begin

section \<open>An address space and its operations\<close>

text \<open>
  The operations on the page tables of a process taken together: in any order they keep the tables
  well-formed, lose no memory and leave the tables of other processes alone.  The properties of the
  single operations are stated here over the addresses of the process.
\<close>

unbundle bit_operations_syntax

subsection \<open>The operations on an address space\<close>

datatype pt_op =
    Set_Page u64 u64 u64
  | Clear_Range process_vm u64 u64
  | Free_Range process_vm u64 u64 "nat option"
  | Change_Attr u64 u64 u64 u64
  | Set_Range process_vm u64 u64 u64 u64 nat vm_range

fun pt_exec :: "u64 \<Rightarrow> pt_op \<Rightarrow> pt_sys \<Rightarrow> (int \<times> pt_sys) option" where
  "pt_exec r (Set_Page virt phys attr) s = ihk_mc_pt_set_page r virt phys attr s"
| "pt_exec r (Clear_Range vm st en) s = ihk_mc_pt_clear_range r vm st en s"
| "pt_exec r (Free_Range vm st en obj) s = ihk_mc_pt_free_range r vm st en obj s"
| "pt_exec r (Change_Attr st en cl se) s = ihk_mc_pt_change_attr_range r st en cl se s"
| "pt_exec r (Set_Range vm st en phys attr pgshift rng) s = ihk_mc_pt_set_range r vm st en phys attr pgshift rng s"

text \<open>A range of whole pages below the top entry \<open>n\<close>.\<close>

definition page_area :: "nat \<Rightarrow> u64 \<Rightarrow> u64 \<Rightarrow> bool" where
  "page_area n st en \<longleftrightarrow> st < en \<and> unat en \<le> n * 2 ^ 39 \<and> 4096 dvd unat st \<and> 4096 dvd unat en"

definition user_area :: "nat \<Rightarrow> process_vm \<Rightarrow> u64 \<Rightarrow> u64 \<Rightarrow> bool" where
  "user_area n vm st en \<longleftrightarrow> page_area n st en \<and> pv_user_start vm \<le> st \<and> en \<le> pv_user_end vm"

text \<open>Physical pages that can be mapped: page by page below 4 PiB and not at 0.\<close>

definition phys_area :: "u64 \<Rightarrow> nat \<Rightarrow> bool" where
  "phys_area phys len \<longleftrightarrow> 4096 dvd unat phys \<and> 0 < unat phys \<and> unat phys + len \<le> 2 ^ 52"

text \<open>What the callers of the operations see to.\<close>

fun pt_guard :: "nat \<Rightarrow> u64 \<Rightarrow> pt_op \<Rightarrow> pt_sys \<Rightarrow> bool" where
  "pt_guard n r (Set_Page virt phys attr) s \<longleftrightarrow> unat virt < n * 2 ^ 39 \<and> way_free n r virt (attr OR PTATTR_ACTIVE) s"
| "pt_guard n r (Clear_Range vm st en) s \<longleftrightarrow> user_area n vm st en"
| "pt_guard n r (Free_Range vm st en obj) s \<longleftrightarrow> user_area n vm st en \<and>
     (clear_frees vm st en True obj s \<longrightarrow> anon r (unat st) (unat en) s \<and> \<not> obj_has s obj MF_XPMEM)"
| "pt_guard n r (Change_Attr st en cl se) s \<longleftrightarrow> page_area n st en \<and> attr_mask_ok (ps_attr_mask s)"
| "pt_guard n r (Set_Range vm st en phys attr pgshift rng) s \<longleftrightarrow> user_area n vm st en \<and> attr_mask_ok (ps_attr_mask s) \<and> phys_area phys (unat en - unat st)"

inductive pt_reach :: "nat \<Rightarrow> u64 \<Rightarrow> pt_sys \<Rightarrow> pt_sys \<Rightarrow> bool" for n r s where
  start: "pt_reach n r s s"
| step: "pt_reach n r s s1 \<Longrightarrow> pt_guard n r op s1 \<Longrightarrow> pt_exec r op s1 = Some (ret, s2) \<Longrightarrow> pt_reach n r s s2"

definition pt_evolves :: "nat \<Rightarrow> u64 \<Rightarrow> pt_sys \<Rightarrow> pt_sys \<Rightarrow> bool" where
  "pt_evolves n r s s' \<longleftrightarrow> pt_inv n r s' \<and> same_ctx s s' \<and> others_same n r s s' \<and> pt_total s \<subseteq> pt_total s'"

lemma pt_evolves_trans: "pt_evolves n r s s' \<Longrightarrow> pt_evolves n r s' s'' \<Longrightarrow> pt_evolves n r s s''"
  unfolding pt_evolves_def using same_ctx_trans others_same_trans by blast

lemma pt_evolves_upd: "pt_upd n r R s s' \<Longrightarrow> pt_keep s s' \<Longrightarrow> pt_evolves n r s s'"
  unfolding pt_evolves_def by (simp add: pt_upd_inv pt_upd_ctx pt_upd_others pt_keep_def)

lemma pt_evolves_cleared: "cleared n r free a b s s' \<Longrightarrow> pt_evolves n r s s'"
  by (auto simp: pt_evolves_def cleared_def)

lemma pt_evolves_changed: "changed n r cl se a b s s' \<Longrightarrow> pt_evolves n r s s'"
  by (auto simp: pt_evolves_def changed_def)

lemma pt_exec_sound:
  assumes inv: "pt_inv n r s" and r: "r \<noteq> 0" and g: "pt_guard n r op s"
  shows "\<exists>ret s'. pt_exec r op s = Some (ret, s') \<and> pt_evolves n r s s'"
proof (cases op)
  case (Set_Page virt phys attr)
  from set_pt_page_sound [OF inv r, of virt "attr OR PTATTR_ACTIVE" phys] g show ?thesis
    unfolding Set_Page by (auto simp: set_good_def ihk_mc_pt_set_page_def intro: pt_evolves_upd)
next
  case (Clear_Range vm st en)
  have "\<exists>ret s'. clear_range r vm st en False None s = Some (ret, s') \<and> pt_evolves n r s s'"
    using clear_range_sound [OF inv, of st en vm False None] g pt_evolves_cleared unfolding Clear_Range
    by (simp add: user_area_def page_area_def clear_frees_def) blast
  then show ?thesis unfolding Clear_Range by (simp add: ihk_mc_pt_clear_range_def)
next
  case (Free_Range vm st en obj)
  have "\<exists>ret s'. clear_range r vm st en True obj s = Some (ret, s') \<and> pt_evolves n r s s'"
    using clear_range_sound [OF inv, of st en vm True obj] g pt_evolves_cleared unfolding Free_Range
    by (simp add: user_area_def page_area_def) blast
  then show ?thesis unfolding Free_Range by (simp add: ihk_mc_pt_free_range_def)
next
  case (Change_Attr st en cl se)
  from change_attr_sound [OF inv _ _ _ _ _ refl refl, of st en cl se] g pt_evolves_changed show ?thesis unfolding Change_Attr
    by (simp add: page_area_def) blast
next
  case (Set_Range vm st en phys attr pgshift rng)
  have ev: "pt_evolves n (sr_pt a) s s'" if "set_fail n a st en s err s'" for a err s'
    using that by (auto simp: set_fail_def pt_evolves_def pt_keep_def)
  from set_range_sound [of n r phys attr pgshift st vm rng en s] g inv show ?thesis unfolding Set_Range
    using ev pt_evolves_upd by (simp add: set_pre_def user_area_def page_area_def phys_area_def) fastforce
qed

lemma pt_reach_evolves: "pt_reach n r s s' \<Longrightarrow> pt_inv n r s \<Longrightarrow> r \<noteq> 0 \<Longrightarrow> pt_evolves n r s s'"
proof (induction rule: pt_reach.induct)
  case start
  then show ?case by (simp add: pt_evolves_def)
next
  case (step s1 op ret s2)
  then have e: "pt_evolves n r s s1" by blast
  then have "pt_evolves n r s1 s2" using pt_exec_sound [OF _ step.prems(2) step.hyps(2)] step.hyps(3) by (auto simp: pt_evolves_def)
  with e show ?case by (rule pt_evolves_trans)
qed

subsection \<open>Two address spaces\<close>

lemma ptw_same:
  assumes "\<And>\<pi> q. reached km T n r \<pi> q \<Longrightarrow> T' q = T q"
  shows "reached km T' n r \<pi> q = reached km T n r \<pi> q"
proof (induction \<pi> arbitrary: q rule: rev_induct)
  case (snoc i \<pi>)
  then show ?case unfolding reached_snoc using assms by metis
qed (simp add: reached_def)

lemma lf_same:
  assumes same: "\<And>\<pi> q. reached km T n r \<pi> q \<Longrightarrow> T' q = T q" and p: "reached km T n r \<pi> p" "path_ok n (\<pi> @ is)" "length \<pi> + length is = 4"
  shows "lf km T' (4 - length \<pi>) p is = lf km T (4 - length \<pi>) p is"
  using p
proof (induction "is" arbitrary: \<pi> p)
  case (Cons i "is")
  have path: "path_ok n (\<pi> @ [i])" using Cons.prems(2) path_ok_append [of n "\<pi> @ [i]" "is"] by simp
  note T' = same [OF Cons.prems(1)]
  show ?case
  proof (cases "T p")
    case (Some t)
    show ?thesis
    proof (cases "is_dir (4 - length \<pi>) (t i)")
      case True
      then have "length \<pi> \<le> 2" by (auto simp: is_dir_def)
      with True Some path Cons.prems(1) have "reached km T n r (\<pi> @ [i]) (child km (t i))" unfolding reached_snoc by blast
      from Cons.IH [OF this] Cons.prems(2,3) have "lf km T' (4 - length \<pi> - 1) (child km (t i)) is = lf km T (4 - length \<pi> - 1) (child km (t i)) is" by simp
      with Some T' show ?thesis by (auto simp: is_dir_def)
    qed (use Some T' in simp)
  qed (use T' in simp)
qed simp

definition apart :: "nat \<Rightarrow> u64 \<Rightarrow> nat \<Rightarrow> u64 \<Rightarrow> pt_sys \<Rightarrow> bool" where
  "apart n r m r' s \<longleftrightarrow> (\<forall>\<pi> \<pi>' q. table_at n r s \<pi> q \<longrightarrow> \<not> table_at m r' s \<pi>' q)"

lemma apart_evolves:
  assumes ev: "pt_evolves n r s s'" and inv: "pt_inv m r' s" and ap: "apart n r m r' s"
  shows "pt_inv m r' s'" "apart n r m r' s'" "v < m * 2 ^ 39 \<Longrightarrow> pte_at r' s' v = pte_at r' s v"
proof -
  note tr = inv_tree [OF inv]
  let ?km = "ms_map (ps_ms s)" and ?T = "ps_tab s" and ?T' = "ps_tab s'"
  have km: "ms_map (ps_ms s') = ?km" and mem: "pt_mem s'" using ev by (auto simp: pt_evolves_def same_ctx_def pt_inv_def)
  have oth: "?T' q = ?T q \<and> (\<forall>\<pi>'. \<not> table_at n r s' \<pi>' q)" if "reached ?km ?T m r' \<pi> q" for \<pi> q
    using ev ap tree_allocated [OF tr that] that unfolding pt_evolves_def others_same_def apart_def table_at_def by blast
  then have same: "?T' q = ?T q" if "reached ?km ?T m r' \<pi> q" for \<pi> q using that by blast
  have re: "reached ?km ?T' m r' \<pi> q = reached ?km ?T m r' \<pi> q" for \<pi> q by (rule ptw_same) (rule same)
  have "tree ?km ?T' m r'"
  proof (rule treeI)
    show "m \<le> 512" using tr by (simp add: tree_def)
    show "?T' q \<noteq> None" if "reached ?km ?T' m r' \<pi> q" for \<pi> q using that tree_allocated [OF tr] same unfolding re by simp
    show "\<pi> = \<pi>'" if "reached ?km ?T' m r' \<pi> q" "reached ?km ?T' m r' \<pi>' q" for \<pi> \<pi>' q using that tree_path_unique [OF tr] unfolding re by blast
    show "dir_ok (t i)" if "reached ?km ?T' m r' \<pi> q" "?T' q = Some t" "path_ok m (\<pi> @ [i])" "is_dir (4 - length \<pi>) (t i)" for \<pi> q t i
      using that tree_dir_ok [OF tr, of \<pi> q t i] same unfolding re by simp
  qed
  with km mem show "pt_inv m r' s'" by (simp add: pt_inv_def)
  show "apart n r m r' s'" unfolding apart_def table_at_def [of m] km re using oth by blast
  assume v: "v < m * 2 ^ 39"
  from inv_bound [OF inv v] have "path_ok m (vix v)" by simp
  then show "pte_at r' s' v = pte_at r' s v"
    using lf_same [of ?km ?T m r' ?T' "[]" r' "vix v"] same reached_root [of ?km ?T m r'] by (simp add: pte_at_def km vix_def)
qed

subsection \<open>Translating what a range was mapped to\<close>

lemma set_attr_present: "attr_mask_ok m \<Longrightarrow> attr AND PTATTR_ACTIVE \<noteq> 0 \<Longrightarrow> bit (set_attr m attr L) 0"
proof -
  assume m: "attr_mask_ok m" and a: "attr AND PTATTR_ACTIVE \<noteq> 0"
  have b: "bit m 0" using m by (auto simp: attr_mask_ok_def attr_mask_init_def PTATTR_FILEOFF_def PTATTR_WRITABLE_def PTATTR_USER_def PTATTR_ACTIVE_def PTATTR_NO_EXECUTE_def)
  have "bit attr 0"
  proof (rule ccontr)
    assume "\<not> bit attr 0"
    then have "attr AND PTATTR_ACTIVE = 0" by (intro bit_eqI) (auto simp: bit_simps PTATTR_ACTIVE_def bit_1_iff intro: gr0I)
    with a show False by simp
  qed
  with b show ?thesis by (simp add: set_attr_def attr_to_l1attr_def attr_to_l2attr_def attr_to_l3attr_def bit_simps Let_def)
qed

lemma or_offset:
  fixes p w :: u64
  assumes "2 ^ k dvd unat p"
  shows "p OR (w AND (2 ^ k - 1)) = p + (w AND (2 ^ k - 1))"
proof -
  have "take_bit k (unat p) = 0" using assms by (simp add: take_bit_eq_mod)
  then have "unat (take_bit k p) = 0" by (simp only: unsigned_take_bit_eq)
  then have p: "take_bit k p = 0" by (simp only: unsigned_eq_0_iff)
  have "\<not> bit p j" if "j < k" for j using arg_cong [OF p, of "\<lambda>x. bit x j"] that by (simp add: bit_take_bit_iff)
  then have "p AND take_bit k w = 0" by (intro bit_eqI) (auto simp: bit_simps)
  then have "p AND (w AND (2 ^ k - 1)) = 0" by (simp add: take_bit_eq_mask mask_eq_exp_minus_1)
  then show ?thesis by (simp add: disjunctive_add_eq_or)
qed

lemma set_at_translate:
  assumes at: "set_at m a start_a b (unat w) (pte_at r s (unat w))" and m: "attr_mask_ok m" "sr_attr a AND PTATTR_ACTIVE \<noteq> 0"
    and ph: "phys_area (sr_phys a) (b - unat start_a)" and w: "unat w < b" "b \<le> 2 ^ 48"
  shows "\<exists>L \<in> {1..3}. translate r s w = Inr (sr_phys a + (w - start_a), level_size L)"
proof -
  let ?st = "unat start_a"
  obtain L base where L: "L \<in> {1..3}" "base = unat w div psz (5 - L) * psz (5 - L)" "?st \<le> base" "base + psz (5 - L) \<le> b"
    "pte_at r s (unat w) = Some (L, set_entry m a start_a L base)" "psz (5 - L) dvd unat (sr_phys a) + (base - ?st)"
    using at unfolding set_at_def Let_def by blast
  have "L = 1 \<or> L = 2 \<or> L = 3" using L(1) by auto
  then have p: "psz (5 - L) = 2 ^ (9 * L + 3)" and sz: "level_size L = 2 ^ (9 * L + 3)" and k: "9 * L + 3 < 64" "12 \<le> 9 * L + 3"
    by (auto simp: psz_def level_size_def level_consts)
  let ?k = "9 * L + 3"
  have bw: "base \<le> unat w" "base < 2 ^ 64" using L(2) w by (auto intro: le_less_trans [OF div_times_less_eq_dividend])
  have ub: "unat (word_of_nat base :: u64) = base" using bw(2) by (simp add: unat_of_nat take_bit_nat_eq_self)
  let ?pa = "sr_phys a + (word_of_nat base - start_a)"
  have pa: "unat ?pa = unat (sr_phys a) + (base - ?st)"
  proof -
    have "unat (word_of_nat base - start_a) = base - ?st" using ub L(3) by (simp add: unat_sub word_le_nat_alt)
    moreover have "unat (sr_phys a) + (base - ?st) < 2 ^ 64" using ph L(4) bw by (auto simp: phys_area_def)
    ultimately show ?thesis by (simp add: u64_add)
  qed
  have lt: "unat ?pa < 2 ^ 52" "2 ^ ?k dvd unat ?pa" using ph L(3,6) le_less_trans [OF bw(1) w(1)] unfolding pa p by (auto simp: phys_area_def)
  have "(4096 :: nat) dvd 2 ^ ?k" using le_imp_power_dvd [OF k(2), of "2 :: nat"] by simp
  then have "4096 dvd unat ?pa" using lt(2) dvd_trans by blast
  then have g: "pte_get_phys (set_entry m a start_a L base) = ?pa" unfolding set_entry_def by (rule page_addr_or(1) [OF _ lt(1) m(1)])
  have "bit (set_entry m a start_a L base) 0" unfolding set_entry_def using set_attr_present [OF m] by (simp add: bit_or_iff)
  then have pr: "set_entry m a start_a L base AND PF_PRESENT \<noteq> 0" by (auto simp: PF_PRESENT_def and_one_eq odd_iff_mod_2_eq_one bit_0)
  have off: "unat (w AND (2 ^ ?k - 1)) = unat w mod 2 ^ ?k"
    by (metis mask_eq_exp_minus_1 take_bit_eq_mask take_bit_eq_mod unsigned_take_bit_eq)
  have "w = word_of_nat base + (w AND (2 ^ ?k - 1))"
    using arg_cong [OF trans [OF off refl], of "\<lambda>x. word_of_nat (base + x) :: u64"] div_mult_mod_eq [of "unat w" "2 ^ ?k"] L(2) p by simp
  then have "?pa + (w AND (2 ^ ?k - 1)) = sr_phys a + (w - start_a)" by (metis (no_types) add.assoc add.commute add_diff_eq)
  then have "translate r s w = Inr (sr_phys a + (w - start_a), level_size L)"
    using L(5) pr g or_offset [OF lt(2), of w] by (simp add: translate_def sz)
  with L(1) show ?thesis by blast
qed

subsection \<open>An example\<close>

text \<open>Four tables that map the page at 0x10000 to the physical page 0x95000, and the empty top table of another process.\<close>

definition ex_table :: "nat \<Rightarrow> u64 \<Rightarrow> nat \<Rightarrow> u64" where
  "ex_table i e = (\<lambda>j. if j = i then e else 0)"

definition ex_tabs :: tables where
  "ex_tabs = [0xffff880000091000 \<mapsto> ex_table 0 0x92007, 0xffff880000092000 \<mapsto> ex_table 0 0x93007, 0xffff880000093000 \<mapsto> ex_table 0 0x94007,
     0xffff880000094000 \<mapsto> ex_table 16 0x95007, 0xffff880000096000 \<mapsto> ex_table 0 0]"

definition ex_root :: u64 where
  "ex_root = 0xffff880000091000"

definition ex_root2 :: u64 where
  "ex_root2 = 0xffff880000096000"

definition ex_pt :: pt_sys where
  "ex_pt = \<lparr>ps_tab = ex_tabs, ps_ms = example_ms, ps_objs = (\<lambda>_. \<lparr>mo_flags = 0, mo_refcnt = 1\<rparr>), ps_init_pt = 0, ps_fixed_virt = 0,
     ps_use_1gb_page = False, ps_attr_mask = attr_mask_init, ps_zero_at_free = True, ps_deferred_zero = False, ps_may_ask = False, ps_events = []\<rparr>"

lemma ex_dom: "dom ex_tabs = {0xffff880000091000, 0xffff880000092000, 0xffff880000093000, 0xffff880000094000, 0xffff880000096000}"
  by (auto simp: ex_tabs_def)

lemma ex_reached:
  assumes "reached example_map ex_tabs 256 ex_root \<pi> q"
  shows "(\<pi>, q) \<in> {([], 0xffff880000091000), ([0], 0xffff880000092000), ([0, 0], 0xffff880000093000), ([0, 0, 0], 0xffff880000094000)}"
  using assms
proof (induction \<pi> arbitrary: q rule: rev_induct)
  case Nil
  then show ?case by (simp add: reached_def ex_root_def)
next
  case (snoc i \<pi>)
  then obtain p t where p: "reached example_map ex_tabs 256 ex_root \<pi> p" "length \<pi> \<le> 2" "ex_tabs p = Some t" "is_dir (4 - length \<pi>) (t i)" "q = child example_map (t i)"
    unfolding reached_snoc by blast
  show ?case using snoc.IH [OF p(1)] p(2-5)
    by (auto simp: ex_tabs_def ex_table_def is_dir_def child_def phys_to_virt_def example_map_def PT_PHYSMASK_def split: if_splits)
qed

lemma ex_reached2: "reached example_map ex_tabs 256 ex_root2 \<pi> q \<Longrightarrow> (\<pi>, q) = ([], 0xffff880000096000)"
proof (induction \<pi> arbitrary: q rule: rev_induct)
  case (snoc i \<pi>)
  then obtain p t where p: "reached example_map ex_tabs 256 ex_root2 \<pi> p" "ex_tabs p = Some t" "is_dir (4 - length \<pi>) (t i)" unfolding reached_snoc by blast
  from snoc.IH [OF p(1)] p(2,3) show ?case by (auto simp: ex_tabs_def ex_table_def is_dir_def)
qed (simp add: reached_def ex_root2_def)

lemma ex_inv_tree: "tree example_map ex_tabs 256 ex_root" "tree example_map ex_tabs 256 ex_root2"
proof -
  show "tree example_map ex_tabs 256 ex_root"
  proof (rule treeI)
    show "ex_tabs q \<noteq> None" if "reached example_map ex_tabs 256 ex_root \<pi> q" for \<pi> q using ex_reached [OF that] by (auto simp: ex_tabs_def)
    show "\<pi> = \<pi>'" if "reached example_map ex_tabs 256 ex_root \<pi> q" "reached example_map ex_tabs 256 ex_root \<pi>' q" for \<pi> \<pi>' q
      using ex_reached [OF that(1)] ex_reached [OF that(2)] by auto
    show "dir_ok (t i)" if "reached example_map ex_tabs 256 ex_root \<pi> q" "ex_tabs q = Some t" "is_dir (4 - length \<pi>) (t i)" for \<pi> q t i
      using ex_reached [OF that(1)] that(2,3) by (auto simp: ex_tabs_def ex_table_def is_dir_def dir_ok_def PT_PHYSMASK_def PDIR_ATTR_def split: if_splits)
  qed simp
  show "tree example_map ex_tabs 256 ex_root2"
  proof (rule treeI)
    show "ex_tabs q \<noteq> None" if "reached example_map ex_tabs 256 ex_root2 \<pi> q" for \<pi> q using ex_reached2 [OF that] by (auto simp: ex_tabs_def)
    show "\<pi> = \<pi>'" if "reached example_map ex_tabs 256 ex_root2 \<pi> q" "reached example_map ex_tabs 256 ex_root2 \<pi>' q" for \<pi> \<pi>' q
      using ex_reached2 [OF that(1)] ex_reached2 [OF that(2)] by auto
    show "dir_ok (t i)" if "reached example_map ex_tabs 256 ex_root2 \<pi> q" "ex_tabs q = Some t" "is_dir (4 - length \<pi>) (t i)" for \<pi> q t i
      using ex_reached2 [OF that(1)] that(2,3) by (auto simp: ex_tabs_def ex_table_def is_dir_def)
  qed simp
qed

lemma ex_frame: "q \<in> dom ex_tabs \<Longrightarrow> frame_ok example_ms q \<and> tab_page ex_pt q \<subseteq> {0x91000 ..< 0x95000} \<union> {0x96000 ..< 0x97000}"
proof -
  assume "q \<in> dom ex_tabs"
  moreover have km: "ms_map example_ms = example_map" by (simp add: example_ms_def)
  ultimately show ?thesis unfolding ex_dom frame_ok_def tab_page_def pt_virt_to_phys_def km example_ms_bytes
    by (auto simp: ex_pt_def km virt_to_phys_def phys_to_virt_def example_map_def page_range_def)
qed

lemma ex_total: "pt_total ex_pt \<subseteq> {0x10000 ..< 0x60000} \<union> {0x80000 ..< 0x90000} \<union> {0x91000 ..< 0x95000} \<union> {0x96000 ..< 0x97000}"
  unfolding pt_total_def tab_bytes_def using example_ms_bytes(1) ex_frame by (fastforce simp: ex_pt_def)

lemma ex_no_page: "pa \<noteq> 0x90000 \<Longrightarrow> phys_to_page (ms_hash example_ms) pa = None"
  by (auto simp: phys_to_page_def example_hash_def example_ms_def)

lemma ex_pt_mem: "pt_mem ex_pt"
proof -
  have "phys_to_page (ms_hash example_ms) pa = None" if "unat pa \<in> pt_total ex_pt" for pa
    using subsetD [OF ex_total that] ex_no_page [of pa] by (cases "pa = 0x90000") auto
  then have "no_struct example_ms (pt_total ex_pt)" unfolding no_struct_def by blast
  with ex_frame example_ms_ok show ?thesis by (auto simp: pt_mem_def ex_pt_def)
qed

lemma ex_lent: "lent 1 0x95000 ex_pt"
proof -
  have pr: "page_range 0x95000 1 = {0x95000 ..< 0x96000}" by (simp add: page_range_def)
  have "phys_to_page (ms_hash example_ms) pa = None" if "unat pa \<in> {0x95000 ..< 0x96000}" for pa
    using that ex_no_page [of pa] by (cases "pa = 0x90000") auto
  then have "no_struct example_ms {0x95000 ..< 0x96000}" unfolding no_struct_def by blast
  moreover have "{0x95000 ..< 0x96000} \<inter> pt_total ex_pt = {}" using ex_total by fastforce
  moreover have "{0x95000 ..< 0x96000} \<subseteq> mem_range example_ms" unfolding example_ms_bytes by auto
  ultimately show ?thesis unfolding lent_def pr by (simp add: ex_pt_def)
qed

lemma ex_inv: "pt_inv 256 ex_root ex_pt" "pt_inv 256 ex_root2 ex_pt" "apart 256 ex_root 256 ex_root2 ex_pt"
proof -
  have e: "ms_map (ps_ms ex_pt) = example_map" "ps_tab ex_pt = ex_tabs" by (simp_all add: ex_pt_def example_ms_def)
  then show "pt_inv 256 ex_root ex_pt" "pt_inv 256 ex_root2 ex_pt" using ex_pt_mem ex_inv_tree by (simp_all add: pt_inv_def)
  have "\<not> reached example_map ex_tabs 256 ex_root2 \<pi>' q" if "reached example_map ex_tabs 256 ex_root \<pi> q" for \<pi> \<pi>' q
    using ex_reached [OF that] ex_reached2 [of \<pi>' q] by auto
  then show "apart 256 ex_root 256 ex_root2 ex_pt" by (simp add: apart_def table_at_def e)
qed

subsection \<open>Properties of the operations\<close>


lemma ex_page:
  "reg [0, 0, 0, 16] = {0x10000 ..< 0x11000}" "v \<in> {0x10000 ..< 0x11000} \<Longrightarrow> pte_at ex_root ex_pt v = Some (1, 0x95007)"
proof -
  show r: "reg [0, 0, 0, 16] = {0x10000 ..< 0x11000}"
    using path_region(1) [of 256 "[0, 0, 0, 16]"] by (simp add: path_ok_def pbase_def psz_def pidx_def)
  have t: "table_at 256 ex_root ex_pt [0, 0, 0] 0xffff880000094000" "ps_tab ex_pt 0xffff880000094000 = Some (ex_table 16 0x95007)"
    by (simp_all add: table_at_def reached_def path_ok_def ex_pt_def ex_tabs_def ex_table_def ex_root_def is_dir_def child_def
        phys_to_virt_def example_ms_def example_map_def PT_PHYSMASK_def PF_SIZE_def)
  show "v \<in> {0x10000 ..< 0x11000} \<Longrightarrow> pte_at ex_root ex_pt v = Some (1, 0x95007)"
    using pte_at_entry [OF t, of 16 v] r by (simp add: path_ok_def ex_table_def is_dir_def)
qed


text \<open>The addresses from \<open>st\<close> to \<open>b\<close> translate to the physical range at \<open>phys\<close>.\<close>

definition maps_to :: "u64 \<Rightarrow> u64 \<Rightarrow> nat \<Rightarrow> u64 \<Rightarrow> pt_sys \<Rightarrow> bool" where
  "maps_to r st b phys s \<longleftrightarrow> (\<forall>w. st \<le> w \<and> unat w < b \<longrightarrow>
     (\<exists>L \<in> {1..3}. ihk_mc_pt_virt_to_phys_size r w s = Some (Inr (phys + (w - st), level_size L))))"

lemma set_part_maps:
  assumes part: "set_part n a st b s s'" and inv: "pt_inv n (sr_pt a) s'" "sr_pt a \<noteq> 0" and m: "attr_mask_ok (ps_attr_mask s)" "sr_attr a AND PTATTR_ACTIVE \<noteq> 0"
    and b: "phys_area (sr_phys a) (b - unat st)" "b \<le> n * 2 ^ 39"
  shows "maps_to (sr_pt a) st b (sr_phys a) s'" "v \<in> {unat st ..< b} \<Longrightarrow> pte_at (sr_pt a) s v = None"
    "v < n * 2 ^ 39 \<Longrightarrow> v \<notin> {unat st ..< b} \<Longrightarrow> pte_at (sr_pt a) s' v = pte_at (sr_pt a) s v"
proof -
  have "n * 2 ^ 39 \<le> 512 * 2 ^ 39" using inv(1) by (intro mult_le_mono1) (simp add: pt_inv_def tree_def)
  then have b48: "b \<le> 2 ^ 48" using b(2) by simp
  show "maps_to (sr_pt a) st b (sr_phys a) s'" unfolding maps_to_def
  proof (intro allI impI)
    fix w assume w: "st \<le> w \<and> unat w < b"
    then have at: "set_at (ps_attr_mask s) a st b (unat w) (pte_at (sr_pt a) s' (unat w))" and lt: "unat w < n * 2 ^ 39"
      using part b(2) by (auto simp: set_part_def word_le_nat_alt)
    from set_at_translate [OF at m b(1) _ b48] w virt_to_phys_size_translate [OF inv lt]
    show "\<exists>L \<in> {1..3}. ihk_mc_pt_virt_to_phys_size (sr_pt a) w s' = Some (Inr (sr_phys a + (w - st), level_size L))" by simp
  qed
  show "v \<in> {unat st ..< b} \<Longrightarrow> pte_at (sr_pt a) s v = None" "v < n * 2 ^ 39 \<Longrightarrow> v \<notin> {unat st ..< b} \<Longrightarrow> pte_at (sr_pt a) s' v = pte_at (sr_pt a) s v"
    using part b(2) by (auto simp: set_part_def)
qed

text \<open>C7: mapping a range maps every address of it to the physical range, in pages as large as alignment and the
  request allow; no address of it was mapped before, and no other one changes.  Where a page is in the way
  or memory for a table is missing the error is returned and nothing is mapped, unless taking the mapping back needs memory that cannot be had
  either: then a first part of it stays.\<close>

theorem set_range_maps:
  assumes inv: "pt_inv n r s" "r \<noteq> 0" and rg: "user_area n vm st en" and m: "attr_mask_ok (ps_attr_mask s)" "attr AND PTATTR_ACTIVE \<noteq> 0"
    and ph: "phys_area phys (unat en - unat st)"
  shows "\<exists>err s'. ihk_mc_pt_set_range r vm st en phys attr pgshift rng s = Some (err, s') \<and> pt_inv n r s' \<and> pt_total s' = pt_total s \<and>
    (err = 0 \<and> maps_to r st (unat en) phys s' \<and> (\<forall>v < n * 2 ^ 39. if v \<in> {unat st ..< unat en} then pte_at r s v = None else pte_at r s' v = pte_at r s v) \<or>
     (err = - EBUSY \<and> (\<exists>v \<in> {unat st ..< unat en}. pte_at r s v \<noteq> None) \<or> err = - ENOMEM) \<and>
     (\<exists>b \<in> {unat st ..< unat en}. maps_to r st b phys s' \<and> (\<forall>v < n * 2 ^ 39. if v \<in> {unat st ..< b} then pte_at r s v = None else pte_at r s' v = pte_at r s v)))"
proof -
  let ?a = "\<lparr>sr_pt = r, sr_phys = phys, sr_attr = attr, sr_pgshift = pgshift, sr_diff = st XOR phys, sr_vm = vm, sr_range = rng\<rparr>"
  have b: "unat st < unat en" "unat en \<le> n * 2 ^ 39" using rg by (simp_all add: user_area_def page_area_def word_less_nat_alt)
  have pre: "set_pre n ?a st en s" using inv rg m ph by (simp add: set_pre_def user_area_def page_area_def phys_area_def)
  have maps: "maps_to r st c phys s' \<and> (\<forall>v < n * 2 ^ 39. if v \<in> {unat st ..< c} then pte_at r s v = None else pte_at r s' v = pte_at r s v)"
    if "set_part n ?a st c s s'" "pt_inv n r s'" "c \<le> unat en" for c s'
  proof -
    have "phys_area phys (c - unat st)" "c \<le> n * 2 ^ 39" using ph b(2) that(3) by (auto simp: phys_area_def)
    then show ?thesis using set_part_maps [OF that(1)] that(2) inv(2) m by simp
  qed
  have none: "\<exists>c \<in> {unat st ..< unat en}. maps_to r st c phys s' \<and> (\<forall>v < n * 2 ^ 39. if v \<in> {unat st ..< c} then pte_at r s v = None else pte_at r s' v = pte_at r s v)"
    if "\<forall>v < n * 2 ^ 39. pte_at r s' v = pte_at r s v" for s'
    by (rule bexI [of _ "unat st"]) (use that b in \<open>auto simp: maps_to_def word_le_nat_alt\<close>)
  from set_range_sound [OF pre] obtain err s' where x: "ihk_mc_pt_set_range r vm st en phys attr pgshift rng s = Some (err, s')"
    "err = 0 \<and> pt_inv n r s' \<and> pt_keep s s' \<and> set_part n ?a st (unat en) s s' \<or> set_fail n ?a st en s err s'" by auto
  from x(2) show ?thesis
  proof
    assume "err = 0 \<and> pt_inv n r s' \<and> pt_keep s s' \<and> set_part n ?a st (unat en) s s'"
    then show ?thesis using x(1) maps [of "unat en" s'] by (simp add: pt_keep_def)
  next
    assume f: "set_fail n ?a st en s err s'"
    then have i: "pt_inv n r s'" "pt_total s' = pt_total s" "err = - EBUSY \<and> (\<exists>v \<in> {unat st ..< unat en}. pte_at r s v \<noteq> None) \<or> err = - ENOMEM"
      by (auto simp: set_fail_def pt_keep_def)
    have "\<exists>c \<in> {unat st ..< unat en}. maps_to r st c phys s' \<and> (\<forall>v < n * 2 ^ 39. if v \<in> {unat st ..< c} then pte_at r s v = None else pte_at r s' v = pte_at r s v)"
    proof (cases "\<forall>v < n * 2 ^ 39. pte_at r s' v = pte_at r s v")
      case False
      then obtain c where c: "c \<in> {unat st <..< unat en}" "set_part n ?a st c s s'" using f by (auto simp: set_fail_def)
      show ?thesis by (rule bexI [of _ c]) (use maps [OF c(2) i(1)] c(1) in simp_all)
    qed (rule none)
    with x(1) i show ?thesis by blast
  qed
qed

theorem set_range_maps_witness:
  "\<exists>err s'. ihk_mc_pt_set_range ex_root example_vm 0x20000 0x22000 0x98000 (PTATTR_ACTIVE OR PTATTR_USER) 0 (pv_ranges example_vm 1) ex_pt = Some (err, s') \<and>
     pt_inv 256 ex_root s' \<and> (err = 0 \<longrightarrow> maps_to ex_root 0x20000 0x22000 0x98000 s')"
proof -
  have "user_area 256 example_vm 0x20000 0x22000" by (simp add: user_area_def page_area_def example_vm_def)
  moreover have "attr_mask_ok (ps_attr_mask ex_pt)" "(PTATTR_ACTIVE OR PTATTR_USER) AND PTATTR_ACTIVE \<noteq> 0" "phys_area 0x98000 (unat (0x22000 :: u64) - unat (0x20000 :: u64))"
    by (simp_all add: ex_pt_def attr_mask_ok_def PTATTR_ACTIVE_def PTATTR_USER_def phys_area_def)
  ultimately show ?thesis
    using set_range_maps [OF ex_inv(1), of example_vm "0x20000" "0x22000" "PTATTR_ACTIVE OR PTATTR_USER" "0x98000" 0 "pv_ranges example_vm 1"]
    by (fastforce simp: ex_root_def EBUSY_def)
qed

lemma page_mask_area: "4096 dvd unat (phys AND PAGE_MASK)" "unat (phys AND PAGE_MASK) \<le> unat phys"
proof -
  have "take_bit 12 (phys AND PAGE_MASK) = 0" by (rule bit_eqI) (auto simp: bit_simps pte_bits)
  then have "unat (take_bit 12 (phys AND PAGE_MASK)) = 0" by simp
  then have "take_bit 12 (unat (phys AND PAGE_MASK)) = 0" by (simp only: unsigned_take_bit_eq)
  then show "4096 dvd unat (phys AND PAGE_MASK)" by (simp add: take_bit_eq_mod mod_0_imp_dvd)
  show "unat (phys AND PAGE_MASK) \<le> unat phys" using word_and_le2 [of phys PAGE_MASK] by (simp add: word_le_nat_alt)
qed


lemma ex_unmapped: "pte_at ex_root ex_pt 0x20000 = None"
  by (simp add: pte_at_def vix_def ex_pt_def ex_tabs_def ex_table_def ex_root_def is_dir_def child_def
      phys_to_virt_def example_ms_def example_map_def PT_PHYSMASK_def PF_SIZE_def)




text \<open>C12: changing the attributes of a range returns.  Every page of the range keeps its size and its physical page and gets the new attributes;
  swapped-out entries and addresses outside are left alone.  A page larger than the rest of the range ends the work with an error
  after the part before it.\<close>

theorem change_attr_keeps_frames:
  assumes inv: "pt_inv n r s" and rg: "page_area n st en" and m: "attr_mask_ok (ps_attr_mask s)"
    and cs: "cl = attr_to_l1attr (ps_attr_mask s) clrattr" "se = attr_to_l1attr (ps_attr_mask s) setattr"
  shows "\<exists>ret s' b. ihk_mc_pt_change_attr_range r st en clrattr setattr s = Some (ret, s') \<and> changed n r cl se (unat st) b s s' \<and>
    ((ret = 0 \<or> ret = - ENOENT \<and> s' = s) \<and> b = unat en \<or>
     ret = - EINVAL \<and> b \<in> {unat st ..< unat en} \<and> (\<exists>L e. pte_at r s b = Some (L, e) \<and> 2 \<le> L \<and>
       \<not> {v. v div psz (5 - L) = b div psz (5 - L)} \<subseteq> {unat st ..< unat en})) \<and>
    (\<forall>v < n * 2 ^ 39. \<forall>L e. pte_at r s' v = Some (L, e) \<longrightarrow> (\<exists>e0. pte_at r s v = Some (L, e0) \<and> pte_get_phys e = pte_get_phys e0))"
proof -
  have ph: "\<exists>e0. pte_at r s v = Some (L, e0) \<and> pte_get_phys e = pte_get_phys e0"
    if "changed n r cl se (unat st) b s s'" "v < n * 2 ^ 39" "pte_at r s' v = Some (L, e)" for b s' v L e
    using that chg_phys [OF m, of clrattr setattr] unfolding changed_def cs chg_pte_def by (auto split: if_splits option.splits)
  have p: "st < en" "unat en \<le> n * 2 ^ 39" "4096 dvd unat st" "4096 dvd unat en" using rg by (simp_all add: page_area_def)
  obtain ret s' where x: "ihk_mc_pt_change_attr_range r st en clrattr setattr s = Some (ret, s')"
    "(ret = 0 \<or> ret = - ENOENT \<and> s' = s) \<and> changed n r cl se (unat st) (unat en) s s' \<or>
     ret = - EINVAL \<and> (\<exists>b \<in> {unat st ..< unat en}. changed n r cl se (unat st) b s s' \<and>
        (\<exists>L e. pte_at r s b = Some (L, e) \<and> 2 \<le> L \<and> \<not> {v. v div psz (5 - L) = b div psz (5 - L)} \<subseteq> {unat st ..< unat en}))"
    using change_attr_sound [OF inv p m cs] by (elim exE conjE)
  from x(2) show ?thesis
  proof
    assume "(ret = 0 \<or> ret = - ENOENT \<and> s' = s) \<and> changed n r cl se (unat st) (unat en) s s'"
    with x(1) ph show ?thesis by (intro exI [of _ ret] exI [of _ s'] exI [of _ "unat en"]) blast
  next
    assume "ret = - EINVAL \<and> (\<exists>b \<in> {unat st ..< unat en}. changed n r cl se (unat st) b s s' \<and>
        (\<exists>L e. pte_at r s b = Some (L, e) \<and> 2 \<le> L \<and> \<not> {v. v div psz (5 - L) = b div psz (5 - L)} \<subseteq> {unat st ..< unat en}))"
    then obtain b where b: "ret = - EINVAL" "b \<in> {unat st ..< unat en}" "changed n r cl se (unat st) b s s'"
        "\<exists>L e. pte_at r s b = Some (L, e) \<and> 2 \<le> L \<and> \<not> {v. v div psz (5 - L) = b div psz (5 - L)} \<subseteq> {unat st ..< unat en}" by blast
    with x(1) ph [OF b(3)] show ?thesis by (intro exI [of _ ret] exI [of _ s'] exI [of _ b]) blast
  qed
qed

theorem change_attr_keeps_frames_witness:
  "\<exists>s'. ihk_mc_pt_change_attr_range ex_root 0x10000 0x11000 PTATTR_WRITABLE 0 ex_pt = Some (0, s') \<and> pte_at ex_root s' 0x10000 = Some (1, 0x95005)"
proof -
  have ar: "page_area 256 0x10000 0x11000" and m: "attr_mask_ok (ps_attr_mask ex_pt)" by (simp_all add: page_area_def ex_pt_def attr_mask_ok_def)
  have at: "attr_to_l1attr (ps_attr_mask ex_pt) PTATTR_WRITABLE = 2" "attr_to_l1attr (ps_attr_mask ex_pt) 0 = 0"
    by (simp_all add: ex_pt_def attr_to_l1attr_def attr_mask_init_def PTATTR_FILEOFF_def PTATTR_WRITABLE_def PTATTR_USER_def PTATTR_ACTIVE_def
        PTATTR_NO_EXECUTE_def PTATTR_UNCACHABLE_def PTATTR_WRITE_COMBINED_def)
  have c: "change_attr 2 0 0x95007 = 0x95005" by (simp add: change_attr_def)
  have u: "unat (0x10000 :: u64) = 0x10000" "unat (0x11000 :: u64) = 0x11000" by simp_all
  obtain ret s' b where
    x: "ihk_mc_pt_change_attr_range ex_root 0x10000 0x11000 PTATTR_WRITABLE 0 ex_pt = Some (ret, s')" "changed 256 ex_root 2 0 0x10000 b ex_pt s'"
      "(ret = 0 \<or> ret = - ENOENT \<and> s' = ex_pt) \<and> b = 0x11000 \<or>
       ret = - EINVAL \<and> b \<in> {0x10000 ..< 0x11000} \<and> (\<exists>L e. pte_at ex_root ex_pt b = Some (L, e) \<and> 2 \<le> L)"
    using change_attr_keeps_frames [OF ex_inv(1) ar m at [symmetric]] unfolding u by blast
  have b: "b = 0x11000" using x(3) ex_page(2) [of b] by auto
  have e: "pte_at ex_root s' 0x10000 = Some (1, 0x95005)" using x(2) ex_page(2) [of "0x10000"] c unfolding b changed_def chg_pte_def
    by (simp add: PFLX_FILEOFF_def)
  then have "s' \<noteq> ex_pt" using ex_page(2) [of "0x10000"] by auto
  with x(1,3) b e show ?thesis by auto
qed


lemma ex_step:
  "\<exists>ret s1. pt_exec ex_root (Change_Attr 0x10000 0x11000 PTATTR_WRITABLE 0) ex_pt = Some (ret, s1) \<and> pt_reach 256 ex_root ex_pt s1"
proof -
  have g: "pt_guard 256 ex_root (Change_Attr 0x10000 0x11000 PTATTR_WRITABLE 0) ex_pt" by (simp add: page_area_def ex_pt_def attr_mask_ok_def)
  moreover have "ex_root \<noteq> 0" by (simp add: ex_root_def)
  ultimately obtain ret s1 where "pt_exec ex_root (Change_Attr 0x10000 0x11000 PTATTR_WRITABLE 0) ex_pt = Some (ret, s1)" using pt_exec_sound [OF ex_inv(1)] by blast
  with pt_reach.step [OF pt_reach.start g] show ?thesis by blast
qed




end
