(* ===== verification/Locks.thy ===== *)
theory Locks
  imports Prelude
begin

section \<open>Spin locks and reader/writer locks\<close>

text \<open>
  \<open>arch/x86_64/kernel/include/arch-lock.h\<close>: the ticket lock \<open>ihk_spinlock_t\<close> that every lock of the
  kernel is made of, and the counter lock \<open>struct ihk_rwlock\<close>.  Each locked instruction is one atomic
  step; between two of them any other CPU may run.  A CPU's own state (preemption counter, interrupt
  flag) changes together with the locked instruction next to it, since no other CPU sees it.
\<close>

type_synonym u16 = "16 word"

subsection \<open>States reached by steps\<close>

inductive reach :: "('s \<Rightarrow> 's \<Rightarrow> bool) \<Rightarrow> 's \<Rightarrow> 's \<Rightarrow> bool" for step init where
  reach_start: "reach step init init"
| reach_step: "reach step init s \<Longrightarrow> step s t \<Longrightarrow> reach step init t"

text \<open>The contract of a lock, as a transition system: an invariant that the start state has and every
  step keeps, and that lets at most one conflicting holder in.\<close>

locale lock_machine =
  fixes step :: "'s \<Rightarrow> 's \<Rightarrow> bool"
    and init :: 's
    and inv :: "'s \<Rightarrow> bool"
    and holds :: "'s \<Rightarrow> nat \<Rightarrow> bool"
    and conflict :: "'s \<Rightarrow> nat \<Rightarrow> nat \<Rightarrow> bool"
  assumes inv_init: "inv init"
    and inv_step: "inv s \<Longrightarrow> step s t \<Longrightarrow> inv t"
    and inv_exclusive: "inv s \<Longrightarrow> holds s i \<Longrightarrow> holds s j \<Longrightarrow> conflict s i j \<Longrightarrow> i = j"
begin

lemma reach_inv: "reach step init s \<Longrightarrow> inv s"
  by (induction rule: reach.induct) (auto intro: inv_init inv_step)

lemma reach_exclusive: "reach step init s \<Longrightarrow> holds s i \<Longrightarrow> holds s j \<Longrightarrow> conflict s i j \<Longrightarrow> i = j"
  using reach_inv inv_exclusive by blast

end

subsection \<open>The ticket lock\<close>

text \<open>\<open>head_tail\<close>: the low half is \<open>tickets.head\<close>, the high half \<open>tickets.tail\<close>.\<close>

definition spin_head :: "u32 \<Rightarrow> u16" where
  "spin_head l = ucast l"

definition spin_tail :: "u32 \<Rightarrow> u16" where
  "spin_tail l = ucast (drop_bit 16 l)"

definition tickets :: "u16 \<Rightarrow> u16 \<Rightarrow> u32" where
  "tickets h t = ucast h OR push_bit 16 (ucast t)"

definition ihk_mc_spinlock_init :: u32 where
  "ihk_mc_spinlock_init = 0"

text \<open>\<open>lock xaddl\<close> of \<open>{ .tail = 0x0002 }\<close>: the old value and the new one.\<close>

definition spin_xadd :: "u32 \<Rightarrow> u32 \<times> u32" where
  "spin_xadd l = (l, l + tickets 0 0x0002)"

text \<open>\<open>lock addw\<close> on the head.\<close>

definition spin_addw_head :: "u32 \<Rightarrow> u32" where
  "spin_addw_head l = tickets (spin_head l + 0x0002) (spin_tail l)"

definition spin_try_next :: "u32 \<Rightarrow> u32" where
  "spin_try_next cur = tickets (spin_head cur) (spin_tail cur + 2)"

text \<open>Where a CPU is: the argument of \<open>Spinning\<close> is its ticket \<open>inc.tail\<close>; \<open>Trying\<close> is between the read
  and the compare-and-swap of \<open>trylock\<close>.  The option is the interrupt state the caller of the
  variants with interrupt saving keeps in \<open>flags\<close>.\<close>

datatype spin_pc = Outside | Spinning u16 "bool option" | Trying u32 "bool option" | Inside "bool option"

record spin_sys =
  sp_lock :: u32
  sp_pc :: "nat \<Rightarrow> spin_pc"
  sp_no_preempt :: "nat \<Rightarrow> int"
  sp_irq :: "nat \<Rightarrow> bool"

definition set_pc :: "nat \<Rightarrow> spin_pc \<Rightarrow> spin_sys \<Rightarrow> spin_sys" where
  "set_pc i pc s = s\<lparr>sp_pc := (sp_pc s)(i := pc)\<rparr>"

definition preempt_disable :: "nat \<Rightarrow> spin_sys \<Rightarrow> spin_sys" where
  "preempt_disable i s = s\<lparr>sp_no_preempt := (sp_no_preempt s)(i := sp_no_preempt s i + 1)\<rparr>"

definition preempt_enable :: "nat \<Rightarrow> spin_sys \<Rightarrow> spin_sys" where
  "preempt_enable i s = s\<lparr>sp_no_preempt := (sp_no_preempt s)(i := sp_no_preempt s i - 1)\<rparr>"

definition cpu_disable_interrupt_save :: "nat \<Rightarrow> spin_sys \<Rightarrow> bool \<times> spin_sys" where
  "cpu_disable_interrupt_save i s = (sp_irq s i, s\<lparr>sp_irq := (sp_irq s)(i := False)\<rparr>)"

definition cpu_restore_interrupt :: "nat \<Rightarrow> bool \<Rightarrow> spin_sys \<Rightarrow> spin_sys" where
  "cpu_restore_interrupt i flags s = s\<lparr>sp_irq := (sp_irq s)(i := flags)\<rparr>"

text \<open>\<open>irqsave\<close> tells which variant is called.\<close>

definition irq_enter :: "bool \<Rightarrow> nat \<Rightarrow> spin_sys \<Rightarrow> bool option \<times> spin_sys" where
  "irq_enter irqsave i s =
     (if irqsave then (case cpu_disable_interrupt_save i s of (flags, s) \<Rightarrow> (Some flags, s)) else (None, s))"

definition irq_leave :: "bool option \<Rightarrow> nat \<Rightarrow> spin_sys \<Rightarrow> spin_sys" where
  "irq_leave flags i s = (case flags of None \<Rightarrow> s | Some f \<Rightarrow> cpu_restore_interrupt i f s)"

text \<open>\<open>ihk_mc_spinlock_lock\<close> and \<open>ihk_mc_spinlock_lock_noirq\<close> up to the first look at the ticket.\<close>

definition spinlock_lock :: "bool \<Rightarrow> nat \<Rightarrow> spin_sys \<Rightarrow> spin_sys" where
  "spinlock_lock irqsave i s =
     (case irq_enter irqsave i s of
        (flags, s) \<Rightarrow>
          (let s = preempt_disable i s; (inc, l) = spin_xadd (sp_lock s); s = s\<lparr>sp_lock := l\<rparr>
           in set_pc i (if spin_head inc = spin_tail inc then Inside flags else Spinning (spin_tail inc) flags) s))"

text \<open>One round of the waiting loop.\<close>

definition spinlock_spin :: "nat \<Rightarrow> u16 \<Rightarrow> bool option \<Rightarrow> spin_sys \<Rightarrow> spin_sys" where
  "spinlock_spin i t flags s = (if spin_head (sp_lock s) = t then set_pc i (Inside flags) s else s)"

definition spinlock_unlock :: "nat \<Rightarrow> bool option \<Rightarrow> spin_sys \<Rightarrow> spin_sys" where
  "spinlock_unlock i flags s =
     irq_leave flags i (preempt_enable i (set_pc i Outside (s\<lparr>sp_lock := spin_addw_head (sp_lock s)\<rparr>)))"

text \<open>\<open>trylock\<close>: reading the lock word, then the compare-and-swap.  The variant with interrupt saving
  leaves interrupts off and returns the flags to its caller, who restores them after a failure.\<close>

definition spinlock_try_read :: "bool \<Rightarrow> nat \<Rightarrow> spin_sys \<Rightarrow> spin_sys" where
  "spinlock_try_read irqsave i s =
     (case irq_enter irqsave i s of
        (flags, s) \<Rightarrow>
          (let cur = sp_lock s
           in if spin_head cur \<noteq> spin_tail cur then irq_leave flags i s
              else set_pc i (Trying cur flags) (preempt_disable i s)))"

definition spinlock_try_cas :: "nat \<Rightarrow> u32 \<Rightarrow> bool option \<Rightarrow> spin_sys \<Rightarrow> spin_sys" where
  "spinlock_try_cas i cur flags s =
     (if sp_lock s = cur then set_pc i (Inside flags) (s\<lparr>sp_lock := spin_try_next cur\<rparr>)
      else irq_leave flags i (preempt_enable i (set_pc i Outside s)))"

inductive spin_step :: "nat \<Rightarrow> spin_sys \<Rightarrow> spin_sys \<Rightarrow> bool" for n where
  spin_lock: "i < n \<Longrightarrow> sp_pc s i = Outside \<Longrightarrow> spin_step n s (spinlock_lock irqsave i s)"
| spin_wait: "i < n \<Longrightarrow> sp_pc s i = Spinning t flags \<Longrightarrow> spin_step n s (spinlock_spin i t flags s)"
| spin_unlock: "i < n \<Longrightarrow> sp_pc s i = Inside flags \<Longrightarrow> spin_step n s (spinlock_unlock i flags s)"
| spin_try: "i < n \<Longrightarrow> sp_pc s i = Outside \<Longrightarrow> spin_step n s (spinlock_try_read irqsave i s)"
| spin_cas: "i < n \<Longrightarrow> sp_pc s i = Trying cur flags \<Longrightarrow> spin_step n s (spinlock_try_cas i cur flags s)"

definition spin_init :: spin_sys where
  "spin_init = \<lparr>sp_lock = ihk_mc_spinlock_init, sp_pc = (\<lambda>_. Outside), sp_no_preempt = (\<lambda>_. 0), sp_irq = (\<lambda>_. True)\<rparr>"

subsection \<open>Ticket arithmetic\<close>

lemma spin_head_tickets [simp]: "spin_head (tickets h t) = h"
  by (rule bit_eqI) (auto simp: spin_head_def tickets_def bit_simps)

lemma spin_tail_tickets [simp]: "spin_tail (tickets h t) = t"
  by (rule bit_eqI) (auto simp: spin_tail_def tickets_def bit_simps dest: bit_imp_le_length)

lemma tickets_collapse [simp]: "tickets (spin_head l) (spin_tail l) = l"
  by (rule bit_eqI) (auto simp: spin_head_def spin_tail_def tickets_def bit_simps)

lemma unat_tickets: "unat (tickets h t) = unat h + 65536 * unat t"
proof -
  have "tickets h t = ucast h + push_bit 16 (ucast t)"
    unfolding tickets_def by (rule disjunctive_add_eq_or [symmetric], rule bit_eqI) (auto simp: bit_simps dest: bit_imp_le_length)
  moreover have "unat (push_bit 16 (ucast t) :: u32) = 65536 * unat t"
    using unsigned_less [of t, where ?'a=nat]
    by (simp add: push_bit_eq_mult unat_word_ariths unsigned_ucast_eq take_bit_eq_mod)
  ultimately show ?thesis
    using unsigned_less [of t, where ?'a=nat] unsigned_less [of h, where ?'a=nat]
    by (simp add: unat_word_ariths unsigned_ucast_eq take_bit_eq_mod)
qed

lemma mod_low_high: "a < b \<Longrightarrow> (a + b * k) mod (b * c) = a + b * (k mod c)" for a b c k :: nat
  using mod_mult2_eq [of "a + b * k" b c] by simp

lemma tickets_add: "tickets h t + tickets 0 2 = tickets h (t + 2)"
proof -
  have b: "unat h < 65536" using unsigned_less [of h, where ?'a=nat] by simp
  have t2: "unat (t + 2) = (unat t + 2) mod 65536" by (simp add: unat_word_ariths)
  have "unat (tickets h t + tickets 0 2) = (unat h + 65536 * (unat t + 2)) mod (65536 * 65536)"
    unfolding unat_word_ariths(1) unat_tickets by (rule arg_cong2 [of _ _ _ _ "(mod)"]) simp_all
  also have "\<dots> = unat h + 65536 * ((unat t + 2) mod 65536)"
    by (rule mod_low_high [OF b])
  also have "\<dots> = unat (tickets h (t + 2))" unfolding unat_tickets t2 ..
  finally show ?thesis by (simp add: word_unat_eq_iff)
qed

lemma xadd_tickets: "l + tickets 0 2 = tickets (spin_head l) (spin_tail l + 2)"
  using tickets_add [of "spin_head l" "spin_tail l"] by simp

text \<open>Tickets two apart are different as long as fewer than \<open>2 ^ 15\<close> are out.\<close>

lemma ticket_eq_iff:
  fixes h :: u16
  assumes "k < 2 ^ 15"
  shows "h = h + 2 * of_nat k \<longleftrightarrow> k = 0"
proof -
  have "h = h + 2 * of_nat k \<longleftrightarrow> (2 * of_nat k :: u16) = 0" by simp
  also have "\<dots> \<longleftrightarrow> unat (of_nat (2 * k) :: u16) = 0" by (simp add: unat_eq_0)
  also have "\<dots> \<longleftrightarrow> k = 0" using assms by (simp add: unat_of_nat del: of_nat_mult)
  finally show ?thesis .
qed

subsection \<open>The ticket lock is a queue\<close>

fun pc_flags :: "spin_pc \<Rightarrow> bool option" where
  "pc_flags Outside = None"
| "pc_flags (Spinning t f) = f"
| "pc_flags (Trying c f) = f"
| "pc_flags (Inside f) = f"

text \<open>The CPU at place \<open>k\<close> of the queue has the ticket \<open>head + 2 * k\<close>; only the first may be inside.\<close>

fun queued_ok :: "u16 \<Rightarrow> nat \<Rightarrow> spin_pc \<Rightarrow> bool" where
  "queued_ok h k (Spinning t f) \<longleftrightarrow> t = h + 2 * of_nat k"
| "queued_ok h k (Inside f) \<longleftrightarrow> k = 0"
| "queued_ok h k pc \<longleftrightarrow> False"

fun free_ok :: "spin_pc \<Rightarrow> bool" where
  "free_ok Outside \<longleftrightarrow> True"
| "free_ok (Trying cur f) \<longleftrightarrow> spin_head cur = spin_tail cur"
| "free_ok pc \<longleftrightarrow> False"

definition spin_queue :: "nat \<Rightarrow> nat list \<Rightarrow> spin_sys \<Rightarrow> bool" where
  "spin_queue n q s \<longleftrightarrow> distinct q \<and> set q \<subseteq> {..<n} \<and>
     spin_tail (sp_lock s) = spin_head (sp_lock s) + 2 * of_nat (length q) \<and>
     (\<forall>k < length q. queued_ok (spin_head (sp_lock s)) k (sp_pc s (q ! k))) \<and> (\<forall>i. i \<notin> set q \<longrightarrow> free_ok (sp_pc s i))"

text \<open>A CPU that wants the lock cannot be preempted, and runs with interrupts off if it asked for it.\<close>

definition local_ok :: "spin_pc \<Rightarrow> int \<Rightarrow> bool \<Rightarrow> bool" where
  "local_ok pc no_preempt irq \<longleftrightarrow> no_preempt = of_bool (pc \<noteq> Outside) \<and>
     (case pc_flags pc of None \<Rightarrow> irq | Some f \<Rightarrow> \<not> irq \<and> f)"

definition spin_local :: "spin_sys \<Rightarrow> bool" where
  "spin_local s \<longleftrightarrow> (\<forall>i. local_ok (sp_pc s i) (sp_no_preempt s i) (sp_irq s i))"

text \<open>The specification: CPUs queue up at the end, the first one leaves.\<close>

inductive fifo_step :: "nat list \<Rightarrow> nat list \<Rightarrow> bool" where
  fifo_stay: "fifo_step q q"
| fifo_enter: "i \<notin> set q \<Longrightarrow> fifo_step q (q @ [i])"
| fifo_leave: "fifo_step (i # q) q"

lemmas spin_ops = spinlock_lock_def spinlock_spin_def spinlock_unlock_def spinlock_try_read_def spinlock_try_cas_def
  irq_enter_def irq_leave_def cpu_disable_interrupt_save_def cpu_restore_interrupt_def set_pc_def
  preempt_disable_def preempt_enable_def spin_xadd_def Let_def

lemma queue_length:
  fixes n :: nat
  assumes "distinct q" "set q \<subseteq> {..<n}" "i < n" "i \<notin> set q" "n \<le> 2 ^ 15"
  shows "length q < 2 ^ 15"
proof -
  have "card (insert i (set q)) \<le> card {..<n}" using assms(2,3) by (intro card_mono) auto
  with assms show ?thesis by (simp add: distinct_card)
qed

lemma spin_queue_enter:
  assumes "spin_queue n q s" "\<forall>j. j \<noteq> i \<longrightarrow> sp_pc t j = sp_pc s j" "i \<notin> set q" "i < n"
    "sp_lock t = tickets (spin_head (sp_lock s)) (spin_tail (sp_lock s) + 2)"
    "queued_ok (spin_head (sp_lock s)) (length q) (sp_pc t i)"
  shows "spin_queue n (q @ [i]) t"
proof -
  have q: "spin_tail (sp_lock s) = spin_head (sp_lock s) + 2 * of_nat (length q)" "distinct q" "set q \<subseteq> {..<n}"
    "\<forall>k < length q. queued_ok (spin_head (sp_lock s)) k (sp_pc s (q ! k))" "\<forall>j. j \<notin> set q \<longrightarrow> free_ok (sp_pc s j)"
    using assms(1) by (simp_all add: spin_queue_def)
  have "spin_tail (sp_lock t) = spin_head (sp_lock t) + 2 * of_nat (length (q @ [i]))" by (simp add: assms(5) q(1) distrib_left)
  moreover have "queued_ok (spin_head (sp_lock t)) k (sp_pc t ((q @ [i]) ! k))" if k: "k < length (q @ [i])" for k
  proof (cases "k < length q")
    case True
    with assms(3) have "q ! k \<noteq> i" using nth_mem by blast
    with True q(4) assms(2,5) show ?thesis by (simp add: nth_append)
  next
    case False
    with k have "k = length q" by simp
    with assms(5,6) show ?thesis by simp
  qed
  moreover have "free_ok (sp_pc t j)" if "j \<notin> set (q @ [i])" for j using that q(5) assms(2) by simp
  ultimately show ?thesis using q(2,3) assms(3,4) by (simp add: spin_queue_def)
qed

lemma spin_queue_stay:
  assumes "spin_queue n q s" "\<forall>j. j \<noteq> i \<longrightarrow> sp_pc t j = sp_pc s j" "sp_lock t = sp_lock s" "i \<notin> set q" "free_ok (sp_pc t i)"
  shows "spin_queue n q t"
proof -
  have "sp_pc t (q ! k) = sp_pc s (q ! k)" if "k < length q" for k
  proof -
    have "q ! k \<noteq> i" using that assms(4) nth_mem by blast
    with assms(2) show ?thesis by simp
  qed
  moreover have "free_ok (sp_pc t j)" if "j \<notin> set q" for j
    using that assms(1,2,5) by (cases "j = i") (simp_all add: spin_queue_def)
  ultimately show ?thesis using assms(1,3) by (simp add: spin_queue_def)
qed

lemma spin_queue_leave:
  assumes "spin_queue n (i # q) s" "\<forall>j. j \<noteq> i \<longrightarrow> sp_pc t j = sp_pc s j" "sp_pc t i = Outside"
    "sp_lock t = spin_addw_head (sp_lock s)"
  shows "spin_queue n q t"
proof -
  let ?h = "spin_head (sp_lock s)"
  have q: "\<forall>k < Suc (length q). queued_ok ?h k (sp_pc s ((i # q) ! k))" "distinct (i # q)" using assms(1) by (auto simp: spin_queue_def)
  have "queued_ok (?h + 2) k (sp_pc t (q ! k))" if k: "k < length q" for k
  proof -
    have "q ! k \<noteq> i" using q(2) k by (metis distinct.simps(2) nth_mem)
    then have "sp_pc t (q ! k) = sp_pc s (q ! k)" using assms(2) by simp
    moreover have "queued_ok ?h (Suc k) (sp_pc s (q ! k))" using q(1) k by force
    ultimately show ?thesis by (cases "sp_pc s (q ! k)") (auto simp: algebra_simps)
  qed
  moreover have "free_ok (sp_pc t j)" if "j \<notin> set q" for j
    using that assms(1-3) by (cases "j = i") (simp_all add: spin_queue_def)
  moreover have "spin_tail (sp_lock t) = spin_head (sp_lock t) + 2 * of_nat (length q)"
    using assms(1,4) by (simp add: spin_queue_def spin_addw_head_def distrib_left)
  ultimately show ?thesis using assms(1,4) by (simp add: spin_queue_def spin_addw_head_def)
qed

lemma queue_empty_iff:
  fixes n :: nat
  assumes "spin_queue n q s" "i < n" "i \<notin> set q" "n \<le> 2 ^ 15"
  shows "spin_head (sp_lock s) = spin_tail (sp_lock s) \<longleftrightarrow> q = []"
proof -
  have "length q < 2 ^ 15" using assms by (intro queue_length [of q n i]) (auto simp: spin_queue_def)
  with ticket_eq_iff [of "length q" "spin_head (sp_lock s)"] assms(1) show ?thesis by (simp add: spin_queue_def)
qed

lemma queued_member:
  assumes "spin_queue n q s" "\<not> free_ok (sp_pc s i)"
  obtains k where "k < length q" "q ! k = i" "queued_ok (spin_head (sp_lock s)) k (sp_pc s i)"
proof -
  have "i \<in> set q" using assms by (auto simp: spin_queue_def)
  then obtain k where "k < length q" "q ! k = i" by (auto simp: in_set_conv_nth)
  with that [of k] assms(1) show thesis by (auto simp: spin_queue_def)
qed

lemma not_queued: "spin_queue n q s \<Longrightarrow> sp_pc s i = Outside \<or> sp_pc s i = Trying cur f \<Longrightarrow> i \<notin> set q"
  by (auto simp: spin_queue_def in_set_conv_nth)

lemma spin_simulation:
  fixes n :: nat
  assumes "spin_step n s t" "spin_queue n q s" "n \<le> 2 ^ 15"
  shows "\<exists>q'. fifo_step q q' \<and> spin_queue n q' t"
  using assms(1)
proof cases
  case (spin_lock i irqsave)
  have out: "i \<notin> set q" using not_queued [OF assms(2)] spin_lock(3) by blast
  have "spin_queue n (q @ [i]) t"
  proof (rule spin_queue_enter [OF assms(2) _ out spin_lock(2)])
    show "queued_ok (spin_head (sp_lock s)) (length q) (sp_pc t i)"
      using queue_empty_iff [OF assms(2) spin_lock(2) out assms(3)] assms(2) spin_lock(1)
      by (auto simp: spin_ops spin_queue_def)
  qed (auto simp: spin_lock(1) spin_ops xadd_tickets)
  then show ?thesis using fifo_enter [OF out] by blast
next
  case (spin_wait i t' flags)
  from assms(2) obtain k where k: "k < length q" "q ! k = i" "t' = spin_head (sp_lock s) + 2 * of_nat k"
    by (rule queued_member [of n q s i]) (auto simp: spin_wait(3))
  have len: "length q \<le> 2 ^ 15"
    using assms(2,3) card_mono [of "{..<n}" "set q"] by (simp add: spin_queue_def distinct_card)
  have "spin_queue n q t"
  proof (cases "spin_head (sp_lock s) = t'")
    case True
    have "k < 2 ^ 15" using k(1) len by simp
    then have "k = 0" by (rule iffD1 [OF ticket_eq_iff trans [OF True k(3)]])
    then obtain q' where q': "q = i # q'" using k(1,2) by (cases q) auto
    have t: "t = set_pc i (Inside flags) s" using True spin_wait(1) by (simp add: spinlock_spin_def)
    have "queued_ok (spin_head (sp_lock t)) j (sp_pc t (q ! j))" if "j < length q" for j
      using that assms(2) q' by (cases j) (auto simp: t set_pc_def spin_queue_def)
    moreover have "free_ok (sp_pc t j)" if "j \<notin> set q" for j using that assms(2) q' by (simp add: t set_pc_def spin_queue_def)
    ultimately show ?thesis using assms(2) by (simp add: spin_queue_def t set_pc_def)
  next
    case False
    with assms(2) spin_wait(1) show ?thesis by (simp add: spin_ops)
  qed
  then show ?thesis using fifo_stay by blast
next
  case (spin_unlock i flags)
  from assms(2) obtain k where k: "k < length q" "q ! k = i" "k = 0"
    by (rule queued_member [of n q s i]) (auto simp: spin_unlock(3))
  then obtain q' where q': "q = i # q'" by (cases q) auto
  have "spin_queue n q' t"
    by (rule spin_queue_leave [OF assms(2) [unfolded q']]) (auto simp: spin_unlock(1) spin_ops split: option.splits)
  then show ?thesis using fifo_leave q' by blast
next
  case (spin_try i irqsave)
  have out: "i \<notin> set q" using not_queued [OF assms(2)] spin_try(3) by blast
  have "spin_queue n q t"
    by (rule spin_queue_stay [OF assms(2) _ _ out]) (auto simp: spin_try(1,3) spin_ops split: option.splits)
  then show ?thesis using fifo_stay by blast
next
  case (spin_cas i cur flags)
  have out: "i \<notin> set q" using not_queued [OF assms(2)] spin_cas(3) by blast
  show ?thesis
  proof (cases "sp_lock s = cur")
    case True
    have "spin_head cur = spin_tail cur" using assms(2) out spin_cas(3) by (auto simp: spin_queue_def)
    with True queue_empty_iff [OF assms(2) spin_cas(2) out assms(3)] have "q = []" by simp
    have "spin_queue n (q @ [i]) t"
      by (rule spin_queue_enter [OF assms(2) _ out spin_cas(2)]) (auto simp: spin_cas(1) True \<open>q = []\<close> spin_ops spin_try_next_def)
    then show ?thesis using fifo_enter [OF out] by blast
  next
    case False
    have "spin_queue n q t"
      by (rule spin_queue_stay [OF assms(2) _ _ out]) (auto simp: spin_cas(1) False spin_ops split: option.splits)
    then show ?thesis using fifo_stay by blast
  qed
qed

lemma spin_local_upd:
  assumes "spin_local s" "\<forall>j. j \<noteq> i \<longrightarrow> sp_pc t j = sp_pc s j \<and> sp_no_preempt t j = sp_no_preempt s j \<and> sp_irq t j = sp_irq s j"
    "local_ok (sp_pc s i) (sp_no_preempt s i) (sp_irq s i) \<Longrightarrow> local_ok (sp_pc t i) (sp_no_preempt t i) (sp_irq t i)"
  shows "spin_local t"
  unfolding spin_local_def
proof
  fix j
  show "local_ok (sp_pc t j) (sp_no_preempt t j) (sp_irq t j)" using assms by (cases "j = i") (simp_all add: spin_local_def)
qed

lemma spin_local_step: "spin_step n s t \<Longrightarrow> spin_local s \<Longrightarrow> spin_local t"
proof (induction rule: spin_step.induct)
  case (spin_lock i s irqsave)
  show ?case by (rule spin_local_upd [OF spin_lock(3), of i]) (auto simp: spin_ops local_ok_def spin_lock(2))
next
  case (spin_wait i s t flags)
  show ?case by (rule spin_local_upd [OF spin_wait(3), of i]) (cases flags; auto simp: spin_ops local_ok_def spin_wait(2))+
next
  case (spin_unlock i s flags)
  show ?case by (rule spin_local_upd [OF spin_unlock(3), of i]) (cases flags; auto simp: spin_ops local_ok_def spin_unlock(2))+
next
  case (spin_try i s irqsave)
  show ?case by (rule spin_local_upd [OF spin_try(3), of i]) (auto simp: spin_ops local_ok_def spin_try(2))
next
  case (spin_cas i s cur flags)
  show ?case by (rule spin_local_upd [OF spin_cas(3), of i]) (cases flags; auto simp: spin_ops local_ok_def spin_cas(2))+
qed

definition spin_inside :: "spin_sys \<Rightarrow> nat \<Rightarrow> bool" where
  "spin_inside s i \<longleftrightarrow> (case sp_pc s i of Inside f \<Rightarrow> True | _ \<Rightarrow> False)"

lemma inside_first: "spin_queue n q s \<Longrightarrow> spin_inside s i \<Longrightarrow> \<exists>q'. q = i # q'"
proof -
  assume q: "spin_queue n q s" and i: "spin_inside s i"
  then obtain f where f: "sp_pc s i = Inside f" by (auto simp: spin_inside_def split: spin_pc.splits)
  from q obtain k where "k < length q" "q ! k = i" "k = 0" by (rule queued_member [of n q s i]) (auto simp: f)
  then show ?thesis by (cases q) auto
qed

definition cpu_limit :: nat where
  "cpu_limit = 2 ^ 15"

interpretation spin: lock_machine "spin_step (min n cpu_limit)" spin_init "\<lambda>s. (\<exists>q. spin_queue (min n cpu_limit) q s) \<and> spin_local s"
  spin_inside "\<lambda>_ _ _. True" for n
proof
  have "spin_queue (min n cpu_limit) [] spin_init" "spin_local spin_init"
    by (simp_all add: spin_queue_def spin_init_def ihk_mc_spinlock_init_def spin_head_def spin_tail_def spin_local_def local_ok_def)
  then show "(\<exists>q. spin_queue (min n cpu_limit) q spin_init) \<and> spin_local spin_init" by blast
next
  fix s t
  assume "(\<exists>q. spin_queue (min n cpu_limit) q s) \<and> spin_local s" "spin_step (min n cpu_limit) s t"
  with spin_simulation spin_local_step show "(\<exists>q. spin_queue (min n cpu_limit) q t) \<and> spin_local t"
    by (metis cpu_limit_def min.cobounded2)
next
  fix s i j
  assume "(\<exists>q. spin_queue (min n cpu_limit) q s) \<and> spin_local s" "spin_inside s i" "spin_inside s j"
  with inside_first show "i = j" by blast
qed

subsection \<open>The reader/writer lock\<close>

text \<open>\<open>struct ihk_rwlock\<close>: one 64 bit word whose low half is \<open>read\<close> and whose high half is \<open>write\<close>.
  Readers count the whole word down, writers only the high half; a failed attempt is undone by a second
  instruction, and in between all others see it.\<close>

definition rw_write :: "u64 \<Rightarrow> u32" where
  "rw_write l = ucast (drop_bit 32 l)"

definition rw_set_write :: "u64 \<Rightarrow> u32 \<Rightarrow> u64" where
  "rw_set_write l w = take_bit 32 l OR push_bit 32 (ucast w)"

definition ihk_mc_rwlock_init :: u64 where
  "ihk_mc_rwlock_init = rw_set_write 0 1"

definition ihk_mc_write_can_lock :: "u64 \<Rightarrow> bool" where
  "ihk_mc_write_can_lock l \<longleftrightarrow> rw_write l = 1"

definition ihk_mc_read_can_lock :: "u64 \<Rightarrow> bool" where
  "ihk_mc_read_can_lock l \<longleftrightarrow> sint l > 0"

text \<open>\<open>Start\<close>: about to count down; \<open>Undo\<close>: the count was refused (the flag tells a \<open>trylock\<close>);
  \<open>Spin\<close>: at the label 2 of the waiting loop.\<close>

datatype rw_pc = RW_Out | RW_Read_Start bool | RW_Read_Undo bool | RW_Read_Spin | RW_Reading
  | RW_Write_Start bool | RW_Write_Undo bool | RW_Write_Spin | RW_Writing

record rw_sys =
  rw_lock :: u64
  rw_pc_of :: "nat \<Rightarrow> rw_pc"

definition rw_go :: "nat \<Rightarrow> u64 \<Rightarrow> rw_pc \<Rightarrow> rw_sys \<Rightarrow> rw_sys" where
  "rw_go i l pc s = s\<lparr>rw_lock := l, rw_pc_of := (rw_pc_of s)(i := pc)\<rparr>"

text \<open>The instruction a CPU executes next.\<close>

fun rw_exec :: "nat \<Rightarrow> rw_pc \<Rightarrow> rw_sys \<Rightarrow> rw_sys" where
  "rw_exec i (RW_Read_Start trylock) s =
     (let l = rw_lock s - 1 in rw_go i l (if 0 \<le> sint l then RW_Reading else RW_Read_Undo trylock) s)"
| "rw_exec i (RW_Read_Undo trylock) s = rw_go i (rw_lock s + 1) (if trylock then RW_Out else RW_Read_Spin) s"
| "rw_exec i RW_Read_Spin s =
     rw_go i (rw_lock s) (if 0 \<le> sint (rw_lock s - 1) then RW_Read_Start False else RW_Read_Spin) s"
| "rw_exec i RW_Reading s = rw_go i (rw_lock s + 1) RW_Out s"
| "rw_exec i (RW_Write_Start trylock) s =
     (let w = rw_write (rw_lock s) - 1
      in rw_go i (rw_set_write (rw_lock s) w) (if w = 0 then RW_Writing else RW_Write_Undo trylock) s)"
| "rw_exec i (RW_Write_Undo trylock) s =
     rw_go i (rw_set_write (rw_lock s) (rw_write (rw_lock s) + 1)) (if trylock then RW_Out else RW_Write_Spin) s"
| "rw_exec i RW_Write_Spin s =
     rw_go i (rw_lock s) (if rw_write (rw_lock s) = 1 then RW_Write_Start False else RW_Write_Spin) s"
| "rw_exec i RW_Writing s = rw_go i (rw_set_write (rw_lock s) (rw_write (rw_lock s) + 1)) RW_Out s"
| "rw_exec i RW_Out s = s"

inductive rw_step :: "nat \<Rightarrow> rw_sys \<Rightarrow> rw_sys \<Rightarrow> bool" for n where
  rw_call_read: "i < n \<Longrightarrow> rw_pc_of s i = RW_Out \<Longrightarrow> rw_step n s (rw_go i (rw_lock s) (RW_Read_Start trylock) s)"
| rw_call_write: "i < n \<Longrightarrow> rw_pc_of s i = RW_Out \<Longrightarrow> rw_step n s (rw_go i (rw_lock s) (RW_Write_Start trylock) s)"
| rw_instr: "i < n \<Longrightarrow> rw_step n s (rw_exec i (rw_pc_of s i) s)"

definition rw_init :: rw_sys where
  "rw_init = \<lparr>rw_lock = ihk_mc_rwlock_init, rw_pc_of = (\<lambda>_. RW_Out)\<rparr>"

text \<open>The word counts every CPU that has counted down and not yet up again.\<close>

fun counts_read :: "rw_pc \<Rightarrow> bool" where
  "counts_read (RW_Read_Undo trylock) \<longleftrightarrow> True"
| "counts_read RW_Reading \<longleftrightarrow> True"
| "counts_read pc \<longleftrightarrow> False"

fun counts_write :: "rw_pc \<Rightarrow> bool" where
  "counts_write (RW_Write_Undo trylock) \<longleftrightarrow> True"
| "counts_write RW_Writing \<longleftrightarrow> True"
| "counts_write pc \<longleftrightarrow> False"

definition cpus_with :: "nat \<Rightarrow> ('a \<Rightarrow> bool) \<Rightarrow> (nat \<Rightarrow> 'a) \<Rightarrow> nat" where
  "cpus_with n P f = card {i. i < n \<and> P (f i)}"

definition rw_val :: "nat \<Rightarrow> nat \<Rightarrow> int" where
  "rw_val r w = 2 ^ 32 - int r - 2 ^ 32 * int w"

lemma cpus_with_upd:
  assumes "i < n"
  shows "cpus_with n P (f(i := x)) + of_bool (P (f i)) = cpus_with n P f + of_bool (P x)"
proof -
  let ?A = "{j. j < n \<and> j \<noteq> i \<and> P (f j)}"
  have "{j. j < n \<and> P ((f(i := x)) j)} = (if P x then insert i ?A else ?A)" "{j. j < n \<and> P (f j)} = (if P (f i) then insert i ?A else ?A)"
    using assms by auto
  then show ?thesis by (simp add: cpus_with_def)
qed

lemma cpus_with_le: "cpus_with n P f \<le> n"
  using card_mono [of "{..<n}" "{i. i < n \<and> P (f i)}"] by (auto simp: cpus_with_def)

lemma cpus_with_pos: "i < n \<Longrightarrow> P (f i) \<Longrightarrow> 0 < cpus_with n P f"
  unfolding cpus_with_def by (subst card_gt_0_iff) auto

lemma rw_write_int: "rw_write (word_of_int v) = word_of_int (drop_bit 32 v)"
  by (rule bit_eqI) (auto simp: rw_write_def bit_simps)

lemma rw_set_write_int: "rw_set_write (word_of_int v) (word_of_int (drop_bit 32 v + k)) = word_of_int (v + 2 ^ 32 * k)"
proof -
  have "rw_set_write (word_of_int v) (word_of_int w) = word_of_int (take_bit 32 v OR push_bit 32 w)" for w
    by (rule bit_eqI) (auto simp: rw_set_write_def bit_simps)
  moreover have "take_bit 32 v OR push_bit 32 w = take_bit 32 v + push_bit 32 w" for w
    by (rule disjunctive_add_eq_or [symmetric], rule bit_eqI) (auto simp: bit_simps)
  moreover have "take_bit 32 v + push_bit 32 (drop_bit 32 v + k) = v + 2 ^ 32 * k"
    using bits_ident [of 32 v] by (simp add: push_bit_eq_mult algebra_simps)
  ultimately show ?thesis by metis
qed

lemma rw_sint: "- (2 ^ 63) \<le> v \<Longrightarrow> v < 2 ^ 63 \<Longrightarrow> sint (word_of_int v :: u64) = v"
  by (simp add: sint_sbintrunc' signed_take_bit_int_eq_self)

text \<open>What an attempt sees: a reader gets in only if no writer has counted, a writer only if nobody
  else has.\<close>

lemma rw_reader_in:
  assumes "r \<le> 2 ^ 31" "w \<le> 2 ^ 30" "0 < r"
  shows "0 \<le> sint (word_of_int (rw_val r w) :: u64) \<longleftrightarrow> w = 0"
proof -
  have "sint (word_of_int (rw_val r w) :: u64) = rw_val r w" using assms by (intro rw_sint) (auto simp: rw_val_def)
  with assms show ?thesis by (cases w) (auto simp: rw_val_def)
qed

lemma small_mod_zero: "d \<le> 0 \<Longrightarrow> - 2147483648 \<le> d \<Longrightarrow> d mod 4294967296 = 0 \<longleftrightarrow> d = 0" for d :: int
  using zdvd_imp_le [of 4294967296 "- d"] by (cases "d = 0") auto

lemma rw_writer_in:
  assumes "r \<le> 2 ^ 31" "w \<le> 2 ^ 30" "0 < w"
  shows "(word_of_int (drop_bit 32 (rw_val r w)) :: u32) = 0 \<longleftrightarrow> w = 1 \<and> r = 0"
proof -
  define v where "v = rw_val r w"
  have d: "drop_bit 32 v = v div 4294967296" by (simp add: drop_bit_eq_div)
  have v: "v < 4294967296" "- 9223372036854775808 \<le> v" using assms unfolding v_def by (auto simp: rw_val_def)
  then have b: "v div 4294967296 \<le> 0" "- 2147483648 \<le> v div 4294967296" by linarith+
  have "(word_of_int (v div 4294967296) :: u32) = 0 \<longleftrightarrow> v div 4294967296 mod 4294967296 = 0" by (simp add: word_uint_eq_iff uint_word_of_int)
  also have "\<dots> \<longleftrightarrow> v div 4294967296 = 0" using small_mod_zero [OF b] .
  also have "\<dots> \<longleftrightarrow> 0 \<le> v" using v(1) by linarith
  also have "\<dots> \<longleftrightarrow> w = 1 \<and> r = 0" using assms unfolding v_def by (cases w) (auto simp: rw_val_def)
  finally show ?thesis unfolding v_def [symmetric] d .
qed

definition rw_inv :: "nat \<Rightarrow> rw_sys \<Rightarrow> bool" where
  "rw_inv n s \<longleftrightarrow> rw_lock s = word_of_int (rw_val (cpus_with n counts_read (rw_pc_of s)) (cpus_with n counts_write (rw_pc_of s))) \<and>
     (\<forall>i. n \<le> i \<longrightarrow> rw_pc_of s i = RW_Out) \<and>
     (\<forall>i j. rw_pc_of s i = RW_Writing \<longrightarrow> rw_pc_of s j = RW_Reading \<or> rw_pc_of s j = RW_Writing \<longrightarrow> i = j)"

lemma rw_val_simps: "rw_val (Suc r) w = rw_val r w - 1" "rw_val r (Suc w) = rw_val r w - 2 ^ 32"
  by (simp_all add: rw_val_def)

lemma rw_inv_go:
  assumes "rw_inv n s" "i < n" "l = word_of_int (rw_val r w)"
    "r + of_bool (counts_read (rw_pc_of s i)) = cpus_with n counts_read (rw_pc_of s) + of_bool (counts_read pc)"
    "w + of_bool (counts_write (rw_pc_of s i)) = cpus_with n counts_write (rw_pc_of s) + of_bool (counts_write pc)"
    "pc = RW_Reading \<Longrightarrow> w = 0" "pc = RW_Writing \<Longrightarrow> w = 1 \<and> r = 0"
  shows "rw_inv n (rw_go i l pc s)"
proof -
  let ?f = "rw_pc_of s" and ?g = "(rw_pc_of s)(i := pc)"
  have rw: "r = cpus_with n counts_read ?g" "w = cpus_with n counts_write ?g"
    using cpus_with_upd [OF assms(2), of counts_read ?f pc] cpus_with_upd [OF assms(2), of counts_write ?f pc] assms(4,5) by simp_all
  have out: "n \<le> j \<Longrightarrow> ?g j = RW_Out" for j using assms(1,2) by (auto simp: rw_inv_def)
  have wr: "j < n" "0 < w" if "?g j = RW_Writing" for j
  proof -
    show "j < n" using out [of j] that by (cases "j < n") auto
    then show "0 < w" using cpus_with_pos [of j n counts_write ?g] that rw(2) by simp
  qed
  have excl: "j = k" if jk: "?g j = RW_Writing" "?g k = RW_Reading \<or> ?g k = RW_Writing" for j k
  proof (cases "pc = RW_Reading \<or> pc = RW_Writing")
    case False
    then have "?f j = RW_Writing" "?f k = RW_Reading \<or> ?f k = RW_Writing" using jk by (auto split: if_splits)
    with assms(1) show ?thesis by (auto simp: rw_inv_def)
  next
    case True
    then have pc: "pc = RW_Writing" "w = 1" "r = 0" using assms(6,7) wr(2) [OF jk(1)] by auto
    have "k < n" using out [of k] jk(2) by (cases "k < n") auto
    then have "?g k \<noteq> RW_Reading" using cpus_with_pos [of k n counts_read ?g] rw(1) pc(3) by auto
    then have kw: "?g k = RW_Writing" using jk(2) by simp
    have "{j, k} \<subseteq> {i. i < n \<and> counts_write (?g i)}" using wr(1) [OF jk(1)] \<open>k < n\<close> jk(1) kw by simp
    then have "card {j, k} \<le> w" unfolding rw(2) cpus_with_def by (intro card_mono) auto
    with pc(2) show ?thesis by (cases "j = k") auto
  qed
  have "rw_lock (rw_go i l pc s) = l" "rw_pc_of (rw_go i l pc s) = ?g" by (simp_all add: rw_go_def)
  then show ?thesis unfolding rw_inv_def using out excl assms(3) rw by (simp del: fun_upd_apply)
qed

lemma rw_inv_exec:
  assumes inv: "rw_inv n s" and i: "i < n" and n: "n \<le> 2 ^ 30"
  shows "rw_inv n (rw_exec i (rw_pc_of s i) s)"
proof -
  define r w where "r = cpus_with n counts_read (rw_pc_of s)" and "w = cpus_with n counts_write (rw_pc_of s)"
  have l: "rw_lock s = word_of_int (rw_val r w)" using inv by (simp add: rw_inv_def r_def w_def)
  have b: "r \<le> 2 ^ 30" "w \<le> 2 ^ 30" using cpus_with_le n unfolding r_def w_def by (meson le_trans)+
  have pos: "counts_read (rw_pc_of s i) \<Longrightarrow> 0 < r" "counts_write (rw_pc_of s i) \<Longrightarrow> 0 < w"
    using cpus_with_pos [OF i] unfolding r_def w_def by auto
  have notw: "\<not> counts_write (rw_pc_of s i) \<Longrightarrow> w < 2 ^ 30"
    using cpus_with_upd [OF i, of counts_write "rw_pc_of s" RW_Writing] cpus_with_le [of n counts_write "(rw_pc_of s)(i := RW_Writing)"] n
    by (simp add: w_def)
  have rd: "rw_lock s - 1 = word_of_int (rw_val (Suc r) w)" "0 < r \<Longrightarrow> rw_lock s + 1 = word_of_int (rw_val (r - 1) w)"
    by (simp_all add: l rw_val_def of_nat_diff)
  have "rw_set_write (rw_lock s) (rw_write (rw_lock s) - 1) = word_of_int (rw_val r w + 2 ^ 32 * (- 1))"
    using rw_set_write_int [of "rw_val r w" "- 1"] by (simp add: l rw_write_int)
  then have wd: "rw_set_write (rw_lock s) (rw_write (rw_lock s) - 1) = word_of_int (rw_val r (Suc w))" by (simp add: rw_val_def algebra_simps)
  have "rw_set_write (rw_lock s) (rw_write (rw_lock s) + 1) = word_of_int (rw_val r w + 2 ^ 32 * 1)"
    using rw_set_write_int [of "rw_val r w" 1] by (simp add: l rw_write_int)
  then have wu: "0 < w \<Longrightarrow> rw_set_write (rw_lock s) (rw_write (rw_lock s) + 1) = word_of_int (rw_val r (w - 1))"
    by (simp add: rw_val_def of_nat_diff algebra_simps)
  have win: "rw_write (rw_lock s) - 1 = 0 \<longleftrightarrow> w = 0 \<and> r = 0" if "w < 2 ^ 30"
  proof -
    have "(rw_val r w - 4294967296) div 4294967296 = rw_val r w div 4294967296 - 1"
      using div_add_self2 [of 4294967296 "rw_val r w - 4294967296"] by simp
    then have "rw_write (rw_lock s) - 1 = word_of_int (drop_bit 32 (rw_val r (Suc w)))"
      by (simp add: l rw_write_int rw_val_simps drop_bit_eq_div)
    with rw_writer_in [of r "Suc w"] b(1) that show ?thesis by simp
  qed
  have rin: "0 \<le> sint (rw_lock s - 1) \<longleftrightarrow> w = 0" unfolding rd(1) using rw_reader_in [of "Suc r" w] b by simp
  note go = rw_inv_go [OF inv i, folded r_def w_def]
  show ?thesis
  proof (cases "rw_pc_of s i")
    case (RW_Read_Start trylock)
    show ?thesis unfolding RW_Read_Start rw_exec.simps Let_def by (rule go [OF rd(1)]) (use rin in \<open>auto simp: RW_Read_Start split: if_splits\<close>)
  next
    case (RW_Read_Undo trylock)
    show ?thesis unfolding RW_Read_Undo rw_exec.simps Let_def by (rule go [OF rd(2)]) (use pos(1) in \<open>auto simp: RW_Read_Undo split: if_splits\<close>)
  next
    case RW_Read_Spin
    show ?thesis unfolding RW_Read_Spin rw_exec.simps Let_def by (rule go [OF l]) (use inv in \<open>auto simp: RW_Read_Spin split: if_splits\<close>)
  next
    case RW_Reading
    show ?thesis unfolding RW_Reading rw_exec.simps Let_def by (rule go [OF rd(2)]) (use pos(1) in \<open>auto simp: RW_Reading split: if_splits\<close>)
  next
    case (RW_Write_Start trylock)
    show ?thesis unfolding RW_Write_Start rw_exec.simps Let_def by (rule go [OF wd]) (use win notw in \<open>auto simp: RW_Write_Start split: if_splits\<close>)
  next
    case (RW_Write_Undo trylock)
    show ?thesis unfolding RW_Write_Undo rw_exec.simps Let_def by (rule go [OF wu]) (use pos(2) in \<open>auto simp: RW_Write_Undo split: if_splits\<close>)
  next
    case RW_Write_Spin
    show ?thesis unfolding RW_Write_Spin rw_exec.simps Let_def by (rule go [OF l]) (use inv in \<open>auto simp: RW_Write_Spin split: if_splits\<close>)
  next
    case RW_Writing
    show ?thesis unfolding RW_Writing rw_exec.simps Let_def by (rule go [OF wu]) (use pos(2) in \<open>auto simp: RW_Writing split: if_splits\<close>)
  qed (use inv in simp)
qed

definition rw_holds :: "rw_sys \<Rightarrow> nat \<Rightarrow> bool" where
  "rw_holds s i \<longleftrightarrow> rw_pc_of s i = RW_Reading \<or> rw_pc_of s i = RW_Writing"

definition rw_limit :: nat where
  "rw_limit = 2 ^ 30"

lemma rw_inv_step: "rw_step n s t \<Longrightarrow> rw_inv n s \<Longrightarrow> n \<le> 2 ^ 30 \<Longrightarrow> rw_inv n t"
proof (induction rule: rw_step.induct)
  case (rw_call_read i s trylock)
  then show ?case by (intro rw_inv_go) (auto simp: rw_inv_def)
next
  case (rw_call_write i s trylock)
  then show ?case by (intro rw_inv_go) (auto simp: rw_inv_def)
next
  case (rw_instr i s)
  then show ?case by (simp add: rw_inv_exec)
qed

interpretation rw: lock_machine "rw_step (min n rw_limit)" rw_init "rw_inv (min n rw_limit)" rw_holds
  "\<lambda>s i j. rw_pc_of s i = RW_Writing" for n
proof
  have "rw_set_write 0 1 = word_of_int (rw_val 0 0)" using rw_set_write_int [of 0 1] by (simp add: rw_val_def)
  then show "rw_inv (min n rw_limit) rw_init" by (simp add: rw_inv_def rw_init_def ihk_mc_rwlock_init_def cpus_with_def)
next
  fix s t
  assume "rw_inv (min n rw_limit) s" "rw_step (min n rw_limit) s t"
  then show "rw_inv (min n rw_limit) t" by (simp add: rw_inv_step rw_limit_def)
next
  fix s i j
  assume "rw_inv (min n rw_limit) s" "rw_holds s i" "rw_holds s j" "rw_pc_of s i = RW_Writing"
  then show "i = j" by (auto simp: rw_inv_def rw_holds_def)
qed

subsection \<open>Properties\<close>

text \<open>C33: However the CPUs interleave their locked instructions, at most one of up to \<open>2 ^ 15\<close> CPUs is
  inside the section of a ticket lock, although the 16 bit tickets wrap around and \<open>trylock\<close> may act on a
  lock word that was read long ago.  Inside, preemption is disabled, and interrupts are off for the callers that
  asked for it; outside, both are as before.\<close>

theorem ticket_lock_exclusive:
  assumes "n \<le> cpu_limit" "reach (spin_step n) spin_init s" "spin_inside s i"
  shows "(\<forall>j. spin_inside s j \<longrightarrow> j = i) \<and> sp_no_preempt s i = 1 \<and> (pc_flags (sp_pc s i) \<noteq> None \<longrightarrow> \<not> sp_irq s i) \<and>
    (\<forall>j. sp_pc s j = Outside \<longrightarrow> sp_no_preempt s j = 0 \<and> sp_irq s j)"
proof -
  have r: "reach (spin_step (min n cpu_limit)) spin_init s" using assms(1,2) by simp
  have "spin_local s" using spin.reach_inv [OF r] by blast
  then have loc: "local_ok (sp_pc s j) (sp_no_preempt s j) (sp_irq s j)" for j by (simp add: spin_local_def)
  have "\<forall>j. spin_inside s j \<longrightarrow> j = i" using spin.reach_exclusive [OF r] assms(3) by blast
  moreover have "sp_pc s i \<noteq> Outside" using assms(3) by (auto simp: spin_inside_def)
  moreover have "sp_no_preempt s j = 0 \<and> sp_irq s j" if "sp_pc s j = Outside" for j using loc [of j] that by (simp add: local_ok_def)
  ultimately show ?thesis using loc [of i] by (auto simp: local_ok_def)
qed

text \<open>C34: The ticket lock is fair: it implements a queue.  Every reachable state stands for a queue of
  CPUs whose first member is the only one that can be inside, and every step of the lock is a step of the
  queue: a CPU joins at the end, the first one leaves, or nothing changes.\<close>

theorem ticket_lock_fifo:
  assumes "n \<le> cpu_limit" "reach (spin_step n) spin_init s"
  shows "\<exists>q. spin_queue n q s \<and> (\<forall>i. spin_inside s i \<longrightarrow> q \<noteq> [] \<and> hd q = i) \<and>
    (\<forall>t. spin_step n s t \<longrightarrow> (\<exists>q'. fifo_step q q' \<and> spin_queue n q' t))"
proof -
  have r: "reach (spin_step (min n cpu_limit)) spin_init s" using assms by simp
  from spin.reach_inv [OF r] assms(1) obtain q where q: "spin_queue n q s" by auto
  have "spin_inside s i \<Longrightarrow> q \<noteq> [] \<and> hd q = i" for i using inside_first [OF q, of i] by auto
  with q spin_simulation [of n s _ q] assms(1) show ?thesis by (auto simp: cpu_limit_def)
qed

text \<open>C35: The reader/writer lock: in every interleaving of the counting, undoing and waiting instructions
  of up to \<open>2 ^ 30\<close> CPUs a writer is alone, also against \<open>trylock\<close>s that count and undo in between.  When no
  CPU has counted, the word is back at its initial value and both kinds of lock can be taken.\<close>

theorem rwlock_exclusive:
  assumes "n \<le> rw_limit" "reach (rw_step n) rw_init s"
  shows "(\<forall>i j. rw_pc_of s i = RW_Writing \<longrightarrow> rw_holds s j \<longrightarrow> j = i) \<and>
    ((\<forall>i. \<not> counts_read (rw_pc_of s i) \<and> \<not> counts_write (rw_pc_of s i)) \<longrightarrow>
       rw_lock s = ihk_mc_rwlock_init \<and> ihk_mc_read_can_lock (rw_lock s) \<and> ihk_mc_write_can_lock (rw_lock s))"
proof -
  have r: "reach (rw_step (min n rw_limit)) rw_init s" using assms by simp
  have "rw_pc_of s i = RW_Writing \<Longrightarrow> rw_holds s j \<Longrightarrow> j = i" for i j using rw.reach_exclusive [OF r, of i j] by (simp add: rw_holds_def)
  moreover have "rw_lock s = word_of_int (rw_val 0 0)" if "\<forall>i. \<not> counts_read (rw_pc_of s i) \<and> \<not> counts_write (rw_pc_of s i)"
    using rw.reach_inv [OF r] that by (simp add: rw_inv_def cpus_with_def)
  moreover have "word_of_int (rw_val 0 0) = ihk_mc_rwlock_init"
    using rw_set_write_int [of 0 1] by (simp add: rw_val_def ihk_mc_rwlock_init_def)
  moreover have "ihk_mc_read_can_lock (word_of_int (rw_val 0 0))" using rw_sint [of "rw_val 0 0"] by (simp add: ihk_mc_read_can_lock_def rw_val_def)
  moreover have "ihk_mc_write_can_lock (word_of_int (rw_val 0 0))"
    using rw_write_int [of "rw_val 0 0"] by (simp add: ihk_mc_write_can_lock_def rw_val_def drop_bit_eq_div)
  ultimately show ?thesis by auto
qed

text \<open>CPU 0 takes the lock with interrupts off, CPU 1 waits, and gets it when CPU 0 leaves.\<close>

definition example_spin :: spin_sys where
  "example_spin = spinlock_spin 1 2 None (spinlock_unlock 0 (Some True) (spinlock_lock False 1 (spinlock_lock True 0 spin_init)))"

lemmas spin_eval = spin_ops spin_init_def ihk_mc_spinlock_init_def spin_head_def spin_tail_def tickets_def spin_addw_head_def

lemma example_spin_reach: "reach (spin_step 2) spin_init example_spin"
proof -
  let ?s1 = "spinlock_lock True 0 spin_init"
  let ?s2 = "spinlock_lock False 1 ?s1"
  let ?s3 = "spinlock_unlock 0 (Some True) ?s2"
  have a: "spin_step 2 spin_init ?s1" by (rule spin_lock) (simp_all add: spin_init_def)
  have b: "spin_step 2 ?s1 ?s2" by (rule spin_lock) (simp_all add: spin_eval)
  have c: "spin_step 2 ?s2 ?s3" by (rule spin_unlock) (simp_all add: spin_eval)
  have d: "spin_step 2 ?s3 example_spin" unfolding example_spin_def by (rule spin_wait) (simp_all add: spin_eval)
  note step = reach_step [of "spin_step 2" spin_init]
  show ?thesis by (rule step [OF step [OF step [OF step [OF reach_start a] b] c] d])
qed

theorem ticket_lock_exclusive_witness: "spin_inside example_spin 1 \<and> sp_no_preempt example_spin 1 = 1 \<and> sp_no_preempt example_spin 0 = 0"
proof -
  have lim: "2 \<le> cpu_limit" by (simp add: cpu_limit_def)
  have s: "spin_inside example_spin 1" "sp_pc example_spin 0 = Outside" by (simp_all add: spin_inside_def example_spin_def spin_eval)
  show ?thesis using ticket_lock_exclusive [OF lim example_spin_reach s(1)] s by blast
qed

theorem ticket_lock_fifo_witness: "\<exists>q. spin_queue 2 q example_spin \<and> q \<noteq> [] \<and> hd q = 1"
proof -
  have lim: "2 \<le> cpu_limit" by (simp add: cpu_limit_def)
  have "spin_inside example_spin 1" by (simp add: spin_inside_def example_spin_def spin_eval)
  then show ?thesis using ticket_lock_fifo [OF lim example_spin_reach] by blast
qed

text \<open>CPU 0 writes; CPU 1 tries to read, is refused and undoes its count.\<close>

definition example_rw :: rw_sys where
  "example_rw = rw_go 1 0 (RW_Read_Undo True) (rw_go 0 0 RW_Writing rw_init)\<lparr>rw_lock := - 1\<rparr>"

lemma example_rw_reach: "reach (rw_step 2) rw_init example_rw"
proof -
  let ?s1 = "rw_go 0 (rw_lock rw_init) (RW_Write_Start False) rw_init"
  let ?s2 = "rw_exec 0 (rw_pc_of ?s1 0) ?s1"
  let ?s3 = "rw_go 1 (rw_lock ?s2) (RW_Read_Start True) ?s2"
  let ?s4 = "rw_exec 1 (rw_pc_of ?s3 1) ?s3"
  have a: "rw_step 2 rw_init ?s1" by (rule rw_call_write) (simp_all add: rw_init_def)
  have b: "rw_step 2 ?s1 ?s2" by (rule rw_instr) simp
  have c: "rw_step 2 ?s2 ?s3" by (rule rw_call_read) (simp_all add: rw_init_def rw_go_def Let_def)
  have d: "rw_step 2 ?s3 ?s4" by (rule rw_instr) simp
  have e: "?s4 = example_rw"
    by (simp add: example_rw_def rw_go_def Let_def rw_init_def ihk_mc_rwlock_init_def rw_set_write_def rw_write_def)
  note step = reach_step [of "rw_step 2" rw_init]
  show ?thesis by (rule step [OF step [OF step [OF step [OF reach_start a] b] c] d [unfolded e]])
qed

theorem rwlock_exclusive_witness: "rw_pc_of example_rw 0 = RW_Writing \<and> \<not> rw_holds example_rw 1"
proof -
  have lim: "2 \<le> rw_limit" by (simp add: rw_limit_def)
  have w: "rw_pc_of example_rw 0 = RW_Writing" by (simp add: example_rw_def rw_go_def)
  have "rw_holds example_rw 1 \<Longrightarrow> (1 :: nat) = 0"
    using conjunct1 [OF rwlock_exclusive [OF lim example_rw_reach]] w by (metis (no_types))
  with w show ?thesis by auto
qed

end
