(* ===== verification/Bitmap.thy ===== *)
theory Bitmap
  imports Bitops "HOL-Library.Monad_Syntax"
begin

section \<open>Bitmaps\<close>

text \<open>
  \<open>lib/bitmap.c\<close>, \<open>lib/include/bitmap.h\<close> and the population count of \<open>lib/bitops.c\<close>.  A bitmap is a list of
  64-bit words of which the first \<open>bits\<close> bits count; an access outside of the list is \<open>None\<close>.  Destination and
  sources are values also where they may be one array: every loop over words reads a word before it writes it.
  Sizes and positions, \<open>int\<close> in the code, are natural numbers.
  Every operation is compared with one on the set of the positions that are set.
\<close>

unbundle bit_operations_syntax

subsection \<open>Words\<close>

definition BITS_TO_LONGS :: "nat \<Rightarrow> nat" where
  "BITS_TO_LONGS nr = (nr + 63) div 64"

definition BITMAP_FIRST_WORD_MASK :: "nat \<Rightarrow> u64" where
  "BITMAP_FIRST_WORD_MASK start = push_bit (start mod 64) (NOT 0)"

definition BITMAP_LAST_WORD_MASK :: "nat \<Rightarrow> u64" where
  "BITMAP_LAST_WORD_MASK nbits = (if nbits mod 64 \<noteq> 0 then push_bit (nbits mod 64) 1 - 1 else NOT 0)"

text \<open>The number of bits of a word, by adding neighbours of width 1, 2 and 4 in parallel and the bytes by one
  multiplication.\<close>

definition sw_hweight64 :: "u64 \<Rightarrow> u64" where
  "sw_hweight64 w =
     (let w = w - (drop_bit 1 w AND 0x5555555555555555);
          w = (w AND 0x3333333333333333) + (drop_bit 2 w AND 0x3333333333333333);
          w = (w + drop_bit 4 w) AND 0x0f0f0f0f0f0f0f0f
      in drop_bit 56 (w * 0x0101010101010101))"

definition hweight_long :: "u64 \<Rightarrow> u64" where
  "hweight_long w = sw_hweight64 w"

text \<open>Writing a word of a bitmap.\<close>

definition put_word :: "u64 list \<Rightarrow> nat \<Rightarrow> u64 \<Rightarrow> u64 list option" where
  "put_word m k w = (if k < length m then Some (m[k := w]) else None)"

subsection \<open>Tests\<close>

text \<open>The loop the tests share: is a word not zero before \<open>lim\<close>, or the part of the next that counts?\<close>

fun scan_words :: "(nat \<Rightarrow> u64 option) \<Rightarrow> nat list \<Rightarrow> bool option" where
  "scan_words f [] = Some False"
| "scan_words f (k # ks) = do { w \<leftarrow> f k; if w \<noteq> 0 then Some True else scan_words f ks }"

definition scan_bits :: "(nat \<Rightarrow> u64 option) \<Rightarrow> nat \<Rightarrow> bool option" where
  "scan_bits f bits =
     do { hit \<leftarrow> scan_words f [0..<bits div 64];
          if hit then Some True
          else if bits mod 64 \<noteq> 0 then do { w \<leftarrow> f (bits div 64); Some (w AND BITMAP_LAST_WORD_MASK bits \<noteq> 0) }
          else Some False }"

definition bitmap_empty :: "u64 list \<Rightarrow> nat \<Rightarrow> bool option" where
  "bitmap_empty m bits = map_option Not (scan_bits (\<lambda>k. word_at m k) bits)"

definition bitmap_full :: "u64 list \<Rightarrow> nat \<Rightarrow> bool option" where
  "bitmap_full m bits = map_option Not (scan_bits (\<lambda>k. map_option (\<lambda>w. NOT w) (word_at m k)) bits)"

definition two_words :: "(u64 \<Rightarrow> u64 \<Rightarrow> u64) \<Rightarrow> u64 list \<Rightarrow> u64 list \<Rightarrow> nat \<Rightarrow> u64 option" where
  "two_words f m1 m2 k = do { a \<leftarrow> word_at m1 k; b \<leftarrow> word_at m2 k; Some (f a b) }"

definition bitmap_equal :: "u64 list \<Rightarrow> u64 list \<Rightarrow> nat \<Rightarrow> bool option" where
  "bitmap_equal m1 m2 bits = map_option Not (scan_bits (two_words (XOR) m1 m2) bits)"

definition bitmap_intersects :: "u64 list \<Rightarrow> u64 list \<Rightarrow> nat \<Rightarrow> bool option" where
  "bitmap_intersects m1 m2 bits = scan_bits (two_words (AND) m1 m2) bits"

definition bitmap_subset :: "u64 list \<Rightarrow> u64 list \<Rightarrow> nat \<Rightarrow> bool option" where
  "bitmap_subset m1 m2 bits = map_option Not (scan_bits (two_words (\<lambda>a b. a AND NOT b) m1 m2) bits)"

fun weigh_words :: "u64 list \<Rightarrow> nat list \<Rightarrow> nat \<Rightarrow> nat option" where
  "weigh_words m [] w = Some w"
| "weigh_words m (k # ks) w = do { x \<leftarrow> word_at m k; weigh_words m ks (w + unat (hweight_long x)) }"

definition bitmap_weight :: "u64 list \<Rightarrow> nat \<Rightarrow> nat option" where
  "bitmap_weight m bits =
     do { w \<leftarrow> weigh_words m [0..<bits div 64] 0;
          if bits mod 64 \<noteq> 0 then do { x \<leftarrow> word_at m (bits div 64); Some (w + unat (hweight_long (x AND BITMAP_LAST_WORD_MASK bits))) }
          else Some w }"

subsection \<open>Combining bitmaps\<close>

fun map_words :: "(nat \<Rightarrow> u64 option) \<Rightarrow> nat list \<Rightarrow> u64 list \<Rightarrow> u64 list option" where
  "map_words f [] dst = Some dst"
| "map_words f (k # ks) dst = do { w \<leftarrow> f k; dst \<leftarrow> put_word dst k w; map_words f ks dst }"

definition bitmap_complement :: "u64 list \<Rightarrow> u64 list \<Rightarrow> nat \<Rightarrow> u64 list option" where
  "bitmap_complement dst src bits =
     do { dst \<leftarrow> map_words (\<lambda>k. map_option (\<lambda>w. NOT w) (word_at src k)) [0..<bits div 64] dst;
          if bits mod 64 \<noteq> 0 then do { w \<leftarrow> word_at src (bits div 64); put_word dst (bits div 64) (NOT w AND BITMAP_LAST_WORD_MASK bits) }
          else Some dst }"

text \<open>The two that report whether the result has a bit collect it while they write.\<close>

fun map_words_any :: "(nat \<Rightarrow> u64 option) \<Rightarrow> nat list \<Rightarrow> u64 \<Rightarrow> u64 list \<Rightarrow> (bool \<times> u64 list) option" where
  "map_words_any f [] result dst = Some (result \<noteq> 0, dst)"
| "map_words_any f (k # ks) result dst = do { w \<leftarrow> f k; dst \<leftarrow> put_word dst k w; map_words_any f ks (result OR w) dst }"

definition bitmap_and :: "u64 list \<Rightarrow> u64 list \<Rightarrow> u64 list \<Rightarrow> nat \<Rightarrow> (bool \<times> u64 list) option" where
  "bitmap_and dst m1 m2 bits = map_words_any (two_words (AND) m1 m2) [0..<BITS_TO_LONGS bits] 0 dst"

definition bitmap_or :: "u64 list \<Rightarrow> u64 list \<Rightarrow> u64 list \<Rightarrow> nat \<Rightarrow> u64 list option" where
  "bitmap_or dst m1 m2 bits = map_words (two_words (OR) m1 m2) [0..<BITS_TO_LONGS bits] dst"

definition bitmap_xor :: "u64 list \<Rightarrow> u64 list \<Rightarrow> u64 list \<Rightarrow> nat \<Rightarrow> u64 list option" where
  "bitmap_xor dst m1 m2 bits = map_words (two_words (XOR) m1 m2) [0..<BITS_TO_LONGS bits] dst"

definition bitmap_andnot :: "u64 list \<Rightarrow> u64 list \<Rightarrow> u64 list \<Rightarrow> nat \<Rightarrow> (bool \<times> u64 list) option" where
  "bitmap_andnot dst m1 m2 bits = map_words_any (two_words (\<lambda>a b. a AND NOT b) m1 m2) [0..<BITS_TO_LONGS bits] 0 dst"

definition bitmap_zero :: "u64 list \<Rightarrow> nat \<Rightarrow> u64 list option" where
  "bitmap_zero dst nbits = map_words (\<lambda>_. Some 0) [0..<BITS_TO_LONGS nbits] dst"

definition bitmap_fill :: "u64 list \<Rightarrow> nat \<Rightarrow> u64 list option" where
  "bitmap_fill dst nbits =
     (if BITS_TO_LONGS nbits = 0 then None else do { dst \<leftarrow> map_words (\<lambda>_. Some (NOT 0)) [0..<BITS_TO_LONGS nbits - 1] dst;
          put_word dst (BITS_TO_LONGS nbits - 1) (BITMAP_LAST_WORD_MASK nbits) })"

definition bitmap_copy :: "u64 list \<Rightarrow> u64 list \<Rightarrow> nat \<Rightarrow> u64 list option" where
  "bitmap_copy dst src nbits = map_words (word_at src) [0..<BITS_TO_LONGS nbits] dst"

subsection \<open>Shifts\<close>

definition shift_right_word :: "u64 list \<Rightarrow> nat \<Rightarrow> nat \<Rightarrow> nat \<Rightarrow> nat \<Rightarrow> nat \<Rightarrow> u64 option" where
  "shift_right_word src lim left off rem k =
     (let mask = push_bit left 1 - 1
      in do {
        upper \<leftarrow> if rem = 0 \<or> lim \<le> off + k + 1 then Some 0
          else do { u \<leftarrow> word_at src (off + k + 1); Some (if off + k + 1 = lim - 1 \<and> left \<noteq> 0 then u AND mask else u) };
        lower \<leftarrow> word_at src (off + k);
        let lower = (if left \<noteq> 0 \<and> off + k = lim - 1 then lower AND mask else lower);
        let w = push_bit (64 - rem) upper OR drop_bit rem lower;
        Some (if left \<noteq> 0 \<and> k = lim - 1 then w AND mask else w) })"

definition bitmap_shift_right :: "u64 list \<Rightarrow> u64 list \<Rightarrow> nat \<Rightarrow> nat \<Rightarrow> u64 list option" where
  "bitmap_shift_right dst src shift bits =
     (let lim = BITS_TO_LONGS bits; left = bits mod 64; off = shift div 64; rem = shift mod 64
      in do {
        dst \<leftarrow> map_words (shift_right_word src lim left off rem) [0..<lim - off] dst;
        if off = 0 then Some dst
        else if lim < off then None
        else map_words (\<lambda>_. Some 0) [lim - off..<lim] dst })"

definition shift_left_word :: "u64 list \<Rightarrow> nat \<Rightarrow> nat \<Rightarrow> nat \<Rightarrow> nat \<Rightarrow> nat \<Rightarrow> u64 option" where
  "shift_left_word src lim left off rem k =
     (let mask = push_bit left 1 - 1
      in do {
        lower \<leftarrow> if rem \<noteq> 0 \<and> 0 < k then word_at src (k - 1) else Some 0;
        upper \<leftarrow> word_at src k;
        let upper = (if left \<noteq> 0 \<and> k = lim - 1 then upper AND mask else upper);
        let w = drop_bit (64 - rem) lower OR push_bit rem upper;
        Some (if left \<noteq> 0 \<and> k + off = lim - 1 then w AND mask else w) })"

definition bitmap_shift_left :: "u64 list \<Rightarrow> u64 list \<Rightarrow> nat \<Rightarrow> nat \<Rightarrow> u64 list option" where
  "bitmap_shift_left dst src shift bits =
     (let lim = BITS_TO_LONGS bits; left = bits mod 64; off = shift div 64; rem = shift mod 64
      in do {
        dst \<leftarrow> map_words (\<lambda>j. shift_left_word src lim left off rem (j - off)) (rev [off..<lim]) dst;
        map_words (\<lambda>_. Some 0) [0..<off] dst })"

subsection \<open>Ranges of bits\<close>

text \<open>The loop of \<open>bitmap_set\<close> and \<open>bitmap_clear\<close>: \<open>b\<close> bits of the current word are still to do.\<close>

function range_loop :: "(u64 \<Rightarrow> u64 \<Rightarrow> u64) \<Rightarrow> nat \<Rightarrow> nat \<Rightarrow> nat \<Rightarrow> nat \<Rightarrow> u64 \<Rightarrow> u64 list \<Rightarrow> u64 list option" where
  "range_loop f sz p nr b msk m =
     (if 0 < b \<and> b \<le> nr then do { w \<leftarrow> word_at m p; m \<leftarrow> put_word m p (f w msk); range_loop f sz (p + 1) (nr - b) 64 (NOT 0) m }
      else if nr \<noteq> 0 then do { w \<leftarrow> word_at m p; put_word m p (f w (msk AND BITMAP_LAST_WORD_MASK sz)) }
      else Some m)"
  by pat_completeness auto
termination by (relation "measure (\<lambda>(f, sz, p, nr, b, msk, m). nr)") auto

declare range_loop.simps [simp del]

definition bitmap_set :: "u64 list \<Rightarrow> nat \<Rightarrow> nat \<Rightarrow> u64 list option" where
  "bitmap_set m start nr =
     range_loop (\<lambda>w mask. w OR mask) (start + nr) (start div 64) nr (64 - start mod 64) (BITMAP_FIRST_WORD_MASK start) m"

definition bitmap_clear :: "u64 list \<Rightarrow> nat \<Rightarrow> nat \<Rightarrow> u64 list option" where
  "bitmap_clear m start nr =
     range_loop (\<lambda>w mask. w AND NOT mask) (start + nr) (start div 64) nr (64 - start mod 64) (BITMAP_FIRST_WORD_MASK start) m"

definition align_mask_up :: "nat \<Rightarrow> u64 \<Rightarrow> nat" where
  "align_mask_up x msk = unat ((word_of_nat x + msk) AND NOT msk)"

partial_function (option) bitmap_find_next_zero_area :: "u64 list \<Rightarrow> nat \<Rightarrow> nat \<Rightarrow> nat \<Rightarrow> u64 \<Rightarrow> nat option" where
  "bitmap_find_next_zero_area m sz start nr align_mask =
     Option.bind (find_next_zero_bit m sz start) (\<lambda>index.
       let index = align_mask_up index align_mask; e = index + nr
       in if sz < e then Some e
          else Option.bind (find_next_bit m e index) (\<lambda>i.
            if i < e then bitmap_find_next_zero_area m sz (i + 1) nr align_mask else Some index))"

subsection \<open>Positions and ordinals\<close>

partial_function (option) pos_to_ord_loop :: "u64 list \<Rightarrow> nat \<Rightarrow> nat \<Rightarrow> nat \<Rightarrow> nat \<Rightarrow> (nat \<times> nat) option" where
  "pos_to_ord_loop buf bits pos i ord =
     (if i < pos then Option.bind (find_next_bit buf bits (i + 1)) (\<lambda>i. pos_to_ord_loop buf bits pos i (ord + 1))
      else Some (i, ord))"

text \<open>The \<open>BUG_ON\<close> is a panic.\<close>

definition bitmap_pos_to_ord :: "u64 list \<Rightarrow> int \<Rightarrow> nat \<Rightarrow> int option" where
  "bitmap_pos_to_ord buf pos bits =
     (if pos < 0 \<or> int bits \<le> pos then Some (- 1)
      else do {
        set \<leftarrow> test_bit_at (nat pos) buf;
        if \<not> set then Some (- 1)
        else do {
          i \<leftarrow> find_first_bit buf bits;
          (i, ord) \<leftarrow> pos_to_ord_loop buf bits (nat pos) i 0;
          if i \<noteq> nat pos then None else Some (int ord) } })"

partial_function (option) ord_to_pos_loop :: "u64 list \<Rightarrow> nat \<Rightarrow> nat \<Rightarrow> nat \<Rightarrow> (nat \<times> nat) option" where
  "ord_to_pos_loop buf bits i ord =
     (if i < bits \<and> 0 < ord then Option.bind (find_next_bit buf bits (i + 1)) (\<lambda>i. ord_to_pos_loop buf bits i (ord - 1))
      else Some (i, ord))"

definition bitmap_ord_to_pos :: "u64 list \<Rightarrow> int \<Rightarrow> nat \<Rightarrow> nat option" where
  "bitmap_ord_to_pos buf ord bits =
     (if 0 \<le> ord \<and> ord < int bits then do {
        i \<leftarrow> find_first_bit buf bits;
        (i, ord) \<leftarrow> ord_to_pos_loop buf bits i (nat ord);
        Some (if i < bits \<and> ord = 0 then i else 0) }
      else Some 0)"

text \<open>\<open>for_each_set_bit\<close>.\<close>

partial_function (option) for_each_set_bit :: "(nat \<Rightarrow> 's \<Rightarrow> 's option) \<Rightarrow> u64 list \<Rightarrow> nat \<Rightarrow> nat \<Rightarrow> 's \<Rightarrow> 's option" where
  "for_each_set_bit f m bits i s =
     (if i < bits then Option.bind (f i s) (\<lambda>s. Option.bind (find_next_bit m bits (i + 1)) (\<lambda>i. for_each_set_bit f m bits i s))
      else Some s)"

text \<open>The argument \<open>same\<close> of the three routines below says whether source and destination are the
  same array, in which case they return at once; the other arrays are different from the destination.\<close>

definition bitmap_remap :: "bool \<Rightarrow> u64 list \<Rightarrow> u64 list \<Rightarrow> u64 list \<Rightarrow> u64 list \<Rightarrow> nat \<Rightarrow> u64 list option" where
  "bitmap_remap same dst src old new bits =
     (if same then Some dst else do { dst \<leftarrow> bitmap_zero dst bits;
          w \<leftarrow> bitmap_weight new bits;
          i \<leftarrow> find_first_bit src bits;
          for_each_set_bit (\<lambda>oldbit dst. do {
            n \<leftarrow> bitmap_pos_to_ord old (int oldbit) bits;
            if n < 0 \<or> w = 0 then set_bit_at oldbit dst
            else do { pos \<leftarrow> bitmap_ord_to_pos new (n mod int w) bits; set_bit_at pos dst } }) src bits i dst })"

definition bitmap_bitremap :: "nat \<Rightarrow> u64 list \<Rightarrow> u64 list \<Rightarrow> nat \<Rightarrow> nat option" where
  "bitmap_bitremap oldbit old new bits =
     do { w \<leftarrow> bitmap_weight new bits;
          n \<leftarrow> bitmap_pos_to_ord old (int oldbit) bits;
          if n < 0 \<or> w = 0 then Some oldbit else bitmap_ord_to_pos new (n mod int w) bits }"

definition bitmap_onto :: "bool \<Rightarrow> u64 list \<Rightarrow> u64 list \<Rightarrow> u64 list \<Rightarrow> nat \<Rightarrow> u64 list option" where
  "bitmap_onto same dst orig relmap bits =
     (if same then Some dst else do { dst \<leftarrow> bitmap_zero dst bits;
          i \<leftarrow> find_first_bit relmap bits;
          (_, dst) \<leftarrow> for_each_set_bit (\<lambda>n (m, dst). do {
            set \<leftarrow> test_bit_at m orig;
            dst \<leftarrow> if set then set_bit_at n dst else Some dst;
            Some (m + 1, dst) }) relmap bits i (0, dst);
          Some dst })"

text \<open>A modulus of 0 is a division by zero.\<close>

definition bitmap_fold :: "bool \<Rightarrow> u64 list \<Rightarrow> u64 list \<Rightarrow> nat \<Rightarrow> nat \<Rightarrow> u64 list option" where
  "bitmap_fold same dst orig sz bits =
     (if same then Some dst else do { dst \<leftarrow> bitmap_zero dst bits;
          i \<leftarrow> find_first_bit orig bits;
          for_each_set_bit (\<lambda>oldbit dst. if sz = 0 then None else set_bit_at (oldbit mod sz) dst) orig bits i dst })"

subsection \<open>Regions\<close>

definition reg_mask :: "nat \<Rightarrow> nat \<Rightarrow> u64" where
  "reg_mask pos order =
     (let nbits_reg = 2 ^ order; nbitsinlong = (if nbits_reg < 64 then nbits_reg else 64);
          mask = push_bit (nbitsinlong - 1) 1;
          mask = mask + (mask - 1)
      in push_bit (pos mod 64) mask)"

definition reg_longs :: "nat \<Rightarrow> nat \<Rightarrow> nat list" where
  "reg_longs pos order = [pos div 64..<pos div 64 + BITS_TO_LONGS (2 ^ order)]"

definition reg_isfree :: "u64 list \<Rightarrow> nat \<Rightarrow> nat \<Rightarrow> bool option" where
  "reg_isfree m pos order = map_option Not (scan_words (\<lambda>k. map_option (\<lambda>w. w AND reg_mask pos order) (word_at m k)) (reg_longs pos order))"

fun change_words :: "(u64 \<Rightarrow> u64) \<Rightarrow> nat list \<Rightarrow> u64 list \<Rightarrow> u64 list option" where
  "change_words f [] m = Some m"
| "change_words f (k # ks) m = do { w \<leftarrow> word_at m k; m \<leftarrow> put_word m k (f w); change_words f ks m }"

definition reg_alloc :: "u64 list \<Rightarrow> nat \<Rightarrow> nat \<Rightarrow> u64 list option" where
  "reg_alloc m pos order = change_words (\<lambda>w. w OR reg_mask pos order) (reg_longs pos order) m"

definition bitmap_release_region :: "u64 list \<Rightarrow> nat \<Rightarrow> nat \<Rightarrow> u64 list option" where
  "bitmap_release_region m pos order = change_words (\<lambda>w. w AND NOT (reg_mask pos order)) (reg_longs pos order) m"

function find_free_loop :: "u64 list \<Rightarrow> nat \<Rightarrow> nat \<Rightarrow> nat \<Rightarrow> (int \<times> u64 list) option" where
  "find_free_loop m bits order pos =
     (let e = pos + 2 ^ order
      in if e \<le> bits then do {
           free \<leftarrow> reg_isfree m pos order;
           if \<not> free then find_free_loop m bits order e
           else do { m \<leftarrow> reg_alloc m pos order; Some (int pos, m) } }
         else Some (- ENOMEM, m))"
  by pat_completeness auto
termination
proof (relation "measure (\<lambda>(m, bits, order, pos). bits - pos)")
  fix m and bits order pos e :: nat and a assume "e = pos + 2 ^ order" "e \<le> bits" "\<not> (a :: bool)"
  moreover have "(0 :: nat) < 2 ^ order" by simp
  ultimately have "bits - e < bits - pos" by linarith
  then show "((m, bits, order, e), m, bits, order, pos) \<in> measure (\<lambda>(m, bits, order, pos). bits - pos)" by simp
qed simp

declare find_free_loop.simps [simp del]

definition bitmap_find_free_region :: "u64 list \<Rightarrow> nat \<Rightarrow> nat \<Rightarrow> (int \<times> u64 list) option" where
  "bitmap_find_free_region m bits order = find_free_loop m bits order 0"

definition bitmap_allocate_region :: "u64 list \<Rightarrow> nat \<Rightarrow> nat \<Rightarrow> (int \<times> u64 list) option" where
  "bitmap_allocate_region m pos order =
     do { free \<leftarrow> reg_isfree m pos order;
          if \<not> free then Some (- 16, m)
          else do { m \<leftarrow> reg_alloc m pos order; Some (0, m) } }"

subsection \<open>A bitmap as a set\<close>

definition bm :: "u64 list \<Rightarrow> nat \<Rightarrow> nat set" where
  "bm m bits = {i. i < bits \<and> region_bit m i}"

definition fits :: "u64 list \<Rightarrow> nat \<Rightarrow> bool" where
  "fits m bits \<longleftrightarrow> bits \<le> 64 * length m"

lemma bm_finite [simp]: "finite (bm m bits)"
  by (simp add: bm_def)

lemma fits_word: "fits m bits \<Longrightarrow> i < bits \<Longrightarrow> i div 64 < length m"
  by (simp add: fits_def div_less_iff_less_mult mult.commute)

lemma fits_longs: "fits m bits \<Longrightarrow> k < BITS_TO_LONGS bits \<Longrightarrow> k < length m"
  by (simp add: fits_def BITS_TO_LONGS_def)

lemma longs_bit: "k < BITS_TO_LONGS bits \<longleftrightarrow> 64 * k < bits"
  by (auto simp: BITS_TO_LONGS_def)

lemma last_word_mask: "j < 64 \<Longrightarrow> bits mod 64 \<noteq> 0 \<Longrightarrow> bit (BITMAP_LAST_WORD_MASK bits) j \<longleftrightarrow> j < bits mod 64"
  by (simp add: BITMAP_LAST_WORD_MASK_def mask_eq_exp_minus_1 [symmetric] bit_mask_iff)

lemma bit_word_zero: "(w :: u64) \<noteq> 0 \<longleftrightarrow> (\<exists>j < 64. bit w j)"
  using word_zero_iff [of w] bit_index_less(1) by blast

lemma scan_words_iff:
  "\<forall>k \<in> set ks. f k = Some (g k) \<Longrightarrow> scan_words f ks = Some (\<exists>k \<in> set ks. g k \<noteq> 0)"
  by (induction ks) auto

lemma scan_bits_iff:
  assumes "\<And>k. k < BITS_TO_LONGS bits \<Longrightarrow> f k = Some (g k)"
  shows "scan_bits f bits = Some (\<exists>i < bits. bit (g (i div 64)) (i mod 64))"
proof -
  let ?n = "bits div 64"
  have lim: "k < ?n \<Longrightarrow> k < BITS_TO_LONGS bits" for k by (simp add: BITS_TO_LONGS_def)
  have sw: "scan_words f [0..<?n] = Some (\<exists>k < ?n. g k \<noteq> 0)" using scan_words_iff [of "[0..<?n]" f g] assms lim by (auto simp: Bex_def)
  have full: "(\<exists>k < ?n. g k \<noteq> 0) \<longleftrightarrow> (\<exists>i < 64 * ?n. bit (g (i div 64)) (i mod 64))"
  proof
    assume "\<exists>k < ?n. g k \<noteq> 0"
    then obtain k j where "k < ?n" "j < 64" "bit (g k) j" using bit_word_zero by auto
    then show "\<exists>i < 64 * ?n. bit (g (i div 64)) (i mod 64)" by (intro exI [of _ "64 * k + j"]) auto
  next
    assume "\<exists>i < 64 * ?n. bit (g (i div 64)) (i mod 64)"
    then obtain i where i: "i < 64 * ?n" "bit (g (i div 64)) (i mod 64)" by blast
    have "i div 64 < ?n" using i(1) by (simp add: div_less_iff_less_mult mult.commute)
    moreover have "g (i div 64) \<noteq> 0" using i(2) by auto
    ultimately show "\<exists>k < ?n. g k \<noteq> 0" by blast
  qed
  show ?thesis
  proof (cases "bits mod 64 = 0")
    case True
    then have "bits = 64 * ?n" by auto
    then show ?thesis using sw full True by (auto simp: scan_bits_def)
  next
    case False
    then have "64 * ?n < bits" using mult_div_mod_eq [of 64 bits] by linarith
    then have fn: "f ?n = Some (g ?n)" using assms [of ?n] by (simp add: longs_bit)
    have last: "g ?n AND BITMAP_LAST_WORD_MASK bits \<noteq> 0 \<longleftrightarrow> (\<exists>j < bits mod 64. bit (g ?n) j)"
    proof -
      have "bit (g ?n AND BITMAP_LAST_WORD_MASK bits) j \<longleftrightarrow> j < bits mod 64 \<and> bit (g ?n) j" if "j < 64" for j
        using last_word_mask [OF that False] by (auto simp: bit_and_iff)
      moreover have "j < 64" if "j < bits mod 64" for j using that mod_less_divisor [of 64 bits] by linarith
      ultimately show ?thesis unfolding bit_word_zero by blast
    qed
    have "(\<exists>i < bits. bit (g (i div 64)) (i mod 64)) \<longleftrightarrow> (\<exists>i < 64 * ?n. bit (g (i div 64)) (i mod 64)) \<or> (\<exists>j < bits mod 64. bit (g ?n) j)"
    proof
      assume "\<exists>i < bits. bit (g (i div 64)) (i mod 64)"
      then obtain i where i: "i < bits" "bit (g (i div 64)) (i mod 64)" by blast
      show "(\<exists>i < 64 * ?n. bit (g (i div 64)) (i mod 64)) \<or> (\<exists>j < bits mod 64. bit (g ?n) j)"
      proof (cases "i < 64 * ?n")
        case f: False
        have d: "i div 64 = ?n" using f i(1) by auto
        then have "i mod 64 < bits mod 64" using i(1) mult_div_mod_eq [of 64 i] mult_div_mod_eq [of 64 bits] by linarith
        with d i(2) show ?thesis by auto
      qed (use i in blast)
    next
      assume "(\<exists>i < 64 * ?n. bit (g (i div 64)) (i mod 64)) \<or> (\<exists>j < bits mod 64. bit (g ?n) j)"
      then show "\<exists>i < bits. bit (g (i div 64)) (i mod 64)"
      proof
        assume "\<exists>j < bits mod 64. bit (g ?n) j"
        then obtain j where j: "j < bits mod 64" "bit (g ?n) j" by blast
        have jl: "j < 64" using j(1) by simp
        then have "(64 * ?n + j) div 64 = ?n" "(64 * ?n + j) mod 64 = j" by simp_all
        moreover have "64 * ?n + j < bits" using j(1) mult_div_mod_eq [of 64 bits] by linarith
        ultimately show ?thesis using j(2) by (intro exI [of _ "64 * ?n + j"]) simp
      qed (use less_le_trans [of _ "64 * ?n" bits] times_div_less_eq_dividend [of 64 bits] in blast)
    qed
    with sw full fn last False show ?thesis by (auto simp: scan_bits_def)
  qed
qed

lemma two_words_some: "fits m1 bits \<Longrightarrow> fits m2 bits \<Longrightarrow> k < BITS_TO_LONGS bits \<Longrightarrow> two_words f m1 m2 k = Some (f (m1 ! k) (m2 ! k))"
  by (simp add: two_words_def word_at_def fits_longs)

text \<open>The tests are the tests on sets.\<close>

lemma bitmap_tests:
  assumes "fits m1 bits" "fits m2 bits"
  shows "bitmap_empty m1 bits = Some (bm m1 bits = {})" "bitmap_full m1 bits = Some (bm m1 bits = {..<bits})"
    "bitmap_equal m1 m2 bits = Some (bm m1 bits = bm m2 bits)" "bitmap_intersects m1 m2 bits = Some (bm m1 bits \<inter> bm m2 bits \<noteq> {})"
    "bitmap_subset m1 m2 bits = Some (bm m1 bits \<subseteq> bm m2 bits)"
proof -
  have w: "k < BITS_TO_LONGS bits \<Longrightarrow> word_at m1 k = Some (m1 ! k)" for k using fits_longs [OF assms(1)] by (simp add: word_at_def)
  note two = two_words_some [OF assms]
  have m: "i mod 64 < 64" for i :: nat by simp
  show "bitmap_empty m1 bits = Some (bm m1 bits = {})" unfolding bitmap_empty_def
    using scan_bits_iff [of bits "word_at m1" "\<lambda>k. m1 ! k"] w by (auto simp: bm_def region_bit_def)
  show "bitmap_full m1 bits = Some (bm m1 bits = {..<bits})" unfolding bitmap_full_def
    using scan_bits_iff [of bits "\<lambda>k. map_option (\<lambda>w. NOT w) (word_at m1 k)" "\<lambda>k. NOT (m1 ! k)"] w by (auto simp: bm_def region_bit_def bit_not_iff)
  show "bitmap_equal m1 m2 bits = Some (bm m1 bits = bm m2 bits)" unfolding bitmap_equal_def
    using scan_bits_iff [of bits "two_words (XOR) m1 m2" "\<lambda>k. (m1 ! k) XOR (m2 ! k)"] two by (auto simp: bm_def region_bit_def bit_xor_iff set_eq_iff)
  show "bitmap_intersects m1 m2 bits = Some (bm m1 bits \<inter> bm m2 bits \<noteq> {})" unfolding bitmap_intersects_def
    using scan_bits_iff [of bits "two_words (AND) m1 m2" "\<lambda>k. (m1 ! k) AND (m2 ! k)"] two by (auto simp: bm_def region_bit_def bit_and_iff)
  show "bitmap_subset m1 m2 bits = Some (bm m1 bits \<subseteq> bm m2 bits)" unfolding bitmap_subset_def
    using scan_bits_iff [of bits "two_words (\<lambda>a b. a AND NOT b) m1 m2" "\<lambda>k. (m1 ! k) AND NOT (m2 ! k)"] two
    by (auto simp: bm_def region_bit_def bit_and_iff bit_not_iff)
qed

subsection \<open>Writing words\<close>

definition over_words :: "(nat \<Rightarrow> u64) \<Rightarrow> nat set \<Rightarrow> u64 list \<Rightarrow> u64 list" where
  "over_words g K m = map (\<lambda>j. if j \<in> K then g j else m ! j) [0..<length m]"

lemma over_words_length [simp]: "length (over_words g K m) = length m"
  by (simp add: over_words_def)

lemma over_words_nth [simp]: "j < length m \<Longrightarrow> over_words g K m ! j = (if j \<in> K then g j else m ! j)"
  by (simp add: over_words_def)

lemma over_words_empty [simp]: "over_words g {} m = m"
  by (simp add: over_words_def map_nth)

lemma over_words_insert: "k < length m \<Longrightarrow> over_words g K (m[k := g k]) = over_words g (insert k K) m"
  by (rule nth_equalityI) (auto simp: nth_list_update)

lemma over_words_over: "over_words h L (over_words g K m) = over_words (\<lambda>j. if j \<in> L then h j else g j) (K \<union> L) m"
  by (rule nth_equalityI) auto

lemma map_words_some:
  assumes "\<forall>k \<in> set ks. f k = Some (g k) \<and> k < length dst"
  shows "map_words f ks dst = Some (over_words g (set ks) dst)"
  using assms
proof (induction ks arbitrary: dst)
  case (Cons k ks)
  then have "k < length dst" "f k = Some (g k)" "\<forall>k' \<in> set ks. f k' = Some (g k') \<and> k' < length (dst[k := g k])" by auto
  with Cons.IH [OF this(3)] show ?case by (simp add: put_word_def over_words_insert)
qed simp

lemma map_words_any_some:
  assumes "\<forall>k \<in> set ks. f k = Some (g k) \<and> k < length dst"
  shows "map_words_any f ks r dst = Some (r \<noteq> 0 \<or> (\<exists>k \<in> set ks. g k \<noteq> 0), over_words g (set ks) dst)"
  using assms
proof (induction ks arbitrary: dst r)
  case (Cons k ks)
  then have "k < length dst" "f k = Some (g k)" "\<forall>k' \<in> set ks. f k' = Some (g k') \<and> k' < length (dst[k := g k])" by auto
  with Cons.IH [OF this(3), of "r OR g k"] show ?case by (auto simp: put_word_def over_words_insert word_zero_iff bit_or_iff)
qed simp

lemma over_words_bit:
  assumes "i < 64 * length m"
  shows "region_bit (over_words g K m) i \<longleftrightarrow> (if i div 64 \<in> K then bit (g (i div 64)) (i mod 64) else region_bit m i)"
proof -
  have "i div 64 < length m" using assms by (simp add: div_less_iff_less_mult mult.commute)
  then show ?thesis by (simp add: region_bit_def)
qed

text \<open>All words of a bitmap of \<open>bits\<close> bits.\<close>

lemma longs_word: "i < bits \<Longrightarrow> i div 64 < BITS_TO_LONGS bits"
  by (auto simp: longs_bit intro: le_less_trans)

lemma bm_over_all:
  assumes "fits dst bits"
  shows "bm (over_words g {0..<BITS_TO_LONGS bits} dst) bits = {i. i < bits \<and> bit (g (i div 64)) (i mod 64)}"
proof -
  have "i < 64 * length dst" if "i < bits" for i using that assms by (simp add: fits_def)
  then show ?thesis using longs_word by (auto simp: bm_def over_words_bit)
qed

definition same_after :: "u64 list \<Rightarrow> u64 list \<Rightarrow> nat \<Rightarrow> bool" where
  "same_after m m' bits \<longleftrightarrow> length m' = length m \<and> (\<forall>k < length m. BITS_TO_LONGS bits \<le> k \<longrightarrow> m' ! k = m ! k)"

lemma same_after_over: "K \<subseteq> {0..<BITS_TO_LONGS bits} \<Longrightarrow> same_after m (over_words g K m) bits"
  by (auto simp: same_after_def)

lemma words_written:
  assumes "fits dst bits" "\<And>k. k < BITS_TO_LONGS bits \<Longrightarrow> f k = Some (g k)" "\<And>i. i < bits \<Longrightarrow> bit (g (i div 64)) (i mod 64) \<longleftrightarrow> i \<in> S"
  shows "\<exists>m. map_words f [0..<BITS_TO_LONGS bits] dst = Some m \<and> same_after dst m bits \<and> bm m bits = S \<inter> {..<bits}"
proof -
  have "map_words f [0..<BITS_TO_LONGS bits] dst = Some (over_words g {0..<BITS_TO_LONGS bits} dst)"
    using map_words_some [of "[0..<BITS_TO_LONGS bits]" f g dst] assms(2) fits_longs [OF assms(1)] by simp
  moreover have "bm (over_words g {0..<BITS_TO_LONGS bits} dst) bits = S \<inter> {..<bits}" unfolding bm_over_all [OF assms(1)] using assms(3) by auto
  ultimately show ?thesis using same_after_over [of "{0..<BITS_TO_LONGS bits}" bits dst g] by blast
qed

lemma bm_bit: "i < bits \<Longrightarrow> i \<in> bm m bits \<longleftrightarrow> bit (m ! (i div 64)) (i mod 64)"
  by (simp add: bm_def region_bit_def)

lemma bitmap_or_xor:
  assumes "fits dst bits" "fits m1 bits" "fits m2 bits"
  shows "\<exists>m. bitmap_or dst m1 m2 bits = Some m \<and> same_after dst m bits \<and> bm m bits = bm m1 bits \<union> bm m2 bits"
    "\<exists>m. bitmap_xor dst m1 m2 bits = Some m \<and> same_after dst m bits \<and> bm m bits = (bm m1 bits - bm m2 bits) \<union> (bm m2 bits - bm m1 bits)"
proof -
  have sub: "bm m bits \<inter> {..<bits} = bm m bits" for m by (auto simp: bm_def)
  show "\<exists>m. bitmap_or dst m1 m2 bits = Some m \<and> same_after dst m bits \<and> bm m bits = bm m1 bits \<union> bm m2 bits"
    using words_written [OF assms(1), of "two_words (OR) m1 m2" "\<lambda>k. (m1 ! k) OR (m2 ! k)" "bm m1 bits \<union> bm m2 bits"] two_words_some [OF assms(2,3)]
    by (simp add: bitmap_or_def bm_bit bit_or_iff Int_Un_distrib2 sub)
  show "\<exists>m. bitmap_xor dst m1 m2 bits = Some m \<and> same_after dst m bits \<and> bm m bits = (bm m1 bits - bm m2 bits) \<union> (bm m2 bits - bm m1 bits)"
    using words_written [OF assms(1), of "two_words (XOR) m1 m2" "\<lambda>k. (m1 ! k) XOR (m2 ! k)" "(bm m1 bits - bm m2 bits) \<union> (bm m2 bits - bm m1 bits)"]
      two_words_some [OF assms(2,3)]
    by (simp add: bitmap_xor_def bm_bit bit_xor_iff Int_Un_distrib2 Diff_Int_distrib2 sub) blast
qed

text \<open>The two with a result report a bit that is set in any of the words, also beyond the last that counts.\<close>

lemma bitmap_and_andnot:
  assumes "fits dst bits" "fits m1 bits" "fits m2 bits"
  shows "\<exists>any m. bitmap_and dst m1 m2 bits = Some (any, m) \<and> same_after dst m bits \<and> bm m bits = bm m1 bits \<inter> bm m2 bits \<and>
      (any \<longleftrightarrow> bm m1 (64 * BITS_TO_LONGS bits) \<inter> bm m2 (64 * BITS_TO_LONGS bits) \<noteq> {})"
    "\<exists>any m. bitmap_andnot dst m1 m2 bits = Some (any, m) \<and> same_after dst m bits \<and> bm m bits = bm m1 bits - bm m2 bits \<and>
      (any \<longleftrightarrow> \<not> bm m1 (64 * BITS_TO_LONGS bits) \<subseteq> bm m2 (64 * BITS_TO_LONGS bits))"
proof -
  let ?n = "BITS_TO_LONGS bits"
  have any: "(\<exists>k \<in> set [0..<?n]. g k \<noteq> 0) \<longleftrightarrow> (\<exists>i < 64 * ?n. bit (g (i div 64)) (i mod 64))" for g :: "nat \<Rightarrow> u64"
  proof
    assume "\<exists>k \<in> set [0..<?n]. g k \<noteq> 0"
    then obtain k j where "k < ?n" "j < 64" "bit (g k) j" using bit_word_zero by auto
    then show "\<exists>i < 64 * ?n. bit (g (i div 64)) (i mod 64)" by (intro exI [of _ "64 * k + j"]) auto
  next
    assume "\<exists>i < 64 * ?n. bit (g (i div 64)) (i mod 64)"
    then obtain i where i: "i < 64 * ?n" "bit (g (i div 64)) (i mod 64)" by blast
    then have "i div 64 < ?n" "g (i div 64) \<noteq> 0" by (auto simp: div_less_iff_less_mult mult.commute)
    then show "\<exists>k \<in> set [0..<?n]. g k \<noteq> 0" by auto
  qed
  have run: "map_words_any (two_words f m1 m2) [0..<?n] 0 dst =
      Some (\<exists>k \<in> set [0..<?n]. f (m1 ! k) (m2 ! k) \<noteq> 0, over_words (\<lambda>k. f (m1 ! k) (m2 ! k)) {0..<?n} dst)" for f
    using map_words_any_some [of "[0..<?n]" "two_words f m1 m2" "\<lambda>k. f (m1 ! k) (m2 ! k)" dst 0] two_words_some [OF assms(2,3)] fits_longs [OF assms(1)] by simp
  show "\<exists>any m. bitmap_and dst m1 m2 bits = Some (any, m) \<and> same_after dst m bits \<and> bm m bits = bm m1 bits \<inter> bm m2 bits \<and>
      (any \<longleftrightarrow> bm m1 (64 * ?n) \<inter> bm m2 (64 * ?n) \<noteq> {})"
    unfolding bitmap_and_def run any using same_after_over [of "{0..<?n}" bits dst]
    by (simp add: bm_over_all [OF assms(1)]) (auto simp: bm_def region_bit_def bit_and_iff)
  show "\<exists>any m. bitmap_andnot dst m1 m2 bits = Some (any, m) \<and> same_after dst m bits \<and> bm m bits = bm m1 bits - bm m2 bits \<and>
      (any \<longleftrightarrow> \<not> bm m1 (64 * ?n) \<subseteq> bm m2 (64 * ?n))"
    unfolding bitmap_andnot_def run any using same_after_over [of "{0..<?n}" bits dst]
    by (simp add: bm_over_all [OF assms(1)]) (auto simp: bm_def region_bit_def bit_and_iff bit_not_iff)
qed

lemma last_mask_bit: "i < bits \<Longrightarrow> i div 64 = bits div 64 \<Longrightarrow> bit (BITMAP_LAST_WORD_MASK bits) (i mod 64)"
proof -
  assume i: "i < bits" "i div 64 = bits div 64"
  then have lt: "i mod 64 < bits mod 64" using mult_div_mod_eq [of 64 i] mult_div_mod_eq [of 64 bits] by linarith
  then show ?thesis using last_word_mask [of "i mod 64" bits] by simp
qed

lemma bitmap_zero_copy:
  assumes "fits dst bits"
  shows "\<exists>m. bitmap_zero dst bits = Some m \<and> same_after dst m bits \<and> bm m bits = {}"
    "fits src bits \<Longrightarrow> \<exists>m. bitmap_copy dst src bits = Some m \<and> same_after dst m bits \<and> bm m bits = bm src bits"
proof -
  show "\<exists>m. bitmap_zero dst bits = Some m \<and> same_after dst m bits \<and> bm m bits = {}"
    using words_written [OF assms, of "\<lambda>_. Some 0" "\<lambda>_. 0" "{}"] by (simp add: bitmap_zero_def)
  assume "fits src bits"
  then have "k < BITS_TO_LONGS bits \<Longrightarrow> word_at src k = Some (src ! k)" for k using fits_longs by (simp add: word_at_def)
  moreover have "bm src bits \<inter> {..<bits} = bm src bits" by (auto simp: bm_def)
  ultimately show "\<exists>m. bitmap_copy dst src bits = Some m \<and> same_after dst m bits \<and> bm m bits = bm src bits"
    using words_written [OF assms, of "word_at src" "\<lambda>k. src ! k" "bm src bits"] by (simp add: bitmap_copy_def bm_bit)
qed

text \<open>Whole words and then the last one are all words.\<close>

lemma longs_split: "{0..<BITS_TO_LONGS bits} = (if bits mod 64 \<noteq> 0 then insert (bits div 64) {0..<bits div 64} else {0..<bits div 64})"
proof -
  define n r where "n = bits div 64" and "r = bits mod 64"
  have e: "bits = 64 * n + r" "r < 64" by (simp_all add: n_def r_def)
  have "64 * k < bits \<longleftrightarrow> k < n \<or> k = n \<and> r \<noteq> 0" for k using e by presburger
  then have "k \<in> {0..<BITS_TO_LONGS bits} \<longleftrightarrow> k < n \<or> k = n \<and> r \<noteq> 0" for k by (simp only: atLeastLessThan_iff longs_bit) simp
  then show ?thesis unfolding n_def [symmetric] r_def [symmetric] set_eq_iff by (cases "r = 0") auto
qed

lemma bitmap_complement_bm:
  assumes "fits dst bits" "fits src bits"
  shows "\<exists>m. bitmap_complement dst src bits = Some m \<and> same_after dst m bits \<and> bm m bits = {..<bits} - bm src bits"
proof -
  let ?n = "bits div 64" and ?g = "\<lambda>k. if k = bits div 64 then NOT (src ! k) AND BITMAP_LAST_WORD_MASK bits else NOT (src ! k)"
  have w: "k < BITS_TO_LONGS bits \<Longrightarrow> word_at src k = Some (src ! k) \<and> k < length dst" for k
    using fits_longs [OF assms(2)] fits_longs [OF assms(1)] by (simp add: word_at_def)
  have n: "k < ?n \<Longrightarrow> k < BITS_TO_LONGS bits" for k using longs_split [of bits] by (auto split: if_splits)
  have a: "map_words (\<lambda>k. map_option (\<lambda>w. NOT w) (word_at src k)) [0..<?n] dst = Some (over_words (\<lambda>k. NOT (src ! k)) {0..<?n} dst)"
    using map_words_some [of "[0..<?n]" "\<lambda>k. map_option (\<lambda>w. NOT w) (word_at src k)" "\<lambda>k. NOT (src ! k)" dst] w n by simp
  have b: "bitmap_complement dst src bits = Some (over_words ?g {0..<BITS_TO_LONGS bits} dst)"
  proof (cases "bits mod 64 = 0")
    case True
    then have "over_words (\<lambda>k. NOT (src ! k)) {0..<?n} dst = over_words ?g {0..<BITS_TO_LONGS bits} dst"
      using longs_split [of bits] by (auto simp: over_words_def)
    with a True show ?thesis by (simp add: bitmap_complement_def)
  next
    case False
    then have l: "?n < BITS_TO_LONGS bits" using longs_split [of bits] by (auto split: if_splits)
    have "(over_words (\<lambda>k. NOT (src ! k)) {0..<?n} dst)[?n := ?g ?n] = over_words ?g {0..<BITS_TO_LONGS bits} dst"
      using w [OF l] False longs_split [of bits] by (intro nth_equalityI) (auto simp: nth_list_update)
    with a False w [OF l] show ?thesis by (simp add: bitmap_complement_def put_word_def)
  qed
  have "bit (?g (i div 64)) (i mod 64) \<longleftrightarrow> i \<notin> bm src bits" if "i < bits" for i
    using last_mask_bit [OF that] that by (simp add: bm_bit bit_and_iff bit_not_iff)
  then have "bm (over_words ?g {0..<BITS_TO_LONGS bits} dst) bits = {..<bits} - bm src bits" unfolding bm_over_all [OF assms(1)] lessThan_def by blast
  with b same_after_over [of "{0..<BITS_TO_LONGS bits}" bits dst ?g] show ?thesis by blast
qed

subsection \<open>Counting bits\<close>

text \<open>A number as fields of \<open>k\<close> bits.\<close>

fun fields :: "nat \<Rightarrow> (nat \<Rightarrow> nat) \<Rightarrow> nat \<Rightarrow> nat" where
  "fields k c 0 = 0"
| "fields k c (Suc n) = c 0 + 2 ^ k * fields k (\<lambda>j. c (Suc j)) n"

lemma fields_add: "fields k c n + fields k d n = fields k (\<lambda>j. c j + d j) n"
  by (induction n arbitrary: c d) (simp_all add: algebra_simps, metis distrib_left)

lemma fields_cong: "(\<And>j. j < n \<Longrightarrow> c j = d j) \<Longrightarrow> fields k c n = fields k d n"
proof (induction n arbitrary: c d)
  case (Suc n)
  have "fields k (\<lambda>j. c (Suc j)) n = fields k (\<lambda>j. d (Suc j)) n" using Suc.prems by (intro Suc.IH) simp
  with Suc.prems [of 0] show ?case by simp
qed simp

lemma fields_less: "(\<And>j. j < n \<Longrightarrow> c j < 2 ^ k) \<Longrightarrow> fields k c n < 2 ^ (k * n)"
proof (induction n arbitrary: c)
  case (Suc n)
  have "fields k (\<lambda>j. c (Suc j)) n < 2 ^ (k * n)" using Suc.prems by (intro Suc.IH) simp
  then have "2 ^ k * (fields k (\<lambda>j. c (Suc j)) n + 1) \<le> 2 ^ k * 2 ^ (k * n)" by (intro mult_le_mono2) simp
  moreover have "c 0 < 2 ^ k" using Suc.prems by simp
  ultimately show ?case by (simp add: power_add)
qed simp

lemma fields_pairs: "fields k c (2 * n) = fields (2 * k) (\<lambda>j. c (2 * j) + 2 ^ k * c (2 * j + 1)) n"
proof (induction n arbitrary: c)
  case (Suc n)
  have "(2 :: nat) ^ (2 * k) = 2 ^ k * 2 ^ k" by (simp add: power_add [symmetric] mult_2)
  with Suc.IH [of "\<lambda>j. c (Suc (Suc j))"] show ?case by (simp add: algebra_simps)
qed simp

lemma fields_parts:
  assumes "c 0 < 2 ^ k"
  shows "take_bit k (fields k c (Suc n)) = c 0" "drop_bit k (fields k c (Suc n)) = fields k (\<lambda>j. c (Suc j)) n"
  using assms by (simp_all add: take_bit_eq_mod drop_bit_eq_div)

lemma fields_drop: "c 0 < 2 ^ k \<Longrightarrow> c n = 0 \<Longrightarrow> drop_bit k (fields k c n) = fields k (\<lambda>j. c (Suc j)) n"
proof (cases n)
  case (Suc m)
  assume c: "c 0 < 2 ^ k" "c n = 0"
  have "fields k d (Suc m) = fields k d m" if "d m = 0" for d using that by (induction m arbitrary: d) auto
  from this [of "\<lambda>j. c (Suc j)"] c Suc show ?thesis using fields_parts(2) [of c k m] by (simp del: fields.simps)
qed simp

lemma and_parts: "(x :: nat) AND y = (take_bit k x AND take_bit k y) + 2 ^ k * (drop_bit k x AND drop_bit k y)"
proof -
  have "x AND y = take_bit k (x AND y) + push_bit k (drop_bit k (x AND y))" using bits_ident [of k "x AND y"] by simp
  then show ?thesis by (simp add: take_bit_and drop_bit_and push_bit_eq_mult mult.commute)
qed

lemma fields_and:
  assumes "\<And>j. j < n \<Longrightarrow> c j < 2 ^ k" "\<And>j. j < n \<Longrightarrow> d j < 2 ^ k"
  shows "fields k c n AND fields k d n = fields k (\<lambda>j. c j AND d j) n"
  using assms
proof (induction n arbitrary: c d)
  case (Suc n)
  have "fields k (\<lambda>j. c (Suc j)) n AND fields k (\<lambda>j. d (Suc j)) n = fields k (\<lambda>j. c (Suc j) AND d (Suc j)) n" using Suc.prems by (intro Suc.IH) simp_all
  moreover have "c 0 < 2 ^ k" "d 0 < 2 ^ k" using Suc.prems by simp_all
  ultimately show ?case using and_parts [of "fields k c (Suc n)" "fields k d (Suc n)" k] fields_parts [of c k n] fields_parts [of d k n]
    by (simp del: fields.simps) simp
qed simp

definition evens :: "nat \<Rightarrow> nat \<Rightarrow> nat" where
  "evens v j = (if even j then v else 0)"

lemma and_evens: "c < 2 ^ k \<Longrightarrow> c AND evens (2 ^ k - 1) j = (if even j then c else 0)"
proof -
  assume "c < 2 ^ k"
  then have "take_bit k c = c" by (simp add: take_bit_nat_eq_self)
  then have "c AND (2 ^ k - 1) = c" by (simp add: take_bit_eq_mask mask_eq_exp_minus_1)
  then show ?thesis by (simp add: evens_def)
qed

lemma fields_and_evens:
  assumes "\<And>j. j < 2 * n \<Longrightarrow> c j < 2 ^ k"
  shows "fields k c (2 * n) AND fields k (evens (2 ^ k - 1)) (2 * n) = fields (2 * k) (\<lambda>j. c (2 * j)) n"
proof -
  have "fields k c (2 * n) AND fields k (evens (2 ^ k - 1)) (2 * n) = fields k (\<lambda>j. c j AND evens (2 ^ k - 1) j) (2 * n)"
    by (rule fields_and) (use assms in \<open>auto simp: evens_def\<close>)
  also have "\<dots> = fields k (\<lambda>j. if even j then c j else 0) (2 * n)" by (rule fields_cong) (rule and_evens, rule assms)
  finally show ?thesis by (simp add: fields_pairs)
qed

lemma fields_bits: "fields 1 (\<lambda>j. of_bool (bit x j)) n = take_bit n (x :: nat)"
proof (induction n arbitrary: x)
  case (Suc n)
  have "(\<lambda>j. of_bool (bit x (Suc j)) :: nat) = (\<lambda>j. of_bool (bit (x div 2) j))" by (simp add: bit_Suc)
  with Suc.IH [of "x div 2"] show ?case by (simp add: take_bit_Suc bit_0 odd_iff_mod_2_eq_one)
qed simp

fun total :: "(nat \<Rightarrow> nat) \<Rightarrow> nat \<Rightarrow> nat" where
  "total c 0 = 0"
| "total c (Suc n) = c 0 + total (\<lambda>j. c (Suc j)) n"

lemma total_pairs: "total c (2 * n) = total (\<lambda>j. c (2 * j) + c (2 * j + 1)) n"
  by (induction n arbitrary: c) auto

lemma fields_const_step: "fields k (\<lambda>_. v) (numeral n) = v + 2 ^ k * fields k (\<lambda>_. v) (pred_numeral n)"
  by (simp add: numeral_eq_Suc)

lemma fields_evens: "fields k (evens v) (2 * n) = fields (2 * k) (\<lambda>_. v) n"
  by (simp add: fields_pairs evens_def)

lemma masks64:
  "fields 1 (evens (2 ^ 1 - 1)) (2 * 32) = 0x5555555555555555" "fields 2 (evens (2 ^ 2 - 1)) (2 * 16) = 0x3333333333333333"
  "fields 4 (evens (2 ^ 4 - 1)) (2 * 8) = 0x0f0f0f0f0f0f0f0f"
  unfolding fields_evens by (simp_all add: fields_const_step)

lemma unat_and: "unat (v AND w) = unat v AND unat w" for v w :: "'a::len word"
  by (rule unsigned_and_eq)

lemma unat_drop: "unat (drop_bit k w) = drop_bit k (unat w)" for w :: "'a::len word"
  by (simp add: unsigned_drop_bit_eq take_bit_nat_eq_self)

text \<open>One round: neighbouring fields of \<open>k\<close> bits are added into fields of \<open>2 * k\<close> bits.\<close>

lemma add_neighbours:
  assumes "\<And>j. c j < 2 ^ k" "c (2 * n) = 0"
  shows "(fields k c (2 * n) AND fields k (evens (2 ^ k - 1)) (2 * n)) + (drop_bit k (fields k c (2 * n)) AND fields k (evens (2 ^ k - 1)) (2 * n)) =
    fields (2 * k) (\<lambda>j. c (2 * j) + c (2 * j + 1)) n"
proof -
  have d: "drop_bit k (fields k c (2 * n)) = fields k (\<lambda>j. c (Suc j)) (2 * n)" by (rule fields_drop) (use assms in auto)
  show ?thesis unfolding d fields_and_evens [of n c k, OF assms(1)] fields_and_evens [of n "\<lambda>j. c (Suc j)" k, OF assms(1)] by (simp add: fields_add)
qed

lemma sub_neighbours:
  assumes "\<And>j. c j < 2" "c (2 * n) = 0"
  shows "fields 1 c (2 * n) - (drop_bit 1 (fields 1 c (2 * n)) AND fields 1 (evens (2 ^ 1 - 1)) (2 * n)) = fields 2 (\<lambda>j. c (2 * j) + c (2 * j + 1)) n"
    "(drop_bit 1 (fields 1 c (2 * n)) AND fields 1 (evens (2 ^ 1 - 1)) (2 * n)) \<le> fields 1 c (2 * n)"
proof -
  have c: "\<And>j. c j < 2 ^ 1" using assms(1) by simp
  have d: "drop_bit 1 (fields 1 c (2 * n)) = fields 1 (\<lambda>j. c (Suc j)) (2 * n)" by (rule fields_drop) (use assms c in auto)
  have v: "drop_bit 1 (fields 1 c (2 * n)) AND fields 1 (evens (2 ^ 1 - 1)) (2 * n) = fields 2 (\<lambda>j. c (Suc (2 * j))) n"
    unfolding d using fields_and_evens [of n "\<lambda>j. c (Suc j)" 1, OF c] by simp
  have x: "fields 1 c (2 * n) = fields 2 (\<lambda>j. c (2 * j) + c (2 * j + 1)) n + fields 2 (\<lambda>j. c (Suc (2 * j))) n"
    using fields_pairs [of 1 c n] by (simp add: fields_add algebra_simps numeral_2_eq_2)
  show "fields 1 c (2 * n) - (drop_bit 1 (fields 1 c (2 * n)) AND fields 1 (evens (2 ^ 1 - 1)) (2 * n)) = fields 2 (\<lambda>j. c (2 * j) + c (2 * j + 1)) n"
    "(drop_bit 1 (fields 1 c (2 * n)) AND fields 1 (evens (2 ^ 1 - 1)) (2 * n)) \<le> fields 1 c (2 * n)" unfolding v unfolding x by simp_all
qed

text \<open>The last round adds before it masks, because there is room for the sum.\<close>

lemma add_then_mask:
  assumes "\<And>j. c j + c (Suc j) < 2 ^ k" "c (2 * n) = 0"
  shows "(fields k c (2 * n) + drop_bit k (fields k c (2 * n))) AND fields k (evens (2 ^ k - 1)) (2 * n) = fields (2 * k) (\<lambda>j. c (2 * j) + c (2 * j + 1)) n"
proof -
  have "c 0 < 2 ^ k" using assms(1) [of 0] by simp
  then have d: "drop_bit k (fields k c (2 * n)) = fields k (\<lambda>j. c (Suc j)) (2 * n)" by (rule fields_drop) (rule assms(2))
  show ?thesis unfolding d fields_add using fields_and_evens [of n "\<lambda>j. c j + c (Suc j)" k, OF assms(1)] by simp
qed

lemma total_8: "total c 8 = c 0 + c 1 + c 2 + c 3 + c 4 + c 5 + c 6 + c 7"
  by (simp add: numeral_eq_Suc)

lemma fields_8: "fields k c 8 = c 0 + 2 ^ k * (c 1 + 2 ^ k * (c 2 + 2 ^ k * (c 3 + 2 ^ k * (c 4 + 2 ^ k * (c 5 + 2 ^ k * (c 6 + 2 ^ k * c 7))))))"
  by (simp add: numeral_eq_Suc)

lemma sum_bytes:
  assumes "\<And>j. c j \<le> 8"
  shows "fields 8 c 8 * 0x0101010101010101 mod 2 ^ 64 div 2 ^ 56 = total c 8"
proof -
  let ?L = "c 0 + 256 * (c 0 + c 1 + 256 * (c 0 + c 1 + c 2 + 256 * (c 0 + c 1 + c 2 + c 3 + 256 * (c 0 + c 1 + c 2 + c 3 + c 4 +
     256 * (c 0 + c 1 + c 2 + c 3 + c 4 + c 5 + 256 * (c 0 + c 1 + c 2 + c 3 + c 4 + c 5 + c 6))))))"
  let ?H = "c 1 + c 2 + c 3 + c 4 + c 5 + c 6 + c 7 + 256 * (c 2 + c 3 + c 4 + c 5 + c 6 + c 7 + 256 * (c 3 + c 4 + c 5 + c 6 + c 7 +
     256 * (c 4 + c 5 + c 6 + c 7 + 256 * (c 5 + c 6 + c 7 + 256 * (c 6 + c 7 + 256 * c 7)))))"
  have e: "fields 8 c 8 = c 0 + 256 * (c 1 + 256 * (c 2 + 256 * (c 3 + 256 * (c 4 + 256 * (c 5 + 256 * (c 6 + 256 * c 7))))))" unfolding fields_8 by simp
  have p: "fields 8 c 8 * 0x0101010101010101 = (?L + 2 ^ 56 * total c 8) + 2 ^ 64 * ?H" unfolding e total_8 by simp
  have b: "c 0 \<le> 8" "c 1 \<le> 8" "c 2 \<le> 8" "c 3 \<le> 8" "c 4 \<le> 8" "c 5 \<le> 8" "c 6 \<le> 8" "c 7 \<le> 8" using assms by blast+
  have "?L < 2 ^ 56" "total c 8 < 256" using b unfolding total_8 by simp_all
  then have l: "?L + 2 ^ 56 * total c 8 < 2 ^ 64" "(?L + 2 ^ 56 * total c 8) div 2 ^ 56 = total c 8" by simp_all
  show ?thesis unfolding p mod_mult_self2 mod_less [OF l(1)] by (rule l(2))
qed

lemma total_card: "total (\<lambda>j. of_bool (P j)) n = card {j. j < n \<and> P j}"
proof (induction n arbitrary: P)
  case (Suc n)
  have "{j. j < Suc n \<and> P j} = (if P 0 then {0} else {}) \<union> Suc ` {j. j < n \<and> P (Suc j)}"
    by (auto simp: image_iff gr0_conv_Suc less_Suc_eq_0_disj)
  then have "card {j. j < Suc n \<and> P j} = of_bool (P 0) + card {j. j < n \<and> P (Suc j)}" by (simp add: card_Un_disjoint card_image)
  with Suc.IH [of "\<lambda>j. P (Suc j)"] show ?case by simp
qed simp

lemma hweight64_card: "unat (sw_hweight64 w) = card {i. bit w i}"
proof -
  define b :: "nat \<Rightarrow> nat" where "b j = of_bool (bit w j)" for j
  define c1 where "c1 j = b (2 * j) + b (2 * j + 1)" for j
  define c2 where "c2 j = c1 (2 * j) + c1 (2 * j + 1)" for j
  define c3 where "c3 j = c2 (2 * j) + c2 (2 * j + 1)" for j
  have bz: "b j = 0" if "64 \<le> j" for j using that bit_index_less(1) [of w j] by (auto simp: b_def)
  have z: "b (2 * 32) = 0" "c1 (2 * 16) = 0" "c2 (2 * 8) = 0" by (simp_all add: c1_def c2_def bz)
  have le: "b j \<le> 1" "c1 j \<le> 2" "c2 j \<le> 4" "c3 j \<le> 8" for j by (auto simp: b_def c1_def c2_def c3_def)
  have lt: "b j < 2" "c1 j < 2 ^ 2" "c2 j + c2 (Suc j) < 2 ^ 4" for j using le(1) [of j] le(2) [of j] le(3) [of j] le(3) [of "Suc j"] by simp_all
  have w: "unat w = fields 1 b (2 * 32)"
  proof -
    have "bit (unat w) j \<longleftrightarrow> bit w j" for j by (simp add: bit_unsigned_iff)
    then have "b = (\<lambda>j. of_bool (bit (unat w) j))" by (simp add: b_def fun_eq_iff)
    moreover have "take_bit 64 (unat w) = unat w" by (rule take_bit_nat_eq_self) (use unsigned_less [of w] in simp)
    ultimately show ?thesis using fields_bits [of "unat w" 64] by simp
  qed
  note m = masks64 [symmetric]
  define v1 where "v1 = w - (drop_bit 1 w AND 0x5555555555555555)"
  note s1 = sub_neighbours [of b 32, OF lt(1) z(1)]
  have "unat (drop_bit 1 w AND 0x5555555555555555) = (drop_bit 1 (fields 1 b (2 * 32)) AND fields 1 (evens (2 ^ 1 - 1)) (2 * 32))"
    unfolding unat_and unat_drop w m(1) [symmetric] by simp
  then have w1: "unat v1 = fields 2 c1 (2 * 16)" using s1 w unfolding v1_def by (simp add: u64_sub word_le_nat_alt c1_def [abs_def] del: fields.simps)
  define v2 where "v2 = (v1 AND 0x3333333333333333) + (drop_bit 2 v1 AND 0x3333333333333333)"
  note s2 = add_neighbours [of c1 2 16, OF lt(2) z(2)]
  have lim: "fields 4 c2 (2 * 8) < 2 ^ (4 * 16)" using fields_less [of 16 c2 4] le_less_trans [OF le(3), of 16] by simp
  have w2: "unat v2 = fields 4 c2 (2 * 8)"
  proof -
    have "unat (v1 AND 0x3333333333333333) + unat (drop_bit 2 v1 AND 0x3333333333333333) = fields 4 c2 (2 * 8)"
      unfolding unat_and unat_drop w1 using s2 unfolding masks64(2) by (simp add: c2_def [abs_def] del: fields.simps)
    with lim show ?thesis unfolding v2_def by (subst u64_add) simp_all
  qed
  define v3 where "v3 = (v2 + drop_bit 4 v2) AND 0x0f0f0f0f0f0f0f0f"
  note s3 = add_then_mask [of c2 4 8, OF lt(3) z(3)]
  have w3: "unat v3 = fields 8 c3 8"
  proof -
    have d: "drop_bit 4 (fields 4 c2 (2 * 8)) = fields 4 (\<lambda>j. c2 (Suc j)) (2 * 8)"
      by (rule fields_drop) (use le_less_trans [OF le(3) [of 0], of 16] z(3) in simp_all)
    have "fields 4 (\<lambda>j. c2 j + c2 (Suc j)) 16 < 2 ^ (4 * 16)" by (rule fields_less) (rule lt(3))
    then have "unat (v2 + drop_bit 4 v2) = fields 4 c2 (2 * 8) + drop_bit 4 (fields 4 c2 (2 * 8))"
      by (subst u64_add) (use d in \<open>simp_all add: unat_drop w2 fields_add del: fields.simps\<close>)
    with s3 show ?thesis unfolding v3_def unat_and masks64(3) by (simp add: c3_def [abs_def] del: fields.simps)
  qed
  have "unat (drop_bit 56 (v3 * 0x0101010101010101)) = fields 8 c3 8 * 0x0101010101010101 mod 2 ^ 64 div 2 ^ 56"
    unfolding unat_drop by (simp add: unat_word_ariths w3 drop_bit_eq_div)
  then have "unat (sw_hweight64 w) = total c3 8" using sum_bytes [of c3, OF le(4)] unfolding sw_hweight64_def Let_def v1_def [symmetric] v2_def [symmetric] v3_def [symmetric] by simp
  also have "\<dots> = total c2 16" using total_pairs [of c2 8] by (simp add: c3_def [abs_def])
  also have "\<dots> = total c1 32" using total_pairs [of c1 16] by (simp add: c2_def [abs_def])
  also have "\<dots> = total b 64" using total_pairs [of b 32] by (simp add: c1_def [abs_def])
  also have "\<dots> = card {i. i < 64 \<and> bit w i}" unfolding b_def [abs_def] by (rule total_card)
  also have "{i. i < 64 \<and> bit w i} = {i. bit w i}" using bit_index_less(1) by auto
  finally show ?thesis .
qed

lemma bm_word:
  assumes "r \<le> 64"
  shows "bm m (64 * k + r) = bm m (64 * k) \<union> (\<lambda>j. 64 * k + j) ` {j. j < r \<and> bit (m ! k) j}" (is "?A = ?B")
    and "bm m (64 * k) \<inter> (\<lambda>j. 64 * k + j) ` {j. j < r \<and> bit (m ! k) j} = {}"
proof -
  show "?A = ?B"
  proof (rule set_eqI)
    fix i
    show "i \<in> ?A \<longleftrightarrow> i \<in> ?B"
    proof (cases "i < 64 * k")
      case True
      then show ?thesis by (auto simp: bm_def)
    next
      case False
      then obtain j where j: "i = 64 * k + j" using le_Suc_ex [of "64 * k" i] by auto
      have "j < r \<Longrightarrow> region_bit m (64 * k + j) = bit (m ! k) j" using assms region_bit_word by simp
      then show ?thesis using j by (auto simp: bm_def)
    qed
  qed
qed (auto simp: bm_def)

lemma bm_word_card: "r \<le> 64 \<Longrightarrow> card (bm m (64 * k + r)) = card (bm m (64 * k)) + card {j. j < r \<and> bit (m ! k) j}"
  unfolding bm_word(1) by (subst card_Un_disjoint) (simp_all add: bm_word(2) card_image inj_on_def)

lemma weigh_words_card: "n \<le> length m \<Longrightarrow> weigh_words m [0..<n] 0 = Some (card (bm m (64 * n)))"
proof (induction n)
  case 0
  show ?case by (simp add: bm_def)
next
  case (Suc n)
  have app: "weigh_words m (ks @ [k]) w = Option.bind (weigh_words m ks w) (\<lambda>w. map_option (\<lambda>x. w + unat (hweight_long x)) (word_at m k))" for ks k w
    by (induction ks arbitrary: w) (auto simp: map_option_case split: option.splits)
  have "{j. j < 64 \<and> bit (m ! n) j} = {j. bit (m ! n) j}" using bit_index_less(1) by auto
  then have "card (bm m (64 * Suc n)) = card (bm m (64 * n)) + card {j. bit (m ! n) j}" using bm_word_card [of 64 m n] by (simp add: add.commute)
  with Suc show ?case by (simp add: app word_at_def hweight_long_def hweight64_card)
qed

lemma bitmap_weight_card:
  assumes "fits m bits"
  shows "bitmap_weight m bits = Some (card (bm m bits))"
proof -
  let ?n = "bits div 64" and ?r = "bits mod 64"
  have e: "bits = 64 * ?n + ?r" and r: "?r \<le> 64" by (simp_all add: less_imp_le)
  have n: "?n \<le> length m" using assms by (simp add: fits_def)
  note w = weigh_words_card [OF n]
  have c: "card (bm m bits) = card (bm m (64 * ?n)) + card {j. j < ?r \<and> bit (m ! ?n) j}" using bm_word_card [OF r, of m ?n] by simp
  show ?thesis
  proof (cases "?r = 0")
    case True
    with w c show ?thesis by (simp add: bitmap_weight_def)
  next
    case False
    then have "64 * ?n < bits" using e by linarith
    then have l: "?n < length m" using fits_longs [OF assms] by (simp add: longs_bit)
    have "bit (m ! ?n AND BITMAP_LAST_WORD_MASK bits) j \<longleftrightarrow> j < ?r \<and> bit (m ! ?n) j" for j
      using last_word_mask [of j bits] False bit_index_less(1) [of "m ! ?n" j] by (auto simp: bit_and_iff)
    then have "Collect (bit (m ! ?n AND BITMAP_LAST_WORD_MASK bits)) = {j. j < ?r \<and> bit (m ! ?n) j}" by blast
    with w c l False show ?thesis by (simp add: bitmap_weight_def word_at_def hweight_long_def hweight64_card)
  qed
qed

subsection \<open>Shifting\<close>

text \<open>The part of a word that counts.\<close>

definition live_word :: "u64 list \<Rightarrow> nat \<Rightarrow> nat \<Rightarrow> u64" where
  "live_word m bits k = (if bits mod 64 \<noteq> 0 \<and> k = BITS_TO_LONGS bits - 1 then m ! k AND (push_bit (bits mod 64) 1 - 1) else m ! k)"

lemma low_mask_bit: "bit (2 ^ r - 1 :: u64) j \<longleftrightarrow> j < r \<and> j < 64"
  using bit_mask_iff [of r j, where ?'a = "64 word"] by (auto simp: mask_eq_exp_minus_1)

lemma longs_eq: "bits mod 64 \<noteq> 0 \<Longrightarrow> bits = 64 * (BITS_TO_LONGS bits - 1) + bits mod 64" "bits mod 64 = 0 \<Longrightarrow> bits = 64 * BITS_TO_LONGS bits"
proof -
  define n r where "n = bits div 64" and "r = bits mod 64"
  have e: "bits = 64 * n + r" "r < 64" by (simp_all add: n_def r_def)
  have "BITS_TO_LONGS bits = (if r \<noteq> 0 then n + 1 else n)" unfolding BITS_TO_LONGS_def e(1) using e(2) by (cases "r = 0") auto
  with e show "bits mod 64 \<noteq> 0 \<Longrightarrow> bits = 64 * (BITS_TO_LONGS bits - 1) + bits mod 64" "bits mod 64 = 0 \<Longrightarrow> bits = 64 * BITS_TO_LONGS bits"
    unfolding r_def [symmetric] by simp_all
qed

lemma live_bit:
  assumes "k < BITS_TO_LONGS bits" "j < 64"
  shows "bit (live_word m bits k) j \<longleftrightarrow> 64 * k + j \<in> bm m bits"
proof -
  have r: "region_bit m (64 * k + j) = bit (m ! k) j" using assms(2) by (rule region_bit_word)
  show ?thesis
  proof (cases "bits mod 64 \<noteq> 0 \<and> k = BITS_TO_LONGS bits - 1")
    case True
    then have "64 * k + j < bits \<longleftrightarrow> j < bits mod 64" using longs_eq(1) [of bits] by linarith
    with True r assms(2) show ?thesis by (auto simp: live_word_def bm_def bit_and_iff low_mask_bit)
  next
    case False
    have "64 * k + j < bits"
    proof (cases "bits mod 64 = 0")
      case True
      then show ?thesis using longs_eq(2) [of bits] assms by linarith
    next
      case f: False
      then have "k + 1 \<le> BITS_TO_LONGS bits - 1" using False assms(1) by linarith
      then show ?thesis using longs_eq(1) [of bits] assms(2) f by linarith
    qed
    with False r show ?thesis by (auto simp: live_word_def bm_def)
  qed
qed

lemma over_longs: "BITS_TO_LONGS bits \<le> k \<Longrightarrow> 64 * k + j \<notin> bm m bits"
  using longs_bit [of k bits] by (auto simp: bm_def)

text \<open>Masking the last word of a result takes nothing away that counts.\<close>

lemma last_mask_id:
  fixes w :: u64
  assumes "64 * k + j < bits" "j < 64"
  shows "bit (if bits mod 64 \<noteq> 0 \<and> k = BITS_TO_LONGS bits - 1 then w AND (push_bit (bits mod 64) 1 - 1) else w) j = bit w j"
proof (cases "bits mod 64 \<noteq> 0 \<and> k = BITS_TO_LONGS bits - 1")
  case True
  then have "j < bits mod 64" using longs_eq(1) [of bits] assms(1) by linarith
  with True assms(2) show ?thesis by (simp add: bit_and_iff low_mask_bit)
next
  case False
  then show ?thesis by (simp only: if_False)
qed

lemma shift_right_word_bit:
  assumes f: "fits src bits" and k: "off + k < BITS_TO_LONGS bits" and s: "rem < 64"
  shows "\<exists>w. shift_right_word src (BITS_TO_LONGS bits) (bits mod 64) off rem k = Some w \<and>
    (\<forall>j < 64. 64 * k + j < bits \<longrightarrow> (bit w j \<longleftrightarrow> 64 * k + j + (64 * off + rem) \<in> bm src bits))"
proof -
  let ?lim = "BITS_TO_LONGS bits" and ?left = "bits mod 64"
  let ?u = "if rem = 0 \<or> ?lim \<le> off + k + 1 then 0 else live_word src bits (off + k + 1)" and ?l = "live_word src bits (off + k)"
  let ?v = "push_bit (64 - rem) ?u OR drop_bit rem ?l"
  let ?w = "if ?left \<noteq> 0 \<and> k = ?lim - 1 then ?v AND (push_bit ?left 1 - 1) else ?v"
  have wa: "i < ?lim \<Longrightarrow> word_at src i = Some (src ! i)" for i using fits_longs [OF f] by (simp add: word_at_def)
  have run: "shift_right_word src ?lim ?left off rem k = Some ?w"
    unfolding shift_right_word_def Let_def using wa [OF k] wa [of "off + k + 1"] by (simp add: live_word_def conj_commute)
  have "bit ?v j \<longleftrightarrow> 64 * k + j + (64 * off + rem) \<in> bm src bits" if j: "j < 64" for j
  proof (cases "j + rem < 64")
    case True
    have e: "64 * k + j + (64 * off + rem) = 64 * (off + k) + (j + rem)" by simp
    have "bit ?v j \<longleftrightarrow> bit ?l (j + rem)" using True j by (auto simp: bit_or_iff bit_push_bit_iff bit_drop_bit_eq add.commute)
    then show ?thesis unfolding e live_bit [OF k True, of src, symmetric] .
  next
    case False
    have e: "64 * k + j + (64 * off + rem) = 64 * (off + k + 1) + (j + rem - 64)" using False by simp
    have lt: "j + rem - 64 < 64" using j s by linarith
    have "bit ?v j \<longleftrightarrow> bit ?u (j - (64 - rem))"
      using False j s bit_index_less(1) [of ?l "rem + j"] by (auto simp: bit_or_iff bit_push_bit_iff bit_drop_bit_eq)
    moreover have "j - (64 - rem) = j + rem - 64" using False s by linarith
    moreover have "rem \<noteq> 0" using False j by auto
    moreover have "bit ?u (j + rem - 64) \<longleftrightarrow> 64 * (off + k + 1) + (j + rem - 64) \<in> bm src bits"
    proof (cases "?lim \<le> off + k + 1")
      case True
      then show ?thesis using over_longs [OF True] by simp
    next
      case f: False
      then show ?thesis using live_bit [OF _ lt, of "off + k + 1" bits src] \<open>rem \<noteq> 0\<close> by simp
    qed
    ultimately show ?thesis unfolding e by (simp only:)
  qed
  then have "\<forall>j < 64. 64 * k + j < bits \<longrightarrow> (bit ?w j \<longleftrightarrow> 64 * k + j + (64 * off + rem) \<in> bm src bits)" using last_mask_id by blast
  with run show ?thesis by blast
qed

lemma bm_over_bits:
  assumes "fits dst bits" "\<And>k j. k < BITS_TO_LONGS bits \<Longrightarrow> j < 64 \<Longrightarrow> 64 * k + j < bits \<Longrightarrow> bit (g k) j \<longleftrightarrow> 64 * k + j \<in> S" "S \<subseteq> {..<bits}"
  shows "bm (over_words g {0..<BITS_TO_LONGS bits} dst) bits = S"
proof -
  have "bit (g (i div 64)) (i mod 64) \<longleftrightarrow> i \<in> S" if "i < bits" for i
    using assms(2) [OF longs_word [OF that], of "i mod 64"] that by simp
  then show ?thesis unfolding bm_over_all [OF assms(1)] using assms(3) by auto
qed

lemma bitmap_shift_right_bm:
  assumes f: "fits dst bits" "fits src bits" and s: "shift \<le> bits"
  shows "\<exists>m. bitmap_shift_right dst src shift bits = Some m \<and> same_after dst m bits \<and> bm m bits = {i. i + shift \<in> bm src bits}"
proof -
  let ?lim = "BITS_TO_LONGS bits" and ?off = "shift div 64" and ?rem = "shift mod 64"
  have sh: "shift = 64 * ?off + ?rem" and rem: "?rem < 64" by simp_all
  have off: "?off \<le> ?lim" using s longs_bit [of ?lim bits] by linarith
  define h where "h k = the (shift_right_word src ?lim (bits mod 64) ?off ?rem k)" for k
  have h: "shift_right_word src ?lim (bits mod 64) ?off ?rem k = Some (h k) \<and>
      (\<forall>j < 64. 64 * k + j < bits \<longrightarrow> (bit (h k) j \<longleftrightarrow> 64 * k + j + shift \<in> bm src bits))" if "k < ?lim - ?off" for k
  proof -
    have "?off + k < ?lim" using that by simp
    from shift_right_word_bit [OF f(2) this rem] show ?thesis unfolding sh [symmetric] h_def by auto
  qed
  let ?g = "\<lambda>k. if k < ?lim - ?off then h k else 0"
  have len: "k < ?lim \<Longrightarrow> k < length dst" for k using fits_longs [OF f(1)] .
  have "map_words (shift_right_word src ?lim (bits mod 64) ?off ?rem) [0..<?lim - ?off] dst = Some (over_words h {0..<?lim - ?off} dst)"
    using map_words_some [of "[0..<?lim - ?off]" "shift_right_word src ?lim (bits mod 64) ?off ?rem" h dst] h len by simp
  moreover have "map_words (\<lambda>_. Some 0) [?lim - ?off..<?lim] (over_words h {0..<?lim - ?off} dst) = Some (over_words ?g {0..<?lim} dst)"
  proof -
    have "over_words (\<lambda>_. 0) {?lim - ?off..<?lim} (over_words h {0..<?lim - ?off} dst) = over_words ?g {0..<?lim} dst"
      by (rule nth_equalityI) (auto simp: not_less)
    then show ?thesis using map_words_some [of "[?lim - ?off..<?lim]" "\<lambda>_. Some 0" "\<lambda>_. 0" "over_words h {0..<?lim - ?off} dst"] len by simp
  qed
  ultimately have run: "bitmap_shift_right dst src shift bits = Some (over_words ?g {0..<?lim} dst)"
    unfolding bitmap_shift_right_def Let_def using off by (cases "?off = 0") (auto simp: over_words_def)
  have "bm (over_words ?g {0..<?lim} dst) bits = {i. i + shift \<in> bm src bits}"
  proof (rule bm_over_bits [OF f(1)])
    fix k j assume k: "k < ?lim" "j < 64" "64 * k + j < bits"
    show "bit (?g k) j \<longleftrightarrow> 64 * k + j \<in> {i. i + shift \<in> bm src bits}"
    proof (cases "k < ?lim - ?off")
      case False
      then have "?lim \<le> k + ?off" by simp
      then have "64 * (k + ?off) + (j + ?rem) \<notin> bm src bits" by (rule over_longs)
      then have "64 * k + j + shift \<notin> bm src bits" using sh by (simp add: algebra_simps)
      with False show ?thesis by simp
    qed (use h [of k] k in simp)
  qed (auto simp: bm_def)
  with run same_after_over [of "{0..<?lim}" bits dst ?g] show ?thesis by blast
qed

lemma shift_left_word_bit:
  assumes f: "fits src bits" and k: "k < BITS_TO_LONGS bits" and s: "rem < 64"
  shows "\<exists>w. shift_left_word src (BITS_TO_LONGS bits) (bits mod 64) off rem k = Some w \<and>
    (\<forall>j < 64. 64 * (k + off) + j < bits \<longrightarrow> (bit w j \<longleftrightarrow> rem \<le> 64 * k + j \<and> 64 * k + j - rem \<in> bm src bits))"
proof -
  let ?lim = "BITS_TO_LONGS bits" and ?left = "bits mod 64"
  let ?l = "if rem \<noteq> 0 \<and> 0 < k then src ! (k - 1) else 0" and ?u = "live_word src bits k"
  let ?v = "drop_bit (64 - rem) ?l OR push_bit rem ?u"
  let ?w = "if ?left \<noteq> 0 \<and> k + off = ?lim - 1 then ?v AND (push_bit ?left 1 - 1) else ?v"
  have wa: "i < ?lim \<Longrightarrow> word_at src i = Some (src ! i)" for i using fits_longs [OF f] by (simp add: word_at_def)
  have k1: "k - 1 < ?lim" using k by simp
  have run: "shift_left_word src ?lim ?left off rem k = Some ?w"
    unfolding shift_left_word_def Let_def using wa [OF k] wa [OF k1] by (simp add: live_word_def conj_commute)
  have "bit ?v j \<longleftrightarrow> rem \<le> 64 * k + j \<and> 64 * k + j - rem \<in> bm src bits" if j: "j < 64" "64 * (k + off) + j < bits" for j
  proof (cases "rem \<le> j")
    case True
    have "j - rem < 64" using j(1) by simp
    from live_bit [OF k this, of src] have "bit ?u (j - rem) \<longleftrightarrow> 64 * k + j - rem \<in> bm src bits" using True by simp
    moreover have "bit ?v j \<longleftrightarrow> bit ?u (j - rem)"
      using True j(1) s bit_index_less(1) [of ?l "64 - rem + j"] by (auto simp: bit_or_iff bit_push_bit_iff bit_drop_bit_eq)
    ultimately show ?thesis using True by simp
  next
    case False
    then have r: "rem \<noteq> 0" by simp
    have v: "bit ?v j \<longleftrightarrow> bit ?l (64 - rem + j)" using False j(1) by (auto simp: bit_or_iff bit_push_bit_iff bit_drop_bit_eq)
    show ?thesis
    proof (cases "k = 0")
      case True
      then show ?thesis using v False by simp
    next
      case f: False
      have lt: "64 - rem + j < 64" using False r s by linarith
      have e: "64 * k + j - rem = 64 * (k - 1) + (64 - rem + j)" using f s by (cases k) auto
      have "64 * (k - 1) + (64 - rem + j) < bits" using longs_bit [of k bits] k False f e by linarith
      then have "bit (src ! (k - 1)) (64 - rem + j) \<longleftrightarrow> 64 * (k - 1) + (64 - rem + j) \<in> bm src bits"
        using region_bit_word [OF lt, of src "k - 1"] by (simp add: bm_def)
      then have "bit ?l (64 - rem + j) \<longleftrightarrow> 64 * k + j - rem \<in> bm src bits" unfolding e using r f by simp
      moreover have "rem \<le> 64 * k + j" using f s by (cases k) auto
      ultimately show ?thesis using v by (simp only: simp_thms)
    qed
  qed
  moreover have "64 * (k + off) + j < bits \<Longrightarrow> j < 64 \<Longrightarrow> bit ?w j = bit ?v j" for j by (rule last_mask_id)
  ultimately have "\<forall>j < 64. 64 * (k + off) + j < bits \<longrightarrow> (bit ?w j \<longleftrightarrow> rem \<le> 64 * k + j \<and> 64 * k + j - rem \<in> bm src bits)" by blast
  with run show ?thesis by blast
qed

lemma bitmap_shift_left_bm:
  assumes f: "fits dst bits" "fits src bits" and s: "shift \<le> bits"
  shows "\<exists>m. bitmap_shift_left dst src shift bits = Some m \<and> same_after dst m bits \<and> bm m bits = {i. i < bits \<and> shift \<le> i \<and> i - shift \<in> bm src bits}"
proof -
  let ?lim = "BITS_TO_LONGS bits" and ?off = "shift div 64" and ?rem = "shift mod 64"
  have sh: "shift = 64 * ?off + ?rem" and rem: "?rem < 64" by simp_all
  have off: "?off \<le> ?lim" using s longs_bit [of ?lim bits] by linarith
  define h where "h i = the (shift_left_word src ?lim (bits mod 64) ?off ?rem (i - ?off))" for i
  have h: "shift_left_word src ?lim (bits mod 64) ?off ?rem (i - ?off) = Some (h i) \<and>
      (\<forall>j < 64. 64 * i + j < bits \<longrightarrow> (bit (h i) j \<longleftrightarrow> shift \<le> 64 * i + j \<and> 64 * i + j - shift \<in> bm src bits))" if i: "?off \<le> i" "i < ?lim" for i
  proof -
    have k: "i - ?off < ?lim" "i - ?off + ?off = i" using i by simp_all
    have e: "?rem \<le> 64 * (i - ?off) + j \<longleftrightarrow> shift \<le> 64 * i + j" "64 * (i - ?off) + j - ?rem = 64 * i + j - shift" for j
    proof -
      have "64 * i = 64 * (i - ?off) + 64 * ?off" using i(1) by simp
      then show "?rem \<le> 64 * (i - ?off) + j \<longleftrightarrow> shift \<le> 64 * i + j" "64 * (i - ?off) + j - ?rem = 64 * i + j - shift" using sh by linarith+
    qed
    from shift_left_word_bit [OF f(2) k(1) rem, of ?off] show ?thesis unfolding k(2) e h_def by auto
  qed
  let ?g = "\<lambda>k. if ?off \<le> k then h k else 0"
  have len: "k < ?lim \<Longrightarrow> k < length dst" for k using fits_longs [OF f(1)] .
  have "map_words (\<lambda>j. shift_left_word src ?lim (bits mod 64) ?off ?rem (j - ?off)) (rev [?off..<?lim]) dst = Some (over_words h {?off..<?lim} dst)"
    using map_words_some [of "rev [?off..<?lim]" "\<lambda>j. shift_left_word src ?lim (bits mod 64) ?off ?rem (j - ?off)" h dst] h len by simp
  moreover have "map_words (\<lambda>_. Some 0) [0..<?off] (over_words h {?off..<?lim} dst) = Some (over_words ?g {0..<?lim} dst)"
  proof -
    have "over_words (\<lambda>_. 0) {0..<?off} (over_words h {?off..<?lim} dst) = over_words ?g {0..<?lim} dst"
      using off by (intro nth_equalityI) auto
    then show ?thesis using map_words_some [of "[0..<?off]" "\<lambda>_. Some 0" "\<lambda>_. 0" "over_words h {?off..<?lim} dst"] len off by simp
  qed
  ultimately have run: "bitmap_shift_left dst src shift bits = Some (over_words ?g {0..<?lim} dst)"
    unfolding bitmap_shift_left_def Let_def by simp
  have "bm (over_words ?g {0..<?lim} dst) bits = {i. i < bits \<and> shift \<le> i \<and> i - shift \<in> bm src bits}"
  proof (rule bm_over_bits [OF f(1)])
    fix k j assume k: "k < ?lim" "j < 64" "64 * k + j < bits"
    show "bit (?g k) j \<longleftrightarrow> 64 * k + j \<in> {i. i < bits \<and> shift \<le> i \<and> i - shift \<in> bm src bits}"
    proof (cases "?off \<le> k")
      case False
      then have "k + 1 \<le> ?off" by simp
      then have "64 * k + j < shift" using k(2) sh by linarith
      with False show ?thesis by simp
    qed (use h [of k] k in simp)
  qed auto
  with run same_after_over [of "{0..<?lim}" bits dst ?g] show ?thesis by blast
qed

subsection \<open>Setting and clearing ranges\<close>

definition sets_bits :: "(u64 \<Rightarrow> u64 \<Rightarrow> u64) \<Rightarrow> bool \<Rightarrow> bool" where
  "sets_bits f v \<longleftrightarrow> (\<forall>w msk j. j < 64 \<longrightarrow> (bit (f w msk) j \<longleftrightarrow> (if bit msk j then v else bit w j)))"

lemma sets_bits_or: "sets_bits (\<lambda>w msk. w OR msk) True" and sets_bits_andnot: "sets_bits (\<lambda>w msk. w AND NOT msk) False"
  by (simp_all add: sets_bits_def bit_or_iff bit_and_iff bit_not_iff)

definition written :: "nat set \<Rightarrow> bool \<Rightarrow> u64 list \<Rightarrow> u64 list \<Rightarrow> bool" where
  "written R v m m' \<longleftrightarrow> length m' = length m \<and> (\<forall>i < 64 * length m. region_bit m' i \<longleftrightarrow> (if i \<in> R then v else region_bit m i))"

lemma written_word:
  assumes "sets_bits f v" "p < length m" "\<And>j. j < 64 \<Longrightarrow> bit msk j \<longleftrightarrow> 64 * p + j \<in> R" "R \<subseteq> {64 * p..<64 * p + 64}"
  shows "written R v m (m[p := f (m ! p) msk])"
proof -
  have "region_bit (m[p := f (m ! p) msk]) i \<longleftrightarrow> (if i \<in> R then v else region_bit m i)" if i: "i < 64 * length m" for i
  proof (cases "i div 64 = p")
    case True
    then have "64 * p + i mod 64 = i" by auto
    with assms(3) [of "i mod 64"] assms(1) True i show ?thesis by (simp add: region_bit_update [OF assms(2) i] sets_bits_def) (simp add: region_bit_def)
  next
    case False
    have "i \<notin> R"
    proof
      assume "i \<in> R"
      then have "64 * p \<le> i" "i < 64 * p + 64" using assms(4) by auto
      then have "i div 64 = p" by auto
      with False show False ..
    qed
    with False show ?thesis by (simp add: region_bit_update [OF assms(2) i])
  qed
  then show ?thesis by (simp add: written_def)
qed

lemma written_trans: "written R v m m' \<Longrightarrow> written S v m' m'' \<Longrightarrow> written (R \<union> S) v m m''"
  by (auto simp: written_def)

lemma range_loop_written:
  assumes f: "sets_bits f v" and e: "64 * p + (64 - b) + nr \<le> 64 * length m" and b: "0 < b" "b \<le> 64"
    and mk: "\<And>j. j < 64 \<Longrightarrow> bit msk j \<longleftrightarrow> 64 - b \<le> j" and sz: "sz = 64 * p + (64 - b) + nr"
  shows "\<exists>m'. range_loop f sz p nr b msk m = Some m' \<and> written {64 * p + (64 - b)..<sz} v m m'"
  using e b mk sz
proof (induction nr arbitrary: p b msk m rule: less_induct)
  case (less nr)
  note e = less.prems(1) and b = less.prems(2,3) and mk = less.prems(4) and sz = less.prems(5)
  have p: "nr \<noteq> 0 \<Longrightarrow> p < length m" using e b by (cases "p < length m") auto
  consider "b \<le> nr" | "nr < b" "nr \<noteq> 0" | "nr = 0" by linarith
  then show ?case
  proof cases
    case 1
    let ?m = "m[p := f (m ! p) msk]"
    have pl: "p < length m" using p 1 b by simp
    have w1: "written {64 * p + (64 - b)..<64 * p + 64} v m ?m" by (rule written_word [OF f pl]) (use mk in auto)
    have "\<exists>m'. range_loop f sz (p + 1) (nr - b) 64 (NOT 0) ?m = Some m' \<and> written {64 * (p + 1) + (64 - 64)..<sz} v ?m m'"
      by (rule less.IH) (use 1 b e sz in \<open>auto simp: bit_not_iff\<close>)
    then obtain m' where m': "range_loop f sz (p + 1) (nr - b) 64 (NOT 0) ?m = Some m'" "written {64 * (p + 1)..<sz} v ?m m'" by auto
    have "{64 * p + (64 - b)..<64 * p + 64} \<union> {64 * (p + 1)..<sz} = {64 * p + (64 - b)..<sz}" using 1 b sz by auto
    with written_trans [OF w1 m'(2)] have "written {64 * p + (64 - b)..<sz} v m m'" by simp
    with m'(1) 1 b pl show ?thesis by (subst range_loop.simps) (simp add: word_at_def put_word_def)
  next
    case 2
    have pl: "p < length m" using p 2 by simp
    have lt: "64 - b + nr < 64" and se: "sz = 64 * p + (64 - b + nr)" using 2 b sz by linarith+
    then have s64: "sz mod 64 = 64 - b + nr" by simp
    have "bit (BITMAP_LAST_WORD_MASK sz) j \<longleftrightarrow> j < 64 - b + nr" if "j < 64" for j using last_word_mask [OF that, of sz] s64 2 by simp
    then have "written {64 * p + (64 - b)..<sz} v m (m[p := f (m ! p) (msk AND BITMAP_LAST_WORD_MASK sz)])"
      using mk sz 2 lt by (intro written_word [OF f pl]) (auto simp: bit_and_iff)
    with 2 b pl show ?thesis by (subst range_loop.simps) (simp add: word_at_def put_word_def)
  next
    case 3
    then show ?thesis using b sz by (subst range_loop.simps) (auto simp: written_def)
  qed
qed

lemma bitmap_set_clear:
  assumes "start + nr \<le> 64 * length m"
  shows "\<exists>m'. bitmap_set m start nr = Some m' \<and> written {start..<start + nr} True m m'"
    "\<exists>m'. bitmap_clear m start nr = Some m' \<and> written {start..<start + nr} False m m'"
proof -
  have s: "64 * (start div 64) + start mod 64 = start" "64 - (64 - start mod 64) = start mod 64" "0 < 64 - start mod 64" "64 - start mod 64 \<le> 64" by (simp_all add: less_imp_le)
  have mk: "bit (BITMAP_FIRST_WORD_MASK start) j \<longleftrightarrow> 64 - (64 - start mod 64) \<le> j" if "j < 64" for j
    using that by (auto simp: BITMAP_FIRST_WORD_MASK_def bit_push_bit_iff bit_not_iff bit_mask_iff s(2))
  have g: "\<exists>m'. range_loop f (start + nr) (start div 64) nr (64 - start mod 64) (BITMAP_FIRST_WORD_MASK start) m = Some m' \<and> written {start..<start + nr} v m m'"
    if "sets_bits f v" for f v 
    using range_loop_written [of f v "start div 64" "64 - start mod 64" nr m "BITMAP_FIRST_WORD_MASK start" "start + nr"] that mk assms unfolding s(2) s(1)
    using s(3,4) by blast
  show "\<exists>m'. bitmap_set m start nr = Some m' \<and> written {start..<start + nr} True m m'" unfolding bitmap_set_def by (rule g [OF sets_bits_or])
  show "\<exists>m'. bitmap_clear m start nr = Some m' \<and> written {start..<start + nr} False m m'" unfolding bitmap_clear_def by (rule g [OF sets_bits_andnot])
qed

subsection \<open>Searching a free area\<close>

definition zero_area :: "u64 list \<Rightarrow> nat \<Rightarrow> nat \<Rightarrow> nat \<Rightarrow> nat \<Rightarrow> bool" where
  "zero_area m sz nr a i \<longleftrightarrow> 2 ^ a dvd i \<and> i + nr \<le> sz \<and> (\<forall>j \<in> {i..<i + nr}. \<not> region_bit m j)"

lemma align_mask_up_eq:
  assumes "x + 2 ^ a \<le> 2 ^ 64" "a < 64"
  shows "x \<le> align_mask_up x (2 ^ a - 1)" "2 ^ a dvd align_mask_up x (2 ^ a - 1)" "2 ^ a dvd i \<Longrightarrow> x \<le> i \<Longrightarrow> align_mask_up x (2 ^ a - 1) \<le> i"
proof -
  have a: "(1 :: nat) \<le> 2 ^ a" by simp
  have um: "unat (2 ^ a - 1 :: u64) = 2 ^ a - 1" using u64_pow2 [OF assms(2)] by (simp add: u64_sub word_le_nat_alt)
  have "x < 2 ^ 64" using assms(1) a by linarith
  then have ux: "unat (word_of_nat x :: u64) = x" by (simp add: unat_of_nat take_bit_nat_eq_self)
  have "unat (word_of_nat x + (2 ^ a - 1) :: u64) = x + (2 ^ a - 1)" 
  proof -
    have "unat (word_of_nat x :: u64) + unat (2 ^ a - 1 :: u64) < 2 ^ 64" unfolding um ux using assms(1) a by linarith
    from u64_add [OF this] show ?thesis unfolding um ux .
  qed
  then have e: "align_mask_up x (2 ^ a - 1) = (x + (2 ^ a - 1)) div 2 ^ a * 2 ^ a" unfolding align_mask_up_def u64_align_down by simp
  show "2 ^ a dvd align_mask_up x (2 ^ a - 1)" unfolding e by simp
  have d: "x + (2 ^ a - 1) = (x + (2 ^ a - 1)) div 2 ^ a * 2 ^ a + (x + (2 ^ a - 1)) mod 2 ^ a" by (rule div_mult_mod_eq [symmetric])
  have m: "(x + (2 ^ a - 1)) mod 2 ^ a < 2 ^ a" by simp
  show "x \<le> align_mask_up x (2 ^ a - 1)" unfolding e using d m a by linarith
  assume i: "2 ^ a dvd i" "x \<le> i"
  then obtain k where k: "i = 2 ^ a * k" by (elim dvdE)
  have "(x + (2 ^ a - 1)) div 2 ^ a \<le> (2 ^ a * k + (2 ^ a - 1)) div 2 ^ a" by (rule div_le_mono) (use i(2) k in simp)
  also have "\<dots> = k" by (subst add.commute, subst div_mult_self2) simp_all
  finally show "align_mask_up x (2 ^ a - 1) \<le> i" unfolding e k by simp
qed

lemma find_zero_first_from:
  assumes "sz \<le> 64 * length m"
  shows "\<exists>z. find_next_zero_bit m sz off = Some z \<and> first_from (\<lambda>i. \<not> region_bit m i) sz off z"
proof -
  from find_next_bit_first_from [of sz "map (\<lambda>w. NOT w) m" off] assms obtain z where
    z: "find_next_zero_bit m sz off = Some z" "first_from (region_bit (map (\<lambda>w. NOT w) m)) sz off z" by (auto simp: find_next_zero_bit_eq)
  have "first_from (\<lambda>i. \<not> region_bit m i) sz off z" using z(2) assms region_bit_complement [of _ m] unfolding first_from_def
    by (metis less_le_trans)
  with z(1) show ?thesis by blast
qed

lemma find_area_first:
  assumes "sz \<le> 64 * length m" "sz + 2 ^ a \<le> 2 ^ 64" "a < 64" "0 < nr"
  shows "\<exists>r. bitmap_find_next_zero_area m sz start nr (2 ^ a - 1) = Some r \<and>
    (r \<le> sz \<and> start \<le> r \<and> zero_area m sz nr a r \<and> (\<forall>i. start \<le> i \<and> i < r \<longrightarrow> \<not> zero_area m sz nr a i) \<or>
     sz < r \<and> (\<forall>i \<ge> start. \<not> zero_area m sz nr a i))"
proof (induction "sz - start" arbitrary: start rule: less_induct)
  case less
  obtain z where z: "find_next_zero_bit m sz start = Some z" "first_from (\<lambda>i. \<not> region_bit m i) sz start z" using find_zero_first_from [OF assms(1)] by blast
  have zs: "z \<le> sz" using z(2) by (simp add: first_from_def)
  let ?x = "align_mask_up z (2 ^ a - 1)"
  have "z + 2 ^ a \<le> 2 ^ 64" using zs assms(2) by linarith
  note al = align_mask_up_eq [OF this assms(3)]
  have ge: "?x \<le> i" if "start \<le> i" "zero_area m sz nr a i" for i
  proof -
    have "\<not> region_bit m i" using that(2) assms(4) by (simp add: zero_area_def)
    then have "z \<le> i" using z(2) that(1) unfolding first_from_def by (meson not_le)
    then show ?thesis using al(3) that(2) by (simp add: zero_area_def)
  qed
  show ?case
  proof (cases "sz < ?x + nr")
    case True
    have "\<forall>i \<ge> start. \<not> zero_area m sz nr a i" using ge True by (fastforce simp: zero_area_def)
    with True z(1) show ?thesis by (subst bitmap_find_next_zero_area.simps) (simp add: Let_def)
  next
    case False
    then have zl: "z < sz" using al(1) assms(4) by linarith
    then have st: "start \<le> z" using z(2) by (simp add: first_from_def)
    have "?x + nr \<le> 64 * length m" using False assms(1) by linarith
    from find_next_bit_first_from [OF this, of ?x] obtain y where
      y: "find_next_bit m (?x + nr) ?x = Some y" "first_from (region_bit m) (?x + nr) ?x y" by blast
    show ?thesis
    proof (cases "y < ?x + nr")
      case True
      then have yb: "?x \<le> y" "region_bit m y" using y(2) by (simp_all add: first_from_def)
      have skip: "\<not> zero_area m sz nr a i" if "start \<le> i" "i < y + 1" for i
      proof
        assume a: "zero_area m sz nr a i"
        have "y \<in> {i..<i + nr}" using ge [OF that(1) a] that(2) True by simp
        with a yb(2) show False by (auto simp: zero_area_def)
      qed
      have "sz - (y + 1) < sz - start" using st al(1) yb(1) zl False True by linarith
      from less [OF this] obtain r where r: "bitmap_find_next_zero_area m sz (y + 1) nr (2 ^ a - 1) = Some r"
        "r \<le> sz \<and> y + 1 \<le> r \<and> zero_area m sz nr a r \<and> (\<forall>i. y + 1 \<le> i \<and> i < r \<longrightarrow> \<not> zero_area m sz nr a i) \<or>
         sz < r \<and> (\<forall>i \<ge> y + 1. \<not> zero_area m sz nr a i)" by blast
      have "start \<le> y + 1" using st al(1) yb(1) by linarith
      then have "r \<le> sz \<and> start \<le> r \<and> zero_area m sz nr a r \<and> (\<forall>i. start \<le> i \<and> i < r \<longrightarrow> \<not> zero_area m sz nr a i) \<or>
         sz < r \<and> (\<forall>i \<ge> start. \<not> zero_area m sz nr a i)" using r(2) skip by (meson le_trans not_le)
      with r(1) z(1) y(1) True False show ?thesis by (subst bitmap_find_next_zero_area.simps) (simp add: Let_def)
    next
      case full: False
      then have "\<forall>j \<in> {?x..<?x + nr}. \<not> region_bit m j" using y(2) by (auto simp: first_from_def)
      then have "zero_area m sz nr a ?x" using False al(2) by (simp add: zero_area_def)
      moreover have "\<not> zero_area m sz nr a i" if "start \<le> i" "i < ?x" for i using ge [OF that(1)] that(2) by auto
      moreover have "start \<le> ?x" using st al(1) by simp
      ultimately show ?thesis using z(1) y(1) full False by (subst bitmap_find_next_zero_area.simps) (simp add: Let_def)
    qed
  qed
qed

subsection \<open>The set bits in order\<close>

definition from_bit :: "u64 list \<Rightarrow> nat \<Rightarrow> nat \<Rightarrow> nat list" where
  "from_bit m bits i = filter (region_bit m) [i..<bits]"

fun fold_opt :: "('a \<Rightarrow> 's \<Rightarrow> 's option) \<Rightarrow> 'a list \<Rightarrow> 's \<Rightarrow> 's option" where
  "fold_opt f [] s = Some s"
| "fold_opt f (x # xs) s = Option.bind (f x s) (fold_opt f xs)"

definition rank :: "nat set \<Rightarrow> nat \<Rightarrow> nat" where
  "rank S p = card {i \<in> S. i < p}"

lemma from_bit_set: "set (from_bit m bits i) = {j \<in> bm m bits. i \<le> j}"
  by (auto simp: from_bit_def bm_def)

lemma from_bit_distinct [simp]: "distinct (from_bit m bits i)"
  by (simp add: from_bit_def)

lemma from_bit_done: "bits \<le> i \<Longrightarrow> from_bit m bits i = []"
  by (simp add: from_bit_def)

lemma from_bit_Cons: "i < bits \<Longrightarrow> region_bit m i \<Longrightarrow> from_bit m bits i = i # from_bit m bits (i + 1)"
  by (simp add: from_bit_def upt_conv_Cons)

lemma from_bit_first:
  assumes "first_from (region_bit m) bits off i"
  shows "from_bit m bits off = from_bit m bits i"
proof (cases "off \<le> i")
  case True
  have "[off..<bits] = [off..<i] @ [i..<bits]" using True assms upt_add_eq_append [of off i "bits - i"] by (simp add: first_from_def)
  moreover have "filter (region_bit m) [off..<i] = []" using assms by (auto simp: first_from_def filter_empty_conv)
  ultimately show ?thesis by (simp add: from_bit_def)
next
  case False
  then show ?thesis using assms by (simp add: from_bit_def first_from_def)
qed

lemma find_first_first_from:
  assumes "fits m bits"
  shows "\<exists>i. find_first_bit m bits = Some i \<and> first_from (region_bit m) bits 0 i"
  using find_bit_loop_first_from [of 0 bits m] assms by (simp add: fits_def find_first_bit_def)

lemma find_next_from:
  assumes "fits m bits"
  obtains j where "find_next_bit m bits i = Some j" "first_from (region_bit m) bits i j"
  using find_next_bit_first_from [of bits m i] assms by (auto simp: fits_def)

lemma for_each_fold:
  assumes f: "fits m bits" and i: "first_from (region_bit m) bits off i"
  shows "for_each_set_bit f m bits i s = fold_opt f (from_bit m bits off) s"
  unfolding from_bit_first [OF i] using i
proof (induction "bits - i" arbitrary: i off s rule: less_induct)
  case less
  show ?case
  proof (cases "i < bits")
    case True
    then have b: "region_bit m i" using less.prems by (simp add: first_from_def)
    obtain j where j: "find_next_bit m bits (i + 1) = Some j" "first_from (region_bit m) bits (i + 1) j" using find_next_from [OF f] .
    have "bits - j < bits - i" using j(2) True by (cases "j < bits") (auto simp: first_from_def)
    then have "for_each_set_bit f m bits j s' = fold_opt f (from_bit m bits (i + 1)) s'" for s'
      using less.hyps [OF _ j(2)] from_bit_first [OF j(2)] by simp
    then show ?thesis using True j(1) from_bit_Cons [OF True b] by (subst for_each_set_bit.simps) (simp cong: Option.bind_cong)
  next
    case False
    then show ?thesis by (subst for_each_set_bit.simps) (simp add: from_bit_done)
  qed
qed

lemma rank_next: "first_from (region_bit m) bits (i + 1) j \<Longrightarrow> region_bit m i \<Longrightarrow> i < bits \<Longrightarrow> rank (bm m bits) j = rank (bm m bits) i + 1"
proof -
  assume j: "first_from (region_bit m) bits (i + 1) j" and i: "region_bit m i" "i < bits"
  have "{k \<in> bm m bits. k < j} = insert i {k \<in> bm m bits. k < i}"
  proof (rule set_eqI)
    fix k
    have "i < j" using j i(2) by (cases "j < bits") (auto simp: first_from_def)
    moreover have "k \<in> bm m bits \<Longrightarrow> k < j \<Longrightarrow> k \<le> i" using j unfolding bm_def first_from_def by (metis (mono_tags, lifting) Suc_eq_plus1 mem_Collect_eq not_less_eq_eq)
    ultimately show "k \<in> {k \<in> bm m bits. k < j} \<longleftrightarrow> k \<in> insert i {k \<in> bm m bits. k < i}" using i by (auto simp: bm_def)
  qed
  then show ?thesis by (simp add: rank_def)
qed

lemma rank_first: "first_from (region_bit m) bits 0 i \<Longrightarrow> rank (bm m bits) i = 0"
  by (auto simp: rank_def bm_def first_from_def)

lemma pos_to_ord_loop_rank:
  assumes f: "fits m bits" and p: "pos < bits" "region_bit m pos"
  shows "i \<le> pos \<Longrightarrow> region_bit m i \<Longrightarrow> ord = rank (bm m bits) i \<Longrightarrow> pos_to_ord_loop m bits pos i ord = Some (pos, rank (bm m bits) pos)"
proof (induction "pos - i" arbitrary: i ord rule: less_induct)
  case less
  show ?case
  proof (cases "i < pos")
    case True
    obtain j where j: "find_next_bit m bits (i + 1) = Some j" "first_from (region_bit m) bits (i + 1) j" using find_next_from [OF f] .
    have le: "j \<le> pos" using j(2) p True unfolding first_from_def by (metis Suc_eq_plus1 Suc_leI not_le)
    then have "j < bits" using p(1) by simp
    then have b: "region_bit m j" "i + 1 \<le> j" using j(2) by (simp_all add: first_from_def)
    have "pos_to_ord_loop m bits pos j (ord + 1) = Some (pos, rank (bm m bits) pos)"
      using less.hyps [of j "ord + 1"] le b True rank_next [OF j(2)] less.prems p(1) by simp
    with True j(1) show ?thesis by (subst pos_to_ord_loop.simps) simp
  next
    case False
    with less.prems show ?thesis by (subst pos_to_ord_loop.simps) simp
  qed
qed

lemma bitmap_pos_to_ord_rank:
  assumes "fits m bits"
  shows "bitmap_pos_to_ord m (int pos) bits = Some (if pos \<in> bm m bits then int (rank (bm m bits) pos) else - 1)"
proof (cases "pos < bits")
  case True
  then have t: "test_bit_at pos m = Some (region_bit m pos)" using test_bit_at_region [of pos m] assms by (simp add: fits_def)
  obtain i where i: "find_first_bit m bits = Some i" "first_from (region_bit m) bits 0 i" using find_first_first_from [OF assms] by blast
  show ?thesis
  proof (cases "region_bit m pos")
    case b: True
    have le: "i \<le> pos" using i(2) b True unfolding first_from_def by (meson le0 not_le)
    then have "region_bit m i" using i(2) True by (simp add: first_from_def)
    from pos_to_ord_loop_rank [OF assms True b le this rank_first [OF i(2), symmetric]] t i(1) True b show ?thesis
      by (simp add: bitmap_pos_to_ord_def bm_def)
  next
    case False
    with t True show ?thesis by (simp add: bitmap_pos_to_ord_def bm_def)
  qed
next
  case False
  then show ?thesis by (simp add: bitmap_pos_to_ord_def bm_def)
qed

lemma rank_less: "p \<in> bm m bits \<Longrightarrow> rank (bm m bits) p < card (bm m bits)"
  unfolding rank_def by (rule psubset_card_mono) auto

lemma rank_end: "rank (bm m bits) bits = card (bm m bits)"
  by (auto simp: rank_def bm_def intro: arg_cong [of _ _ card])

lemma rank_inj:
  assumes "p \<in> S" "q \<in> S" "rank S p = rank S q" "finite S"
  shows "p = q"
proof -
  have "rank S p < rank S q" if "p < q" "p \<in> S" for p q
    unfolding rank_def using that assms(4) by (intro psubset_card_mono) auto
  then show ?thesis using assms by (cases p q rule: linorder_cases) force+
qed

lemma ord_to_pos_loop_rank:
  assumes f: "fits m bits"
  shows "first_from (region_bit m) bits off i \<Longrightarrow>
    \<exists>j r. ord_to_pos_loop m bits i ord = Some (j, r) \<and>
      (if rank (bm m bits) i + ord < card (bm m bits) then j \<in> bm m bits \<and> r = 0 \<and> rank (bm m bits) j = rank (bm m bits) i + ord
       else bits \<le> j \<or> r \<noteq> 0)"
proof (induction ord arbitrary: i off)
  case 0
  then show ?case using rank_less [of i m bits] rank_end [of m bits]
    by (subst ord_to_pos_loop.simps) (cases "i < bits", auto simp: first_from_def bm_def)
next
  case (Suc ord)
  show ?case
  proof (cases "i < bits")
    case True
    then have b: "region_bit m i" using Suc.prems by (simp add: first_from_def)
    obtain j where j: "find_next_bit m bits (i + 1) = Some j" "first_from (region_bit m) bits (i + 1) j" using find_next_from [OF f] .
    have "rank (bm m bits) j + ord = rank (bm m bits) i + Suc ord" using rank_next [OF j(2) b True] by simp
    moreover have "ord_to_pos_loop m bits i (Suc ord) = ord_to_pos_loop m bits j ord" using True j(1) by (subst ord_to_pos_loop.simps) simp
    ultimately show ?thesis using Suc.IH [OF j(2)] by (simp only:)
  next
    case False
    then have "i = bits" using Suc.prems by (simp add: first_from_def)
    then show ?thesis using rank_end [of m bits] by (subst ord_to_pos_loop.simps) simp
  qed
qed

lemma card_bm_le: "card (bm m bits) \<le> bits"
  using card_mono [of "{..<bits}" "bm m bits"] by (auto simp: bm_def)

lemma bitmap_ord_to_pos_rank:
  assumes "fits m bits"
  shows "\<exists>p. bitmap_ord_to_pos m (int ord) bits = Some p \<and>
    (if ord < card (bm m bits) then p \<in> bm m bits \<and> rank (bm m bits) p = ord else p = 0)"
proof (cases "ord < bits")
  case True
  obtain i where i: "find_first_bit m bits = Some i" "first_from (region_bit m) bits 0 i" using find_first_first_from [OF assms] by blast
  obtain j r where j: "ord_to_pos_loop m bits i ord = Some (j, r)"
    "if ord < card (bm m bits) then j \<in> bm m bits \<and> r = 0 \<and> rank (bm m bits) j = ord else bits \<le> j \<or> r \<noteq> 0"
    using ord_to_pos_loop_rank [OF assms i(2), of ord] unfolding rank_first [OF i(2)] add_0 by blast
  from j(2) have "if ord < card (bm m bits) then (if j < bits \<and> r = 0 then j else 0) \<in> bm m bits \<and> rank (bm m bits) (if j < bits \<and> r = 0 then j else 0) = ord
      else (if j < bits \<and> r = 0 then j else 0) = 0"
    by (auto simp: bm_def)
  with True i(1) j(1) show ?thesis by (simp add: bitmap_ord_to_pos_def)
next
  case False
  then show ?thesis using card_bm_le [of m bits] by (simp add: bitmap_ord_to_pos_def)
qed

lemma bitmap_bitremap_rank:
  assumes "fits old bits" "fits new bits"
  shows "\<exists>p. bitmap_bitremap b old new bits = Some p \<and>
    (if b \<in> bm old bits \<and> bm new bits \<noteq> {} then p \<in> bm new bits \<and> rank (bm new bits) p = rank (bm old bits) b mod card (bm new bits)
     else p = b)"
proof (cases "b \<in> bm old bits \<and> bm new bits \<noteq> {}")
  case True
  let ?w = "card (bm new bits)"
  have w: "0 < ?w" using True by (simp add: card_gt_0_iff)
  obtain p where "bitmap_ord_to_pos new (int (rank (bm old bits) b mod ?w)) bits = Some p" "p \<in> bm new bits" "rank (bm new bits) p = rank (bm old bits) b mod ?w"
    using bitmap_ord_to_pos_rank [OF assms(2), of "rank (bm old bits) b mod ?w"] w by auto
  with True w show ?thesis
    by (simp add: bitmap_bitremap_def bitmap_weight_card [OF assms(2)] bitmap_pos_to_ord_rank [OF assms(1)] zmod_int)
next
  case False
  then show ?thesis
    by (auto simp: bitmap_bitremap_def bitmap_weight_card [OF assms(2)] bitmap_pos_to_ord_rank [OF assms(1)])
qed

lemma fold_set_bits:
  assumes "\<And>i s. i \<in> set xs \<Longrightarrow> f i s = set_bit_at (g i) s" "\<And>i. i \<in> set xs \<Longrightarrow> g i < bits"
  shows "fits dst bits \<Longrightarrow> \<exists>m. fold_opt f xs dst = Some m \<and> length m = length dst \<and> bm m bits = bm dst bits \<union> g ` set xs"
  using assms
proof (induction xs arbitrary: dst)
  case Nil
  then show ?case by simp
next
  case (Cons x xs)
  have "g x < 64 * length dst" using Cons.prems(1) Cons.prems(3) [of x] by (auto simp: fits_def)
  then obtain d where d: "set_bit_at (g x) dst = Some d" "length d = length dst"
    "\<forall>i < 64 * length dst. region_bit d i \<longleftrightarrow> i = g x \<or> region_bit dst i" using set_bit_at_region by blast
  have fd: "fits d bits" using Cons.prems(1) d(2) by (simp add: fits_def)
  have "bm d bits = insert (g x) (bm dst bits)" using d(3) Cons.prems(1) Cons.prems(3) [of x] by (auto simp: bm_def fits_def)
  then show ?case using Cons.IH [OF fd] Cons.prems(2,3) d(1,2) by simp
qed

lemma for_each_set_bits:
  assumes "fits src bits" "fits dst bits" "\<And>i s. i \<in> bm src bits \<Longrightarrow> f i s = set_bit_at (g i) s" "\<And>i. i \<in> bm src bits \<Longrightarrow> g i < bits"
  shows "\<exists>m. Option.bind (bitmap_zero dst bits) (\<lambda>d. Option.bind (find_first_bit src bits) (\<lambda>i. for_each_set_bit f src bits i d)) = Some m \<and>
    length m = length dst \<and> bm m bits = g ` bm src bits"
proof -
  obtain d where d: "bitmap_zero dst bits = Some d" "same_after dst d bits" "bm d bits = {}" using bitmap_zero_copy(1) [OF assms(2)] by blast
  obtain i where i: "find_first_bit src bits = Some i" "first_from (region_bit src) bits 0 i" using find_first_first_from [OF assms(1)] by blast
  have fd: "fits d bits" using assms(2) d(2) by (simp add: fits_def same_after_def)
  have s: "set (from_bit src bits 0) = bm src bits" by (simp add: from_bit_set)
  show ?thesis
    using fold_set_bits [of "from_bit src bits 0" f g bits d] assms(3,4) fd d i(1)
    by (simp add: s same_after_def for_each_fold [OF assms(1) i(2)])
qed

lemma bitmap_remap_image:
  assumes "fits dst bits" "fits src bits" "fits old bits" "fits new bits"
  shows "\<exists>m. bitmap_remap False dst src old new bits = Some m \<and> length m = length dst \<and>
    bm m bits = (\<lambda>b. the (bitmap_bitremap b old new bits)) ` bm src bits"
proof -
  let ?g = "\<lambda>b. the (bitmap_bitremap b old new bits)"
  let ?f = "\<lambda>oldbit dst. Option.bind (bitmap_pos_to_ord old (int oldbit) bits) (\<lambda>n.
    if n < 0 \<or> card (bm new bits) = 0 then set_bit_at oldbit dst
    else Option.bind (bitmap_ord_to_pos new (n mod int (card (bm new bits))) bits) (\<lambda>pos. set_bit_at pos dst))"
  have f: "?f b s = set_bit_at (?g b) s" for b s
  proof -
    obtain p where p: "bitmap_bitremap b old new bits = Some p" using bitmap_bitremap_rank [OF assms(3,4)] by blast
    then show ?thesis
      by (auto simp: bitmap_bitremap_def bitmap_weight_card [OF assms(4)] bitmap_pos_to_ord_rank [OF assms(3)] split: if_splits)
  qed
  have g: "?g b < bits" if "b \<in> bm src bits" for b
    using bitmap_bitremap_rank [OF assms(3,4), of b] that by (auto simp: bm_def split: if_splits)
  show ?thesis using for_each_set_bits [OF assms(2,1), of ?f ?g, OF f g]
    by (simp add: bitmap_remap_def bitmap_weight_card [OF assms(4)])
qed

lemma bitmap_fold_image:
  assumes "fits dst bits" "fits orig bits" "0 < sz"
  shows "\<exists>m. bitmap_fold False dst orig sz bits = Some m \<and> length m = length dst \<and> bm m bits = (\<lambda>b. b mod sz) ` bm orig bits"
proof -
  have "b mod sz < bits" if "b \<in> bm orig bits" for b using that le_less_trans [OF mod_less_eq_dividend [of b sz]] by (auto simp: bm_def)
  then show ?thesis using for_each_set_bits [OF assms(2,1), of "\<lambda>oldbit dst. if sz = 0 then None else set_bit_at (oldbit mod sz) dst" "\<lambda>b. b mod sz"] assms(3)
    by (simp add: bitmap_fold_def)
qed

lemma rank_Suc: "rank (bm m bits) (Suc i) = rank (bm m bits) i + (if i \<in> bm m bits then 1 else 0)"
proof -
  have "{k \<in> bm m bits. k < Suc i} = (if i \<in> bm m bits then insert i {k \<in> bm m bits. k < i} else {k \<in> bm m bits. k < i})"
    by (auto simp: less_Suc_eq)
  then show ?thesis by (simp add: rank_def)
qed

definition onto_step :: "u64 list \<Rightarrow> nat \<Rightarrow> nat \<times> u64 list \<Rightarrow> (nat \<times> u64 list) option" where
  "onto_step orig n = (\<lambda>(m, dst). do {
     set \<leftarrow> test_bit_at m orig;
     dst \<leftarrow> if set then set_bit_at n dst else Some dst;
     Some (m + 1, dst) })"

lemma onto_fold:
  assumes r: "fits orig bits"
  shows "i \<le> bits \<Longrightarrow> fits dst bits \<Longrightarrow> \<exists>k m. fold_opt (onto_step orig) (from_bit rel bits i) (rank (bm rel bits) i, dst) = Some (k, m) \<and> length m = length dst \<and>
    bm m bits = bm dst bits \<union> {n \<in> bm rel bits. i \<le> n \<and> rank (bm rel bits) n \<in> bm orig bits}"
proof (induction "bits - i" arbitrary: i dst)
  case 0
  then show ?case by (auto simp: from_bit_done bm_def)
next
  case (Suc d)
  let ?k = "rank (bm rel bits) i" and ?R = "\<lambda>i. {n \<in> bm rel bits. i \<le> n \<and> rank (bm rel bits) n \<in> bm orig bits}"
  have i: "i < bits" "d = bits - Suc i" "Suc i \<le> bits" using Suc.hyps(2) by simp_all
  show ?case
  proof (cases "region_bit rel i")
    case True
    then have b: "i \<in> bm rel bits" using i by (simp add: bm_def)
    have k: "?k < bits" using rank_less [OF b] card_bm_le [of rel bits] by simp
    then have t: "test_bit_at ?k orig = Some (region_bit orig ?k)" using test_bit_at_region [of ?k orig] r by (simp add: fits_def)
    have "i < 64 * length dst" using i(1) Suc.prems(2) by (simp add: fits_def)
    then obtain e where e: "set_bit_at i dst = Some e" "length e = length dst"
      "\<forall>j < 64 * length dst. region_bit e j \<longleftrightarrow> j = i \<or> region_bit dst j" using set_bit_at_region by blast
    define e' where "e' = (if region_bit orig ?k then e else dst)"
    have step: "onto_step orig i (?k, dst) = Some (rank (bm rel bits) (Suc i), e')"
      using t e(1) b by (simp add: onto_step_def rank_Suc e'_def)
    have "fits e' bits" "length e' = length dst" using Suc.prems(2) e(2) by (simp_all add: e'_def fits_def)
    with Suc.hyps(1) [OF i(2,3), of e'] obtain k m where m: "fold_opt (onto_step orig) (from_bit rel bits (Suc i)) (rank (bm rel bits) (Suc i), e') = Some (k, m)"
      "length m = length dst" "bm m bits = bm e' bits \<union> ?R (Suc i)" by auto
    have "bm e' bits = bm dst bits \<union> (if ?k \<in> bm orig bits then {i} else {})"
      using e(3) Suc.prems(2) i(1) k by (auto simp: e'_def bm_def fits_def)
    moreover have "?R i = ?R (Suc i) \<union> (if ?k \<in> bm orig bits then {i} else {})" using b by (auto simp: Suc_le_eq le_less)
    ultimately have "bm m bits = bm dst bits \<union> ?R i" using m(3) by blast
    then show ?thesis using m(1,2) step from_bit_Cons [OF i(1) True] by simp
  next
    case False
    then have b: "i \<notin> bm rel bits" by (simp add: bm_def)
    have "from_bit rel bits i = from_bit rel bits (Suc i)" using False i(1) by (simp add: from_bit_def upt_conv_Cons)
    moreover have "rank (bm rel bits) (Suc i) = ?k" "?R i = ?R (Suc i)"
      using b by (auto simp: rank_Suc Suc_le_eq le_less)
    ultimately show ?thesis using Suc.hyps(1) [OF i(2,3) Suc.prems(2)] by simp
  qed
qed

lemma bitmap_onto_ranks:
  assumes "fits dst bits" "fits orig bits" "fits relmap bits"
  shows "\<exists>m. bitmap_onto False dst orig relmap bits = Some m \<and> length m = length dst \<and>
    bm m bits = {n \<in> bm relmap bits. rank (bm relmap bits) n \<in> bm orig bits}"
proof -
  obtain d where d: "bitmap_zero dst bits = Some d" "same_after dst d bits" "bm d bits = {}" using bitmap_zero_copy(1) [OF assms(1)] by blast
  obtain i where i: "find_first_bit relmap bits = Some i" "first_from (region_bit relmap) bits 0 i" using find_first_first_from [OF assms(3)] by blast
  have fd: "fits d bits" using assms(1) d(2) by (simp add: fits_def same_after_def)
  have z: "rank (bm relmap bits) 0 = 0" by (simp add: rank_def)
  obtain k m where m: "fold_opt (onto_step orig) (from_bit relmap bits 0) (0, d) = Some (k, m)" "length m = length d"
    "bm m bits = {n \<in> bm relmap bits. rank (bm relmap bits) n \<in> bm orig bits}"
    using onto_fold [OF assms(2) le0 fd, of relmap] d(3) z by auto
  have "for_each_set_bit (onto_step orig) relmap bits i (0, d) = Some (k, m)" by (simp only: for_each_fold [OF assms(3) i(2)] m(1))
  then show ?thesis using d(1,2) i(1) m(2,3) by (simp add: bitmap_onto_def onto_step_def [abs_def] same_after_def)
qed

subsection \<open>Aligned regions\<close>

definition region :: "nat \<Rightarrow> nat \<Rightarrow> nat set" where
  "region pos order = {pos..<pos + 2 ^ order}"

lemma dvd_room: "a dvd r \<Longrightarrow> a dvd b \<Longrightarrow> r < b \<Longrightarrow> r + a \<le> (b :: nat)"
proof -
  assume "a dvd r" "a dvd b" and lt: "r < b"
  then obtain x y where xy: "r = a * x" "b = a * y" by (auto simp: dvd_def)
  then have "a * (x + 1) \<le> a * y" using lt by (intro mult_le_mono2) simp
  then show ?thesis using xy by simp
qed

lemma longs_one: "0 < n \<Longrightarrow> n < 64 \<Longrightarrow> BITS_TO_LONGS n = 1"
  unfolding BITS_TO_LONGS_def by (intro div_nat_eqI) auto

lemma ones_bit:
  assumes "0 < n" "n \<le> 64" "j < 64"
  shows "bit (push_bit (n - 1) (1 :: u64) + (push_bit (n - 1) 1 - 1)) j \<longleftrightarrow> j < n"
proof -
  have "push_bit (n - 1) (1 :: u64) + (push_bit (n - 1) 1 - 1) = 2 * 2 ^ (n - 1) - 1" by (simp add: push_bit_eq_mult)
  also have "\<dots> = mask n" using assms(1) by (simp add: mask_eq_exp_minus_1 power_Suc [symmetric])
  finally show ?thesis using assms(3) by (simp add: bit_mask_iff)
qed

lemma reg_longs_small:
  assumes "2 ^ order dvd pos" "order < 6"
  shows "set (reg_longs pos order) = {pos div 64}" "pos mod 64 + 2 ^ order \<le> 64" "(2 :: nat) ^ order < 64"
proof -
  have d: "(2 :: nat) ^ order dvd 64" using le_imp_power_dvd [of order 6 "2 :: nat"] assms(2) by simp
  show lt: "(2 :: nat) ^ order < 64" using power_strict_increasing [OF assms(2), of "2 :: nat"] by simp
  have "(0 :: nat) < 2 ^ order" by simp
  from longs_one [OF this lt] show "set (reg_longs pos order) = {pos div 64}" by (simp add: reg_longs_def)
  have "2 ^ order dvd pos mod 64" using assms(1) d by (simp add: dvd_mod)
  then show "pos mod 64 + 2 ^ order \<le> 64" using dvd_room d by simp
qed

lemma reg_longs_large:
  assumes "2 ^ order dvd pos" "\<not> order < 6"
  shows "\<exists>q n. pos = 64 * q \<and> 2 ^ order = 64 * n \<and> set (reg_longs pos order) = {q..<q + n} \<and> 0 < n"
proof -
  obtain e where e: "order = 6 + e" using assms(2) le_Suc_ex not_less by metis
  then have "64 dvd pos" using assms(1) by (auto simp: power_add intro: dvd_mult_left)
  then obtain q where q: "pos = 64 * q" by (auto simp: dvd_def)
  have n: "(2 :: nat) ^ order = 64 * 2 ^ e" by (simp add: e power_add)
  have "BITS_TO_LONGS (2 ^ order) = 2 ^ e" unfolding n by (simp add: BITS_TO_LONGS_def)
  then show ?thesis using q n by (intro exI [of _ q] exI [of _ "2 ^ e"]) (simp add: reg_longs_def)
qed

lemma reg_mask_bit:
  assumes "2 ^ order dvd pos" "k \<in> set (reg_longs pos order)" "j < 64"
  shows "bit (reg_mask pos order) j \<longleftrightarrow> 64 * k + j \<in> region pos order"
proof (cases "order < 6")
  case True
  note small = reg_longs_small [OF assms(1) True]
  have ar: "a \<le> j \<and> j - a < n \<longleftrightarrow> 64 * q + j \<in> {p..<p + n}" if "p = 64 * q + a" for p q a n :: nat
    using that by auto
  have "bit (reg_mask pos order) j \<longleftrightarrow> pos mod 64 \<le> j \<and> j - pos mod 64 < 2 ^ order"
    using ones_bit [of "2 ^ order" "j - pos mod 64"] small(3) assms(3) by (auto simp: reg_mask_def bit_push_bit_iff)
  also have "\<dots> \<longleftrightarrow> 64 * k + j \<in> region pos order" using ar [of pos "pos div 64" "pos mod 64" "2 ^ order"] small(1) assms(2) by (simp add: region_def)
  finally show ?thesis .
next
  case False
  obtain q n where n: "pos = 64 * q" "2 ^ order = 64 * n" "set (reg_longs pos order) = {q..<q + n}" "0 < n"
    using reg_longs_large [OF assms(1) False] by blast
  have "64 * k + j \<in> region pos order" unfolding region_def n using n(3) assms(2,3) by auto
  moreover have "bit (reg_mask pos order) j" using ones_bit [of 64 j] n assms(3) by (auto simp: reg_mask_def bit_push_bit_iff)
  ultimately show ?thesis by simp
qed

lemma region_longs:
  assumes "2 ^ order dvd pos" "i \<in> region pos order"
  shows "i div 64 \<in> set (reg_longs pos order)"
proof (cases "order < 6")
  case True
  have "i div 64 = pos div 64"
  proof (rule div_nat_eqI)
    have "pos = 64 * (pos div 64) + pos mod 64" "pos \<le> i" "i < pos + 2 ^ order" using assms(2) by (simp_all add: region_def)
    with reg_longs_small(2) [OF assms(1) True] show "64 * (pos div 64) \<le> i" "i < 64 * Suc (pos div 64)" unfolding mult_Suc_right by linarith+
  qed
  then show ?thesis using reg_longs_small(1) [OF assms(1) True] by simp
next
  case False
  obtain q n where n: "pos = 64 * q" "2 ^ order = 64 * n" "set (reg_longs pos order) = {q..<q + n}" "0 < n"
    using reg_longs_large [OF assms(1) False] by blast
  have "i div 64 < q + n" "q \<le> i div 64" using assms(2) unfolding region_def n by auto
  then show ?thesis using n(3) by simp
qed

lemma reg_longs_fit:
  assumes "2 ^ order dvd pos" "pos + 2 ^ order \<le> 64 * length m" "k \<in> set (reg_longs pos order)"
  shows "k < length m"
proof (cases "order < 6")
  case True
  then have "pos < 64 * length m" using assms(2) by (metis add_lessD1 less_exp less_le_trans le_less_trans nat_add_left_cancel_less zero_less_numeral zero_less_power add_0_right)
  then show ?thesis using reg_longs_small(1) [OF assms(1) True] assms(3) by auto
next
  case False
  obtain q n where n: "pos = 64 * q" "2 ^ order = 64 * n" "set (reg_longs pos order) = {q..<q + n}" "0 < n"
    using reg_longs_large [OF assms(1) False] by blast
  then show ?thesis using assms(2,3) unfolding n by auto
qed

lemma reg_isfree_region:
  assumes "2 ^ order dvd pos" "pos + 2 ^ order \<le> bits" "fits m bits"
  shows "reg_isfree m pos order = Some (region pos order \<inter> bm m bits = {})"
proof -
  let ?g = "\<lambda>k. m ! k AND reg_mask pos order"
  have len: "pos + 2 ^ order \<le> 64 * length m" using assms(2,3) by (simp add: fits_def)
  have "scan_words (\<lambda>k. map_option (\<lambda>w. w AND reg_mask pos order) (word_at m k)) (reg_longs pos order) = Some (\<exists>k \<in> set (reg_longs pos order). ?g k \<noteq> 0)"
    using reg_longs_fit [OF assms(1) len] by (intro scan_words_iff) (simp add: word_at_def)
  moreover have "(\<exists>k \<in> set (reg_longs pos order). ?g k \<noteq> 0) \<longleftrightarrow> region pos order \<inter> bm m bits \<noteq> {}"
  proof
    assume "\<exists>k \<in> set (reg_longs pos order). ?g k \<noteq> 0"
    then obtain k j where kj: "k \<in> set (reg_longs pos order)" "j < 64" "bit (?g k) j" using bit_word_zero by auto
    then have "64 * k + j \<in> region pos order" "bit (m ! k) j" using reg_mask_bit [OF assms(1)] by (auto simp: bit_and_iff)
    then have "64 * k + j \<in> region pos order \<inter> bm m bits" using kj(2) assms(2) by (auto simp: bm_def region_bit_def region_def)
    then show "region pos order \<inter> bm m bits \<noteq> {}" by blast
  next
    assume "region pos order \<inter> bm m bits \<noteq> {}"
    then obtain i where i: "i \<in> region pos order" "region_bit m i" by (auto simp: bm_def)
    have "bit (?g (i div 64)) (i mod 64)" using i reg_mask_bit [OF assms(1) region_longs [OF assms(1) i(1)], of "i mod 64"] by (simp add: bit_and_iff region_bit_def)
    then show "\<exists>k \<in> set (reg_longs pos order). ?g k \<noteq> 0" using region_longs [OF assms(1) i(1)] by (metis bit_0_eq bot_apply bot_bool_def)
  qed
  ultimately show ?thesis by (simp add: reg_isfree_def)
qed

lemma change_words_written:
  assumes "sets_bits f v" "distinct ks" "\<And>k. k \<in> set ks \<Longrightarrow> k < length m"
  shows "\<exists>m'. change_words (\<lambda>w. f w msk) ks m = Some m' \<and> written {i. i div 64 \<in> set ks \<and> bit msk (i mod 64)} v m m'"
  using assms(2,3)
proof (induction ks arbitrary: m)
  case Nil
  then show ?case by (simp add: written_def)
next
  case (Cons k ks)
  let ?m = "m[k := f (m ! k) msk]" and ?R = "{i. i div 64 = k \<and> bit msk (i mod 64)}"
  have k: "k < length m" using Cons.prems by simp
  have "written ?R v m ?m" by (rule written_word [OF assms(1) k]) auto
  moreover obtain m' where "change_words (\<lambda>w. f w msk) ks ?m = Some m'" "written {i. i div 64 \<in> set ks \<and> bit msk (i mod 64)} v ?m m'"
    using Cons.IH [of ?m] Cons.prems by auto
  moreover have "{i. i div 64 \<in> set (k # ks) \<and> bit msk (i mod 64)} = ?R \<union> {i. i div 64 \<in> set ks \<and> bit msk (i mod 64)}" by auto
  ultimately show ?case using written_trans k by (simp add: word_at_def put_word_def)
qed

lemma region_written:
  assumes "sets_bits f v" "2 ^ order dvd pos" "pos + 2 ^ order \<le> 64 * length m"
  shows "\<exists>m'. change_words (\<lambda>w. f w (reg_mask pos order)) (reg_longs pos order) m = Some m' \<and> written (region pos order) v m m'"
proof -
  have "{i. i div 64 \<in> set (reg_longs pos order) \<and> bit (reg_mask pos order) (i mod 64)} = region pos order"
  proof (rule set_eqI)
    fix i
    show "i \<in> {i. i div 64 \<in> set (reg_longs pos order) \<and> bit (reg_mask pos order) (i mod 64)} \<longleftrightarrow> i \<in> region pos order"
      using reg_mask_bit [OF assms(2), of "i div 64" "i mod 64"] region_longs [OF assms(2), of i] by auto
  qed
  then show ?thesis using change_words_written [OF assms(1), of "reg_longs pos order" m "reg_mask pos order"] reg_longs_fit [OF assms(2,3)]
    by (simp add: reg_longs_def)
qed

definition free_region :: "u64 list \<Rightarrow> nat \<Rightarrow> nat \<Rightarrow> nat \<Rightarrow> bool" where
  "free_region m bits order pos \<longleftrightarrow> 2 ^ order dvd pos \<and> pos + 2 ^ order \<le> bits \<and> region pos order \<inter> bm m bits = {}"

lemma reg_alloc_written:
  assumes "2 ^ order dvd pos" "pos + 2 ^ order \<le> bits" "fits m bits"
  shows "\<exists>m'. reg_alloc m pos order = Some m' \<and> written (region pos order) True m m'"
  unfolding reg_alloc_def using region_written [OF sets_bits_or assms(1), of m] assms(2,3) by (simp add: fits_def)

lemma release_region_written:
  assumes "2 ^ order dvd pos" "pos + 2 ^ order \<le> bits" "fits m bits"
  shows "\<exists>m'. bitmap_release_region m pos order = Some m' \<and> written (region pos order) False m m'"
  unfolding bitmap_release_region_def using region_written [OF sets_bits_andnot assms(1), of m] assms(2,3) by (simp add: fits_def)

lemma find_free_loop_first:
  assumes f: "fits m bits"
  shows "2 ^ order dvd pos \<Longrightarrow> \<forall>q < pos. \<not> free_region m bits order q \<Longrightarrow>
    (\<exists>p m'. find_free_loop m bits order pos = Some (int p, m') \<and> free_region m bits order p \<and>
       (\<forall>q < p. \<not> free_region m bits order q) \<and> written (region p order) True m m') \<or>
    find_free_loop m bits order pos = Some (- ENOMEM, m) \<and> (\<forall>q. \<not> free_region m bits order q)"
proof (induction "bits - pos" arbitrary: pos rule: less_induct)
  case less
  let ?e = "pos + 2 ^ order"
  have one: "(0 :: nat) < 2 ^ order" by simp
  have gap: "q \<le> pos" if "2 ^ order dvd q" "q < ?e" for q
    using dvd_room [OF less.prems(1) that(1)] that(2) by (meson not_le)
  show ?case
  proof (cases "?e \<le> bits")
    case True
    note free = reg_isfree_region [OF less.prems(1) True f]
    show ?thesis
    proof (cases "region pos order \<inter> bm m bits = {}")
      case fr: True
      obtain m' where m': "reg_alloc m pos order = Some m'" "written (region pos order) True m m'" using reg_alloc_written [OF less.prems(1) True f] by blast
      have "find_free_loop m bits order pos = Some (int pos, m')" using True free fr m'(1) by (subst find_free_loop.simps) (simp add: Let_def)
      moreover have "free_region m bits order pos" using True fr less.prems(1) by (simp add: free_region_def)
      ultimately show ?thesis using m'(2) less.prems(2) by blast
    next
      case False
      have run: "find_free_loop m bits order pos = find_free_loop m bits order ?e" using True free False by (subst find_free_loop.simps) (simp add: Let_def)
      have no: "\<forall>q < ?e. \<not> free_region m bits order q"
      proof (intro allI impI)
        fix q assume "q < ?e"
        then have "2 ^ order dvd q \<Longrightarrow> q < pos \<or> q = pos" using gap by (metis le_neq_implies_less)
        then show "\<not> free_region m bits order q" using less.prems(2) False unfolding free_region_def by blast
      qed
      have "bits - ?e < bits - pos" using True one by linarith
      moreover have "2 ^ order dvd ?e" using less.prems(1) by simp
      ultimately show ?thesis unfolding run using less.hyps [of ?e] no by blast
    qed
  next
    case False
    have "\<not> free_region m bits order q" for q
    proof (cases "q < pos")
      case False
      then have "bits < q + 2 ^ order" using \<open>\<not> ?e \<le> bits\<close> by linarith
      then show ?thesis by (simp add: free_region_def)
    qed (use less.prems(2) in blast)
    moreover have "find_free_loop m bits order pos = Some (- ENOMEM, m)" using False by (subst find_free_loop.simps) (simp add: Let_def)
    ultimately show ?thesis by blast
  qed
qed

subsection \<open>The bitmap operations\<close>

lemma bitmap_fill_bm:
  assumes "fits dst bits" "0 < bits"
  shows "\<exists>m. bitmap_fill dst bits = Some m \<and> same_after dst m bits \<and> bm m bits = {..<bits}"
proof -
  let ?L = "BITS_TO_LONGS bits" and ?M = "BITMAP_LAST_WORD_MASK bits"
  let ?g = "\<lambda>k. if k < ?L - 1 then NOT 0 else ?M"
  have L: "0 < ?L" using assms(2) longs_bit [of 0 bits] by simp
  then have l: "?L - 1 < length dst" using fits_longs [OF assms(1)] by simp
  have "map_words (\<lambda>_. Some (NOT 0)) [0..<?L - 1] dst = Some (over_words (\<lambda>_. NOT 0) {0..<?L - 1} dst)"
    using map_words_some [of "[0..<?L - 1]" "\<lambda>_. Some (NOT 0)" "\<lambda>_. NOT 0" dst] l by simp
  moreover have "(over_words (\<lambda>_. NOT 0) {0..<?L - 1} dst)[?L - 1 := ?M] = over_words ?g {0..<?L} dst"
    by (rule nth_equalityI) (use L l in \<open>auto simp: nth_list_update\<close>)
  ultimately have run: "bitmap_fill dst bits = Some (over_words ?g {0..<?L} dst)" using L l by (simp add: bitmap_fill_def put_word_def)
  have "bit (?g (i div 64)) (i mod 64)" if "i < bits" for i
  proof (cases "bits mod 64 = 0")
    case True
    then show ?thesis by (simp add: BITMAP_LAST_WORD_MASK_def)
  next
    case False
    then have "?L - 1 = bits div 64" using longs_eq(1) [of bits] mult_div_mod_eq [of 64 bits] by linarith
    moreover have "i div 64 \<le> bits div 64" using that by (simp add: div_le_mono)
    ultimately show ?thesis using last_mask_bit [OF that] by auto
  qed
  then have "bm (over_words ?g {0..<?L} dst) bits = {..<bits}" unfolding bm_over_all [OF assms(1)] by blast
  then show ?thesis using run same_after_over [of "{0..<?L}" bits] by simp
qed

text \<open>C37: On the set of the positions below \<open>bits\<close> that are set, the bitmap operations are the operations on sets:
  the five tests decide emptiness, fullness, equality, intersection and inclusion, the weight is the cardinality,
  and the word-parallel complement, intersection, union, symmetric difference, difference, fill, zero and copy compute
  exactly those sets, for any content of the unused bits of the last word, and change no word after the last.\<close>

theorem bitmap_set_algebra:
  assumes "fits dst bits" "fits m1 bits" "fits m2 bits" "0 < bits"
  shows "bitmap_empty m1 bits = Some (bm m1 bits = {}) \<and> bitmap_full m1 bits = Some (bm m1 bits = {..<bits}) \<and>
    bitmap_equal m1 m2 bits = Some (bm m1 bits = bm m2 bits) \<and>
    bitmap_intersects m1 m2 bits = Some (bm m1 bits \<inter> bm m2 bits \<noteq> {}) \<and>
    bitmap_subset m1 m2 bits = Some (bm m1 bits \<subseteq> bm m2 bits) \<and>
    bitmap_weight m1 bits = Some (card (bm m1 bits)) \<and>
    (\<exists>m. bitmap_complement dst m1 bits = Some m \<and> same_after dst m bits \<and> bm m bits = {..<bits} - bm m1 bits) \<and>
    (\<exists>any m. bitmap_and dst m1 m2 bits = Some (any, m) \<and> same_after dst m bits \<and> bm m bits = bm m1 bits \<inter> bm m2 bits) \<and>
    (\<exists>m. bitmap_or dst m1 m2 bits = Some m \<and> same_after dst m bits \<and> bm m bits = bm m1 bits \<union> bm m2 bits) \<and>
    (\<exists>m. bitmap_xor dst m1 m2 bits = Some m \<and> same_after dst m bits \<and> bm m bits = (bm m1 bits - bm m2 bits) \<union> (bm m2 bits - bm m1 bits)) \<and>
    (\<exists>any m. bitmap_andnot dst m1 m2 bits = Some (any, m) \<and> same_after dst m bits \<and> bm m bits = bm m1 bits - bm m2 bits) \<and>
    (\<exists>m. bitmap_fill dst bits = Some m \<and> same_after dst m bits \<and> bm m bits = {..<bits}) \<and>
    (\<exists>m. bitmap_zero dst bits = Some m \<and> same_after dst m bits \<and> bm m bits = {}) \<and>
    (\<exists>m. bitmap_copy dst m1 bits = Some m \<and> same_after dst m bits \<and> bm m bits = bm m1 bits)"
  using bitmap_tests [OF assms(2,3)] bitmap_weight_card [OF assms(2)] bitmap_complement_bm [OF assms(1,2)]
    bitmap_and_andnot [OF assms(1,2,3)] bitmap_or_xor [OF assms(1,2,3)] bitmap_fill_bm [OF assms(1,4)]
    bitmap_zero_copy(1) [OF assms(1)] bitmap_zero_copy(2) [OF assms(1,2)] by blast

theorem bitmap_set_algebra_witness:
  "fits [0, 0] 66 \<and> fits [5, 9] 66 \<and> fits [4, 3] 66 \<and> bitmap_weight [5, 9] 66 = Some (card (bm [5, 9] 66)) \<and>
   bitmap_subset [4, 3] [5, 9] 66 = Some (bm [4, 3] 66 \<subseteq> bm [5, 9] 66)"
  using bitmap_set_algebra [of "[0, 0]" 66 "[5, 9]" "[4, 3]"] bitmap_set_algebra [of "[0, 0]" 66 "[4, 3]" "[5, 9]"] by (simp add: fits_def)

text \<open>C38: A shift of a bitmap moves every position by the distance, across word borders and for every distance up to
  the size: positions shifted out at either end are lost, vacated positions are clear, and the unused bits of the last
  word of the source are never shifted in.\<close>

theorem bitmap_shifts_correct:
  assumes "fits dst bits" "fits src bits" "n \<le> bits"
  shows "(\<exists>m. bitmap_shift_right dst src n bits = Some m \<and> same_after dst m bits \<and> bm m bits = {i. i + n \<in> bm src bits}) \<and>
    (\<exists>m. bitmap_shift_left dst src n bits = Some m \<and> same_after dst m bits \<and> bm m bits = {i. i < bits \<and> n \<le> i \<and> i - n \<in> bm src bits})"
  using bitmap_shift_right_bm [OF assms] bitmap_shift_left_bm [OF assms] by blast

theorem bitmap_shifts_correct_witness:
  "\<exists>m. bitmap_shift_right [0, 0] [0, 0xff] 66 68 = Some m \<and> bm m 68 = {i. i + 66 \<in> bm [0, 0xff] 68}"
  using bitmap_shifts_correct [of "[0, 0]" 68 "[0, 0xff]" 66] by (auto simp: fits_def)

text \<open>C39: The search for a free aligned region of \<open>2 ^ order\<close> bits returns the lowest one and sets exactly its bits,
  or returns -ENOMEM and changes nothing when there is none; allocating a given region succeeds exactly if it is
  free, and otherwise returns -EBUSY and changes nothing; releasing a region clears exactly its bits.\<close>

theorem bitmap_regions_correct:
  assumes "fits m bits" "2 ^ order dvd pos" "pos + 2 ^ order \<le> bits"
  shows "((\<exists>p m'. bitmap_find_free_region m bits order = Some (int p, m') \<and> free_region m bits order p \<and>
         (\<forall>q < p. \<not> free_region m bits order q) \<and> written (region p order) True m m') \<or>
       bitmap_find_free_region m bits order = Some (- ENOMEM, m) \<and> (\<forall>q. \<not> free_region m bits order q)) \<and>
    (if region pos order \<inter> bm m bits = {}
     then \<exists>m'. bitmap_allocate_region m pos order = Some (0, m') \<and> written (region pos order) True m m'
     else bitmap_allocate_region m pos order = Some (- 16, m)) \<and>
    (\<exists>m'. bitmap_release_region m pos order = Some m' \<and> written (region pos order) False m m')"
proof (intro conjI)
  show "(\<exists>p m'. bitmap_find_free_region m bits order = Some (int p, m') \<and> free_region m bits order p \<and>
         (\<forall>q < p. \<not> free_region m bits order q) \<and> written (region p order) True m m') \<or>
       bitmap_find_free_region m bits order = Some (- ENOMEM, m) \<and> (\<forall>q. \<not> free_region m bits order q)"
    unfolding bitmap_find_free_region_def using find_free_loop_first [OF assms(1), of order 0] by simp
  show "if region pos order \<inter> bm m bits = {}
     then \<exists>m'. bitmap_allocate_region m pos order = Some (0, m') \<and> written (region pos order) True m m'
     else bitmap_allocate_region m pos order = Some (- 16, m)"
    using reg_alloc_written [OF assms(2,3,1)] reg_isfree_region [OF assms(2,3,1)] by (auto simp: bitmap_allocate_region_def)
  show "\<exists>m'. bitmap_release_region m pos order = Some m' \<and> written (region pos order) False m m'"
    by (rule release_region_written [OF assms(2,3,1)])
qed

theorem bitmap_regions_correct_witness:
  "\<exists>m'. bitmap_release_region [0xff, 7] 64 1 = Some m' \<and> written (region 64 1) False [0xff, 7] m'"
  using bitmap_regions_correct [of "[0xff, 7]" 128 1 64] by (simp add: fits_def)



end
