(* ===== verification/Spec2Isabelle.thy ===== *)
theory Spec2Isabelle
  imports PageAlloc_Bitmap PtSpace Locks Bitmap
begin

text \<open>
  \<^bold>\<open>The memory core of McKernel.\<close>  McKernel is a lightweight kernel that runs beside Linux on cores
  and memory the host gives it.  This development models its memory management from the bottom to the
  address space of a process and its page tables, for the x86_64 build with \<open>IHK_RBTREE_ALLOCATOR\<close> and \<open>ENABLE_RUSAGE\<close>, and the spin locks
  all of it runs under.  Paths are relative to \<open>src/\<close>.

  \<^bold>\<open>Parts and how they interact.\<close>  At boot \<open>mem_init\<close> hands the physical memory to NUMA
  nodes.  A node keeps its free memory in a red-black tree of chunks and in lock-less lists of chunks that
  are zeroed or wait to be.  \<open>mckernel_allocate_aligned_pages_node\<close> chooses a node for a request, \<open>kmalloc\<close>
  cuts pages into heap chunks per CPU, the page hash finds the structure of a physical page, the
  accounting counts it, and the ranges of a process (a red-black tree again) decide what an address
  means.  The page tables of the process, four levels of pages taken from the same allocator, carry that out for
  the hardware.

  \<^bold>\<open>Theories.\<close>  Every theory opens with the files it models; operations keep their C names where
  Isabelle allows it.

  \<^item> \<open>Prelude\<close>: machine words, page constants, error numbers, list and word lemmas.
  \<^item> \<open>RBTree\<close>, \<open>RBTree_Lemmas\<close>: \<open>kernel/rbtree.c\<close> and its headers.  A node with parent pointers is the focus
    of a zipper, so that the loops which climb from a node are recursions over its path.  Insertion and
    deletion keep every red-black law and change exactly one position of the in-order list; reachable trees
    are balanced.
  \<^item> \<open>PageAlloc_Spec\<close>: the contract of a physical allocator, as the locale \<open>phys_allocator\<close>: an allocation
    takes a free aligned range, a free gives back a used one.  Inside it, any sequence of requests
    conserves ownership.  It is interpreted four times: \<open>rbp\<close>, \<open>numa\<close>, \<open>bmp\<close> and \<open>kpages\<close>.
  \<^item> \<open>PageAlloc_RB\<close>: the tree allocator of \<open>lib/page_alloc.c\<close>: first fit, merging, double frees.
  \<^item> \<open>Numa\<close>: the node routines of \<open>lib/page_alloc.c\<close> and \<open>kernel/llist.c\<close>, with deferred zeroing and the
    retry loop that zeroes on demand.
  \<^item> \<open>Bitops\<close>, \<open>PageAlloc_Bitmap\<close>: \<open>lib/bitops.c\<close> and the bitmap allocator of \<open>lib/page_alloc.c\<close>.  Accesses
    outside the map and panics are values of the result.
  \<^item> \<open>Bitmap\<close>: \<open>lib/bitmap.c\<close>, its header and the population count of \<open>lib/bitops.c\<close>.  \<open>bm m bits\<close> is the set of
    positions of a bitmap; tests, word-parallel operations, shifts, ranges, searches, renumbering by ranks and aligned
    regions are proved to be operations on it.  Printing and parsing are left out.
  \<^item> \<open>VmTypes\<close>, \<open>VmRange\<close>, \<open>VmSpace\<close>: the ranges of \<open>kernel/process.c\<close>: lookup cache, tree, split, join,
    add, remove, extend, protect, copy at fork.  \<open>VmSpace\<close> proves that they refine operations on a map from
    addresses to flags and object bytes.
  \<^item> \<open>Rusage\<close>: \<open>kernel/include/rusage_private.h\<close>.  \<open>PageHash\<close>: the page hash of \<open>kernel/mem.c\<close>.
  \<^item> \<open>Kmalloc\<close>: the kernel heap of \<open>kernel/mem.c\<close>, headers in a store indexed by address, over any source
    of pages that satisfies the locale \<open>page_provider\<close>.
  \<^item> \<open>MemPages\<close>: the page allocation of \<open>kernel/mem.c\<close>: NUMA policies, accounting, deallocation, pending
    frees.  It interprets \<open>phys_allocator\<close> (\<open>kpages\<close>) and \<open>page_provider\<close> (\<open>kheap_pages\<close>).
  \<^item> \<open>NumaInit\<close>: \<open>numa_init\<close> and \<open>numa_distances_init\<close> of \<open>kernel/mem.c\<close>, which establish the invariant.
  \<^item> \<open>PageTable\<close>: \<open>arch/x86_64/kernel/memory.c\<close> and \<open>arch-memory.h\<close>: entries and attributes, single pages, the walk
    over a range (\<open>walk_pte_l1\<close> to \<open>walk_pte_l4\<close>) and the operations that run on it: clear and free, change of attributes,
    mapping, visiting, splitting and moving; creation and destruction of tables.  Tables are a store from
    virtual addresses to functions from index to entry, over the memory system of \<open>MemPages\<close>.
  \<^item> \<open>PtTree\<close>, \<open>PtMem\<close>: the tree of tables.  \<open>pt_inv n r s\<close> says that the first \<open>n\<close> entries of the top table \<open>r\<close>
    lead to a tree of allocated pages that are not free, each reached by one path; \<open>pte_at r s v\<close> is the level and value of
    the entry of address \<open>v\<close>; \<open>pt_total\<close> is the memory that is free or a table.
  \<^item> \<open>PtPage\<close>: translation equals the hardware's walk; mapping a single page.
  \<^item> \<open>PtWalk\<close>: the locale \<open>range_walk\<close>, the contract of a walk: a per-entry operation that advances an invariant
    past its entry gives a walk that advances it over the range.  It is interpreted as \<open>clr\<close> (\<open>PtClear\<close>), \<open>chg\<close> (\<open>PtAttr\<close>) and
    \<open>rset\<close> (\<open>PtSet\<close>), where the three range operations are proved correct.
  \<^item> \<open>PtSpace\<close>: all operations of a process on its page tables, in any order, and two processes beside each
    other.
  \<^item> \<open>Locks\<close>: the ticket lock and the read-write lock of \<open>arch/x86_64/kernel/include/arch-lock.h\<close> as
    step relations, one step per atomic instruction, over the locale \<open>lock_machine\<close> (interpreted as
    \<open>spin\<close> and \<open>rw\<close>).

  \<^bold>\<open>State and errors.\<close>  C structures are records with the names of their fields behind a short prefix;
  pointers to structures are indices of a store (\<open>vm_range\<close>, page structures, heap headers) or, where
  the structure lives in one tree or list only, the structure itself.  The result \<open>None\<close> of a function into
  an option type is a dereferenced null pointer, an access outside an array, a panic or a loop that
  never ends; a claim that a call returns is a claim that the result is \<open>Some\<close>.  Error numbers are the negative
  integers of the C code.

  \<^bold>\<open>Bounds and fuel.\<close>  No model runs on fuel: loops are recursive functions with a termination proof, except the
  loops whose end depends on the state (the retry loop of \<open>Numa\<close>, the loops of \<open>VmRange\<close>, the searches of \<open>Bitmap\<close>), which are
  partial functions into an option type.  \<open>PHYS_LIMIT\<close> bounds physical addresses; allocation requests are
  below \<open>2 ^ 31\<close> bytes because the code shifts page counts as \<open>int\<close>, and what happens beyond is
  proved in \<open>Numa\<close>.  The ticket lock theorems allow \<open>2 ^ 15\<close> CPUs, half of what 16-bit tickets can tell
  apart; the read-write lock theorem allows \<open>2 ^ 30\<close>.  The page table theorems are about addresses below \<open>n * 2 ^ 39\<close>
  with \<open>n\<close> at most 512 top entries (256 for a process, whose upper half is shared with the kernel) and about physical
  addresses below \<open>2 ^ 52\<close>, the width of an entry.

  \<^bold>\<open>Not modelled.\<close>  The contents of memory; the locks around page tables, the visitors of live kernel tables, the
  tables of the boot and the printing of entries; weak memory ordering (steps of the lock models are
  sequentially consistent); the allocation tracking of the debug build; the arm64 port; page faults and the
  object kinds behind ranges (files, devices, shared memory), which exchange messages with the host;
  the scheduler, signals and interrupts, which are assembly and hardware registers; the Linux modules and
  the launcher under \<open>executer/\<close>; procfs, sysfs, XPMEM and the Tofu driver.
\<close>

end
